(* ===== verification/Prelude.thy ===== *)
theory Prelude
  imports Main "HOL-Library.Word"
begin

text \<open>
  The prelude of the development: the machine types of \<open>include/sys/defs.h\<close>, the loop
  combinators the components share (a pointer chase \<open>while (c p) p = p->next\<close>, a page loop
  \<open>while (start < end) start += 0x1000\<close>), paths and rings of a \<open>next\<close> field, and the facts on
  words, page masks and page-table entries that several components use. The collections
  \<open>ptr_simps\<close> (pointer loops), \<open>page_simps\<close> (page addresses and entry bits) and
  \<open>frame_simps\<close> (what an operation leaves alone) are filled along the development.
\<close>

unbundle bit_operations_syntax

named_theorems ptr_simps \<open>facts about pointer chasing over paths and rings\<close>
named_theorems page_simps \<open>facts about page addresses, frame masks and entry bits\<close>
named_theorems frame_simps \<open>fields an operation does not write\<close>

section \<open>Machine types\<close>

type_synonym u8 = "8 word"
type_synonym u16 = "16 word"
type_synonym u32 = "32 word"
type_synonym u64 = "64 word"
type_synonym i32 = "32 word" \<comment> \<open>a C \<open>int\<close>, read with \<^term>\<open>sint\<close>\<close>
type_synonym i64 = "64 word" \<comment> \<open>a C \<open>int64_t\<close>\<close>

abbreviation NULL :: u64 where "NULL \<equiv> 0"

text \<open>A page is 4096 bytes, 512 words of 64 bits.\<close>

abbreviation PAGE :: u64 where "PAGE \<equiv> 0x1000"

section \<open>Pointer loops\<close>

text \<open>
  The loop \<open>while (c(p)) p = next(p);\<close> of the source. It need not stop (a ring whose
  condition never fails), so it is a partial function: \<^term>\<open>None\<close> is a loop that runs forever.
\<close>

partial_function (option) chase :: "('p \<Rightarrow> bool) \<Rightarrow> ('p \<Rightarrow> 'p) \<Rightarrow> 'p \<Rightarrow> 'p option" where
  "chase c nx p = (if c p then chase c nx (nx p) else Some p)"

text \<open>
  The loop \<open>while (p != stop) { body(p); p = p->next; }\<close>, where the body may change the state
  the \<open>next\<close> field lives in and may itself fail to return.
\<close>

partial_function (option) for_ptrs ::
    "('s \<Rightarrow> 'p \<Rightarrow> 'p) \<Rightarrow> 'p \<Rightarrow> ('p \<Rightarrow> 's \<Rightarrow> 's option) \<Rightarrow> 'p \<Rightarrow> 's \<Rightarrow> 's option" where
  "for_ptrs nx stop body p s =
     (if p = stop then Some s
      else Option.bind (body p s) (\<lambda>s'. for_ptrs nx stop body (nx s' p) s'))"

text \<open>The loop \<open>while (start < end) { body(start); start += 0x1000; }\<close> on 64-bit addresses.\<close>

partial_function (option) for_pages ::
    "(u64 \<Rightarrow> 's \<Rightarrow> 's option) \<Rightarrow> u64 \<Rightarrow> u64 \<Rightarrow> 's \<Rightarrow> 's option" where
  "for_pages body start en s =
     (if start < en
      then Option.bind (body start s) (\<lambda>s'. for_pages body (start + PAGE) en s')
      else Some s)"

section \<open>Paths and rings of a next field\<close>

text \<open>\<^term>\<open>path nx p xs q\<close>: following \<open>nx\<close> from \<open>p\<close> visits exactly \<open>xs\<close> and then arrives at \<open>q\<close>.\<close>

primrec path :: "('p \<Rightarrow> 'p) \<Rightarrow> 'p \<Rightarrow> 'p list \<Rightarrow> 'p \<Rightarrow> bool" where
  "path nx p [] q \<longleftrightarrow> p = q"
| "path nx p (x # xs) q \<longleftrightarrow> p = x \<and> path nx (nx x) xs q"

text \<open>
  \<^term>\<open>ring nx h ts\<close>: the circular run queue seen from the running task \<open>h\<close>: the others, in
  the order in which the scheduler will reach them, are \<open>ts\<close>.
\<close>

definition ring :: "('p \<Rightarrow> 'p) \<Rightarrow> 'p \<Rightarrow> 'p list \<Rightarrow> bool" where
  "ring nx h ts \<longleftrightarrow> path nx (nx h) ts h \<and> distinct (h # ts)"

lemma path_append [simp]:
  "path nx p (xs @ ys) q \<longleftrightarrow> (\<exists>r. path nx p xs r \<and> path nx r ys q)"
  by (induction xs arbitrary: p) auto

lemma path_upd [simp]: "a \<notin> set xs \<Longrightarrow> path (nx(a := b)) p xs q \<longleftrightarrow> path nx p xs q"
  by (induction xs arbitrary: p) auto

lemma path_cong: "(\<And>x. x \<in> set xs \<Longrightarrow> nx x = nx' x) \<Longrightarrow> path nx p xs q \<longleftrightarrow> path nx' p xs q"
  by (induction xs arbitrary: p) auto

lemma path_unique: "path nx p xs q \<Longrightarrow> path nx p ys q \<Longrightarrow> q \<notin> set xs \<Longrightarrow> q \<notin> set ys \<Longrightarrow> xs = ys"
proof (induction xs arbitrary: p ys)
  case Nil
  then show ?case by (cases ys) auto
next
  case (Cons x xs)
  then show ?case by (cases ys) auto
qed

lemma chase_stop: "\<not> c p \<Longrightarrow> chase c nx p = Some p"
  by (simp add: chase.simps)

lemma chase_step: "c p \<Longrightarrow> chase c nx p = chase c nx (nx p)"
  by (simp add: chase.simps [of c nx p])

lemma chase_path:
  "path nx p xs q \<Longrightarrow> (\<And>x. x \<in> set xs \<Longrightarrow> c x) \<Longrightarrow> \<not> c q \<Longrightarrow> chase c nx p = Some q"
proof (induction xs arbitrary: p)
  case Nil
  then show ?case by (auto intro: chase_stop)
next
  case (Cons x xs)
  from Cons.prems(1) have px: "p = x" and rest: "path nx (nx x) xs q" by auto
  have "chase c nx (nx x) = Some q"
    by (rule Cons.IH [OF rest]) (use Cons.prems in auto)
  with px Cons.prems(2) show ?case by (simp add: chase_step)
qed

lemma ring_nonempty_next: "ring nx h (t # ts) \<Longrightarrow> nx h = t"
  by (auto simp: ring_def)

lemma ring_Nil [simp]: "ring nx h [] \<longleftrightarrow> nx h = h"
  by (simp add: ring_def)

lemma path_last: "path nx p (xs @ [x]) q \<Longrightarrow> nx x = q"
  by simp

text \<open>The next task's view of the same ring: the old head goes to the end.\<close>

lemma ring_rotate: "ring nx h (t # ts) \<Longrightarrow> ring nx t (ts @ [h])"
  by (auto simp: ring_def)

text \<open>The last task of the ring points at the head; the search for it stops there.\<close>

lemma ring_find_last:
  assumes "ring nx h ts"
  shows "chase (\<lambda>x. nx x \<noteq> h) nx h = Some (last (h # ts))"
proof (cases ts rule: rev_cases)
  case Nil
  with assms show ?thesis by (simp add: chase_stop)
next
  case (snoc us u)
  from assms snoc have p: "path nx h (h # us) u" and un: "nx u = h"
    and d: "distinct (h # us @ [u])" by (auto simp: ring_def)
  have nh: "nx x \<noteq> h" if "x \<in> set (h # us)" for x
  proof -
    have "\<exists>y. y \<in> set (us @ [u]) \<and> nx x = y"
      using p that
    proof (induction us arbitrary: h)
      case Nil
      then show ?case by auto
    next
      case (Cons a us)
      show ?case
      proof (cases "x = h")
        case True
        with Cons.prems show ?thesis by auto
      next
        case False
        with Cons.prems have "path nx a (a # us) u" "x \<in> set (a # us)" by auto
        from Cons.IH [OF this] show ?thesis by auto
      qed
    qed
    with d show ?thesis by auto
  qed
  have "chase (\<lambda>x. nx x \<noteq> h) nx h = Some u"
    by (rule chase_path [OF p]) (use nh un in auto)
  with snoc show ?thesis by simp
qed

lemma find_split: "find P xs = Some x \<Longrightarrow> \<exists>as bs. xs = as @ x # bs \<and> (\<forall>y \<in> set as. \<not> P y) \<and> P x"
proof (induction xs)
  case (Cons y ys)
  show ?case
  proof (cases "P y")
    case True
    with Cons.prems show ?thesis by (intro exI [of _ "[]"] exI [of _ ys]) simp
  next
    case False
    with Cons obtain as bs where "ys = as @ x # bs" "\<forall>y \<in> set as. \<not> P y" "P x" by auto
    with False show ?thesis by (intro exI [of _ "y # as"] exI [of _ bs]) simp
  qed
qed simp

text \<open>The search for the predecessor of the first task with a property: it stops at the end of the ring when there is none.\<close>

lemma ring_find_before:
  assumes "ring nx h ts"
  shows "chase (\<lambda>t. nx t \<noteq> h \<and> \<not> P (nx t)) nx h = Some (last (h # takeWhile (\<lambda>t. \<not> P t) ts))"
proof -
  define as bs where "as = takeWhile (\<lambda>t. \<not> P t) ts" and "bs = dropWhile (\<lambda>t. \<not> P t) ts"
  then have ts: "ts = as @ bs" and as: "\<forall>y \<in> set as. \<not> P y" by (auto dest: set_takeWhileD)
  obtain us p where us: "h # as = us @ [p]" by (metis append_butlast_last_id list.distinct(1))
  have d: "distinct (h # as @ bs)" and pa: "path nx h (us @ [p]) (hd (bs @ [h]))"
    using assms unfolding ring_def ts us [symmetric] by (cases bs; auto)+
  then have pp: "path nx h us p" and np: "nx p = hd (bs @ [h])" by auto
  have "nx y \<noteq> h \<and> \<not> P (nx y)" if "y \<in> set us" for y
  proof -
    from that obtain k l where kl: "us = k @ y # l" by (auto simp: in_set_conv_decomp)
    with pp have "path nx (nx y) l p" by auto
    then have "nx y \<in> set (l @ [p])" by (cases l) auto
    moreover have "h # as = k @ y # (l @ [p])" using us kl by simp
    then have "set (l @ [p]) \<subseteq> set as" by (cases k) auto
    ultimately have "nx y \<in> set as" by blast
    with as d show ?thesis by auto
  qed
  moreover have "\<not> (nx p \<noteq> h \<and> \<not> P (nx p))"
    using np hd_dropWhile [of "\<lambda>t. \<not> P t" ts] by (cases bs) (auto simp: bs_def [symmetric])
  ultimately have "chase (\<lambda>t. nx t \<noteq> h \<and> \<not> P (nx t)) nx h = Some p" by (intro chase_path [OF pp]) auto
  moreover have "last (h # as) = p" using us by (metis last_snoc)
  ultimately show ?thesis by (simp add: as_def)
qed

lemma for_ptrs_stop [simp]: "for_ptrs nx p body p s = Some s"
  by (simp add: for_ptrs.simps)

lemma for_ptrs_step:
  "p \<noteq> stop \<Longrightarrow> for_ptrs nx stop body p s =
     Option.bind (body p s) (\<lambda>s'. for_ptrs nx stop body (nx s' p) s')"
  by (simp add: for_ptrs.simps [of nx stop body p])

text \<open>
  Along a path the loop runs its body on the pointers of the path in order, when the body
  does not touch the \<open>next\<close> field; \<open>f\<close> is what the body does.
\<close>

lemma for_ptrs_fold:
  assumes "path (nx s) p xs stop" and "stop \<notin> set xs"
    and "\<And>x s. body x s = Some (f x s)" and "\<And>x s. nx (f x s) = nx s"
  shows "for_ptrs nx stop body p s = Some (fold f xs s)"
  using assms(1,2)
proof (induction xs arbitrary: p s)
  case Nil
  then show ?case by simp
next
  case (Cons x xs)
  then have p: "p = x" "x \<noteq> stop" and rest: "path (nx (f x s)) (nx s x) xs stop"
    by (auto simp: assms(4))
  from Cons.prems(2) have "stop \<notin> set xs" by simp
  from Cons.IH [OF rest this] p show ?case
    by (simp add: for_ptrs_step assms(3,4))
qed

section \<open>Words\<close>

lemma unat_of_nat_small [simp]: "n < 2 ^ 64 \<Longrightarrow> unat (of_nat n :: u64) = n"
  by (simp add: unat_of_nat)

lemma unat_lt_2p64 [simp]: "unat (w :: u64) < 18446744073709551616"
  using unsigned_less [of w, where ?'a = nat] by simp

lemma of_nat_inj_64: "m < 2 ^ 64 \<Longrightarrow> n < 2 ^ 64 \<Longrightarrow> (of_nat m :: u64) = of_nat n \<longleftrightarrow> m = n"
  by (metis unat_of_nat_small)

lemma unat_minus_1_64 [simp]: "unat (- 1 :: u64) = 18446744073709551615"
  by (simp add: unsigned_minus_1_eq_mask mask_eq_exp_minus_1)

lemma unat_add_64: "unat a + unat b < 2 ^ 64 \<Longrightarrow> unat (a + b :: u64) = unat a + unat b"
  using unat_add_lem [of a b] by simp

lemma unat_mult_64: "unat a * unat b < 2 ^ 64 \<Longrightarrow> unat (a * b :: u64) = unat a * unat b"
  using unat_mult_lem [of a b] by simp

section \<open>Signed integers\<close>

text \<open>C's \<open>%\<close> on \<open>int\<close>: the remainder has the sign of the left operand.\<close>

definition c_rem :: "i32 \<Rightarrow> int \<Rightarrow> i32" where
  "c_rem w m = word_of_int (sgn (sint w) * (\<bar>sint w\<bar> mod m))"

lemma c_rem_nat: "n < 2 ^ 31 \<Longrightarrow> 0 < m \<Longrightarrow> c_rem (of_nat n) (int m) = of_nat (n mod m)"
  by (simp add: c_rem_def signed_of_nat signed_take_bit_int_eq_self sgn_if zmod_int [symmetric] del: of_nat_mod)

lemma of_nat_small_0: "n < 2 ^ 31 \<Longrightarrow> (of_nat n :: i32) = 0 \<longleftrightarrow> n = 0"
  using word_of_nat_eq_0_iff [of n, where ?'a = 32] by (auto dest: dvd_imp_le)

section \<open>Loops that keep an invariant\<close>

text \<open>
  A page loop ends unless its end lies in the last page of the address space; a pointer loop
  along a path ends. Both keep what their bodies keep.
\<close>

lemma for_pages_inv:
  assumes "unat en + 4096 \<le> 2 ^ 64" and "I s"
    and step: "\<And>a s. a < en \<Longrightarrow> I s \<Longrightarrow> \<exists>s'. body a s = Some s' \<and> I s'"
  shows "\<exists>s'. for_pages body st en s = Some s' \<and> I s'"
  using assms(2)
proof (induction "unat en - unat st" arbitrary: st s rule: less_induct)
  case less
  show ?case
  proof (cases "st < en")
    case True
    with step less.prems obtain s1 where s1: "body st s = Some s1" "I s1" by blast
    from True have lt: "unat st < unat en" by (simp add: word_less_nat_alt)
    with assms(1) have "unat (st + PAGE) = unat st + 4096" by (subst unat_add_64) simp_all
    with lt have "unat en - unat (st + PAGE) < unat en - unat st" by simp
    from less.hyps [OF this s1(2)] s1(1) True show ?thesis
      by (simp add: for_pages.simps [of body st])
  next
    case False
    with less.prems show ?thesis by (simp add: for_pages.simps [of body st])
  qed
qed

lemma for_ptrs_inv:
  assumes "path nx0 p xs stop" and "stop \<notin> set xs" and "I s" and "\<And>s. I s \<Longrightarrow> nx s = nx0"
    and "\<And>x s. x \<in> set xs \<Longrightarrow> I s \<Longrightarrow> \<exists>s'. body x s = Some s' \<and> I s'"
  shows "\<exists>s'. for_ptrs nx stop body p s = Some s' \<and> I s'"
  using assms(1,2,3,5)
proof (induction xs arbitrary: p s)
  case (Cons x xs)
  then have p: "p = x" "x \<noteq> stop" by auto
  from Cons.prems(4) [of x s] Cons.prems(3) obtain s1 where s1: "body x s = Some s1" "I s1" by auto
  have "path nx0 (nx s1 x) xs stop" using Cons.prems(1) assms(4) [OF s1(2)] by simp
  from Cons.IH [OF this _ s1(2)] Cons.prems(2,4) obtain s' where
    "for_ptrs nx stop body (nx s1 x) s1 = Some s'" "I s'" by auto
  with p s1(1) show ?case by (simp add: for_ptrs_step)
qed simp

text \<open>The same for loops that are not known to end: what the body keeps holds whenever they do.\<close>

lemma for_ptrs_keeps:
  assumes "for_ptrs nx stop body p s = Some s'" and "I s"
    and "\<And>x s s'. body x s = Some s' \<Longrightarrow> I s \<Longrightarrow> I s'"
  shows "I s'"
  by (rule for_ptrs.raw_induct [where P = "\<lambda>n st b p s s'. b = body \<longrightarrow> I s \<longrightarrow> I s'", rule_format, OF _ assms(1) refl assms(2)])
    (auto split: if_splits simp: bind_eq_Some_conv dest: assms(3))

lemma for_pages_keeps:
  assumes "for_pages body st en s = Some s'" and "I s"
    and "\<And>x s s'. body x s = Some s' \<Longrightarrow> I s \<Longrightarrow> I s'"
  shows "I s'"
  by (rule for_pages.raw_induct [where P = "\<lambda>b st en s s'. b = body \<longrightarrow> I s \<longrightarrow> I s'", rule_format, OF _ assms(1) refl assms(2)])
    (auto split: if_splits simp: bind_eq_Some_conv dest: assms(3))

end
