(* ===== verification/Paths.thy ===== *)
theory Paths
  imports Prelude
begin

text \<open>
  Strings and path names of \<open>sys/tarfs.c\<close>: comparison, copying, octal numbers, and
  \<open>remove_dotslash\<close>, which turns the name a program gives into an absolute path. A C string is the
  list of its characters before the NUL. The reference definition of a path splits it at the
  slashes and walks along the names; the lemmas show that the pointer program computes it.
\<close>

section \<open>Strings\<close>

text \<open>\<open>char\<close> is signed.\<close>

definition schar :: "char \<Rightarrow> int" where
  "schar c = sint (of_char c :: u8)"

fun strcmp :: "string \<Rightarrow> string \<Rightarrow> int" where
  "strcmp (x # xs) (y # ys) = (if x = y then strcmp xs ys else schar x - schar y)"
| "strcmp (x # xs) [] = schar x - schar CHR 0x00"
| "strcmp [] (y # ys) = schar CHR 0x00 - schar y"
| "strcmp [] [] = 0"

text \<open>\<open>startswith\<close> answers 0 when the second string starts with the first.\<close>

fun startswith :: "string \<Rightarrow> string \<Rightarrow> i32" where
  "startswith [] child = 0"
| "startswith (p # parent) [] = - 1"
| "startswith (p # parent) (c # child) = (if p = c then startswith parent child else - 1)"

definition toInteger :: "string \<Rightarrow> i32" where
  "toInteger s = foldl (\<lambda>num c. num * 8 + word_of_int (schar c - schar CHR ''0'')) 0 s"

text \<open>
  \<open>strcpy\<close> into an array of 256 characters: at most 256 are copied; the terminating NUL is
  written only behind fewer than 255.
\<close>

definition strcpy :: "string \<Rightarrow> (nat \<Rightarrow> char) \<Rightarrow> nat \<Rightarrow> char" where
  "strcpy src dest i =
     (let n = min (length src) 256 in
      if i < n then src ! i
      else if i = n \<and> n < 255 then CHR 0x00
      else dest i)"

text \<open>The string an array of 256 characters holds; none when it is not terminated inside the array.\<close>

definition array_string :: "(nat \<Rightarrow> char) \<Rightarrow> string option" where
  "array_string b =
     (let cs = map b [0..<256] in
      if CHR 0x00 \<in> set cs then Some (takeWhile (\<lambda>c. c \<noteq> CHR 0x00) cs) else None)"

section \<open>Path names\<close>

abbreviation SLASH :: char where "SLASH \<equiv> CHR ''/''"

definition get_between_2slashes :: "string \<Rightarrow> string" where
  "get_between_2slashes src = takeWhile (\<lambda>c. c \<noteq> SLASH) src"

text \<open>
  The step of \<open>remove_dotslash\<close> for \<open>..\<close>: the characters written so far are \<open>out\<close>. The position
  goes back behind the last slash but one; \<^term>\<open>None\<close> is a position before the buffer.
\<close>

definition up_one :: "string \<Rightarrow> string option" where
  "up_one out =
     (if out = [] then None
      else if length out = 1 then Some out
      else (case dropWhile (\<lambda>c. c \<noteq> SLASH) (rev (butlast out)) of
              [] \<Rightarrow> None
            | r \<Rightarrow> Some (rev r)))"

lemma dropWhile_length: "length (dropWhile P xs) \<le> length xs"
  by (induction xs) auto

text \<open>
  The loop over the parts of the name. \<open>N\<close> is the size of the caller's buffer \<open>dest\<close>, and a part is first copied into
  \<open>temp_output[256]\<close>; the code checks neither, so that a write behind one of the two is \<^term>\<open>None\<close>.
\<close>

function norm_loop :: "nat \<Rightarrow> string \<Rightarrow> string \<Rightarrow> string option" where
  "norm_loop N [] out = Some out"
| "norm_loop N (c # cs) out =
     (let t = get_between_2slashes (c # cs) in
      if 256 \<le> length t then None
      else if t = ''.'' then norm_loop N (if cs \<noteq> [] \<and> hd cs = SLASH then tl cs else cs) out
      else if t = [] then norm_loop N cs out
      else if t = ''..'' then
        (case up_one out of
           None \<Rightarrow> None
         | Some out' \<Rightarrow> norm_loop N (let r = tl cs in if r \<noteq> [] \<and> hd r = SLASH then tl r else r) out')
      else (let rest = drop (length t) (c # cs);
                out' = out @ t @ (if rest \<noteq> [] then [SLASH] else []) in
            if N < length out' then None
            else norm_loop N (dropWhile (\<lambda>c. c = SLASH) rest) out'))"
  by pat_completeness auto
termination
proof (relation "measure (\<lambda>(N, i, out). length i)", goal_cases)
  case (5 N c cs out t rest out')
  have "t \<noteq> []" "rest = drop (length t) (c # cs)" using 5 by simp_all
  then have "length rest < length (c # cs)" by simp
  with dropWhile_length [of "\<lambda>c. c = SLASH" rest] show ?case by simp
qed (auto simp: Let_def)

declare norm_loop.simps(2) [simp del]

text \<open>
  \<open>d\<close> is 1 for a directory: the result then ends with a slash. \<open>cwd\<close> is what \<open>getCWD\<close> gives, \<open>N\<close> the size of \<open>dest\<close>; the slashes
  and the NUL that are written must lie inside it as well.
\<close>

definition remove_dotslash :: "nat \<Rightarrow> string \<Rightarrow> string \<Rightarrow> i32 \<Rightarrow> string option" where
  "remove_dotslash N src cwd d =
     (let start = (if src \<noteq> [] \<and> hd src = SLASH then Some (tl src, [SLASH])
                   else if cwd = [] then None
                   else Some (src, if last cwd \<noteq> SLASH then cwd @ [SLASH] else cwd))
      in case start of
           None \<Rightarrow> None
         | Some (input, out) \<Rightarrow>
             if N < length out then None
             else Option.bind (norm_loop N input out) (\<lambda>out.
               let out' = (if d = 1 \<and> last out \<noteq> SLASH then out @ [SLASH] else out)
               in if length out' < N then Some out' else None))"

section \<open>The reference\<close>

function split_path :: "string \<Rightarrow> string list" where
  "split_path [] = []"
| "split_path (c # cs) = takeWhile (\<lambda>c. c \<noteq> SLASH) (c # cs) # split_path (tl (dropWhile (\<lambda>c. c \<noteq> SLASH) (c # cs)))"
  by pat_completeness auto
termination
proof (relation "measure length", goal_cases)
  case (2 c cs)
  have "length (tl (dropWhile (\<lambda>c. c \<noteq> SLASH) (c # cs))) \<le> length cs"
    using dropWhile_length [of "\<lambda>c. c \<noteq> SLASH" "c # cs"] by simp
  then show ?case by simp
qed simp

definition walk_name :: "string \<Rightarrow> string list \<Rightarrow> string list" where
  "walk_name c st = (if c = [] \<or> c = ''.'' then st else if c = ''..'' then butlast st else st @ [c])"

definition walk :: "string list \<Rightarrow> string list \<Rightarrow> string list" where
  "walk names st = fold walk_name names st"

definition render_path :: "string list \<Rightarrow> string" where
  "render_path st = [SLASH] @ concat (map (\<lambda>c. c @ [SLASH]) st)"

text \<open>The directories a walk can reach: names without slashes, not empty, not dots.\<close>

definition names_ok :: "string list \<Rightarrow> bool" where
  "names_ok st \<longleftrightarrow> (\<forall>c \<in> set st. c \<noteq> [] \<and> SLASH \<notin> set c \<and> c \<noteq> ''.'' \<and> c \<noteq> ''..'')"


section \<open>Strings and numbers\<close>

lemma schar_inj [simp]: "schar c = schar d \<longleftrightarrow> c = d"
proof
  assume "schar c = schar d"
  then have "(of_char c :: u8) = of_char d" unfolding schar_def by (rule signed_word_eqI)
  then have "unat (of_char c :: u8) = unat (of_char d :: u8)" by simp
  then have "unat (of_nat (of_char c) :: u8) = unat (of_nat (of_char d) :: u8)" by (simp only: of_nat_of_char)
  then have "(of_char c :: nat) = of_char d" using nat_of_char_less_256 [of c] nat_of_char_less_256 [of d]
    by (simp only: unat_of_nat) simp
  then show "c = d" by simp
qed simp

lemma strcmp_eq_0: "CHR 0x00 \<notin> set xs \<Longrightarrow> CHR 0x00 \<notin> set ys \<Longrightarrow> strcmp xs ys = 0 \<longleftrightarrow> xs = ys"
  by (induction xs ys rule: strcmp.induct) auto

lemma startswith_0: "startswith parent child = 0 \<longleftrightarrow> (\<exists>rest. child = parent @ rest)"
  by (induction parent child rule: startswith.induct) auto

text \<open>The octal number of \<open>k\<close> digits in a header.\<close>

primrec octal :: "nat \<Rightarrow> nat \<Rightarrow> string" where
  "octal 0 n = []"
| "octal (Suc k) n = octal k (n div 8) @ [char_of (48 + n mod 8)]"

lemma schar_digit: "d < 10 \<Longrightarrow> schar (char_of (48 + d)) - schar CHR ''0'' = int d"
proof -
  assume "d < 10"
  then have "d \<in> set [0..<10]" by simp
  moreover have "\<forall>d \<in> set [0..<10]. schar (char_of (48 + d)) - schar CHR ''0'' = int d" by code_simp
  ultimately show ?thesis by blast
qed

lemma toInteger_snoc: "toInteger (s @ [c]) = toInteger s * 8 + word_of_int (schar c - schar CHR ''0'')"
  unfolding toInteger_def by simp

lemma toInteger_octal: "n < 8 ^ k \<Longrightarrow> toInteger (octal k n) = of_nat n"
proof (induction k arbitrary: n)
  case (Suc k)
  then have "n div 8 < 8 ^ k" by (simp add: less_mult_imp_div_less mult.commute)
  then have "toInteger (octal (Suc k) n) = of_nat (n div 8) * 8 + word_of_int (int (n mod 8))"
    unfolding octal.simps toInteger_snoc by (subst schar_digit) (simp_all add: Suc.IH)
  also have "\<dots> = of_nat (n div 8 * 8 + n mod 8)" by (simp only: of_nat_add of_nat_mult of_nat_numeral of_int_of_nat_eq)
  finally show ?case by simp
qed (simp add: toInteger_def)

section \<open>The loop walks along the names\<close>

lemma names_ok_snoc: "names_ok (st @ [c]) \<longleftrightarrow> names_ok st \<and> c \<noteq> [] \<and> SLASH \<notin> set c \<and> c \<noteq> ''.'' \<and> c \<noteq> ''..''"
  by (auto simp: names_ok_def)

lemma render_snoc: "render_path (st @ [c]) = render_path st @ c @ [SLASH]"
  by (simp add: render_path_def)

lemma render_last [simp]: "last (render_path st) = SLASH" "render_path st \<noteq> []"
  by (cases st rule: rev_cases; simp add: render_path_def)+

lemma up_one_render:
  assumes "names_ok st"
  shows "up_one (render_path st) = Some (render_path (butlast st))"
proof (cases st rule: rev_cases)
  case Nil
  then show ?thesis by (simp add: up_one_def render_path_def)
next
  case (snoc ss c)
  then have c: "c \<noteq> []" "\<forall>x \<in> set (rev c). x \<noteq> SLASH" using assms by (auto simp: names_ok_snoc)
  have b: "butlast (render_path st) = render_path ss @ c" by (simp add: snoc render_snoc butlast_append)
  define r where "r = butlast (render_path ss)"
  have r: "render_path ss = r @ [SLASH]"
    using append_butlast_last_id [OF render_last(2) [of ss], symmetric] by (simp add: r_def)
  have "dropWhile (\<lambda>x. x \<noteq> SLASH) (rev c @ rev (render_path ss)) = rev (render_path ss)"
    unfolding r using c(2) by (subst dropWhile_append2) auto
  moreover have "length (render_path st) \<noteq> 1" using c(1) by (simp add: snoc render_snoc r)
  ultimately show ?thesis using b r by (simp add: up_one_def snoc split: list.split)
qed

lemma split_path_slash: "split_path (SLASH # cs) = [] # split_path cs"
  by simp

lemma walk_slashes: "walk (split_path (dropWhile (\<lambda>c. c = SLASH) cs)) st = walk (split_path cs) st"
  by (induction cs) (simp_all add: walk_def walk_name_def)

lemma split_path_slashes: "set (split_path (dropWhile (\<lambda>c. c = SLASH) cs)) \<subseteq> set (split_path cs)"
  by (induction cs) auto

lemma split_path_name: "t \<noteq> [] \<Longrightarrow> SLASH \<notin> set t \<Longrightarrow> split_path (t @ SLASH # rest) = t # split_path rest"
  "t \<noteq> [] \<Longrightarrow> SLASH \<notin> set t \<Longrightarrow> split_path t = [t]"
proof -
  assume t: "t \<noteq> []" "SLASH \<notin> set t"
  then obtain c cs where c: "t = c # cs" by (cases t) auto
  have "takeWhile (\<lambda>c. c \<noteq> SLASH) (t @ SLASH # rest) = t" "dropWhile (\<lambda>c. c \<noteq> SLASH) (t @ SLASH # rest) = SLASH # rest"
    "takeWhile (\<lambda>c. c \<noteq> SLASH) t = t" "dropWhile (\<lambda>c. c \<noteq> SLASH) t = []"
    using t(2) by (auto simp: takeWhile_append dropWhile_append intro: takeWhile_eq_all_conv [THEN iffD2])
  then show "split_path (t @ SLASH # rest) = t # split_path rest" "split_path t = [t]"
    by (simp_all add: c)
qed

text \<open>
  What the loop writes from a directory: the path of the directory reached, or, when the name ends
  without a slash, that path without its last slash.
\<close>

lemma norm_loop_walk:
  assumes "names_ok st" and "\<forall>c \<in> set (split_path input). length c < 256" and "length (render_path st) + length input \<le> N"
  shows "names_ok (walk (split_path input) st) \<and>
    (\<exists>out. norm_loop N input (render_path st) = Some out \<and> length out \<le> length (render_path st) + length input \<and>
       (out = render_path (walk (split_path input) st) \<or> out @ [SLASH] = render_path (walk (split_path input) st) \<and> last out \<noteq> SLASH))"
  using assms
proof (induction "length input" arbitrary: input st rule: less_induct)
  case less
  define t where "t = get_between_2slashes input"
  define rest where "rest = drop (length t) input"
  have input: "input = t @ rest"
    unfolding t_def rest_def get_between_2slashes_def
    using append_take_drop_id [of "length (takeWhile (\<lambda>c. c \<noteq> SLASH) input)" input] by (simp only: takeWhile_eq_take [symmetric])
  have tn: "SLASH \<notin> set t" by (auto simp: t_def get_between_2slashes_def dest: set_takeWhileD)
  have "rest = dropWhile (\<lambda>c. c \<noteq> SLASH) input" by (simp add: t_def rest_def get_between_2slashes_def dropWhile_eq_drop)
  then have hr: "rest = [] \<or> (\<exists>r. rest = SLASH # r)" using hd_dropWhile [of "\<lambda>c. c \<noteq> SLASH" input]
    by (metis list.exhaust_sel)
  show ?case
  proof (cases "input = []")
    case True
    with less.prems show ?thesis by (simp add: walk_def)
  next
    case False
    then obtain c cs where c: "input = c # cs" by (cases input) auto
    have IH: "names_ok (walk (split_path i) st') \<and> (\<exists>out. norm_loop N i (render_path st') = Some out \<and>
       length out \<le> length (render_path st) + length input \<and>
       (out = render_path (walk (split_path i) st') \<or> out @ [SLASH] = render_path (walk (split_path i) st') \<and> last out \<noteq> SLASH))"
      if "length i < length input" "names_ok st'" "set (split_path i) \<subseteq> set (split_path input)"
        "length (render_path st') + length i \<le> length (render_path st) + length input" for i st'
    proof -
      from that(3,4) less.prems(2,3) have "\<forall>c \<in> set (split_path i). length c < 256" "length (render_path st') + length i \<le> N" by auto
      from less.hyps [OF that(1,2) this] that(4) show ?thesis by fastforce
    qed
    have parts: "set (split_path (t @ rest)) = (if t = [] then set (split_path rest) else insert t (set (split_path (tl rest))))"
      using hr split_path_name [of t] tn by auto
    have short: "length t < 256" using less.prems(2) parts by (cases "t = []") (auto simp: input)
    note loop = norm_loop.simps(2) [of N c cs, folded c t_def, unfolded Let_def, folded rest_def]
    have lr: "length (render_path st) + length input \<le> N" by (rule less.prems(3))
    consider "t = ''.''" | "t = []" | "t = ''..''" | "t \<noteq> ''.''" "t \<noteq> []" "t \<noteq> ''..''" by blast
    then show ?thesis
    proof cases
      case 1
      then have cs: "cs = rest" using input c by simp
      define i where "i = (if cs \<noteq> [] \<and> hd cs = SLASH then tl cs else cs)"
      have w: "walk (split_path input) st = walk (split_path i) st" and i: "set (split_path i) \<subseteq> set (split_path input)" "length i < length input"
        using hr split_path_name [of t] 1 by (auto simp: i_def cs input walk_def walk_name_def)
      have "norm_loop N input (render_path st) = norm_loop N i (render_path st)" unfolding loop using 1 short by (simp add: i_def)
      then show ?thesis unfolding w using IH [OF i(2) less.prems(1) i(1)] i(2) by simp
    next
      case 2
      then obtain r where r: "rest = SLASH # r" using hr input False by auto
      then have cs: "cs = r" "input = SLASH # cs" using input c 2 by simp_all
      then have "norm_loop N input (render_path st) = norm_loop N cs (render_path st)" unfolding loop using 2 by simp
      moreover have "walk (split_path input) st = walk (split_path cs) st" by (simp add: cs(2) walk_def walk_name_def)
      ultimately show ?thesis using IH [OF _ less.prems(1), of cs] by (simp add: cs(2) subset_insertI)
    next
      case 3
      then have cs: "tl cs = rest" using input c by simp
      define i where "i = (if rest \<noteq> [] \<and> hd rest = SLASH then tl rest else rest)"
      have w: "walk (split_path input) st = walk (split_path i) (butlast st)" and i: "set (split_path i) \<subseteq> set (split_path input)" "length i < length input"
        using hr split_path_name [of t] 3 by (auto simp: i_def input walk_def walk_name_def)
      have ok: "names_ok (butlast st)" using less.prems(1) by (auto simp: names_ok_def dest: in_set_butlastD)
      have l: "length (render_path (butlast st)) \<le> length (render_path st)" by (cases st rule: rev_cases) (simp_all add: render_snoc)
      note H = IH [OF i(2) ok i(1)]
      have "norm_loop N input (render_path st) = norm_loop N i (render_path (butlast st))"
        unfolding loop i_def using 3 up_one_render [OF less.prems(1)] cs by simp
      with H l i(2) show ?thesis unfolding w by simp
    next
      case 4
      have ok: "names_ok (st @ [t])" using less.prems(1) 4 tn by (simp add: names_ok_snoc)
      show ?thesis
      proof (cases "rest = []")
        case True
        then have it: "input = t" using input by simp
        then have "walk (split_path input) st = st @ [t]" using split_path_name(2) [OF 4(2) tn] 4 by (simp add: walk_def walk_name_def)
        moreover have "last (render_path st @ t) \<noteq> SLASH" using 4(2) tn by (metis last_appendR last_in_set)
        moreover have "norm_loop N input (render_path st) = Some (render_path st @ t)"
          unfolding loop using 4 True lr short it by simp
        ultimately show ?thesis using ok it by (simp add: render_snoc)
      next
        case False
        then obtain r where r: "rest = SLASH # r" using hr by blast
        let ?i = "dropWhile (\<lambda>c. c = SLASH) rest"
        have w: "walk (split_path input) st = walk (split_path ?i) (st @ [t])"
          using split_path_name(1) [OF 4(2) tn, of r] 4 by (simp add: input r walk_slashes) (simp add: walk_def walk_name_def)
        have l: "length ?i \<le> length r" using dropWhile_length [of "\<lambda>c. c = SLASH" r] by (simp add: r)
        have sub: "set (split_path ?i) \<subseteq> set (split_path input)"
          using split_path_name(1) [OF 4(2) tn, of r] split_path_slashes [of r] by (auto simp: input r)
        have "norm_loop N input (render_path st) = norm_loop N ?i (render_path (st @ [t]))"
          unfolding loop using 4 False lr short by (simp add: render_snoc input r)
        moreover have "length ?i < length input" using l by (simp add: input r)
        ultimately show ?thesis unfolding w using IH [OF _ ok sub] l by (simp add: render_snoc input r)
      qed
    qed
  qed
qed

section \<open>Resolving a name\<close>

lemma last_cwd:
  assumes "cwd @ [SLASH] = render_path st" and "cwd \<noteq> []" and "names_ok st"
  shows "last cwd \<noteq> SLASH"
proof (cases st rule: rev_cases)
  case Nil
  with assms(1,2) show ?thesis by (simp add: render_path_def)
next
  case (snoc ss c)
  with assms(1) have "cwd = render_path ss @ c" by (simp add: render_snoc)
  moreover have "c \<noteq> []" "SLASH \<notin> set c" using assms(3) snoc by (simp_all add: names_ok_snoc)
  ultimately show ?thesis by (metis last_appendR last_in_set)
qed

text \<open>What a name needs: short parts, and space in the buffer of \<open>N\<close> characters for the directory, the name, a slash and the NUL.\<close>

definition fits_path :: "nat \<Rightarrow> string list \<Rightarrow> string \<Rightarrow> bool" where
  "fits_path N st src \<longleftrightarrow> (\<forall>c \<in> set (split_path src). length c < 256) \<and>
     (if src \<noteq> [] \<and> hd src = SLASH then length src + 1 < N else length (render_path st) + length src + 1 < N)"

lemma remove_dotslash_loop:
  assumes "names_ok st" and "cwd = render_path st \<or> cwd @ [SLASH] = render_path st \<and> cwd \<noteq> []"
    and "if src \<noteq> [] \<and> hd src = SLASH then 1 \<le> N else length (render_path st) \<le> N"
  shows "remove_dotslash N src cwd d = Option.bind
    (if src \<noteq> [] \<and> hd src = SLASH then norm_loop N (tl src) (render_path []) else norm_loop N src (render_path st))
    (\<lambda>out. let out' = (if d = 1 \<and> last out \<noteq> SLASH then out @ [SLASH] else out) in if length out' < N then Some out' else None)"
proof -
  have "cwd \<noteq> [] \<and> (if last cwd \<noteq> SLASH then cwd @ [SLASH] else cwd) = render_path st"
    using assms(2) last_cwd [OF _ _ assms(1)] by auto
  then show ?thesis using assms(3) by (auto simp: remove_dotslash_def render_path_def)
qed

lemma walk_absolute: "src \<noteq> [] \<Longrightarrow> hd src = SLASH \<Longrightarrow> walk (split_path src) st = walk (split_path (tl src)) st"
  by (cases src) (simp_all add: walk_def walk_name_def)

lemma walk_render: "names_ok ns \<Longrightarrow> walk (split_path (concat (map (\<lambda>c. c @ [SLASH]) ns))) st = st @ ns"
proof (induction ns arbitrary: st)
  case (Cons c ns)
  then have c: "c \<noteq> []" "SLASH \<notin> set c" "c \<noteq> ''.''" "c \<noteq> ''..''" "names_ok ns" by (auto simp: names_ok_def)
  from Cons.IH [OF c(5), of "st @ [c]"] c split_path_name(1) [OF c(1,2)] show ?case
    by (simp add: walk_def walk_name_def)
qed (simp add: walk_def)

lemma split_path_render: "names_ok ns \<Longrightarrow> set (split_path (concat (map (\<lambda>c. c @ [SLASH]) ns))) = set ns"
proof (induction ns)
  case (Cons c ns)
  then have c: "c \<noteq> []" "SLASH \<notin> set c" "names_ok ns" by (auto simp: names_ok_def)
  with Cons.IH split_path_name(1) [OF c(1,2)] show ?case by simp
qed simp

lemma walk_subset: "set (walk names st) \<subseteq> set names \<union> set st"
proof (induction names arbitrary: st)
  case (Cons n ns)
  have "set (walk_name n st) \<subseteq> insert n (set st)" by (auto simp: walk_name_def dest: in_set_butlastD)
  with Cons.IH [of "walk_name n st"] show ?case by (auto simp: walk_def)
qed (simp add: walk_def)

lemma remove_dotslash_path:
  fixes src cwd cwd' :: string
  assumes "names_ok st" and "cwd = render_path st \<or> cwd @ [SLASH] = render_path st \<and> cwd \<noteq> []"
    and fit: "fits_path N st src" and short: "\<forall>c \<in> set st. length c < 256"
  defines "st' \<equiv> walk (split_path src) (if src \<noteq> [] \<and> hd src = SLASH then [] else st)"
  shows "remove_dotslash N src cwd 1 = Some (render_path st') \<and> names_ok st' \<and>
    (\<exists>p. remove_dotslash N src cwd 0 = Some p \<and> (p = render_path st' \<or> p @ [SLASH] = render_path st')) \<and>
    remove_dotslash N (render_path st') cwd 1 = Some (render_path st') \<and> length (render_path st') < N"
proof -
  define abs where "abs \<longleftrightarrow> src \<noteq> [] \<and> hd src = SLASH"
  let ?src = "if abs then tl src else src" and ?st = "if abs then [] else st"
  have ok: "names_ok ?st" using assms(1) by (simp add: names_ok_def)
  have parts: "\<forall>c \<in> set (split_path ?src). length c < 256"
    using fit by (cases src) (auto simp: fits_path_def abs_def)
  have total: "length (render_path ?st) + length ?src + 1 < N"
    using fit by (cases src) (auto simp: fits_path_def abs_def render_path_def split: if_splits)
  then have "length (render_path ?st) + length ?src \<le> N" by simp
  note W = norm_loop_walk [OF ok parts this]
  have e: "walk (split_path ?src) ?st = st'"
    using walk_absolute [of src "[]"] by (simp add: st'_def abs_def)
  have room: "if abs then 1 \<le> N else length (render_path st) \<le> N" using total by (cases abs) simp_all
  note R = remove_dotslash_loop [OF assms(1,2), of src N, folded abs_def, OF room]
  from W [unfolded e] obtain out where out: "names_ok st'" "norm_loop N ?src (render_path ?st) = Some out"
    "length out \<le> length (render_path ?st) + length ?src"
    "out = render_path st' \<or> out @ [SLASH] = render_path st' \<and> last out \<noteq> SLASH" by blast
  have L: "(if abs then norm_loop N (tl src) (render_path []) else norm_loop N src (render_path st)) = Some out"
    using out(2) by (cases abs) simp_all
  have lo: "length out + 1 < N" using out(3) total by simp
  have r1: "remove_dotslash N src cwd 1 = Some (render_path st')" using lo out(4) unfolding R L by (auto simp: Let_def)
  have r0: "remove_dotslash N src cwd 0 = Some out" using lo unfolding R L by (simp add: Let_def)
  have lr: "length (render_path st') < N" using out(4)
  proof
    assume "out @ [SLASH] = render_path st' \<and> last out \<noteq> SLASH"
    then have "length (render_path st') = length out + 1" by (metis length_append_singleton Suc_eq_plus1)
    with lo show ?thesis by simp
  qed (use lo in simp)
  have "set st' \<subseteq> set (split_path ?src) \<union> set ?st" unfolding e [symmetric] by (rule walk_subset)
  then have "\<forall>c \<in> set st'. length c < 256" using parts short by (cases abs) fastforce+
  then have p1: "\<forall>c \<in> set (split_path (concat (map (\<lambda>c. c @ [SLASH]) st'))). length c < 256"
    unfolding split_path_render [OF out(1)] .
  have n0: "names_ok []" by (simp add: names_ok_def)
  have "length (render_path []) + length (concat (map (\<lambda>c. c @ [SLASH]) st')) \<le> N" using lr by (simp add: render_path_def)
  from norm_loop_walk [OF n0 p1 this, unfolded walk_render [OF out(1)]] obtain o1 where
    o1: "norm_loop N (concat (map (\<lambda>c. c @ [SLASH]) st')) (render_path []) = Some o1"
    "o1 = render_path st' \<or> o1 @ [SLASH] = render_path st' \<and> last o1 \<noteq> SLASH" by auto
  have h: "render_path st' \<noteq> []" "hd (render_path st') = SLASH" "tl (render_path st') = concat (map (\<lambda>c. c @ [SLASH]) st')"
    by (simp_all add: render_path_def)
  have "if render_path st' \<noteq> [] \<and> hd (render_path st') = SLASH then 1 \<le> N else length (render_path st) \<le> N" using h lr by simp
  note R1 = remove_dotslash_loop [OF assms(1,2) this, of 1]
  have "remove_dotslash N (render_path st') cwd 1 = Some (render_path st')"
    using o1(2)
  proof
    assume o: "o1 @ [SLASH] = render_path st' \<and> last o1 \<noteq> SLASH"
    then have "Suc (length o1) = length (render_path st')" by (metis length_append_singleton)
    with R1 o1(1) h lr o show ?thesis by (simp add: Let_def)
  qed (use R1 o1(1) h lr in \<open>simp add: Let_def\<close>)
  with r1 r0 out(1,4) lr show ?thesis by blast
qed

lemma first_part: "SLASH \<notin> set t \<Longrightarrow> get_between_2slashes (t @ SLASH # rest) = t"
  unfolding get_between_2slashes_def by (induction t) auto

lemma norm_loop_names:
  assumes "names_ok ns" and "ns \<noteq> []"
  shows "norm_loop N (butlast (concat (map (\<lambda>c. c @ [SLASH]) ns))) out \<in> {None, Some (out @ butlast (concat (map (\<lambda>c. c @ [SLASH]) ns)))}"
  using assms
proof (induction ns arbitrary: out)
  case (Cons n ns)
  have n: "n \<noteq> []" "SLASH \<notin> set n" "n \<noteq> ''.''" "n \<noteq> ''..''" "names_ok ns" using Cons.prems(1) by (auto simp: names_ok_def)
  then obtain c cs where c: "n = c # cs" by (cases n) auto
  show ?case
  proof (cases "ns = []")
    case True
    have "get_between_2slashes n = n" using n(2) by (auto simp: get_between_2slashes_def takeWhile_eq_all_conv)
    then show ?thesis using n by (auto simp: True c norm_loop.simps Let_def butlast_append)
  next
    case False
    let ?i = "butlast (concat (map (\<lambda>c. c @ [SLASH]) ns))"
    obtain m ms where m: "ns = m # ms" using False by (cases ns) auto
    have ne: "concat (map (\<lambda>c. c @ [SLASH]) ns) \<noteq> []" by (simp add: m)
    have hd: "?i \<noteq> [] \<and> hd ?i \<noteq> SLASH" using n(5) by (cases m) (auto simp: m names_ok_def butlast_append)
    then have dw: "dropWhile (\<lambda>c. c = SLASH) ?i = ?i" by (cases ?i) auto
    have e: "butlast (concat (map (\<lambda>c. c @ [SLASH]) (n # ns))) = n @ SLASH # ?i" using ne by (simp add: butlast_append)
    have t: "get_between_2slashes (n @ SLASH # ?i) = n" "drop (length n) (n @ SLASH # ?i) = SLASH # ?i"
      using first_part [OF n(2)] by simp_all
    have "norm_loop N (n @ SLASH # ?i) out = None \<or> norm_loop N (n @ SLASH # ?i) out = norm_loop N ?i (out @ n @ [SLASH])"
      using n t dw by (auto simp: c norm_loop.simps(2) Let_def)
    then show ?thesis using Cons.IH [OF n(5) False, of "out @ n @ [SLASH]"] unfolding e by auto
  qed
qed simp

lemma remove_dotslash_overflow:
  shows "SLASH \<notin> set t \<Longrightarrow> 256 \<le> length t \<Longrightarrow> remove_dotslash N (t @ SLASH # rest) cwd d = None"
    and "names_ok ns \<Longrightarrow> ns \<noteq> [] \<Longrightarrow> N \<le> length (butlast (render_path ns)) \<Longrightarrow> remove_dotslash N (butlast (render_path ns)) cwd d = None"
proof -
  assume t: "SLASH \<notin> set t" "256 \<le> length t"
  then obtain c cs where c: "t = c # cs" by (cases t) auto
  have "get_between_2slashes (t @ SLASH # rest) = t" by (rule first_part [OF t(1)])
  then have "norm_loop N (t @ SLASH # rest) out = None" for out using t(2) by (simp add: c norm_loop.simps(2) Let_def)
  then show "remove_dotslash N (t @ SLASH # rest) cwd d = None" using t(1) by (auto simp: remove_dotslash_def c Let_def)
next
  assume ns: "names_ok ns" "ns \<noteq> []" "N \<le> length (butlast (render_path ns))"
  let ?i = "butlast (concat (map (\<lambda>c. c @ [SLASH]) ns))"
  have e: "butlast (render_path ns) = SLASH # ?i" using ns(2) by (cases ns) (simp_all add: render_path_def)
  from norm_loop_names [OF ns(1,2), of N "[SLASH]"] show "remove_dotslash N (butlast (render_path ns)) cwd d = None"
    using ns(3) unfolding e by (auto simp: remove_dotslash_def Let_def)
qed

section \<open>Properties\<close>

text \<open>C23: \<open>remove_dotslash\<close> computes the absolute path: for a working directory \<open>st\<close> (given with or without its last slash), the name is
  resolved by walking along its parts from the root or from \<open>st\<close>: empty parts and dots stay, two dots
  go up (and stay in the root), a name goes down. The parts of the result are names, so a
  second resolution changes nothing; a directory (\<open>d = 1\<close>) always ends with one slash. This holds for names that fit: parts of fewer than 256
  characters, and directory, name, slash and NUL within the \<open>N\<close> characters of the caller's buffer. A first part
  of 256 characters or more, or an absolute name of \<open>N\<close> characters without dots and double slashes, is written behind the buffer and gives no value.\<close>

theorem remove_dotslash_walks:
  fixes src cwd cwd' :: string
  assumes "names_ok st" and "cwd = render_path st \<or> cwd @ [SLASH] = render_path st \<and> cwd \<noteq> []" and "\<forall>c \<in> set st. length c < 256"
  defines "st' \<equiv> walk (split_path src) (if src \<noteq> [] \<and> hd src = SLASH then [] else st)"
  shows "(fits_path N st src \<longrightarrow> remove_dotslash N src cwd 1 = Some (render_path st') \<and> names_ok st' \<and>
      (\<exists>p. remove_dotslash N src cwd 0 = Some p \<and> (p = render_path st' \<or> p @ [SLASH] = render_path st')) \<and>
      remove_dotslash N (render_path st') cwd 1 = Some (render_path st')) \<and>
    (\<forall>t rest. SLASH \<notin> set t \<and> 256 \<le> length t \<and> src = t @ SLASH # rest \<longrightarrow> remove_dotslash N src cwd d = None) \<and>
    (\<forall>ns. names_ok ns \<and> ns \<noteq> [] \<and> src = butlast (render_path ns) \<and> N \<le> length src \<longrightarrow> remove_dotslash N src cwd d = None)"
proof (intro conjI allI impI; (elim conjE)?)
  assume f: "fits_path N st src"
  from remove_dotslash_path [OF assms(1,2) f assms(3), folded st'_def]
  show "remove_dotslash N src cwd 1 = Some (render_path st')" "names_ok st'"
    "\<exists>p. remove_dotslash N src cwd 0 = Some p \<and> (p = render_path st' \<or> p @ [SLASH] = render_path st')"
    "remove_dotslash N (render_path st') cwd 1 = Some (render_path st')" by blast+
next
  fix t rest assume "SLASH \<notin> set t" "256 \<le> length t" "src = t @ SLASH # rest"
  then show "remove_dotslash N src cwd d = None" using remove_dotslash_overflow(1) by simp
next
  fix ns assume "names_ok ns" "ns \<noteq> []" "src = butlast (render_path ns)" "N \<le> length src"
  then show "remove_dotslash N src cwd d = None" using remove_dotslash_overflow(2) [of ns N cwd d] by metis
qed

theorem remove_dotslash_walks_witness:
  "remove_dotslash 256 ''../lib/./x/..'' ''/bin'' 1 = Some ''/lib/''"
proof -
  have "names_ok [''bin'']" by (simp add: names_ok_def)
  from remove_dotslash_walks [OF this, of "''/bin''" 256 "''../lib/./x/..''"] show ?thesis
    by (simp add: render_path_def walk_def walk_name_def fits_path_def)
qed

text \<open>The size field of a header round-trips: \<open>toInteger\<close> of the \<open>k\<close> octal digits of a number that has no more than \<open>k\<close> is the
  number (modulo \<open>2^32\<close>, so sizes from 2 GB on come out negative).\<close>

theorem size_field_roundtrip:
  assumes "n < 8 ^ k"
  shows "toInteger (octal k n) = of_nat n \<and> (n < 2 ^ 31 \<longrightarrow> sint (toInteger (octal k n)) = int n)"
  using toInteger_octal [OF assms] by (simp add: signed_of_nat signed_take_bit_int_eq_self)

theorem size_field_roundtrip_witness: "sint (toInteger (octal 11 5000)) = 5000"
  using size_field_roundtrip [of 5000 11] by simp

end
