(* ===== verification/Tar.thy ===== *)
theory Tar
  imports Paths
begin

text \<open>
  The archive that is the kernel's file system (\<open>sys/tarfs.c\<close>): a sequence of headers of 512
  bytes, each followed by the contents of its file, rounded up to 512 bytes, in the byte memory
  between two addresses. The functions search it for a name. The specification \<open>archive\<close> lists the
  entries; the lemmas show that the pointer loops find the first entry of the list with the name.
\<close>

section \<open>Reading memory\<close>

text \<open>A C string: the characters up to the NUL. \<^term>\<open>None\<close> is a memory without NUL, on which the loops of the source never end.\<close>

partial_function (option) cstr :: "(u64 \<Rightarrow> char) \<Rightarrow> u64 \<Rightarrow> string option" where
  "cstr m a =
     (if m a = CHR 0x00 then Some [] else Option.bind (cstr m (a + 1)) (\<lambda>cs. Some (m a # cs)))"

text \<open>The fields \<open>name\<close> and \<open>size\<close> of the header at an address.\<close>

definition header_name :: "(u64 \<Rightarrow> char) \<Rightarrow> u64 \<Rightarrow> string option" where
  "header_name m p = cstr m p"

definition header_size :: "(u64 \<Rightarrow> char) \<Rightarrow> u64 \<Rightarrow> i32 option" where
  "header_size m p = map_option toInteger (cstr m (p + 124))"

section \<open>Operations\<close>

definition next_header :: "u64 \<Rightarrow> i32 \<Rightarrow> u64" where
  "next_header p sz =
     (let residue = c_rem sz 512;
          sz' = (if 0 < sint residue then sz + (512 - residue) else sz)
      in p + scast sz' + 512)"

text \<open>The search loop: where it stops, and whether it has found the name.\<close>

partial_function (option) find_entry ::
    "(u64 \<Rightarrow> char) \<Rightarrow> u64 \<Rightarrow> string \<Rightarrow> u64 \<Rightarrow> (u64 \<times> bool) option" where
  "find_entry m en fname p =
     (if p < en
      then Option.bind (header_name m p) (\<lambda>name.
        if strcmp name fname = 0 then Some (p, True)
        else Option.bind (header_size m p) (\<lambda>sz. find_entry m en fname (next_header p sz)))
      else Some (p, False))"

definition get_file_address :: "(u64 \<Rightarrow> char) \<Rightarrow> u64 \<Rightarrow> u64 \<Rightarrow> string \<Rightarrow> u64 option" where
  "get_file_address m st en fname =
     Option.bind (find_entry m en fname st) (\<lambda>(p, file_found).
       Option.bind (header_size m p) (\<lambda>sz.
         Some (if 0 < sint sz \<and> file_found then p + 512
               else if sz = 0 \<and> file_found then p else 0)))"

definition get_dir_address :: "(u64 \<Rightarrow> char) \<Rightarrow> u64 \<Rightarrow> u64 \<Rightarrow> string \<Rightarrow> u64 option" where
  "get_dir_address m st en dir =
     Option.bind (find_entry m en dir st) (\<lambda>(p, dir_found).
       Option.bind (header_size m p) (\<lambda>sz.
         Some (if sz = 0 \<and> dir_found then p else 0)))"

definition check_if_directory_present :: "(u64 \<Rightarrow> char) \<Rightarrow> u64 \<Rightarrow> u64 \<Rightarrow> string \<Rightarrow> i32 option" where
  "check_if_directory_present m st en buf =
     map_option (\<lambda>i. if 0 < i then 1 else 0) (get_dir_address m st en buf)"

text \<open>
  \<open>memread\<close> copies at most \<open>n\<close> bytes, up to a NUL, and writes a NUL behind them when there is room; the value is the
  number of bytes copied.
\<close>

fun memread_loop :: "nat \<Rightarrow> u64 \<Rightarrow> u64 \<Rightarrow> (u64 \<Rightarrow> char) \<Rightarrow> nat \<times> (u64 \<Rightarrow> char)" where
  "memread_loop 0 src dest m = (0, m)"
| "memread_loop (Suc n) src dest m =
     (if m src \<noteq> CHR 0x00 then memread_loop n (src + 1) (dest + 1) (m(dest := m src))
      else (Suc n, m(dest := CHR 0x00)))"

definition memread :: "u64 \<Rightarrow> u64 \<Rightarrow> nat \<Rightarrow> (u64 \<Rightarrow> char) \<Rightarrow> i32 \<times> (u64 \<Rightarrow> char)" where
  "memread src dest n m = (case memread_loop n src dest m of (k, m') \<Rightarrow> (of_nat n - of_nat k, m'))"

fun memset_file :: "u64 \<Rightarrow> char \<Rightarrow> nat \<Rightarrow> (u64 \<Rightarrow> char) \<Rightarrow> u64 \<Rightarrow> char" where
  "memset_file str c 0 m = m"
| "memset_file str c (Suc n) m = memset_file (str + 1) c n (m(str := c))"

section \<open>The archive as a list\<close>

definition pad :: "nat \<Rightarrow> nat" where
  "pad sz = (if sz mod 512 = 0 then sz else sz + (512 - sz mod 512))"

text \<open>
  \<open>archive m p es e\<close>: from \<open>p\<close> to \<open>e\<close> the memory holds the entries \<open>es\<close>, each a name and a size.
  (Behind the end the code reads one more size field.) The blocks of zeros that end a tar file are entries without name and size.
\<close>

fun archive :: "(u64 \<Rightarrow> char) \<Rightarrow> u64 \<Rightarrow> (string \<times> nat) list \<Rightarrow> u64 \<Rightarrow> bool" where
  "archive m p [] e \<longleftrightarrow> p = e \<and> header_size m p \<noteq> None"
| "archive m p ((name, sz) # es) e \<longleftrightarrow> p < e \<and> header_name m p = Some name \<and> header_size m p = Some (of_nat sz) \<and>
     sz + 512 < 2 ^ 31 \<and> archive m (p + of_nat (512 + pad sz)) es e"

fun lookup :: "u64 \<Rightarrow> (string \<times> nat) list \<Rightarrow> string \<Rightarrow> (u64 \<times> nat) option" where
  "lookup p [] fname = None"
| "lookup p ((name, sz) # es) fname =
     (if name = fname then Some (p, sz) else lookup (p + of_nat (512 + pad sz)) es fname)"

lemma cstr_no_NUL: "cstr m a = Some cs \<Longrightarrow> CHR 0x00 \<notin> set cs"
proof -
  have "CHR 0x00 \<notin> set cs" if "cstr m a = Some cs" for m a
    by (rule cstr.raw_induct [where P = "\<lambda>m a cs. CHR 0x00 \<notin> set cs", OF _ that])
      (auto split: if_splits simp: bind_eq_Some_conv)
  then show "cstr m a = Some cs \<Longrightarrow> CHR 0x00 \<notin> set cs" .
qed

lemma next_header_nat:
  assumes "sz + 512 < 2 ^ 31"
  shows "next_header p (of_nat sz) = p + of_nat (512 + pad sz)"
proof -
  have r: "c_rem (of_nat sz) 512 = of_nat (sz mod 512)" using c_rem_nat [of sz 512] assms by simp
  have s: "0 < sint (of_nat (sz mod 512) :: i32) \<longleftrightarrow> sz mod 512 \<noteq> 0"
    by (simp add: signed_of_nat signed_take_bit_int_eq_self)
  have "(if 0 < sint (c_rem (of_nat sz) 512) then of_nat sz + (512 - c_rem (of_nat sz) 512) else of_nat sz) = (of_nat (pad sz) :: i32)"
    unfolding r s by (auto simp: pad_def of_nat_diff)
  moreover have "pad sz < 2 ^ 31" using assms by (auto simp: pad_def)
  then have "sint (of_nat (pad sz) :: i32) = int (pad sz)" by (simp add: signed_of_nat signed_take_bit_int_eq_self)
  then have "(scast (of_nat (pad sz) :: i32) :: u64) = of_nat (pad sz)"
    by (simp add: scast_eq)
  ultimately show ?thesis by (simp add: next_header_def Let_def)
qed

lemma find_entry_archive:
  assumes "archive m p es e" and "CHR 0x00 \<notin> set fname"
  shows "find_entry m e fname p = Some (case lookup p es fname of None \<Rightarrow> (e, False) | Some (q, sz) \<Rightarrow> (q, True))"
  using assms(1)
proof (induction es arbitrary: p)
  case Nil
  then show ?case by (simp add: find_entry.simps)
next
  case (Cons x es)
  obtain name sz where x: "x = (name, sz)" by (cases x)
  with Cons.prems have h: "p < e" "header_name m p = Some name" "header_size m p = Some (of_nat sz)" "sz + 512 < 2 ^ 31"
    and rest: "archive m (p + of_nat (512 + pad sz)) es e" by simp_all
  have "CHR 0x00 \<notin> set name" using h(2) cstr_no_NUL by (simp add: header_name_def)
  with assms(2) have "strcmp name fname = 0 \<longleftrightarrow> name = fname" by (simp add: strcmp_eq_0)
  with h Cons.IH [OF rest] show ?case
    by (simp add: x find_entry.simps [of m e fname p] next_header_nat)
qed

lemma lookup_size: "archive m p es e \<Longrightarrow> lookup p es fname = Some (q, sz) \<Longrightarrow> header_size m q = Some (of_nat sz) \<and> sz + 512 < 2 ^ 31"
  by (induction es arbitrary: p) (auto split: if_splits)

lemma archive_end: "archive m p es e \<Longrightarrow> header_size m e \<noteq> None"
  by (induction es arbitrary: p) auto

lemma archive_lookup:
  assumes "archive m st es en" and "CHR 0x00 \<notin> set fname"
  shows "get_file_address m st en fname = Some (case lookup st es fname of None \<Rightarrow> 0 | Some (p, sz) \<Rightarrow> if sz = 0 then p else p + 512) \<and>
    get_dir_address m st en fname = Some (case lookup st es fname of None \<Rightarrow> 0 | Some (p, sz) \<Rightarrow> if sz = 0 then p else 0)"
proof -
  note F = find_entry_archive [OF assms]
  have z: "(of_nat sz :: i32) = 0 \<longleftrightarrow> sz = 0" "0 < sint (of_nat sz :: i32) \<longleftrightarrow> sz \<noteq> 0" if "sz + 512 < 2 ^ 31" for sz
    using of_nat_small_0 [of sz] that by (auto simp: signed_of_nat signed_take_bit_int_eq_self)
  obtain x where x: "header_size m en = Some x" using archive_end [OF assms(1)] by blast
  show ?thesis
  proof (cases "lookup st es fname")
    case None
    with F x show ?thesis by (simp add: get_file_address_def get_dir_address_def)
  next
    case (Some e)
    then obtain q sz where e: "lookup st es fname = Some (q, sz)" by (cases e) simp
    from lookup_size [OF assms(1) e] z F e show ?thesis by (simp add: get_file_address_def get_dir_address_def)
  qed
qed

section \<open>Properties\<close>

text \<open>C27: The search functions find files: in a well-formed archive, \<open>get_file_address\<close> of a name gives the first entry with this name: the address of the
  contents of a file, the address of the header for a directory or empty file, and 0 when there is no such entry;
  \<open>get_dir_address\<close> gives the header of a directory and 0 otherwise. Both loops end.\<close>

theorem tar_lookup:
  assumes "archive m st es en" and "CHR 0x00 \<notin> set fname"
  shows "get_file_address m st en fname = Some (case lookup st es fname of None \<Rightarrow> 0 | Some (p, sz) \<Rightarrow> if sz = 0 then p else p + 512) \<and>
    get_dir_address m st en fname = Some (case lookup st es fname of None \<Rightarrow> 0 | Some (p, sz) \<Rightarrow> if sz = 0 then p else 0)"
  by (rule archive_lookup [OF assms])

text \<open>A small archive: an empty directory and a file of three bytes.\<close>

definition tiny_archive :: "u64 \<Rightarrow> char" where
  "tiny_archive a =
     (if a = 0 then CHR ''d'' else if a = 124 then CHR ''0'' else if a = 512 then CHR ''f''
      else if a = 636 then CHR ''3'' else CHR 0x00)"

lemma tiny_archive_strings:
  "cstr tiny_archive 0 = Some ''d''" "cstr tiny_archive 124 = Some ''0''" "cstr tiny_archive 512 = Some ''f''"
  "cstr tiny_archive 636 = Some ''3''" "cstr tiny_archive 1660 = Some ''''"
  by (simp_all add: cstr.simps [of tiny_archive 0] cstr.simps [of tiny_archive 1] cstr.simps [of tiny_archive 124]
    cstr.simps [of tiny_archive 125] cstr.simps [of tiny_archive 512] cstr.simps [of tiny_archive 513]
    cstr.simps [of tiny_archive 636] cstr.simps [of tiny_archive 637] cstr.simps [of tiny_archive 1660] tiny_archive_def)

lemma tiny_archive_ok: "archive tiny_archive 0 [(''d'', 0), (''f'', 3)] 1536"
proof -
  have "toInteger ''0'' = 0" "toInteger ''3'' = 3" by code_simp+
  then show ?thesis by (simp add: header_name_def header_size_def tiny_archive_strings pad_def)
qed

theorem tar_lookup_witness:
  "get_file_address tiny_archive 0 1536 ''f'' = Some 1024 \<and> get_dir_address tiny_archive 0 1536 ''f'' = Some 0"
  using tar_lookup [OF tiny_archive_ok, of "''f''"] by (simp add: pad_def)

end
