(* ===== verification/PhyMem.thy ===== *)
theory PhyMem
  imports Prelude
begin

text \<open>
  The physical frame allocator of \<open>sys/phyMemMapper.c\<close>: a bitmap with one bit per 4096-byte
  frame, a set bit meaning free. The record \<open>phys\<close> holds the file's static variables, the
  rows of the bitmap (\<open>availFrames[row]\<close>; rows past \<open>MAX_BITMAP_ROWS\<close> are words that lie
  after the array, apart from the rest of the state; the callers that compute such a row use \<open>pageDeAllocator_checked\<close>), the physical memory as 64-bit words, and the \<open>kernbase\<close> of
  \<open>sys/virtualMemory.c\<close> that the file reads through \<open>get_kernbase\<close>. The lemmas show that the
  allocator refines a set of free frame numbers: allocation takes the least one.
\<close>

section \<open>State\<close>

record phys =
  availFrames :: "u64 \<Rightarrow> u64"
  availBase :: u64
  KER_PHYSBASE :: u64
  KER_PHYSFREE :: u64
  PHYSEND :: u64
  MAX_BITMAP_ROWS :: u64
  AHCI_PHYS :: u64
  kernbase :: u64
  pmem :: "u64 \<Rightarrow> u64"

text \<open>
  A pointer the kernel dereferences is either a physical address (before paging, identity
  mapped by the loader) or that address plus \<open>kernbase\<close> (after \<open>enablePaging\<close>).
\<close>

definition k2p :: "u64 \<Rightarrow> u64 \<Rightarrow> u64" where
  "k2p kb a = (if kb \<le> a then a - kb else a)"

definition ROW :: "u64 \<Rightarrow> u64" where "ROW rowNum = rowNum div 64"

definition COL :: "u64 \<Rightarrow> u64" where "COL colNum = colNum mod 64"

section \<open>Operations\<close>

definition set_bitmap_rows :: "'a phys_scheme \<Rightarrow> 'a phys_scheme" where
  "set_bitmap_rows s = s\<lparr>MAX_BITMAP_ROWS := 1024\<rparr>"

definition initPhys :: "u64 \<Rightarrow> u64 \<Rightarrow> 'a phys_scheme \<Rightarrow> 'a phys_scheme" where
  "initPhys base limit s = s\<lparr>KER_PHYSBASE := base, KER_PHYSFREE := limit\<rparr>"

definition set_availFrames :: "u64 \<Rightarrow> 'a phys_scheme \<Rightarrow> 'a phys_scheme" where
  "set_availFrames kern_base s = s\<lparr>availBase := availBase s + kern_base\<rparr>"

definition markasFree :: "u64 \<Rightarrow> 'a phys_scheme \<Rightarrow> 'a phys_scheme" where
  "markasFree frameNum s =
     (let row = ROW frameNum; col = COL frameNum
      in s\<lparr>availFrames := (availFrames s)
             (row := availFrames s row OR push_bit (unat col) 1)\<rparr>)"

definition markasUsed :: "u64 \<Rightarrow> 'a phys_scheme \<Rightarrow> 'a phys_scheme" where
  "markasUsed frameNum s =
     (let row = ROW frameNum; col = COL frameNum
      in s\<lparr>availFrames := (availFrames s)
             (row := availFrames s row AND NOT (push_bit (unat col) 1))\<rparr>)"

definition isFrameUsed :: "'a phys_scheme \<Rightarrow> u64 \<Rightarrow> u64" where
  "isFrameUsed s frameNum =
     (let row = ROW frameNum; col = COL frameNum
      in availFrames s row AND push_bit (unat col) 1)"

definition allocateBitmapMem :: "'a phys_scheme \<Rightarrow> 'a phys_scheme" where
  "allocateBitmapMem s =
     (let s1 = set_bitmap_rows s;
          s2 = s1\<lparr>availBase := KER_PHYSFREE s1\<rparr>;
          s3 = fold (\<lambda>i s. s\<lparr>availFrames := (availFrames s)(of_nat i := 0)\<rparr>)
                 [0..<unat (MAX_BITMAP_ROWS s2)] s2
      in s3\<lparr>KER_PHYSFREE := KER_PHYSFREE s3 + (MAX_BITMAP_ROWS s3 * 64) div 8\<rparr>)"

definition AHCI_MEM :: u64 where "AHCI_MEM = 122880"

definition allocateAHCI :: "'a phys_scheme \<Rightarrow> 'a phys_scheme" where
  "allocateAHCI s =
     (let s1 = s\<lparr>AHCI_PHYS := KER_PHYSFREE s\<rparr>
      in s1\<lparr>KER_PHYSFREE := KER_PHYSFREE s1 + AHCI_MEM\<rparr>)"

text \<open>
  The loop over the frames of a region counts \<open>startFrameNum\<close> up to and including
  \<open>endFrameNum\<close>; both are quotients by 4096, so the count never wraps.
\<close>

definition initBitmap :: "u64 \<Rightarrow> u64 \<Rightarrow> 'a phys_scheme \<Rightarrow> 'a phys_scheme" where
  "initBitmap start en s =
     (let startFrameNum = start div 0x1000;
          endFrameNum = en div 0x1000;
          temp2 = KER_PHYSFREE s div 0x1000;
          s1 = fold (\<lambda>f s. if of_nat f \<le> temp2 then s else markasFree (of_nat f) s)
                 [unat startFrameNum ..< Suc (unat endFrameNum)] s;
          s2 = fold (\<lambda>temp s. markasUsed (of_nat temp) s) [0..<256] s1
      in s2\<lparr>PHYSEND := en\<rparr>)"

text \<open>The two loops of \<open>getFirstFrame\<close>: over the columns of a row, over the rows.\<close>

function scan_cols :: "u64 \<Rightarrow> nat \<Rightarrow> nat option" where
  "scan_cols w col =
     (if col < 64
      then if w AND push_bit col 1 \<noteq> 0 then Some col else scan_cols w (Suc col)
      else None)"
  by pat_completeness auto
termination by (relation "measure (\<lambda>(w, col). 64 - col)") auto

function scan_rows :: "(u64 \<Rightarrow> u64) \<Rightarrow> nat \<Rightarrow> nat \<Rightarrow> u64 option" where
  "scan_rows av n row =
     (if row < n
      then if av (of_nat row) \<noteq> 0
           then case scan_cols (av (of_nat row)) 0 of
                  Some col \<Rightarrow> Some (of_nat row * 64 + of_nat col)
                | None \<Rightarrow> scan_rows av n (Suc row)
           else scan_rows av n (Suc row)
      else None)"
  by pat_completeness auto
termination by (relation "measure (\<lambda>(av, n, row). n - row)") auto

declare scan_cols.simps [simp del] scan_rows.simps [simp del]

definition getFirstFrame :: "'a phys_scheme \<Rightarrow> u64" where
  "getFirstFrame s =
     (case scan_rows (availFrames s) (unat (MAX_BITMAP_ROWS s)) 0 of
        Some frame \<Rightarrow> frame
      | None \<Rightarrow> - 1)"

definition pageAllocator :: "'a phys_scheme \<Rightarrow> u64 \<times> 'a phys_scheme" where
  "pageAllocator s =
     (let frameNum = getFirstFrame s
      in if frameNum = - 1 then (NULL, s)
         else (frameNum * 0x1000, markasUsed frameNum s))"

definition pageDeAllocator :: "u64 \<Rightarrow> 'a phys_scheme \<Rightarrow> 'a phys_scheme" where
  "pageDeAllocator pageAddr s = markasFree (pageAddr div 0x1000) s"

text \<open>
  A call whose address the caller computes wrongly may have a row outside the array; the bit would be set in whatever memory lies
  there. Such a call has no value.
\<close>

definition pageDeAllocator_checked :: "u64 \<Rightarrow> 'a phys_scheme \<Rightarrow> 'a phys_scheme option" where
  "pageDeAllocator_checked pageAddr s =
     (if ROW (pageAddr div 0x1000) < MAX_BITMAP_ROWS s then Some (pageDeAllocator pageAddr s) else None)"

text \<open>The loop of \<open>memset\<close>: \<open>n\<close> words from \<open>p\<close> on are set to 0.\<close>

fun zero_words :: "nat \<Rightarrow> u64 \<Rightarrow> (u64 \<Rightarrow> u64) \<Rightarrow> u64 \<Rightarrow> u64" where
  "zero_words 0 p m = m"
| "zero_words (Suc n) p m = zero_words n (p + 8) (m(p := 0))"

definition memset :: "u64 \<Rightarrow> 'a phys_scheme \<Rightarrow> 'a phys_scheme" where
  "memset pageaddr s = s\<lparr>pmem := zero_words 512 (k2p (kernbase s) pageaddr) (pmem s)\<rparr>"

definition kdealloc :: "u64 \<Rightarrow> 'a phys_scheme \<Rightarrow> 'a phys_scheme" where
  "kdealloc pageAddr s = pageDeAllocator (pageAddr - kernbase s) (memset pageAddr s)"

section \<open>The bitmap as a set of free frames\<close>

text \<open>The abstraction: the frame numbers whose bit is set in the rows that are scanned.\<close>

definition free_frames :: "'a phys_scheme \<Rightarrow> nat set" where
  "free_frames s =
     {f. f < 64 * unat (MAX_BITMAP_ROWS s) \<and> bit (availFrames s (of_nat (f div 64))) (f mod 64)}"

text \<open>
  What the rest of the kernel relies on: the bitmap has at most 1024 rows (256 MB of memory)
  and frame 0, whose address is \<^term>\<open>NULL\<close>, is never free.
\<close>

definition phys_inv :: "'a phys_scheme \<Rightarrow> bool" where
  "phys_inv s \<longleftrightarrow> unat (MAX_BITMAP_ROWS s) \<le> 1024 \<and> 0 \<notin> free_frames s"

lemma finite_free_frames [simp]: "finite (free_frames s)"
  by (simp add: free_frames_def)

lemma and_single_bit: "(w :: u64) AND 2 ^ n \<noteq> 0 \<longleftrightarrow> n < 64 \<and> bit w n"
proof -
  have "w AND 2 ^ n = (if bit w n then 2 ^ n else 0)"
    by (rule bit_word_eqI) (auto simp: bit_simps)
  moreover have "(2 ^ n :: u64) \<noteq> 0" if "n < 64"
    using that by simp
  ultimately show ?thesis
    by (auto dest: bit_imp_le_length)
qed

lemma row_split:
  assumes "f < 2 ^ 64"
  shows "ROW (of_nat f) = of_nat (f div 64)" "unat (COL (of_nat f)) = f mod 64"
  using assms by (simp_all add: ROW_def COL_def word_arith_nat_div unat_mod)

lemma phys_inv_rows: "phys_inv s \<Longrightarrow> unat (MAX_BITMAP_ROWS s) \<le> 1024"
  by (simp add: phys_inv_def)

text \<open>Bit \<open>f\<close> of a bitmap whose rows are \<open>av\<close>.\<close>

definition bm_bit :: "(u64 \<Rightarrow> u64) \<Rightarrow> nat \<Rightarrow> bool" where
  "bm_bit av f \<longleftrightarrow> bit (av (of_nat (f div 64))) (f mod 64)"

lemma free_frames_bm: "free_frames s = {f. f < 64 * unat (MAX_BITMAP_ROWS s) \<and> bm_bit (availFrames s) f}"
  by (simp add: free_frames_def bm_bit_def)

lemma same_row:
  assumes "f < 2 ^ 64" and "g < 2 ^ 64"
  shows "(of_nat (g div 64) :: u64) = of_nat (f div 64) \<and> g mod 64 = f mod 64 \<longleftrightarrow> g = f"
proof -
  have "(of_nat (g div 64) :: u64) = of_nat (f div 64) \<longleftrightarrow> g div 64 = f div 64"
    using assms by (intro of_nat_inj_64) auto
  moreover have "g div 64 = f div 64 \<and> g mod 64 = f mod 64 \<longleftrightarrow> g = f"
    by (metis div_mult_mod_eq)
  ultimately show ?thesis by simp
qed

lemma bm_bit_markasFree:
  assumes "f < 2 ^ 64" and "g < 2 ^ 64"
  shows "bm_bit (availFrames (markasFree (of_nat f) s)) g \<longleftrightarrow> g = f \<or> bm_bit (availFrames s) g"
proof (cases "(of_nat (g div 64) :: u64) = of_nat (f div 64)")
  case True
  with same_row [OF assms] have "g mod 64 = f mod 64 \<longleftrightarrow> g = f" by simp
  with True show ?thesis
    by (auto simp: bm_bit_def markasFree_def Let_def row_split [OF assms(1)] bit_simps)
next
  case False
  with same_row [OF assms] have "g \<noteq> f" by auto
  with False show ?thesis
    by (simp add: bm_bit_def markasFree_def Let_def row_split [OF assms(1)])
qed

lemma bm_bit_markasUsed:
  assumes "f < 2 ^ 64" and "g < 2 ^ 64"
  shows "bm_bit (availFrames (markasUsed (of_nat f) s)) g \<longleftrightarrow> g \<noteq> f \<and> bm_bit (availFrames s) g"
proof (cases "(of_nat (g div 64) :: u64) = of_nat (f div 64)")
  case True
  with same_row [OF assms] have "g mod 64 = f mod 64 \<longleftrightarrow> g = f" by simp
  with True show ?thesis
    by (auto simp: bm_bit_def markasUsed_def Let_def row_split [OF assms(1)] bit_simps)
next
  case False
  with same_row [OF assms] have "g \<noteq> f" by auto
  with False show ?thesis
    by (simp add: bm_bit_def markasUsed_def Let_def row_split [OF assms(1)])
qed

lemma markas_frame [frame_simps]:
  "MAX_BITMAP_ROWS (markasFree f s) = MAX_BITMAP_ROWS s"
  "MAX_BITMAP_ROWS (markasUsed f s) = MAX_BITMAP_ROWS s"
  "KER_PHYSFREE (markasFree f s) = KER_PHYSFREE s"
  "KER_PHYSFREE (markasUsed f s) = KER_PHYSFREE s"
  "pmem (markasFree f s) = pmem s" "pmem (markasUsed f s) = pmem s"
  "kernbase (markasFree f s) = kernbase s" "kernbase (markasUsed f s) = kernbase s"
  by (simp_all add: markasFree_def markasUsed_def Let_def)

text \<open>Setting and clearing the bit of a frame inserts it into the set or removes it.\<close>

lemma free_markasFree:
  assumes "f < 64 * unat (MAX_BITMAP_ROWS s)" and "unat (MAX_BITMAP_ROWS s) \<le> 1024"
  shows "free_frames (markasFree (of_nat f) s) = insert f (free_frames s)"
  using assms by (auto simp: free_frames_bm bm_bit_markasFree frame_simps)

lemma free_markasUsed:
  assumes "f < 64 * unat (MAX_BITMAP_ROWS s)" and "unat (MAX_BITMAP_ROWS s) \<le> 1024"
  shows "free_frames (markasUsed (of_nat f) s) = free_frames s - {f}"
  using assms by (auto simp: free_frames_bm bm_bit_markasUsed frame_simps)

section \<open>The search finds the least free frame\<close>

lemma scan_cols_step:
  "scan_cols w col =
     (if col < 64 then if bit w col then Some col else scan_cols w (Suc col) else None)"
  by (subst scan_cols.simps) (simp add: and_single_bit)

lemma scan_cols_Some:
  "scan_cols w col = Some c \<Longrightarrow> col \<le> c \<and> c < 64 \<and> bit w c \<and> (\<forall>d. col \<le> d \<and> d < c \<longrightarrow> \<not> bit w d)"
proof (induction w col rule: scan_cols.induct)
  case (1 w col)
  from "1.prems" have lt: "col < 64"
    by (subst (asm) scan_cols_step) (auto split: if_splits)
  show ?case
  proof (cases "bit w col")
    case True
    with "1.prems" lt show ?thesis
      by (subst (asm) scan_cols_step) auto
  next
    case False
    with "1.prems" lt have "scan_cols w (Suc col) = Some c"
      by (subst (asm) scan_cols_step) auto
    from "1.IH" [OF lt _ this] False have
      "Suc col \<le> c \<and> c < 64 \<and> bit w c \<and> (\<forall>d. Suc col \<le> d \<and> d < c \<longrightarrow> \<not> bit w d)"
      by (simp add: and_single_bit)
    with False show ?thesis by (metis Suc_leD le_neq_implies_less Suc_leI)
  qed
qed

lemma scan_cols_None: "scan_cols w col = None \<Longrightarrow> col \<le> c \<Longrightarrow> c < 64 \<Longrightarrow> \<not> bit w c"
proof (induction w col rule: scan_cols.induct)
  case (1 w col)
  then have lt: "col < 64" by simp
  with "1.prems" have nb: "\<not> bit w col" and "scan_cols w (Suc col) = None"
    by (subst (asm) scan_cols_step; auto split: if_splits)+
  with "1.IH" [OF lt] "1.prems" show ?case
    by (cases "c = col") (auto simp: and_single_bit)
qed

lemma row_none:
  assumes "\<And>c. c < 64 \<Longrightarrow> \<not> bit (av (of_nat row)) c" and "64 * row \<le> g" and "g < 64 * Suc row"
  shows "\<not> bm_bit av g"
proof -
  from assms(2,3) have "g div 64 = row" by auto
  with assms(1) show ?thesis by (simp add: bm_bit_def)
qed

lemma scan_rows_Some:
  "scan_rows av n row = Some w \<Longrightarrow> \<exists>f. w = of_nat f \<and> 64 * row \<le> f \<and> f < 64 * n \<and> bm_bit av f \<and>
     (\<forall>g. 64 * row \<le> g \<and> g < f \<longrightarrow> \<not> bm_bit av g)"
proof (induction av n row rule: scan_rows.induct)
  case (1 av n row)
  from "1.prems" have lt: "row < n"
    by (subst (asm) scan_rows.simps) (auto split: if_splits)
  consider (found) col where "scan_cols (av (of_nat row)) 0 = Some col" "av (of_nat row) \<noteq> 0"
    | (none) "scan_cols (av (of_nat row)) 0 = None" "av (of_nat row) \<noteq> 0" | (zero) "av (of_nat row) = 0"
    by (cases "scan_cols (av (of_nat row)) 0") auto
  then show ?case
  proof cases
    case found
    from scan_cols_Some [OF found(1)] have c: "col < 64" "bit (av (of_nat row)) col"
      and min: "\<forall>d < col. \<not> bit (av (of_nat row)) d" by auto
    have "w = of_nat (row * 64 + col)"
      using "1.prems" lt found by (subst (asm) scan_rows.simps) simp
    moreover have "bm_bit av (row * 64 + col)"
      using c by (simp add: bm_bit_def)
    moreover have "\<not> bm_bit av g" if "64 * row \<le> g" "g < row * 64 + col" for g
    proof -
      define k where "k = g - 64 * row"
      with that have "g = row * 64 + k" "k < col" by auto
      with c min show ?thesis by (simp add: bm_bit_def)
    qed
    ultimately show ?thesis
      using lt c by (intro exI [of _ "row * 64 + col"]) auto
  next
    case none
    from lt none "1.prems" have next_row: "scan_rows av n (Suc row) = Some w"
      by (subst (asm) scan_rows.simps) simp
    from "1.IH"(1) [OF lt none(2) none(1) next_row]
    obtain f where f: "w = of_nat f" "64 * Suc row \<le> f" "f < 64 * n" "bm_bit av f"
      and m: "\<forall>g. 64 * Suc row \<le> g \<and> g < f \<longrightarrow> \<not> bm_bit av g" by blast
    have "\<not> bm_bit av g" if "64 * row \<le> g" "g < f" for g
      using m that row_none [of av row g] scan_cols_None [OF none(1)] by fastforce
    with f show ?thesis by (intro exI [of _ f]) auto
  next
    case zero
    from lt zero "1.prems" have next_row: "scan_rows av n (Suc row) = Some w"
      by (subst (asm) scan_rows.simps) simp
    from "1.IH"(2) [OF lt _ next_row] zero
    obtain f where f: "w = of_nat f" "64 * Suc row \<le> f" "f < 64 * n" "bm_bit av f"
      and m: "\<forall>g. 64 * Suc row \<le> g \<and> g < f \<longrightarrow> \<not> bm_bit av g" by auto
    have "\<not> bm_bit av g" if "64 * row \<le> g" "g < f" for g
      using m that row_none [of av row g] zero by fastforce
    with f show ?thesis by (intro exI [of _ f]) auto
  qed
qed

lemma scan_rows_None:
  "scan_rows av n row = None \<Longrightarrow> 64 * row \<le> g \<Longrightarrow> g < 64 * n \<Longrightarrow> \<not> bm_bit av g"
proof (induction av n row rule: scan_rows.induct)
  case (1 av n row)
  then have lt: "row < n" by auto
  show ?case
  proof (cases "av (of_nat row) = 0")
    case True
    with lt "1.prems"(1) have "scan_rows av n (Suc row) = None"
      by (subst (asm) scan_rows.simps) simp
    with "1.IH"(2) [OF lt] True "1.prems" row_none [of av row g] show ?thesis
      by (cases "64 * Suc row \<le> g") auto
  next
    case False
    with lt "1.prems"(1) have none: "scan_cols (av (of_nat row)) 0 = None"
      and "scan_rows av n (Suc row) = None"
      by (subst (asm) scan_rows.simps; auto split: option.splits)+
    with "1.IH"(1) [OF lt False none] "1.prems" row_none [of av row g] scan_cols_None [OF none]
    show ?thesis by (cases "64 * Suc row \<le> g") auto
  qed
qed

lemma getFirstFrame_free:
  assumes "unat (MAX_BITMAP_ROWS s) \<le> 1024" and "free_frames s \<noteq> {}"
  shows "getFirstFrame s = of_nat (Min (free_frames s))"
proof (cases "scan_rows (availFrames s) (unat (MAX_BITMAP_ROWS s)) 0")
  case None
  from scan_rows_None [OF this] assms(2) show ?thesis by (auto simp: free_frames_bm)
next
  case (Some w)
  from scan_rows_Some [OF Some] obtain f where f: "w = of_nat f" "f \<in> free_frames s"
    and "\<forall>g < f. \<not> bm_bit (availFrames s) g" by (auto simp: free_frames_bm)
  then have "Min (free_frames s) = f"
    by (intro Min_eqI [OF finite_free_frames]) (auto simp: free_frames_bm not_le [symmetric])
  with f Some show ?thesis by (simp add: getFirstFrame_def)
qed

lemma getFirstFrame_none:
  assumes "free_frames s = {}"
  shows "getFirstFrame s = - 1"
proof (cases "scan_rows (availFrames s) (unat (MAX_BITMAP_ROWS s)) 0")
  case (Some w)
  from scan_rows_Some [OF Some] assms show ?thesis by (auto simp: free_frames_bm)
qed (simp add: getFirstFrame_def)

lemma free_frames_bound: "phys_inv s \<Longrightarrow> f \<in> free_frames s \<Longrightarrow> 0 < f \<and> f < 65536"
  by (cases "f = 0") (auto simp: phys_inv_def free_frames_def)

lemma pageAllocator_free:
  assumes "phys_inv s" and "free_frames s \<noteq> {}"
  shows "pageAllocator s =
    (of_nat (Min (free_frames s)) * 0x1000, markasUsed (of_nat (Min (free_frames s))) s)"
proof -
  have "Min (free_frames s) \<in> free_frames s" using assms(2) by simp
  with assms(1) have "Min (free_frames s) < 65536" by (simp add: free_frames_bound)
  then have "unat (of_nat (Min (free_frames s)) :: u64) < 65536" by simp
  then have "(of_nat (Min (free_frames s)) :: u64) \<noteq> - 1" by auto
  with assms show ?thesis
    by (simp add: pageAllocator_def Let_def getFirstFrame_free phys_inv_rows)
qed

lemma pageAllocator_none: "free_frames s = {} \<Longrightarrow> pageAllocator s = (NULL, s)"
  by (simp add: pageAllocator_def Let_def getFirstFrame_none)

section \<open>The allocator's contract\<close>

text \<open>
  The address of frame \<open>f\<close>, and \<open>n\<close> allocations in a row, as the callers that build page
  tables or task structures make them.
\<close>

definition page_of :: "nat \<Rightarrow> u64" where
  "page_of f = of_nat f * 0x1000"

fun alloc_many :: "('s \<Rightarrow> u64 \<times> 's) \<Rightarrow> nat \<Rightarrow> 's \<Rightarrow> u64 list \<times> 's" where
  "alloc_many al 0 s = ([], s)"
| "alloc_many al (Suc n) s =
     (case al s of (p, s1) \<Rightarrow> (case alloc_many al n s1 of (ps, s2) \<Rightarrow> (p # ps, s2)))"

lemma unat_page_of: "f < 2 ^ 52 \<Longrightarrow> unat (page_of f) = f * 4096"
  by (simp add: page_of_def unat_mult_64)

lemma page_of_div: "f < 2 ^ 52 \<Longrightarrow> page_of f div 0x1000 = of_nat f"
  by (simp add: word_unat_eq_iff unat_div unat_page_of)

lemma outside_bitmap:
  fixes F :: nat
  assumes "phys_inv s" "65536 \<le> F" "F < 2 ^ 52"
  shows "pageDeAllocator_checked (page_of F) s = None"
proof -
  have "1024 \<le> F div 64" using assms(2) by simp
  then have "\<not> ROW (of_nat F) < MAX_BITMAP_ROWS s"
    using assms by (simp add: ROW_def phys_inv_def word_less_nat_alt unat_div unat_of_nat_small)
  then show ?thesis by (simp add: pageDeAllocator_checked_def page_of_div [OF assms(3)])
qed

lemma page_of_inj: "f < 2 ^ 52 \<Longrightarrow> g < 2 ^ 52 \<Longrightarrow> page_of f = page_of g \<longleftrightarrow> f = g"
  by (metis mult_cancel_right unat_page_of zero_neq_numeral)

lemma page_of_eq_0: "f < 2 ^ 52 \<Longrightarrow> page_of f = NULL \<longleftrightarrow> f = 0"
  using page_of_inj [of f 0] by (simp add: page_of_def)

text \<open>
  The interface between the allocator and its clients. \<open>free_set\<close> are the numbers of the free
  frames, \<open>managed\<close> those the allocator can ever hand out, \<open>good\<close> the allocator's invariant.
\<close>

locale frame_allocator =
  fixes alloc :: "'s \<Rightarrow> u64 \<times> 's"
    and release :: "u64 \<Rightarrow> 's \<Rightarrow> 's"
    and free_set :: "'s \<Rightarrow> nat set"
    and managed :: "'s \<Rightarrow> nat set"
    and good :: "'s \<Rightarrow> bool"
  assumes free_finite: "finite (free_set s)"
    and managed_bound: "good s \<Longrightarrow> f \<in> managed s \<Longrightarrow> 0 < f \<and> f < 65536"
    and free_managed: "good s \<Longrightarrow> free_set s \<subseteq> managed s"
    and alloc_page: "good s \<Longrightarrow> free_set s \<noteq> {} \<Longrightarrow>
      \<exists>f s'. alloc s = (page_of f, s') \<and> f \<in> free_set s \<and> free_set s' = free_set s - {f} \<and>
        managed s' = managed s \<and> good s'"
    and alloc_null: "good s \<Longrightarrow> free_set s = {} \<Longrightarrow> alloc s = (NULL, s)"
    and release_page: "good s \<Longrightarrow> f \<in> managed s \<Longrightarrow>
      free_set (release (page_of f) s) = insert f (free_set s) \<and>
      managed (release (page_of f) s) = managed s \<and> good (release (page_of f) s)"
begin

lemma free_bound: "good s \<Longrightarrow> f \<in> free_set s \<Longrightarrow> 0 < f \<and> f < 65536"
  using free_managed managed_bound by blast

lemma alloc_not_null:
  assumes "good s" and "free_set s \<noteq> {}"
  shows "fst (alloc s) \<noteq> NULL"
proof -
  obtain f s' where "alloc s = (page_of f, s')" "f \<in> free_set s"
    using alloc_page [OF assms] by blast
  with free_bound [OF assms(1), of f] show ?thesis by (simp add: page_of_eq_0)
qed

lemma alloc_release:
  assumes "good s" and "free_set s \<noteq> {}" and "alloc s = (p, s')"
  shows "free_set (release p s') = free_set s \<and> good (release p s')"
proof -
  from alloc_page [OF assms(1,2)] assms(3) obtain f where
    "p = page_of f" "f \<in> free_set s" "free_set s' = free_set s - {f}" "managed s' = managed s" "good s'"
    by auto
  with free_managed [OF assms(1)] release_page [of s' f] show ?thesis by auto
qed

lemma alloc_many_ok:
  assumes "good s" and "n \<le> card (free_set s)" and "alloc_many alloc n s = (ps, s')"
  shows "distinct ps \<and> length ps = n \<and> NULL \<notin> set ps \<and> set ps \<subseteq> page_of ` free_set s \<and>
    free_set s' = {f \<in> free_set s. page_of f \<notin> set ps} \<and> good s'"
  using assms
proof (induction n arbitrary: s ps)
  case 0
  then show ?case by auto
next
  case (Suc n)
  then have ne: "free_set s \<noteq> {}" by auto
  obtain f s1 where f: "alloc s = (page_of f, s1)" "f \<in> free_set s" "free_set s1 = free_set s - {f}"
    and g1: "good s1" using alloc_page [OF Suc.prems(1) ne] by blast
  obtain qs where q: "alloc_many alloc n s1 = (qs, s')" "ps = page_of f # qs"
    using Suc.prems(3) f(1) by (auto split: prod.splits)
  have "n \<le> card (free_set s1)"
    using Suc.prems(2) f by (simp add: free_finite)
  from Suc.IH [OF g1 this q(1)] have IH: "distinct qs" "length qs = n" "NULL \<notin> set qs"
    "set qs \<subseteq> page_of ` (free_set s - {f})"
    "free_set s' = {g \<in> free_set s - {f}. page_of g \<notin> set qs}" "good s'"
    by (simp_all add: f(3))
  have inj: "page_of g = page_of f \<longleftrightarrow> g = f" if "g \<in> free_set s" for g
    using free_bound [OF Suc.prems(1) that] free_bound [OF Suc.prems(1) f(2)] by (simp add: page_of_inj)
  have "page_of f \<noteq> NULL"
    using free_bound [OF Suc.prems(1) f(2)] by (simp add: page_of_eq_0)
  moreover have "page_of f \<notin> set qs"
  proof
    assume "page_of f \<in> set qs"
    with IH(4) have "page_of f \<in> page_of ` (free_set s - {f})" by (rule subsetD)
    then obtain g where "g \<in> free_set s - {f}" "page_of g = page_of f" by (metis imageE)
    with inj show False by simp
  qed
  moreover have "{g \<in> free_set s. page_of g \<notin> set (page_of f # qs)} =
      {g \<in> free_set s - {f}. page_of g \<notin> set qs}"
    using inj by (simp add: set_eq_iff) blast
  moreover have "set (page_of f # qs) \<subseteq> page_of ` free_set s"
    using IH(4) f(2) by auto
  ultimately show ?case using IH by (simp add: q(2) del: set_simps) simp
qed

end

text \<open>The bitmap implements the contract: allocation is the least free frame.\<close>

definition managed_frames :: "'a phys_scheme \<Rightarrow> nat set" where
  "managed_frames s = {0<..<64 * unat (MAX_BITMAP_ROWS s)}"

lemma pageAllocator_step:
  assumes "phys_inv s" and "free_frames s \<noteq> {}"
  defines "f \<equiv> Min (free_frames s)"
  shows "pageAllocator s = (page_of f, markasUsed (of_nat f) s)"
    and "free_frames (markasUsed (of_nat f) s) = free_frames s - {f}"
    and "phys_inv (markasUsed (of_nat f) s)"
proof -
  have f: "f \<in> free_frames s" using assms(2) by (simp add: f_def)
  then have lt: "f < 64 * unat (MAX_BITMAP_ROWS s)" by (simp add: free_frames_def)
  show "pageAllocator s = (page_of f, markasUsed (of_nat f) s)"
    using pageAllocator_free [OF assms(1,2)] by (simp add: f_def page_of_def)
  show fr: "free_frames (markasUsed (of_nat f) s) = free_frames s - {f}"
    by (rule free_markasUsed [OF lt phys_inv_rows [OF assms(1)]])
  with assms(1) show "phys_inv (markasUsed (of_nat f) s)"
    by (simp add: phys_inv_def frame_simps)
qed

interpretation pa: frame_allocator pageAllocator pageDeAllocator free_frames managed_frames phys_inv
proof unfold_locales
  fix s :: "'a phys_scheme" and f
  show "finite (free_frames s)" by simp
  assume g: "phys_inv s"
  show "0 < f \<and> f < 65536" if "f \<in> managed_frames s"
    using g that by (auto simp: managed_frames_def phys_inv_def)
  show "free_frames s \<subseteq> managed_frames s"
    using free_frames_bound [OF g] by (auto simp: managed_frames_def free_frames_def)
  show "\<exists>f s'. pageAllocator s = (page_of f, s') \<and> f \<in> free_frames s \<and>
      free_frames s' = free_frames s - {f} \<and> managed_frames s' = managed_frames s \<and> phys_inv s'"
    if "free_frames s \<noteq> {}"
    using pageAllocator_step [OF g that] Min_in [OF _ that]
    by (intro exI conjI) (simp_all add: managed_frames_def frame_simps)
  show "pageAllocator s = (NULL, s)" if "free_frames s = {}"
    using that by (rule pageAllocator_none)
  assume f: "f \<in> managed_frames s"
  with g have lt: "0 < f" "f < 64 * unat (MAX_BITMAP_ROWS s)" "unat (MAX_BITMAP_ROWS s) \<le> 1024"
    by (auto simp: managed_frames_def phys_inv_def)
  then have "pageDeAllocator (page_of f) s = markasFree (of_nat f) s"
    by (simp add: pageDeAllocator_def page_of_div)
  then show "free_frames (pageDeAllocator (page_of f) s) = insert f (free_frames s) \<and>
      managed_frames (pageDeAllocator (page_of f) s) = managed_frames s \<and>
      phys_inv (pageDeAllocator (page_of f) s)"
    using g lt by (simp add: free_markasFree managed_frames_def phys_inv_def frame_simps)
qed

section \<open>Initialisation\<close>

lemma fold_markas_frame [frame_simps]:
  fixes h :: "nat \<Rightarrow> u64"
  shows "MAX_BITMAP_ROWS (fold (\<lambda>f s. if P f then s else markasFree (h f) s) fs s) = MAX_BITMAP_ROWS s"
    "KER_PHYSFREE (fold (\<lambda>f s. if P f then s else markasFree (h f) s) fs s) = KER_PHYSFREE s"
    "pmem (fold (\<lambda>f s. if P f then s else markasFree (h f) s) fs s) = pmem s"
    "MAX_BITMAP_ROWS (fold (\<lambda>f s. markasUsed (h f) s) fs s) = MAX_BITMAP_ROWS s"
    "KER_PHYSFREE (fold (\<lambda>f s. markasUsed (h f) s) fs s) = KER_PHYSFREE s"
    "pmem (fold (\<lambda>f s. markasUsed (h f) s) fs s) = pmem s"
  by (induction fs arbitrary: s; simp add: frame_simps)+

lemma bm_bit_fold_markasFree:
  assumes "\<And>f. f \<in> set fs \<Longrightarrow> f < 2 ^ 64" and "g < 2 ^ 64"
  shows "bm_bit (availFrames (fold (\<lambda>f s. if P f then s else markasFree (of_nat f) s) fs s)) g
    \<longleftrightarrow> bm_bit (availFrames s) g \<or> g \<in> set fs \<and> \<not> P g"
  using assms(1)
proof (induction fs arbitrary: s)
  case (Cons f fs)
  with assms(2) show ?case by (auto simp: bm_bit_markasFree)
qed simp

lemma bm_bit_fold_markasUsed:
  assumes "\<And>f. f \<in> set fs \<Longrightarrow> f < 2 ^ 64" and "g < 2 ^ 64"
  shows "bm_bit (availFrames (fold (\<lambda>f s. markasUsed (of_nat f) s) fs s)) g
    \<longleftrightarrow> bm_bit (availFrames s) g \<and> g \<notin> set fs"
  using assms(1)
proof (induction fs arbitrary: s)
  case (Cons f fs)
  with assms(2) show ?case by (auto simp: bm_bit_markasUsed)
qed simp

lemma frame_quot_bound: "unat (a div 0x1000 :: u64) < 2 ^ 52"
proof -
  have "unat a div 4096 < 2 ^ 52" using unat_lt_2p64 [of a] by (simp add: less_mult_imp_div_less)
  then show ?thesis by (simp add: unat_div)
qed

lemma initBitmap_frame [frame_simps]:
  "MAX_BITMAP_ROWS (initBitmap st en s) = MAX_BITMAP_ROWS s"
  "KER_PHYSFREE (initBitmap st en s) = KER_PHYSFREE s"
  "PHYSEND (initBitmap st en s) = en" "pmem (initBitmap st en s) = pmem s"
  by (simp_all add: initBitmap_def Let_def frame_simps)

lemma bm_bit_initBitmap:
  assumes "g < 2 ^ 52"
  shows "bm_bit (availFrames (initBitmap st en s)) g \<longleftrightarrow>
    256 \<le> g \<and> (bm_bit (availFrames s) g \<or>
      unat st div 4096 \<le> g \<and> g \<le> unat en div 4096 \<and> unat (KER_PHYSFREE s) div 4096 < g)"
proof -
  let ?k = "KER_PHYSFREE s div 0x1000"
  have le: "(of_nat g :: u64) \<le> ?k \<longleftrightarrow> g \<le> unat (KER_PHYSFREE s) div 4096"
    using assms by (simp add: word_le_nat_alt unat_div)
  have fs: "f < 2 ^ 64" if "f \<in> set [unat (st div 0x1000)..<Suc (unat (en div 0x1000))]" for f
    using that frame_quot_bound [of en] by auto
  have us: "f < 2 ^ 64" if "f \<in> set [0..<256]" for f :: nat
    using that by (simp del: upt_rec_numeral)
  have g64: "g < 2 ^ 64" using assms by simp
  have physend: "availFrames (t\<lparr>PHYSEND := e\<rparr>) = availFrames t" for t :: "'a phys_scheme" and e
    by simp
  have "bm_bit (availFrames (initBitmap st en s)) g \<longleftrightarrow>
     (bm_bit (availFrames s) g \<or> g \<in> set [unat (st div 0x1000)..<Suc (unat (en div 0x1000))] \<and>
        \<not> of_nat g \<le> ?k) \<and> g \<notin> set [0..<256]"
    by (simp only: initBitmap_def Let_def physend bm_bit_fold_markasUsed [OF us g64]
        bm_bit_fold_markasFree [OF fs g64])
  then show ?thesis
    unfolding le by (auto simp: unat_div less_Suc_eq_le not_le simp del: upt_Suc)
qed

text \<open>
  The boot sequence of \<open>start\<close> (\<open>sys/main.c\<close>): the loader's memory map is a list of regions,
  those of type 1 and non-zero length are given to \<open>initBitmap\<close>.
\<close>

record smap_t =
  smap_base :: u64
  smap_length :: u64
  smap_type :: u32

definition start_region :: "smap_t \<Rightarrow> 'a phys_scheme \<Rightarrow> 'a phys_scheme" where
  "start_region smap s =
     (if smap_type smap = 1 \<and> smap_length smap \<noteq> 0
      then initBitmap (smap_base smap) (smap_base smap + smap_length smap) s
      else s)"

definition start_phys :: "u64 \<Rightarrow> u64 \<Rightarrow> smap_t list \<Rightarrow> 'a phys_scheme \<Rightarrow> 'a phys_scheme" where
  "start_phys physbase physfree smaps s =
     (let s1 = initPhys physbase physfree s;
          s2 = allocateBitmapMem s1;
          s3 = allocateAHCI s2
      in fold start_region smaps s3)"

lemma initBitmap_free:
  assumes "unat (MAX_BITMAP_ROWS s) \<le> 1024"
  shows "free_frames (initBitmap st en s) =
    {f. f < 64 * unat (MAX_BITMAP_ROWS s) \<and> 256 \<le> f \<and>
      (f \<in> free_frames s \<or>
       unat st div 4096 \<le> f \<and> f \<le> unat en div 4096 \<and> unat (KER_PHYSFREE s) div 4096 < f)}"
  using assms by (auto simp: free_frames_bm bm_bit_initBitmap frame_simps)

lemma zero_rows:
  "availFrames (fold (\<lambda>i s. s\<lparr>availFrames := (availFrames s)(of_nat i := 0)\<rparr>) is s) =
     (\<lambda>r. if r \<in> of_nat ` set is then 0 else availFrames s r)"
  by (induction "is" arbitrary: s) (auto simp: fun_eq_iff)

lemma zero_rows_frame [frame_simps]:
  "MAX_BITMAP_ROWS (fold (\<lambda>i s. s\<lparr>availFrames := (availFrames s)(of_nat i := 0)\<rparr>) is s) = MAX_BITMAP_ROWS s"
  "KER_PHYSFREE (fold (\<lambda>i s. s\<lparr>availFrames := (availFrames s)(of_nat i := 0)\<rparr>) is s) = KER_PHYSFREE s"
  by (induction "is" arbitrary: s) simp_all

lemma allocateBitmapMem_facts:
  "MAX_BITMAP_ROWS (allocateBitmapMem s) = 1024"
  "KER_PHYSFREE (allocateBitmapMem s) = KER_PHYSFREE s + 8192"
  "free_frames (allocateBitmapMem s) = {}"
proof -
  show m: "MAX_BITMAP_ROWS (allocateBitmapMem s) = 1024"
    by (simp add: allocateBitmapMem_def set_bitmap_rows_def Let_def frame_simps del: upt_rec_numeral)
  show "KER_PHYSFREE (allocateBitmapMem s) = KER_PHYSFREE s + 8192"
    by (simp add: allocateBitmapMem_def set_bitmap_rows_def Let_def frame_simps del: upt_rec_numeral)
  have "availFrames (allocateBitmapMem s) = (\<lambda>r. if r \<in> of_nat ` {0..<1024} then 0 else availFrames s r)"
    by (simp add: allocateBitmapMem_def set_bitmap_rows_def Let_def zero_rows cong: if_cong del: upt_rec_numeral)
  then have "availFrames (allocateBitmapMem s) (of_nat (f div 64)) = 0" if "f < 65536" for f
    using that by (auto simp: image_iff intro!: bexI [of _ "f div 64"])
  then show "free_frames (allocateBitmapMem s) = {}"
    by (auto simp: free_frames_def m)
qed

lemma allocateAHCI_frame [frame_simps]:
  "MAX_BITMAP_ROWS (allocateAHCI s) = MAX_BITMAP_ROWS s"
  "KER_PHYSFREE (allocateAHCI s) = KER_PHYSFREE s + 122880"
  "free_frames (allocateAHCI s) = free_frames s"
  by (simp_all add: allocateAHCI_def AHCI_MEM_def Let_def free_frames_def)

text \<open>The frames the boot sequence frees lie past the kernel, the bitmap and the AHCI area.\<close>

lemma fold_start_region:
  assumes "unat (MAX_BITMAP_ROWS s) \<le> 1024"
    and "\<forall>f \<in> free_frames s. 256 \<le> f \<and> unat (KER_PHYSFREE s) div 4096 < f"
  shows "unat (MAX_BITMAP_ROWS (fold start_region smaps s)) \<le> 1024 \<and>
    KER_PHYSFREE (fold start_region smaps s) = KER_PHYSFREE s \<and>
    (\<forall>f \<in> free_frames (fold start_region smaps s). 256 \<le> f \<and> unat (KER_PHYSFREE s) div 4096 < f)"
  using assms
proof (induction smaps arbitrary: s)
  case (Cons r smaps)
  let ?t = "start_region r s"
  have "unat (MAX_BITMAP_ROWS ?t) \<le> 1024" "KER_PHYSFREE ?t = KER_PHYSFREE s"
    "\<forall>f \<in> free_frames ?t. 256 \<le> f \<and> unat (KER_PHYSFREE ?t) div 4096 < f"
    using Cons.prems by (auto simp: start_region_def frame_simps initBitmap_free)
  with Cons.IH [of ?t] show ?case by simp
qed simp

lemma start_phys_safe:
  "phys_inv (start_phys physbase physfree smaps s) \<and>
   (\<forall>f \<in> free_frames (start_phys physbase physfree smaps s).
      256 \<le> f \<and> unat (physfree + 8192 + 122880) div 4096 < f)"
proof -
  define t where "t = allocateAHCI (allocateBitmapMem (initPhys physbase physfree s))"
  have "unat (MAX_BITMAP_ROWS t) \<le> 1024" "free_frames t = {}"
    by (simp_all add: t_def frame_simps allocateBitmapMem_facts)
  moreover have "KER_PHYSFREE t = physfree + 8192 + 122880"
    by (simp add: t_def frame_simps allocateBitmapMem_facts initPhys_def)
  ultimately show ?thesis
    using fold_start_region [of t smaps]
    by (auto simp: start_phys_def Let_def phys_inv_def t_def [symmetric])
qed

section \<open>Clearing a page\<close>

lemma zero_words_apply:
  assumes "8 * n \<le> 2 ^ 64"
  shows "zero_words n p m x = (if unat (x - p) < 8 * n \<and> unat (x - p) mod 8 = 0 then 0 else m x)"
  using assms
proof (induction n arbitrary: p m)
  case (Suc n)
  show ?case
  proof (cases "x = p")
    case True
    with Suc show ?thesis by (simp add: unat_sub_if_size)
  next
    case False
    define d where "d = x - p"
    from False have "d \<noteq> 0" by (simp add: d_def)
    have xd: "x - (p + 8) = d - 8" by (simp add: d_def)
    have "unat (d - 8) < 8 * n \<and> unat (d - 8) mod 8 = 0 \<longleftrightarrow> unat d < 8 * Suc n \<and> unat d mod 8 = 0"
    proof (cases "8 \<le> unat d")
      case True
      then have "unat (d - 8) = unat d - 8" by (simp add: unat_sub_if_size)
      with True show ?thesis by (auto simp: mod_if [of "unat d"])
    next
      case lt: False
      with \<open>d \<noteq> 0\<close> have "unat d mod 8 \<noteq> 0" by (simp add: unat_gt_0 [symmetric])
      moreover have "unat (d - 8) = unat d + 2 ^ 64 - 8" using lt by (simp add: unat_sub_if_size word_size)
      moreover have "8 * n < 2 ^ 64 - 7" using Suc.prems by simp
      ultimately show ?thesis by (cases "unat d") auto
    qed
    with Suc False show ?thesis by (simp add: xd d_def [symmetric])
  qed
qed simp

section \<open>Properties\<close>

text \<open>A concrete allocator: row 4 of the bitmap is all ones, so frames 256 to 319 are free.\<close>

definition small_phys :: phys where
  "small_phys = \<lparr>availFrames = (\<lambda>r. if r = 4 then - 1 else 0), availBase = 0, KER_PHYSBASE = 0,
     KER_PHYSFREE = 0x100000, PHYSEND = 0, MAX_BITMAP_ROWS = 1024, AHCI_PHYS = 0, kernbase = 0,
     pmem = (\<lambda>_. 7)\<rparr>"

lemma small_phys_free: "free_frames small_phys = {256..<320}"
proof -
  have "f \<in> free_frames small_phys \<longleftrightarrow> f \<in> {256..<320}" for f
  proof -
    have b: "bit (- 1 :: u64) (f mod 64)" by simp
    have d: "f div 64 = 4 \<longleftrightarrow> f \<in> {256..<320}"
    proof
      assume "f div 64 = 4"
      with div_mult_mod_eq [of f 64] have "f = 256 + f mod 64" by linarith
      moreover have "f mod 64 < 64" by simp
      ultimately show "f \<in> {256..<320}" unfolding atLeastLessThan_iff by linarith
    qed (auto intro: div_nat_eqI)
    have "f \<in> free_frames small_phys \<longleftrightarrow> f < 65536 \<and> f div 64 = 4"
    proof (cases "f < 65536")
      case True
      with of_nat_inj_64 [of "f div 64" 4] b show ?thesis by (simp add: free_frames_def small_phys_def)
    qed (simp add: free_frames_def small_phys_def)
    with d show ?thesis by auto
  qed
  then show ?thesis by blast
qed

lemma small_phys_ok: "phys_inv small_phys" "free_frames small_phys \<noteq> {}" "card (free_frames small_phys) = 64"
proof -
  show "phys_inv small_phys"
    unfolding phys_inv_def small_phys_free by (simp add: small_phys_def)
qed (simp_all add: small_phys_free)

text \<open>C16: \<open>pageAllocator\<close> hands out the address of the least free frame and marks just that frame
  used; the invariant of the bitmap is kept. The bitmap scan over 1024 rows of 64 bits is thereby a
  faithful search of the set of free frames.\<close>

theorem pageAllocator_least:
  assumes "phys_inv s" and "free_frames s \<noteq> {}" and "pageAllocator s = (p, s')"
  shows "\<exists>f \<in> free_frames s. p = page_of f \<and> p \<noteq> NULL \<and> (\<forall>g \<in> free_frames s. f \<le> g) \<and>
    free_frames s' = free_frames s - {f} \<and> phys_inv s' \<and> pmem s' = pmem s"
proof -
  have "Min (free_frames s) \<in> free_frames s" using assms(2) by simp
  with free_frames_bound [OF assms(1) this] pageAllocator_step [OF assms(1,2)] assms(3) show ?thesis
    by (intro bexI [of _ "Min (free_frames s)"]) (auto simp: frame_simps page_of_eq_0)
qed

theorem pageAllocator_least_witness: "fst (pageAllocator small_phys) = page_of 256"
proof -
  obtain p t where r: "pageAllocator small_phys = (p, t)" by fastforce
  from pageAllocator_least [OF small_phys_ok(1,2) r] obtain f where
    f: "f \<in> {256..<320}" "p = page_of f" "\<forall>g \<in> {256..<320}. f \<le> g" by (auto simp: small_phys_free)
  then have "f = 256" by (auto dest: bspec [of _ _ 256])
  with f r show ?thesis by simp
qed

text \<open>C17: Any number of allocations that the free frames allow are pairwise distinct pages, none of
  them NULL, all free before and used after.\<close>

theorem allocations_distinct:
  assumes "phys_inv s" and "n \<le> card (free_frames s)" and "alloc_many pageAllocator n s = (ps, s')"
  shows "distinct ps \<and> length ps = n \<and> NULL \<notin> set ps \<and> set ps \<subseteq> page_of ` free_frames s \<and>
    free_frames s' = {f \<in> free_frames s. page_of f \<notin> set ps} \<and> phys_inv s'"
  by (rule pa.alloc_many_ok [OF assms])

theorem allocations_distinct_witness: "distinct (fst (alloc_many pageAllocator 3 small_phys))"
proof -
  obtain ps t where r: "alloc_many pageAllocator 3 small_phys = (ps, t)" by fastforce
  from allocations_distinct [OF small_phys_ok(1) _ r] r show ?thesis by (simp add: small_phys_ok)
qed

text \<open>C39: \<open>pageDeAllocator\<close> undoes \<open>pageAllocator\<close>: giving the allocated page back restores the set
  of free frames.\<close>

theorem pageDeAllocator_roundtrip:
  assumes "phys_inv s" and "free_frames s \<noteq> {}" and "pageAllocator s = (p, s')"
  shows "free_frames (pageDeAllocator p s') = free_frames s \<and> phys_inv (pageDeAllocator p s')"
  by (rule pa.alloc_release [OF assms])

theorem pageDeAllocator_roundtrip_witness:
  "free_frames (pageDeAllocator (fst (pageAllocator small_phys)) (snd (pageAllocator small_phys))) = {256..<320}"
  using pageDeAllocator_roundtrip [OF small_phys_ok(1,2) surjective_pairing] small_phys_free by simp

text \<open>\<open>kdealloc\<close> of a kernel pointer to a frame clears the 512 words of that frame, leaves every
  other word of memory and frees exactly that frame.\<close>

theorem kdealloc_clears:
  assumes "phys_inv s" and "f \<in> managed_frames s" and "kernbase s = kb"
    and "kb = 0 \<or> unat kb + 65536 * 4096 \<le> 2 ^ 64"
  shows "free_frames (kdealloc (page_of f + kb) s) = insert f (free_frames s) \<and>
    phys_inv (kdealloc (page_of f + kb) s) \<and>
    pmem (kdealloc (page_of f + kb) s) x =
      (if unat (x - page_of f) < 4096 \<and> unat (x - page_of f) mod 8 = 0 then 0 else pmem s x)"
proof -
  let ?m = "memset (page_of f + kb) s"
  have f: "f < 65536" using assms(1,2) by (auto simp: managed_frames_def phys_inv_def)
  then have u: "unat (page_of f) = f * 4096" by (simp add: unat_page_of)
  have "kb \<le> page_of f + kb"
  proof (cases "kb = 0")
    case False
    with assms(4) f u have "unat (page_of f + kb) = unat (page_of f) + unat kb"
      by (intro unat_add_64) simp
    then show ?thesis by (simp add: word_le_nat_alt)
  qed simp
  then have m: "?m = s\<lparr>pmem := zero_words 512 (page_of f) (pmem s)\<rparr>"
    by (simp add: memset_def k2p_def assms(3))
  have fr: "free_frames ?m = free_frames s" "phys_inv ?m = phys_inv s" "managed_frames ?m = managed_frames s"
    by (simp_all add: m free_frames_def phys_inv_def managed_frames_def)
  have k: "kdealloc (page_of f + kb) s = pageDeAllocator (page_of f) ?m"
    by (simp add: kdealloc_def assms(3))
  have "pmem (pageDeAllocator (page_of f) ?m) = zero_words 512 (page_of f) (pmem s)"
    by (simp add: pageDeAllocator_def frame_simps m)
  with pa.release_page [of ?m f] assms(1,2) show ?thesis by (simp add: k fr zero_words_apply)
qed

theorem kdealloc_clears_witness: "pmem (kdealloc (page_of 5 + 0) small_phys) (page_of 5) = 0"
  using kdealloc_clears [of small_phys 5 0 "page_of 5"] small_phys_ok(1)
  by (simp add: managed_frames_def small_phys_def)

text \<open>\<open>initBitmap\<close> frees exactly the frames of the region, except those below 1 MB and those up to
  the end of the kernel. The end is inclusive: the frame that starts at a page-aligned end of the
  region, which is not part of the region, is freed too.\<close>

theorem initBitmap_region:
  assumes "unat (MAX_BITMAP_ROWS s) \<le> 1024"
  shows "f \<in> free_frames (initBitmap st en s) \<longleftrightarrow>
    f < 64 * unat (MAX_BITMAP_ROWS s) \<and> 256 \<le> f \<and>
      (f \<in> free_frames s \<or>
       unat st div 4096 \<le> f \<and> f \<le> unat en div 4096 \<and> unat (KER_PHYSFREE s) div 4096 < f)"
  by (simp add: initBitmap_free [OF assms])

theorem initBitmap_region_witness:
  "512 \<in> free_frames (initBitmap 0x100000 0x200000 small_phys)"
  using initBitmap_region [of small_phys 512 "0x100000" "0x200000"]
  by (simp add: small_phys_def)

text \<open>C18: After the boot sequence of \<open>start\<close>, whatever memory map the loader reports, no frame below
  1 MB and none that the kernel, the bitmap or the AHCI buffers occupy is free, and the allocator's
  invariant holds.\<close>

theorem boot_frames_safe:
  "phys_inv (start_phys physbase physfree smaps s) \<and>
   free_frames (start_phys physbase physfree smaps s) \<subseteq>
     {f. 256 \<le> f \<and> unat (physfree + 8192 + 122880) div 4096 < f}"
  using start_phys_safe by blast

text \<open>\<open>isFrameUsed\<close> answers the opposite of its name: it is non-zero exactly on the free frames.\<close>

theorem isFrameUsed_inverted:
  assumes "f < 64 * unat (MAX_BITMAP_ROWS s)" and "unat (MAX_BITMAP_ROWS s) \<le> 1024"
  shows "isFrameUsed s (of_nat f) \<noteq> 0 \<longleftrightarrow> f \<in> free_frames s"
  using assms by (simp add: isFrameUsed_def Let_def row_split free_frames_def and_single_bit)

theorem isFrameUsed_inverted_witness:
  "isFrameUsed small_phys (of_nat 256) \<noteq> 0 \<and> isFrameUsed small_phys (of_nat 5) = 0"
  using isFrameUsed_inverted [of 256 small_phys] isFrameUsed_inverted [of 5 small_phys] small_phys_free
  by (simp add: small_phys_def)

end
