(* ===== verification/PageTree.thy ===== *)
theory PageTree
  imports VirtMem
begin

text \<open>
  Page tables as a tree. \<open>tbl m r path\<close> is the table reached from the root \<open>r\<close> through the
  entries \<open>path\<close>; \<open>wf_tree m r U\<close> says that the tables below \<open>r\<close> are frames of \<open>U\<close> (the
  frames in use), no frame serving as two tables. The main lemmas are about one step of a
  mapping function, \<open>table_step\<close>: it keeps the tree, keeps every table and entry that was
  there, and adds at most one table, all of whose entries are empty.
\<close>

section \<open>Words, frames and slots\<close>

text \<open>The address of word \<open>k\<close> of frame \<open>f\<close>.\<close>

definition slot :: "nat \<Rightarrow> u64 \<Rightarrow> u64" where
  "slot f k = page_of f + 8 * k"

lemma unat_slot:
  assumes "f < 65536" and "k < 512"
  shows "unat (slot f k) = f * 4096 + 8 * unat k"
proof -
  from assms(2) have k: "unat k < 512" by (simp add: word_less_nat_alt)
  then have k8: "unat (8 * k) = 8 * unat k" by (simp add: unat_mult_64)
  with k assms(1) show ?thesis by (simp add: slot_def unat_add_64 unat_page_of)
qed

lemma slot_inj:
  assumes "f < 65536" "k < 512" "g < 65536" "j < 512"
  shows "slot f k = slot g j \<longleftrightarrow> f = g \<and> k = j"
proof
  assume "slot f k = slot g j"
  then have e: "f * 4096 + 8 * unat k = g * 4096 + 8 * unat j"
    using assms by (metis unat_slot)
  have k: "unat k < 512" and j: "unat j < 512"
    using assms(2,4) by (simp_all add: word_less_nat_alt)
  have "(f * 4096 + 8 * unat k) div 4096 = f" "(g * 4096 + 8 * unat j) div 4096 = g"
    using k j by simp_all
  with e have fg: "f = g" by metis
  have "unat k = unat j" using e unfolding fg by linarith
  with fg show "f = g \<and> k = j" by (simp only: word_unat_eq_iff)
qed simp

lemma slot_in_page:
  assumes "f < 65536" "k < 512" "g < 65536"
  shows "unat (slot f k - page_of g) < 4096 \<longleftrightarrow> f = g"
proof -
  have k: "unat k < 512" using assms by (simp add: word_less_nat_alt)
  have "unat (page_of g) = g * 4096" using assms by (simp add: unat_page_of)
  then have "unat (slot f k - page_of g) =
      (if g * 4096 \<le> f * 4096 + 8 * unat k then f * 4096 + 8 * unat k - g * 4096
       else f * 4096 + 8 * unat k + 2 ^ 64 - g * 4096)"
    using assms by (simp add: unat_sub_if_size unat_slot word_size)
  with k assms show ?thesis by (auto split: if_splits)
qed

lemma slot_aligned:
  assumes "k < 512"
  shows "unat (slot f k - page_of f) mod 8 = 0"
proof -
  have "unat k < 512" using assms by (simp add: word_less_nat_alt)
  then show ?thesis by (simp add: slot_def unat_mult_64)
qed

text \<open>Clearing frame \<open>f\<close> clears exactly its slots.\<close>

lemma zero_page_slot:
  assumes "f < 65536" "g < 65536" "k < 512"
  shows "zero_words 512 (page_of f) m (slot g k) = (if g = f then 0 else m (slot g k))"
  using assms slot_in_page [of g k f] slot_aligned [of k g] by (auto simp: zero_words_apply)

lemma FRAME_mask: "FRAME = NOT (mask 12)"
  by (simp add: FRAME_def mask_eq_exp_minus_1)

lemma page_of_push: "page_of f = push_bit 12 (of_nat f)"
  by (simp add: page_of_def push_bit_eq_mult)

lemma entry_frame [page_simps]:
  assumes "fl AND FRAME = 0"
  shows "(page_of f OR fl) AND FRAME = page_of f"
proof -
  have z: "page_of f AND FRAME = page_of f"
    by (rule bit_word_eqI) (auto simp: FRAME_mask page_of_push bit_simps)
  have "(page_of f OR fl) AND FRAME = (page_of f AND FRAME) OR (fl AND FRAME)"
    by (rule bit_word_eqI) (auto simp: bit_simps)
  with z assms show ?thesis by simp
qed

lemma page_frame [page_simps]: "page_of f AND FRAME = page_of f"
  using entry_frame [of 0 f] by simp

lemma entry_present [page_simps]:
  assumes "bit fl 0"
  shows "(x OR fl) AND PRESENT \<noteq> 0"
proof
  assume "(x OR fl) AND PRESENT = 0"
  then have "bit ((x OR fl) AND PRESENT) 0 = bit (0 :: u64) 0" by simp
  with assms show False by (simp add: PRESENT_def bit_simps)
qed

section \<open>The direct map\<close>

definition KERNBASE :: u64 where "KERNBASE = 0xFFFFFFFF80000000"

lemma unat_KERNBASE: "unat KERNBASE = 0xFFFFFFFF80000000"
  by (simp add: KERNBASE_def)

lemma k2p_direct:
  assumes "unat p < 2 ^ 31"
  shows "k2p KERNBASE (p + KERNBASE) = p" "k2p KERNBASE p = p"
proof -
  have "unat (p + KERNBASE) = unat p + unat KERNBASE"
    by (rule unat_add_64) (use assms in \<open>simp add: unat_KERNBASE\<close>)
  then have "KERNBASE \<le> p + KERNBASE" by (simp add: word_le_nat_alt)
  then show "k2p KERNBASE (p + KERNBASE) = p" by (simp add: k2p_def)
  show "k2p KERNBASE p = p"
    using assms by (simp add: k2p_def word_le_nat_alt unat_KERNBASE)
qed

lemma k2p_slot:
  assumes "f < 65536" "k < 512"
  shows "k2p KERNBASE (page_of f + KERNBASE + 8 * k) = slot f k" "k2p KERNBASE (slot f k) = slot f k"
proof -
  have k: "unat k < 512" using assms by (simp add: word_less_nat_alt)
  have lt: "unat (slot f k) < 2 ^ 31" using assms k by (simp add: unat_slot)
  have "page_of f + KERNBASE + 8 * k = slot f k + KERNBASE" by (simp add: slot_def)
  then show "k2p KERNBASE (page_of f + KERNBASE + 8 * k) = slot f k"
    using k2p_direct(1) [OF lt] by (simp only:)
  show "k2p KERNBASE (slot f k) = slot f k" by (rule k2p_direct(2) [OF lt])
qed

lemma k2p_page:
  assumes "f < 65536"
  shows "k2p KERNBASE (page_of f + KERNBASE) = page_of f" "k2p KERNBASE (page_of f) = page_of f"
  using k2p_slot [OF assms, of 0] by (simp_all add: slot_def)

section \<open>The tree of tables below a root\<close>

definition next_tbl :: "(u64 \<Rightarrow> u64) \<Rightarrow> u64 \<Rightarrow> u64 \<Rightarrow> u64 option" where
  "next_tbl m t i = (let e = m (t + 8 * i) in if e AND PRESENT \<noteq> 0 then Some (e AND FRAME) else None)"

primrec tbl :: "(u64 \<Rightarrow> u64) \<Rightarrow> u64 \<Rightarrow> u64 list \<Rightarrow> u64 option" where
  "tbl m r [] = Some r"
| "tbl m r (i # is) = (case next_tbl m r i of None \<Rightarrow> None | Some t \<Rightarrow> tbl m t is)"

lemma tbl_snoc: "tbl m r (is @ [i]) = (case tbl m r is of None \<Rightarrow> None | Some t \<Rightarrow> next_tbl m t i)"
  by (induction "is" arbitrary: r) (auto split: option.splits)

text \<open>Paths to tables: at most three entries (the fourth level is the page), each below 512.\<close>

definition vpath :: "u64 list \<Rightarrow> bool" where
  "vpath is \<longleftrightarrow> length is \<le> 3 \<and> (\<forall>i \<in> set is. i < 512)"

definition wf_tree :: "(u64 \<Rightarrow> u64) \<Rightarrow> u64 \<Rightarrow> nat set \<Rightarrow> bool" where
  "wf_tree m r U \<longleftrightarrow>
     U \<subseteq> {..<65536} \<and>
     (\<forall>is t. vpath is \<and> tbl m r is = Some t \<longrightarrow> (\<exists>f \<in> U. t = page_of f)) \<and>
     (\<forall>is js t. vpath is \<and> vpath js \<and> tbl m r is = Some t \<and> tbl m r js = Some t \<longrightarrow> is = js)"

lemma vpath_snoc: "vpath (is @ [i]) \<longleftrightarrow> length is < 3 \<and> vpath is \<and> i < 512"
  by (auto simp: vpath_def)

lemma vpath_Nil [simp]: "vpath []"
  by (simp add: vpath_def)

lemma wf_tree_frame:
  assumes "wf_tree m r U" "vpath is" "tbl m r is = Some t"
  obtains f where "f \<in> U" "t = page_of f" "f < 65536"
proof -
  from assms obtain f where "f \<in> U" "t = page_of f" "U \<subseteq> {..<65536}"
    unfolding wf_tree_def by blast
  then show thesis by (intro that) auto
qed

lemma wf_tree_mono: "wf_tree m r U \<Longrightarrow> U \<subseteq> V \<Longrightarrow> V \<subseteq> {..<65536} \<Longrightarrow> wf_tree m r V"
  unfolding wf_tree_def by blast

text \<open>A cleared root is a tree with one table.\<close>

lemma wf_tree_cleared:
  assumes "f \<in> U" "U \<subseteq> {..<65536}" "\<And>k. k < 512 \<Longrightarrow> m (slot f k) = 0"
  shows "wf_tree m (page_of f) U"
proof -
  have "tbl m (page_of f) is = None" if "vpath is" "is \<noteq> []" for "is"
  proof (cases "is")
    case (Cons i js)
    with that have "i < 512" by (simp add: vpath_def)
    with assms(3) Cons show ?thesis by (simp add: next_tbl_def slot_def)
  qed (use that in simp)
  then have "is = []" if "vpath is" "tbl m (page_of f) is = Some t" for "is" t
    using that by (cases "is = []") auto
  with assms(1,2) show ?thesis unfolding wf_tree_def by (metis option.inject tbl.simps(1))
qed

section \<open>Memories that agree on a tree\<close>

lemma tbl_agree:
  assumes "\<And>js t k. vpath js \<Longrightarrow> tbl m r js = Some t \<Longrightarrow> k < 512 \<Longrightarrow> m' (t + 8 * k) = m (t + 8 * k)"
    and "vpath is"
  shows "tbl m' r is = tbl m r is"
  using assms(2)
proof (induction "is" rule: rev_induct)
  case (snoc i "is")
  then have v: "vpath is" "i < 512" by (simp_all add: vpath_snoc)
  with snoc.IH have IH: "tbl m' r is = tbl m r is" by simp
  show ?case
  proof (cases "tbl m r is")
    case (Some t)
    with assms(1) [OF v(1) Some v(2)] IH show ?thesis by (simp add: tbl_snoc next_tbl_def)
  qed (simp add: tbl_snoc IH)
qed simp

section \<open>Entering a new table\<close>

text \<open>
  The memory after a new, cleared frame \<open>g\<close> is entered with flags \<open>fl\<close> at entry \<open>i\<close> of the
  table at frame \<open>f\<close>.
\<close>

definition enter :: "nat \<Rightarrow> u64 \<Rightarrow> nat \<Rightarrow> u64 \<Rightarrow> (u64 \<Rightarrow> u64) \<Rightarrow> u64 \<Rightarrow> u64" where
  "enter f i g fl m = (zero_words 512 (page_of g) m)(slot f i := page_of g OR fl)"

lemma enter_slot:
  assumes "f < 65536" "i < 512" "g < 65536" "h < 65536" "k < 512"
  shows "enter f i g fl m (slot h k) =
    (if h = f \<and> k = i then page_of g OR fl else if h = g then 0 else m (slot h k))"
  using assms by (simp add: enter_def slot_inj zero_page_slot)

lemma tbl_enter:
  assumes wf: "wf_tree m r U" and g: "g \<notin> U" "g < 65536"
    and pf: "vpath is" "length is < 3" "tbl m r is = Some (page_of f)" "f \<in> U"
    and i: "i < 512" "next_tbl m (page_of f) i = None"
    and fl: "bit fl 0" "fl AND FRAME = 0"
    and js: "vpath js"
  shows "tbl (enter f i g fl m) r js =
    (if js = is @ [i] then Some (page_of g) else tbl m r js)"
  using js
proof (induction js rule: rev_induct)
  case (snoc k js)
  let ?m = "enter f i g fl m"
  have v: "vpath js" "k < 512" using snoc.prems by (simp_all add: vpath_snoc)
  have U: "U \<subseteq> {..<65536}" using wf by (simp add: wf_tree_def)
  then have f: "f < 65536" using pf(4) by auto
  have ne: "f \<noteq> g" using pf(4) g(1) by auto
  show ?case
  proof (cases "js = is @ [i]")
    case True
    with snoc.IH v have "tbl ?m r js = Some (page_of g)" by simp
    moreover have "?m (page_of g + 8 * k) = 0"
      using enter_slot [OF f i(1) g(2) g(2) v(2)] ne by (simp add: slot_def)
    moreover have "tbl m r js = None" using True pf(3) i(2) by (simp add: tbl_snoc)
    ultimately have "tbl ?m r (js @ [k]) = None" "tbl m r (js @ [k]) = None"
      by (simp_all only: tbl_snoc next_tbl_def) simp_all
    then show ?thesis using True by (simp del: append_assoc)
  next
    case False
    with snoc.IH v have IH: "tbl ?m r js = tbl m r js" by simp
    show ?thesis
    proof (cases "tbl m r js")
      case None
      with IH pf(3) show ?thesis by (auto simp: tbl_snoc)
    next
      case (Some t)
      with wf v(1) obtain h where h: "h \<in> U" "t = page_of h" "h < 65536"
        by (rule wf_tree_frame)
      have "h \<noteq> g" using h g by auto
      have same: "js = is" if "h = f"
        using wf v(1) pf(1,3) Some h(2) that unfolding wf_tree_def by blast
      have m: "?m (t + 8 * k) = (if h = f \<and> k = i then page_of g OR fl else m (t + 8 * k))"
        using enter_slot [OF f i(1) g(2) h(3) v(2)] \<open>h \<noteq> g\<close> h(2) by (simp add: slot_def)
      show ?thesis
      proof (cases "h = f \<and> k = i")
        case True
        with same Some IH m fl show ?thesis
          by (simp add: tbl_snoc next_tbl_def page_simps)
      next
        case nk: False
        have "js @ [k] \<noteq> is @ [i]"
          using nk pf(3) Some h f by (auto simp: page_of_inj)
        moreover have "?m (t + 8 * k) = m (t + 8 * k)" using m nk by auto
        ultimately show ?thesis using Some IH by (auto simp: tbl_snoc next_tbl_def)
      qed
    qed
  qed
qed simp

lemma wf_enter:
  assumes wf: "wf_tree m r U" and g: "g \<notin> U" "g < 65536"
    and pf: "vpath is" "length is < 3" "tbl m r is = Some (page_of f)" "f \<in> U"
    and i: "i < 512" "next_tbl m (page_of f) i = None"
    and fl: "bit fl 0" "fl AND FRAME = 0"
  shows "wf_tree (enter f i g fl m) r (insert g U)"
proof -
  let ?m = "enter f i g fl m"
  note T = tbl_enter [OF wf g pf i fl]
  have U: "U \<subseteq> {..<65536}" using wf by (simp add: wf_tree_def)
  have frames: "\<exists>h \<in> insert g U. t = page_of h" if "vpath js" "tbl ?m r js = Some t" for js t
    using that wf T [OF that(1)] by (auto simp: wf_tree_def split: if_splits)
  have old: "t \<noteq> page_of g" if js: "vpath js" "tbl m r js = Some t" for js t
  proof -
    obtain h where "h \<in> U" "t = page_of h" "h < 65536" using wf js by (rule wf_tree_frame)
    with g show ?thesis by (auto simp: page_of_inj)
  qed
  have inj: "js = ks" if v: "vpath js" "vpath ks" and t: "tbl ?m r js = Some t" "tbl ?m r ks = Some t"
    for js ks t
  proof (cases "js = is @ [i] \<or> ks = is @ [i]")
    case True
    then show ?thesis
      using t T [OF v(1)] T [OF v(2)] old [OF v(1)] old [OF v(2)] by (auto split: if_splits)
  next
    case False
    with t T [OF v(1)] T [OF v(2)] have "tbl m r js = Some t" "tbl m r ks = Some t" by simp_all
    with wf v show ?thesis unfolding wf_tree_def by blast
  qed
  from frames inj U g(2) show ?thesis unfolding wf_tree_def by blast
qed

section \<open>What a mapping keeps of a tree\<close>

text \<open>
  Tables and leaf entries that were there stay; leaf tables that are new are empty.
\<close>

definition keeps :: "u64 \<Rightarrow> (u64 \<Rightarrow> u64) \<Rightarrow> (u64 \<Rightarrow> u64) \<Rightarrow> bool" where
  "keeps r m m' \<longleftrightarrow>
     (\<forall>js t. vpath js \<and> tbl m r js = Some t \<longrightarrow> tbl m' r js = Some t) \<and>
     (\<forall>js t k. vpath js \<and> length js = 3 \<and> tbl m r js = Some t \<and> k < 512 \<longrightarrow> m' (t + 8 * k) = m (t + 8 * k)) \<and>
     (\<forall>js t k. vpath js \<and> length js = 3 \<and> tbl m r js = None \<and> tbl m' r js = Some t \<and> k < 512 \<longrightarrow>
        m' (t + 8 * k) = 0)"

lemma keeps_refl [simp]: "keeps r m m"
  by (auto simp: keeps_def)

lemma keepsD:
  assumes "keeps r m m'" "vpath js"
  shows "tbl m r js = Some t \<Longrightarrow> tbl m' r js = Some t"
    and "length js = 3 \<Longrightarrow> tbl m r js = Some t \<Longrightarrow> k < 512 \<Longrightarrow> m' (t + 8 * k) = m (t + 8 * k)"
    and "length js = 3 \<Longrightarrow> tbl m r js = None \<Longrightarrow> tbl m' r js = Some t \<Longrightarrow> k < 512 \<Longrightarrow> m' (t + 8 * k) = 0"
  using assms unfolding keeps_def by blast+

lemma keeps_trans:
  assumes a: "keeps r m m'" and b: "keeps r m' m''"
  shows "keeps r m m''"
  unfolding keeps_def
proof (intro conjI allI impI; elim conjE)
  fix js t assume "vpath js" "tbl m r js = Some t"
  then show "tbl m'' r js = Some t" by (intro keepsD(1) [OF b] keepsD(1) [OF a])
next
  fix js t and k :: u64 assume j: "vpath js" "length js = 3" "tbl m r js = Some t" "k < 512"
  then have "m'' (t + 8 * k) = m' (t + 8 * k)"
    by (intro keepsD(2) [OF b j(1,2)] keepsD(1) [OF a])
  also have "\<dots> = m (t + 8 * k)" by (rule keepsD(2) [OF a j])
  finally show "m'' (t + 8 * k) = m (t + 8 * k)" .
next
  fix js t and k :: u64
  assume j: "vpath js" "length js = 3" "tbl m r js = None" "tbl m'' r js = Some t" "k < 512"
  show "m'' (t + 8 * k) = 0"
  proof (cases "tbl m' r js")
    case None
    from keepsD(3) [OF b j(1,2) None j(4,5)] show ?thesis .
  next
    case (Some u)
    from keepsD(1) [OF b j(1) Some] j(4) have "u = t" by simp
    with keepsD(2) [OF b j(1,2) Some j(5)] keepsD(3) [OF a j(1,2,3) Some j(5)] show ?thesis by simp
  qed
qed

lemma keeps_enter:
  assumes wf: "wf_tree m r U" and g: "g \<notin> U" "g < 65536"
    and pf: "vpath is" "length is < 3" "tbl m r is = Some (page_of f)" "f \<in> U"
    and i: "i < 512" "next_tbl m (page_of f) i = None"
    and fl: "bit fl 0" "fl AND FRAME = 0"
  shows "keeps r m (enter f i g fl m)"
proof -
  let ?m = "enter f i g fl m"
  note T = tbl_enter [OF wf g pf i fl]
  have new: "tbl m r (is @ [i]) = None" using pf(3) i(2) by (simp add: tbl_snoc)
  have f: "f < 65536" using wf pf(4) by (auto simp: wf_tree_def)
  have ne: "f \<noteq> g" using pf(4) g(1) by auto
  have 1: "tbl ?m r js = Some t" if "vpath js" "tbl m r js = Some t" for js t
    using that T [OF that(1)] new by auto
  have 2: "?m (t + 8 * k) = m (t + 8 * k)"
    if js: "vpath js" "length js = 3" "tbl m r js = Some t" and k: "k < 512" for js t k
  proof -
    obtain h where h: "h \<in> U" "t = page_of h" "h < 65536" using wf js(1,3) by (rule wf_tree_frame)
    have "h \<noteq> f"
    proof
      assume "h = f"
      with wf js(1,3) pf(1,3) h(2) have "js = is" unfolding wf_tree_def by blast
      with js(2) pf(2) show False by simp
    qed
    moreover have "h \<noteq> g" using h g by auto
    ultimately show ?thesis using enter_slot [OF f i(1) g(2) h(3) k] h(2) by (simp add: slot_def)
  qed
  have 3: "?m (t + 8 * k) = 0"
    if js: "vpath js" "tbl m r js = None" "tbl ?m r js = Some t" and k: "k < 512" for js t k
  proof -
    from js T [OF js(1)] have "t = page_of g" by (auto split: if_splits)
    then show ?thesis using enter_slot [OF f i(1) g(2) g(2) k] ne by (simp add: slot_def)
  qed
  from 1 2 3 show ?thesis unfolding keeps_def by blast
qed

section \<open>One level of a mapping function\<close>

definition used_frames :: "'a phys_scheme \<Rightarrow> nat set" where
  "used_frames s = {f. 0 < f \<and> f < 65536 \<and> f \<notin> free_frames s}"

definition vm_ok :: "'a phys_scheme \<Rightarrow> bool" where
  "vm_ok s \<longleftrightarrow> phys_inv s \<and> kernbase s = KERNBASE"

lemma memset_page:
  assumes "f < 65536" "kernbase s = KERNBASE"
  shows "memset (page_of f + KERNBASE) s = s\<lparr>pmem := zero_words 512 (page_of f) (pmem s)\<rparr>"
  using assms by (simp add: memset_def k2p_page)

lemma free_frames_pmem [simp]: "free_frames (s\<lparr>pmem := m\<rparr>) = free_frames s"
  by (simp add: free_frames_def)

lemma phys_inv_pmem [simp]: "phys_inv (s\<lparr>pmem := m\<rparr>) = phys_inv s"
  by (simp add: phys_inv_def)

lemma table_step_found:
  assumes "vm_ok s" "f < 65536" "i < 512" "next_tbl (pmem s) (page_of f) i = Some t"
  shows "table_step KERNBASE fl (page_of f + KERNBASE) i s = (t, s)"
  using assms by (auto simp: table_step_def vm_ok_def rd_def k2p_slot next_tbl_def slot_def Let_def split: if_splits)

lemma table_step_new:
  assumes ok: "vm_ok s" and f: "f < 65536" "i < 512" and new: "next_tbl (pmem s) (page_of f) i = None"
    and ne: "free_frames s \<noteq> {}"
  defines "g \<equiv> Min (free_frames s)"
  shows "\<exists>s'. table_step KERNBASE fl (page_of f + KERNBASE) i s = (page_of g, s') \<and>
    pmem s' = enter f i g fl (pmem s) \<and> free_frames s' = free_frames s - {g} \<and> vm_ok s' \<and>
    g < 65536 \<and> g \<notin> used_frames s"
proof -
  have kb: "kernbase s = KERNBASE" and inv: "phys_inv s" using ok by (simp_all add: vm_ok_def)
  have g: "g \<in> free_frames s" using ne by (simp add: g_def)
  then have g2: "0 < g" "g < 65536" "g \<notin> used_frames s"
    using free_frames_bound [OF inv] by (auto simp: used_frames_def)
  note A = pageAllocator_step [OF inv ne, folded g_def]
  have e: "rd s (page_of f + KERNBASE + 8 * i) AND PRESENT = 0"
    using new f kb by (simp add: rd_def k2p_slot next_tbl_def slot_def Let_def split: if_splits)
  have "table_step KERNBASE fl (page_of f + KERNBASE) i s =
    (page_of g, wr (page_of f + KERNBASE + 8 * i) (page_of g OR fl)
       (memset (page_of g + KERNBASE) (markasUsed (of_nat g) s)))"
    by (simp add: table_step_def e A(1) Let_def)
  moreover have "wr (page_of f + KERNBASE + 8 * i) (page_of g OR fl)
       (memset (page_of g + KERNBASE) (markasUsed (of_nat g) s)) =
     (markasUsed (of_nat g) s)\<lparr>pmem := enter f i g fl (pmem s)\<rparr>"
    using f g2 kb by (simp add: memset_page frame_simps wr_def k2p_slot enter_def)
  ultimately show ?thesis
    using A g2 kb
    by (intro exI [of _ "(markasUsed (of_nat g) s)\<lparr>pmem := enter f i g fl (pmem s)\<rparr>"])
      (simp add: vm_ok_def frame_simps)
qed

section \<open>Another address space\<close>

text \<open>
  The tables \<open>r\<close> reaches through its entry \<open>i\<close>, and \<open>r\<close> itself, are no tables of \<open>r'\<close>. Two
  processes share the kernel's tables under entry 511, so this is asked of one entry only.
\<close>

definition apart :: "(u64 \<Rightarrow> u64) \<Rightarrow> u64 \<Rightarrow> u64 \<Rightarrow> u64 \<Rightarrow> bool" where
  "apart m r r' i \<longleftrightarrow>
     (\<forall>is js t. vpath is \<and> vpath js \<and> (is = [] \<or> hd is = i) \<and> tbl m r is = Some t \<longrightarrow>
        tbl m r' js \<noteq> Some t)"

text \<open>No entry of a table of \<open>r\<close> differs.\<close>

definition same_tree :: "u64 \<Rightarrow> (u64 \<Rightarrow> u64) \<Rightarrow> (u64 \<Rightarrow> u64) \<Rightarrow> bool" where
  "same_tree r m m' \<longleftrightarrow>
     (\<forall>js t k. vpath js \<and> tbl m r js = Some t \<and> k < 512 \<longrightarrow> m' (t + 8 * k) = m (t + 8 * k))"

lemma same_tree_tbl: "same_tree r m m' \<Longrightarrow> vpath is \<Longrightarrow> tbl m' r is = tbl m r is"
  by (rule tbl_agree) (auto simp: same_tree_def)

lemma same_tree_refl [simp]: "same_tree r m m"
  by (simp add: same_tree_def)

lemma same_tree_trans:
  assumes a: "same_tree r m m'" and b: "same_tree r m' m''"
  shows "same_tree r m m''"
  unfolding same_tree_def
proof (intro allI impI; elim conjE)
  fix js t and k :: u64
  assume j: "vpath js" "tbl m r js = Some t" "k < 512"
  from same_tree_tbl [OF a j(1)] j(2) have "tbl m' r js = Some t" by simp
  with a b j have "m'' (t + 8 * k) = m' (t + 8 * k)" "m' (t + 8 * k) = m (t + 8 * k)"
    unfolding same_tree_def by blast+
  then show "m'' (t + 8 * k) = m (t + 8 * k)" by simp
qed

lemma same_tree_wf:
  assumes "same_tree r m m'" and "wf_tree m r U"
  shows "wf_tree m' r U"
proof -
  have "tbl m' r is = tbl m r is" if "vpath is" for "is"
    using assms(1) that by (rule same_tree_tbl)
  with assms(2) show ?thesis unfolding wf_tree_def by auto
qed

lemma same_tree_slot:
  assumes wf: "wf_tree m r' U" and f: "f < 65536" "i < 512"
    and no: "\<And>js. vpath js \<Longrightarrow> tbl m r' js \<noteq> Some (page_of f)"
  shows "same_tree r' m (m(slot f i := v))"
  unfolding same_tree_def
proof (intro allI impI; elim conjE)
  fix js t and k :: u64
  assume j: "vpath js" "tbl m r' js = Some t" "k < 512"
  obtain h where h: "h \<in> U" "t = page_of h" "h < 65536" using wf j(1,2) by (rule wf_tree_frame)
  with no [OF j(1)] j(2) have "h \<noteq> f" by auto
  with slot_inj [OF h(3) j(3) f] h(2) show "(m(slot f i := v)) (t + 8 * k) = m (t + 8 * k)"
    by (simp add: slot_def)
qed

lemma enter_other:
  assumes wf: "wf_tree m r U" and g: "g \<notin> U" "g < 65536"
    and pf: "vpath is" "length is < 3" "tbl m r is = Some (page_of f)" "f \<in> U"
    and i: "i < 512" "next_tbl m (page_of f) i = None"
    and fl: "bit fl 0" "fl AND FRAME = 0"
    and wf': "wf_tree m r' U" and ap: "apart m r r' (hd (is @ [i]))"
  shows "same_tree r' m (enter f i g fl m) \<and> apart (enter f i g fl m) r r' (hd (is @ [i]))"
proof -
  let ?m = "enter f i g fl m"
  have f: "f < 65536" using wf pf(4) by (auto simp: wf_tree_def)
  have not_f: "t \<noteq> page_of f" if "vpath js" "tbl m r' js = Some t" for js t
  proof
    assume e: "t = page_of f"
    have "is = [] \<or> hd is = hd (is @ [i])" by (cases "is") simp_all
    with ap pf(1,3) that(1) have "tbl m r' js \<noteq> Some (page_of f)" unfolding apart_def by blast
    with that(2) e show False by simp
  qed
  have not_g: "t \<noteq> page_of g" if js: "vpath js" "tbl m r' js = Some t" for js t
  proof -
    obtain h where "h \<in> U" "t = page_of h" "h < 65536" using wf' js by (rule wf_tree_frame)
    with g show ?thesis by (auto simp: page_of_inj)
  qed
  have st: "same_tree r' m ?m"
    unfolding same_tree_def
  proof (intro allI impI; elim conjE)
    fix js t and k :: u64
    assume j: "vpath js" "tbl m r' js = Some t" "k < 512"
    obtain h where h: "h \<in> U" "t = page_of h" "h < 65536" using wf' j(1,2) by (rule wf_tree_frame)
    from not_f [OF j(1,2)] not_g [OF j(1,2)] h(2) have "h \<noteq> f" "h \<noteq> g" by auto
    then show "?m (t + 8 * k) = m (t + 8 * k)"
      using enter_slot [OF f i(1) g(2) h(3) j(3)] h(2) by (simp add: slot_def)
  qed
  have "apart ?m r r' (hd (is @ [i]))"
    unfolding apart_def
  proof (intro allI impI; elim conjE)
    fix ks js t
    assume a: "vpath ks" "vpath js" "ks = [] \<or> hd ks = hd (is @ [i])" "tbl ?m r ks = Some t"
    show "tbl ?m r' js \<noteq> Some t"
    proof (cases "ks = is @ [i]")
      case True
      with a tbl_enter [OF wf g pf i fl a(1)] have "t = page_of g" by simp
      with not_g [OF a(2)] same_tree_tbl [OF st a(2)] show ?thesis by auto
    next
      case False
      with a tbl_enter [OF wf g pf i fl a(1)] have "tbl m r ks = Some t" by simp
      with ap a same_tree_tbl [OF st a(2)] show ?thesis unfolding apart_def by simp
    qed
  qed
  with st show ?thesis by simp
qed

text \<open>
  Everything the mapping functions need to know about one level, whether the table was there
  or not.
\<close>

definition others_kept :: "u64 \<Rightarrow> u64 \<Rightarrow> 'a phys_scheme \<Rightarrow> 'a phys_scheme \<Rightarrow> bool" where
  "others_kept r i s s' \<longleftrightarrow>
     (\<forall>r'. wf_tree (pmem s) r' (used_frames s) \<and> apart (pmem s) r r' i \<longrightarrow>
        same_tree r' (pmem s) (pmem s') \<and> wf_tree (pmem s') r' (used_frames s') \<and> apart (pmem s') r r' i)"

lemma others_kept_trans: "others_kept r i s s' \<Longrightarrow> others_kept r i s' s'' \<Longrightarrow> others_kept r i s s''"
  unfolding others_kept_def using same_tree_trans by blast

lemma used_frames_bound: "used_frames s \<subseteq> {..<65536}"
  by (auto simp: used_frames_def)

text \<open>Frames in use that are no tables of \<open>r\<close> (data pages) stay so and keep their words.\<close>

definition no_table :: "(u64 \<Rightarrow> u64) \<Rightarrow> u64 \<Rightarrow> nat \<Rightarrow> bool" where
  "no_table m r h \<longleftrightarrow> (\<forall>js. vpath js \<longrightarrow> tbl m r js \<noteq> Some (page_of h))"

definition data_kept :: "u64 \<Rightarrow> 'a phys_scheme \<Rightarrow> 'a phys_scheme \<Rightarrow> bool" where
  "data_kept r s s' \<longleftrightarrow> used_frames s \<subseteq> used_frames s' \<and>
     (\<forall>h \<in> used_frames s. no_table (pmem s) r h \<longrightarrow> no_table (pmem s') r h \<and>
        (\<forall>k < 512. pmem s' (slot h k) = pmem s (slot h k)))"

lemma data_kept_refl [simp]: "data_kept r s s"
  by (simp add: data_kept_def)

lemma data_kept_trans:
  assumes a: "data_kept r s s'" and b: "data_kept r s' s''"
  shows "data_kept r s s''"
  unfolding data_kept_def
proof (intro conjI ballI impI allI)
  show "used_frames s \<subseteq> used_frames s''" using a b unfolding data_kept_def by blast
  fix h assume h: "h \<in> used_frames s" "no_table (pmem s) r h"
  with a have 1: "h \<in> used_frames s'" "no_table (pmem s') r h" "\<forall>k < 512. pmem s' (slot h k) = pmem s (slot h k)"
    unfolding data_kept_def by blast+
  with b have 2: "no_table (pmem s'') r h" "\<forall>k < 512. pmem s'' (slot h k) = pmem s' (slot h k)"
    unfolding data_kept_def by blast+
  then show "no_table (pmem s'') r h" by blast
  fix k :: u64 assume "k < 512"
  with 1 2 show "pmem s'' (slot h k) = pmem s (slot h k)" by simp
qed

lemma enter_data:
  assumes wf: "wf_tree m r U" and g: "g \<notin> U" "g < 65536"
    and pf: "vpath is" "length is < 3" "tbl m r is = Some (page_of f)" "f \<in> U"
    and i: "i < 512" "next_tbl m (page_of f) i = None"
    and fl: "bit fl 0" "fl AND FRAME = 0"
    and h: "h \<in> U" "no_table m r h"
  shows "no_table (enter f i g fl m) r h \<and> (\<forall>k < 512. enter f i g fl m (slot h k) = m (slot h k))"
proof -
  have U: "U \<subseteq> {..<65536}" using wf by (simp add: wf_tree_def)
  then have b: "h < 65536" "f < 65536" using h pf(4) by auto
  have "h \<noteq> g" "h \<noteq> f" using h g pf(1,3) by (auto simp: no_table_def)
  then have 1: "enter f i g fl m (slot h k) = m (slot h k)" if "k < 512" for k
    using enter_slot [OF b(2) i(1) g(2) b(1) that] by simp
  have "tbl (enter f i g fl m) r js \<noteq> Some (page_of h)" if js: "vpath js" for js
  proof (cases "js = is @ [i]")
    case True
    with tbl_enter [OF wf g pf i fl js] \<open>h \<noteq> g\<close> b(1) g(2) show ?thesis by (auto simp: page_of_inj)
  next
    case False
    with tbl_enter [OF wf g pf i fl js] h(2) js show ?thesis by (auto simp: no_table_def)
  qed
  with 1 show ?thesis by (simp add: no_table_def)
qed

lemma table_step_ok:
  assumes ok: "vm_ok s" and wf: "wf_tree (pmem s) r (used_frames s)"
    and pf: "vpath is" "length is < 3" "tbl (pmem s) r is = Some t" and i: "i < 512"
    and ne: "free_frames s \<noteq> {}" and fl: "bit fl 0" "fl AND FRAME = 0"
  shows "\<exists>t' s'. table_step KERNBASE fl (t + KERNBASE) i s = (t', s') \<and> vm_ok s' \<and>
    wf_tree (pmem s') r (used_frames s') \<and> tbl (pmem s') r (is @ [i]) = Some t' \<and>
    keeps r (pmem s) (pmem s') \<and> card (free_frames s) \<le> Suc (card (free_frames s')) \<and>
    others_kept r (hd (is @ [i])) s s' \<and> data_kept r s s'"
proof -
  obtain f where f: "f \<in> used_frames s" "t = page_of f" "f < 65536"
    using wf pf(1,3) by (rule wf_tree_frame)
  show ?thesis
  proof (cases "next_tbl (pmem s) t i")
    case (Some t')
    with table_step_found [OF ok f(3) i, of t' fl] f(2)
    have "table_step KERNBASE fl (t + KERNBASE) i s = (t', s)" by simp
    with Some ok wf pf(3) show ?thesis
      by (intro exI [of _ t'] exI [of _ s]) (simp add: tbl_snoc others_kept_def)
  next
    case None
    define g where "g = Min (free_frames s)"
    have gin: "g \<in> free_frames s" using ne by (simp add: g_def)
    from table_step_new [OF ok f(3) i, folded g_def] None f(2) ne obtain s' where
      s': "table_step KERNBASE fl (t + KERNBASE) i s = (page_of g, s')"
        "pmem s' = enter f i g fl (pmem s)" "free_frames s' = free_frames s - {g}" "vm_ok s'"
        "g < 65536" "g \<notin> used_frames s" by blast
    have g0: "0 < g" using ok gin free_frames_bound by (auto simp: vm_ok_def)
    have U: "used_frames s' = insert g (used_frames s)"
      using s'(3,5) gin g0 by (auto simp: used_frames_def)
    have pf': "tbl (pmem s) r is = Some (page_of f)" and nx: "next_tbl (pmem s) (page_of f) i = None"
      using pf(3) None f(2) by simp_all
    note hyps = wf s'(6,5) pf(1,2) pf' f(1) i nx fl
    have oth: "others_kept r (hd (is @ [i])) s s'"
      unfolding others_kept_def
    proof (intro allI impI; elim conjE)
      fix r' assume wf': "wf_tree (pmem s) r' (used_frames s)" and ap: "apart (pmem s) r r' (hd (is @ [i]))"
      from enter_other [OF hyps wf' ap] have
        e: "same_tree r' (pmem s) (pmem s')" "apart (pmem s') r r' (hd (is @ [i]))"
        by (simp_all add: s'(2))
      have "wf_tree (pmem s') r' (used_frames s)" by (rule same_tree_wf [OF e(1) wf'])
      then have "wf_tree (pmem s') r' (used_frames s')"
        by (rule wf_tree_mono) (use U used_frames_bound [of s'] in auto)
      with e show "same_tree r' (pmem s) (pmem s') \<and> wf_tree (pmem s') r' (used_frames s') \<and>
        apart (pmem s') r r' (hd (is @ [i]))" by simp
    qed
    have dat: "data_kept r s s'"
      unfolding data_kept_def s'(2) U using enter_data [OF hyps] by blast
    have c: "card (free_frames s) \<le> Suc (card (free_frames s'))"
      using s'(3) gin by (simp add: card_Suc_Diff1)
    have "vpath (is @ [i])" using pf(1,2) i by (simp add: vpath_snoc)
    with tbl_enter [OF hyps this] wf_enter [OF hyps] keeps_enter [OF hyps] s' U oth dat c show ?thesis
      by (intro exI [of _ "page_of g"] exI [of _ s']) (simp add: s'(2) U)
  qed
qed

end
