(* ===== verification/PageMap.thy ===== *)
theory PageMap
  imports PageTree
begin

text \<open>
  What the mapping functions of \<open>sys/virtualMemory.c\<close> and the walks of \<open>sys/task.c\<close> do to a
  tree of page tables: a page that is mapped is found by the walk, no other page changes, and
  no other address space changes.
\<close>

section \<open>The indices of an address\<close>

definition idx3 :: "u64 \<Rightarrow> u64 list" where
  "idx3 v = [get_PML4_INDEX v, get_PDPT_INDEX v, get_PDT_INDEX v]"

text \<open>Two addresses are in one page when bits 12 to 47 agree, the bits the walk reads.\<close>

definition same_page :: "u64 \<Rightarrow> u64 \<Rightarrow> bool" where
  "same_page v w \<longleftrightarrow> take_bit 36 (drop_bit 12 v) = take_bit 36 (drop_bit 12 w)"

lemma index_mask: "x AND 0x1FF = take_bit 9 (x :: u64)"
  by (simp add: take_bit_eq_mask mask_eq_exp_minus_1)

lemmas index_defs = get_PML4_INDEX_def get_PDPT_INDEX_def get_PDT_INDEX_def get_PT_INDEX_def

lemma index_bound [page_simps]:
  "get_PML4_INDEX v < 512" "get_PDPT_INDEX v < 512" "get_PDT_INDEX v < 512" "get_PT_INDEX v < 512"
proof -
  have "take_bit 9 x < 512" for x :: u64
    by (simp add: word_less_nat_alt unsigned_take_bit_eq) (simp add: take_bit_eq_mod)
  then show "get_PML4_INDEX v < 512" "get_PDPT_INDEX v < 512" "get_PDT_INDEX v < 512" "get_PT_INDEX v < 512"
    by (simp_all only: index_defs index_mask)
qed

lemma vpath_idx3 [simp]: "vpath (idx3 v)" "length (idx3 v) = 3"
  by (simp_all add: idx3_def vpath_def page_simps)

lemma index_bits:
  assumes "take_bit 9 (drop_bit n v) = take_bit 9 (drop_bit n (w :: u64))" and "n \<le> j" and "j < n + 9"
  shows "bit v j = bit w j"
proof -
  have "bit (take_bit 9 (drop_bit n v)) (j - n) = bit (take_bit 9 (drop_bit n w)) (j - n)"
    by (simp only: assms(1))
  with assms(2,3) show ?thesis by (auto simp: bit_simps less_diff_conv2)
qed

lemma same_page_index:
  "same_page v w \<longleftrightarrow> idx3 v = idx3 w \<and> get_PT_INDEX v = get_PT_INDEX w"
proof
  assume s: "same_page v w"
  have b: "bit v j = bit w j" if "12 \<le> j" "j < 48" for j
  proof -
    from s have "bit (take_bit 36 (drop_bit 12 v)) (j - 12) = bit (take_bit 36 (drop_bit 12 w)) (j - 12)"
      by (simp only: same_page_def)
    with that show ?thesis by (auto simp: bit_simps less_diff_conv2)
  qed
  have t: "take_bit 9 (drop_bit n v) = take_bit 9 (drop_bit n w)" if "12 \<le> n" "n \<le> 39" for n
    by (rule bit_word_eqI) (use b that in \<open>auto simp: bit_simps\<close>)
  show "idx3 v = idx3 w \<and> get_PT_INDEX v = get_PT_INDEX w"
    by (simp add: idx3_def index_defs index_mask t)
next
  assume a: "idx3 v = idx3 w \<and> get_PT_INDEX v = get_PT_INDEX w"
  then have i: "take_bit 9 (drop_bit 39 v) = take_bit 9 (drop_bit 39 w)"
    "take_bit 9 (drop_bit 30 v) = take_bit 9 (drop_bit 30 w)"
    "take_bit 9 (drop_bit 21 v) = take_bit 9 (drop_bit 21 w)"
    "take_bit 9 (drop_bit 12 v) = take_bit 9 (drop_bit 12 w)"
    by (simp_all add: idx3_def index_defs index_mask)
  have b: "bit v j = bit w j" if "12 \<le> j" "j < 48" for j
  proof -
    from that consider "12 \<le> j \<and> j < 12 + 9" | "21 \<le> j \<and> j < 21 + 9" | "30 \<le> j \<and> j < 30 + 9"
      | "39 \<le> j \<and> j < 39 + 9" by linarith
    then show ?thesis
    proof cases
      case 1
      with index_bits [OF i(4), of j] show ?thesis by simp
    next
      case 2
      with index_bits [OF i(3), of j] show ?thesis by simp
    next
      case 3
      with index_bits [OF i(2), of j] show ?thesis by simp
    next
      case 4
      with index_bits [OF i(1), of j] show ?thesis by simp
    qed
  qed
  show "same_page v w"
    unfolding same_page_def by (rule bit_word_eqI) (use b in \<open>auto simp: bit_simps\<close>)
qed

section \<open>The leaf entry of a page\<close>

text \<open>What the walk reads: the page's entry, or -1 when a table on the way is missing.\<close>

definition leaf_entry :: "(u64 \<Rightarrow> u64) \<Rightarrow> u64 \<Rightarrow> u64 \<Rightarrow> u64" where
  "leaf_entry m r v = (case tbl m r (idx3 v) of None \<Rightarrow> - 1 | Some t \<Rightarrow> m (t + 8 * get_PT_INDEX v))"

lemma rd_table:
  assumes "vm_ok s" "wf_tree (pmem s) r (used_frames s)" "vpath js" "tbl (pmem s) r js = Some t" "k < 512"
  shows "rd s (t + KERNBASE + 8 * k) = pmem s (t + 8 * k)"
proof -
  obtain f where "t = page_of f" "f < 65536" using assms(2,3,4) by (rule wf_tree_frame)
  with assms(1,5) show ?thesis by (simp add: rd_def vm_ok_def k2p_slot) (simp add: slot_def)
qed

lemma tbl_prefix:
  "tbl m r [i] = next_tbl m r i"
  "tbl m r [i, j] = (case tbl m r [i] of None \<Rightarrow> None | Some t \<Rightarrow> next_tbl m t j)"
  "tbl m r [i, j, k] = (case tbl m r [i, j] of None \<Rightarrow> None | Some t \<Rightarrow> next_tbl m t k)"
  by (auto split: option.splits)

text \<open>The cases of a walk: where it stops, and what it has read on the way.\<close>

lemma walk_steps:
  fixes v :: u64
  assumes ok: "vm_ok s" and wf: "wf_tree (pmem s) r (used_frames s)"
  defines "e1 \<equiv> rd s (r + KERNBASE + 8 * get_PML4_INDEX v)"
  defines "e2 \<equiv> rd s ((e1 AND FRAME) + KERNBASE + 8 * get_PDPT_INDEX v)"
  defines "e3 \<equiv> rd s ((e2 AND FRAME) + KERNBASE + 8 * get_PDT_INDEX v)"
  obtains (none1) "tbl (pmem s) r (idx3 v) = None" "e1 AND PRESENT = 0"
  | (none2) "tbl (pmem s) r (idx3 v) = None" "e1 AND PRESENT \<noteq> 0" "e2 AND PRESENT = 0"
  | (none3) "tbl (pmem s) r (idx3 v) = None" "e1 AND PRESENT \<noteq> 0" "e2 AND PRESENT \<noteq> 0" "e3 AND PRESENT = 0"
  | (some) "tbl (pmem s) r (idx3 v) = Some (e3 AND FRAME)"
      "e1 AND PRESENT \<noteq> 0" "e2 AND PRESENT \<noteq> 0" "e3 AND PRESENT \<noteq> 0"
proof -
  let ?m = "pmem s" and ?i = "get_PML4_INDEX v" and ?j = "get_PDPT_INDEX v" and ?k = "get_PDT_INDEX v"
  note R = rd_table [OF ok wf]
  have p: "vpath [?i]" "vpath [?i, ?j]" by (simp_all add: vpath_def page_simps)
  have r1: "e1 = ?m (r + 8 * ?i)"
    unfolding e1_def by (rule R [of "[]"]) (simp_all add: page_simps)
  then have t1: "tbl ?m r [?i] = (if e1 AND PRESENT \<noteq> 0 then Some (e1 AND FRAME) else None)"
    by (simp add: next_tbl_def Let_def)
  have r2: "tbl ?m r [?i, ?j] = (if e2 AND PRESENT \<noteq> 0 then Some (e2 AND FRAME) else None)"
    if e: "e1 AND PRESENT \<noteq> 0"
  proof -
    have "e2 = ?m ((e1 AND FRAME) + 8 * ?j)"
      unfolding e2_def by (rule R [OF p(1)]) (use t1 e in \<open>simp_all add: page_simps del: tbl.simps\<close>)
    with t1 e show ?thesis by (simp add: tbl_prefix(2) next_tbl_def Let_def del: tbl.simps)
  qed
  have r3: "tbl ?m r (idx3 v) = (if e3 AND PRESENT \<noteq> 0 then Some (e3 AND FRAME) else None)"
    if e: "e1 AND PRESENT \<noteq> 0" "e2 AND PRESENT \<noteq> 0"
  proof -
    have "e3 = ?m ((e2 AND FRAME) + 8 * ?k)"
      unfolding e3_def by (rule R [OF p(2)]) (use r2 e in \<open>simp_all add: page_simps del: tbl.simps\<close>)
    with r2 e show ?thesis by (simp add: idx3_def tbl_prefix(3) next_tbl_def Let_def del: tbl.simps)
  qed
  have n: "tbl ?m r (idx3 v) = None" if "e1 AND PRESENT = 0 \<or> e2 AND PRESENT = 0"
    using that t1 r2 by (cases "e1 AND PRESENT = 0") (auto simp: idx3_def tbl_prefix(2,3) simp del: tbl.simps)
  show thesis
    using none1 none2 none3 some r3 n
    by (cases "e1 AND PRESENT = 0"; cases "e2 AND PRESENT = 0"; cases "e3 AND PRESENT = 0") auto
qed

lemma walk_leaf_entry:
  assumes ok: "vm_ok s" and wf: "wf_tree (pmem s) r (used_frames s)"
  shows "getPhysicalPageAddr v r s = leaf_entry (pmem s) r v"
proof -
  have kb: "kernbase s = KERNBASE" using ok by (simp add: vm_ok_def)
  show ?thesis
  proof (cases rule: walk_steps [OF ok wf, where v = v])
    case 4
    from rd_table [OF ok wf vpath_idx3(1) 4(1) index_bound(4)] 4 show ?thesis
      by (simp add: getPhysicalPageAddr_def leaf_entry_def Let_def kb)
  qed (simp_all add: getPhysicalPageAddr_def leaf_entry_def Let_def kb)
qed

text \<open>\<open>markPageAsRW\<close> gets a pointer to the root table, the walk its physical address.\<close>

lemma mark_leaf:
  fixes v :: u64 and rw :: i32
  assumes ok: "vm_ok s" and wf: "wf_tree (pmem s) r (used_frames s)"
  defines "x \<equiv> (if rw \<noteq> 0 then leaf_entry (pmem s) r v AND MAKERDONLY else leaf_entry (pmem s) r v OR WRITEABLE)"
  shows "markPageAsRW v (r + KERNBASE) rw s =
    (case tbl (pmem s) r (idx3 v) of None \<Rightarrow> (- 1, s)
     | Some t \<Rightarrow> (0, wr (t + KERNBASE + 8 * get_PT_INDEX v) x s))"
proof -
  have kb: "kernbase s = KERNBASE" using ok by (simp add: vm_ok_def)
  show ?thesis
  proof (cases rule: walk_steps [OF ok wf, where v = v])
    case 4
    from rd_table [OF ok wf vpath_idx3(1) 4(1) index_bound(4)] 4 show ?thesis
      by (simp add: markPageAsRW_def leaf_entry_def Let_def kb x_def)
  qed (simp_all add: markPageAsRW_def Let_def kb)
qed

section \<open>Writing a leaf entry\<close>

lemma leaf_table_frame:
  assumes "wf_tree m r U" "vpath is" "length is = 3" "tbl m r is = Some (page_of f)" "f < 65536"
    and "vpath js" "length js \<noteq> 3" "tbl m r js = Some t" "k < 512" "j < 512"
  shows "t + 8 * k \<noteq> slot f j"
proof
  assume e: "t + 8 * k = slot f j"
  obtain h where h: "t = page_of h" "h < 65536" using assms(1,6,8) by (rule wf_tree_frame)
  with e slot_inj [OF h(2) assms(9,5,10)] have "h = f" by (simp add: slot_def)
  with assms h have "js = is" unfolding wf_tree_def by blast
  with assms show False by simp
qed

lemma tbl_leaf_write:
  assumes wf: "wf_tree m r U" and t: "vpath is" "length is = 3" "tbl m r is = Some (page_of f)" "f < 65536"
    and j: "j < 512" and js: "vpath js"
  shows "tbl (m(slot f j := x)) r js = tbl m r js"
  using js
proof (induction js rule: rev_induct)
  case (snoc k js)
  then have v: "vpath js" "length js \<noteq> 3" "k < 512" by (simp_all add: vpath_snoc)
  show ?case
  proof (cases "tbl m r js")
    case (Some u)
    from leaf_table_frame [OF wf t v(1,2) Some v(3) j] have "(m(slot f j := x)) (u + 8 * k) = m (u + 8 * k)"
      by simp
    with Some snoc.IH v(1) show ?thesis by (simp add: tbl_snoc next_tbl_def)
  qed (use snoc.IH v in \<open>simp add: tbl_snoc\<close>)
qed simp

lemma wf_leaf_write:
  assumes wf: "wf_tree m r U" and t: "vpath is" "length is = 3" "tbl m r is = Some (page_of f)" "f < 65536"
    and j: "j < 512"
  shows "wf_tree (m(slot f j := x)) r U"
proof -
  have "tbl (m(slot f j := x)) r js = tbl m r js" if "vpath js" for js
    by (rule tbl_leaf_write [OF wf t j that])
  with wf show ?thesis unfolding wf_tree_def by auto
qed

lemma leaf_entry_write:
  assumes wf: "wf_tree m r U" and t: "tbl m r (idx3 v) = Some (page_of f)" "f < 65536"
  shows "leaf_entry (m(slot f (get_PT_INDEX v) := x)) r w =
    (if same_page w v then x else leaf_entry m r w)"
proof -
  let ?m = "m(slot f (get_PT_INDEX v) := x)"
  have T: "tbl ?m r (idx3 w) = tbl m r (idx3 w)"
    by (rule tbl_leaf_write [OF wf _ _ t]) (simp_all add: page_simps)
  show ?thesis
  proof (cases "tbl m r (idx3 w)")
    case None
    with t same_page_index [of w v] have "\<not> same_page w v" by auto
    with None T show ?thesis by (simp add: leaf_entry_def)
  next
    case (Some u)
    obtain h where h: "h \<in> U" "u = page_of h" "h < 65536" using wf vpath_idx3(1) Some by (rule wf_tree_frame)
    have "h = f \<longleftrightarrow> idx3 w = idx3 v"
    proof
      assume "h = f"
      with wf Some t h(2) show "idx3 w = idx3 v" unfolding wf_tree_def using vpath_idx3(1) by blast
    qed (use Some t h in \<open>auto simp: page_of_inj\<close>)
    moreover have "u + 8 * get_PT_INDEX w = slot h (get_PT_INDEX w)" using h by (simp add: slot_def)
    ultimately show ?thesis
      using T Some slot_inj [OF h(3) index_bound(4) t(2) index_bound(4), of w v]
      by (simp add: leaf_entry_def same_page_index)
  qed
qed

lemma keeps_leaf_entry:
  assumes "keeps r m m'"
  shows "leaf_entry m' r w = leaf_entry m r w \<or> leaf_entry m r w = - 1 \<and> leaf_entry m' r w = 0"
proof (cases "tbl m r (idx3 w)")
  case None
  with keepsD(3) [OF assms vpath_idx3(1,2) None _ index_bound(4)]
  show ?thesis by (cases "tbl m' r (idx3 w)") (auto simp: leaf_entry_def)
next
  case (Some t)
  with keepsD(1) [OF assms vpath_idx3(1) Some] keepsD(2) [OF assms vpath_idx3(1,2) Some index_bound(4)]
  show ?thesis by (simp add: leaf_entry_def)
qed

lemma same_tree_leaf_entry:
  assumes "same_tree r m m'"
  shows "leaf_entry m' r w = leaf_entry m r w"
proof (cases "tbl m r (idx3 w)")
  case None
  with same_tree_tbl [OF assms vpath_idx3(1)] show ?thesis by (simp add: leaf_entry_def)
next
  case (Some t)
  with assms have "m' (t + 8 * get_PT_INDEX w) = m (t + 8 * get_PT_INDEX w)"
    unfolding same_tree_def using vpath_idx3(1) index_bound(4) by blast
  with Some same_tree_tbl [OF assms vpath_idx3(1)] show ?thesis by (simp add: leaf_entry_def)
qed

section \<open>Mapping a page\<close>

definition leaf_flags :: "i32 \<Rightarrow> u64" where
  "leaf_flags user = (if user \<noteq> 0 then PRESENT OR WRITEABLE OR USER else PRESENT OR WRITEABLE)"

lemma leaf_flags_ok [page_simps]: "bit (leaf_flags user) 0" "leaf_flags user AND FRAME = 0"
  by (simp_all add: leaf_flags_def PRESENT_def WRITEABLE_def USER_def FRAME_def)

lemma wr_slot:
  assumes "vm_ok s" "f < 65536" "j < 512"
  shows "wr (page_of f + KERNBASE + 8 * j) x s = s\<lparr>pmem := (pmem s)(slot f j := x)\<rparr>"
  using assms by (simp add: wr_def vm_ok_def k2p_slot)

lemma used_frames_pmem [simp]: "used_frames (s\<lparr>pmem := m\<rparr>) = used_frames s"
  by (simp add: used_frames_def)

lemma vm_ok_pmem [simp]: "vm_ok (s\<lparr>pmem := m\<rparr>) = vm_ok s"
  by (simp add: vm_ok_def)

lemma leaf_write_ok:
  fixes x :: u64
  assumes ok: "vm_ok s" and wf: "wf_tree (pmem s) r (used_frames s)"
    and t: "tbl (pmem s) r (idx3 v) = Some t"
  defines "s' \<equiv> wr (t + KERNBASE + 8 * get_PT_INDEX v) x s"
  shows "vm_ok s' \<and> wf_tree (pmem s') r (used_frames s') \<and> free_frames s' = free_frames s \<and>
    leaf_entry (pmem s') r w = (if same_page w v then x else leaf_entry (pmem s) r w) \<and>
    others_kept r (get_PML4_INDEX v) s s' \<and> data_kept r s s'"
proof -
  obtain f where f: "t = page_of f" "f < 65536" using wf vpath_idx3(1) t by (rule wf_tree_frame)
  with t have t': "tbl (pmem s) r (idx3 v) = Some (page_of f)" by simp
  let ?m = "(pmem s)(slot f (get_PT_INDEX v) := x)"
  have s': "s' = s\<lparr>pmem := ?m\<rparr>"
    unfolding s'_def f(1) by (rule wr_slot [OF ok f(2) index_bound(4)])
  have wf': "wf_tree ?m r (used_frames s)"
    by (rule wf_leaf_write [OF wf vpath_idx3 t' f(2) index_bound(4)])
  have T: "tbl ?m r js = tbl (pmem s) r js" if "vpath js" for js
    by (rule tbl_leaf_write [OF wf vpath_idx3 t' f(2) index_bound(4) that])
  have "others_kept r (get_PML4_INDEX v) s s'"
    unfolding others_kept_def
  proof (intro allI impI; elim conjE)
    fix r' assume w: "wf_tree (pmem s) r' (used_frames s)" and ap: "apart (pmem s) r r' (get_PML4_INDEX v)"
    have h: "hd (idx3 v) = get_PML4_INDEX v" by (simp add: idx3_def)
    have no: "tbl (pmem s) r' js \<noteq> Some (page_of f)" if "vpath js" for js
      using ap t' h that vpath_idx3(1) unfolding apart_def by blast
    have st: "same_tree r' (pmem s) ?m"
      by (rule same_tree_slot [OF w f(2) index_bound(4) no])
    have "apart ?m r r' (get_PML4_INDEX v)"
      unfolding apart_def
    proof (intro allI impI; elim conjE)
      fix ks js u assume k: "vpath ks" "vpath js" "ks = [] \<or> hd ks = get_PML4_INDEX v" "tbl ?m r ks = Some u"
      then have "tbl (pmem s) r ks = Some u" using T by simp
      with ap k have "tbl (pmem s) r' js \<noteq> Some u" unfolding apart_def by blast
      with same_tree_tbl [OF st k(2)] show "tbl ?m r' js \<noteq> Some u" by simp
    qed
    with st same_tree_wf [OF st w] show "same_tree r' (pmem s) (pmem s') \<and>
      wf_tree (pmem s') r' (used_frames s') \<and> apart (pmem s') r r' (get_PML4_INDEX v)"
      by (simp add: s')
  qed
  moreover have "data_kept r s s'"
    unfolding data_kept_def
  proof (intro conjI ballI impI allI)
    fix h assume h: "h \<in> used_frames s" "no_table (pmem s) r h"
    then show "no_table (pmem s') r h" by (simp add: s' no_table_def T)
    fix k :: u64 assume k: "k < 512"
    have "h \<noteq> f" using h(2) t' vpath_idx3(1) by (auto simp: no_table_def)
    moreover have "h < 65536" using h(1) by (simp add: used_frames_def)
    ultimately show "pmem s' (slot h k) = pmem s (slot h k)"
      using slot_inj [of h k f "get_PT_INDEX v"] k f(2) index_bound(4) by (simp add: s')
  qed (simp add: s')
  ultimately show ?thesis using ok wf' leaf_entry_write [OF wf t' f(2)] by (simp add: s')
qed

text \<open>What one mapping does to a tree: the page's entry is \<open>x\<close>, the rest is kept.\<close>

definition mapped :: "u64 \<Rightarrow> u64 \<Rightarrow> u64 \<Rightarrow> 'a phys_scheme \<Rightarrow> 'a phys_scheme \<Rightarrow> bool" where
  "mapped r v x s s' \<longleftrightarrow>
     vm_ok s' \<and> wf_tree (pmem s') r (used_frames s') \<and>
     card (free_frames s) \<le> 3 + card (free_frames s') \<and>
     (\<forall>w. leaf_entry (pmem s') r w =
         (if same_page w v then x else leaf_entry (pmem s) r w) \<or>
        \<not> same_page w v \<and> leaf_entry (pmem s) r w = - 1 \<and> leaf_entry (pmem s') r w = 0) \<and>
     others_kept r (get_PML4_INDEX v) s s' \<and> data_kept r s s'"

lemma forceMapPage_ok:
  assumes ok: "vm_ok s" and wf: "wf_tree (pmem s) r (used_frames s)" and ne: "3 \<le> card (free_frames s)"
  shows "mapped r v (p OR leaf_flags user) s (forceMapPage v p (r + KERNBASE) user s)"
proof -
  let ?fl = "leaf_flags user" and ?i = "get_PML4_INDEX v" and ?j = "get_PDPT_INDEX v" and ?k = "get_PDT_INDEX v"
  have nz: "free_frames x \<noteq> {}" if "0 < card (free_frames x)" for x :: "'a phys_scheme"
    using that by auto
  from ne have n0: "free_frames s \<noteq> {}" by (intro nz) simp
  obtain t1 s1 where s1: "table_step KERNBASE ?fl (r + KERNBASE) ?i s = (t1, s1)" "vm_ok s1"
    "wf_tree (pmem s1) r (used_frames s1)" "tbl (pmem s1) r [?i] = Some t1" "keeps r (pmem s) (pmem s1)"
    "card (free_frames s) \<le> Suc (card (free_frames s1))" "others_kept r ?i s s1" "data_kept r s s1"
    using table_step_ok [OF ok wf, of "[]" r ?i ?fl] n0 by (auto simp: page_simps)
  from s1(6) ne have n1: "free_frames s1 \<noteq> {}" by (intro nz) simp
  obtain t2 s2 where s2: "table_step KERNBASE ?fl (t1 + KERNBASE) ?j s1 = (t2, s2)" "vm_ok s2"
    "wf_tree (pmem s2) r (used_frames s2)" "tbl (pmem s2) r [?i, ?j] = Some t2" "keeps r (pmem s1) (pmem s2)"
    "card (free_frames s1) \<le> Suc (card (free_frames s2))" "others_kept r ?i s1 s2" "data_kept r s1 s2"
    using table_step_ok [OF s1(2,3), of "[?i]" t1 ?j ?fl] n1 s1(4) by (auto simp: page_simps vpath_def simp del: tbl.simps)
  from s1(6) s2(6) ne have n2: "free_frames s2 \<noteq> {}" by (intro nz) simp
  obtain t3 s3 where s3: "table_step KERNBASE ?fl (t2 + KERNBASE) ?k s2 = (t3, s3)" "vm_ok s3"
    "wf_tree (pmem s3) r (used_frames s3)" "tbl (pmem s3) r (idx3 v) = Some t3" "keeps r (pmem s2) (pmem s3)"
    "card (free_frames s2) \<le> Suc (card (free_frames s3))" "others_kept r ?i s2 s3" "data_kept r s2 s3"
    using table_step_ok [OF s2(2,3), of "[?i, ?j]" t2 ?k ?fl] n2 s2(4)
    by (auto simp: page_simps vpath_def idx3_def simp del: tbl.simps)
  have kb: "kernbase s = KERNBASE" using ok by (simp add: vm_ok_def)
  have r: "forceMapPage v p (r + KERNBASE) user s = wr (t3 + KERNBASE + 8 * get_PT_INDEX v) (p OR ?fl) s3"
    by (simp add: forceMapPage_def Let_def kb leaf_flags_def [symmetric] s1(1) s2(1) s3(1))
  have k: "keeps r (pmem s) (pmem s3)"
    by (rule keeps_trans [OF keeps_trans [OF s1(5) s2(5)] s3(5)])
  have o3: "others_kept r ?i s s3"
    by (rule others_kept_trans [OF others_kept_trans [OF s1(7) s2(7)] s3(7)])
  have d3: "data_kept r s s3"
    by (rule data_kept_trans [OF data_kept_trans [OF s1(8) s2(8)] s3(8)])
  note L = leaf_write_ok [OF s3(2,3,4), of "p OR ?fl", folded r]
  from L data_kept_trans [OF d3] have "data_kept r s (forceMapPage v p (r + KERNBASE) user s)" by blast
  moreover from L others_kept_trans [OF o3] have "others_kept r ?i s (forceMapPage v p (r + KERNBASE) user s)" by blast
  ultimately show ?thesis
    using L s1(6) s2(6) s3(6) keeps_leaf_entry [OF k] unfolding mapped_def by auto
qed

lemma mapPageForUser_force: "mapPageForUser v p t s = forceMapPage v p t 1 s"
  by (simp add: mapPageForUser_def forceMapPage_def Let_def or.assoc)

text \<open>Changing the write bit of a page that has a table.\<close>

lemma mark_ok:
  fixes v :: u64 and rw :: i32
  assumes ok: "vm_ok s" and wf: "wf_tree (pmem s) r (used_frames s)"
    and t: "tbl (pmem s) r (idx3 v) = Some t"
  defines "s' \<equiv> snd (markPageAsRW v (r + KERNBASE) rw s)"
  defines "x \<equiv> (if rw \<noteq> 0 then leaf_entry (pmem s) r v AND MAKERDONLY else leaf_entry (pmem s) r v OR WRITEABLE)"
  shows "vm_ok s' \<and> wf_tree (pmem s') r (used_frames s') \<and> free_frames s' = free_frames s \<and>
    leaf_entry (pmem s') r w = (if same_page w v then x else leaf_entry (pmem s) r w) \<and>
    others_kept r (get_PML4_INDEX v) s s' \<and> data_kept r s s'"
proof -
  have "s' = wr (t + KERNBASE + 8 * get_PT_INDEX v) x s"
    using mark_leaf [OF ok wf, of v rw] t by (simp add: s'_def x_def)
  with leaf_write_ok [OF ok wf t, of x w] show ?thesis by simp
qed

lemma leaf_entry_table: "leaf_entry m r v \<noteq> - 1 \<Longrightarrow> \<exists>t. tbl m r (idx3 v) = Some t"
  by (cases "tbl m r (idx3 v)") (simp_all add: leaf_entry_def)

lemma mapped_leaf: "mapped r v x s s' \<Longrightarrow> leaf_entry (pmem s') r v = x"
  unfolding mapped_def same_page_def by metis

lemma same_page_frame: "same_page (v AND FRAME) v"
  unfolding same_page_def FRAME_mask by (rule bit_word_eqI) (auto simp: bit_simps)

lemma index_frame: "get_PML4_INDEX (v AND FRAME) = get_PML4_INDEX v"
  using same_page_frame [of v] by (simp add: same_page_index idx3_def)

lemma same_page_leaf: "same_page v w \<Longrightarrow> leaf_entry m r v = leaf_entry m r w"
  by (simp add: same_page_index leaf_entry_def split: option.split)

lemma same_page_trans: "same_page a b \<Longrightarrow> same_page c b \<longleftrightarrow> same_page c a"
  by (auto simp: same_page_def)

lemma others_kept_leaf:
  assumes "others_kept r i s s'" and "wf_tree (pmem s) r' (used_frames s)" and "apart (pmem s) r r' i"
  shows "leaf_entry (pmem s') r' w = leaf_entry (pmem s) r' w"
    "wf_tree (pmem s') r' (used_frames s')" "apart (pmem s') r r' i"
  using assms same_tree_leaf_entry unfolding others_kept_def by blast+

section \<open>A concrete state\<close>

text \<open>
  A small machine: frame 256 holds an empty root table, frames 257 to 268 are free, all of
  memory is zero.
\<close>

definition small_vm :: vm where
  "small_vm = \<lparr>availFrames = (\<lambda>r. if r = 4 then 0x1FFE else 0), availBase = 0, KER_PHYSBASE = 0,
     KER_PHYSFREE = 0, PHYSEND = 0, MAX_BITMAP_ROWS = 1024, AHCI_PHYS = 0, kernbase = KERNBASE,
     pmem = (\<lambda>_. 0), pml4 = page_of 256 + KERNBASE, cr3_reg = page_of 256, vga_virtual_address = 0\<rparr>"

lemma free_small: "free_frames small_vm = {257..<269}"
proof -
  have b: "bit (0x1FFE :: u64) k \<longleftrightarrow> 1 \<le> k \<and> k < 13" for k
  proof -
    have e: "(0x1FFE :: u64) = push_bit 1 (mask 12)" by (simp add: mask_eq_exp_minus_1 push_bit_eq_mult)
    show ?thesis unfolding e bit_push_bit_iff bit_mask_iff by auto
  qed
  have w: "(of_nat (f div 64) :: u64) = 4 \<longleftrightarrow> f div 64 = 4" if "f < 65536" for f
    using of_nat_inj_64 [of "f div 64" 4] that by simp
  have "f \<in> free_frames small_vm \<longleftrightarrow> f div 64 = 4 \<and> 1 \<le> f mod 64 \<and> f mod 64 < 13" for f
    using w [of f] b [of "f mod 64"] by (auto simp: free_frames_def small_vm_def)
  moreover have "f div 64 = 4 \<and> 1 \<le> f mod 64 \<and> f mod 64 < 13 \<longleftrightarrow> f \<in> {257..<269}" for f :: nat
  proof
    assume a: "f div 64 = 4 \<and> 1 \<le> f mod 64 \<and> f mod 64 < 13"
    have "f = 64 * (f div 64) + f mod 64" by simp
    with a show "f \<in> {257..<269}" unfolding atLeastLessThan_iff by linarith
  next
    assume "f \<in> {257..<269}"
    then have b: "257 \<le> f" "f < 269" by simp_all
    then have d: "f div 64 = 4" by (intro div_nat_eqI) simp_all
    with div_mult_mod_eq [of f 64] have "f mod 64 = f - 256" by linarith
    with b d show "f div 64 = 4 \<and> 1 \<le> f mod 64 \<and> f mod 64 < 13" by linarith
  qed
  ultimately show ?thesis by blast
qed

lemma small_ok:
  "vm_ok small_vm" "card (free_frames small_vm) = 12" "cr3_reg small_vm = page_of 256"
  "pmem small_vm x = 0" "kernbase small_vm = KERNBASE"
proof -
  show "vm_ok small_vm"
    unfolding vm_ok_def phys_inv_def free_small by (simp add: small_vm_def)
qed (simp_all add: free_small, simp_all add: small_vm_def)

lemma small_used: "256 \<in> used_frames small_vm" "300 \<in> used_frames small_vm"
  by (simp_all add: used_frames_def free_small)

lemma small_tree:
  assumes "f \<in> used_frames small_vm"
  shows "wf_tree (pmem small_vm) (page_of f) (used_frames small_vm)"
  by (rule wf_tree_cleared [OF assms used_frames_bound]) (simp add: small_ok)

lemma small_tbl: "tbl (pmem small_vm) r is = (if is = [] then Some r else None)"
  by (cases "is") (simp_all add: small_ok next_tbl_def)

lemma small_apart: "apart (pmem small_vm) (page_of 256) (page_of 300) i"
  by (simp add: apart_def small_tbl page_of_inj)

section \<open>A fresh page\<close>

lemma kmalloc_zeroed_lemma:
  assumes "vm_ok s" and "free_frames s \<noteq> {}"
    and "kmalloc s = (ptr, s')"
  shows "\<exists>g \<in> free_frames s. (\<forall>f \<in> free_frames s. g \<le> f) \<and> ptr = page_of g + KERNBASE \<and>
    free_frames s' = free_frames s - {g} \<and> vm_ok s' \<and>
    (\<forall>h k. h < 65536 \<and> k < 512 \<longrightarrow>
       pmem s' (slot h k) = (if h = g then 0 else pmem s (slot h k)))"
proof -
  let ?g = "Min (free_frames s)"
  have inv: "phys_inv s" and kb: "kernbase s = KERNBASE" using assms(1) by (simp_all add: vm_ok_def)
  have g: "?g \<in> free_frames s" "\<forall>f \<in> free_frames s. ?g \<le> f" using assms(2) by simp_all
  then have lt: "?g < 65536" using free_frames_bound [OF inv] by blast
  note A = pageAllocator_step [OF inv assms(2)]
  have "ptr = page_of ?g + KERNBASE"
    "s' = (markasUsed (of_nat ?g) s)\<lparr>pmem := zero_words 512 (page_of ?g) (pmem s)\<rparr>"
    using assms(3) A(1) kb lt by (simp_all add: kmalloc_def Let_def frame_simps memset_page)
  with g A lt kb show ?thesis
    by (intro bexI [of _ ?g]) (simp_all add: vm_ok_def frame_simps zero_page_slot)
qed

section \<open>Properties\<close>

text \<open>C6: Mapping a user page \<open>v\<close> to \<open>p\<close> in the address space with root \<open>r\<close> makes the walk of \<open>v\<close>
  return exactly \<open>p\<close> with the three user flags; no other page of the address space changes, except
  that a page whose tables did not exist and now do reads as the empty entry 0 instead of -1. The
  tree and the allocator's invariant are kept, and at most three frames are taken.\<close>

theorem mapPageForUser_walk:
  assumes "vm_ok s" and "wf_tree (pmem s) r (used_frames s)" and "3 \<le> card (free_frames s)"
    and s': "s' = mapPageForUser v p (r + KERNBASE) s"
  shows "vm_ok s' \<and> wf_tree (pmem s') r (used_frames s') \<and>
    card (free_frames s) \<le> 3 + card (free_frames s') \<and>
    getPhysicalPageAddr v r s' = p OR (PRESENT OR WRITEABLE OR USER) \<and>
    (\<forall>w. same_page w v \<or> getPhysicalPageAddr w r s' = getPhysicalPageAddr w r s \<or>
       getPhysicalPageAddr w r s = - 1 \<and> getPhysicalPageAddr w r s' = 0)"
proof -
  have m: "mapped r v (p OR leaf_flags 1) s s'"
    unfolding s' mapPageForUser_force by (rule forceMapPage_ok [OF assms(1-3)])
  then have W: "getPhysicalPageAddr w r s' = leaf_entry (pmem s') r w" for w
    by (intro walk_leaf_entry) (simp_all add: mapped_def)
  have "leaf_entry (pmem s') r w = (if same_page w v then p OR leaf_flags 1 else leaf_entry (pmem s) r w) \<or>
      \<not> same_page w v \<and> leaf_entry (pmem s) r w = - 1 \<and> leaf_entry (pmem s') r w = 0" for w
    using m by (simp only: mapped_def)
  from this this [of v] m show ?thesis
    unfolding W walk_leaf_entry [OF assms(1,2)]
    by (auto simp: mapped_def same_page_def leaf_flags_def split: if_splits)
qed

theorem mapPageForUser_walk_witness:
  "getPhysicalPageAddr 0x400000 (page_of 256) (mapPageForUser 0x400000 0x105000 (page_of 256 + KERNBASE) small_vm)
     = 0x105000 OR (PRESENT OR WRITEABLE OR USER)"
  using mapPageForUser_walk [OF small_ok(1) small_tree [OF small_used(1)] _ refl, of "0x400000" "0x105000"]
  by (simp add: small_ok(2))

text \<open>C7: Mapping a page in one address space does not change what any page translates to in
  another, whose tables are not those the mapping goes through (tables the two share elsewhere,
  such as the kernel's under entry 511, do not matter).\<close>

theorem mapping_isolated:
  assumes "vm_ok s" and "wf_tree (pmem s) r (used_frames s)" and "3 \<le> card (free_frames s)"
    and "wf_tree (pmem s) r' (used_frames s)" and "apart (pmem s) r r' (get_PML4_INDEX v)"
  shows "getPhysicalPageAddr w r' (forceMapPage v p (r + KERNBASE) user s) = getPhysicalPageAddr w r' s"
proof -
  let ?s = "forceMapPage v p (r + KERNBASE) user s"
  have m: "mapped r v (p OR leaf_flags user) s ?s" by (rule forceMapPage_ok [OF assms(1-3)])
  then have "same_tree r' (pmem s) (pmem ?s)" "wf_tree (pmem ?s) r' (used_frames ?s)"
    using assms(4,5) by (simp_all add: mapped_def others_kept_def)
  with m walk_leaf_entry [OF assms(1,4)] show ?thesis
    by (simp add: walk_leaf_entry mapped_def same_tree_leaf_entry)
qed

theorem mapping_isolated_witness:
  "getPhysicalPageAddr 0x400000 (page_of 300)
     (forceMapPage 0x400000 0x105000 (page_of 256 + KERNBASE) 1 small_vm) = - 1"
proof -
  have "getPhysicalPageAddr 0x400000 (page_of 300) small_vm = - 1"
    unfolding walk_leaf_entry [OF small_ok(1) small_tree [OF small_used(2)]]
    by (simp add: leaf_entry_def small_tbl [of _ "idx3 v" for v]) (simp add: idx3_def)
  then show ?thesis
    using mapping_isolated [OF small_ok(1) small_tree [OF small_used(1)] _ small_tree [OF small_used(2)] small_apart]
    by (simp add: small_ok(2))
qed

text \<open>\<open>markPageAsRW\<close> fails exactly when the page has no table, and then changes nothing;
  otherwise it clears (argument non-zero) or sets (zero) the write bit of that page's entry and
  changes no other page. The tree and the allocator are untouched.\<close>

theorem markPageAsRW_effect:
  assumes ok: "vm_ok s" and wf: "wf_tree (pmem s) r (used_frames s)"
    and run: "markPageAsRW v (r + KERNBASE) rw s = (rc, s')"
  shows "vm_ok s' \<and> wf_tree (pmem s') r (used_frames s') \<and> free_frames s' = free_frames s \<and>
    (rc = - 1 \<and> s' = s \<and> getPhysicalPageAddr v r s = - 1 \<or>
     rc = 0 \<and> (\<forall>w. getPhysicalPageAddr w r s' =
       (if same_page w v
        then if rw \<noteq> 0 then getPhysicalPageAddr v r s AND MAKERDONLY else getPhysicalPageAddr v r s OR WRITEABLE
        else getPhysicalPageAddr w r s)))"
proof (cases "tbl (pmem s) r (idx3 v)")
  case None
  with run mark_leaf [OF ok wf, of v rw] have "rc = - 1" "s' = s" by auto
  moreover have "getPhysicalPageAddr v r s = - 1"
    using None by (simp add: walk_leaf_entry [OF ok wf] leaf_entry_def)
  ultimately show ?thesis using ok wf by blast
next
  case (Some t)
  let ?x = "if rw \<noteq> 0 then leaf_entry (pmem s) r v AND MAKERDONLY else leaf_entry (pmem s) r v OR WRITEABLE"
  from run mark_leaf [OF ok wf, of v rw] Some
  have s': "s' = wr (t + KERNBASE + 8 * get_PT_INDEX v) ?x s" and rc: "rc = 0" by auto
  note L = leaf_write_ok [OF ok wf Some, of ?x, folded s']
  then have "getPhysicalPageAddr w r s' = leaf_entry (pmem s') r w" for w
    by (intro walk_leaf_entry) simp_all
  with L rc show ?thesis by (simp add: walk_leaf_entry [OF ok wf])
qed

theorem markPageAsRW_effect_witness:
  "fst (markPageAsRW 0x400000 (page_of 256 + KERNBASE) 1 small_vm) = - 1 \<and>
   snd (markPageAsRW 0x400000 (page_of 256 + KERNBASE) 1 small_vm) = small_vm"
proof -
  have "markPageAsRW 0x400000 (page_of 256 + KERNBASE) 1 small_vm = (- 1, small_vm)"
    using mark_leaf [OF small_ok(1) small_tree [OF small_used(1)], of "0x400000" 1]
    by (simp add: small_tbl [of _ "idx3 v" for v]) (simp add: idx3_def)
  with markPageAsRW_effect [OF small_ok(1) small_tree [OF small_used(1)] this]
  show ?thesis by simp
qed

text \<open>\<open>kmalloc\<close> returns a kernel pointer to the least free frame, with the whole page zero, every
  other frame's words unchanged and only that frame taken.\<close>

theorem kmalloc_zeroed:
  assumes "vm_ok s" and "free_frames s \<noteq> {}"
    and "kmalloc s = (ptr, s')"
  shows "\<exists>g \<in> free_frames s. (\<forall>f \<in> free_frames s. g \<le> f) \<and> ptr = page_of g + KERNBASE \<and>
    free_frames s' = free_frames s - {g} \<and> vm_ok s' \<and>
    (\<forall>h k. h < 65536 \<and> k < 512 \<longrightarrow>
       pmem s' (slot h k) = (if h = g then 0 else pmem s (slot h k)))"
  by (rule kmalloc_zeroed_lemma [OF assms])

theorem kmalloc_zeroed_witness:
  "\<exists>g \<in> {257..<269}. fst (kmalloc small_vm) = page_of g + KERNBASE"
proof -
  obtain p t where r: "kmalloc small_vm = (p, t)" by fastforce
  from kmalloc_zeroed [OF small_ok(1) _ r] r free_small show ?thesis by auto
qed

text \<open>\<open>kmalloc\<close> does not notice that memory is exhausted: with no free frame it hands out the
  address of physical frame 0 and clears that frame.\<close>

theorem kmalloc_exhausted:
  assumes "free_frames s = {}"
  shows "kmalloc s = (kernbase s, memset (kernbase s) s)"
  by (simp add: kmalloc_def pageAllocator_none [OF assms] Let_def)

theorem kmalloc_exhausted_witness:
  "fst (kmalloc (small_vm\<lparr>MAX_BITMAP_ROWS := 0\<rparr>)) = KERNBASE"
proof -
  have "free_frames (small_vm\<lparr>MAX_BITMAP_ROWS := 0\<rparr>) = {}" by (simp add: free_frames_def)
  from kmalloc_exhausted [OF this] show ?thesis by (simp add: small_ok)
qed

text \<open>\<open>getNewPML4ForUser\<close> returns a fresh root that shares the kernel: entry 511 is the current
  root's, the other 511 entries are empty, and no word of any other frame changes.\<close>

theorem getNewPML4ForUser_shares_kernel:
  assumes "vm_ok s" and "free_frames s \<noteq> {}"
    and "cr3_reg s = page_of c" and "c \<in> used_frames s"
    and "getNewPML4ForUser s = (root, s')"
  shows "\<exists>g \<in> free_frames s. root = page_of g \<and> vm_ok s' \<and> free_frames s' = free_frames s - {g} \<and>
    (\<forall>k < 512. pmem s' (slot g k) = (if k = 511 then pmem s (slot c 511) else 0)) \<and>
    (\<forall>h < 65536. \<forall>k < 512. h \<noteq> g \<longrightarrow> pmem s' (slot h k) = pmem s (slot h k))"
proof -
  let ?g = "Min (free_frames s)"
  have inv: "phys_inv s" and kb: "kernbase s = KERNBASE" using assms(1) by (simp_all add: vm_ok_def)
  have g: "?g \<in> free_frames s" using assms(2) by simp
  then have lt: "?g < 65536" using free_frames_bound [OF inv] by blast
  have c: "c < 65536" "c \<noteq> ?g" using assms(4) g by (auto simp: used_frames_def)
  note A = pageAllocator_step [OF inv assms(2)]
  let ?m = "zero_words 512 (page_of ?g) (pmem s)"
  define s1 where "s1 = (markasUsed (of_nat ?g) s)\<lparr>pmem := ?m\<rparr>"
  have cr3: "cr3_reg (markasUsed n s) = cr3_reg s" for n
    by (simp add: markasUsed_def Let_def)
  have s1: "vm_ok s1" "pmem s1 = ?m" "cr3_reg s1 = page_of c" "kernbase s1 = KERNBASE"
    using A kb assms(3) by (simp_all add: s1_def vm_ok_def frame_simps cr3)
  have "rd s1 (page_of c + KERNBASE + 8 * 511) = pmem s (slot c 511)"
    using k2p_slot(1) [OF c(1), of 511] zero_page_slot [OF lt c(1), of 511] c(2) s1 by (simp add: rd_def)
  moreover have "wr (page_of ?g + KERNBASE + 8 * 511) x s1 = s1\<lparr>pmem := ?m(slot ?g 511 := x)\<rparr>" for x
    using wr_slot [OF s1(1) lt, of 511 x] s1(2) by simp
  ultimately have "getNewPML4ForUser s = (page_of ?g, s1\<lparr>pmem := ?m(slot ?g 511 := pmem s (slot c 511))\<rparr>)"
    using A(1) kb lt s1
    by (simp add: getNewPML4ForUser_def Let_def frame_simps memset_page s1_def [symmetric])
  with assms(5) have e: "root = page_of ?g" "s' = s1\<lparr>pmem := ?m(slot ?g 511 := pmem s (slot c 511))\<rparr>"
    by (metis prod.inject)+
  have "free_frames s' = free_frames s - {?g}" "vm_ok s'"
    using A s1 by (simp_all add: e(2)) (simp add: s1_def)
  with g lt show ?thesis
    by (intro bexI [of _ ?g]) (auto simp: e slot_inj zero_page_slot)
qed

theorem getNewPML4ForUser_shares_kernel_witness:
  "\<exists>g \<in> {257..<269}. fst (getNewPML4ForUser small_vm) = page_of g"
proof -
  obtain p t where r: "getNewPML4ForUser small_vm = (p, t)" by fastforce
  from getNewPML4ForUser_shares_kernel [OF small_ok(1) _ small_ok(3) small_used(1) r] r free_small
  show ?thesis by auto
qed

end
