(* ===== verification/Console.thy ===== *)
theory Console
  imports Prelude
begin

text \<open>
  The text console of \<open>sys/kprintf.c\<close>: 25 rows of 80 cells of two bytes (character, colour) at
  \<open>VGA_VIRTUAL_ADDRESS\<close>. The record \<open>console\<close> holds the file's static variables and the video
  memory. \<open>kprintf\<close> writes the first 24 rows and scrolls them; the last row belongs to the three
  status bars. The local copies of the two line pointers in \<open>kprintf\<close> are the fields themselves.
  The loops that pad a line are partial functions: \<^term>\<open>None\<close> is a loop that runs past its end.
\<close>

section \<open>State\<close>

record console =
  VGA_VIRTUAL_ADDRESS :: u64
  v_line_count :: i32
  line_adr :: u64
  next_line_adrs :: u64
  vmem :: "u64 \<Rightarrow> char"

text \<open>The static initialisers.\<close>

definition console0 :: "(u64 \<Rightarrow> char) \<Rightarrow> console" where
  "console0 m = \<lparr>VGA_VIRTUAL_ADDRESS = 0xb8000, v_line_count = 1, line_adr = 0xb8000,
     next_line_adrs = 0xb8000 + 160, vmem = m\<rparr>"

definition mapVGA :: "u64 \<Rightarrow> 'a console_scheme \<Rightarrow> 'a console_scheme" where
  "mapVGA a s = s\<lparr>VGA_VIRTUAL_ADDRESS := a, next_line_adrs := a + (next_line_adrs s - 0xb8000),
     line_adr := a + (line_adr s - 0xb8000)\<rparr>"

definition poke :: "u64 \<Rightarrow> char \<Rightarrow> 'a console_scheme \<Rightarrow> 'a console_scheme" where
  "poke a c s = s\<lparr>vmem := (vmem s)(a := c)\<rparr>"

section \<open>Lines\<close>

text \<open>The two loops that move rows 1 to 23 up by one row and clear the last of the 24.\<close>

definition scroll :: "u64 \<Rightarrow> (u64 \<Rightarrow> char) \<Rightarrow> u64 \<Rightarrow> char" where
  "scroll base m =
     (let m1 = fold (\<lambda>i m. m(base + of_nat i := m (base + of_nat i + 160))) [0..<160 * 23] m
      in fold (\<lambda>i m. m(base + of_nat i := CHR 0x00)) [160 * 23..<160 * 24] m1)"

definition check_if_line_full :: "'a console_scheme \<Rightarrow> 'a console_scheme" where
  "check_if_line_full s =
     (if line_adr s = next_line_adrs s
      then (let s1 = s\<lparr>v_line_count := v_line_count s + 1\<rparr> in
            if 24 < sint (v_line_count s1)
            then s1\<lparr>vmem := scroll (VGA_VIRTUAL_ADDRESS s1) (vmem s1), line_adr := next_line_adrs s1 - 160\<rparr>
            else s1\<lparr>next_line_adrs := next_line_adrs s1 + 160\<rparr>)
      else s)"

definition put_char :: "char \<Rightarrow> 'a console_scheme \<Rightarrow> 'a console_scheme" where
  "put_char c s = (let s1 = poke (line_adr s) c s in check_if_line_full (s1\<lparr>line_adr := line_adr s1 + 2\<rparr>))"

partial_function (option) pad_line :: "'a console_scheme \<Rightarrow> 'a console_scheme option" where
  "pad_line s =
     (if line_adr s \<noteq> next_line_adrs s
      then pad_line ((poke (line_adr s) (CHR 0x20) s)\<lparr>line_adr := line_adr s + 2\<rparr>)
      else Some s)"

definition new_line :: "'a console_scheme \<Rightarrow> 'a console_scheme option" where
  "new_line s = map_option check_if_line_full (pad_line s)"

partial_function (option) carriage_return :: "'a console_scheme \<Rightarrow> 'a console_scheme option" where
  "carriage_return s =
     (if line_adr s \<noteq> next_line_adrs s - 160
      then carriage_return (s\<lparr>line_adr := line_adr s - 2\<rparr>)
      else Some s)"

definition backspace :: "'a console_scheme \<Rightarrow> 'a console_scheme" where
  "backspace s =
     (let s1 = (if line_adr s = next_line_adrs s - 160
                then s\<lparr>next_line_adrs := next_line_adrs s - 160\<rparr> else s);
          s2 = s1\<lparr>line_adr := line_adr s1 - 2\<rparr>
      in poke (line_adr s2) (CHR 0x20) s2)"

section \<open>Numbers\<close>

text \<open>
  The digit loops of \<open>itoa\<close> and of \<open>%d\<close>, \<open>%ld\<close>, \<open>%x\<close> and \<open>%p\<close>: the largest power of the base that
  does not exceed the number, then one digit per division. The values are integers: C division
  and \<open>div\<close> agree, because a negative number leaves the first loop at once, and dividing by 1 is exact.
\<close>

function top_power :: "int \<Rightarrow> int \<Rightarrow> int \<Rightarrow> int" where
  "top_power b x dig = (if 1 < b \<and> b \<le> x then top_power b (x div b) (dig * b) else dig)"
  by pat_completeness auto
termination
  by (relation "measure (\<lambda>(b, x, dig). nat x)") (auto simp: int_div_less_self)

declare top_power.simps [simp del]

function digit_loop :: "int \<Rightarrow> int \<Rightarrow> int \<Rightarrow> int list" where
  "digit_loop b y dig = (if 1 < b \<and> 0 < dig then y div dig # digit_loop b (y mod dig) (dig div b) else [])"
  by pat_completeness auto
termination
  by (relation "measure (\<lambda>(b, y, dig). nat dig)") (auto simp: int_div_less_self)

declare digit_loop.simps [simp del]

text \<open>The character of a digit; \<open>c + '0'\<close> is cut to a byte.\<close>

definition dec_char :: "int \<Rightarrow> char" where
  "dec_char c = char_of (nat ((c + 48) mod 256))"

definition hex_char :: "int \<Rightarrow> char" where
  "hex_char c =
     (if c < 10 then dec_char c
      else if c = 10 then CHR ''A'' else if c = 11 then CHR ''B'' else if c = 12 then CHR ''C''
      else if c = 13 then CHR ''D'' else if c = 14 then CHR ''E'' else if c = 15 then CHR ''F'' else CHR ''-'')"

definition dec_text :: "int \<Rightarrow> string" where
  "dec_text x = map dec_char (digit_loop 10 x (top_power 10 x 1))"

definition hex_text :: "int \<Rightarrow> string" where
  "hex_text x = ''0x'' @ map hex_char (digit_loop 16 x (top_power 16 x 1))"

text \<open>\<open>itoa\<close> puts a 0 before a number of one digit.\<close>

definition itoa :: "int \<Rightarrow> string" where
  "itoa x = (let dig_count = top_power 10 x 1
     in (if dig_count = 1 then ''0'' else []) @ map dec_char (digit_loop 10 x dig_count))"

section \<open>The status bars\<close>

definition time_concatenate :: "string \<Rightarrow> string \<Rightarrow> string \<Rightarrow> string \<Rightarrow> string" where
  "time_concatenate s1 hours minutes seconds = s1 @ hours @ '':'' @ minutes @ '':'' @ seconds"

text \<open>The loop of the three bars: the text, then blanks, up to the end of the bar.\<close>

fun bar :: "nat \<Rightarrow> u64 \<Rightarrow> string \<Rightarrow> char \<Rightarrow> 'a console_scheme \<Rightarrow> 'a console_scheme" where
  "bar 0 p str color s = s"
| "bar (Suc n) p str color s =
     (let s1 = poke p (case str of [] \<Rightarrow> CHR 0x20 | c # _ \<Rightarrow> c) s;
          s2 = poke (p + 1) color s1
      in bar n (p + 2) (drop 1 str) color s2)"

definition time_bar :: "int \<Rightarrow> int \<Rightarrow> int \<Rightarrow> char \<Rightarrow> 'a console_scheme \<Rightarrow> 'a console_scheme" where
  "time_bar hours minutes seconds color s =
     bar 25 (VGA_VIRTUAL_ADDRESS s + 0xF00)
       (time_concatenate ''TIME(NYC): '' (itoa hours) (itoa minutes) (itoa seconds)) color s"

definition keypress_bar :: "string \<Rightarrow> char \<Rightarrow> 'a console_scheme \<Rightarrow> 'a console_scheme" where
  "keypress_bar str color s = bar 30 (VGA_VIRTUAL_ADDRESS s + 0xF32) (takeWhile (\<lambda>c. c \<noteq> CHR 0x00) str) color s"

definition boot_time_bar :: "int \<Rightarrow> int \<Rightarrow> int \<Rightarrow> char \<Rightarrow> 'a console_scheme \<Rightarrow> 'a console_scheme" where
  "boot_time_bar hours minutes seconds color s =
     bar 25 (VGA_VIRTUAL_ADDRESS s + 0xF6E)
       (time_concatenate ''timeSinceBoot: '' (itoa hours) (itoa minutes) (itoa seconds)) color s"

section \<open>Printing\<close>

text \<open>Arguments of a \<open>kprintf\<close> call.\<close>

datatype karg = KNum u64 | KStr string | KChr char

fun print_chars :: "string \<Rightarrow> 'a console_scheme \<Rightarrow> 'a console_scheme option" where
  "print_chars [] s = Some s"
| "print_chars (c # cs) s = print_chars cs (put_char c s)"

text \<open>The loop of \<open>%s\<close>.\<close>

fun print_str :: "string \<Rightarrow> 'a console_scheme \<Rightarrow> 'a console_scheme option" where
  "print_str [] s = Some s"
| "print_str (c # cs) s =
     (if c = CHR 0x0A then Option.bind (new_line s) (print_str cs)
      else if c = CHR 0x0D then Option.bind (carriage_return s) (print_str cs)
      else print_str cs (put_char c s))"

text \<open>
  The loop of \<open>kprintf\<close> over the format. A format that ends in \<open>%\<close>, or has no argument (or one of
  another type) for a conversion, reads what is not there: no result. After \<open>%ld\<close> only the \<open>l\<close> is
  skipped, so that the \<open>d\<close> is printed as a character.
\<close>

fun print_loop :: "string \<Rightarrow> karg list \<Rightarrow> 'a console_scheme \<Rightarrow> 'a console_scheme option" where
  "print_loop [] args s = Some s"
| "print_loop [c] args s =
     (if c = CHR ''%'' then None
      else if c = CHR 0x0A then new_line s
      else if c = CHR 0x0D then carriage_return s
      else if c = CHR 0x08 then Some (backspace s)
      else Some (put_char c s))"
| "print_loop (c # d # fmt) args s =
     (if c = CHR 0x0A then Option.bind (new_line s) (print_loop (d # fmt) args)
      else if c = CHR 0x0D then Option.bind (carriage_return s) (print_loop (d # fmt) args)
      else if c = CHR 0x08 then print_loop (d # fmt) args (backspace s)
      else if c \<noteq> CHR ''%'' then print_loop (d # fmt) args (put_char c s)
      else if d = CHR ''%'' then print_loop fmt args (put_char CHR ''%'' s)
      else if d = CHR ''d'' then
        (case args of KNum x # args' \<Rightarrow>
             Option.bind (print_chars (dec_text (sint (ucast x :: i32))) s) (print_loop fmt args')
         | _ \<Rightarrow> None)
      else if d = CHR ''l'' \<and> fmt \<noteq> [] \<and> hd fmt = CHR ''d'' then
        (case args of KNum x # args' \<Rightarrow>
             Option.bind (print_chars (dec_text (uint x)) s) (print_loop fmt args')
         | _ \<Rightarrow> None)
      else if d = CHR ''c'' then
        (case args of KChr x # args' \<Rightarrow>
             if x = CHR 0x0A then Option.bind (new_line s) (print_loop fmt args')
             else print_loop fmt args' (put_char x s)
         | _ \<Rightarrow> None)
      else if d = CHR ''s'' then
        (case args of KStr x # args' \<Rightarrow> Option.bind (print_str x s) (print_loop fmt args')
         | _ \<Rightarrow> None)
      else if d = CHR ''x'' then
        (case args of KNum x # args' \<Rightarrow>
             Option.bind (print_chars (hex_text (sint (ucast x :: i32))) s) (print_loop fmt args')
         | _ \<Rightarrow> None)
      else if d = CHR ''p'' then
        (case args of KNum x # args' \<Rightarrow>
             Option.bind (print_chars (hex_text (uint x)) s) (print_loop fmt args')
         | _ \<Rightarrow> None)
      else print_loop fmt args s)"

text \<open>Before it prints, \<open>kprintf\<close> paints the 24 rows white.\<close>

definition paint_white :: "'a console_scheme \<Rightarrow> 'a console_scheme" where
  "paint_white s = s\<lparr>vmem := fold (\<lambda>i m. m(VGA_VIRTUAL_ADDRESS s + 1 + of_nat (2 * i) := CHR 0x07)) [0..<1920] (vmem s)\<rparr>"

definition kprint :: "string \<Rightarrow> karg list \<Rightarrow> 'a console_scheme \<Rightarrow> 'a console_scheme option" where
  "kprint fmt args s = print_loop fmt args (paint_white s)"

text \<open>What a list of \<open>kprintf\<close> calls leaves on the screen.\<close>

fun render :: "(string \<times> karg list) list \<Rightarrow> 'a console_scheme \<Rightarrow> 'a console_scheme option" where
  "render [] s = Some s"
| "render ((fmt, args) # log) s = Option.bind (kprint fmt args s) (render log)"

section \<open>The cursor stays on the screen\<close>

text \<open>
  \<open>cursor n k c s\<close>: \<open>n\<close> lines have been counted, the next character goes to column \<open>c\<close> of row \<open>k\<close>
  (from 1). When more than 24 lines have been counted, the row is the last one. Column 80 is the end of
  a full row, before \<open>check_if_line_full\<close> has moved on.
\<close>

definition cursor :: "nat \<Rightarrow> nat \<Rightarrow> nat \<Rightarrow> 'a console_scheme \<Rightarrow> bool" where
  "cursor n k c s \<longleftrightarrow> v_line_count s = of_nat n \<and> 1 \<le> k \<and> k \<le> 24 \<and> (n = k \<or> 24 < n \<and> k = 24) \<and> c \<le> 80 \<and>
     unat (VGA_VIRTUAL_ADDRESS s) + 4000 \<le> 2 ^ 64 \<and>
     next_line_adrs s = VGA_VIRTUAL_ADDRESS s + of_nat (160 * k) \<and>
     line_adr s = VGA_VIRTUAL_ADDRESS s + of_nat (160 * (k - 1) + 2 * c)"

text \<open>\<open>rows_only s s'\<close>: of the memory only the 24 rows changed, and the base did not.\<close>

definition rows_only :: "'a console_scheme \<Rightarrow> 'a console_scheme \<Rightarrow> bool" where
  "rows_only s s' \<longleftrightarrow> VGA_VIRTUAL_ADDRESS s' = VGA_VIRTUAL_ADDRESS s \<and>
     (\<forall>a. 3840 \<le> unat (a - VGA_VIRTUAL_ADDRESS s) \<longrightarrow> vmem s' a = vmem s a)"

lemma rows_only_refl [simp]: "rows_only s s"
  by (simp add: rows_only_def)

lemma rows_only_trans: "rows_only s s' \<Longrightarrow> rows_only s' s'' \<Longrightarrow> rows_only s s''"
  by (simp add: rows_only_def)

lemma rows_only_cursor [simp]:
  "rows_only s (s'\<lparr>line_adr := a\<rparr>) = rows_only s s'" "rows_only s (s'\<lparr>next_line_adrs := a\<rparr>) = rows_only s s'"
  "rows_only s (s'\<lparr>v_line_count := n\<rparr>) = rows_only s s'"
  by (simp_all add: rows_only_def)

lemma cell_offset: "i < 2 ^ 64 \<Longrightarrow> unat ((b :: u64) + of_nat i - b) = i"
  by simp

lemma cell_eq: "i < 2 ^ 64 \<Longrightarrow> j < 2 ^ 64 \<Longrightarrow> (b + of_nat i :: u64) = b + of_nat j \<longleftrightarrow> i = j"
  using of_nat_inj_64 by auto

lemma rows_only_poke:
  assumes "i < 3840"
  shows "rows_only s (poke (VGA_VIRTUAL_ADDRESS s + of_nat i) x s)"
  using assms cell_offset [of i "VGA_VIRTUAL_ADDRESS s"] by (auto simp: rows_only_def poke_def)

lemma fold_rows:
  fixes a b :: u64
  assumes "\<And>i. i \<in> set is \<Longrightarrow> i < 3840" and "3840 \<le> unat (a - b)"
  shows "fold (\<lambda>i m. m(b + of_nat i := f i m)) is m a = m a"
  using assms(1)
proof (induction "is" arbitrary: m)
  case (Cons i js)
  then have i: "i < 3840" by simp
  then have "a \<noteq> b + of_nat i" using assms(2) cell_offset [of i b] by auto
  with Cons show ?case by simp
qed simp

lemma scroll_rows:
  fixes a b :: u64
  assumes "3840 \<le> unat (a - b)"
  shows "scroll b m a = m a"
proof -
  have "fold (\<lambda>i m. m(b + of_nat i := CHR 0x00)) [160 * 23..<160 * 24] m' a = m' a" for m'
    by (rule fold_rows [OF _ assms]) (simp del: upt_rec_numeral)
  moreover have "fold (\<lambda>i m. m(b + of_nat i := m (b + of_nat i + 160))) [0..<160 * 23] m a = m a"
    by (rule fold_rows [OF _ assms]) (simp del: upt_rec_numeral)
  ultimately show ?thesis unfolding scroll_def Let_def by simp
qed

lemma sint_small: "n < 2 ^ 31 \<Longrightarrow> sint (of_nat n :: i32) = int n"
  by (simp add: signed_of_nat signed_take_bit_int_eq_self)

lemma cursorD:
  assumes "cursor n k c s"
  shows "line_adr s = next_line_adrs s \<longleftrightarrow> c = 80" "line_adr s = next_line_adrs s - 160 \<longleftrightarrow> c = 0"
proof -
  from assms have k: "1 \<le> k" "k \<le> 24" "c \<le> 80" by (auto simp: cursor_def)
  then obtain j where j: "k = Suc j" by (cases k) auto
  with assms have l: "line_adr s = VGA_VIRTUAL_ADDRESS s + of_nat (160 * j + 2 * c)"
    and nx: "next_line_adrs s = VGA_VIRTUAL_ADDRESS s + of_nat (160 * Suc j)" by (auto simp: cursor_def)
  have b: "160 * j + 2 * c < 2 ^ 64" "160 * Suc j < 2 ^ 64" "160 * j < 2 ^ 64" using k j by simp_all
  show "line_adr s = next_line_adrs s \<longleftrightarrow> c = 80" unfolding l nx cell_eq [OF b(1,2)] by auto
  have "next_line_adrs s - 160 = VGA_VIRTUAL_ADDRESS s + of_nat (160 * j)" by (simp add: nx algebra_simps)
  then show "line_adr s = next_line_adrs s - 160 \<longleftrightarrow> c = 0" unfolding l using cell_eq [OF b(1,3)] by auto
qed

lemma check_ok:
  assumes c: "cursor n k c s" and n: "Suc n < 2 ^ 31"
  shows "\<exists>n' k' c'. cursor n' k' c' (check_if_line_full s) \<and> c' < 80 \<and> n' \<le> Suc n \<and> rows_only s (check_if_line_full s)"
proof (cases "c = 80")
  case False
  with c have "c < 80" by (simp add: cursor_def)
  moreover have "check_if_line_full s = s" using cursorD(1) [OF c] False by (simp add: check_if_line_full_def)
  ultimately show ?thesis using c by (intro exI [of _ n] exI [of _ k] exI [of _ c]) simp
next
  case True
  from c have v: "v_line_count s + 1 = of_nat (Suc n)" by (simp add: cursor_def)
  have gt: "24 < sint (v_line_count s + 1) \<longleftrightarrow> 24 < Suc n" unfolding v using sint_small [of "Suc n"] n by simp
  have full: "line_adr s = next_line_adrs s" using cursorD(1) [OF c] True by simp
  show ?thesis
  proof (cases "24 < Suc n")
    case True
    with c have "k = 24" by (auto simp: cursor_def)
    with c True gt full v have "cursor (Suc n) 24 0 (check_if_line_full s)"
      by (simp add: check_if_line_full_def cursor_def Let_def algebra_simps)
    moreover have "rows_only s (check_if_line_full s)"
      using full gt True by (simp add: check_if_line_full_def Let_def rows_only_def scroll_rows)
    ultimately show ?thesis by (intro exI [of _ "Suc n"] exI [of _ 24] exI [of _ 0]) simp
  next
    case False
    with c have "n = k" by (auto simp: cursor_def)
    with c False gt full v have "cursor (Suc n) (Suc k) 0 (check_if_line_full s)"
      by (simp add: check_if_line_full_def cursor_def Let_def algebra_simps)
    moreover have "rows_only s (check_if_line_full s)"
      using full gt False by (simp add: check_if_line_full_def Let_def rows_only_def)
    ultimately show ?thesis by (intro exI [of _ "Suc n"] exI [of _ "Suc k"] exI [of _ 0]) simp
  qed
qed

text \<open>One character: written in its cell, the cursor moves right.\<close>

lemma step_right:
  assumes "cursor n k c s" and "c < 80"
  shows "cursor n k (Suc c) ((poke (line_adr s) x s)\<lparr>line_adr := line_adr s + 2\<rparr>)" "rows_only s (poke (line_adr s) x s)"
proof -
  from assms have k: "1 \<le> k" "k \<le> 24" "line_adr s = VGA_VIRTUAL_ADDRESS s + of_nat (160 * (k - 1) + 2 * c)"
    by (auto simp: cursor_def)
  show "cursor n k (Suc c) ((poke (line_adr s) x s)\<lparr>line_adr := line_adr s + 2\<rparr>)"
    using assms by (simp add: cursor_def poke_def algebra_simps)
  show "rows_only s (poke (line_adr s) x s)"
    unfolding k(3) by (rule rows_only_poke) (use k assms(2) in linarith)
qed

text \<open>
  \<open>prints m s r\<close>: a printing operation that ends, having counted at most \<open>m\<close> lines, with the
  cursor in a row and nothing changed outside the rows.
\<close>

definition ready :: "nat \<Rightarrow> 'a console_scheme \<Rightarrow> bool" where
  "ready n s \<longleftrightarrow> (\<exists>m k c. cursor m k c s \<and> c < 80 \<and> m \<le> n)"

definition prints :: "nat \<Rightarrow> nat \<Rightarrow> 'a console_scheme \<Rightarrow> 'a console_scheme option \<Rightarrow> bool" where
  "prints n m s r \<longleftrightarrow> (\<exists>s'. r = Some s' \<and> ready (n + m) s' \<and> rows_only s s')"

lemma ready_mono: "ready n s \<Longrightarrow> n \<le> n' \<Longrightarrow> ready n' s"
  by (auto simp: ready_def intro: le_trans)

lemma prints_done: "ready n s \<Longrightarrow> prints n m s (Some s)"
  using ready_mono by (fastforce simp: prints_def)

lemma prints_bind:
  assumes "prints n m s r" and "\<And>s'. ready (n + m) s' \<Longrightarrow> prints (n + m) l s' (f s')"
  shows "prints n (m + l) s (Option.bind r f)"
  using assms rows_only_trans by (fastforce simp: prints_def add.assoc)

lemma prints_mono: "prints n m s r \<Longrightarrow> m \<le> m' \<Longrightarrow> prints n m' s r"
  using ready_mono [of "n + m" _ "n + m'"] by (auto simp: prints_def)

lemma put_char_ok:
  assumes "ready n s" and "Suc n < 2 ^ 31"
  shows "prints n 1 s (Some (put_char x s))"
proof -
  from assms(1) obtain m k c where c: "cursor m k c s" "c < 80" "m \<le> n" by (auto simp: ready_def)
  note S = step_right [OF c(1,2), of x]
  have m: "Suc m < 2 ^ 31" using assms(2) c(3) by simp
  let ?t = "(poke (line_adr s) x s)\<lparr>line_adr := line_adr s + 2\<rparr>"
  have e: "put_char x s = check_if_line_full ?t" by (simp add: put_char_def Let_def poke_def)
  have r: "rows_only s ?t" using S(2) by simp
  from check_ok [OF S(1) m] obtain m' k' c' where
    "cursor m' k' c' (check_if_line_full ?t)" "c' < 80" "m' \<le> Suc m" "rows_only ?t (check_if_line_full ?t)" by blast
  with c(3) rows_only_trans [OF r] show ?thesis unfolding prints_def ready_def e by fastforce
qed

lemma pad_line_ok:
  assumes "cursor n k c s"
  shows "\<exists>s'. pad_line s = Some s' \<and> cursor n k 80 s' \<and> rows_only s s'"
  using assms
proof (induction "80 - c" arbitrary: c s)
  case 0
  then have "c = 80" by (simp add: cursor_def)
  with 0 cursorD(1) [OF 0(2)] show ?case by (intro exI [of _ s]) (simp add: pad_line.simps)
next
  case (Suc d)
  then have c: "c < 80" by simp
  note S = step_right [OF Suc.prems c, of "CHR 0x20"]
  have "d = 80 - Suc c" using Suc.hyps(2) by simp
  from Suc.hyps(1) [OF this S(1)] obtain s' where s': "pad_line ((poke (line_adr s) (CHR 0x20) s)\<lparr>line_adr := line_adr s + 2\<rparr>) = Some s'"
    "cursor n k 80 s'" "rows_only ((poke (line_adr s) (CHR 0x20) s)\<lparr>line_adr := line_adr s + 2\<rparr>) s'" by blast
  have "rows_only s ((poke (line_adr s) (CHR 0x20) s)\<lparr>line_adr := line_adr s + 2\<rparr>)" using S(2) by simp
  from rows_only_trans [OF this s'(3)] have "rows_only s s'" .
  moreover have "line_adr s \<noteq> next_line_adrs s" using cursorD(1) [OF Suc.prems] c by simp
  then have "pad_line s = Some s'" by (subst pad_line.simps) (simp add: s'(1))
  ultimately show ?case using s'(2) by blast
qed

lemma new_line_ok:
  assumes "ready n s" and "Suc n < 2 ^ 31"
  shows "prints n 1 s (new_line s)"
proof -
  from assms(1) obtain m k c where c: "cursor m k c s" "c < 80" "m \<le> n" by (auto simp: ready_def)
  from pad_line_ok [OF c(1)] obtain t where t: "pad_line s = Some t" "cursor m k 80 t" "rows_only s t" by blast
  have "Suc m < 2 ^ 31" using assms(2) c(3) by simp
  from check_ok [OF t(2) this] obtain m' k' c' where
    "cursor m' k' c' (check_if_line_full t)" "c' < 80" "m' \<le> Suc m" "rows_only t (check_if_line_full t)" by blast
  with c(3) t rows_only_trans [OF t(3)] show ?thesis unfolding prints_def ready_def new_line_def by fastforce
qed

lemma carriage_return_ok:
  assumes "ready n s"
  shows "prints n 0 s (carriage_return s)"
proof -
  have "\<exists>s'. carriage_return s = Some s' \<and> cursor m k 0 s' \<and> rows_only s s'" if "cursor m k c s" for m k c and s :: "'a console_scheme"
    using that
  proof (induction c arbitrary: s)
    case 0
    with cursorD(2) [OF 0] show ?case by (intro exI [of _ s]) (simp add: carriage_return.simps)
  next
    case (Suc c)
    have "cursor m k c (s\<lparr>line_adr := line_adr s - 2\<rparr>)" using Suc.prems by (simp add: cursor_def algebra_simps)
    from Suc.IH [OF this] cursorD(2) [OF Suc.prems] show ?case
      by (auto simp: carriage_return.simps [of s] rows_only_def)
  qed
  with assms show ?thesis unfolding ready_def prints_def by fastforce
qed

section \<open>Digits\<close>

lemma int_div_less_iff: "0 < b \<Longrightarrow> x div b < c \<longleftrightarrow> x < c * (b :: int)"
proof -
  assume b: "0 < b"
  have x: "x = x div b * b + x mod b" "0 \<le> x mod b" "x mod b < b" using b by simp_all
  show "x div b < c \<longleftrightarrow> x < c * b"
  proof
    assume "x div b < c"
    then have "(x div b + 1) * b \<le> c * b" using b by (intro mult_right_mono) simp_all
    then have "x div b * b + b \<le> c * b" by (simp add: algebra_simps)
    with x show "x < c * b" by linarith
  next
    assume l: "x < c * b"
    show "x div b < c"
    proof (rule ccontr)
      assume "\<not> x div b < c"
      then have "c * b \<le> x div b * b" using b by (intro mult_right_mono) simp_all
      with x l show False by linarith
    qed
  qed
qed

text \<open>The value of a list of digits, most significant first.\<close>

definition digits_value :: "int \<Rightarrow> int list \<Rightarrow> int" where
  "digits_value b ds = foldl (\<lambda>v d. v * b + d) 0 ds"

lemma foldl_digits: "foldl (\<lambda>v d. v * b + d) a ds = a * b ^ length ds + digits_value b ds"
proof (induction ds arbitrary: a)
  case Nil
  then show ?case by (simp add: digits_value_def)
next
  case (Cons d ds)
  show ?case
    unfolding digits_value_def foldl_Cons Cons [of "a * b + d"] Cons [of "0 * b + d"] by (simp add: algebra_simps)
qed

lemma digits_value_Cons: "digits_value b (d # ds) = d * b ^ length ds + digits_value b ds"
  unfolding digits_value_def foldl_Cons using foldl_digits [of b "0 * b + d" ds] by (simp add: digits_value_def)

lemma digit_loop_power:
  assumes "1 < b" and "0 \<le> y" and "y < b ^ Suc e"
  shows "length (digit_loop b y (b ^ e)) = Suc e \<and> digits_value b (digit_loop b y (b ^ e)) = y \<and>
    (\<forall>d \<in> set (digit_loop b y (b ^ e)). 0 \<le> d \<and> d < b)"
  using assms(2,3)
proof (induction e arbitrary: y)
  case 0
  have "1 div b = 0" using assms(1) by simp
  with 0 assms(1) show ?case
    by (simp add: digit_loop.simps [of b y] digit_loop.simps [of b 0] digits_value_Cons) (simp add: digits_value_def)
next
  case (Suc e)
  have p: "0 < b ^ Suc e" and q: "b ^ Suc e div b = b ^ e" using assms(1) by simp_all
  have m: "0 \<le> y mod b ^ Suc e" "y mod b ^ Suc e < b ^ Suc e" using p by simp_all
  note IH = Suc.IH [OF m]
  have d: "0 \<le> y div b ^ Suc e" using Suc.prems(1) p by (simp add: pos_imp_zdiv_nonneg_iff)
  have "y < b * b ^ Suc e" using Suc.prems(2) by simp
  then have "y div b ^ Suc e < b" using int_div_less_iff [OF p] by simp
  moreover have "digit_loop b y (b ^ Suc e) = y div b ^ Suc e # digit_loop b (y mod b ^ Suc e) (b ^ e)"
    using assms(1) p q by (simp only: digit_loop.simps [of b y]) simp
  moreover have "y div b ^ Suc e * b ^ Suc e + y mod b ^ Suc e = y" by (rule div_mult_mod_eq)
  ultimately show ?case using IH d by (simp add: digits_value_Cons)
qed

lemma top_power_form:
  assumes "1 < b" and "0 \<le> x"
  shows "\<exists>e. top_power b x dig = dig * b ^ e \<and> x < b ^ Suc e \<and> (e = 0 \<or> b ^ e \<le> x)"
  using assms
proof (induction b x dig rule: top_power.induct)
  case (1 b x dig)
  show ?case
  proof (cases "b \<le> x")
    case True
    have "0 \<le> x div b" using 1(2,3) by (simp add: pos_imp_zdiv_nonneg_iff)
    with 1 True obtain e where e: "top_power b (x div b) (dig * b) = dig * b * b ^ e" "x div b < b ^ Suc e"
      "e = 0 \<or> b ^ e \<le> x div b" by auto
    have b: "0 < b" using 1(2) by simp
    have "x < b ^ Suc e * b" using e(2) int_div_less_iff [OF b] by simp
    moreover have "b ^ e \<le> x div b"
    proof (cases "e = 0")
      case True
      have "b div b \<le> x div b" by (rule zdiv_mono1) (use \<open>b \<le> x\<close> b in auto)
      with True b show ?thesis by simp
    qed (use e(3) in simp)
    then have "b ^ e * b \<le> x" using int_div_less_iff [OF b, of x "b ^ e"] by linarith
    ultimately show ?thesis
      using e(1) True 1(2) by (intro exI [of _ "Suc e"]) (simp add: top_power.simps [of b x] algebra_simps)
  next
    case False
    then show ?thesis using 1(2) by (intro exI [of _ 0]) (simp add: top_power.simps [of b x])
  qed
qed

text \<open>The digits of a number below a power of the base: at most that many.\<close>

lemma digits_ok:
  assumes "1 < b" and "0 \<le> x" and "x < b ^ n" and "0 < n"
  shows "length (digit_loop b x (top_power b x 1)) \<le> n \<and> digits_value b (digit_loop b x (top_power b x 1)) = x \<and>
    (\<forall>d \<in> set (digit_loop b x (top_power b x 1)). 0 \<le> d \<and> d < b)"
proof -
  obtain e where e: "top_power b x 1 = 1 * b ^ e" "x < b ^ Suc e" "e = 0 \<or> b ^ e \<le> x"
    using top_power_form [OF assms(1,2)] by blast
  have "e < n"
  proof (cases "e = 0")
    case False
    with e(3) assms(3) have "b ^ e < b ^ n" by simp
    with assms(1) show ?thesis by (simp add: power_strict_increasing_iff)
  qed (use assms(4) in simp)
  with digit_loop_power [OF assms(1,2) e(2)] show ?thesis by (simp add: e(1))
qed

text \<open>A negative number is below the base: one (strange) digit.\<close>

lemma digits_negative:
  assumes "1 < b" and "x < 0"
  shows "digit_loop b x (top_power b x 1) = [x]"
proof -
  have "1 div b = 0" using assms(1) by simp
  then show ?thesis
    using assms by (simp add: top_power.simps [of b x] digit_loop.simps [of b x] digit_loop.simps [of b _ 0])
qed

lemma dec_text_length: "x < 10 ^ 20 \<Longrightarrow> length (dec_text x) \<le> 20"
  using digits_ok [of 10 x 20] digits_negative [of 10 x] by (cases "0 \<le> x") (simp_all add: dec_text_def)

lemma hex_text_length: "x < 16 ^ 16 \<Longrightarrow> length (hex_text x) \<le> 18"
  using digits_ok [of 16 x 16] digits_negative [of 16 x] by (cases "0 \<le> x") (simp_all add: hex_text_def)

lemma number_bounds: "sint (w :: i32) < 10 ^ 20" "sint (w :: i32) < 16 ^ 16" "uint (v :: u64) < 10 ^ 20" "uint (v :: u64) < 16 ^ 16"
  using sint_lt [of w] unsigned_less [of v, where ?'a = int] by simp_all

section \<open>What a format needs\<close>

text \<open>Formats without a backspace whose conversions have their arguments.\<close>

fun fmt_ok :: "string \<Rightarrow> karg list \<Rightarrow> bool" where
  "fmt_ok [] args \<longleftrightarrow> True"
| "fmt_ok [c] args \<longleftrightarrow> c \<noteq> CHR ''%'' \<and> c \<noteq> CHR 0x08"
| "fmt_ok (c # d # fmt) args \<longleftrightarrow>
     (if c \<noteq> CHR ''%'' then c \<noteq> CHR 0x08 \<and> fmt_ok (d # fmt) args
      else if d = CHR ''d'' \<or> d = CHR ''x'' \<or> d = CHR ''p'' \<or> d = CHR ''l'' \<and> fmt \<noteq> [] \<and> hd fmt = CHR ''d''
      then (case args of KNum _ # args' \<Rightarrow> fmt_ok fmt args' | _ \<Rightarrow> False)
      else if d = CHR ''s'' then (case args of KStr _ # args' \<Rightarrow> fmt_ok fmt args' | _ \<Rightarrow> False)
      else if d = CHR ''c'' then (case args of KChr _ # args' \<Rightarrow> fmt_ok fmt args' | _ \<Rightarrow> False)
      else fmt_ok fmt args)"

text \<open>A bound on the cells a call writes, hence on the lines it can fill.\<close>

fun arg_cells :: "karg \<Rightarrow> nat" where
  "arg_cells (KNum _) = 20"
| "arg_cells (KStr x) = length x"
| "arg_cells (KChr _) = 1"

definition cells :: "string \<Rightarrow> karg list \<Rightarrow> nat" where
  "cells fmt args = length fmt + sum_list (map arg_cells args)"

lemma print_chars_ok:
  assumes "ready n s" and "n + length xs < 2 ^ 31"
  shows "prints n (length xs) s (print_chars xs s)"
  using assms
proof (induction xs arbitrary: n s)
  case Nil
  then show ?case by (simp add: prints_done)
next
  case (Cons x xs)
  have n: "Suc n < 2 ^ 31" using Cons.prems(2) by simp
  have "prints n (1 + length xs) s (Option.bind (Some (put_char x s)) (print_chars xs))"
    by (rule prints_bind [OF put_char_ok [OF Cons.prems(1) n]]) (rule Cons.IH, simp, use Cons.prems(2) in simp)
  then show ?case by simp
qed

lemma print_str_ok:
  assumes "ready n s" and "n + length xs < 2 ^ 31"
  shows "prints n (length xs) s (print_str xs s)"
  using assms
proof (induction xs arbitrary: n s)
  case Nil
  then show ?case by (simp add: prints_done)
next
  case (Cons x xs)
  have n: "Suc n < 2 ^ 31" using Cons.prems(2) by simp
  have IH: "prints (n + 1) (length xs) s' (print_str xs s')" if "ready (n + 1) s'"
    for s' :: "'a console_scheme"
    by (rule Cons.IH [OF that]) (use Cons.prems(2) in simp)
  have cr: "prints n 1 s (carriage_return s)" by (rule prints_mono [OF carriage_return_ok [OF Cons.prems(1)]]) simp
  have "prints n (1 + length xs) s (Option.bind (new_line s) (print_str xs))"
    "prints n (1 + length xs) s (Option.bind (carriage_return s) (print_str xs))"
    "prints n (1 + length xs) s (Option.bind (Some (put_char x s)) (print_str xs))"
    by (rule prints_bind [OF new_line_ok [OF Cons.prems(1) n] IH] prints_bind [OF cr IH]
        prints_bind [OF put_char_ok [OF Cons.prems(1) n] IH], assumption)+
  then show ?case by simp
qed

text \<open>One conversion or character, then the rest of the format.\<close>

lemma prints_then:
  assumes "prints n m s r" and "m + l \<le> k"
    and "\<And>s'. ready (n + m) s' \<Longrightarrow> prints (n + m) l s' (f s')"
  shows "prints n k s (Option.bind r f)"
  by (rule prints_mono [OF prints_bind [OF assms(1,3)] assms(2)])

lemma print_loop_ok:
  fixes s :: "'a console_scheme"
  assumes "ready n s" and "fmt_ok fmt args" and "n + cells fmt args < 2 ^ 31"
  shows "prints n (cells fmt args) s (print_loop fmt args s)"
  using assms
proof (induction "length fmt" arbitrary: fmt args n s rule: less_induct)
  case less
  note r = less.prems(1) and n = less.prems(3)
  consider "fmt = []" | c where "fmt = [c]" | c d f where "fmt = c # d # f" by (cases fmt rule: remdups_adj.cases) auto
  then show ?case
  proof cases
    case 1
    with r show ?thesis by (simp add: prints_done)
  next
    case (2 c)
    then have m: "Suc n < 2 ^ 31" and l: "1 \<le> cells fmt args" using n by (simp_all add: cells_def)
    from prints_mono [OF new_line_ok [OF r m] l] prints_mono [OF put_char_ok [OF r m] l, of c]
      prints_mono [OF carriage_return_ok [OF r], of "cells fmt args"] less.prems(2) 2
    show ?thesis by auto
  next
    case (3 c d f)
    have m: "Suc n < 2 ^ 31" using n 3 by (simp add: cells_def)
    have IH: "prints k (cells g as) s' (print_loop g as s')"
      if "ready k s'" "length g < length fmt" "fmt_ok g as" "k + cells g as < 2 ^ 31" for k g as and s' :: "'a console_scheme"
      using less.hyps [OF that(2,1,3,4)] .
    note nl = new_line_ok [OF r m] and pc = put_char_ok [OF r m] and cr = carriage_return_ok [OF r]
    show ?thesis
    proof (cases "c = CHR ''%''")
      case False
      with 3 less.prems(2) have ok: "c \<noteq> CHR 0x08" "fmt_ok (d # f) args" by auto
      have rest: "prints (n + k) (cells (d # f) args) s' (print_loop (d # f) args s')"
        if "ready (n + k) s'" "k \<le> 1" for k and s' :: "'a console_scheme"
        by (rule IH [OF that(1)]) (use 3 ok n that(2) in \<open>auto simp: cells_def\<close>)
      have le: "1 + cells (d # f) args \<le> cells fmt args" "0 + cells (d # f) args \<le> cells fmt args"
        by (simp_all add: 3 cells_def)
      from prints_then [OF nl le(1) rest] prints_then [OF cr le(2) rest] prints_then [OF pc le(1) rest, of c] 3 False ok(1)
      show ?thesis by auto
    next
      case True
      have rest: "prints (n + k) (cells f as) s' (print_loop f as s')"
        if "ready (n + k) s'" "fmt_ok f as" "k + cells f as \<le> cells fmt args" for k as and s' :: "'a console_scheme"
        by (rule IH [OF that(1) _ that(2)]) (use 3 n that(3) in auto)
      have chars: "prints n 20 s (print_chars xs s)" if "length xs \<le> 20" "20 \<le> cells fmt args" for xs
        by (rule prints_mono [OF print_chars_ok [OF r]]) (use that n in auto)
      have num: "prints n (cells fmt args) s (Option.bind (print_chars xs s) (print_loop f as))"
        if "length xs \<le> 20" "fmt_ok f as" "args = KNum x # as" for xs as x
        by (rule prints_then [OF chars _ rest]) (use that 3 in \<open>auto simp: cells_def\<close>)
      have lens: "length (dec_text (sint (w :: i32))) \<le> 20" "length (dec_text (uint (v :: u64))) \<le> 20"
        "length (hex_text (sint w)) \<le> 20" "length (hex_text (uint v)) \<le> 20" for v w
        using dec_text_length [OF number_bounds(1), of w] dec_text_length [OF number_bounds(3), of v]
          hex_text_length [OF number_bounds(2), of w] hex_text_length [OF number_bounds(4), of v] by linarith+
      consider "d \<in> {CHR ''d'', CHR ''x'', CHR ''p''} \<or> d = CHR ''l'' \<and> f \<noteq> [] \<and> hd f = CHR ''d''"
        | "d = CHR ''s''" | "d = CHR ''c''" | "d \<notin> {CHR ''d'', CHR ''x'', CHR ''p'', CHR ''s'', CHR ''c''}"
          "\<not> (d = CHR ''l'' \<and> f \<noteq> [] \<and> hd f = CHR ''d'')" by auto
      then show ?thesis
      proof cases
        case 1
        with less.prems(2) 3 True obtain x as where as: "args = KNum x # as" "fmt_ok f as"
          by (auto split: list.splits karg.splits)
        note N = num [OF lens(1) as(2,1), of "ucast x"] num [OF lens(2) as(2,1), of x]
          num [OF lens(3) as(2,1), of "ucast x"] num [OF lens(4) as(2,1), of x]
        from 1 N as(1) 3 True show ?thesis by auto
      next
        case 2
        with less.prems(2) 3 True obtain x as where as: "args = KStr x # as" "fmt_ok f as"
          by (auto split: list.splits karg.splits)
        have "prints n (length x) s (print_str x s)" by (rule print_str_ok [OF r]) (use n 3 as in \<open>simp add: cells_def\<close>)
        moreover have le: "length x + cells f as \<le> cells fmt args" by (simp add: 3 as cells_def)
        ultimately show ?thesis using prints_then [OF _ le rest, of s "print_str x s"] 2 as 3 True le by simp
      next
        case c: 3
        with less.prems(2) 3 True obtain x as where as: "args = KChr x # as" "fmt_ok f as"
          by (auto split: list.splits karg.splits)
        have le: "1 + cells f as \<le> cells fmt args" by (simp add: 3 as cells_def)
        from prints_then [OF nl le rest] prints_then [OF pc le rest, of x] c as 3 True le show ?thesis by auto
      next
        case 4
        with less.prems(2) 3 True have ok: "fmt_ok f args" by auto
        have le: "1 + cells f args \<le> cells fmt args" "0 + cells f args \<le> cells fmt args" by (simp_all add: 3 cells_def)
        have "prints n (cells f args) s (print_loop f args s)" using rest [of 0 s args] r ok le(2) by simp
        from prints_mono [OF this, of "cells fmt args"] prints_then [OF pc le(1) rest, of "CHR ''%''"] 4 ok 3 True le
        show ?thesis by auto
      qed
    qed
  qed
qed

lemma fold_paint:
  fixes a b :: u64
  shows "3840 \<le> unat (a - b) \<Longrightarrow> fold (\<lambda>i m. m(b + 1 + of_nat (2 * i) := CHR 0x07)) [0..<1920] m a = m a"
proof -
  assume a: "3840 \<le> unat (a - b)"
  have "fold (\<lambda>i m. m(b + of_nat i := CHR 0x07)) (map (\<lambda>i. 2 * i + 1) [0..<1920]) m a = m a"
    by (rule fold_rows [OF _ a]) (auto simp del: upt_rec_numeral)
  then show ?thesis by (simp add: fold_map comp_def algebra_simps del: upt_rec_numeral)
qed

lemma paint_white_ok: "rows_only s (paint_white s)" "ready n (paint_white s) = ready n s"
  by (simp_all add: rows_only_def paint_white_def ready_def cursor_def fold_paint del: upt_rec_numeral of_nat_mult)

lemma bar_other: "(\<And>i. i < 2 * n \<Longrightarrow> a \<noteq> p + of_nat i) \<Longrightarrow> vmem (bar n p str color s) a = vmem s a"
proof (induction n arbitrary: p str s)
  case (Suc n)
  have "a \<noteq> (p + 2) + of_nat i" if "i < 2 * n" for i
    using Suc.prems [of "i + 2"] that by (simp add: algebra_simps)
  with Suc.IH Suc.prems [of 0] Suc.prems [of 1] show ?case by (simp add: Let_def poke_def)
qed simp

lemma bar_cell:
  assumes "i < n" and "2 * n < 2 ^ 64"
  shows "vmem (bar n p str color s) (p + of_nat (2 * i)) = (if i < length str then str ! i else CHR 0x20)"
    and "vmem (bar n p str color s) (p + of_nat (2 * i + 1)) = color"
proof -
  have "vmem (bar n p str color s) (p + of_nat (2 * i)) = (if i < length str then str ! i else CHR 0x20) \<and>
    vmem (bar n p str color s) (p + of_nat (2 * i + 1)) = color"
    using assms
  proof (induction n arbitrary: i p str s)
    case (Suc n)
    show ?case
    proof (cases i)
      case 0
      have "p + of_nat j \<noteq> (p + 2) + of_nat k" if "j \<le> 1" "k < 2 * n" for j k
        using cell_eq [of j "k + 2" p] that Suc.prems(2) by (simp add: algebra_simps)
      then have o: "vmem (bar n (p + 2) str' color s') (p + of_nat j) = vmem s' (p + of_nat j)" if "j \<le> 1" for j str' and s' :: "'a console_scheme"
        by (rule bar_other) (use that in simp_all)
      from o [of 0] o [of 1] 0 show ?thesis by (simp add: Let_def poke_def split: list.split)
    next
      case (Suc j)
      with Suc.prems have "j < n" "2 * n < 2 ^ 64" by simp_all
      note IH = Suc.IH [OF this, of "p + 2" "drop 1 str"]
      have e: "p + of_nat (2 * i) = (p + 2) + of_nat (2 * j)" "p + of_nat (2 * i + 1) = (p + 2) + of_nat (2 * j + 1)"
        by (simp_all add: Suc algebra_simps)
      have "drop 1 str ! j = str ! i" if "i < length str" using that by (cases str) (simp_all add: Suc)
      moreover have "j < length (drop 1 str) \<longleftrightarrow> i < length str" by (auto simp: Suc)
      ultimately show ?thesis unfolding e bar.simps Let_def using IH by simp
    qed
  qed simp
  then show "vmem (bar n p str color s) (p + of_nat (2 * i)) = (if i < length str then str ! i else CHR 0x20)"
    "vmem (bar n p str color s) (p + of_nat (2 * i + 1)) = color" by simp_all
qed

text \<open>The digit a character stands for.\<close>

definition char_digit :: "char \<Rightarrow> int" where
  "char_digit c = int (of_char c) - 48"

lemma char_digit_dec: "0 \<le> d \<Longrightarrow> d < 10 \<Longrightarrow> char_digit (dec_char d) = d"
  by (simp add: char_digit_def dec_char_def of_char_of)

lemma map_char_digit: "\<forall>d \<in> set ds. 0 \<le> d \<and> d < 10 \<Longrightarrow> map (char_digit \<circ> dec_char) ds = ds"
  by (induction ds) (simp_all add: char_digit_dec)

lemma digit_loop_hd:
  assumes "1 < b" and "e = 0 \<or> b ^ e \<le> x" and "0 < x" and "x < b ^ Suc e"
  shows "0 < hd (digit_loop b x (b ^ e))"
proof -
  have p: "0 < b ^ e" using assms(1) by simp
  have "b ^ e \<le> x" using assms(2,3) by auto
  then have "\<not> x div b ^ e < 1" using int_div_less_iff [OF p, of x 1] by simp
  then show ?thesis using assms(1) p by (simp add: digit_loop.simps [of b x])
qed

lemma top_power_small: "0 \<le> x \<Longrightarrow> x < 100 \<Longrightarrow> top_power 10 x 1 = (if x < 10 then 1 else 10)"
  using int_div_less_iff [of 10 x 10] by (simp add: top_power.simps [of 10 x] top_power.simps [of 10 "x div 10"])

section \<open>Properties\<close>

text \<open>C38: A \<open>kprintf\<close> whose format has no backspace and whose conversions have their arguments always
  returns, leaves the cursor inside the 24 rows and changes no byte of the memory outside them, as
  long as fewer than \<open>2^31\<close> lines have been counted since boot (\<open>cells\<close> bounds what this call adds).\<close>

theorem kprint_stays_on_screen:
  assumes "cursor n k c s" and "c < 80" and "fmt_ok fmt args" and "n + cells fmt args < 2 ^ 31"
  shows "\<exists>s' n' k' c'. kprint fmt args s = Some s' \<and> cursor n' k' c' s' \<and> c' < 80 \<and> n' \<le> n + cells fmt args \<and>
    VGA_VIRTUAL_ADDRESS s' = VGA_VIRTUAL_ADDRESS s \<and>
    (\<forall>a. 3840 \<le> unat (a - VGA_VIRTUAL_ADDRESS s) \<longrightarrow> vmem s' a = vmem s a)"
proof -
  have "ready n s" using assms(1,2) by (auto simp: ready_def)
  then have "prints n (cells fmt args) (paint_white s) (kprint fmt args s)"
    unfolding kprint_def by (intro print_loop_ok) (use assms paint_white_ok in auto)
  then obtain s' where s': "kprint fmt args s = Some s'" "ready (n + cells fmt args) s'" "rows_only (paint_white s) s'"
    by (auto simp: prints_def)
  from rows_only_trans [OF paint_white_ok(1) s'(3)] s' show ?thesis unfolding ready_def rows_only_def by blast
qed

lemma console0_cursor: "cursor 1 1 0 (console0 m)"
  by (simp add: cursor_def console0_def)

theorem kprint_stays_on_screen_witness:
  "\<exists>s'. kprint ''%d %s%c'' [KNum 12, KStr ''ab'', KChr CHR 0x0A] (console0 (\<lambda>_. CHR 0x00)) = Some s' \<and>
     vmem s' 0xb8F00 = CHR 0x00"
proof -
  have "fmt_ok ''%d %s%c'' [KNum 12, KStr ''ab'', KChr CHR 0x0A]"
    "1 + cells ''%d %s%c'' [KNum 12, KStr ''ab'', KChr CHR 0x0A] < 2 ^ 31" by (simp_all add: cells_def)
  from kprint_stays_on_screen [OF console0_cursor _ this, of "\<lambda>_. CHR 0x00"] obtain s' where
    "kprint ''%d %s%c'' [KNum 12, KStr ''ab'', KChr CHR 0x0A] (console0 (\<lambda>_. CHR 0x00)) = Some s'"
    "\<forall>a. 3840 \<le> unat (a - VGA_VIRTUAL_ADDRESS (console0 (\<lambda>_. CHR 0x00))) \<longrightarrow>
       vmem s' a = vmem (console0 (\<lambda>_. CHR 0x00)) a" by auto
  then show ?thesis by (simp add: console0_def)
qed

text \<open>The decimal text of a number that is not negative reads back as the number, has no leading zero (except
  that of 0), and \<open>itoa\<close> prints the same number, with exactly two digits below 100.\<close>

theorem number_text_roundtrip:
  assumes "0 \<le> x"
  shows "digits_value 10 (map char_digit (dec_text x)) = x \<and> (0 < x \<longrightarrow> hd (dec_text x) \<noteq> CHR ''0'') \<and>
    digits_value 10 (map char_digit (itoa x)) = x \<and> (x < 100 \<longrightarrow> length (itoa x) = 2)"
proof -
  obtain e where e: "top_power 10 x 1 = 1 * 10 ^ e" "x < 10 ^ Suc e" "e = 0 \<or> 10 ^ e \<le> x"
    using top_power_form [of 10 x 1] assms by auto
  let ?ds = "digit_loop 10 x (10 ^ e)"
  have D: "length ?ds = Suc e" "digits_value 10 ?ds = x" "\<forall>d \<in> set ?ds. 0 \<le> d \<and> d < 10"
    using digit_loop_power [of 10 x e] e(2) assms by auto
  have t: "dec_text x = map dec_char ?ds" by (simp add: dec_text_def e(1))
  have "hd ?ds \<in> set ?ds" using D(1) by (cases ?ds) auto
  then have "char_digit (hd (dec_text x)) = hd ?ds"
    using D(1,3) by (cases ?ds) (simp_all add: t char_digit_dec)
  then have h: "hd (dec_text x) \<noteq> CHR ''0''" if "0 < x"
    using digit_loop_hd [of 10 e x] e(2,3) that by (auto simp: char_digit_def)
  have i: "itoa x = (if e = 0 then ''0'' else []) @ map dec_char ?ds"
    using e(1) power_inject_exp [of "10 :: int" e 0] by (simp add: itoa_def Let_def)
  have z: "digits_value 10 (0 # ds) = digits_value 10 ds" for ds by (simp add: digits_value_def)
  have v: "digits_value 10 (map char_digit (itoa x)) = x"
    using D(2) map_char_digit [OF D(3)] z by (cases "e = 0") (simp_all add: i char_digit_def [of "CHR ''0''"])
  have "length (itoa x) = 2" if "x < 100"
  proof -
    have "(10 :: int) ^ e = (if x < 10 then 1 else 10)" using top_power_small [OF assms that] e(1) by simp
    then have "e = (if x < 10 then 0 else 1)" using power_strict_increasing [of 0 e "10 :: int"] power_strict_increasing [of 1 e "10 :: int"]
      by (cases "e = 0"; cases "1 < e") (auto split: if_splits)
    then show ?thesis using D(1) by (simp add: i split: if_splits)
  qed
  with h v D(2) map_char_digit [OF D(3)] show ?thesis by (simp add: t)
qed

theorem number_text_roundtrip_witness:
  "digits_value 10 (map char_digit (dec_text 4096)) = 4096 \<and> length (itoa 7) = 2"
  using number_text_roundtrip [of 4096] number_text_roundtrip [of 7] by simp

text \<open>The clock bar shows the text \<open>TIME(NYC): HH:MM:SS\<close>, with two digits for each of the three numbers
  below 100, followed by blanks, in the 25 cells of its bar, in the given colour; no other byte of
  the video memory changes, so neither the rows of \<open>kprintf\<close> nor the other two bars.\<close>

theorem time_bar_shows_time:
  assumes "s' = time_bar h m sec color s"
  shows "(\<forall>i < 25. vmem s' (VGA_VIRTUAL_ADDRESS s + 0xF00 + of_nat (2 * i)) =
        (''TIME(NYC): '' @ itoa h @ '':'' @ itoa m @ '':'' @ itoa sec @ replicate 25 CHR 0x20) ! i \<and>
      vmem s' (VGA_VIRTUAL_ADDRESS s + 0xF00 + of_nat (2 * i + 1)) = color) \<and>
    (\<forall>a. (\<forall>i < 50. a \<noteq> VGA_VIRTUAL_ADDRESS s + 0xF00 + of_nat i) \<longrightarrow> vmem s' a = vmem s a)"
proof -
  let ?t = "''TIME(NYC): '' @ itoa h @ '':'' @ itoa m @ '':'' @ itoa sec" and ?p = "VGA_VIRTUAL_ADDRESS s + 0xF00"
  have e: "s' = bar 25 ?p ?t color s" by (simp add: assms time_bar_def time_concatenate_def)
  have "(?t @ replicate 25 CHR 0x20) ! i = (if i < length ?t then ?t ! i else CHR 0x20)" if "i < 25" for i
    using that by (simp only: nth_append nth_replicate split: if_split)
  then have "vmem s' (?p + of_nat (2 * i)) = (?t @ replicate 25 CHR 0x20) ! i" "vmem s' (?p + of_nat (2 * i + 1)) = color"
    if "i < 25" for i
    unfolding e using bar_cell [OF that, of ?p ?t color s] that by simp_all
  moreover have "vmem s' a = vmem s a" if "\<forall>i < 50. a \<noteq> ?p + of_nat i" for a
    unfolding e by (rule bar_other) (use that in simp)
  ultimately have "(\<forall>i < 25. vmem s' (?p + of_nat (2 * i)) = (?t @ replicate 25 CHR 0x20) ! i \<and>
      vmem s' (?p + of_nat (2 * i + 1)) = color) \<and> (\<forall>a. (\<forall>i < 50. a \<noteq> ?p + of_nat i) \<longrightarrow> vmem s' a = vmem s a)"
    by blast
  then show ?thesis by (simp only: append_assoc)
qed

theorem time_bar_shows_time_witness:
  "vmem (time_bar 9 30 5 CHR 0x0E (console0 (\<lambda>_. CHR 0x00))) (0xb8000 + 0xF00 + 22) = CHR ''0'' \<and>
   vmem (time_bar 9 30 5 CHR 0x0E (console0 (\<lambda>_. CHR 0x00))) 0xb8000 = CHR 0x00"
proof -
  let ?s = "console0 (\<lambda>_. CHR 0x00)"
  note T = time_bar_shows_time [of "time_bar 9 30 5 CHR 0x0E ?s" 9 30 5 "CHR 0x0E" ?s, OF refl]
  have v: "VGA_VIRTUAL_ADDRESS ?s = 0xb8000" by (simp add: console0_def)
  have d: "top_power 10 9 1 = 1" by (simp add: top_power_small)
  have "digit_loop 10 9 1 = [9]" using digit_loop_power [of 10 9 0] by (auto simp: length_Suc_conv digits_value_def)
  then have i: "itoa 9 = ''09''" by (simp add: itoa_def d dec_char_def) code_simp
  from T [THEN conjunct1, rule_format, of 11] have
    "vmem (time_bar 9 30 5 CHR 0x0E ?s) (0xb8000 + 0xF00 + 22) = CHR ''0''" by (simp add: v i)
  moreover have "(0xb8000 :: u64) \<noteq> 0xb8000 + 0xF00 + of_nat j" if "j < 50" for j
    using cell_eq [of 0 "0xF00 + j" "0xb8000"] that by simp
  with T [THEN conjunct2, rule_format, of "0xb8000"] have "vmem (time_bar 9 30 5 CHR 0x0E ?s) 0xb8000 = CHR 0x00"
    by (simp add: v) (simp add: console0_def)
  ultimately show ?thesis by simp
qed

end
