(* ===== verification/Kernel.thy ===== *)
theory Kernel
  imports PageMap Console
begin

text \<open>
  The kernel's objects (\<open>include/sys/task.h\<close>) and its global state. Task and VMA structures
  live in pages of their own that \<open>kmalloc\<close> hands out; the model keeps them in two typed maps
  from addresses (\<open>tasks\<close>, \<open>vmas\<close>) beside the physical memory, which holds page tables, stacks
  and user pages. What the kernel prints is kept as the list \<open>klog\<close> of its \<open>kprintf\<close> calls, what
  it writes to I/O ports as the list \<open>ports\<close>. The assembly routines of \<open>sys/task.s\<close> that enter a
  task are operations on the CPU part of the state.
\<close>

section \<open>Objects\<close>

record Registers =
  rax :: u64
  rbx :: u64
  rcx :: u64
  rdx :: u64
  rsi :: u64
  rdi :: u64
  userRsp :: u64
  rbp :: u64
  rip :: u64
  rflags :: u64
  cr3 :: u64
  kernelRsp :: u64
  reg_count :: u64
  reg_add :: u64

record VMA =
  v_mm :: u64
  v_start :: u64
  v_end :: u64
  mmsz :: u64
  v_flags :: u64
  grows_down :: u64
  v_file :: u64
  vma_next :: u64
  v_offset :: u64
  isNextFreed :: u64
  pageNumber :: u64

text \<open>The kernel only uses two fields of \<open>mm_struct\<close>.\<close>

record MM =
  mm_count :: i32
  mmap :: u64

record Task =
  pid_t :: i32
  ppid_t :: i32
  startHH :: i32
  startMM :: i32
  startSS :: i32
  endHH :: i32
  endMM :: i32
  endSS :: i32
  currAlarmCount :: u64
  expectedAlarmCount :: u64
  currSleepCount :: u64
  expectedSleepCount :: u64
  exeName :: string
  regs :: Registers
  task_next :: u64
  task_state :: u64
  memMap :: MM
  fd_pointers :: "nat \<Rightarrow> u64"
  fd_count :: i32
  functionPointer :: u64

definition zero_regs :: Registers where
  "zero_regs = \<lparr>rax = 0, rbx = 0, rcx = 0, rdx = 0, rsi = 0, rdi = 0, userRsp = 0, rbp = 0, rip = 0,
     rflags = 0, cr3 = 0, kernelRsp = 0, reg_count = 0, reg_add = 0\<rparr>"

definition zero_vma :: VMA where
  "zero_vma = \<lparr>v_mm = 0, v_start = 0, v_end = 0, mmsz = 0, v_flags = 0, grows_down = 0, v_file = 0,
     vma_next = NULL, v_offset = 0, isNextFreed = 0, pageNumber = 0\<rparr>"

definition zero_task :: Task where
  "zero_task = \<lparr>pid_t = 0, ppid_t = 0, startHH = 0, startMM = 0, startSS = 0, endHH = 0, endMM = 0,
     endSS = 0, currAlarmCount = 0, expectedAlarmCount = 0, currSleepCount = 0, expectedSleepCount = 0,
     exeName = [], regs = zero_regs, task_next = NULL, task_state = 0, memMap = \<lparr>mm_count = 0, mmap = NULL\<rparr>,
     fd_pointers = (\<lambda>_. 0), fd_count = 0, functionPointer = NULL\<rparr>"

text \<open>
  The keyboard's input buffer of \<open>sys/idt.c\<close>; \<open>kbuf_end\<close> is its variable \<open>end\<close>, \<open>chars\<close> the
  characters the buffer's page holds.
\<close>

record kbd =
  stdStart :: u64
  writePosition :: u64
  readPosition :: u64
  kbuf_end :: u64
  indicator :: i32
  readline :: i32
  chars :: "u64 \<Rightarrow> char"

section \<open>The global state\<close>

record kernel = vm +
  tasks :: "u64 \<Rightarrow> Task"
  vmas :: "u64 \<Rightarrow> VMA"
  runningThread :: u64
  deleteQueue :: u64
  pidCount :: i32
  pageNum :: i32
  foregroundPid :: i32
  switchRsp :: u64
  switchRegs :: Registers  \<comment> \<open>\<open>switchRax\<close> to \<open>switchRbp\<close>, saved on an interrupt\<close>
  userRegs :: Registers  \<comment> \<open>\<open>userRbx\<close> to \<open>userRflags\<close>, \<open>userRIP\<close>, \<open>userRSP\<close>, saved on a system call\<close>
  mutex :: i32
  tss_rsp0 :: u64
  cpu_rsp :: u64
  cpu_regs :: Registers
  rtc_hour :: u8
  rtc_minute :: u8
  rtc_second :: u8
  errorCode :: u64
  kbd_state :: kbd
  klog :: "(string \<times> karg list) list"
  ports :: "(u8 \<times> u16) list"

text \<open>
  How a kernel routine ends: it returns a value to its caller, or it enters a task (\<open>iretq\<close>) and
  never returns. A routine that loops for ever has no result at all, \<^term>\<open>None\<close>.
\<close>

datatype ctl = Returned u64 | Entered

definition upd_task :: "u64 \<Rightarrow> (Task \<Rightarrow> Task) \<Rightarrow> 'a kernel_scheme \<Rightarrow> 'a kernel_scheme" where
  "upd_task t f s = s\<lparr>tasks := (tasks s)(t := f (tasks s t))\<rparr>"

definition upd_vma :: "u64 \<Rightarrow> (VMA \<Rightarrow> VMA) \<Rightarrow> 'a kernel_scheme \<Rightarrow> 'a kernel_scheme" where
  "upd_vma v f s = s\<lparr>vmas := (vmas s)(v := f (vmas s v))\<rparr>"

definition upd_regs :: "u64 \<Rightarrow> (Registers \<Rightarrow> Registers) \<Rightarrow> 'a kernel_scheme \<Rightarrow> 'a kernel_scheme" where
  "upd_regs t f = upd_task t (\<lambda>k. k\<lparr>regs := f (regs k)\<rparr>)"

text \<open>The two \<open>next\<close> fields as functions on pointers, for the loops.\<close>

abbreviation tnext :: "'a kernel_scheme \<Rightarrow> u64 \<Rightarrow> u64" where
  "tnext s p \<equiv> task_next (tasks s p)"

abbreviation vnext :: "'a kernel_scheme \<Rightarrow> u64 \<Rightarrow> u64" where
  "vnext s p \<equiv> vma_next (vmas s p)"

text \<open>\<open>(Task* )kmalloc()\<close> and \<open>(VMA* )kmalloc()\<close>: a cleared page seen as a structure.\<close>

definition kmalloc_task :: "'a kernel_scheme \<Rightarrow> u64 \<times> 'a kernel_scheme" where
  "kmalloc_task s = (case kmalloc s of (p, s1) \<Rightarrow> (p, upd_task p (\<lambda>_. zero_task) s1))"

definition kmalloc_vma :: "'a kernel_scheme \<Rightarrow> u64 \<times> 'a kernel_scheme" where
  "kmalloc_vma s = (case kmalloc s of (p, s1) \<Rightarrow> (p, upd_vma p (\<lambda>_. zero_vma) s1))"

text \<open>The address of the field \<open>memMap\<close> of a task.\<close>

definition memMap_addr :: "u64 \<Rightarrow> u64" where
  "memMap_addr t = t + 208"

text \<open>The address of the field \<open>regs\<close> of a task: behind eight \<open>int\<close>, four 64-bit words and 15 characters.\<close>

definition regs_addr :: "u64 \<Rightarrow> u64" where
  "regs_addr t = t + 80"

definition kprintf :: "string \<Rightarrow> karg list \<Rightarrow> 'a kernel_scheme \<Rightarrow> 'a kernel_scheme" where
  "kprintf fmt args s = s\<lparr>klog := klog s @ [(fmt, args)]\<rparr>"

definition outb :: "u8 \<Rightarrow> u16 \<Rightarrow> 'a kernel_scheme \<Rightarrow> 'a kernel_scheme" where
  "outb data port s = s\<lparr>ports := ports s @ [(data, port)]\<rparr>"

section \<open>Accessors\<close>

definition getRunKRsp :: "'a kernel_scheme \<Rightarrow> u64" where
  "getRunKRsp s = kernelRsp (regs (tasks s (runningThread s)))"

definition getforegroundPid :: "'a kernel_scheme \<Rightarrow> i32" where
  "getforegroundPid s = foregroundPid s"

definition setforegroundPid :: "i32 \<Rightarrow> 'a kernel_scheme \<Rightarrow> 'a kernel_scheme" where
  "setforegroundPid pid s = s\<lparr>foregroundPid := pid\<rparr>"

definition getRunningThread :: "'a kernel_scheme \<Rightarrow> u64" where
  "getRunningThread s = runningThread s"

text \<open>The counter is an \<open>int\<close>, sign-extended to the return type.\<close>

definition getNextPageNum :: "'a kernel_scheme \<Rightarrow> u64 \<times> 'a kernel_scheme" where
  "getNextPageNum s = (let n = pageNum s + 1 in (scast n, s\<lparr>pageNum := n\<rparr>))"

definition getRunCr3 :: "'a kernel_scheme \<Rightarrow> u64" where
  "getRunCr3 s = cr3 (regs (tasks s (runningThread s)))"

definition getMutex :: "'a kernel_scheme \<Rightarrow> i32" where
  "getMutex s = mutex s"

definition getCurHr :: "'a kernel_scheme \<Rightarrow> u8" where "getCurHr s = rtc_hour s"
definition getCurMin :: "'a kernel_scheme \<Rightarrow> u8" where "getCurMin s = rtc_minute s"
definition getCurSec :: "'a kernel_scheme \<Rightarrow> u8" where "getCurSec s = rtc_second s"

definition set_tss_rsp :: "u64 \<Rightarrow> 'a kernel_scheme \<Rightarrow> 'a kernel_scheme" where
  "set_tss_rsp rsp s = s\<lparr>tss_rsp0 := rsp\<rparr>"

section \<open>User memory and stacks\<close>

text \<open>
  The physical address of a pointer that is dereferenced while \<open>cr3\<close> is loaded: kernel pointers
  go through the direct map, user pointers through the tables. (A user page that is not mapped
  would fault; the model is used for mapped pages.)
\<close>

definition v2p :: "'a phys_scheme \<Rightarrow> u64 \<Rightarrow> u64 \<Rightarrow> u64" where
  "v2p s c a =
     (if kernbase s \<le> a then a - kernbase s
      else (getPhysicalPageAddr a c s AND FRAME) + (a AND 0xFFF))"

definition uwr :: "u64 \<Rightarrow> u64 \<Rightarrow> u64 \<Rightarrow> 'a phys_scheme \<Rightarrow> 'a phys_scheme" where
  "uwr c a v s = s\<lparr>pmem := (pmem s)(v2p s c a := v)\<rparr>"

text \<open>A page copy, word by word; \<open>src\<close> and \<open>dst\<close> are physical addresses.\<close>

fun copy_words :: "nat \<Rightarrow> u64 \<Rightarrow> u64 \<Rightarrow> (u64 \<Rightarrow> u64) \<Rightarrow> u64 \<Rightarrow> u64" where
  "copy_words 0 src dst m = m"
| "copy_words (Suc n) src dst m = copy_words n (src + 8) (dst + 8) (m(dst := m src))"

definition memcpy_page :: "u64 \<Rightarrow> u64 \<Rightarrow> 'a vm_scheme \<Rightarrow> 'a vm_scheme" where
  "memcpy_page src dst s =
     s\<lparr>pmem := copy_words 512 (v2p s (cr3_reg s) src) (v2p s (cr3_reg s) dst) (pmem s)\<rparr>"

text \<open>One byte of the little-endian word memory.\<close>

definition put_byte :: "u64 \<Rightarrow> u8 \<Rightarrow> (u64 \<Rightarrow> u64) \<Rightarrow> u64 \<Rightarrow> u64" where
  "put_byte p b m =
     (let w = p AND NOT 7; sh = 8 * unat (p AND 7)
      in m(w := (m w AND NOT (push_bit sh 0xFF)) OR push_bit sh (ucast b)))"

definition get_byte :: "u64 \<Rightarrow> (u64 \<Rightarrow> u64) \<Rightarrow> u8" where
  "get_byte p m = ucast (drop_bit (8 * unat (p AND 7)) (m (p AND NOT 7)))"

text \<open>\<open>_pushVal\<close> with \<open>cr3\<close> loaded; \<open>mov cr3\<close> before and after it cancel out.\<close>

definition pushSomeArgsToUser :: "u64 \<Rightarrow> u64 \<Rightarrow> u64 \<Rightarrow> 'a phys_scheme \<Rightarrow> 'a phys_scheme" where
  "pushSomeArgsToUser ursp val c s = uwr c (ursp - 8) val s"

section \<open>Entering a task (\<open>sys/task.s\<close>)\<close>

text \<open>The five words \<open>iretq\<close> will pop, pushed on the kernel stack of a new task.\<close>

definition prepareInitialKernelStack :: "Registers \<Rightarrow> 'a phys_scheme \<Rightarrow> 'a phys_scheme" where
  "prepareInitialKernelStack r s =
     (let k = kernelRsp r;
          s1 = wr (k - 8) 0x23 s;
          s2 = wr (k - 16) (userRsp r) s1;
          s3 = wr (k - 24) (rflags r OR 0x200) s2;
          s4 = wr (k - 32) 0x2B s3
      in wr (k - 40) (rip r) s4)"

text \<open>
  Loads the address space, the stack and the registers of the task whose \<open>regs\<close> are at \<open>rsi_arg\<close>
  and clears the mutex. The instruction that would load \<open>rsi\<close> is commented out: the task starts with
  the address of its own \<open>regs\<close> there. (The instruction pointer, the flags and the user stack come
  from the frame on the kernel stack.)
\<close>

definition moveToNextProcess :: "u64 \<Rightarrow> Registers \<Rightarrow> 'a kernel_scheme \<Rightarrow> 'a kernel_scheme" where
  "moveToNextProcess rsi_arg to s =
     s\<lparr>cr3_reg := cr3 to, cpu_rsp := kernelRsp to - reg_add to, cpu_regs := to\<lparr>rsi := rsi_arg\<rparr>, mutex := 0\<rparr>"

text \<open>The first entry into user mode does not touch the mutex.\<close>

definition switchToRingThree :: "u64 \<Rightarrow> Registers \<Rightarrow> 'a kernel_scheme \<Rightarrow> 'a kernel_scheme" where
  "switchToRingThree rsi_arg to s =
     s\<lparr>cr3_reg := cr3 to, cpu_rsp := kernelRsp to - reg_add to, cpu_regs := to\<lparr>rsi := rsi_arg\<rparr>\<rparr>"

text \<open>
  Rewrites the saved interrupt frame so that the task resumes in \<open>fp\<close>, with the interrupted
  address pushed on its user stack as a return address.
\<close>

definition changeToAlarmFunction :: "u64 \<Rightarrow> Registers \<Rightarrow> 'a vm_scheme \<Rightarrow> 'a vm_scheme" where
  "changeToAlarmFunction fp r s =
     (let k = kernelRsp r;
          currentRIP = rd s k;
          currentURSP = rd s (k + 24);
          s1 = wr (k + 24) (currentURSP - 8) s;
          s2 = wr k fp s1;
          s3 = s2\<lparr>cr3_reg := cr3 r\<rparr>
      in uwr (cr3 r) (currentURSP - 8) currentRIP s3)"

text \<open>
  The block before every entry: a task that never ran (count 0) has its frame 40 bytes below
  \<open>kernelRsp\<close>, one that was interrupted has it at \<open>kernelRsp\<close>.
\<close>

definition prepare_entry :: "u64 \<Rightarrow> 'a kernel_scheme \<Rightarrow> 'a kernel_scheme" where
  "prepare_entry t s =
     (let r = regs (tasks s t) in
      if reg_count r = 0
      then set_tss_rsp (kernelRsp r) (upd_regs t (\<lambda>r. r\<lparr>reg_add := 40, reg_count := reg_count r + 1\<rparr>) s)
      else set_tss_rsp (kernelRsp r + 40) (upd_regs t (\<lambda>r. r\<lparr>reg_add := 0\<rparr>) s))"

definition enter_task :: "u64 \<Rightarrow> 'a kernel_scheme \<Rightarrow> 'a kernel_scheme" where
  "enter_task t s = moveToNextProcess (regs_addr t) (regs (tasks s t)) s"

text \<open>The frame \<open>iretq\<close> pops when the CPU enters the current task.\<close>

definition iret_rip :: "'a kernel_scheme \<Rightarrow> u64" where "iret_rip s = rd s (cpu_rsp s)"
definition iret_cs :: "'a kernel_scheme \<Rightarrow> u64" where "iret_cs s = rd s (cpu_rsp s + 8)"
definition iret_rflags :: "'a kernel_scheme \<Rightarrow> u64" where "iret_rflags s = rd s (cpu_rsp s + 16)"
definition iret_rsp :: "'a kernel_scheme \<Rightarrow> u64" where "iret_rsp s = rd s (cpu_rsp s + 24)"
definition iret_ss :: "'a kernel_scheme \<Rightarrow> u64" where "iret_ss s = rd s (cpu_rsp s + 32)"

section \<open>What the operations leave alone\<close>

lemma upd_task_frame [frame_simps]:
  "vmas (upd_task t f s) = vmas s" "runningThread (upd_task t f s) = runningThread s"
  "deleteQueue (upd_task t f s) = deleteQueue s" "pidCount (upd_task t f s) = pidCount s"
  "pmem (upd_task t f s) = pmem s" "kernbase (upd_task t f s) = kernbase s"
  "free_frames (upd_task t f s) = free_frames s" "klog (upd_task t f s) = klog s"
  "tasks (upd_task t f s) = (tasks s)(t := f (tasks s t))"
  by (simp_all add: upd_task_def free_frames_def)

lemma upd_regs_frame [frame_simps]:
  "vmas (upd_regs t g s) = vmas s" "runningThread (upd_regs t g s) = runningThread s"
  "deleteQueue (upd_regs t g s) = deleteQueue s" "pmem (upd_regs t g s) = pmem s"
  "kernbase (upd_regs t g s) = kernbase s" "klog (upd_regs t g s) = klog s"
  "tasks (upd_regs t g s) = (tasks s)(t := (tasks s t)\<lparr>regs := g (regs (tasks s t))\<rparr>)"
  by (simp_all add: upd_regs_def frame_simps)

lemma upd_vma_frame [frame_simps]:
  "tasks (upd_vma v g s) = tasks s" "runningThread (upd_vma v g s) = runningThread s"
  "deleteQueue (upd_vma v g s) = deleteQueue s" "pmem (upd_vma v g s) = pmem s"
  "kernbase (upd_vma v g s) = kernbase s" "free_frames (upd_vma v g s) = free_frames s"
  "vmas (upd_vma v g s) = (vmas s)(v := g (vmas s v))"
  by (simp_all add: upd_vma_def free_frames_def)

lemma prepare_entry_frame [frame_simps]:
  "vmas (prepare_entry t s) = vmas s" "runningThread (prepare_entry t s) = runningThread s"
  "deleteQueue (prepare_entry t s) = deleteQueue s" "pmem (prepare_entry t s) = pmem s"
  "kernbase (prepare_entry t s) = kernbase s" "klog (prepare_entry t s) = klog s"
  "tnext (prepare_entry t s) x = tnext s x" "pid_t (tasks (prepare_entry t s) x) = pid_t (tasks s x)"
  by (simp_all add: prepare_entry_def Let_def set_tss_rsp_def frame_simps)

lemma enter_task_frame [frame_simps]:
  "tasks (enter_task t s) = tasks s" "vmas (enter_task t s) = vmas s"
  "runningThread (enter_task t s) = runningThread s" "deleteQueue (enter_task t s) = deleteQueue s"
  "cr3_reg (enter_task t s) = cr3 (regs (tasks s t))" "mutex (enter_task t s) = 0"
  "pmem (enter_task t s) = pmem s" "kernbase (enter_task t s) = kernbase s" "klog (enter_task t s) = klog s"
  "cpu_regs (enter_task t s) = (regs (tasks s t))\<lparr>rsi := regs_addr t\<rparr>"
  "cpu_rsp (enter_task t s) = kernelRsp (regs (tasks s t)) - reg_add (regs (tasks s t))"
  by (simp_all add: enter_task_def moveToNextProcess_def)

lemma kprintf_frame [frame_simps]:
  "tasks (kprintf f a s) = tasks s" "vmas (kprintf f a s) = vmas s"
  "runningThread (kprintf f a s) = runningThread s" "deleteQueue (kprintf f a s) = deleteQueue s"
  "pmem (kprintf f a s) = pmem s" "kernbase (kprintf f a s) = kernbase s"
  "klog (kprintf f a s) = klog s @ [(f, a)]"
  by (simp_all add: kprintf_def)

text \<open>
  The memory operations change nothing but the bitmap and the words of the physical memory.
\<close>

definition phys_only :: "'a phys_scheme \<Rightarrow> 'a phys_scheme \<Rightarrow> bool" where
  "phys_only s s' \<longleftrightarrow> s' = s\<lparr>availFrames := availFrames s', pmem := pmem s'\<rparr>"

lemma phys_only_refl [simp]: "phys_only s s"
  by (simp add: phys_only_def)

lemma phys_only_trans:
  assumes "phys_only s s'" and "phys_only s' s''"
  shows "phys_only s s''"
proof -
  have u: "(s\<lparr>availFrames := a, pmem := m\<rparr>)\<lparr>availFrames := b, pmem := n\<rparr> = s\<lparr>availFrames := b, pmem := n\<rparr>" for a b m n
    by simp
  have "s'' = s'\<lparr>availFrames := availFrames s'', pmem := pmem s''\<rparr>" using assms(2) by (simp only: phys_only_def)
  moreover have "s' = s\<lparr>availFrames := availFrames s', pmem := pmem s'\<rparr>" using assms(1) by (simp only: phys_only_def)
  ultimately show ?thesis unfolding phys_only_def by (metis u)
qed

lemma phys_only_wr [simp]: "phys_only s (wr a x s)"
  by (simp add: phys_only_def wr_def)

lemma phys_only_uwr [simp]: "phys_only s (uwr c a x s)"
  by (simp add: phys_only_def uwr_def)

lemma phys_only_memset [simp]: "phys_only s (memset a s)"
  by (simp add: phys_only_def memset_def)

lemma phys_only_markas [simp]: "phys_only s (markasUsed f s)" "phys_only s (markasFree f s)"
  by (simp_all add: phys_only_def markasUsed_def markasFree_def Let_def)

lemma phys_only_alloc [simp]: "phys_only s (snd (pageAllocator s))"
  by (simp add: pageAllocator_def Let_def)

lemma phys_only_dealloc [simp]: "phys_only s (pageDeAllocator a s)"
  by (simp add: pageDeAllocator_def)

lemma phys_only_kdealloc [simp]: "phys_only s (kdealloc a s)"
  unfolding kdealloc_def by (rule phys_only_trans [OF phys_only_memset phys_only_dealloc])

lemma phys_only_kmalloc [simp]: "phys_only s (snd (kmalloc s))"
  unfolding kmalloc_def Let_def
  by (simp add: case_prod_beta) (rule phys_only_trans [OF phys_only_alloc phys_only_memset])

lemma phys_only_step [simp]: "phys_only s (snd (table_step off fl t i s))"
proof -
  have "phys_only s (wr a x (memset b (snd (pageAllocator s))))" for a x b
    by (rule phys_only_trans [OF phys_only_trans [OF phys_only_alloc phys_only_memset] phys_only_wr])
  then show ?thesis by (simp add: table_step_def Let_def case_prod_beta)
qed

lemma phys_only_force [simp]: "phys_only s (forceMapPage v p t user s)"
  unfolding forceMapPage_def Let_def case_prod_beta
  by (intro phys_only_trans [OF phys_only_step phys_only_trans [OF phys_only_step phys_only_trans [OF phys_only_step phys_only_wr]]])

lemma phys_only_map [simp]: "phys_only s (mapPageForUser v p t s)"
  by (simp add: mapPageForUser_force)

lemma phys_only_mark [simp]: "phys_only s (snd (markPageAsRW v c rw s))"
  by (simp add: markPageAsRW_def Let_def)

lemma phys_only_memcpy [simp]: "phys_only s (memcpy_page a b s)"
  by (simp add: memcpy_page_def phys_only_def)

lemma phys_only_prepare [simp]: "phys_only s (prepareInitialKernelStack r s)"
  unfolding prepareInitialKernelStack_def Let_def
  by (intro phys_only_trans [OF phys_only_wr phys_only_trans [OF phys_only_wr phys_only_trans [OF phys_only_wr
        phys_only_trans [OF phys_only_wr phys_only_wr]]]])

lemma phys_only_push [simp]: "phys_only s (pushSomeArgsToUser a x c s)"
  by (simp add: pushSomeArgsToUser_def)

lemma phys_onlyD:
  assumes "phys_only (s :: 'a kernel_scheme) s'"
  shows "tasks s' = tasks s" "vmas s' = vmas s" "runningThread s' = runningThread s"
    "deleteQueue s' = deleteQueue s" "kernbase s' = kernbase s" "cr3_reg s' = cr3_reg s" "klog s' = klog s"
    "pml4 s' = pml4 s" "pidCount s' = pidCount s" "pageNum s' = pageNum s" "kbd_state s' = kbd_state s"
    "MAX_BITMAP_ROWS s' = MAX_BITMAP_ROWS s" "userRegs s' = userRegs s" "mutex s' = mutex s"
proof -
  have e: "s' = s\<lparr>availFrames := availFrames s', pmem := pmem s'\<rparr>" using assms by (simp only: phys_only_def)
  have sel: "tasks (s\<lparr>availFrames := a, pmem := m\<rparr>) = tasks s" "vmas (s\<lparr>availFrames := a, pmem := m\<rparr>) = vmas s"
    "runningThread (s\<lparr>availFrames := a, pmem := m\<rparr>) = runningThread s"
    "deleteQueue (s\<lparr>availFrames := a, pmem := m\<rparr>) = deleteQueue s"
    "kernbase (s\<lparr>availFrames := a, pmem := m\<rparr>) = kernbase s" "cr3_reg (s\<lparr>availFrames := a, pmem := m\<rparr>) = cr3_reg s"
    "klog (s\<lparr>availFrames := a, pmem := m\<rparr>) = klog s" "pml4 (s\<lparr>availFrames := a, pmem := m\<rparr>) = pml4 s"
    "pidCount (s\<lparr>availFrames := a, pmem := m\<rparr>) = pidCount s" "pageNum (s\<lparr>availFrames := a, pmem := m\<rparr>) = pageNum s"
    "kbd_state (s\<lparr>availFrames := a, pmem := m\<rparr>) = kbd_state s"
    "MAX_BITMAP_ROWS (s\<lparr>availFrames := a, pmem := m\<rparr>) = MAX_BITMAP_ROWS s"
    "userRegs (s\<lparr>availFrames := a, pmem := m\<rparr>) = userRegs s" "mutex (s\<lparr>availFrames := a, pmem := m\<rparr>) = mutex s"
    for a m by simp_all
  show "tasks s' = tasks s" "vmas s' = vmas s" "runningThread s' = runningThread s"
    "deleteQueue s' = deleteQueue s" "kernbase s' = kernbase s" "cr3_reg s' = cr3_reg s" "klog s' = klog s"
    "pml4 s' = pml4 s" "pidCount s' = pidCount s" "pageNum s' = pageNum s" "kbd_state s' = kbd_state s"
    "MAX_BITMAP_ROWS s' = MAX_BITMAP_ROWS s" "userRegs s' = userRegs s" "mutex s' = mutex s"
    by (subst e, rule sel)+
qed

section \<open>The first entry\<close>

text \<open>
  What a new task finds on its kernel stack, at the place its first entry pops it from; the stack may lie anywhere in the kernel's
  half, with room for the five words.
\<close>

lemma wr_kernbase [simp]: "kernbase (wr a x s) = kernbase s"
  by (simp add: wr_def)

lemma wr_rd_below:
  assumes "kernbase s + 40 \<le> k" "kernbase s \<le> kernbase s + 40" "i \<le> 40" "j \<le> 40"
  shows "rd (wr (k - i) x s) (k - j) = (if i = j then x else rd s (k - j))"
proof -
  have "unat (kernbase s + 40) = unat (kernbase s) + 40"
    using assms(2) by (simp add: word_le_nat_alt unat_plus_simple [THEN iffD1])
  then have "unat (kernbase s) + 40 \<le> unat k" using assms(1) by (simp add: word_le_nat_alt)
  then have "kernbase s \<le> k - i" if "i \<le> 40" for i
    using that unat_sub [of i k] by (simp add: word_le_nat_alt)
  then show ?thesis using assms(3,4) by (simp add: rd_def wr_def k2p_def)
qed

lemma prepared_frame:
  assumes kb: "kernbase s = KERNBASE" and k: "KERNBASE + 40 \<le> kernelRsp r"
  defines "s' \<equiv> prepareInitialKernelStack r s" and "stk \<equiv> kernelRsp r - 40"
  shows "rd s' stk = rip r" "rd s' (stk + 8) = 0x2B" "rd s' (stk + 16) = rflags r OR 0x200"
    "rd s' (stk + 24) = userRsp r" "rd s' (stk + 32) = 0x23"
proof -
  have a: "stk + 8 = kernelRsp r - 32" "stk + 16 = kernelRsp r - 24" "stk + 24 = kernelRsp r - 16" "stk + 32 = kernelRsp r - 8"
    by (simp_all add: stk_def)
  have W: "rd (wr (kernelRsp r - i) x u) (kernelRsp r - j) = (if i = j then x else rd u (kernelRsp r - j))"
    if "kernbase u = KERNBASE" "i \<le> 40" "j \<le> 40" for i j x and u :: "'a phys_scheme"
    using that k by (intro wr_rd_below) (simp_all add: KERNBASE_def)
  show "rd s' stk = rip r" "rd s' (stk + 8) = 0x2B" "rd s' (stk + 16) = rflags r OR 0x200"
    "rd s' (stk + 24) = userRsp r" "rd s' (stk + 32) = 0x23"
    unfolding a unfolding stk_def s'_def prepareInitialKernelStack_def Let_def
    by (simp_all add: W kb)
qed

lemma stack_page_kernel:
  assumes "f < 65536"
  shows "KERNBASE + 40 \<le> page_of f + KERNBASE + 0x1000"
proof -
  have "unat (page_of f) = f * 4096" using assms by (intro unat_page_of) simp
  then show ?thesis using assms by (simp add: word_le_nat_alt unat_word_ariths KERNBASE_def)
qed

end
