(* ===== verification/TaskQueue.thy ===== *)
theory TaskQueue
  imports Kernel
begin

text \<open>
  The circular run queue and the delete queue of \<open>sys/task.c\<close>: queueing, the round-robin switch
  \<open>runNextTask\<close>, the first switch to user mode, \<open>waitpid\<close>, \<open>ps\<close>, sleeping and alarms. The
  lemmas see the queues as lists: \<open>queues s ts ds\<close> says that behind the running task come the
  tasks \<open>ts\<close>, in the order in which they will run, and that \<open>ds\<close> have been deleted.
\<close>

section \<open>Operations\<close>

definition addToQueue :: "u64 \<Rightarrow> 'a kernel_scheme \<Rightarrow> 'a kernel_scheme" where
  "addToQueue t s =
     (let r = runningThread s;
          s1 = upd_task t (\<lambda>k. k\<lparr>task_next := tnext s r\<rparr>) s
      in upd_task r (\<lambda>k. k\<lparr>task_next := t\<rparr>) s1)"

definition addToDeleteQueue :: "u64 \<Rightarrow> 'a kernel_scheme \<Rightarrow> 'a kernel_scheme option" where
  "addToDeleteQueue t s =
     (if deleteQueue s = NULL
      then Some (upd_task t (\<lambda>k. k\<lparr>task_next := NULL\<rparr>) (s\<lparr>deleteQueue := t\<rparr>))
      else case chase (\<lambda>x. tnext s x \<noteq> NULL) (tnext s) (deleteQueue s) of
             None \<Rightarrow> None
           | Some temp \<Rightarrow> Some (upd_task t (\<lambda>k. k\<lparr>task_next := NULL\<rparr>)
                                 (upd_task temp (\<lambda>k. k\<lparr>task_next := t\<rparr>) s)))"

text \<open>The loop \<open>while (temp->next != h) temp = temp->next\<close>.\<close>

definition find_prev :: "u64 \<Rightarrow> 'a kernel_scheme \<Rightarrow> u64 option" where
  "find_prev h s = chase (\<lambda>x. tnext s x \<noteq> h) (tnext s) h"

definition save_running :: "'a kernel_scheme \<Rightarrow> 'a kernel_scheme" where
  "save_running s =
     upd_regs (runningThread s) (\<lambda>r. r\<lparr>kernelRsp := switchRsp s, rax := rax (switchRegs s),
       rbx := rbx (switchRegs s), rcx := rcx (switchRegs s), rdx := rdx (switchRegs s),
       rsi := rsi (switchRegs s), rdi := rdi (switchRegs s), rbp := rbp (switchRegs s)\<rparr>) s"

definition fire_alarm :: "u64 \<Rightarrow> 'a kernel_scheme \<Rightarrow> 'a kernel_scheme" where
  "fire_alarm t s =
     (if currAlarmCount (tasks s t) > expectedAlarmCount (tasks s t)
      then upd_task t (\<lambda>k. k\<lparr>functionPointer := NULL, currAlarmCount := 0, expectedAlarmCount := 0\<rparr>)
             (changeToAlarmFunction (functionPointer (tasks s t)) (regs (tasks s t)) s)
      else s)"

definition runNextTask :: "'a kernel_scheme \<Rightarrow> 'a kernel_scheme" where
  "runNextTask s =
     (let s1 = save_running s;
          n = tnext s1 (runningThread s1);
          s2 = prepare_entry n (s1\<lparr>runningThread := n\<rparr>);
          s3 = fire_alarm n s2
      in enter_task n s3)"

definition set_input_buf :: "u64 \<Rightarrow> 'a kernel_scheme \<Rightarrow> 'a kernel_scheme" where
  "set_input_buf page s =
     s\<lparr>kbd_state := (kbd_state s)\<lparr>stdStart := page, writePosition := page, readPosition := page,
         kbuf_end := page + 0x1000, indicator := 0, readline := 0\<rparr>\<rparr>"

definition init_terminal :: "'a kernel_scheme \<Rightarrow> 'a kernel_scheme" where
  "init_terminal s = (case kmalloc s of (p, s1) \<Rightarrow> set_input_buf p s1)"

definition switchToUserMode :: "'a kernel_scheme \<Rightarrow> 'a kernel_scheme" where
  "switchToUserMode s =
     (let n = tnext s (runningThread s);
          s1 = s\<lparr>runningThread := n\<rparr>;
          s2 = (if reg_count (regs (tasks s1 n)) = 0
                then upd_regs n (\<lambda>r. r\<lparr>reg_add := 40, reg_count := reg_count r + 1\<rparr>) s1
                else upd_regs n (\<lambda>r. r\<lparr>reg_add := 0\<rparr>) s1);
          s3 = set_tss_rsp (kernelRsp (regs (tasks s2 n))) s2;
          s4 = init_terminal s3
      in switchToRingThree (regs_addr n) (regs (tasks s4 n)) s4)"

text \<open>
  \<open>waitpid\<close>: the returned value and \<open>*status\<close>. With \<open>pid\<close> -1 the code looks for a running task
  whose parent is the caller's parent.
\<close>

definition waitpid_match :: "u64 \<Rightarrow> i32 \<Rightarrow> Task \<Rightarrow> bool" where
  "waitpid_match pid ppid k \<longleftrightarrow>
     (if pid = - 1 then ppid_t k = ppid \<and> task_state k = 1
      else scast (pid_t k) = pid \<and> task_state k = 1)"

definition waitpid :: "u64 \<Rightarrow> 'a kernel_scheme \<Rightarrow> (u64 \<times> i32) option" where
  "waitpid pid s =
     (let r = runningThread s; ppid = ppid_t (tasks s r) in
      case chase (\<lambda>t. t \<noteq> r \<and> \<not> waitpid_match pid ppid (tasks s t)) (tnext s) (tnext s r) of
        None \<Rightarrow> None
      | Some t \<Rightarrow> Some (if t = r then (- 1, 0)
                        else if pid = - 1 then (scast (ppid_t (tasks s t)), 1) else (pid, 1)))"

definition ps_line :: "string \<Rightarrow> string \<Rightarrow> Task \<Rightarrow> 'a kernel_scheme \<Rightarrow> 'a kernel_scheme" where
  "ps_line fmt st k = kprintf fmt [KNum (scast (pid_t k)), KNum (scast (startHH k)), KNum (scast (startMM k)),
     KNum (scast (startSS k)), KNum (scast (endHH k)), KNum (scast (endMM k)), KNum (scast (endSS k)),
     KStr st, KStr (exeName k)]"

definition ps :: "'a kernel_scheme \<Rightarrow> 'a kernel_scheme option" where
  "ps s =
     (let r = runningThread s;
          s1 = kprintf ''PID START_TIME END_TIME STATE      BINARY\<newline>'' [] s;
          s2 = ps_line ''%d  %d:%d:%d   %d:%d:%d %s         %s\<newline>'' ''RUNNING'' (tasks s r) s1 in
      case for_ptrs tnext r (\<lambda>t s. Some (ps_line ''%d    %d:%d:%d    %d:%d:%d    %s      %s\<newline>'' ''RUNNING'' (tasks s t) s))
             (tnext s2 r) s2 of
        None \<Rightarrow> None
      | Some s3 \<Rightarrow>
          for_ptrs tnext NULL (\<lambda>t s. Some (ps_line ''%d    %d:%d:%d    %d:%d:%d    %s      %s\<newline>'' ''EXITED'' (tasks s t) s))
             (deleteQueue s3) s3)"

definition setSleep :: "u64 \<Rightarrow> 'a kernel_scheme \<Rightarrow> u64 \<times> 'a kernel_scheme" where
  "setSleep secs s =
     (0, upd_task (runningThread s) (\<lambda>k. k\<lparr>currSleepCount := 1, expectedSleepCount := secs\<rparr>) s)"

definition getCounter :: "'a kernel_scheme \<Rightarrow> u64 \<times> 'a kernel_scheme" where
  "getCounter s =
     (let r = runningThread s in
      if currSleepCount (tasks s r) > expectedSleepCount (tasks s r)
      then (1, upd_task r (\<lambda>k. k\<lparr>currSleepCount := 0, expectedSleepCount := 0\<rparr>) s)
      else (0, s))"

definition setAlarmFP :: "u64 \<Rightarrow> u64 \<Rightarrow> 'a kernel_scheme \<Rightarrow> u64 \<times> 'a kernel_scheme" where
  "setAlarmFP sigNum fp s =
     (if sigNum \<noteq> 14 then (0, kprintf ''This OS supports only SIGALRM (14) signal\<newline>'' [] s)
      else (fp, upd_task (runningThread s) (\<lambda>k. k\<lparr>functionPointer := fp\<rparr>) s))"

definition setAlarm :: "u64 \<Rightarrow> 'a kernel_scheme \<Rightarrow> u64 \<times> 'a kernel_scheme" where
  "setAlarm secs s =
     (let r = runningThread s; k = tasks s r in
      if functionPointer k = NULL then (0, kprintf ''No Handler installed..'' [] s)
      else (if currAlarmCount k \<noteq> 0 then expectedAlarmCount k - currAlarmCount k else 0,
            upd_task r (\<lambda>k. k\<lparr>currAlarmCount := 1, expectedAlarmCount := secs\<rparr>) s))"

definition getPid :: "'a kernel_scheme \<Rightarrow> u64" where
  "getPid s = scast (pid_t (tasks s (runningThread s)))"

definition getPPid :: "'a kernel_scheme \<Rightarrow> u64" where
  "getPPid s = scast (ppid_t (tasks s (runningThread s)))"

definition clearScreen :: "'a kernel_scheme \<Rightarrow> 'a kernel_scheme" where
  "clearScreen s = ((kprintf ''\<newline>'' []) ^^ 9) s"

section \<open>The queues as lists\<close>

definition queues :: "'a kernel_scheme \<Rightarrow> u64 list \<Rightarrow> u64 list \<Rightarrow> bool" where
  "queues s ts ds \<longleftrightarrow>
     ring (tnext s) (runningThread s) ts \<and> path (tnext s) (deleteQueue s) ds NULL \<and>
     distinct (runningThread s # ts @ ds) \<and> NULL \<notin> set (runningThread s # ts @ ds)"

lemma path_find_last:
  assumes "path nx p xs q" and "xs \<noteq> []" and "q \<notin> set xs" and "distinct xs"
  shows "chase (\<lambda>x. nx x \<noteq> q) nx p = Some (last xs)"
proof -
  obtain ys y where xs: "xs = ys @ [y]" using assms(2) by (cases xs rule: rev_cases) auto
  with assms(1) have p: "path nx p ys y" and y: "nx y = q" by auto
  have "nx x \<noteq> q" if "x \<in> set ys" for x
  proof -
    from that obtain as bs where ys: "ys = as @ x # bs" by (auto simp: in_set_conv_decomp)
    with p have b: "path nx (nx x) bs y" by auto
    then have "nx x \<in> set (bs @ [y])" by (cases bs) auto
    with assms(3) xs ys show ?thesis by auto
  qed
  then have "chase (\<lambda>x. nx x \<noteq> q) nx p = Some y" by (intro chase_path [OF p]) (simp_all add: y)
  with xs show ?thesis by simp
qed

lemma find_prev_ring:
  "ring (tnext s) h ts \<Longrightarrow> find_prev h s = Some (last (h # ts))"
  unfolding find_prev_def by (rule ring_find_last)

lemma path_fun_upd:
  assumes "\<And>x. x \<in> set xs \<Longrightarrow> nx' x = nx x" and "path nx p xs q"
  shows "path nx' p xs q"
  using path_cong [of xs nx nx' p q] assms by auto

lemma addToQueue_ok:
  assumes q: "queues s ts ds" and t: "t \<notin> set (runningThread s # ts @ ds)" "t \<noteq> NULL"
  shows "queues (addToQueue t s) (t # ts) ds \<and> runningThread (addToQueue t s) = runningThread s"
proof -
  let ?s = "addToQueue t s" and ?r = "runningThread s"
  have r: "runningThread ?s = ?r" "deleteQueue ?s = deleteQueue s"
    by (simp_all add: addToQueue_def Let_def frame_simps)
  have nx: "tnext ?s x = (if x = ?r then t else if x = t then tnext s ?r else tnext s x)" for x
    using t(1) by (simp add: addToQueue_def Let_def frame_simps)
  have "path (tnext ?s) (tnext s ?r) ts ?r"
    by (rule path_fun_upd [where nx = "tnext s"]) (use q t nx in \<open>auto simp: queues_def ring_def\<close>)
  moreover have "path (tnext ?s) (deleteQueue s) ds NULL"
    by (rule path_fun_upd [where nx = "tnext s"]) (use q t nx in \<open>auto simp: queues_def\<close>)
  ultimately show ?thesis
    using q t by (auto simp: queues_def ring_def r nx)
qed

lemma free_frames_deleteQueue: "free_frames (s\<lparr>deleteQueue := t\<rparr>) = free_frames s"
  by (simp add: free_frames_def)

lemma addToDeleteQueue_ok:
  assumes d: "path (tnext s) (deleteQueue s) ds NULL" "distinct ds" "NULL \<notin> set ds"
    and t: "t \<notin> set ds" "t \<noteq> NULL"
  shows "\<exists>s'. addToDeleteQueue t s = Some s' \<and> path (tnext s') (deleteQueue s') (ds @ [t]) NULL \<and>
    (\<forall>x. x \<noteq> t \<and> x \<notin> set ds \<longrightarrow> tasks s' x = tasks s x) \<and>
    (\<forall>x. tasks s' x = (tasks s x)\<lparr>task_next := tnext s' x\<rparr>) \<and>
    runningThread s' = runningThread s \<and> free_frames s' = free_frames s \<and> pmem s' = pmem s"
proof (cases "ds = []")
  case True
  with d(1) have e: "deleteQueue s = NULL" by simp
  let ?s = "upd_task t (\<lambda>k. k\<lparr>task_next := NULL\<rparr>) (s\<lparr>deleteQueue := t\<rparr>)"
  have "addToDeleteQueue t s = Some ?s" by (simp add: addToDeleteQueue_def e)
  moreover have "path (tnext ?s) (deleteQueue ?s) (ds @ [t]) NULL"
    using True by (simp add: frame_simps)
  ultimately show ?thesis
    by (intro exI [of _ ?s]) (simp add: frame_simps free_frames_deleteQueue)
next
  case False
  then obtain es e where ds: "ds = es @ [e]" by (cases ds rule: rev_cases) auto
  have ne: "deleteQueue s \<noteq> NULL" using d False by (cases ds) auto
  have c: "chase (\<lambda>x. tnext s x \<noteq> NULL) (tnext s) (deleteQueue s) = Some e"
    using path_find_last [OF d(1) False d(3,2)] ds by simp
  define s' where "s' = upd_task t (\<lambda>k. k\<lparr>task_next := NULL\<rparr>) (upd_task e (\<lambda>k. k\<lparr>task_next := t\<rparr>) s)"
  have te: "e \<noteq> t" using t ds by auto
  have nx: "tnext s' x = (if x = t then NULL else if x = e then t else tnext s x)" for x
    using te by (simp add: s'_def frame_simps)
  have dq: "deleteQueue s' = deleteQueue s" by (simp add: s'_def frame_simps)
  have "path (tnext s') (deleteQueue s) es e"
    by (rule path_fun_upd [where nx = "tnext s"]) (use d t ds in \<open>auto simp: nx\<close>)
  then have "path (tnext s') (deleteQueue s') (ds @ [t]) NULL"
    using te unfolding ds dq path_append by (intro exI conjI) (simp_all add: nx)
  moreover have "addToDeleteQueue t s = Some s'"
    using ne c by (simp add: addToDeleteQueue_def s'_def)
  ultimately show ?thesis
    using ds by (intro exI [of _ s']) (auto simp: s'_def frame_simps)
qed

section \<open>Round robin\<close>

text \<open>
  The contract of a round-robin scheduler: \<open>order s ts\<close> says that the tasks of the run queue,
  the running one first, are \<open>ts\<close>; a step rotates them.
\<close>

locale round_robin =
  fixes order :: "'s \<Rightarrow> 't list \<Rightarrow> bool"
    and step :: "'s \<Rightarrow> 's"
  assumes step_rotates: "order s (h # ts) \<Longrightarrow> order (step s) (ts @ [h])"
begin

lemma steps_rotate: "order s ts \<Longrightarrow> ts \<noteq> [] \<Longrightarrow> order ((step ^^ k) s) (rotate k ts)"
proof (induction k)
  case (Suc k)
  then have o: "order ((step ^^ k) s) (rotate k ts)" by simp
  obtain h us where h: "rotate k ts = h # us" using Suc.prems(2) by (cases "rotate k ts") auto
  from step_rotates [OF o [unfolded h]] show ?case by (simp add: h)
qed simp

lemma scheduled:
  assumes "order s ts" and "k < length ts"
  shows "\<exists>us. order ((step ^^ k) s) (ts ! k # us)"
proof -
  have "ts \<noteq> []" using assms(2) by auto
  with steps_rotate [OF assms(1), of k] have "order ((step ^^ k) s) (rotate k ts)" by simp
  moreover have "rotate k ts = ts ! k # drop (Suc k) ts @ take k ts"
    using assms(2) by (simp add: rotate_drop_take Cons_nth_drop_Suc [symmetric])
  ultimately show ?thesis by auto
qed

lemma full_round: "order s ts \<Longrightarrow> ts \<noteq> [] \<Longrightarrow> order ((step ^^ length ts) s) ts"
  using steps_rotate [of s ts "length ts"] by simp

end

definition run_order :: "'a kernel_scheme \<Rightarrow> u64 list \<Rightarrow> bool" where
  "run_order s ts \<longleftrightarrow> (\<exists>us ds. ts = runningThread s # us \<and> queues s us ds)"

lemma alarm_frame [frame_simps]:
  "tasks (changeToAlarmFunction f r s) = tasks s"
  "runningThread (changeToAlarmFunction f r s) = runningThread s"
  "deleteQueue (changeToAlarmFunction f r s) = deleteQueue s"
  by (simp_all add: changeToAlarmFunction_def Let_def uwr_def wr_def)

lemma runNextTask_frame [frame_simps]:
  "tnext (runNextTask s) x = tnext s x" "runningThread (runNextTask s) = tnext s (runningThread s)"
  "deleteQueue (runNextTask s) = deleteQueue s" "pid_t (tasks (runNextTask s) x) = pid_t (tasks s x)"
  by (simp_all add: runNextTask_def Let_def save_running_def fire_alarm_def frame_simps)

lemma queues_same_next:
  assumes "\<And>x. tnext s' x = tnext s x" "deleteQueue s' = deleteQueue s" "runningThread s' = runningThread s"
  shows "queues s' ts ds = queues s ts ds"
proof -
  have "tnext s' = tnext s" using assms(1) by auto
  with assms(2,3) show ?thesis by (simp add: queues_def)
qed

lemma runNextTask_rotates:
  assumes "queues s (t # ts) ds"
  shows "queues (runNextTask s) (ts @ [runningThread s]) ds \<and> runningThread (runNextTask s) = t"
proof -
  have n: "tnext (runNextTask s) = tnext s" by (simp add: fun_eq_iff frame_simps)
  from assms have "ring (tnext s) (runningThread s) (t # ts)" by (simp add: queues_def)
  from ring_rotate [OF this] ring_nonempty_next [OF this] assms show ?thesis
    by (auto simp: queues_def n frame_simps)
qed

lemma runNextTask_alone:
  assumes "queues s [] ds"
  shows "queues (runNextTask s) [] ds \<and> runningThread (runNextTask s) = runningThread s"
proof -
  have n: "tnext (runNextTask s) = tnext s" by (simp add: fun_eq_iff frame_simps)
  from assms show ?thesis by (auto simp: queues_def n frame_simps)
qed

interpretation rr: round_robin run_order runNextTask
proof
  fix s :: "'a kernel_scheme" and h ts
  assume "run_order s (h # ts)"
  then obtain ds where q: "h = runningThread s" "queues s ts ds" by (auto simp: run_order_def)
  show "run_order (runNextTask s) (ts @ [h])"
  proof (cases ts)
    case Nil
    with q runNextTask_alone [of s ds] show ?thesis by (auto simp: run_order_def)
  next
    case (Cons t us)
    with q runNextTask_rotates [of s t us ds] show ?thesis by (auto simp: run_order_def)
  qed
qed

section \<open>Waiting and listing\<close>

text \<open>A search along the ring that stops at the head finds the first match.\<close>

lemma chase_ring_find:
  assumes "path nx p ts h" and "h \<notin> set ts"
  shows "chase (\<lambda>t. t \<noteq> h \<and> \<not> P t) nx p = Some (case find P ts of None \<Rightarrow> h | Some t \<Rightarrow> t)"
  using assms
proof (induction ts arbitrary: p)
  case Nil
  then show ?case by (simp add: chase_stop)
next
  case (Cons t ts)
  then have p: "p = t" "t \<noteq> h" "path nx (nx t) ts h" "h \<notin> set ts" by auto
  show ?case
  proof (cases "P t")
    case True
    with p show ?thesis by (simp add: chase_stop)
  next
    case False
    with p have "chase (\<lambda>t. t \<noteq> h \<and> \<not> P t) nx p = chase (\<lambda>t. t \<noteq> h \<and> \<not> P t) nx (nx t)"
      by (simp add: chase_step)
    with Cons.IH [OF p(3,4)] False show ?thesis by simp
  qed
qed

lemma ps_line_frame [frame_simps]:
  "tasks (ps_line f st k s) = tasks s" "deleteQueue (ps_line f st k s) = deleteQueue s"
  "runningThread (ps_line f st k s) = runningThread s"
  by (simp_all add: ps_line_def frame_simps)

text \<open>The line \<open>ps\<close> prints for a task.\<close>

definition ps_args :: "string \<Rightarrow> Task \<Rightarrow> karg list" where
  "ps_args st k = [KNum (scast (pid_t k)), KNum (scast (startHH k)), KNum (scast (startMM k)),
     KNum (scast (startSS k)), KNum (scast (endHH k)), KNum (scast (endMM k)), KNum (scast (endSS k)),
     KStr st, KStr (exeName k)]"

lemma fold_ps_lines:
  "klog (fold (\<lambda>t s. ps_line f st (tasks s t) s) xs s) = klog s @ map (\<lambda>t. (f, ps_args st (tasks s t))) xs"
  "tasks (fold (\<lambda>t s. ps_line f st (tasks s t) s) xs s) = tasks s"
  "deleteQueue (fold (\<lambda>t s. ps_line f st (tasks s t) s) xs s) = deleteQueue s"
  by (induction xs arbitrary: s) (simp_all add: frame_simps, simp_all add: ps_line_def ps_args_def frame_simps)

section \<open>A concrete machine\<close>

text \<open>
  Three tasks in the run queue (pid 2 running, then pid 3, then the shell with pid 1), one in
  the delete queue.
\<close>

definition small_task :: "i32 \<Rightarrow> u64 \<Rightarrow> Task" where
  "small_task pid nxt = zero_task\<lparr>pid_t := pid, ppid_t := 1, task_state := 1, exeName := ''bin/ls'',
     regs := zero_regs\<lparr>cr3 := page_of 256, kernelRsp := page_of 300 + KERNBASE + 0x1000\<rparr>, task_next := nxt\<rparr>"

definition small_kernel :: kernel where
  "small_kernel = vm.extend small_vm (kernel.fields
     ((\<lambda>_. zero_task)(0x10 := small_task 2 0x20, 0x20 := small_task 3 0x30, 0x30 := small_task 1 0x10,
       0x40 := small_task 9 NULL))
     (\<lambda>_. zero_vma) 0x10 0x40 9 0 0 0 zero_regs zero_regs 1 0 0 zero_regs 0 0 0 0
     \<lparr>stdStart = 0, writePosition = 0, readPosition = 0, kbuf_end = 0, indicator = 0, readline = 0,
       chars = (\<lambda>_. CHR 0x00)\<rparr> [] [])"

lemma small_kernel_sel:
  "tasks small_kernel = (\<lambda>_. zero_task)(0x10 := small_task 2 0x20, 0x20 := small_task 3 0x30,
     0x30 := small_task 1 0x10, 0x40 := small_task 9 NULL)"
  "runningThread small_kernel = 0x10" "deleteQueue small_kernel = 0x40" "klog small_kernel = []"
  "vmas small_kernel = (\<lambda>_. zero_vma)" "pmem small_kernel = pmem small_vm" "kernbase small_kernel = KERNBASE"
  "free_frames small_kernel = free_frames small_vm" "vm_ok small_kernel = vm_ok small_vm"
  "used_frames small_kernel = used_frames small_vm" "pidCount small_kernel = 9"
  by (simp_all add: small_kernel_def vm.defs kernel.defs free_frames_def vm_ok_def phys_inv_def
      used_frames_def small_vm_def)

lemma small_queues: "queues small_kernel [0x20, 0x30] [0x40]"
  by (simp add: queues_def ring_def small_kernel_sel small_task_def)

section \<open>Properties\<close>

text \<open>C11: Round robin is fair: if the run queue holds the running task and then \<open>ts\<close>, then after \<open>k\<close>
  timer switches the \<open>k\<close>-th of them runs, and after as many switches as there are tasks the queue
  is back where it was. No task is skipped, none is lost.\<close>

theorem round_robin_fair:
  assumes "queues s ts ds"
  shows "(\<forall>k \<le> length ts. runningThread ((runNextTask ^^ k) s) = (runningThread s # ts) ! k) \<and>
    runningThread ((runNextTask ^^ Suc (length ts)) s) = runningThread s \<and>
    (\<exists>ds'. queues ((runNextTask ^^ Suc (length ts)) s) ts ds')"
proof -
  have o: "run_order s (runningThread s # ts)" using assms by (auto simp: run_order_def)
  have "runningThread ((runNextTask ^^ k) s) = (runningThread s # ts) ! k" if "k \<le> length ts" for k
    using rr.scheduled [OF o, of k] that by (auto simp: run_order_def)
  moreover have "run_order ((runNextTask ^^ Suc (length ts)) s) (runningThread s # ts)"
    using rr.full_round [OF o] by simp
  ultimately show ?thesis by (auto simp: run_order_def)
qed

theorem round_robin_fair_witness:
  "runningThread ((runNextTask ^^ 1) small_kernel) = 0x20 \<and> runningThread ((runNextTask ^^ 2) small_kernel) = 0x30 \<and>
   runningThread ((runNextTask ^^ 3) small_kernel) = 0x10"
proof -
  note F = round_robin_fair [OF small_queues]
  have "runningThread ((runNextTask ^^ k) small_kernel) = [0x10, 0x20, 0x30] ! k" if "k \<le> 2" for k
    using F that by (simp add: small_kernel_sel(2))
  from this [of 1] this [of 2] F show ?thesis by (simp add: small_kernel_sel(2) numeral_3_eq_3)
qed

text \<open>
  What a switch does to the memory: nothing, or, when the alarm of the task it enters is due, the rewriting of that task's saved
  frame. With the frame at \<open>k\<close> and the user stack pointer above \<open>u\<close>, the task resumes in its alarm function with the interrupted
  address on its stack.
\<close>

lemma v2p_same:
  assumes "pmem s = pmem s'" "kernbase s = kernbase s'"
  shows "v2p s = v2p s'"
proof -
  have r: "rd s = rd s'" by (simp add: fun_eq_iff rd_def assms)
  have "getPhysicalPageAddr v c s = getPhysicalPageAddr v c s'" for v c
    unfolding getPhysicalPageAddr_def r assms(2) by (rule refl)
  then show ?thesis by (simp add: fun_eq_iff v2p_def assms(2))
qed

lemma alarm_pmem:
  "pmem (changeToAlarmFunction fp r s) =
     (let k = kernelRsp r; u = rd s (k + 24) - 8; s1 = wr k fp (wr (k + 24) u s)
      in (pmem s1)(v2p s1 (cr3 r) u := rd s k))"
  unfolding changeToAlarmFunction_def Let_def uwr_def
  by (simp add: v2p_same [of "t\<lparr>cr3_reg := c\<rparr>" t for t c])

text \<open>C12: A timer switch saves the interrupted task's registers in its task structure and enters the next
  task of the queue in that task's own address space, with the mutex released and with that task's saved registers
  except \<open>rsi\<close>, which holds the address of its register structure. It enters the task where its
  interrupt frame is: 40 bytes below \<open>kernelRsp\<close> the first time it ever runs, at the saved
  stack pointer afterwards; the TSS always gets the stack top above that frame. If the entered task's alarm is not due, memory and
  its alarm are as before. If it is due (\<open>currAlarmCount > expectedAlarmCount\<close>), the alarm is cleared and exactly three words of memory
  are written: in the saved frame the instruction pointer becomes the alarm function and the stack pointer goes down by 8, and the
  interrupted address is stored there; an interrupted task then resumes in its alarm function.\<close>

theorem runNextTask_switch:
  fixes s :: "'a kernel_scheme"
  assumes q: "queues s (t # ts) ds" and s': "s' = runNextTask s"
  defines "r \<equiv> regs (tasks s t)" and "due \<equiv> currAlarmCount (tasks s t) > expectedAlarmCount (tasks s t)"
    and "fp \<equiv> functionPointer (tasks s t)"
  defines "k \<equiv> kernelRsp r"
  defines "u \<equiv> rd s (k + 24) - 8"
  defines "s1 \<equiv> wr k fp (wr (k + 24) u s)"
  defines "a \<equiv> v2p s1 (cr3 r) u"
  shows "runningThread s' = t \<and> queues s' (ts @ [runningThread s]) ds \<and>
    regs (tasks s' (runningThread s)) = (regs (tasks s (runningThread s)))\<lparr>kernelRsp := switchRsp s,
      rax := rax (switchRegs s), rbx := rbx (switchRegs s), rcx := rcx (switchRegs s), rdx := rdx (switchRegs s),
      rsi := rsi (switchRegs s), rdi := rdi (switchRegs s), rbp := rbp (switchRegs s)\<rparr> \<and>
    cr3_reg s' = cr3 r \<and> mutex s' = 0 \<and>
    regs (tasks s' t) = r\<lparr>reg_count := (if reg_count r = 0 then 1 else reg_count r), reg_add := (if reg_count r = 0 then 40 else 0)\<rparr> \<and>
    cpu_regs s' = (regs (tasks s' t))\<lparr>rsi := regs_addr t\<rparr> \<and>
    cpu_rsp s' = k - (if reg_count r = 0 then 40 else 0) \<and> tss_rsp0 s' = cpu_rsp s' + 40 \<and>
    (currAlarmCount (tasks s' t), expectedAlarmCount (tasks s' t), functionPointer (tasks s' t)) =
      (if due then (0, 0, NULL) else (currAlarmCount (tasks s t), expectedAlarmCount (tasks s t), fp)) \<and>
    pmem s' = (if due then (pmem s)(k2p (kernbase s) (k + 24) := u, k2p (kernbase s) k := fp, a := rd s k) else pmem s) \<and>
    (due \<and> reg_count r \<noteq> 0 \<and> kernbase s \<le> k \<and> k \<le> k + 24 \<and> a \<notin> {k2p (kernbase s) k, k2p (kernbase s) (k + 24)} \<longrightarrow>
       iret_rip s' = fp \<and> iret_rsp s' = u)"
proof -
  let ?r = "runningThread s"
  from q have n: "tnext s ?r = t" "t \<noteq> ?r" by (auto simp: queues_def ring_def)
  note Q = runNextTask_rotates [OF q, folded s']
  define s0 where "s0 = prepare_entry t (save_running s\<lparr>runningThread := t\<rparr>)"
  have e: "s' = enter_task t (fire_alarm t s0)"
    using n by (simp add: s' runNextTask_def Let_def save_running_def s0_def frame_simps)
  have t0: "tasks s0 t = (tasks s t)\<lparr>regs := r\<lparr>reg_count := (if reg_count r = 0 then 1 else reg_count r),
      reg_add := (if reg_count r = 0 then 40 else 0)\<rparr>\<rparr>"
    using n by (simp add: s0_def save_running_def prepare_entry_def set_tss_rsp_def upd_regs_def upd_task_def Let_def r_def)
  have r0: "regs (tasks s0 ?r) = (regs (tasks s ?r))\<lparr>kernelRsp := switchRsp s,
      rax := rax (switchRegs s), rbx := rbx (switchRegs s), rcx := rcx (switchRegs s), rdx := rdx (switchRegs s),
      rsi := rsi (switchRegs s), rdi := rdi (switchRegs s), rbp := rbp (switchRegs s)\<rparr>"
    using n by (simp add: s0_def save_running_def prepare_entry_def set_tss_rsp_def upd_regs_def upd_task_def Let_def)
  have p0: "pmem s0 = pmem s" "kernbase s0 = kernbase s" by (simp_all add: s0_def save_running_def frame_simps)
  have tss: "tss_rsp0 s0 = k - (if reg_count r = 0 then 40 else 0) + 40"
    using n by (simp add: s0_def save_running_def prepare_entry_def set_tss_rsp_def upd_regs_def upd_task_def Let_def r_def k_def)
  have m: "pmem (fire_alarm t s0) = (if due then (pmem s)(k2p (kernbase s) (k + 24) := u, k2p (kernbase s) k := fp, a := rd s k) else pmem s)"
  proof (cases due)
    case True
    then have "pmem (fire_alarm t s0) = pmem (changeToAlarmFunction fp (regs (tasks s0 t)) s0)"
      by (simp add: fire_alarm_def frame_simps t0 due_def fp_def)
    also have "\<dots> = (pmem (wr k fp (wr (k + 24) u s0)))(v2p (wr k fp (wr (k + 24) u s0)) (cr3 r) u := rd s k)"
      by (simp add: alarm_pmem t0 Let_def k_def u_def rd_def p0)
    also have "v2p (wr k fp (wr (k + 24) u s0)) = v2p s1" by (rule v2p_same) (simp_all add: s1_def wr_def p0)
    finally have "pmem (fire_alarm t s0) = (pmem (wr k fp (wr (k + 24) u s0)))(a := rd s k)" by (simp only: a_def)
    then show ?thesis using True by (simp add: wr_def p0)
  next
    case False
    then show ?thesis by (simp add: fire_alarm_def t0 due_def p0)
  qed
  have f: "kernbase (fire_alarm t s0) = kernbase s" "tss_rsp0 (fire_alarm t s0) = tss_rsp0 s0"
    "tasks (fire_alarm t s0) = (tasks s0)(t := (if due then (tasks s0 t)\<lparr>functionPointer := NULL, currAlarmCount := 0, expectedAlarmCount := 0\<rparr> else tasks s0 t))"
    using p0 by (auto simp: fire_alarm_def upd_task_def changeToAlarmFunction_def uwr_def wr_def Let_def t0 due_def)
  have k24: "k2p (kernbase s) k \<noteq> k2p (kernbase s) (k + 24)" if "kernbase s \<le> k" "k \<le> k + 24"
    using that by (auto simp: k2p_def)
  have sp: "cpu_rsp s' = k - (if reg_count r = 0 then 40 else 0)" by (simp add: e frame_simps f(3) t0 k_def)
  have st: "pmem s' = pmem (fire_alarm t s0)" "kernbase s' = kernbase s" by (simp_all add: e frame_simps f(1))
  have fr: "iret_rip s' = fp \<and> iret_rsp s' = u"
    if "due \<and> reg_count r \<noteq> 0 \<and> kernbase s \<le> k \<and> k \<le> k + 24 \<and> a \<notin> {k2p (kernbase s) k, k2p (kernbase s) (k + 24)}"
    using that k24 by (auto simp: iret_rip_def iret_rsp_def rd_def sp st m)
  have al: "(currAlarmCount (tasks s' t), expectedAlarmCount (tasks s' t), functionPointer (tasks s' t)) =
      (if due then (0, 0, NULL) else (currAlarmCount (tasks s t), expectedAlarmCount (tasks s t), fp))"
    by (simp add: e frame_simps f(3) t0 fp_def)
  have rt: "regs (tasks s' t) = r\<lparr>reg_count := (if reg_count r = 0 then 1 else reg_count r), reg_add := (if reg_count r = 0 then 40 else 0)\<rparr>"
    by (simp add: e frame_simps f(3) t0)
  have cr: "cpu_regs s' = (regs (tasks s' t))\<lparr>rsi := regs_addr t\<rparr>" "cr3_reg s' = cr3 r" "mutex s' = 0" "tss_rsp0 s' = cpu_rsp s' + 40"
    "regs (tasks s' ?r) = regs (tasks s0 ?r)"
    using n unfolding sp by (simp_all add: e frame_simps f(3) t0) (simp add: enter_task_def moveToNextProcess_def f(2) tss)
  show ?thesis using Q n cr r0 rt al sp m fr unfolding st(1) by simp
qed

theorem runNextTask_switch_witness:
  "runningThread (runNextTask small_kernel) = 0x20 \<and> cr3_reg (runNextTask small_kernel) = page_of 256 \<and>
   mutex (runNextTask small_kernel) = 0 \<and> rsi (cpu_regs (runNextTask small_kernel)) = 0x70"
  using runNextTask_switch [OF small_queues refl]
  by (simp add: small_kernel_sel small_task_def zero_task_def regs_addr_def)

text \<open>\<open>waitpid\<close> on a well-formed run queue always returns, reports status 1 and the given pid exactly
  when another task of the queue has that pid and is alive, and -1 with status 0 otherwise. For pid -1
  it looks for a living task with the same parent as the caller (a sibling, not a child), and returns that parent's pid.\<close>

theorem waitpid_result:
  assumes "queues s ts ds"
  defines "pp \<equiv> ppid_t (tasks s (runningThread s))"
  shows "waitpid pid s = Some
    (if \<exists>t \<in> set ts. waitpid_match pid pp (tasks s t)
     then (if pid = - 1 then scast pp else pid, 1) else (- 1, 0))"
proof -
  let ?r = "runningThread s" and ?P = "\<lambda>t. waitpid_match pid pp (tasks s t)"
  from assms(1) have p: "path (tnext s) (tnext s ?r) ts ?r" "?r \<notin> set ts" by (auto simp: queues_def ring_def)
  note C = chase_ring_find [OF p, of ?P]
  show ?thesis
  proof (cases "find ?P ts")
    case None
    with C have "waitpid pid s = Some (- 1, 0)" by (simp add: waitpid_def Let_def pp_def)
    moreover from None have "\<not> (\<exists>t \<in> set ts. ?P t)" by (simp add: find_None_iff)
    ultimately show ?thesis by (simp only: if_False)
  next
    case (Some t)
    then have t: "t \<in> set ts" "?P t" by (auto simp: find_Some_iff)
    moreover have "t \<noteq> ?r" using t p(2) by auto
    moreover have "pid = - 1 \<Longrightarrow> ppid_t (tasks s t) = pp" using t(2) by (simp add: waitpid_match_def)
    ultimately have "waitpid pid s = Some (if pid = - 1 then scast pp else pid, 1)"
      using C Some by (simp add: waitpid_def Let_def pp_def)
    moreover from t have "\<exists>t \<in> set ts. ?P t" by blast
    ultimately show ?thesis by (simp only: if_True)
  qed
qed

theorem waitpid_result_witness:
  "waitpid 3 small_kernel = Some (3, 1) \<and> waitpid 7 small_kernel = Some (- 1, 0)"
  using waitpid_result [OF small_queues, of 3] waitpid_result [OF small_queues, of 7]
  by (simp add: waitpid_match_def small_kernel_sel small_task_def zero_task_def)

text \<open>\<open>ps\<close> prints the header, then the running task, then every other task of the run queue in
  scheduling order as RUNNING, then every deleted task as EXITED, and terminates.\<close>

theorem ps_lists_all:
  assumes "queues s ts ds"
  shows "\<exists>s'. ps s = Some s' \<and> tasks s' = tasks s \<and> klog s' = klog s @
    [(''PID START_TIME END_TIME STATE      BINARY\<newline>'', []),
     (''%d  %d:%d:%d   %d:%d:%d %s         %s\<newline>'', ps_args ''RUNNING'' (tasks s (runningThread s)))] @
    map (\<lambda>t. (''%d    %d:%d:%d    %d:%d:%d    %s      %s\<newline>'', ps_args ''RUNNING'' (tasks s t))) ts @
    map (\<lambda>t. (''%d    %d:%d:%d    %d:%d:%d    %s      %s\<newline>'', ps_args ''EXITED'' (tasks s t))) ds"
proof -
  let ?r = "runningThread s" and ?fmt = "''%d    %d:%d:%d    %d:%d:%d    %s      %s\<newline>''"
  define s2 where "s2 = ps_line ''%d  %d:%d:%d   %d:%d:%d %s         %s\<newline>'' ''RUNNING'' (tasks s ?r)
    (kprintf ''PID START_TIME END_TIME STATE      BINARY\<newline>'' [] s)"
  have s2: "tasks s2 = tasks s" "deleteQueue s2 = deleteQueue s"
    "klog s2 = klog s @ [(''PID START_TIME END_TIME STATE      BINARY\<newline>'', []),
       (''%d  %d:%d:%d   %d:%d:%d %s         %s\<newline>'', ps_args ''RUNNING'' (tasks s ?r))]"
    by (simp_all add: s2_def ps_line_def ps_args_def frame_simps)
  let ?f = "\<lambda>st t s. ps_line ?fmt st (tasks s t) s"
  from assms have p: "path (tnext s2) (tnext s2 ?r) ts ?r" "?r \<notin> set ts"
    "path (tnext s) (deleteQueue s) ds NULL" "NULL \<notin> set ds"
    by (auto simp: queues_def ring_def s2)
  define s3 where "s3 = fold (?f ''RUNNING'') ts s2"
  have 1: "for_ptrs tnext ?r (\<lambda>t s. Some (?f ''RUNNING'' t s)) (tnext s2 ?r) s2 = Some s3"
    unfolding s3_def by (rule for_ptrs_fold) (use p in \<open>simp_all add: frame_simps\<close>)
  have s3: "tasks s3 = tasks s" "deleteQueue s3 = deleteQueue s"
    by (simp_all add: s3_def fold_ps_lines s2)
  have 2: "for_ptrs tnext NULL (\<lambda>t s. Some (?f ''EXITED'' t s)) (deleteQueue s3) s3 =
      Some (fold (?f ''EXITED'') ds s3)"
    by (rule for_ptrs_fold) (use p in \<open>simp_all add: s3 frame_simps\<close>)
  have "ps s = Some (fold (?f ''EXITED'') ds s3)"
    using 1 2 by (simp add: ps_def Let_def s2_def [symmetric])
  then show ?thesis
    by (simp add: fold_ps_lines s3 s2) (simp add: s3_def fold_ps_lines s2)
qed

theorem ps_lists_all_witness: "\<exists>s'. ps small_kernel = Some s' \<and> length (klog s') = 5"
  using ps_lists_all [OF small_queues] by (auto simp: small_kernel_sel)

end
