(* ===== verification/Vma.thy ===== *)
theory Vma
  imports TaskQueue
begin

text \<open>
  The list of memory areas (VMAs) of a task: \<open>malloc\<close>, \<open>free\<close>, the look-ups, \<open>copyVMA\<close>
  (\<open>sys/task.c\<close>) and the user stack \<open>stackForUser\<close> (\<open>sys/virtualMemory.c\<close>). Lemmas see the list as
  \<open>vma_list s p vs\<close>. Areas are addresses only: pages are mapped by the page-fault handler when
  they are first used.
\<close>

section \<open>Operations\<close>

text \<open>The head of the running task's list.\<close>

abbreviation run_mmap :: "'a kernel_scheme \<Rightarrow> u64" where
  "run_mmap s \<equiv> mmap (memMap (tasks s (runningThread s)))"

definition upd_mmap :: "u64 \<Rightarrow> u64 \<Rightarrow> 'a kernel_scheme \<Rightarrow> 'a kernel_scheme" where
  "upd_mmap t p = upd_task t (\<lambda>k. k\<lparr>memMap := (memMap k)\<lparr>mmap := p\<rparr>\<rparr>)"

text \<open>
  The loop of \<open>malloc\<close>: it stops at the last area, or at one whose successor was freed and
  left a large enough hole. The result: where it stopped, \<open>end\<close> and \<open>setNextFreed\<close>.
\<close>

partial_function (option) malloc_scan ::
    "u64 \<Rightarrow> u64 \<Rightarrow> u64 \<Rightarrow> 'a kernel_scheme \<Rightarrow> (u64 \<times> u64 \<times> u64 \<times> 'a kernel_scheme) option" where
  "malloc_scan sz temp en s =
     (if vnext s temp \<noteq> NULL
      then (let nx = vmas s (vnext s temp);
                en' = (if grows_down nx = 0 then (if v_end nx > en then v_end nx else en) else en)
            in if isNextFreed (vmas s temp) = 1 \<and> v_start nx - v_end (vmas s temp) \<ge> sz
               then Some (temp, en', if v_start nx - v_end (vmas s temp) \<noteq> sz then 1 else 0,
                          upd_vma temp (\<lambda>v. v\<lparr>isNextFreed := 0\<rparr>) s)
               else malloc_scan sz (vnext s temp) en' s)
      else Some (temp, en, 0, s))"

definition fill_vma :: "u64 \<Rightarrow> u64 \<Rightarrow> u64 \<Rightarrow> u64 \<Rightarrow> u64 \<Rightarrow> VMA \<Rightarrow> VMA" where
  "fill_vma pn mm start sz freed v =
     v\<lparr>pageNumber := pn, v_mm := mm, v_start := start, v_end := start + sz, mmsz := sz,
       v_flags := 0, grows_down := 0, isNextFreed := freed, v_file := 0, vma_next := NULL, v_offset := 0\<rparr>"

definition malloc :: "u64 \<Rightarrow> 'a kernel_scheme \<Rightarrow> (u64 \<times> 'a kernel_scheme) option" where
  "malloc sz s =
     (let r = runningThread s; temp = run_mmap s in
      case kmalloc_vma s of (newVma, s1) \<Rightarrow>
      if temp = NULL
      then (case getNextPageNum s1 of (pn, s2) \<Rightarrow>
            let s3 = upd_vma newVma (\<lambda>v. fill_vma pn (memMap_addr r) 0 sz (isNextFreed v) v) s2
            in Some (0, upd_mmap r newVma s3))
      else (case malloc_scan sz temp 0 s1 of
              None \<Rightarrow> None
            | Some (lst, en, freed, s2) \<Rightarrow>
                (case getNextPageNum s2 of (pn, s3) \<Rightarrow>
                 let s4 = upd_vma newVma (fill_vma pn (memMap_addr r) en sz freed) s3
                 in Some (en, upd_vma lst (\<lambda>v. v\<lparr>vma_next := newVma\<rparr>) s4))))"

text \<open>
  \<open>free\<close>: the area behind the one found is unlinked and a hole is marked. The address given to
  \<open>pageDeAllocator\<close> is computed by pointer arithmetic on \<open>VMA*\<close> (\<open>vmaTemp->next - get_kernbase()\<close>
  subtracts 88 bytes per unit) and from the successor of the area; where its bit lies outside the
  bitmap, \<open>free\<close> writes into other memory and has no value.
\<close>

definition sizeof_VMA :: u64 where "sizeof_VMA = 88"

definition free :: "u64 \<Rightarrow> 'a kernel_scheme \<Rightarrow> 'a kernel_scheme option" where
  "free ptr s =
     (case chase (\<lambda>v. vnext s v \<noteq> NULL \<and> v_start (vmas s (vnext s v)) \<noteq> ptr) (vnext s) (run_mmap s) of
        None \<Rightarrow> None
      | Some v \<Rightarrow>
          if vnext s v = NULL then Some s
          else (let s1 = upd_vma v (\<lambda>a. a\<lparr>vma_next := vnext s (vnext s v), isNextFreed := 1\<rparr>) s
                in pageDeAllocator_checked ((vnext s1 v - sizeof_VMA * kernbase s1) AND FRAME) s1))"

definition isPartofCurrentVma :: "u64 \<Rightarrow> 'a kernel_scheme \<Rightarrow> i32 option" where
  "isPartofCurrentVma addr s =
     (case chase (\<lambda>v. v \<noteq> NULL \<and> v_start (vmas s v) AND FRAME \<noteq> addr) (vnext s) (run_mmap s) of
        None \<Rightarrow> None | Some v \<Rightarrow> Some (if v = NULL then 0 else 1))"

definition getPageNumFromAddr :: "u64 \<Rightarrow> 'a kernel_scheme \<Rightarrow> u64 option" where
  "getPageNumFromAddr addr s =
     (case chase (\<lambda>v. v \<noteq> NULL \<and> v_start (vmas s v) AND FRAME \<noteq> addr) (vnext s) (run_mmap s) of
        None \<Rightarrow> None | Some v \<Rightarrow> Some (if v = NULL then - 1 else pageNumber (vmas s v)))"

text \<open>Appending at the end of a task's list, as \<open>copyVMA\<close> does for every area of the parent.\<close>

definition append_vma :: "u64 \<Rightarrow> u64 \<Rightarrow> 'a kernel_scheme \<Rightarrow> 'a kernel_scheme option" where
  "append_vma t new s =
     (let hd_vma = mmap (memMap (tasks s t)) in
      if hd_vma = NULL
      then Some (upd_vma new (\<lambda>v. v\<lparr>vma_next := NULL\<rparr>) (upd_mmap t new s))
      else case chase (\<lambda>v. vnext s v \<noteq> NULL) (vnext s) hd_vma of
             None \<Rightarrow> None
           | Some temp \<Rightarrow> Some (upd_vma new (\<lambda>v. v\<lparr>vma_next := NULL\<rparr>)
                                 (upd_vma temp (\<lambda>v. v\<lparr>vma_next := new\<rparr>) s)))"

definition copy_one_vma :: "u64 \<Rightarrow> u64 \<Rightarrow> 'a kernel_scheme \<Rightarrow> 'a kernel_scheme option" where
  "copy_one_vma task old s =
     (case kmalloc_vma s of (new, s1) \<Rightarrow>
      if new = NULL then Some s1
      else (let ov = vmas s1 old;
                s2 = upd_vma new (\<lambda>v. v\<lparr>pageNumber := pageNumber ov, v_mm := memMap_addr task,
                       grows_down := grows_down ov, v_start := v_start ov, v_end := v_end ov, mmsz := mmsz ov,
                       v_flags := v_flags ov, v_offset := v_offset ov, v_file := v_file ov\<rparr>) s1;
                s3 = upd_task task (\<lambda>k. k\<lparr>memMap := (memMap k)\<lparr>mm_count := mm_count (memMap k) + 1\<rparr>\<rparr>) s2
            in append_vma task new s3))"

definition copyVMA :: "u64 \<Rightarrow> u64 \<Rightarrow> 'a kernel_scheme \<Rightarrow> 'a kernel_scheme option" where
  "copyVMA task vma s = for_ptrs vnext NULL (copy_one_vma task) vma (upd_mmap task NULL s)"

definition stackForUser :: "u64 \<Rightarrow> 'a kernel_scheme \<Rightarrow> (u64 \<times> 'a kernel_scheme) option" where
  "stackForUser t s =
     (case pageAllocator s of (ptr, s1) \<Rightarrow>
      let s2 = mapPageForUser (USER_VIRTUAL_STACK_TOP - 0x1000) ptr (cr3 (regs (tasks s1 t)) + kernbase s1) s1;
          s3 = forceMapPage (USER_VIRTUAL_STACK_TOP - 0x1000) ptr (pml4 s2) 0 s2;
          s4 = memset (ptr + kernbase s3) s3;
          first = mmap (memMap (tasks s4 t)) in
      case chase (\<lambda>v. v \<noteq> NULL \<and> vnext s4 v \<noteq> NULL) (vnext s4) first of
        None \<Rightarrow> None
      | Some lst \<Rightarrow>
          (case kmalloc_vma s4 of (new, s5) \<Rightarrow>
           case getNextPageNum s5 of (pn, s6) \<Rightarrow>
           let s7 = upd_vma new (\<lambda>v. v\<lparr>pageNumber := pn\<rparr>) s6;
               s8 = (if lst = NULL then upd_mmap t new s7 else upd_vma lst (\<lambda>v. v\<lparr>vma_next := new\<rparr>) s7);
               s9 = upd_task t (\<lambda>k. k\<lparr>memMap := (memMap k)\<lparr>mm_count := mm_count (memMap k) + 1\<rparr>\<rparr>) s8;
               s10 = upd_vma new (\<lambda>v. v\<lparr>vma_next := NULL, grows_down := 1, v_start := USER_VIRTUAL_STACK_TOP - 0x1000,
                       v_end := USER_VIRTUAL_STACK_TOP, mmsz := 0x1000\<rparr>) s9
           in Some (USER_VIRTUAL_STACK_TOP - 0x1000, s10)))"

section \<open>The list of areas\<close>

text \<open>
  The areas \<open>vs\<close> are linked from \<open>p\<close> and each lives in a frame that is in use, so that
  \<open>kmalloc\<close> cannot hand it out again.
\<close>

definition live :: "'a kernel_scheme \<Rightarrow> u64 \<Rightarrow> bool" where
  "live s p \<longleftrightarrow> (\<exists>f \<in> used_frames s. p = page_of f + KERNBASE)"

definition vma_list :: "'a kernel_scheme \<Rightarrow> u64 \<Rightarrow> u64 list \<Rightarrow> bool" where
  "vma_list s p vs \<longleftrightarrow> path (vnext s) p vs NULL \<and> distinct vs \<and> (\<forall>v \<in> set vs. live s v)"

lemma kernel_ptr_not_null:
  assumes "f < 65536"
  shows "page_of f + KERNBASE \<noteq> NULL"
proof -
  have "unat (page_of f + KERNBASE) = unat (page_of f) + unat KERNBASE"
    using assms by (intro unat_add_64) (simp add: unat_page_of unat_KERNBASE)
  then have "unat (page_of f + KERNBASE) \<noteq> 0" by (simp add: unat_KERNBASE)
  then show ?thesis by (metis unat_0)
qed

lemma live_not_null: "live s p \<Longrightarrow> p \<noteq> NULL"
  using kernel_ptr_not_null by (auto simp: live_def used_frames_def)

lemma vma_list_not_null: "vma_list s p vs \<Longrightarrow> NULL \<notin> set vs"
  using live_not_null by (auto simp: vma_list_def)

lemma vma_list_empty: "vma_list s p vs \<Longrightarrow> p = NULL \<longleftrightarrow> vs = []"
  using vma_list_not_null [of s p vs] by (cases vs) (auto simp: vma_list_def)

lemma live_cong: "used_frames s' = used_frames s \<Longrightarrow> live s' p = live s p"
  by (simp add: live_def)

lemma vm_ok_upd [frame_simps]:
  "vm_ok (upd_vma v f s) = vm_ok s" "used_frames (upd_vma v f s) = used_frames s"
  "vm_ok (upd_task t g s) = vm_ok s" "used_frames (upd_task t g s) = used_frames s"
  by (simp_all add: vm_ok_def phys_inv_def used_frames_def frame_simps)
    (simp_all add: upd_vma_def upd_task_def free_frames_def)

lemma upd_mmap_frame [frame_simps]:
  "vmas (upd_mmap t p s) = vmas s" "runningThread (upd_mmap t p s) = runningThread s"
  "deleteQueue (upd_mmap t p s) = deleteQueue s" "pmem (upd_mmap t p s) = pmem s"
  "kernbase (upd_mmap t p s) = kernbase s" "vm_ok (upd_mmap t p s) = vm_ok s"
  "used_frames (upd_mmap t p s) = used_frames s" "free_frames (upd_mmap t p s) = free_frames s"
  "tasks (upd_mmap t p s) = (tasks s)(t := (tasks s t)\<lparr>memMap := (memMap (tasks s t))\<lparr>mmap := p\<rparr>\<rparr>)"
  by (simp_all add: upd_mmap_def frame_simps)

lemma pagenum_frame [frame_simps]:
  "vmas (snd (getNextPageNum s)) = vmas s" "tasks (snd (getNextPageNum s)) = tasks s"
  "runningThread (snd (getNextPageNum s)) = runningThread s" "vm_ok (snd (getNextPageNum s)) = vm_ok s"
  "used_frames (snd (getNextPageNum s)) = used_frames s" "free_frames (snd (getNextPageNum s)) = free_frames s"
  "deleteQueue (snd (getNextPageNum s)) = deleteQueue s"
  by (simp_all add: getNextPageNum_def Let_def vm_ok_def phys_inv_def used_frames_def free_frames_def)

text \<open>A new area structure: fresh, cleared, and the rest as before.\<close>

lemma kmalloc_vma_ok:
  assumes "vm_ok s" and "free_frames s \<noteq> {}"
  shows "\<exists>g s'. kmalloc_vma s = (page_of g + KERNBASE, s') \<and> g \<in> free_frames s \<and>
    \<not> live s (page_of g + KERNBASE) \<and> live s' (page_of g + KERNBASE) \<and>
    vmas s' = (vmas s)(page_of g + KERNBASE := zero_vma) \<and> tasks s' = tasks s \<and>
    runningThread s' = runningThread s \<and> deleteQueue s' = deleteQueue s \<and> vm_ok s' \<and> used_frames s' = insert g (used_frames s) \<and>
    free_frames s' = free_frames s - {g}"
proof -
  obtain p t where k: "kmalloc s = (p, t)" by fastforce
  from kmalloc_zeroed_lemma [OF assms k] obtain g where g: "g \<in> free_frames s" "p = page_of g + KERNBASE"
    "free_frames t = free_frames s - {g}" "vm_ok t" by blast
  have po: "phys_only s t" using phys_only_kmalloc [of s] k by simp
  have gb: "0 < g" "g < 65536" using g(1) assms(1) free_frames_bound by (auto simp: vm_ok_def)
  let ?s = "upd_vma p (\<lambda>_. zero_vma) t"
  have u: "used_frames ?s = insert g (used_frames s)"
    using g(1,3) gb by (auto simp: used_frames_def frame_simps)
  have "\<not> live s p"
    using g(1) gb unfolding g(2) live_def by (auto simp: used_frames_def page_of_inj)
  moreover have "kmalloc_vma s = (p, ?s)" by (simp add: kmalloc_vma_def k)
  ultimately show ?thesis
    using g u phys_onlyD [OF po]
    by (intro exI [of _ g] exI [of _ ?s]) (simp add: live_def frame_simps)
qed

text \<open>What \<open>malloc\<close> computes as the start of a new area: the highest end of the areas after the first.\<close>

definition next_end :: "u64 \<Rightarrow> VMA \<Rightarrow> u64" where
  "next_end en v = (if grows_down v = 0 then (if v_end v > en then v_end v else en) else en)"

lemma malloc_scan_end:
  assumes "path (vnext s) p (v # vs) NULL" and "NULL \<notin> set vs"
    and "\<forall>w \<in> set (v # vs). isNextFreed (vmas s w) \<noteq> 1"
  shows "malloc_scan sz v en s = Some (last (v # vs), fold (\<lambda>w e. next_end e (vmas s w)) vs en, 0, s)"
  using assms
proof (induction vs arbitrary: p v en)
  case Nil
  then show ?case by (simp add: malloc_scan.simps)
next
  case (Cons w vs)
  then have w: "vnext s v = w" "w \<noteq> NULL" "isNextFreed (vmas s v) \<noteq> 1" by auto
  have "malloc_scan sz v en s = malloc_scan sz w (next_end en (vmas s w)) s"
    using w by (subst malloc_scan.simps) (simp add: Let_def next_end_def)
  also have "\<dots> = Some (last (w # vs), fold (\<lambda>w e. next_end e (vmas s w)) vs (next_end en (vmas s w)), 0, s)"
    by (rule Cons.IH [of w]) (use Cons.prems w in auto)
  finally show ?case by simp
qed

lemma fold_next_end:
  "en \<le> fold (\<lambda>w e. next_end e (a w)) vs en \<and>
   (\<forall>w \<in> set vs. grows_down (a w) = 0 \<longrightarrow> v_end (a w) \<le> fold (\<lambda>w e. next_end e (a w)) vs en)"
proof (induction vs arbitrary: en)
  case (Cons x vs)
  have "en \<le> next_end en (a x)" by (simp add: next_end_def less_imp_le)
  moreover have "grows_down (a x) = 0 \<Longrightarrow> v_end (a x) \<le> next_end en (a x)" by (simp add: next_end_def not_less)
  moreover note Cons.IH [of "next_end en (a x)"]
  ultimately show ?case by (auto intro: order_trans)
qed simp

section \<open>Copying the list of areas\<close>

text \<open>What an area says, apart from its place in a list and its owner.\<close>

definition area :: "VMA \<Rightarrow> u64 list" where
  "area v = [v_start v, v_end v, mmsz v, v_flags v, grows_down v, v_file v, v_offset v, pageNumber v]"

lemma area_next [simp]: "area (v\<lparr>vma_next := n\<rparr>) = area v"
  by (simp add: area_def)

abbreviation task_mmap :: "'a kernel_scheme \<Rightarrow> u64 \<Rightarrow> u64" where
  "task_mmap s t \<equiv> mmap (memMap (tasks s t))"

definition same_rest :: "u64 \<Rightarrow> 'a kernel_scheme \<Rightarrow> 'a kernel_scheme \<Rightarrow> bool" where
  "same_rest t s s' \<longleftrightarrow> (\<forall>x. x \<noteq> t \<longrightarrow> tasks s' x = tasks s x) \<and>
     tasks s' t = (tasks s t)\<lparr>memMap := memMap (tasks s' t)\<rparr> \<and> runningThread s' = runningThread s \<and>
     deleteQueue s' = deleteQueue s"

lemma same_rest_trans:
  assumes "same_rest t s s'" and "same_rest t s' s''"
  shows "same_rest t s s''"
proof -
  have "(x\<lparr>memMap := a\<rparr>)\<lparr>memMap := b\<rparr> = x\<lparr>memMap := b\<rparr>" for x :: Task and a b by simp
  with assms show ?thesis unfolding same_rest_def by metis
qed

lemma append_vma_ok:
  assumes l: "vma_list s (task_mmap s t) ws" and n: "live s new" "new \<notin> set ws"
  shows "\<exists>s'. append_vma t new s = Some s' \<and> vma_list s' (task_mmap s' t) (ws @ [new]) \<and>
    (\<forall>v. area (vmas s' v) = area (vmas s v)) \<and> (\<forall>v. v \<notin> set ws \<and> v \<noteq> new \<longrightarrow> vmas s' v = vmas s v) \<and>
    same_rest t s s' \<and> vm_ok s' = vm_ok s \<and> used_frames s' = used_frames s \<and> free_frames s' = free_frames s"
proof (cases "ws = []")
  case True
  with vma_list_empty [OF l] have e: "task_mmap s t = NULL" by simp
  let ?s = "upd_vma new (\<lambda>v. v\<lparr>vma_next := NULL\<rparr>) (upd_mmap t new s)"
  have "append_vma t new s = Some ?s" by (simp add: append_vma_def e)
  moreover have "vma_list ?s (task_mmap ?s t) (ws @ [new])"
    using True n(1) by (simp add: vma_list_def frame_simps live_def)
  ultimately show ?thesis
    using True by (intro exI [of _ ?s]) (simp add: frame_simps same_rest_def)
next
  case False
  then obtain us u where ws: "ws = us @ [u]" by (cases ws rule: rev_cases) auto
  from l have pa: "path (vnext s) (task_mmap s t) ws NULL" "distinct ws" "\<forall>w \<in> set ws. live s w"
    by (auto simp: vma_list_def)
  have ne: "task_mmap s t \<noteq> NULL" using vma_list_empty [OF l] False by simp
  have c: "chase (\<lambda>v. vnext s v \<noteq> NULL) (vnext s) (task_mmap s t) = Some u"
    using path_find_last [OF pa(1) False vma_list_not_null [OF l] pa(2)] ws by simp
  define s' where "s' = upd_vma new (\<lambda>v. v\<lparr>vma_next := NULL\<rparr>) (upd_vma u (\<lambda>v. v\<lparr>vma_next := new\<rparr>) s)"
  have un: "u \<noteq> new" using n ws by auto
  have vm': "vmas s' v = (if v = new then (vmas s v)\<lparr>vma_next := NULL\<rparr>
      else if v = u then (vmas s v)\<lparr>vma_next := new\<rparr> else vmas s v)" for v
    using un by (simp add: s'_def frame_simps)
  have "path (vnext s') (task_mmap s t) us u"
    by (rule path_fun_upd [where nx = "vnext s"]) (use pa n ws vm' in auto)
  then have "path (vnext s') (task_mmap s t) (ws @ [new]) NULL"
    using un unfolding ws path_append by (intro exI conjI) (simp_all add: vm')
  moreover have lv: "live s' w = live s w" for w by (simp add: s'_def frame_simps live_def)
  moreover have fr: "task_mmap s' t = task_mmap s t" "same_rest t s s'" "vm_ok s' = vm_ok s"
    "used_frames s' = used_frames s" "free_frames s' = free_frames s"
    by (simp_all add: s'_def frame_simps same_rest_def)
  ultimately have "vma_list s' (task_mmap s' t) (ws @ [new])"
    using pa n by (auto simp: vma_list_def)
  moreover have "append_vma t new s = Some s'" using ne c by (simp add: append_vma_def s'_def)
  moreover have "area (vmas s' v) = area (vmas s v)" for v by (simp add: vm')
  moreover have "vmas s' v = vmas s v" if "v \<notin> set ws" "v \<noteq> new" for v using that ws by (simp add: vm')
  ultimately show ?thesis
    using fr by (intro exI [of _ s']) simp
qed

lemma copy_one_vma_ok:
  assumes ok: "vm_ok s" "free_frames s \<noteq> {}" and l: "vma_list s (task_mmap s t) ws" and old: "live s ov"
  shows "\<exists>s' new. copy_one_vma t ov s = Some s' \<and> vma_list s' (task_mmap s' t) (ws @ [new]) \<and> \<not> live s new \<and>
    area (vmas s' new) = area (vmas s ov) \<and> (\<forall>v. live s v \<longrightarrow> live s' v \<and> area (vmas s' v) = area (vmas s v)) \<and>
    (\<forall>v. live s v \<and> v \<notin> set ws \<longrightarrow> vmas s' v = vmas s v) \<and>
    same_rest t s s' \<and> vm_ok s' \<and> card (free_frames s) \<le> Suc (card (free_frames s'))"
proof -
  obtain new s1 g where k: "kmalloc_vma s = (new, s1)" "new = page_of g + KERNBASE" "g \<in> free_frames s"
    "\<not> live s new" "live s1 new" "vmas s1 = (vmas s)(new := zero_vma)" "tasks s1 = tasks s"
    "runningThread s1 = runningThread s" "deleteQueue s1 = deleteQueue s" "vm_ok s1"
    "used_frames s1 = insert g (used_frames s)" "free_frames s1 = free_frames s - {g}"
    using kmalloc_vma_ok [OF ok] by blast
  have nn: "new \<noteq> NULL" using live_not_null [OF k(5)] .
  have no: "ov \<noteq> new" using old k(4) by auto
  define s3 where "s3 = upd_task t (\<lambda>k. k\<lparr>memMap := (memMap k)\<lparr>mm_count := mm_count (memMap k) + 1\<rparr>\<rparr>)
    (upd_vma new (\<lambda>v. v\<lparr>pageNumber := pageNumber (vmas s1 ov), v_mm := memMap_addr t,
       grows_down := grows_down (vmas s1 ov), v_start := v_start (vmas s1 ov), v_end := v_end (vmas s1 ov),
       mmsz := mmsz (vmas s1 ov), v_flags := v_flags (vmas s1 ov), v_offset := v_offset (vmas s1 ov),
       v_file := v_file (vmas s1 ov)\<rparr>) s1)"
  have run: "copy_one_vma t ov s = append_vma t new s3"
    using nn by (simp add: copy_one_vma_def k(1) Let_def s3_def)
  have lv: "live s3 v" if "v = new \<or> live s v" for v
    using that k(5,11) by (auto simp: live_def s3_def frame_simps)
  have v3: "v \<noteq> new \<Longrightarrow> vmas s3 v = vmas s v" "area (vmas s3 new) = area (vmas s ov)" for v
    using no by (simp_all add: s3_def frame_simps k(6) area_def)
  have m3: "task_mmap s3 t = task_mmap s t" by (simp add: s3_def frame_simps k(7))
  have fresh: "new \<notin> set ws" using l k(4) by (auto simp: vma_list_def)
  have v3ws: "vnext s3 v = vnext s v" if "v \<in> set ws" for v
    using v3(1) [of v] fresh that by (cases "v = new") auto
  have "path (vnext s3) (task_mmap s3 t) ws NULL"
    unfolding m3 by (rule path_fun_upd [where nx = "vnext s"]) (use l v3ws in \<open>auto simp: vma_list_def\<close>)
  then have "vma_list s3 (task_mmap s3 t) ws" using l lv by (auto simp: vma_list_def)
  from append_vma_ok [OF this lv fresh] obtain s' where s': "append_vma t new s3 = Some s'"
    "vma_list s' (task_mmap s' t) (ws @ [new])" "\<And>v. area (vmas s' v) = area (vmas s3 v)"
    "\<And>v. v \<notin> set ws \<Longrightarrow> v \<noteq> new \<Longrightarrow> vmas s' v = vmas s3 v" "same_rest t s3 s'" "vm_ok s' = vm_ok s3"
    "used_frames s' = used_frames s3" "free_frames s' = free_frames s3" by auto
  have sr: "same_rest t s s3" by (simp add: same_rest_def s3_def frame_simps k(7,8,9))
  have ff: "free_frames s' = free_frames s - {g}" "vm_ok s'" "used_frames s' = insert g (used_frames s)"
    by (simp_all add: s' s3_def frame_simps k)
  have "live s' v \<and> area (vmas s' v) = area (vmas s v)" if "live s v" for v
    using that v3(1) [of v] k(4) ff(3) by (auto simp: s'(3) live_def)
  moreover have "vmas s' v = vmas s v" if "live s v" "v \<notin> set ws" for v
    using that s'(4) [of v] v3(1) [of v] k(4) by auto
  moreover have "card (free_frames s) \<le> Suc (card (free_frames s'))"
    using card_Suc_Diff1 [OF finite_free_frames k(3)] by (simp only: ff(1))
  ultimately show ?thesis
    using s'(1,2,3) run v3(2) same_rest_trans [OF sr s'(5)] ff(2) k(4)
    by (intro exI [of _ s'] exI [of _ new]) simp
qed

lemma copy_loop:
  assumes "vm_ok s" and "path (vnext s) p vs NULL" and "NULL \<notin> set vs" and "\<forall>v \<in> set vs. live s v"
    and "vma_list s (task_mmap s t) ws" and "set vs \<inter> set ws = {}" and "length vs \<le> card (free_frames s)"
  shows "\<exists>s' us. for_ptrs vnext NULL (copy_one_vma t) p s = Some s' \<and> vma_list s' (task_mmap s' t) (ws @ us) \<and>
    map (\<lambda>v. area (vmas s' v)) us = map (\<lambda>v. area (vmas s v)) vs \<and> (\<forall>u \<in> set us. \<not> live s u) \<and>
    (\<forall>v. live s v \<longrightarrow> live s' v \<and> area (vmas s' v) = area (vmas s v)) \<and>
    (\<forall>v. live s v \<and> v \<notin> set ws \<longrightarrow> vmas s' v = vmas s v) \<and> same_rest t s s' \<and> vm_ok s' \<and>
    card (free_frames s) \<le> length vs + card (free_frames s')"
  using assms
proof (induction vs arbitrary: p s ws)
  case Nil
  then show ?case by (intro exI [of _ s] exI [of _ "[]"]) (simp add: same_rest_def)
next
  case (Cons v vs)
  then have p: "p = v" "v \<noteq> NULL" "live s v" and ne: "free_frames s \<noteq> {}" by auto
  obtain s1 new where s1: "copy_one_vma t v s = Some s1" "vma_list s1 (task_mmap s1 t) (ws @ [new])" "\<not> live s new"
    "area (vmas s1 new) = area (vmas s v)" "\<And>w. live s w \<Longrightarrow> live s1 w \<and> area (vmas s1 w) = area (vmas s w)"
    "\<And>w. live s w \<Longrightarrow> w \<notin> set ws \<Longrightarrow> vmas s1 w = vmas s w" "same_rest t s s1" "vm_ok s1"
    "card (free_frames s) \<le> Suc (card (free_frames s1))"
    using copy_one_vma_ok [OF Cons.prems(1) ne Cons.prems(5) p(3)] by blast
  have same: "vmas s1 w = vmas s w" if "w \<in> set (v # vs)" for w
    using s1(6) [of w] Cons.prems(4,6) that by auto
  have pv: "path (vnext s1) (vnext s1 v) vs NULL"
    by (rule path_fun_upd [where nx = "vnext s"]) (use same Cons.prems(2) in auto)
  have new: "new \<notin> set vs" using s1(3) Cons.prems(4) by auto
  have l1: "\<forall>w \<in> set vs. live s1 w" using s1(5) Cons.prems(4) by auto
  have dj: "set vs \<inter> set (ws @ [new]) = {}" using Cons.prems(6) new by auto
  have len: "length vs \<le> card (free_frames s1)" using s1(9) Cons.prems(7) by simp
  have nn: "NULL \<notin> set vs" using Cons.prems(3) by simp
  from Cons.IH [OF s1(8) pv nn l1 s1(2) dj len]
  obtain s' us where s': "for_ptrs vnext NULL (copy_one_vma t) (vnext s1 v) s1 = Some s'"
    "vma_list s' (task_mmap s' t) ((ws @ [new]) @ us)" "map (\<lambda>v. area (vmas s' v)) us = map (\<lambda>v. area (vmas s1 v)) vs"
    "\<And>u. u \<in> set us \<Longrightarrow> \<not> live s1 u"
    "\<And>v. live s1 v \<Longrightarrow> live s' v \<and> area (vmas s' v) = area (vmas s1 v)"
    "\<And>v. live s1 v \<Longrightarrow> v \<notin> set (ws @ [new]) \<Longrightarrow> vmas s' v = vmas s1 v" "same_rest t s1 s'" "vm_ok s'"
    "card (free_frames s1) \<le> length vs + card (free_frames s')" by blast
  have ln: "live s1 new" using s1(2) by (simp add: vma_list_def)
  have "for_ptrs vnext NULL (copy_one_vma t) p s = Some s'"
    using p s1(1) s'(1) by (simp add: for_ptrs_step)
  moreover have "map (\<lambda>v. area (vmas s' v)) (new # us) = map (\<lambda>v. area (vmas s v)) (v # vs)"
    using s'(3) s'(5) [OF ln] s1(4) same by simp
  moreover have "live s' w \<and> area (vmas s' w) = area (vmas s w)" if "live s w" for w
    using s1(5) [OF that] s'(5) [of w] by simp
  moreover have "vmas s' w = vmas s w" if "live s w" "w \<notin> set ws" for w
    using s1(5,6) [OF that(1)] s'(6) [of w] that s1(3) by auto
  moreover have "\<forall>u \<in> set (new # us). \<not> live s u" using s1(3,5) s'(4) by auto
  ultimately show ?case
    using s'(2,8,9) s1(9) same_rest_trans [OF s1(7) s'(7)]
    by (intro exI [of _ s'] exI [of _ "new # us"]) simp
qed

section \<open>Properties\<close>

text \<open>The machine of \<open>small_kernel\<close> whose running task has a code area and a stack area.\<close>

definition small_areas :: kernel where
  "small_areas = upd_mmap 0x10 (page_of 300 + KERNBASE) (small_kernel\<lparr>vmas :=
     (\<lambda>_. zero_vma)(page_of 300 + KERNBASE := zero_vma\<lparr>v_start := 0x400000, v_end := 0x402000, vma_next := page_of 301 + KERNBASE\<rparr>,
                    page_of 301 + KERNBASE := zero_vma\<lparr>v_start := 0x600000, v_end := 0x601000, pageNumber := 5\<rparr>)\<rparr>)"

lemma small_areas_sel:
  "runningThread small_areas = 0x10" "run_mmap small_areas = page_of 300 + KERNBASE"
  "vm_ok small_areas" "free_frames small_areas = free_frames small_vm"
  "used_frames small_areas = used_frames small_vm"
  "vmas small_areas = (\<lambda>_. zero_vma)(page_of 300 + KERNBASE := zero_vma\<lparr>v_start := 0x400000, v_end := 0x402000, vma_next := page_of 301 + KERNBASE\<rparr>,
                    page_of 301 + KERNBASE := zero_vma\<lparr>v_start := 0x600000, v_end := 0x601000, pageNumber := 5\<rparr>)"
proof -
  have v: "vm_ok (small_kernel\<lparr>vmas := a\<rparr>) = vm_ok small_kernel"
    "free_frames (small_kernel\<lparr>vmas := a\<rparr>) = free_frames small_kernel"
    "used_frames (small_kernel\<lparr>vmas := a\<rparr>) = used_frames small_kernel" for a
    by (simp_all add: vm_ok_def phys_inv_def used_frames_def free_frames_def)
  show "vm_ok small_areas" "free_frames small_areas = free_frames small_vm"
    "used_frames small_areas = used_frames small_vm"
    by (simp_all add: small_areas_def frame_simps v small_kernel_sel small_ok)
qed (simp_all add: small_areas_def frame_simps small_kernel_sel)

lemma small_areas_list: "vma_list small_areas (page_of 300 + KERNBASE) [page_of 300 + KERNBASE, page_of 301 + KERNBASE]"
proof -
  have "page_of 300 \<noteq> page_of 301" by (simp add: page_of_inj)
  moreover have "live small_areas (page_of 300 + KERNBASE)" "live small_areas (page_of 301 + KERNBASE)"
    by (auto simp: live_def small_areas_sel used_frames_def free_small page_of_inj)
  ultimately show ?thesis by (simp add: vma_list_def small_areas_sel zero_vma_def)
qed

text \<open>C33: When no hole is marked in the list, \<open>malloc\<close> returns an address that lies at or above the end
  of every area after the first that is not a stack, appends an area of exactly the requested size
  there, and keeps the others as they are; it never loops.\<close>

theorem malloc_appends:
  assumes ok: "vm_ok s" "free_frames s \<noteq> {}" and l: "vma_list s (run_mmap s) (v # vs)"
    and nofree: "\<forall>w \<in> set (v # vs). isNextFreed (vmas s w) \<noteq> 1"
  shows "\<exists>addr new s'. malloc sz s = Some (addr, s') \<and> vma_list s' (run_mmap s') (v # vs @ [new]) \<and>
    v_start (vmas s' new) = addr \<and> v_end (vmas s' new) = addr + sz \<and> mmsz (vmas s' new) = sz \<and>
    (\<forall>w \<in> set vs. grows_down (vmas s w) = 0 \<longrightarrow> v_end (vmas s w) \<le> addr) \<and>
    (\<forall>w \<in> set (v # vs). vmas s' w = (vmas s w)\<lparr>vma_next := vma_next (vmas s' w)\<rparr>)"
proof -
  let ?r = "runningThread s" and ?en = "fold (\<lambda>w e. next_end e (vmas s w)) vs 0" and ?l = "last (v # vs)"
  obtain new s1 g where k: "kmalloc_vma s = (new, s1)" "new = page_of g + KERNBASE" "g \<in> free_frames s"
    "\<not> live s new" "live s1 new" "vmas s1 = (vmas s)(new := zero_vma)" "tasks s1 = tasks s"
    "runningThread s1 = ?r" "vm_ok s1" "used_frames s1 = insert g (used_frames s)"
    using kmalloc_vma_ok [OF ok] by blast
  from l have pa: "path (vnext s) (run_mmap s) (v # vs) NULL" "distinct (v # vs)" "\<forall>w \<in> set (v # vs). live s w"
    and nn: "NULL \<notin> set (v # vs)" and hd: "run_mmap s = v"
    using vma_list_not_null [OF l] by (auto simp: vma_list_def)
  with k(4) have fresh: "new \<notin> set (v # vs)" by auto
  have lin: "?l \<in> set (v # vs)" by simp
  have nn': "NULL \<noteq> new" using live_not_null [OF k(5)] by simp
  have "path (vnext s1) v (v # vs) NULL"
    by (rule path_fun_upd [where nx = "vnext s"]) (use pa hd fresh k(6) in auto)
  then have scan: "malloc_scan sz v 0 s1 = Some (?l, fold (\<lambda>w e. next_end e (vmas s1 w)) vs 0, 0, s1)"
    by (rule malloc_scan_end) (use nn nofree fresh k(6) in auto)
  have "fold (\<lambda>w e. next_end e (vmas s1 w)) vs 0 = ?en"
    by (rule fold_cong) (use fresh k(6) in auto)
  with scan have scan: "malloc_scan sz v 0 s1 = Some (?l, ?en, 0, s1)" by simp
  define t where "t = snd (getNextPageNum s1)"
  obtain pn where pn: "getNextPageNum s1 = (pn, t)" by (metis t_def prod.collapse)
  define s' where "s' = upd_vma ?l (\<lambda>v. v\<lparr>vma_next := new\<rparr>)
    (upd_vma new (fill_vma pn (memMap_addr ?r) ?en sz 0) t)"
  have "v \<noteq> NULL" using nn by simp
  then have run: "malloc sz s = Some (?en, s')"
    using hd by (simp add: malloc_def Let_def k(1) scan pn s'_def)
  have vm': "vmas s' w = (if w = new then fill_vma pn (memMap_addr ?r) ?en sz 0 zero_vma
       else if w = ?l then (vmas s w)\<lparr>vma_next := new\<rparr> else vmas s w)" for w
    using fresh lin by (auto simp: s'_def t_def frame_simps k(6))
  have m': "run_mmap s' = v" by (simp add: s'_def t_def frame_simps k(7,8) hd)
  have lv: "live s' w" if "w = new \<or> live s w" for w
    using that k(5,10) by (auto simp: live_def s'_def t_def frame_simps)
  obtain us u where vv: "v # vs = us @ [u]" by (cases "v # vs" rule: rev_cases) auto
  have pus: "path (vnext s') v us u"
    by (rule path_fun_upd [where nx = "vnext s"]) (use pa hd fresh vv vm' in auto)
  have "vnext s' u = new" "vnext s' new = NULL" using vm' [of u] vm' [of new] fresh vv by (auto simp: fill_vma_def)
  then have "path (vnext s') v ((v # vs) @ [new]) NULL" unfolding vv using pus by auto
  with m' pa fresh lv have "vma_list s' (run_mmap s') (v # vs @ [new])" by (auto simp: vma_list_def)
  moreover have "\<forall>w \<in> set vs. grows_down (vmas s w) = 0 \<longrightarrow> v_end (vmas s w) \<le> ?en"
    using fold_next_end [where a = "vmas s" and vs = vs and en = 0] by simp
  moreover have "vmas s' w = (vmas s w)\<lparr>vma_next := vma_next (vmas s' w)\<rparr>" if "w \<in> set (v # vs)" for w
    using vm' [of w] that fresh by auto
  ultimately show ?thesis
    using run vm' [of new] by (intro exI [of _ ?en] exI [of _ new] exI [of _ s']) (simp add: fill_vma_def)
qed

theorem malloc_appends_witness:
  "\<exists>addr new s'. malloc 0x1000 small_areas = Some (addr, s') \<and> 0x601000 \<le> addr \<and>
     v_end (vmas s' new) = addr + 0x1000"
proof -
  have ne: "page_of 301 \<noteq> page_of 300" by (simp add: page_of_inj)
  have "free_frames small_areas \<noteq> {}" by (simp add: small_areas_sel free_small)
  moreover have "vma_list small_areas (run_mmap small_areas) [page_of 300 + KERNBASE, page_of 301 + KERNBASE]"
    using small_areas_list by (simp only: small_areas_sel(2))
  moreover have "\<forall>w \<in> set [page_of 300 + KERNBASE, page_of 301 + KERNBASE]. isNextFreed (vmas small_areas w) \<noteq> 1"
    using ne by (simp add: small_areas_sel zero_vma_def)
  ultimately obtain addr new s' where "malloc 0x1000 small_areas = Some (addr, s')"
    "v_end (vmas s' new) = addr + 0x1000"
    "\<forall>w \<in> set [page_of 301 + KERNBASE]. grows_down (vmas small_areas w) = 0 \<longrightarrow> v_end (vmas small_areas w) \<le> addr"
    using malloc_appends [OF small_areas_sel(3), of "page_of 300 + KERNBASE" "[page_of 301 + KERNBASE]" "0x1000"]
    by auto
  then show ?thesis using ne by (auto simp: small_areas_sel zero_vma_def)
qed

text \<open>Both look-ups along the running task's list always return. An address is part of the task's
  memory exactly when it is the page of the \<^emph>\<open>first\<close> byte of an area: the later pages of an area
  larger than a page are not recognised.\<close>

theorem vma_lookups:
  assumes "vma_list s (run_mmap s) vs"
  shows "isPartofCurrentVma addr s = Some (if \<exists>v \<in> set vs. v_start (vmas s v) AND FRAME = addr then 1 else 0) \<and>
    (\<exists>n. getPageNumFromAddr addr s = Some n \<and>
      (n = - 1 \<or> (\<exists>v \<in> set vs. v_start (vmas s v) AND FRAME = addr \<and> n = pageNumber (vmas s v))) \<and>
      ((\<forall>v \<in> set vs. v_start (vmas s v) AND FRAME \<noteq> addr) \<longrightarrow> n = - 1))"
proof -
  let ?P = "\<lambda>v. v_start (vmas s v) AND FRAME = addr"
  have p: "path (vnext s) (run_mmap s) vs NULL" "NULL \<notin> set vs"
    using assms vma_list_not_null [OF assms] by (simp_all add: vma_list_def)
  note C = chase_ring_find [OF p, of ?P]
  show ?thesis
  proof (cases "find ?P vs")
    case None
    then have "\<forall>v \<in> set vs. \<not> ?P v" by (simp add: find_None_iff)
    moreover have "isPartofCurrentVma addr s = Some 0" "getPageNumFromAddr addr s = Some (- 1)"
      using C None by (simp_all add: isPartofCurrentVma_def getPageNumFromAddr_def)
    ultimately show ?thesis by simp
  next
    case (Some v)
    then have v: "v \<in> set vs" "?P v" by (auto simp: find_Some_iff)
    with p(2) have "v \<noteq> NULL" by auto
    then have "isPartofCurrentVma addr s = Some 1" "getPageNumFromAddr addr s = Some (pageNumber (vmas s v))"
      using C Some by (simp_all add: isPartofCurrentVma_def getPageNumFromAddr_def)
    with v show ?thesis by auto
  qed
qed

theorem vma_lookups_witness:
  "isPartofCurrentVma 0x400000 small_areas = Some 1 \<and> isPartofCurrentVma 0x401000 small_areas = Some 0"
proof -
  have ne: "page_of 301 \<noteq> page_of 300" by (simp add: page_of_inj)
  have l: "vma_list small_areas (run_mmap small_areas) [page_of 300 + KERNBASE, page_of 301 + KERNBASE]"
    using small_areas_list by (simp only: small_areas_sel(2))
  from ne show ?thesis
    using vma_lookups [OF l, of "0x400000"] vma_lookups [OF l, of "0x401000"]
    by (simp add: small_areas_sel zero_vma_def FRAME_def)
qed

text \<open>The frame number that \<open>free\<close> computes from the successor \<open>q\<close> of the area it unlinks.\<close>

definition freed_frame :: "u64 \<Rightarrow> 'a kernel_scheme \<Rightarrow> u64" where
  "freed_frame q s = ((q - sizeof_VMA * kernbase s) AND FRAME) div 0x1000"

lemma freed_address:
  assumes "q = NULL \<or> (\<exists>f < 65536. q = page_of f + KERNBASE)"
  shows "\<exists>F. 45613056 \<le> F \<and> F < 2 ^ 32 \<and> (q - sizeof_VMA * KERNBASE) AND FRAME = page_of F"
  using assms
proof
  assume "q = NULL"
  then have "(q - sizeof_VMA * KERNBASE) AND FRAME = page_of 46137344"
    by (simp add: sizeof_VMA_def KERNBASE_def FRAME_def page_of_def)
  then show ?thesis by (intro exI [of _ 46137344]) simp
next
  assume "\<exists>f < 65536. q = page_of f + KERNBASE"
  then obtain f where f: "f < 65536" "q = page_of f + KERNBASE" by blast
  have "KERNBASE - sizeof_VMA * KERNBASE = page_of 45613056"
    by (simp add: sizeof_VMA_def KERNBASE_def page_of_def)
  then have "page_of f + (KERNBASE - sizeof_VMA * KERNBASE) = page_of (f + 45613056)"
    by (simp add: page_of_def distrib_right)
  then have "q - sizeof_VMA * KERNBASE = page_of (f + 45613056)" by (simp only: f(2) add_diff_eq)
  then have "(q - sizeof_VMA * KERNBASE) AND FRAME = page_of (f + 45613056)" by (simp only: page_frame)
  then show ?thesis using f(1) by (intro exI [of _ "f + 45613056"]) simp
qed

text \<open>C40: \<open>free\<close> never releases memory. If no area behind the first one starts at the pointer, it changes nothing. If one does, the frame
  number that it computes is at least 45613056, while the bitmap has bits for frames below 65536: the call sets a bit in memory megabytes
  behind the bitmap, so that it has no value in the model.\<close>

theorem free_out_of_bounds:
  assumes ok: "vm_ok s" and l: "vma_list s (run_mmap s) (v # vs)"
  shows "free ptr s = (if \<exists>x \<in> set vs. v_start (vmas s x) = ptr then None else Some s) \<and>
    (\<forall>x \<in> set vs. 45613056 \<le> unat (freed_frame (vnext s x) s) \<and> 64 * unat (MAX_BITMAP_ROWS s) \<le> 65536)"
proof -
  let ?c = "\<lambda>w. vnext s w \<noteq> NULL \<and> v_start (vmas s (vnext s w)) \<noteq> ptr"
  have kb: "kernbase s = KERNBASE" and inv: "phys_inv s" using ok by (simp_all add: vm_ok_def)
  have nn: "NULL \<notin> set (v # vs)" using vma_list_not_null [OF l] .
  have succ: "vnext s x = NULL \<or> (\<exists>f < 65536. vnext s x = page_of f + KERNBASE)" if "x \<in> set vs" for x
  proof -
    from that obtain as bs where vs: "vs = as @ x # bs" by (auto simp: in_set_conv_decomp)
    with l have "path (vnext s) (vnext s x) bs NULL" "\<forall>w \<in> set bs. live s w" by (auto simp: vma_list_def)
    then show ?thesis by (cases bs) (auto simp: live_def used_frames_def)
  qed
  have far: "45613056 \<le> unat (freed_frame (vnext s x) s)" if "x \<in> set vs" for x
  proof -
    from freed_address [OF succ [OF that]] obtain F where F: "45613056 \<le> F" "F < 2 ^ 32"
      "(vnext s x - sizeof_VMA * KERNBASE) AND FRAME = page_of F" by blast
    then show ?thesis using page_of_div [of F] by (simp add: freed_frame_def kb unat_of_nat_small)
  qed
  have scan: "free ptr s = (if \<exists>x \<in> set us. v_start (vmas s x) = ptr then None else Some s)"
    if "path (vnext s) h (ws @ w # us) NULL" "h = run_mmap s" "set us \<subseteq> set vs" "\<forall>x \<in> set ws. ?c x" "set (ws @ w # us) \<subseteq> set (v # vs)"
    for h ws w us
    using that
  proof (induction us arbitrary: ws w)
    case Nil
    then have "chase ?c (vnext s) (run_mmap s) = Some w" "vnext s w = NULL" by (auto intro: chase_path)
    then show ?case by (simp add: free_def)
  next
    case (Cons x us)
    then have w: "vnext s w = x" "x \<noteq> NULL" "path (vnext s) h ws w" using nn by auto
    show ?case
    proof (cases "v_start (vmas s x) = ptr")
      case True
      with w Cons.prems have ch: "chase ?c (vnext s) (run_mmap s) = Some w" by (intro chase_path) auto
      let ?s1 = "upd_vma w (\<lambda>a. a\<lparr>vma_next := vnext s (vnext s w), isNextFreed := 1\<rparr>) s"
      have i1: "phys_inv ?s1" using inv by (simp add: upd_vma_def phys_inv_def free_frames_def)
      obtain F where F: "45613056 \<le> F" "F < 2 ^ 32" "(vnext s x - sizeof_VMA * KERNBASE) AND FRAME = page_of F"
        using freed_address [OF succ, of x] Cons.prems(3) by auto
      have "pageDeAllocator_checked (page_of F) ?s1 = None" using outside_bitmap [OF i1] F(1,2) by simp
      then have "free ptr s = None"
        using ch w F(3) by (simp add: free_def Let_def frame_simps kb)
      then show ?thesis using True by simp
    next
      case False
      have "free ptr s = (if \<exists>x \<in> set us. v_start (vmas s x) = ptr then None else Some s)"
        by (rule Cons.IH [of "ws @ [w]" x]) (use Cons.prems w False in auto)
      then show ?thesis using False by simp
    qed
  qed
  have p: "path (vnext s) (run_mmap s) ([] @ v # vs) NULL" using l by (simp add: vma_list_def)
  have "unat (MAX_BITMAP_ROWS s) \<le> 1024" using inv by (simp add: phys_inv_def)
  then show ?thesis using scan [OF p refl] far by auto
qed

theorem free_out_of_bounds_witness:
  "free 0x600000 small_areas = None \<and> free 0x700000 small_areas = Some small_areas"
proof -
  have ne: "page_of 301 \<noteq> page_of 300" by (simp add: page_of_inj)
  have l: "vma_list small_areas (run_mmap small_areas) [page_of 300 + KERNBASE, page_of 301 + KERNBASE]"
    using small_areas_list by (simp only: small_areas_sel(2))
  have "v_start (vmas small_areas (page_of 301 + KERNBASE)) = 0x600000"
    by (simp add: small_areas_sel zero_vma_def)
  then show ?thesis
    using free_out_of_bounds [OF small_areas_sel(3) l, of "0x600000"] free_out_of_bounds [OF small_areas_sel(3) l, of "0x700000"] by simp
qed

text \<open>The same for the whole list, with what the proofs about \<open>fork\<close> need.\<close>

lemma copyVMA_ok:
  assumes "vm_ok s" and "vma_list s vma vs" and "length vs \<le> card (free_frames s)"
  shows "\<exists>s' us. copyVMA t vma s = Some s' \<and> vma_list s' (task_mmap s' t) us \<and>
    map (\<lambda>v. area (vmas s' v)) us = map (\<lambda>v. area (vmas s v)) vs \<and>
    vma_list s' vma vs \<and> (\<forall>v. live s v \<longrightarrow> live s' v \<and> vmas s' v = vmas s v) \<and>
    set us \<inter> set vs = {} \<and> vm_ok s' \<and> same_rest t s s'"
proof -
  let ?s = "upd_mmap t NULL s"
  have l: "live ?s v = live s v" for v by (simp add: live_def frame_simps)
  from assms(2) have pa: "path (vnext s) vma vs NULL" "distinct vs" "\<forall>v \<in> set vs. live s v"
    by (simp_all add: vma_list_def)
  have 1: "vm_ok ?s" "path (vnext ?s) vma vs NULL" "\<forall>v \<in> set vs. live ?s v" "vma_list ?s (task_mmap ?s t) []"
    "length vs \<le> card (free_frames ?s)"
    using assms pa by (simp_all add: frame_simps l vma_list_def)
  from copy_loop [OF 1(1,2) vma_list_not_null [OF assms(2)] 1(3,4) _ 1(5)]
  obtain s' us where s': "copyVMA t vma s = Some s'" "vma_list s' (task_mmap s' t) us"
    "map (\<lambda>v. area (vmas s' v)) us = map (\<lambda>v. area (vmas ?s v)) vs" "\<forall>u \<in> set us. \<not> live ?s u"
    "\<And>v. live ?s v \<Longrightarrow> live s' v" "\<And>v. live ?s v \<Longrightarrow> vmas s' v = vmas ?s v" "vm_ok s'" "same_rest t ?s s'"
    unfolding copyVMA_def by auto
  have same: "vmas s' v = vmas s v" if "live s v" for v using s'(6) [of v] that by (simp add: l frame_simps)
  have "path (vnext s') vma vs NULL"
    by (rule path_fun_upd [where nx = "vnext s"]) (use pa same in auto)
  then have "vma_list s' vma vs" using pa s'(5) by (auto simp: vma_list_def l)
  moreover have "set us \<inter> set vs = {}" using s'(4) pa(3) by (auto simp: l)
  moreover have "same_rest t s ?s" by (simp add: same_rest_def frame_simps)
  from same_rest_trans [OF this s'(8)] have "same_rest t s s'" .
  moreover have "live s' v \<and> vmas s' v = vmas s v" if "live s v" for v using that same s'(5) [of v] by (simp add: l)
  ultimately show ?thesis
    using s'(1,2,3,7) by (intro exI [of _ s'] exI [of _ us]) (simp add: frame_simps)
qed

text \<open>\<open>copyVMA\<close> gives the child a list of its own, made of new structures, with the same areas
  (bounds, flags, page numbers) in the same order, and leaves the parent's list as it was.\<close>

theorem copyVMA_copies:
  assumes "vm_ok s" and "vma_list s vma vs" and "length vs \<le> card (free_frames s)"
  shows "\<exists>s' us. copyVMA t vma s = Some s' \<and> vma_list s' (task_mmap s' t) us \<and>
    map (\<lambda>v. area (vmas s' v)) us = map (\<lambda>v. area (vmas s v)) vs \<and>
    vma_list s' vma vs \<and> set us \<inter> set vs = {} \<and> vm_ok s'"
  using copyVMA_ok [OF assms, of t] by blast

theorem copyVMA_copies_witness:
  "\<exists>s' us. copyVMA 0x20 (page_of 300 + KERNBASE) small_areas = Some s' \<and>
     vma_list s' (task_mmap s' 0x20) us \<and> length us = 2"
proof -
  have "length [page_of 300 + KERNBASE, page_of 301 + KERNBASE] \<le> card (free_frames small_areas)"
    by (simp add: small_areas_sel small_ok)
  from copyVMA_copies [OF small_areas_sel(3) small_areas_list this, of "0x20"] obtain s' us where
    r: "copyVMA 0x20 (page_of 300 + KERNBASE) small_areas = Some s'" "vma_list s' (task_mmap s' 0x20) us"
    "map (\<lambda>v. area (vmas s' v)) us = map (\<lambda>v. area (vmas small_areas v)) [page_of 300 + KERNBASE, page_of 301 + KERNBASE]"
    by blast
  from r(3) have "length us = 2" by (auto dest: arg_cong [of _ _ length])
  with r show ?thesis by blast
qed

end
