(* ===== verification/Fork.thy ===== *)
theory Fork
  imports Vma
begin

text \<open>
  \<open>fork\<close> and copy-on-write (\<open>sys/task.c\<close>): the child gets the parent's pages read-only and a copy
  of the stack, the parent's pages become read-only too. The loops over pages are partial
  functions (\<open>for_pages\<close>), those over areas and tasks follow the \<open>next\<close> fields.
\<close>

section \<open>Operations\<close>

definition get_stack_top :: u64 where
  "get_stack_top = USER_VIRTUAL_STACK_TOP"

text \<open>One page of the parent, given to the child.\<close>

definition copy_parent_page :: "u64 \<Rightarrow> u64 \<Rightarrow> u64 \<Rightarrow> 'a kernel_scheme \<Rightarrow> 'a kernel_scheme option" where
  "copy_parent_page task vma start s =
     (let kb = kernbase s; child_cr3 = cr3 (regs (tasks s task)) in
      if v_end (vmas s vma) \<noteq> get_stack_top
      then (let phyAdr = getPhysicalPageAddr start (getRunCr3 s) s in
            if phyAdr \<noteq> - 1 \<and> phyAdr \<noteq> 0
            then Some (snd (markPageAsRW (start AND FRAME) (child_cr3 + kb) 1
                   (mapPageForUser (start AND FRAME) (phyAdr AND FRAME) (child_cr3 + kb) s)))
            else Some s)
      else (case kmalloc s of (ptr, s1) \<Rightarrow>
            let phy = ptr - kb;
                s2 = mapPageForUser (start AND FRAME) phy (child_cr3 + kb) s1
            in Some (memcpy_page (start AND FRAME) (phy + kb) s2)))"

definition copyParentCr3Entries :: "u64 \<Rightarrow> 'a kernel_scheme \<Rightarrow> 'a kernel_scheme option" where
  "copyParentCr3Entries task s =
     for_ptrs vnext NULL
       (\<lambda>vma s. for_pages (copy_parent_page task vma) (v_start (vmas s vma)) (v_end (vmas s vma)) s)
       (run_mmap s) s"

definition copyStacktoChild :: "u64 \<Rightarrow> 'a kernel_scheme \<Rightarrow> 'a kernel_scheme" where
  "copyStacktoChild task s =
     (let cur_stack_start = userRsp (regs (tasks s (runningThread s))) AND FRAME;
          r = regs (tasks s task);
          s1 = mapPageForUser (0xFFFFFF7F00000000 - 0x1000) ((userRsp r - 0x1000) - kernbase s)
                 (cr3 r + kernbase s) s
      in memcpy_page cur_stack_start (0xFFFFFF7F00000000 - 0x1000) s1)"

definition createChildTask :: "u64 \<Rightarrow> 'a kernel_scheme \<Rightarrow> 'a kernel_scheme option" where
  "createChildTask task s =
     (let u = userRegs s;
          s1 = upd_task task (\<lambda>k. k\<lparr>pid_t := pidCount s + 1\<rparr>) s;
          s2 = s1\<lparr>pidCount := pidCount s1 + 1\<rparr>;
          s3 = upd_task task (\<lambda>k. k\<lparr>ppid_t := pid_t (tasks s2 (runningThread s2))\<rparr>) s2;
          s4 = upd_regs task (\<lambda>r. r\<lparr>rax := 0, rbx := rbx u, rcx := rcx u, rdx := rdx u, rsi := rsi u,
                 rdi := rdi u, rflags := rflags u, rip := rip u\<rparr>) s3 in
      case getNewPML4ForUser s4 of (root, s5) \<Rightarrow>
      let s6 = upd_regs task (\<lambda>r. r\<lparr>cr3 := root\<rparr>) s5 in
      case copyParentCr3Entries task s6 of
        None \<Rightarrow> None
      | Some s7 \<Rightarrow>
          (let s8 = upd_regs task (\<lambda>r. r\<lparr>userRsp := userRsp u\<rparr>) s7 in
           case kmalloc s8 of (kst, s9) \<Rightarrow>
           let s10 = upd_regs task (\<lambda>r. r\<lparr>kernelRsp := kst + 0x1000, reg_count := 0, reg_add := 0\<rparr>) s9;
               parent = tasks s10 (runningThread s10);
               s11 = upd_task task (\<lambda>k. k\<lparr>task_state := 1, exeName := exeName parent,
                       startHH := scast (getCurHr s10), startMM := scast (getCurMin s10),
                       startSS := scast (getCurSec s10), endHH := 0, endMM := 0, endSS := 0,
                       fd_pointers := (\<lambda>i. if i < 20 then fd_pointers parent i else fd_pointers k i),
                       fd_count := fd_count parent\<rparr>) s10 in
           case copyVMA task (run_mmap s11) s11 of
             None \<Rightarrow> None
           | Some s12 \<Rightarrow> Some (prepareInitialKernelStack (regs (tasks s12 task)) s12)))"

definition mark_parent_page :: "u64 \<Rightarrow> u64 \<Rightarrow> 'a kernel_scheme \<Rightarrow> 'a kernel_scheme option" where
  "mark_parent_page vma start s =
     Some (if v_end (vmas s vma) \<noteq> get_stack_top
           then snd (markPageAsRW (start AND FRAME) (getRunCr3 s + kernbase s) 1 s) else s)"

definition makeParentCr3asReadOnly :: "'a kernel_scheme \<Rightarrow> 'a kernel_scheme option" where
  "makeParentCr3asReadOnly s =
     for_ptrs vnext NULL
       (\<lambda>vma s. for_pages (mark_parent_page vma) (v_start (vmas s vma)) (v_end (vmas s vma)) s)
       (run_mmap s) s"

definition fork :: "'a kernel_scheme \<Rightarrow> (u64 \<times> 'a kernel_scheme) option" where
  "fork s =
     (case kmalloc_task s of (child, s1) \<Rightarrow>
      case createChildTask child s1 of
        None \<Rightarrow> None
      | Some s2 \<Rightarrow>
          (let s3 = addToQueue child s2 in
           case makeParentCr3asReadOnly s3 of
             None \<Rightarrow> None
           | Some s4 \<Rightarrow> Some (scast (pid_t (tasks s4 child)), s4)))"

text \<open>The eager copy that the page-fault handler used before copy-on-write.\<close>

definition copy_child_page :: "u64 \<Rightarrow> u64 \<Rightarrow> u64 \<Rightarrow> 'a kernel_scheme \<Rightarrow> 'a kernel_scheme option" where
  "copy_child_page pNum t v s =
     (if pageNumber (vmas s v) = pNum
      then (let virAddr = v_start (vmas s v) AND FRAME in
            case kmalloc s of (ptr, s1) \<Rightarrow>
            let newPage = ptr - kernbase s1;
                s2 = mapPageForUser virAddr newPage (cr3 (regs (tasks s1 t)) + kernbase s1) s1;
                s3 = memcpy_page virAddr (newPage + kernbase s2) s2 in
            case getNextPageNum s3 of (n, s4) \<Rightarrow> Some (upd_vma v (\<lambda>a. a\<lparr>pageNumber := n\<rparr>) s4))
      else Some s)"

definition makePageCopiesForChilden :: "u64 \<Rightarrow> u64 \<Rightarrow> 'a kernel_scheme \<Rightarrow> 'a kernel_scheme option" where
  "makePageCopiesForChilden pNum task s =
     for_ptrs tnext task
       (\<lambda>t s. for_ptrs vnext NULL (copy_child_page pNum t) (task_mmap s t) s)
       (tnext s task) s"

section \<open>Leaving\<close>

text \<open>
  \<open>FreePageEntries\<close>: every mapped page of every area is cleared and freed when no other task of
  the queue shares it. The test for sharing walks the other tasks' tables for the page's
  physical address taken as a virtual one.
\<close>

definition count_tasks :: "(u64 \<Rightarrow> bool) \<Rightarrow> u64 \<Rightarrow> 'a kernel_scheme \<Rightarrow> i32 option" where
  "count_tasks P t s =
     for_ptrs (\<lambda>_ p. tnext s p) t (\<lambda>p c. Some (if P p then c + 1 else c)) (tnext s t) 1"

definition free_one_page :: "u64 \<Rightarrow> u64 \<Rightarrow> 'a kernel_scheme \<Rightarrow> 'a kernel_scheme option" where
  "free_one_page task start s =
     (let phyAddr = getPhysicalPageAddr start (cr3 (regs (tasks s task))) s in
      if phyAddr \<noteq> - 1 \<and> phyAddr \<noteq> 0
      then (let phy = phyAddr AND FRAME in
            case count_tasks (\<lambda>t. let p = getPhysicalPageAddr phy (cr3 (regs (tasks s t))) s
                                 in p \<noteq> - 1 \<and> p \<noteq> 0 \<and> p AND FRAME = phy) task s of
              None \<Rightarrow> None
            | Some pageCount \<Rightarrow>
                Some (if pageCount = 1 then kdealloc ((phy AND FRAME) + kernbase s) s else s))
      else Some s)"

definition FreePageEntries :: "u64 \<Rightarrow> 'a kernel_scheme \<Rightarrow> 'a kernel_scheme option" where
  "FreePageEntries task s =
     for_ptrs vnext NULL
       (\<lambda>vma s. for_pages (free_one_page task) (v_start (vmas s vma)) (v_end (vmas s vma)) s)
       (task_mmap s task) s"

text \<open>
  A 64-bit read at any byte address: \<open>FreePageTables\<close> does not mask the flag bits off an
  entry before it uses it as a pointer.
\<close>

definition rdu :: "'a phys_scheme \<Rightarrow> u64 \<Rightarrow> u64" where
  "rdu s a =
     (let p = k2p (kernbase s) a; w = p AND NOT 7; sh = 8 * unat (p AND 7)
      in if sh = 0 then pmem s w
         else drop_bit sh (pmem s w) OR push_bit (64 - sh) (pmem s (w + 8)))"

definition free_pdt :: "u64 \<Rightarrow> 'a kernel_scheme \<Rightarrow> 'a kernel_scheme" where
  "free_pdt pdt s =
     fold (\<lambda>k s. let e = rdu s (pdt + 8 * of_nat k)
                 in if e AND PRESENT \<noteq> 0 then pageDeAllocator (e AND FRAME) s else s) [0..<512] s"

definition free_pdpt :: "u64 \<Rightarrow> 'a kernel_scheme \<Rightarrow> 'a kernel_scheme" where
  "free_pdpt pdpt s =
     fold (\<lambda>j s. let e = rdu s (pdpt + 8 * of_nat j)
                 in if e AND PRESENT \<noteq> 0
                    then pageDeAllocator (e AND FRAME) (free_pdt (e + kernbase s) s) else s) [0..<512] s"

definition FreePageTables :: "u64 \<Rightarrow> 'a kernel_scheme \<Rightarrow> 'a kernel_scheme" where
  "FreePageTables task s =
     (let pml4_ptr = cr3 (regs (tasks s task)) + kernbase s in
      fold (\<lambda>i s. let e = rdu s (pml4_ptr + 8 * of_nat i)
                  in if e AND PRESENT \<noteq> 0
                     then pageDeAllocator (e AND FRAME) (free_pdpt (e + kernbase s) s) else s) [0..<511] s)"

definition kill :: "u64 \<Rightarrow> 'a kernel_scheme \<Rightarrow> (u64 \<times> 'a kernel_scheme) option" where
  "kill pid s =
     (if pid = 1 then Some (0, kprintf ''cannot kill sbush\<newline>'' [] s)
      else (let r = runningThread s in
        case chase (\<lambda>t. tnext s t \<noteq> r \<and> scast (pid_t (tasks s (tnext s t))) \<noteq> pid) (tnext s) r of
          None \<Rightarrow> None
        | Some t \<Rightarrow>
            if tnext s t = r \<or> pid_t (tasks s (tnext s t)) = 1
            then Some (0, kprintf ''Did not find any process with given pid\<newline>'' [] s)
            else (let toBeDel = tnext s t in
              case FreePageEntries toBeDel s of
                None \<Rightarrow> None
              | Some s1 \<Rightarrow>
                  (let s2 = FreePageTables toBeDel s1;
                       s3 = upd_task t (\<lambda>k. k\<lparr>task_next := tnext s2 (tnext s2 t)\<rparr>) s2 in
                   case addToDeleteQueue toBeDel s3 of
                     None \<Rightarrow> None
                   | Some s4 \<Rightarrow> Some (0, s4)))))"

text \<open>
  What \<open>exit\<close> and \<open>exitpid\<close> do to the task they end: its memory is freed, it moves from the run
  queue to the delete queue, and its successor is entered.
\<close>

definition end_task :: "u64 \<Rightarrow> 'a kernel_scheme \<Rightarrow> 'a kernel_scheme option" where
  "end_task task s =
     (let s1 = upd_task task (\<lambda>k. k\<lparr>task_state := 0, endHH := scast (getCurHr s),
                 endMM := scast (getCurMin s), endSS := scast (getCurSec s)\<rparr>) s in
      case FreePageEntries task s1 of
        None \<Rightarrow> None
      | Some s2 \<Rightarrow>
          (let s3 = FreePageTables task s2 in
           case find_prev task s3 of
             None \<Rightarrow> None
           | Some t \<Rightarrow>
               (let s4 = upd_task t (\<lambda>k. k\<lparr>task_next := tnext s3 (tnext s3 t)\<rparr>) s3;
                    temp = tnext s4 t in
                case addToDeleteQueue task s4 of
                  None \<Rightarrow> None
                | Some s5 \<Rightarrow>
                    (let s6 = prepare_entry temp s5
                     in Some (enter_task temp (s6\<lparr>runningThread := temp\<rparr>))))))"

definition exit :: "u64 \<Rightarrow> 'a kernel_scheme \<Rightarrow> (ctl \<times> 'a kernel_scheme) option" where
  "exit pid s =
     (let task = runningThread s in
      if pid_t (tasks s task) = 1
      then Some (Returned 0, kprintf ''killing sbush.... restarting....\<newline>'' [] s)
      else map_option (\<lambda>s'. (Entered, s')) (end_task task s))"

definition exitpid :: "i32 \<Rightarrow> 'a kernel_scheme \<Rightarrow> (ctl \<times> 'a kernel_scheme) option" where
  "exitpid pid s =
     (if pid = 1 then Some (Returned 0, s)
      else (let r = runningThread s in
        case chase (\<lambda>t. pid_t (tasks s t) \<noteq> pid \<and> t \<noteq> r) (tnext s) (tnext s r) of
          None \<Rightarrow> None
        | Some t \<Rightarrow>
            if pid_t (tasks s t) \<noteq> pid then Some (Returned 0, s)
            else map_option (\<lambda>s'. (Entered, s')) (end_task t s)))"

definition deleteRunningThreadAndJump :: "u64 \<Rightarrow> 'a kernel_scheme \<Rightarrow> 'a kernel_scheme option" where
  "deleteRunningThreadAndJump task s =
     (let r = runningThread s;
          s1 = upd_task task (\<lambda>k. k\<lparr>task_next := tnext s r\<rparr>) s in
      case find_prev r s1 of
        None \<Rightarrow> None
      | Some temp \<Rightarrow>
          (let s2 = upd_task temp (\<lambda>k. k\<lparr>task_next := task\<rparr>) s1;
               s3 = prepare_entry task (s2\<lparr>runningThread := task\<rparr>)
           in Some (enter_task task s3)))"

section \<open>Freeing a task's memory\<close>

lemma fold_phys_only:
  assumes "\<And>x s. phys_only s (f x s)"
  shows "phys_only s (fold f xs s)"
  by (induction xs arbitrary: s) (auto intro: phys_only_trans assms)

lemma phys_only_FreePageTables: "phys_only s (FreePageTables t s)"
proof -
  have 1: "phys_only s (free_pdt p s)" for p and s :: "'a kernel_scheme"
    unfolding free_pdt_def Let_def by (rule fold_phys_only) simp
  have 2: "phys_only s (free_pdpt p s)" for p and s :: "'a kernel_scheme"
    unfolding free_pdpt_def Let_def by (rule fold_phys_only) (auto intro: phys_only_trans [OF 1 phys_only_dealloc])
  show ?thesis
    unfolding FreePageTables_def Let_def by (rule fold_phys_only) (auto intro: phys_only_trans [OF 2 phys_only_dealloc])
qed

text \<open>The areas of a task end before the last page of the address space.\<close>

definition areas_ok :: "'a kernel_scheme \<Rightarrow> u64 \<Rightarrow> bool" where
  "areas_ok s t \<longleftrightarrow> (\<exists>vs. path (vnext s) (task_mmap s t) vs NULL \<and> NULL \<notin> set vs \<and>
     (\<forall>v \<in> set vs. unat (v_end (vmas s v)) + 4096 \<le> 2 ^ 64))"

lemma count_tasks_total:
  assumes "ring (tnext s) t ts"
  shows "\<exists>n. count_tasks P t s = Some n"
proof -
  from assms have "path (tnext s) (tnext s t) ts t" "t \<notin> set ts" by (auto simp: ring_def)
  from for_ptrs_inv [OF this, where I = "\<lambda>_. True" and nx = "\<lambda>_ p. tnext s p" and body = "\<lambda>p c. Some (if P p then c + 1 else c)"]
  show ?thesis unfolding count_tasks_def by auto
qed

lemma free_one_page_ok:
  assumes "ring (tnext s) t ts"
  shows "\<exists>s'. free_one_page t a s = Some s' \<and> phys_only s s'"
proof -
  let ?e = "getPhysicalPageAddr a (cr3 (regs (tasks s t))) s"
  let ?P = "\<lambda>t. let p = getPhysicalPageAddr (?e AND FRAME) (cr3 (regs (tasks s t))) s
    in p \<noteq> - 1 \<and> p \<noteq> 0 \<and> p AND FRAME = ?e AND FRAME"
  obtain n where "count_tasks ?P t s = Some n" using count_tasks_total [OF assms, of ?P] by blast
  then show ?thesis by (simp add: free_one_page_def Let_def)
qed

lemma FreePageEntries_ok:
  assumes "areas_ok s t" and "ring (tnext s) t ts"
  shows "\<exists>s'. FreePageEntries t s = Some s' \<and> phys_only s s'"
proof -
  from assms(1) obtain vs where vs: "path (vnext s) (task_mmap s t) vs NULL" "NULL \<notin> set vs"
    "\<And>v. v \<in> set vs \<Longrightarrow> unat (v_end (vmas s v)) + 4096 \<le> 2 ^ 64" by (auto simp: areas_ok_def)
  show ?thesis
    unfolding FreePageEntries_def
  proof (rule for_ptrs_inv [OF vs(1,2)])
    show "vnext s' = vnext s" if "phys_only s s'" for s' using phys_onlyD [OF that] by simp
    fix v s1 assume v: "v \<in> set vs" and s1: "phys_only s s1"
    show "\<exists>s'. for_pages (free_one_page t) (v_start (vmas s1 v)) (v_end (vmas s1 v)) s1 = Some s' \<and> phys_only s s'"
    proof (rule for_pages_inv)
      show "unat (v_end (vmas s1 v)) + 4096 \<le> 2 ^ 64" using vs(3) [OF v] phys_onlyD [OF s1] by simp
      fix a s2 assume s2: "phys_only s s2"
      from phys_onlyD [OF s2] assms(2) have "ring (tnext s2) t ts" by simp
      from free_one_page_ok [OF this, of a] phys_only_trans [OF s2]
      show "\<exists>s'. free_one_page t a s2 = Some s' \<and> phys_only s s'" by blast
    qed (rule s1)
  qed simp
qed

section \<open>Taking a task out of the queue\<close>

text \<open>
  The task \<open>x\<close> behind \<open>p\<close> is unlinked and appended to the delete queue.
\<close>

lemma path_split_head:
  "ring nx h (as @ x # bs) \<Longrightarrow> nx (last (h # as)) = x"
  by (cases as rule: rev_cases) (auto simp: ring_def)

lemma move_to_deleted:
  assumes q: "queues s (as @ x # bs) ds"
  defines "p \<equiv> last (runningThread s # as)"
  defines "s1 \<equiv> upd_task p (\<lambda>k. k\<lparr>task_next := tnext s (tnext s p)\<rparr>) s"
  shows "\<exists>s'. addToDeleteQueue x s1 = Some s' \<and> queues s' (as @ bs) (ds @ [x]) \<and>
    runningThread s' = runningThread s \<and> (\<forall>y. tasks s' y = (tasks s y)\<lparr>task_next := tnext s' y\<rparr>)"
proof -
  let ?r = "runningThread s"
  from q have rg: "ring (tnext s) ?r (as @ x # bs)" and dq: "path (tnext s) (deleteQueue s) ds NULL"
    and d: "distinct (?r # (as @ x # bs) @ ds)" and nn: "NULL \<notin> set (?r # (as @ x # bs) @ ds)"
    by (auto simp: queues_def)
  have px: "tnext s p = x" unfolding p_def by (rule path_split_head [OF rg])
  have pin: "p \<in> set (?r # as)" unfolding p_def by (rule last_in_set) simp
  have nx1: "tnext s1 y = (if y = p then tnext s x else tnext s y)" for y
    by (simp add: s1_def frame_simps px)
  have pd: "y \<in> set ds \<Longrightarrow> y \<noteq> p" for y using pin d by auto
  have "path (tnext s1) (deleteQueue s) ds NULL"
    by (rule path_fun_upd [OF _ dq]) (simp add: nx1 pd)
  then have dq1: "path (tnext s1) (deleteQueue s1) ds NULL" by (simp add: s1_def upd_task_def)
  have "x \<notin> set ds" "x \<noteq> NULL" "distinct ds" "NULL \<notin> set ds" using d nn by auto
  from addToDeleteQueue_ok [OF dq1 this(3,4) this(1,2)] obtain s' where S:
    "addToDeleteQueue x s1 = Some s' \<and> path (tnext s') (deleteQueue s') (ds @ [x]) NULL \<and>
     (\<forall>y. y \<noteq> x \<and> y \<notin> set ds \<longrightarrow> tasks s' y = tasks s1 y) \<and>
     (\<forall>y. tasks s' y = (tasks s1 y)\<lparr>task_next := tnext s' y\<rparr>) \<and>
     runningThread s' = runningThread s1 \<and> free_frames s' = free_frames s1 \<and> pmem s' = pmem s1"
    by (rule exE)
  then have s': "addToDeleteQueue x s1 = Some s'" "path (tnext s') (deleteQueue s') (ds @ [x]) NULL"
    "y \<noteq> x \<Longrightarrow> y \<notin> set ds \<Longrightarrow> tasks s' y = tasks s1 y" "tasks s' y = (tasks s1 y)\<lparr>task_next := tnext s' y\<rparr>"
    "runningThread s' = runningThread s1" for y by blast+
  have r': "runningThread s' = ?r" using s'(5) by (simp add: s1_def frame_simps)
  have nx': "tnext s' y = tnext s1 y" if "y \<in> set (?r # as @ bs)" for y
  proof -
    have "y \<noteq> x" "y \<notin> set ds" using that d by (auto simp: disjoint_iff)
    then show ?thesis by (simp add: s'(3))
  qed
  have "ring (tnext s') ?r (as @ bs)"
  proof (cases as rule: rev_cases)
    case Nil
    then have p: "p = ?r" by (simp add: p_def)
    have "path (tnext s) (tnext s x) bs ?r" using rg by (auto simp: ring_def)
    then have "path (tnext s') (tnext s x) bs ?r"
      by (rule path_fun_upd [rotated]) (use nx' nx1 p d in auto)
    with nx' nx1 p d Nil show ?thesis by (auto simp: ring_def)
  next
    case (snoc us u)
    then have p: "p = u" by (simp add: p_def)
    have b: "path (tnext s) (tnext s ?r) us u" "path (tnext s) (tnext s x) bs ?r"
      using rg snoc by (auto simp: ring_def)
    have "path (tnext s') (tnext s ?r) us u"
      by (rule path_fun_upd [OF _ b(1)]) (use nx' nx1 p d snoc in auto)
    moreover have "path (tnext s') (tnext s x) bs ?r"
      by (rule path_fun_upd [OF _ b(2)]) (use nx' nx1 p d snoc in auto)
    moreover have "tnext s' ?r = tnext s ?r" "tnext s' u = tnext s x"
      using nx' [of ?r] nx' [of u] nx1 p d snoc by auto
    ultimately show ?thesis using d snoc by (auto simp: ring_def)
  qed
  moreover have "tasks s' y = (tasks s y)\<lparr>task_next := tnext s' y\<rparr>" for y
    using s'(4) [of y] by (cases "y = p") (simp_all add: s1_def frame_simps)
  ultimately show ?thesis
    using s'(1,2) r' d nn by (intro exI [of _ s']) (auto simp: queues_def)
qed

lemma addToDeleteQueue_running:
  "addToDeleteQueue x (s\<lparr>runningThread := t\<rparr>) =
     map_option (\<lambda>s. s\<lparr>runningThread := t\<rparr>) (addToDeleteQueue x s)"
  by (simp add: addToDeleteQueue_def upd_task_def split: option.splits)

lemma prepare_entry_regs:
  "cr3 (regs (tasks (prepare_entry t s) x)) = cr3 (regs (tasks s x))"
  "task_state (tasks (prepare_entry t s) x) = task_state (tasks s x)"
  by (simp_all add: prepare_entry_def Let_def set_tss_rsp_def upd_regs_def upd_task_def)

lemma end_task_ok:
  assumes rg: "ring (tnext s) x (t # us)" and dq: "path (tnext s) (deleteQueue s) ds NULL"
    and d: "distinct (x # t # us @ ds)" and nn: "NULL \<notin> set (x # t # us @ ds)" and ar: "areas_ok s x"
  shows "\<exists>s'. end_task x s = Some s' \<and> runningThread s' = t \<and> queues s' us (ds @ [x]) \<and>
    task_state (tasks s' x) = 0 \<and> cr3_reg s' = cr3 (regs (tasks s t)) \<and> mutex s' = 0"
proof -
  define s1 where "s1 = upd_task x (\<lambda>k. k\<lparr>task_state := 0, endHH := scast (getCurHr s),
    endMM := scast (getCurMin s), endSS := scast (getCurSec s)\<rparr>) s"
  have nx1: "tnext s1 = tnext s" "deleteQueue s1 = deleteQueue s" "vmas s1 = vmas s" "task_mmap s1 x = task_mmap s x"
    by (auto simp: s1_def frame_simps)
  have "areas_ok s1 x" using ar by (simp add: areas_ok_def nx1)
  then obtain s2 where s2: "FreePageEntries x s1 = Some s2" "phys_only s1 s2"
    using FreePageEntries_ok [of s1 x "t # us"] rg by (auto simp: nx1)
  define s3 where "s3 = FreePageTables x s2"
  have po: "phys_only s1 s3" unfolding s3_def by (rule phys_only_trans [OF s2(2) phys_only_FreePageTables])
  have nx3: "tnext s3 = tnext s" "deleteQueue s3 = deleteQueue s"
    using phys_onlyD(1,4) [OF po] nx1 by (auto simp: fun_eq_iff)
  define p where "p = last (t # us)"
  have fp: "find_prev x s3 = Some p"
    using find_prev_ring [of s3 x "t # us"] rg by (simp add: nx3 p_def)
  let ?sr = "s3\<lparr>runningThread := t\<rparr>"
  define s4 where "s4 = upd_task p (\<lambda>k. k\<lparr>task_next := tnext s3 (tnext s3 p)\<rparr>) s3"
  have "queues ?sr (us @ x # []) ds"
    using ring_rotate [OF rg] dq d nn by (auto simp: queues_def nx3)
  note M = move_to_deleted [OF this]
  have "upd_task (last (runningThread ?sr # us))
      (\<lambda>k. k\<lparr>task_next := tnext ?sr (tnext ?sr (last (runningThread ?sr # us)))\<rparr>) ?sr = s4\<lparr>runningThread := t\<rparr>"
    by (simp add: s4_def p_def upd_task_def)
  with M obtain sd where "addToDeleteQueue x (s4\<lparr>runningThread := t\<rparr>) = Some sd \<and> queues sd (us @ []) (ds @ [x]) \<and>
    runningThread sd = runningThread ?sr \<and> (\<forall>y. tasks sd y = (tasks ?sr y)\<lparr>task_next := tnext sd y\<rparr>)"
    by (metis (no_types))
  then have sd: "addToDeleteQueue x (s4\<lparr>runningThread := t\<rparr>) = Some sd" "queues sd us (ds @ [x])" "runningThread sd = t"
    "tasks sd y = (tasks s3 y)\<lparr>task_next := tnext sd y\<rparr>" for y
    by simp_all
  from sd(1) obtain s5 where s5: "addToDeleteQueue x s4 = Some s5" "sd = s5\<lparr>runningThread := t\<rparr>"
    by (auto simp: addToDeleteQueue_running)
  have px: "tnext s p = x" using path_last [of "tnext s" "tnext s x"] rg
    by (cases us rule: rev_cases) (auto simp: ring_def p_def)
  have tx: "tnext s x = t" using ring_nonempty_next [OF rg] .
  have "tnext s3 y = tnext s y" for y using nx3(1) by (rule fun_cong)
  then have temp: "tnext s4 p = t" by (simp add: s4_def frame_simps px tx)
  define s' where "s' = enter_task t (prepare_entry t s5\<lparr>runningThread := t\<rparr>)"
  have "end_task x s = Some s'"
    by (simp add: end_task_def Let_def s1_def [symmetric] s2(1) s3_def [symmetric] fp s4_def [symmetric] s5(1) temp s'_def)
  moreover have r: "runningThread s' = t" by (simp add: s'_def frame_simps)
  moreover have "queues s' us (ds @ [x])"
    using sd(2) r by (subst queues_same_next [of _ sd]) (simp_all add: s5(2) s'_def frame_simps)
  moreover have "tasks s5 y = (tasks s3 y)\<lparr>task_next := tnext s5 y\<rparr>" for y
    using sd(4) [of y] by (simp add: s5(2))
  then have st: "task_state (tasks s5 y) = task_state (tasks s3 y)" "regs (tasks s5 y) = regs (tasks s3 y)" for y
    by (metis Task.select_convs(16) Task.surjective Task.update_convs(15), metis Task.select_convs(14) Task.surjective Task.update_convs(15))
  have "task_state (tasks s3 x) = 0" "regs (tasks s3 t) = regs (tasks s t)"
    using d by (simp_all add: phys_onlyD(1) [OF po] s1_def frame_simps)
  ultimately show ?thesis
    by (intro exI [of _ s']) (simp add: s'_def frame_simps prepare_entry_regs st)
qed

text \<open>Seen from any of its tasks, the run queue is the rotated list.\<close>

lemma ring_from:
  assumes "ring nx h (as @ x # bs)"
  shows "ring nx x (bs @ h # as)"
proof -
  from assms have "path nx (nx h) as x" "path nx (nx x) bs h" "distinct (h # as @ x # bs)"
    by (auto simp: ring_def)
  then show ?thesis by (auto simp: ring_def)
qed

section \<open>What ending a task keeps\<close>

text \<open>
  What ending a task leaves alone: the areas, the identity and the memory of every task, the
  keyboard buffer and the fields of an extension of the kernel's state.
\<close>

definition undisturbed :: "'a kernel_scheme \<Rightarrow> 'a kernel_scheme \<Rightarrow> bool" where
  "undisturbed s s' \<longleftrightarrow> vmas s' = vmas s \<and> kernel.more s' = kernel.more s \<and> kbd_state s' = kbd_state s \<and>
     (\<forall>x. pid_t (tasks s' x) = pid_t (tasks s x) \<and> memMap (tasks s' x) = memMap (tasks s x))"

lemma undisturbed_refl [simp]: "undisturbed s s"
  by (simp add: undisturbed_def)

lemma undisturbed_trans: "undisturbed s s' \<Longrightarrow> undisturbed s' s'' \<Longrightarrow> undisturbed s s''"
  by (simp add: undisturbed_def)

lemma undisturbed_phys:
  assumes "phys_only (s :: 'a kernel_scheme) s'"
  shows "undisturbed s s'"
proof -
  have "kernel.more (s\<lparr>availFrames := a, pmem := m\<rparr>) = kernel.more s" for a m by simp
  moreover have "s' = s\<lparr>availFrames := availFrames s', pmem := pmem s'\<rparr>" using assms by (simp only: phys_only_def)
  ultimately have "kernel.more s' = kernel.more s" by metis
  with phys_onlyD [OF assms] show ?thesis by (simp add: undisturbed_def)
qed

lemma undisturbed_upd_task:
  assumes "\<And>k. pid_t (f k) = pid_t k" and "\<And>k. memMap (f k) = memMap k"
  shows "undisturbed s (upd_task t f s)"
  using assms by (simp add: undisturbed_def upd_task_def)

lemma undisturbed_upd_regs [simp]: "undisturbed s (upd_regs t f s)"
  unfolding upd_regs_def by (rule undisturbed_upd_task) simp_all

lemma undisturbed_entry [simp]: "undisturbed s (enter_task t (prepare_entry t s\<lparr>runningThread := t\<rparr>))"
  by (simp add: undisturbed_def enter_task_def moveToNextProcess_def prepare_entry_def set_tss_rsp_def upd_regs_def upd_task_def Let_def)

lemma undisturbed_delete:
  assumes "addToDeleteQueue t s = Some s'"
  shows "undisturbed s s'"
  using assms
  by (auto simp: addToDeleteQueue_def undisturbed_def upd_task_def split: if_splits option.splits)

lemma undisturbed_free_entries:
  assumes "FreePageEntries t s = Some s'"
  shows "undisturbed s s'"
proof -
  have page: "undisturbed u u'" if "free_one_page t a u = Some u'" for a and u u' :: "'a kernel_scheme"
    using that by (auto simp: free_one_page_def Let_def split: option.splits if_splits intro: undisturbed_phys)
  show ?thesis
    using assms [unfolded FreePageEntries_def] undisturbed_refl
  proof (rule for_ptrs_keeps)
    fix x u u' assume "for_pages (free_one_page t) (v_start (vmas u x)) (v_end (vmas u x)) u = Some u'" "undisturbed s u"
    then show "undisturbed s u'" by (rule for_pages_keeps) (blast intro: undisturbed_trans page)
  qed
qed

lemma undisturbed_end_task:
  assumes "end_task x s = Some s'"
  shows "undisturbed s s'"
proof -
  let ?s1 = "upd_task x (\<lambda>k. k\<lparr>task_state := 0, endHH := scast (getCurHr s), endMM := scast (getCurMin s),
    endSS := scast (getCurSec s)\<rparr>) s"
  from assms obtain s2 p s5 where *: "FreePageEntries x ?s1 = Some s2"
    "addToDeleteQueue x (upd_task p (\<lambda>k. k\<lparr>task_next := tnext (FreePageTables x s2) (tnext (FreePageTables x s2) p)\<rparr>)
       (FreePageTables x s2)) = Some s5" "\<exists>t. s' = enter_task t (prepare_entry t s5\<lparr>runningThread := t\<rparr>)"
    by (auto simp: end_task_def Let_def split: option.splits)
  have "undisturbed s ?s1" by (rule undisturbed_upd_task) simp_all
  note undisturbed_trans [OF this undisturbed_free_entries [OF *(1)]]
  note undisturbed_trans [OF this undisturbed_phys [OF phys_only_FreePageTables]]
  note undisturbed_trans [OF this undisturbed_upd_task [where f = "\<lambda>k. k\<lparr>task_next := _\<rparr>"]]
  note 1 = undisturbed_trans [OF this undisturbed_delete [OF *(2)]]
  have "undisturbed s s5" by (rule 1) simp_all
  with *(3) show ?thesis using undisturbed_trans undisturbed_entry by metis
qed

lemma undisturbed_exitpid: "exitpid pid s = Some (c, s') \<Longrightarrow> undisturbed s s'"
  by (auto simp: exitpid_def Let_def split: option.splits if_splits dest: undisturbed_end_task)

lemma undisturbed_kprintf [simp]: "undisturbed s (kprintf f a s)"
  by (simp add: undisturbed_def kprintf_def)

lemma undisturbed_exit: "exit n s = Some (c, s') \<Longrightarrow> undisturbed s s'"
  by (auto simp: exit_def Let_def split: if_splits dest: undisturbed_end_task)

lemma undisturbed_kill:
  assumes "kill pid s = Some (v, s')"
  shows "undisturbed s s'"
proof -
  have "undisturbed s s'" if "FreePageEntries x s = Some s1"
    "addToDeleteQueue x (upd_task t (\<lambda>k. k\<lparr>task_next := y\<rparr>) (FreePageTables x s1)) = Some s'" for x t y s1
  proof -
    note undisturbed_trans [OF undisturbed_free_entries [OF that(1)] undisturbed_phys [OF phys_only_FreePageTables]]
    note undisturbed_trans [OF this undisturbed_upd_task [where f = "\<lambda>k. k\<lparr>task_next := _\<rparr>"]]
    note undisturbed_trans [OF this undisturbed_delete [OF that(2)]]
    then show ?thesis by simp
  qed
  with assms show ?thesis by (auto simp: kill_def Let_def split: if_splits option.splits)
qed

lemma undisturbed_areas_ok: "undisturbed s s' \<Longrightarrow> areas_ok s' t = areas_ok s t"
  by (simp add: undisturbed_def areas_ok_def)

section \<open>Ending tasks in the run queue\<close>

lemma exit_ok:
  assumes q: "queues s (t # ts) ds" and ar: "areas_ok s (runningThread s)" and p: "pid_t (tasks s (runningThread s)) \<noteq> 1"
  shows "\<exists>s'. exit n s = Some (Entered, s') \<and> runningThread s' = t \<and> queues s' ts (ds @ [runningThread s]) \<and>
    task_state (tasks s' (runningThread s)) = 0 \<and> cr3_reg s' = cr3 (regs (tasks s t)) \<and> mutex s' = 0"
proof -
  let ?x = "runningThread s"
  from q have "ring (tnext s) ?x (t # ts)" "path (tnext s) (deleteQueue s) ds NULL"
    "distinct (?x # t # ts @ ds)" "NULL \<notin> set (?x # t # ts @ ds)" by (auto simp: queues_def)
  from end_task_ok [OF this ar] p show ?thesis by (auto simp: exit_def Let_def)
qed

lemma exitpid_ok:
  assumes q: "queues s (as @ x # bs) ds" and ar: "areas_ok s x"
    and pid: "pid_t (tasks s x) = pid" "pid \<noteq> 1" "\<forall>y \<in> set as. pid_t (tasks s y) \<noteq> pid"
  shows "\<exists>s'. exitpid pid s = Some (Entered, s') \<and> task_state (tasks s' x) = 0 \<and>
    runningThread s' = hd (bs @ [runningThread s]) \<and>
    queues s' (tl (bs @ runningThread s # as)) (ds @ [x])"
proof -
  let ?r = "runningThread s"
  from q have rg: "ring (tnext s) ?r (as @ x # bs)" and dq: "path (tnext s) (deleteQueue s) ds NULL"
    and d: "distinct (?r # (as @ x # bs) @ ds)" and nn: "NULL \<notin> set (?r # (as @ x # bs) @ ds)"
    by (auto simp: queues_def)
  have rx: "ring (tnext s) x (bs @ ?r # as)" by (rule ring_from [OF rg])
  obtain t us where tu: "bs @ ?r # as = t # us" by (cases bs) auto
  have set: "set (t # us) = set bs \<union> {?r} \<union> set as" unfolding tu [symmetric] by auto
  have "distinct (x # (bs @ ?r # as) @ ds)" using d by auto
  then have d': "distinct (x # t # us @ ds)" unfolding tu by simp
  have "NULL \<notin> set (x # (bs @ ?r # as) @ ds)" using nn by auto
  then have nn': "NULL \<notin> set (x # t # us @ ds)" unfolding tu by simp
  from end_task_ok [OF rx [unfolded tu] dq d' nn' ar] obtain s' where s':
    "end_task x s = Some s'" "runningThread s' = t" "queues s' us (ds @ [x])" "task_state (tasks s' x) = 0" by blast
  have "path (tnext s) (tnext s ?r) as x" using rg by (auto simp: ring_def)
  then have "chase (\<lambda>t. pid_t (tasks s t) \<noteq> pid \<and> t \<noteq> ?r) (tnext s) (tnext s ?r) = Some x"
    by (rule chase_path) (use pid d in auto)
  then have "exitpid pid s = Some (Entered, s')" using pid s'(1) by (simp add: exitpid_def Let_def)
  moreover have "t = hd (bs @ [?r])" "us = tl (bs @ ?r # as)" using tu by (cases bs; auto)+
  ultimately show ?thesis using s' by auto
qed

text \<open>Whatever task has the pid, running or waiting, \<open>exitpid\<close> takes it out of the run queue.\<close>

lemma exitpid_queues:
  assumes q: "queues s ts ds" and ne: "ts \<noteq> []" and pid: "pid \<noteq> 1"
    and f: "find (\<lambda>t. pid_t (tasks s t) = pid) (ts @ [runningThread s]) = Some x" and ar: "areas_ok s x"
  shows "\<exists>s' us. exitpid pid s = Some (Entered, s') \<and> queues s' us (ds @ [x]) \<and> task_state (tasks s' x) = 0 \<and>
    set (runningThread s' # us) = set (runningThread s # ts) - {x}"
proof -
  let ?r = "runningThread s"
  from f obtain as bs where ab: "ts @ [?r] = as @ x # bs" "\<forall>y \<in> set as. pid_t (tasks s y) \<noteq> pid" and px: "pid_t (tasks s x) = pid"
    using find_split [OF f] by blast
  show ?thesis
  proof (cases bs rule: rev_cases)
    case Nil
    then have x: "x = ?r" "as = ts" using ab(1) by simp_all
    obtain t us where tu: "ts = t # us" using ne by (cases ts) auto
    from q tu have "ring (tnext s) ?r (t # us)" "path (tnext s) (deleteQueue s) ds NULL"
      "distinct (?r # t # us @ ds)" "NULL \<notin> set (?r # t # us @ ds)" by (auto simp: queues_def)
    from end_task_ok [OF this ar [unfolded x(1)]] obtain s' where s': "end_task ?r s = Some s'" "runningThread s' = t"
      "queues s' us (ds @ [?r])" "task_state (tasks s' ?r) = 0" by blast
    have "find (\<lambda>t. pid_t (tasks s t) = pid) ts = None" using ab(2) x(2) by (simp add: find_None_iff)
    moreover have "path (tnext s) (tnext s ?r) ts ?r" "?r \<notin> set ts" using q by (auto simp: queues_def ring_def)
    note chase_ring_find [OF this, of "\<lambda>t. pid_t (tasks s t) = pid"]
    ultimately have "chase (\<lambda>t. pid_t (tasks s t) \<noteq> pid \<and> t \<noteq> ?r) (tnext s) (tnext s ?r) = Some ?r"
      by (simp add: conj_commute)
    then have "exitpid pid s = Some (Entered, s')" using s'(1) pid px x(1) by (simp add: exitpid_def Let_def)
    moreover have "set (t # us) = set (?r # ts) - {?r}" using q tu by (auto simp: queues_def)
    ultimately show ?thesis using s' x(1) by (intro exI [of _ s'] exI [of _ us]) simp
  next
    case (snoc cs c)
    then have ts: "ts = as @ x # cs" using ab(1) by simp
    from exitpid_ok [OF q [unfolded ts] ar px pid ab(2)] obtain s' where s': "exitpid pid s = Some (Entered, s')"
      "task_state (tasks s' x) = 0" "runningThread s' = hd (cs @ [?r])" "queues s' (tl (cs @ ?r # as)) (ds @ [x])" by blast
    have "runningThread s' # tl (cs @ ?r # as) = cs @ ?r # as" using s'(3) by (cases cs) simp_all
    moreover have "set (cs @ ?r # as) = set (?r # ts) - {x}" using q ts by (auto simp: queues_def)
    ultimately show ?thesis using s' by (intro exI [of _ s'] exI [of _ "tl (cs @ ?r # as)"]) simp
  qed
qed

text \<open>\<open>kill\<close> takes the first task with the pid out of the run queue, or prints that there is none.\<close>

lemma kill_queues:
  fixes s :: "'a kernel_scheme" and ts ds :: "u64 list" and pid :: u64
  defines "as \<equiv> takeWhile (\<lambda>t. scast (pid_t (tasks s t)) \<noteq> pid) ts"
  assumes q: "queues s ts ds" and ar: "drop (length as) ts \<noteq> [] \<Longrightarrow> areas_ok s (hd (drop (length as) ts))" and p: "pid \<noteq> 1"
  shows "case drop (length as) ts of
      [] \<Rightarrow> kill pid s = Some (0, kprintf ''Did not find any process with given pid\<newline>'' [] s)
    | x # bs \<Rightarrow> \<exists>s'. kill pid s = Some (0, s') \<and> runningThread s' = runningThread s \<and> queues s' (as @ bs) (ds @ [x])"
proof -
  let ?r = "runningThread s" and ?p = "last (runningThread s # as)"
  from q have rg: "ring (tnext s) ?r ts" by (simp add: queues_def)
  have ch: "chase (\<lambda>t. tnext s t \<noteq> ?r \<and> scast (pid_t (tasks s (tnext s t))) \<noteq> pid) (tnext s) ?r = Some ?p"
    using ring_find_before [OF rg, of "\<lambda>t. scast (pid_t (tasks s t)) = pid"] by (simp add: as_def)
  have "as = take (length as) ts" unfolding as_def by (rule takeWhile_eq_take)
  then have split: "ts = as @ drop (length as) ts" by (metis append_take_drop_id)
  show ?thesis
  proof (cases "drop (length as) ts")
    case Nil
    then have "ts = as" using split by simp
    with rg have "tnext s ?p = ?r" by (cases as rule: rev_cases) (auto simp: ring_def)
    with ch p Nil show ?thesis by (simp add: kill_def Let_def)
  next
    case (Cons x bs)
    then have ts: "ts = as @ x # bs" using split by simp
    have "dropWhile (\<lambda>t. scast (pid_t (tasks s t)) \<noteq> pid) ts = x # bs" using Cons by (simp add: as_def dropWhile_eq_drop)
    then have x: "scast (pid_t (tasks s x)) = pid" by (metis (mono_tags, lifting) dropWhile_eq_Cons_conv)
    have px: "tnext s ?p = x" by (rule path_split_head [OF rg [unfolded ts]])
    have xr: "x \<noteq> ?r" "pid_t (tasks s x) \<noteq> 1" using q ts x p by (auto simp: queues_def)
    have rx: "ring (tnext s) x (bs @ ?r # as)" by (rule ring_from [OF rg [unfolded ts]])
    have "areas_ok s x" using ar Cons by simp
    from FreePageEntries_ok [OF this rx] obtain s1 where s1: "FreePageEntries x s = Some s1" "phys_only s s1" by blast
    define s2 where "s2 = FreePageTables x s1"
    have po: "phys_only s s2" unfolding s2_def by (rule phys_only_trans [OF s1(2) phys_only_FreePageTables])
    have e: "tasks s2 = tasks s" "runningThread s2 = ?r" "deleteQueue s2 = deleteQueue s"
      using phys_onlyD [OF po] by simp_all
    have "queues s2 (as @ x # bs) ds" using q ts by (simp add: queues_def e)
    from move_to_deleted [OF this] obtain s' where s':
      "addToDeleteQueue x (upd_task ?p (\<lambda>k. k\<lparr>task_next := tnext s2 (tnext s2 ?p)\<rparr>) s2) = Some s'"
      "queues s' (as @ bs) (ds @ [x])" "runningThread s' = ?r" unfolding e(2) by blast
    have "kill pid s = Some (0, s')" using p ch px xr s1(1) s'(1) by (simp add: kill_def Let_def s2_def [symmetric])
    with s' Cons show ?thesis by auto
  qed
qed

lemma kill_ok:
  assumes q: "queues s (as @ x # bs) ds" and ar: "areas_ok s x"
    and pid: "scast (pid_t (tasks s x)) = pid" "pid \<noteq> 1" "\<forall>y \<in> set as. scast (pid_t (tasks s y)) \<noteq> pid"
  shows "\<exists>s'. kill pid s = Some (0, s') \<and> runningThread s' = runningThread s \<and> queues s' (as @ bs) (ds @ [x])"
proof -
  have "takeWhile (\<lambda>t. scast (pid_t (tasks s t)) \<noteq> pid) (as @ x # bs) = as"
    using pid(1,3) by (induction as) auto
  with kill_queues [of s "as @ x # bs" ds pid] q pid(2) ar show ?thesis by simp
qed

section \<open>Properties\<close>

lemma small_areas_queues: "queues small_areas [0x20, 0x30] [0x40]"
proof -
  have "tnext small_areas = tnext small_kernel"
    by (simp add: small_areas_def frame_simps fun_eq_iff)
  moreover have "runningThread small_areas = runningThread small_kernel" "deleteQueue small_areas = deleteQueue small_kernel"
    by (simp_all add: small_areas_def frame_simps)
  ultimately show ?thesis using small_queues by (simp add: queues_def)
qed

lemma small_areas_pid: "pid_t (tasks small_areas x) = pid_t (tasks small_kernel x)"
  by (simp add: small_areas_def frame_simps)

lemma small_areas_ok: "areas_ok small_areas x"
proof (cases "x = 0x10")
  case True
  have ne: "page_of 301 \<noteq> page_of 300" by (simp add: page_of_inj)
  from small_areas_list have "path (vnext small_areas) (run_mmap small_areas) [page_of 300 + KERNBASE, page_of 301 + KERNBASE] NULL"
    "NULL \<notin> set [page_of 300 + KERNBASE, page_of 301 + KERNBASE]"
    using vma_list_not_null [OF small_areas_list] by (simp_all add: vma_list_def small_areas_sel(2))
  with ne show ?thesis
    unfolding areas_ok_def True small_areas_sel(1) [symmetric]
    by (intro exI [of _ "[page_of 300 + KERNBASE, page_of 301 + KERNBASE]"])
      (simp add: small_areas_sel zero_vma_def)
next
  case False
  then have "task_mmap small_areas x = NULL"
    by (simp add: small_areas_def frame_simps small_kernel_sel small_task_def zero_task_def)
  then show ?thesis unfolding areas_ok_def by (intro exI [of _ "[]"]) simp
qed

text \<open>C9: \<open>exit\<close> of a process other than the shell always ends in the next task of the run queue, in that
  task's address space, with the mutex released. The process is marked dead and moves from the run
  queue to the end of the delete queue; the order of the others is kept. The shell (pid 1) is never
  ended: the call returns 0 and only prints a line.\<close>

theorem exit_retires:
  assumes q: "queues s (t # ts) ds" and ar: "areas_ok s (runningThread s)"
  defines "x \<equiv> runningThread s"
  shows "if pid_t (tasks s x) = 1
    then exit n s = Some (Returned 0, kprintf ''killing sbush.... restarting....\<newline>'' [] s)
    else \<exists>s'. exit n s = Some (Entered, s') \<and> runningThread s' = t \<and> queues s' ts (ds @ [x]) \<and>
      task_state (tasks s' x) = 0 \<and> cr3_reg s' = cr3 (regs (tasks s t)) \<and> mutex s' = 0"
  using exit_ok [OF q ar] by (cases "pid_t (tasks s x) = 1") (simp_all add: x_def exit_def Let_def)

theorem exit_retires_witness:
  "\<exists>s'. exit 0 small_areas = Some (Entered, s') \<and> runningThread s' = 0x20 \<and> queues s' [0x30] [0x40, 0x10]"
  using exit_retires [OF small_areas_queues small_areas_ok, of 0]
  by (auto simp: small_areas_pid small_areas_sel(1) small_kernel_sel small_task_def zero_task_def)

text \<open>Ctrl-C ends the foreground process: \<open>exitpid\<close> of a pid that belongs to another task of the
  run queue retires that task and enters its successor; a pid nobody has, or 1, changes nothing.\<close>

theorem exitpid_retires:
  assumes q: "queues s (as @ x # bs) ds" and ar: "areas_ok s x"
    and pid: "pid_t (tasks s x) = pid" "pid \<noteq> 1" "\<forall>y \<in> set as. pid_t (tasks s y) \<noteq> pid"
  shows "\<exists>s'. exitpid pid s = Some (Entered, s') \<and> task_state (tasks s' x) = 0 \<and>
    runningThread s' = hd (bs @ [runningThread s]) \<and>
    queues s' (tl (bs @ runningThread s # as)) (ds @ [x])"
  by (rule exitpid_ok [OF assms])

theorem exitpid_retires_witness:
  "\<exists>s'. exitpid 3 small_areas = Some (Entered, s') \<and> runningThread s' = 0x30 \<and> queues s' [0x10] [0x40, 0x20]"
proof -
  have "queues small_areas ([] @ 0x20 # [0x30]) [0x40]" using small_areas_queues by simp
  from exitpid_retires [OF this small_areas_ok, of 3] show ?thesis
    by (auto simp: small_areas_pid small_areas_sel(1) small_kernel_sel small_task_def zero_task_def)
qed

text \<open>C10: \<open>kill\<close> of a pid that belongs to another living task (not the shell) takes exactly that task out of the
  run queue and appends it to the delete queue; the caller keeps running and the order of the others
  is kept.\<close>

theorem kill_removes:
  assumes q: "queues s (as @ x # bs) ds" and ar: "areas_ok s x"
    and pid: "scast (pid_t (tasks s x)) = pid" "pid \<noteq> 1" "\<forall>y \<in> set as. scast (pid_t (tasks s y)) \<noteq> pid"
  shows "\<exists>s'. kill pid s = Some (0, s') \<and> runningThread s' = runningThread s \<and> queues s' (as @ bs) (ds @ [x])"
  by (rule kill_ok [OF assms])

theorem kill_removes_witness:
  "\<exists>s'. kill 3 small_areas = Some (0, s') \<and> queues s' [0x30] [0x40, 0x20]"
proof -
  have "queues small_areas ([] @ 0x20 # [0x30]) [0x40]" using small_areas_queues by simp
  from kill_removes [OF this small_areas_ok, of 3] show ?thesis
    by (auto simp: small_areas_pid small_areas_sel(1) small_kernel_sel small_task_def zero_task_def)
qed

end
