(* ===== verification/Fault.thy ===== *)
theory Fault
  imports Fork
begin

text \<open>
  The page-fault handler of \<open>sys/idt.c\<close>: demand paging, copy-on-write and the faults that kill
  the process. \<open>pagefaultAt\<close> is the content of \<open>cr2\<close>. A handler that enters another task does
  not return; one that loops for ever has no result.
\<close>

section \<open>Operations\<close>

text \<open>\<open>exit(0);\<close> followed by more code: the code runs only when \<open>exit\<close> returns (for the shell).\<close>

definition exit_then :: "'a kernel_scheme \<Rightarrow> ('a kernel_scheme \<Rightarrow> (ctl \<times> 'a kernel_scheme) option) \<Rightarrow>
    (ctl \<times> 'a kernel_scheme) option" where
  "exit_then s k =
     (case exit 0 s of
        None \<Rightarrow> None
      | Some (Entered, s') \<Rightarrow> Some (Entered, s')
      | Some (Returned _, s') \<Rightarrow> k s')"

definition returns :: "'a kernel_scheme \<Rightarrow> (ctl \<times> 'a kernel_scheme) option" where
  "returns s = Some (Returned 0, s)"

text \<open>A first touch of a page of an area: a cleared page is mapped.\<close>

definition demand_page :: "u64 \<Rightarrow> 'a kernel_scheme \<Rightarrow> 'a kernel_scheme" where
  "demand_page page s =
     (case pageAllocator s of (ptr, s1) \<Rightarrow>
      let s2 = mapPageForUser page ptr (getRunCr3 s1 + kernbase s1) s1
      in memset (ptr + kernbase s2) s2)"

text \<open>A write to a read-only page: it is copied when another task maps the same frame there.\<close>

definition cow_page :: "u64 \<Rightarrow> 'a kernel_scheme \<Rightarrow> 'a kernel_scheme option" where
  "cow_page page s =
     (let r = runningThread s;
          phyAddr = getPhysicalPageAddr page (getRunCr3 s) s AND FRAME in
      case count_tasks (\<lambda>t. let p = getPhysicalPageAddr page (cr3 (regs (tasks s t))) s
                           in p \<noteq> - 1 \<and> p \<noteq> 0 \<and> p AND FRAME = phyAddr) r s of
        None \<Rightarrow> None
      | Some pageCount \<Rightarrow>
          Some (if pageCount = 1
                then snd (markPageAsRW page (getRunCr3 s + kernbase s) 0 s)
                else (case kmalloc s of (ptr, s1) \<Rightarrow>
                      let newPage = ptr - kernbase s1;
                          src = phyAddr + kernbase s1;
                          s2 = mapPageForUser page newPage (getRunCr3 s1 + kernbase s1) s1
                      in memcpy_page src page s2)))"

definition hndlr_isr14 :: "u64 \<Rightarrow> 'a kernel_scheme \<Rightarrow> (ctl \<times> 'a kernel_scheme) option" where
  "hndlr_isr14 pagefaultAt s =
     (let page = pagefaultAt AND FRAME;
          body = (\<lambda>s.
            let p = errorCode s AND 1 \<noteq> 0;
                rw = drop_bit 1 (errorCode s) AND 1 \<noteq> 0;
                us = drop_bit 2 (errorCode s) AND 1 \<noteq> 0;
                s0 = s\<lparr>errorCode := drop_bit 3 (errorCode s)\<rparr>;
                code = errorCode s0;
                tail = (\<lambda>s.
                  if (us \<and> rw \<and> \<not> p) \<or> (\<not> us \<and> rw \<and> \<not> p) then
                    (case isPartofCurrentVma page s of
                       None \<Rightarrow> None
                     | Some b \<Rightarrow>
                         if b \<noteq> 0 then returns (demand_page page s)
                         else if us \<and> rw \<and> \<not> p then
                           exit_then (kprintf ''Segmentation Fault..Unauthorised access to meomry..Killing the process..\<newline>'' [] s) returns
                         else None)
                  else if us \<and> rw \<and> p then
                    (case cow_page page s of None \<Rightarrow> None | Some s' \<Rightarrow> returns s')
                  else if us \<and> \<not> rw \<and> \<not> p then
                    exit_then (kprintf ''Segmentation Fault..Unauthorised access to meomry..Killing the process..\<newline>'' []
                                (kprintf ''%d'' [KNum code] s)) returns
                  else if \<not> us \<and> \<not> rw \<and> \<not> p then None
                  else exit_then (kprintf ''Segmentation Fault..\<newline>'' [] (kprintf ''%d'' [KNum code] s)) returns)
            in if code \<noteq> 0 then exit_then (kprintf ''%d'' [KNum code] s0) tail else tail s0)
      in if page = 0xFFFFFF7EFFFF5000
         then exit_then (kprintf ''Reached the stack border: Cannot allocate this page\<newline>'' [] s) body
         else body s)"

section \<open>Copying a page\<close>

lemma slot_Suc: "slot f k + 8 = slot f (k + 1)"
  by (simp add: slot_def algebra_simps)

lemma copy_words_slots:
  assumes "f < 65536" "g < 65536" "f \<noteq> g" "h < 65536" "j < 512" and "unat k + n \<le> 512"
  shows "copy_words n (slot f k) (slot g k) m (slot h j) =
    (if h = g \<and> k \<le> j \<and> unat j < unat k + n then m (slot f j) else m (slot h j))"
  using assms(6)
proof (induction n arbitrary: k m)
  case (Suc n)
  then have k: "unat k < 512" by simp
  then have k': "k < 512" and k1: "unat (k + 1) = unat k + 1"
    by (simp_all add: word_less_nat_alt unat_add_64)
  have IH: "copy_words n (slot f (k + 1)) (slot g (k + 1)) m' (slot h j) =
      (if h = g \<and> k + 1 \<le> j \<and> unat j < unat (k + 1) + n then m' (slot f j) else m' (slot h j))" for m'
    by (rule Suc.IH) (use Suc.prems k1 in simp)
  have s: "slot h j = slot g k \<longleftrightarrow> h = g \<and> j = k" "slot f j \<noteq> slot g k"
    using slot_inj [OF assms(4,5,2) k'] slot_inj [OF assms(1,5,2) k'] assms(3) by auto
  have jk: "k + 1 \<le> j \<longleftrightarrow> unat k < unat j" "k \<le> j \<longleftrightarrow> unat k \<le> unat j" "j = k \<longleftrightarrow> unat j = unat k"
    using k1 by (auto simp: word_le_nat_alt word_unat_eq_iff)
  show ?case
  proof (cases "j = k")
    case True
    with s k1 show ?thesis unfolding copy_words.simps slot_Suc IH fun_upd_apply by (auto simp: word_le_nat_alt)
  next
    case False
    with s show ?thesis unfolding copy_words.simps slot_Suc IH fun_upd_apply jk(1,2) k1
      by (auto simp: word_unat_eq_iff)
  qed
qed (auto simp: word_le_nat_alt)

lemma copy_page:
  assumes "f < 65536" "g < 65536" "f \<noteq> g" "h < 65536" "j < 512"
  shows "copy_words 512 (page_of f) (page_of g) m (slot h j) = (if h = g then m (slot f j) else m (slot h j))"
proof -
  have "unat j < 512" using assms(5) by (simp add: word_less_nat_alt)
  moreover have "page_of x = slot x 0" for x by (simp add: slot_def)
  ultimately show ?thesis using copy_words_slots [OF assms, of 0 512 m] by simp
qed

text \<open>Writes to a frame that is no table of \<open>r\<close> keep the tree of \<open>r\<close>.\<close>

lemma data_write_tree:
  assumes wf: "wf_tree m r U" and g: "no_table m r g"
    and eq: "\<And>h k. h < 65536 \<Longrightarrow> h \<noteq> g \<Longrightarrow> k < 512 \<Longrightarrow> m' (slot h k) = m (slot h k)"
  shows "same_tree r m m'"
  unfolding same_tree_def
proof (intro allI impI; elim conjE)
  fix js t and k :: u64
  assume j: "vpath js" "tbl m r js = Some t" "k < 512"
  obtain h where h: "h \<in> U" "t = page_of h" "h < 65536" using wf j(1,2) by (rule wf_tree_frame)
  with g j(1,2) have "h \<noteq> g" by (auto simp: no_table_def)
  from eq [OF h(3) this j(3)] h(2) show "m' (t + 8 * k) = m (t + 8 * k)" by (simp add: slot_def)
qed

lemma free_no_table:
  assumes "wf_tree m r (used_frames s)" and "g \<in> free_frames s" and "vm_ok s"
  shows "no_table m r g"
  unfolding no_table_def
proof (intro allI impI notI)
  fix js assume "vpath js" "tbl m r js = Some (page_of g)"
  with assms(1) obtain h where "h \<in> used_frames s" "page_of g = page_of h" "h < 65536"
    by (rule wf_tree_frame)
  moreover have "g < 65536" using assms(2,3) free_frames_bound by (auto simp: vm_ok_def)
  ultimately show False using assms(2) by (auto simp: page_of_inj used_frames_def)
qed

lemma no_table_same: "same_tree r m m' \<Longrightarrow> no_table m' r g = no_table m r g"
  by (simp add: no_table_def same_tree_tbl)

lemma apart_same:
  assumes "same_tree r m m'" "same_tree r' m m'" "apart m r r' i"
  shows "apart m' r r' i"
  unfolding apart_def
proof (intro allI impI; elim conjE)
  fix ks js t assume k: "vpath ks" "vpath js" "ks = [] \<or> hd ks = i" "tbl m' r ks = Some t"
  have "tbl m r ks = Some t" using same_tree_tbl [OF assms(1) k(1)] k(4) by simp
  with assms(3) k have "tbl m r' js \<noteq> Some t" unfolding apart_def by blast
  with same_tree_tbl [OF assms(2) k(2)] show "tbl m' r' js \<noteq> Some t" by simp
qed

text \<open>What \<open>kmalloc\<close> means for a tree.\<close>

lemma kmalloc_tree:
  assumes ok: "vm_ok s" and ne: "free_frames s \<noteq> {}" and k: "kmalloc s = (p, s')"
  obtains g where "g \<in> free_frames s" "g < 65536" "p = page_of g + KERNBASE" "vm_ok s'" "g \<in> used_frames s'"
    "free_frames s' = free_frames s - {g}" "used_frames s \<subseteq> used_frames s'"
    "\<And>h j. h < 65536 \<Longrightarrow> j < 512 \<Longrightarrow> pmem s' (slot h j) = (if h = g then 0 else pmem s (slot h j))"
    "\<And>r. wf_tree (pmem s) r (used_frames s) \<Longrightarrow>
       same_tree r (pmem s) (pmem s') \<and> wf_tree (pmem s') r (used_frames s') \<and> no_table (pmem s') r g"
proof -
  from kmalloc_zeroed_lemma [OF ok ne k] obtain g where g: "g \<in> free_frames s" "p = page_of g + KERNBASE"
    "free_frames s' = free_frames s - {g}" "vm_ok s'"
    "\<And>h j. h < 65536 \<Longrightarrow> j < 512 \<Longrightarrow> pmem s' (slot h j) = (if h = g then 0 else pmem s (slot h j))" by blast
  have gb: "0 < g" "g < 65536" using g(1) ok free_frames_bound by (auto simp: vm_ok_def)
  have U: "used_frames s' = insert g (used_frames s)" using g(1,3) gb by (auto simp: used_frames_def)
  have "same_tree r (pmem s) (pmem s') \<and> wf_tree (pmem s') r (used_frames s') \<and> no_table (pmem s') r g"
    if wf: "wf_tree (pmem s) r (used_frames s)" for r
  proof -
    have nt: "no_table (pmem s) r g" by (rule free_no_table [OF wf g(1) ok])
    have st: "same_tree r (pmem s) (pmem s')" by (rule data_write_tree [OF wf nt]) (simp add: g(5))
    have "wf_tree (pmem s') r (used_frames s')"
      by (rule wf_tree_mono [OF same_tree_wf [OF st wf]]) (use U used_frames_bound in auto)
    with st nt no_table_same [OF st] show ?thesis by simp
  qed
  with g gb U show thesis by (intro that) auto
qed

section \<open>Copy-on-write\<close>

lemma count_tasks_ring:
  assumes "ring (tnext s) t ts"
  shows "count_tasks P t s = Some (1 + of_nat (length (filter P ts)))"
proof -
  have f: "fold (\<lambda>p c. if P p then c + 1 else c) ts c = c + (of_nat (length (filter P ts)) :: i32)" for c
    by (induction ts arbitrary: c) (simp_all add: algebra_simps)
  from assms have "path (tnext s) (tnext s t) ts t" "t \<notin> set ts" by (auto simp: ring_def)
  then show ?thesis
    unfolding count_tasks_def
    by (subst for_ptrs_fold [where f = "\<lambda>p c. if P p then c + 1 else c" and xs = ts]) (simp_all add: f)
qed

lemma count_is_one:
  assumes "ring (tnext s) t ts" and "length ts < 2 ^ 32"
  shows "\<exists>n. count_tasks P t s = Some n \<and> (n = 1 \<longleftrightarrow> (\<forall>u \<in> set ts. \<not> P u))"
proof -
  have "length (filter P ts) < 2 ^ 32" using assms(2) length_filter_le [of P ts] by linarith
  then have "(of_nat (length (filter P ts)) :: i32) = 0 \<longleftrightarrow> length (filter P ts) = 0"
    by (auto simp: word_of_nat_eq_0_iff dest: nat_dvd_not_less)
  with count_tasks_ring [OF assms(1), of P] show ?thesis by (simp add: filter_empty_conv)
qed

text \<open>A page that a task writes: who maps the frame of the page \<open>v\<close> of \<open>r\<close> at the same address.\<close>

definition shares :: "'a kernel_scheme \<Rightarrow> u64 \<Rightarrow> u64 \<Rightarrow> u64 \<Rightarrow> bool" where
  "shares s r v t \<longleftrightarrow> (let p = getPhysicalPageAddr v (cr3 (regs (tasks s t))) s
     in p \<noteq> - 1 \<and> p \<noteq> 0 \<and> p AND FRAME = getPhysicalPageAddr v r s AND FRAME)"

lemma cow_page_cases:
  assumes "ring (tnext s) (runningThread s) ts" and "length ts < 2 ^ 32"
  shows "cow_page v s = Some
    (if \<forall>t \<in> set ts. \<not> shares s (getRunCr3 s) v t
     then snd (markPageAsRW v (getRunCr3 s + kernbase s) 0 s)
     else (case kmalloc s of (ptr, s1) \<Rightarrow>
             memcpy_page ((getPhysicalPageAddr v (getRunCr3 s) s AND FRAME) + kernbase s1) v
               (mapPageForUser v (ptr - kernbase s1) (getRunCr3 s1 + kernbase s1) s1)))"
proof -
  let ?P = "shares s (getRunCr3 s) v"
  from count_is_one [OF assms, of ?P] obtain n where n: "count_tasks ?P (runningThread s) s = Some n"
    "n = 1 \<longleftrightarrow> (\<forall>t \<in> set ts. \<not> ?P t)" by blast
  have A: "cow_page v s = (case count_tasks ?P (runningThread s) s of None \<Rightarrow> None
     | Some pageCount \<Rightarrow> Some (if pageCount = 1
     then snd (markPageAsRW v (getRunCr3 s + kernbase s) 0 s)
     else (case kmalloc s of (ptr, s1) \<Rightarrow>
             memcpy_page ((getPhysicalPageAddr v (getRunCr3 s) s AND FRAME) + kernbase s1) v
               (mapPageForUser v (ptr - kernbase s1) (getRunCr3 s1 + kernbase s1) s1))))"
    unfolding cow_page_def shares_def Let_def by (rule refl)
  show ?thesis unfolding A n(1) option.case n(2) by (rule refl)
qed

text \<open>The physical address of the page \<open>v\<close> of the loaded address space.\<close>

lemma v2p_user:
  assumes ok: "vm_ok s" and wf: "wf_tree (pmem s) r (used_frames s)"
    and v: "v < KERNBASE" "v AND FRAME = v" and l: "leaf_entry (pmem s) r v AND FRAME = page_of g"
  shows "v2p s r v = page_of g"
proof -
  have kb: "kernbase s = KERNBASE" using ok by (simp add: vm_ok_def)
  have "v AND 0xFFF = (v AND FRAME) AND 0xFFF" using v(2) by simp
  also have "\<dots> = 0" by (simp add: FRAME_def and.assoc)
  finally have "v AND 0xFFF = 0" .
  moreover have "\<not> KERNBASE \<le> v" using v(1) by simp
  ultimately show ?thesis using l walk_leaf_entry [OF ok wf, of v] by (simp add: v2p_def kb)
qed

lemma v2p_kernel:
  assumes "kernbase s = KERNBASE" "f < 65536"
  shows "v2p s r (page_of f + KERNBASE) = page_of f"
proof -
  have "unat (page_of f + KERNBASE) = unat (page_of f) + unat KERNBASE"
    using assms by (intro unat_add_64) (simp add: unat_page_of unat_KERNBASE)
  then have "KERNBASE \<le> page_of f + KERNBASE" by (simp add: word_le_nat_alt)
  then show ?thesis by (simp add: v2p_def assms)
qed

lemma leaf_flags_user: "(page_of g OR leaf_flags 1) AND FRAME = page_of g"
  by (rule entry_frame) (simp add: page_simps)

lemma phys_only_cr3: "phys_only (s :: 'a vm_scheme) s' \<Longrightarrow> cr3_reg s' = cr3_reg s"
proof -
  assume "phys_only s s'"
  then have "s' = s\<lparr>availFrames := availFrames s', pmem := pmem s'\<rparr>" by (simp only: phys_only_def)
  moreover have "cr3_reg (s\<lparr>availFrames := a, pmem := m\<rparr>) = cr3_reg s" for a m by simp
  ultimately show ?thesis by metis
qed

text \<open>
  One page of the address space \<open>r\<close> is mapped to a fresh frame, which receives the words of the
  frame \<open>f\<close>: the steps \<open>kmalloc\<close>, \<open>mapPageForUser\<close>, \<open>memcpy\<close>.
\<close>

definition fresh_copy :: "u64 \<Rightarrow> u64 \<Rightarrow> nat \<Rightarrow> 'a vm_scheme \<Rightarrow> 'a vm_scheme \<Rightarrow> nat \<Rightarrow> bool" where
  "fresh_copy r v f s s' g \<longleftrightarrow> g \<in> free_frames s \<and> vm_ok s' \<and> wf_tree (pmem s') r (used_frames s') \<and>
     leaf_entry (pmem s') r v = page_of g OR leaf_flags 1 \<and>
     (\<forall>k < 512. pmem s' (slot g k) = pmem s (slot f k)) \<and>
     (\<forall>k < 512. pmem s' (slot f k) = pmem s (slot f k)) \<and>
     (\<forall>w. same_page w v \<or> leaf_entry (pmem s') r w = leaf_entry (pmem s) r w \<or>
        leaf_entry (pmem s) r w = - 1 \<and> leaf_entry (pmem s') r w = 0) \<and>
     (\<forall>r' w. wf_tree (pmem s) r' (used_frames s) \<and> apart (pmem s) r r' (get_PML4_INDEX v) \<longrightarrow>
        leaf_entry (pmem s') r' w = leaf_entry (pmem s) r' w)"

lemma fresh_copy_ok:
  assumes ok: "vm_ok s" and wf: "wf_tree (pmem s) r (used_frames s)" and c: "4 \<le> card (free_frames s)"
    and v: "v < KERNBASE" "v AND FRAME = v" and f: "f \<in> used_frames s" "no_table (pmem s) r f"
    and k: "kmalloc s = (ptr, s1)" and cr: "cr3_reg s = r"
  defines "s2 \<equiv> mapPageForUser v (ptr - kernbase s1) (r + kernbase s1) s1"
  shows "\<exists>g. fresh_copy r v f s (memcpy_page (page_of f + kernbase s1) v s2) g"
proof -
  have ne: "free_frames s \<noteq> {}" using c by auto
  obtain g where g: "g \<in> free_frames s" "g < 65536" "ptr = page_of g + KERNBASE" "vm_ok s1" "g \<in> used_frames s1"
    "free_frames s1 = free_frames s - {g}" "used_frames s \<subseteq> used_frames s1"
    "\<And>h j. h < 65536 \<Longrightarrow> j < 512 \<Longrightarrow> pmem s1 (slot h j) = (if h = g then 0 else pmem s (slot h j))"
    "\<And>r. wf_tree (pmem s) r (used_frames s) \<Longrightarrow>
       same_tree r (pmem s) (pmem s1) \<and> wf_tree (pmem s1) r (used_frames s1) \<and> no_table (pmem s1) r g"
    using kmalloc_tree [OF ok ne k] by blast
  have kb: "kernbase s1 = KERNBASE" using g(4) by (simp add: vm_ok_def)
  have fb: "f < 65536" "f \<noteq> g" using f(1) g(1) by (auto simp: used_frames_def)
  note T1 = g(9) [OF wf]
  have c1: "3 \<le> card (free_frames s1)" using c g(1,6) by simp
  have s2: "s2 = forceMapPage v (page_of g) (r + KERNBASE) 1 s1"
    by (simp add: s2_def kb g(3) mapPageForUser_force)
  have m: "mapped r v (page_of g OR leaf_flags 1) s1 s2"
    unfolding s2 by (rule forceMapPage_ok [OF g(4) _ c1]) (use T1 in blast)
  then have ok2: "vm_ok s2" and wf2: "wf_tree (pmem s2) r (used_frames s2)" and d: "data_kept r s1 s2"
    and oth: "others_kept r (get_PML4_INDEX v) s1 s2" by (simp_all add: mapped_def)
  have nf1: "no_table (pmem s1) r f" using no_table_same [of r "pmem s" "pmem s1" f] T1 f(2) by blast
  have fg: "\<forall>k < 512. pmem s2 (slot f k) = pmem s1 (slot f k)" "no_table (pmem s2) r g"
    using d g(5,7) f(1) nf1 T1 unfolding data_kept_def by blast+
  let ?s = "memcpy_page (page_of f + kernbase s1) v s2"
  have cr2: "cr3_reg s2 = r"
  proof -
    have "cr3_reg (snd (kmalloc s)) = cr3_reg s" by (rule phys_only_cr3 [OF phys_only_kmalloc])
    moreover have "cr3_reg s2 = cr3_reg s1" unfolding s2_def by (rule phys_only_cr3 [OF phys_only_map])
    ultimately show ?thesis using k cr by simp
  qed
  have kb2: "kernbase s2 = KERNBASE" using ok2 by (simp add: vm_ok_def)
  have "?s = s2\<lparr>pmem := copy_words 512 (page_of f) (page_of g) (pmem s2)\<rparr>"
    using v2p_kernel [OF kb2 fb(1), of r] v2p_user [OF ok2 wf2 v, of g] mapped_leaf [OF m] leaf_flags_user
    by (simp add: memcpy_page_def cr2 kb)
  then have P: "pmem ?s = copy_words 512 (page_of f) (page_of g) (pmem s2)" and fr: "vm_ok ?s = vm_ok s2"
    "used_frames ?s = used_frames s2" by simp_all
  have W: "pmem ?s (slot h k) = (if h = g then pmem s2 (slot f k) else pmem s2 (slot h k))"
    if "h < 65536" "k < 512" for h k
    unfolding P by (rule copy_page [OF fb(1) g(2) fb(2) that])
  have st: "same_tree r (pmem s2) (pmem ?s)" by (rule data_write_tree [OF wf2 fg(2)]) (simp add: W)
  have L: "leaf_entry (pmem ?s) r w = leaf_entry (pmem s2) r w" for w by (rule same_tree_leaf_entry [OF st])
  have L1: "leaf_entry (pmem s1) r w = leaf_entry (pmem s) r w" for w using T1 same_tree_leaf_entry by blast
  have others: "leaf_entry (pmem ?s) r' w = leaf_entry (pmem s) r' w"
    if r': "wf_tree (pmem s) r' (used_frames s)" "apart (pmem s) r r' (get_PML4_INDEX v)" for r' w
  proof -
    note T' = g(9) [OF r'(1)]
    have ap: "apart (pmem s1) r r' (get_PML4_INDEX v)"
      using apart_same [OF _ _ r'(2)] T1 T' by blast
    have st2: "same_tree r' (pmem s1) (pmem s2)" and w2: "wf_tree (pmem s2) r' (used_frames s2)"
      using oth T' ap unfolding others_kept_def by blast+
    have "no_table (pmem s2) r' g" using T' no_table_same [OF st2] by blast
    then have "same_tree r' (pmem s2) (pmem ?s)" by (rule data_write_tree [OF w2]) (simp add: W)
    then show ?thesis using T' st2 same_tree_leaf_entry by metis
  qed
  have "fresh_copy r v f s ?s g"
    unfolding fresh_copy_def
  proof (intro conjI allI impI)
    show "g \<in> free_frames s" "vm_ok ?s" "wf_tree (pmem ?s) r (used_frames ?s)"
      using g(1) ok2 same_tree_wf [OF st wf2] by (simp_all add: fr)
    show "leaf_entry (pmem ?s) r v = page_of g OR leaf_flags 1" by (simp add: L mapped_leaf [OF m])
    show "pmem ?s (slot g k) = pmem s (slot f k)" "pmem ?s (slot f k) = pmem s (slot f k)" if "k < 512" for k
      using that W g(2,8) fg(1) fb by simp_all
    show "same_page w v \<or> leaf_entry (pmem ?s) r w = leaf_entry (pmem s) r w \<or>
        leaf_entry (pmem s) r w = - 1 \<and> leaf_entry (pmem ?s) r w = 0" for w
      using m unfolding mapped_def L L1 [symmetric] by metis
    show "leaf_entry (pmem ?s) r' w = leaf_entry (pmem s) r' w"
      if "wf_tree (pmem s) r' (used_frames s) \<and> apart (pmem s) r r' (get_PML4_INDEX v)" for r' w
      using others that by blast
  qed
  then show ?thesis by blast
qed

text \<open>One page of the address space \<open>r\<close> is mapped to a fresh frame of zeros: \<open>demand_page\<close>.\<close>

definition fresh_zero :: "u64 \<Rightarrow> u64 \<Rightarrow> 'a vm_scheme \<Rightarrow> 'a vm_scheme \<Rightarrow> nat \<Rightarrow> bool" where
  "fresh_zero r v s s' g \<longleftrightarrow> g \<in> free_frames s \<and> vm_ok s' \<and> wf_tree (pmem s') r (used_frames s') \<and>
     leaf_entry (pmem s') r v = page_of g OR leaf_flags 1 \<and> (\<forall>k < 512. pmem s' (slot g k) = 0) \<and>
     (\<forall>w. same_page w v \<or> leaf_entry (pmem s') r w = leaf_entry (pmem s) r w \<or>
        leaf_entry (pmem s) r w = - 1 \<and> leaf_entry (pmem s') r w = 0) \<and>
     (\<forall>r' w. wf_tree (pmem s) r' (used_frames s) \<and> apart (pmem s) r r' (get_PML4_INDEX v) \<longrightarrow>
        leaf_entry (pmem s') r' w = leaf_entry (pmem s) r' w)"

lemma fresh_zero_ok:
  assumes ok: "vm_ok s" and wf: "wf_tree (pmem s) (getRunCr3 s) (used_frames s)" and c: "4 \<le> card (free_frames s)"
  shows "\<exists>g. fresh_zero (getRunCr3 s) v s (demand_page v s) g"
proof -
  let ?r = "getRunCr3 s" and ?g = "Min (free_frames s)"
  have ne: "free_frames s \<noteq> {}" using c by auto
  have inv: "phys_inv s" and kb: "kernbase s = KERNBASE" using ok by (simp_all add: vm_ok_def)
  have g: "?g \<in> free_frames s" using ne by simp
  then have gb: "?g < 65536" "0 < ?g" using free_frames_bound [OF inv] by blast+
  note A = pageAllocator_step [OF inv ne]
  define s1 where "s1 = markasUsed (of_nat ?g) s"
  have s1: "pageAllocator s = (page_of ?g, s1)" "free_frames s1 = free_frames s - {?g}" "vm_ok s1" "pmem s1 = pmem s"
    using A kb by (simp_all add: s1_def vm_ok_def frame_simps)
  have po: "phys_only s s1" unfolding s1_def by simp
  have r1: "getRunCr3 s1 = ?r" "kernbase s1 = KERNBASE" using phys_onlyD [OF po] kb by (simp_all add: getRunCr3_def)
  have U: "used_frames s1 = insert ?g (used_frames s)" using g s1(2) gb by (auto simp: used_frames_def)
  have W1: "wf_tree (pmem s1) r' (used_frames s1)" if "wf_tree (pmem s) r' (used_frames s)" for r'
    using wf_tree_mono [OF that, of "used_frames s1"] U used_frames_bound by (auto simp: s1(4))
  have N1: "no_table (pmem s1) r' ?g" if "wf_tree (pmem s) r' (used_frames s)" for r'
    unfolding s1(4) by (rule free_no_table [OF that g ok])
  define s2 where "s2 = mapPageForUser v (page_of ?g) (?r + KERNBASE) s1"
  have "3 \<le> card (free_frames s1)" using c g s1(2) by simp
  then have m: "mapped ?r v (page_of ?g OR leaf_flags 1) s1 s2"
    unfolding s2_def mapPageForUser_force by (rule forceMapPage_ok [OF s1(3) W1 [OF wf]])
  then have ok2: "vm_ok s2" and wf2: "wf_tree (pmem s2) ?r (used_frames s2)" and d: "data_kept ?r s1 s2"
    and oth: "others_kept ?r (get_PML4_INDEX v) s1 s2" by (simp_all add: mapped_def)
  have kb2: "kernbase s2 = KERNBASE" using ok2 by (simp add: vm_ok_def)
  have ng: "no_table (pmem s2) ?r ?g" using d N1 [OF wf] U unfolding data_kept_def by blast
  let ?s = "s2\<lparr>pmem := zero_words 512 (page_of ?g) (pmem s2)\<rparr>"
  have run: "demand_page v s = ?s"
    by (simp add: demand_page_def Let_def s1(1) r1 s2_def [symmetric] kb2 memset_page [OF gb(1) kb2])
  have Z: "pmem ?s (slot h k) = (if h = ?g then 0 else pmem s2 (slot h k))" if "h < 65536" "k < 512" for h k
    using zero_page_slot [OF gb(1) that(1) that(2)] by simp
  have Z': "pmem ?s (slot h k) = pmem s2 (slot h k)" if "h < 65536" "h \<noteq> ?g" "k < 512" for h k
    using Z [OF that(1,3)] that(2) by (simp only: if_False)
  have st: "same_tree ?r (pmem s2) (pmem ?s)" by (rule data_write_tree [OF wf2 ng Z'])
  have L: "leaf_entry (pmem ?s) ?r w = leaf_entry (pmem s2) ?r w" for w by (rule same_tree_leaf_entry [OF st])
  have others: "leaf_entry (pmem ?s) r' w = leaf_entry (pmem s) r' w"
    if r': "wf_tree (pmem s) r' (used_frames s)" "apart (pmem s) ?r r' (get_PML4_INDEX v)" for r' w
  proof -
    have st2: "same_tree r' (pmem s1) (pmem s2)" and w2: "wf_tree (pmem s2) r' (used_frames s2)"
      using oth W1 [OF r'(1)] r'(2) unfolding others_kept_def s1(4) by blast+
    have n2: "no_table (pmem s2) r' ?g" using N1 [OF r'(1)] no_table_same [OF st2] by blast
    have "same_tree r' (pmem s2) (pmem ?s)" by (rule data_write_tree [OF w2 n2 Z'])
    from same_tree_leaf_entry [OF this, of w] same_tree_leaf_entry [OF st2, of w] show ?thesis by (simp only: s1(4))
  qed
  have "fresh_zero ?r v s ?s ?g"
    unfolding fresh_zero_def
  proof (intro conjI allI impI)
    show "?g \<in> free_frames s" "vm_ok ?s" "wf_tree (pmem ?s) ?r (used_frames ?s)"
      using g ok2 same_tree_wf [OF st wf2] by simp_all
    show "leaf_entry (pmem ?s) ?r v = page_of ?g OR leaf_flags 1" by (simp only: L mapped_leaf [OF m])
    show "pmem ?s (slot ?g k) = 0" if "k < 512" for k using that Z gb(1) by simp
    show "same_page w v \<or> leaf_entry (pmem ?s) ?r w = leaf_entry (pmem s) ?r w \<or>
        leaf_entry (pmem s) ?r w = - 1 \<and> leaf_entry (pmem ?s) ?r w = 0" for w
      using m unfolding mapped_def L s1(4) by metis
    show "leaf_entry (pmem ?s) r' w = leaf_entry (pmem s) r' w"
      if "wf_tree (pmem s) r' (used_frames s) \<and> apart (pmem s) ?r r' (get_PML4_INDEX v)" for r' w
      using others that by blast
  qed
  then show ?thesis unfolding run by (rule exI)
qed

section \<open>The handler\<close>

lemma free_frames_errorCode [simp]: "free_frames (s\<lparr>errorCode := e\<rparr>) = free_frames s"
  by (simp add: free_frames_def)

lemma walk_errorCode [simp]: "getPhysicalPageAddr v r (s\<lparr>errorCode := e\<rparr>) = getPhysicalPageAddr v r s"
proof -
  have r: "rd (s\<lparr>errorCode := e\<rparr>) a = rd s a" for a by (simp add: rd_def)
  have k: "kernbase (s\<lparr>errorCode := e\<rparr>) = kernbase s" by simp
  show ?thesis unfolding getPhysicalPageAddr_def Let_def r k by (rule refl)
qed

lemma errorCode_frame [simp]:
  "vm_ok (s\<lparr>errorCode := e\<rparr>) = vm_ok s" "used_frames (s\<lparr>errorCode := e\<rparr>) = used_frames s"
  "getRunCr3 (s\<lparr>errorCode := e\<rparr>) = getRunCr3 s" "shares (s\<lparr>errorCode := e\<rparr>) r v t = shares s r v t"
  by (simp_all add: vm_ok_def phys_inv_def used_frames_def getRunCr3_def shares_def)

lemma isPart_errorCode [simp]: "isPartofCurrentVma a (s\<lparr>errorCode := e\<rparr>) = isPartofCurrentVma a s"
  by (simp add: isPartofCurrentVma_def)

lemma hndlr_write_present:
  assumes "addr AND FRAME \<noteq> 0xFFFFFF7EFFFF5000" and "errorCode s = 7"
  shows "hndlr_isr14 addr s = map_option (\<lambda>s'. (Returned 0, s')) (cow_page (addr AND FRAME) (s\<lparr>errorCode := 0\<rparr>))"
  using assms by (simp add: hndlr_isr14_def Let_def returns_def split: option.split)

lemma hndlr_write_absent:
  assumes "addr AND FRAME \<noteq> 0xFFFFFF7EFFFF5000" and "errorCode s = 6"
  shows "hndlr_isr14 addr s =
    (case isPartofCurrentVma (addr AND FRAME) s of
       None \<Rightarrow> None
     | Some b \<Rightarrow>
         if b \<noteq> 0 then Some (Returned 0, demand_page (addr AND FRAME) (s\<lparr>errorCode := 0\<rparr>))
         else exit_then (kprintf ''Segmentation Fault..Unauthorised access to meomry..Killing the process..\<newline>'' []
                (s\<lparr>errorCode := 0\<rparr>)) returns)"
  using assms by (simp add: hndlr_isr14_def Let_def returns_def split: option.split)

lemma frame_frame [simp]: "(a AND FRAME) AND FRAME = a AND FRAME"
  by (simp add: and.assoc)

section \<open>A concrete shared page\<close>

text \<open>The machine of \<open>small_kernel\<close>, in which the page 0x400000 is mapped to frame 300. All tasks use
  the address space with root 256, so the page is shared.\<close>

definition shared_kernel :: kernel where
  "shared_kernel = forceMapPage 0x400000 (page_of 300) (page_of 256 + KERNBASE) 1 (small_kernel\<lparr>errorCode := 7\<rparr>)"

lemma shared_mapped: "mapped (page_of 256) 0x400000 (page_of 300 OR leaf_flags 1) (small_kernel\<lparr>errorCode := 7\<rparr>) shared_kernel"
proof -
  have "wf_tree (pmem small_vm) (page_of 256) (used_frames small_vm)" by (rule small_tree [OF small_used(1)])
  then have "wf_tree (pmem (small_kernel\<lparr>errorCode := 7\<rparr>)) (page_of 256) (used_frames (small_kernel\<lparr>errorCode := 7\<rparr>))"
    by (simp add: small_kernel_sel)
  then show ?thesis
    unfolding shared_kernel_def
    by (intro forceMapPage_ok) (simp_all add: small_kernel_sel small_ok)
qed

lemma shared_po: "phys_only (small_kernel\<lparr>errorCode := 7\<rparr>) shared_kernel"
  by (simp add: shared_kernel_def)

lemma phys_only_errorCode: "phys_only (s :: 'a kernel_scheme) s' \<Longrightarrow> errorCode s' = errorCode s"
proof -
  assume "phys_only s s'"
  then have "s' = s\<lparr>availFrames := availFrames s', pmem := pmem s'\<rparr>" by (simp only: phys_only_def)
  moreover have "errorCode (s\<lparr>availFrames := a, pmem := m\<rparr>) = errorCode s" for a m by simp
  ultimately show ?thesis by metis
qed

lemma shared_sel:
  "vm_ok shared_kernel" "wf_tree (pmem shared_kernel) (page_of 256) (used_frames shared_kernel)"
  "getPhysicalPageAddr 0x400000 (page_of 256) shared_kernel = page_of 300 OR leaf_flags 1"
  "tasks shared_kernel = tasks small_kernel" "runningThread shared_kernel = 0x10" "errorCode shared_kernel = 7"
  "cr3_reg shared_kernel = page_of 256" "getRunCr3 shared_kernel = page_of 256" "9 \<le> card (free_frames shared_kernel)"
  "300 \<in> used_frames shared_kernel" "no_table (pmem shared_kernel) (page_of 256) 300"
proof -
  note m = shared_mapped
  show ok: "vm_ok shared_kernel" and wf: "wf_tree (pmem shared_kernel) (page_of 256) (used_frames shared_kernel)"
    using m by (simp_all add: mapped_def)
  show "getPhysicalPageAddr 0x400000 (page_of 256) shared_kernel = page_of 300 OR leaf_flags 1"
    unfolding walk_leaf_entry [OF ok wf] by (rule mapped_leaf [OF m])
  show t: "tasks shared_kernel = tasks small_kernel" "runningThread shared_kernel = 0x10" "errorCode shared_kernel = 7"
    "cr3_reg shared_kernel = page_of 256"
    using phys_onlyD [OF shared_po] phys_only_errorCode [OF shared_po]
    by (simp_all add: small_kernel_sel) (simp add: small_kernel_def vm.defs kernel.defs small_vm_def)
  show "getRunCr3 shared_kernel = page_of 256"
    by (simp add: getRunCr3_def t small_kernel_sel small_task_def zero_task_def zero_regs_def)
  have "card (free_frames small_kernel) = 12" by (simp add: small_kernel_sel small_ok)
  with m show "9 \<le> card (free_frames shared_kernel)" by (simp add: mapped_def)
  have n: "no_table (pmem (small_kernel\<lparr>errorCode := 7\<rparr>)) (page_of 256) 300"
    by (simp add: no_table_def small_kernel_sel small_tbl page_of_inj)
  have "300 \<in> used_frames (small_kernel\<lparr>errorCode := 7\<rparr>)" by (simp add: small_kernel_sel small_used)
  with m n show "300 \<in> used_frames shared_kernel" "no_table (pmem shared_kernel) (page_of 256) 300"
    unfolding mapped_def data_kept_def by blast+
qed

lemma shared_ring: "ring (tnext shared_kernel) (runningThread shared_kernel) [0x20, 0x30]"
  using small_queues by (simp add: queues_def shared_sel small_kernel_sel(2))

lemma shared_shares: "shares shared_kernel (page_of 256) 0x400000 0x20"
proof -
  have "cr3 (regs (tasks shared_kernel 0x20)) = page_of 256"
    by (simp add: shared_sel small_kernel_sel small_task_def zero_task_def zero_regs_def)
  moreover have "page_of 300 OR leaf_flags 1 \<noteq> - 1" "page_of 300 OR leaf_flags 1 \<noteq> 0"
    by (simp_all add: page_of_def leaf_flags_def PRESENT_def WRITEABLE_def USER_def)
  ultimately show ?thesis by (simp add: shares_def shared_sel)
qed

section \<open>Properties\<close>

text \<open>C32: Demand paging. The first user write to an absent page that starts an area of the process returns with
  the page mapped, writable and for the user, to a fresh frame of zeros; no other page of the address
  space and nothing in a separate address space changes its translation.\<close>

theorem first_touch_maps_zero_page:
  assumes ok: "vm_ok s" and wf: "wf_tree (pmem s) (getRunCr3 s) (used_frames s)"
    and c: "4 \<le> card (free_frames s)" and e: "errorCode s = 6"
    and v: "v = addr AND FRAME" "v \<noteq> 0xFFFFFF7EFFFF5000" and a: "isPartofCurrentVma v s = Some b" "b \<noteq> 0"
  shows "\<exists>s' g. hndlr_isr14 addr s = Some (Returned 0, s') \<and> g \<in> free_frames s \<and>
    getPhysicalPageAddr v (getRunCr3 s) s' = page_of g OR (PRESENT OR WRITEABLE OR USER) \<and>
    (\<forall>k < 512. pmem s' (slot g k) = 0) \<and>
    (\<forall>w. same_page w v \<or> getPhysicalPageAddr w (getRunCr3 s) s' = getPhysicalPageAddr w (getRunCr3 s) s \<or>
       getPhysicalPageAddr w (getRunCr3 s) s = - 1 \<and> getPhysicalPageAddr w (getRunCr3 s) s' = 0) \<and>
    (\<forall>r' w. wf_tree (pmem s) r' (used_frames s) \<and> apart (pmem s) (getRunCr3 s) r' (get_PML4_INDEX v) \<longrightarrow>
       leaf_entry (pmem s') r' w = leaf_entry (pmem s) r' w)"
proof -
  let ?s = "s\<lparr>errorCode := 0\<rparr>"
  have run: "hndlr_isr14 addr s = Some (Returned 0, demand_page v ?s)"
    using hndlr_write_absent [of addr s] v e a by simp
  obtain g where "fresh_zero (getRunCr3 s) v ?s (demand_page v ?s) g"
    using fresh_zero_ok [of ?s v] ok wf c by auto
  then show ?thesis
    using run walk_leaf_entry [OF ok wf] unfolding fresh_zero_def
    by (intro exI [of _ "demand_page v ?s"] exI [of _ g]) (auto simp: walk_leaf_entry leaf_flags_def)
qed

theorem first_touch_maps_zero_page_witness:
  "\<exists>s' g. hndlr_isr14 0x400010 (small_areas\<lparr>errorCode := 6\<rparr>) = Some (Returned 0, s') \<and>
     getPhysicalPageAddr 0x400000 (page_of 256) s' = page_of g OR (PRESENT OR WRITEABLE OR USER)"
proof -
  let ?s = "small_areas\<lparr>errorCode := 6\<rparr>"
  have cr: "getRunCr3 ?s = page_of 256" and pm: "pmem ?s = pmem small_vm"
    by (simp_all add: getRunCr3_def small_areas_def frame_simps small_kernel_sel small_task_def zero_task_def zero_regs_def)
  have u: "used_frames ?s = used_frames small_vm" and ok: "vm_ok ?s" by (simp_all add: small_areas_sel)
  have wf: "wf_tree (pmem ?s) (getRunCr3 ?s) (used_frames ?s)"
    unfolding cr pm u by (rule small_tree [OF small_used(1)])
  have c: "4 \<le> card (free_frames ?s)" by (simp add: small_areas_sel small_ok)
  have p: "path (vnext ?s) (run_mmap ?s) [page_of 300 + KERNBASE, page_of 301 + KERNBASE] NULL"
    "NULL \<notin> set [page_of 300 + KERNBASE, page_of 301 + KERNBASE]"
    using small_areas_list vma_list_not_null [OF small_areas_list] by (simp_all add: vma_list_def small_areas_sel(2))
  have ne: "page_of 301 \<noteq> page_of 300" by (simp add: page_of_inj)
  from chase_ring_find [OF p, of "\<lambda>v. v_start (vmas small_areas v) AND FRAME = 0x400000"] ne
  have "isPartofCurrentVma 0x400000 ?s = Some 1"
    using p(2) by (simp add: isPartofCurrentVma_def small_areas_sel zero_vma_def FRAME_def)
  from first_touch_maps_zero_page [OF ok wf c _ _ _ this, of "0x400010"] show ?thesis
    unfolding cr by (auto simp: FRAME_def simp del: errorCode_frame)
qed

text \<open>C4: Copy-on-write. When a user program writes a present page whose frame another task maps at the
  same address, the handler returns with the page mapped, writable and for the user, to a fresh frame
  that holds the same 512 words; the old frame keeps its words, no other page of the address space and
  nothing in any separate address space changes its translation.\<close>

theorem cow_copies_shared_page:
  assumes ok: "vm_ok s" and r: "cr3_reg s = getRunCr3 s" and wf: "wf_tree (pmem s) (getRunCr3 s) (used_frames s)"
    and c: "4 \<le> card (free_frames s)" and e: "errorCode s = 7"
    and v: "v = addr AND FRAME" "v < KERNBASE" "v \<noteq> 0xFFFFFF7EFFFF5000"
    and rg: "ring (tnext s) (runningThread s) ts" "length ts < 2 ^ 32"
    and sh: "t \<in> set ts" "shares s (getRunCr3 s) v t"
    and f: "getPhysicalPageAddr v (getRunCr3 s) s AND FRAME = page_of f" "f \<in> used_frames s"
      "no_table (pmem s) (getRunCr3 s) f"
  shows "\<exists>s' g. hndlr_isr14 addr s = Some (Returned 0, s') \<and> g \<in> free_frames s \<and>
    getPhysicalPageAddr v (getRunCr3 s) s' = page_of g OR (PRESENT OR WRITEABLE OR USER) \<and>
    (\<forall>k < 512. pmem s' (slot g k) = pmem s (slot f k) \<and> pmem s' (slot f k) = pmem s (slot f k)) \<and>
    (\<forall>w. same_page w v \<or> getPhysicalPageAddr w (getRunCr3 s) s' = getPhysicalPageAddr w (getRunCr3 s) s \<or>
       getPhysicalPageAddr w (getRunCr3 s) s = - 1 \<and> getPhysicalPageAddr w (getRunCr3 s) s' = 0) \<and>
    (\<forall>r' w. wf_tree (pmem s) r' (used_frames s) \<and> apart (pmem s) (getRunCr3 s) r' (get_PML4_INDEX v) \<longrightarrow>
       leaf_entry (pmem s') r' w = leaf_entry (pmem s) r' w)"
proof -
  let ?r = "getRunCr3 s" and ?s = "s\<lparr>errorCode := 0\<rparr>"
  obtain ptr s1 where k: "kmalloc ?s = (ptr, s1)" by fastforce
  have po: "phys_only ?s s1" using phys_only_kmalloc [of ?s] k by simp
  have r1: "getRunCr3 s1 = ?r" using phys_onlyD [OF po] by (simp add: getRunCr3_def)
  have sh': "\<not> (\<forall>t \<in> set ts. \<not> shares s ?r v t)" using sh by blast
  have same: "shares ?s (getRunCr3 ?s) v t = shares s ?r v t" "getRunCr3 ?s = ?r"
    "getPhysicalPageAddr v ?r ?s = getPhysicalPageAddr v ?r s" for t
    by (simp_all add: shares_def getRunCr3_def walk_errorCode)
  have "cow_page v ?s = Some (memcpy_page (page_of f + kernbase s1) v
      (mapPageForUser v (ptr - kernbase s1) (?r + kernbase s1) s1))"
    using cow_page_cases [of ?s ts v] rg sh' by (simp only: same f(1) k r1 prod.case if_False) simp
  then have run: "hndlr_isr14 addr s = Some (Returned 0,
      memcpy_page (page_of f + kernbase s1) v (mapPageForUser v (ptr - kernbase s1) (?r + kernbase s1) s1))"
    using hndlr_write_present [of addr s] v(1,3) e by simp
  have vF: "v AND FRAME = v" by (simp add: v(1))
  obtain g where "fresh_copy ?r v f ?s
      (memcpy_page (page_of f + kernbase s1) v (mapPageForUser v (ptr - kernbase s1) (?r + kernbase s1) s1)) g"
    using fresh_copy_ok [of ?s ?r v f ptr s1] ok wf c v(2) vF f(2,3) k r by auto
  then show ?thesis
    using run walk_leaf_entry [OF ok wf] unfolding fresh_copy_def
    by (intro exI [of _ "memcpy_page (page_of f + kernbase s1) v (mapPageForUser v (ptr - kernbase s1) (?r + kernbase s1) s1)"]
        exI [of _ g]) (auto simp: walk_leaf_entry leaf_flags_def)
qed

theorem cow_copies_shared_page_witness:
  "\<exists>s' g. hndlr_isr14 0x400008 shared_kernel = Some (Returned 0, s') \<and> g \<in> free_frames shared_kernel \<and>
     getPhysicalPageAddr 0x400000 (page_of 256) s' = page_of g OR (PRESENT OR WRITEABLE OR USER)"
proof -
  have r: "getRunCr3 shared_kernel = page_of 256" by (rule shared_sel(8))
  have wf: "wf_tree (pmem shared_kernel) (getRunCr3 shared_kernel) (used_frames shared_kernel)"
    unfolding r by (rule shared_sel(2))
  have sh: "shares shared_kernel (getRunCr3 shared_kernel) 0x400000 0x20" unfolding r by (rule shared_shares)
  have ph: "getPhysicalPageAddr 0x400000 (getRunCr3 shared_kernel) shared_kernel AND FRAME = page_of 300"
    unfolding r shared_sel(3) by (rule leaf_flags_user)
  have nt: "no_table (pmem shared_kernel) (getRunCr3 shared_kernel) 300" unfolding r by (rule shared_sel(11))
  show ?thesis
    using cow_copies_shared_page [OF shared_sel(1) _ wf _ shared_sel(6) _ _ _ shared_ring _ _ sh ph shared_sel(10) nt,
        of "0x400008"] shared_sel(7,8,9) r
    by (simp add: FRAME_def KERNBASE_def) blast
qed

text \<open>When no other task maps the frame of the page, a write to the present page only sets the write
  bit of its entry: same frame, no copy, no memory used.\<close>

theorem cow_reuses_private_page:
  assumes ok: "vm_ok s" and wf: "wf_tree (pmem s) (getRunCr3 s) (used_frames s)" and e: "errorCode s = 7"
    and v: "v = addr AND FRAME" "v \<noteq> 0xFFFFFF7EFFFF5000"
    and rg: "ring (tnext s) (runningThread s) ts" "length ts < 2 ^ 32"
    and alone: "\<forall>t \<in> set ts. \<not> shares s (getRunCr3 s) v t"
    and pr: "getPhysicalPageAddr v (getRunCr3 s) s \<noteq> - 1"
  shows "\<exists>s'. hndlr_isr14 addr s = Some (Returned 0, s') \<and> free_frames s' = free_frames s \<and>
    (\<forall>w. getPhysicalPageAddr w (getRunCr3 s) s' =
      (if same_page w v then getPhysicalPageAddr v (getRunCr3 s) s OR WRITEABLE
       else getPhysicalPageAddr w (getRunCr3 s) s))"
proof -
  let ?r = "getRunCr3 s" and ?s = "s\<lparr>errorCode := 0\<rparr>"
  have kb: "kernbase s = KERNBASE" using ok by (simp add: vm_ok_def)
  let ?s' = "snd (markPageAsRW v (?r + KERNBASE) 0 ?s)"
  have run: "hndlr_isr14 addr s = Some (Returned 0, ?s')"
    using hndlr_write_present [of addr s] cow_page_cases [of ?s ts v] v e rg alone kb by simp
  have wfS: "vm_ok ?s" "wf_tree (pmem ?s) ?r (used_frames ?s)" using ok wf by simp_all
  from pr have "leaf_entry (pmem s) ?r v \<noteq> - 1" by (simp add: walk_leaf_entry [OF ok wf])
  then obtain t where t: "tbl (pmem ?s) ?r (idx3 v) = Some t" using leaf_entry_table [of "pmem s" ?r v] by auto
  note M = mark_ok [OF wfS t, of 0]
  have "getPhysicalPageAddr w ?r ?s' = leaf_entry (pmem ?s') ?r w" for w
    using M by (intro walk_leaf_entry) blast+
  with M run walk_leaf_entry [OF ok wf] show ?thesis by (intro exI [of _ ?s']) simp
qed

theorem cow_reuses_private_page_witness:
  "\<exists>s'. hndlr_isr14 0x400008 (shared_kernel\<lparr>tasks := (tasks shared_kernel)(0x10 := small_task 2 0x10)\<rparr>) = Some (Returned 0, s') \<and>
     getPhysicalPageAddr 0x400000 (page_of 256) s' = (page_of 300 OR leaf_flags 1) OR WRITEABLE"
proof -
  let ?s = "shared_kernel\<lparr>tasks := (tasks shared_kernel)(0x10 := small_task 2 0x10)\<rparr>"
  have r: "rd ?s a = rd shared_kernel a" "kernbase ?s = kernbase shared_kernel" for a by (simp_all add: rd_def)
  have W: "getPhysicalPageAddr w c ?s = getPhysicalPageAddr w c shared_kernel" for w c
    unfolding getPhysicalPageAddr_def Let_def r by (rule refl)
  have ff: "free_frames ?s = free_frames shared_kernel" by (simp add: free_frames_def)
  then have ok: "vm_ok ?s" and u: "used_frames ?s = used_frames shared_kernel"
    using shared_sel(1) by (simp_all add: vm_ok_def phys_inv_def used_frames_def)
  have cr: "getRunCr3 ?s = page_of 256"
    by (simp add: getRunCr3_def shared_sel small_task_def zero_task_def zero_regs_def)
  have wf: "wf_tree (pmem ?s) (getRunCr3 ?s) (used_frames ?s)" using shared_sel(2) by (simp add: cr u)
  have rg: "ring (tnext ?s) (runningThread ?s) []" by (simp add: shared_sel small_task_def)
  have pr: "getPhysicalPageAddr 0x400000 (getRunCr3 ?s) ?s \<noteq> - 1"
    unfolding cr W shared_sel(3) by (simp add: page_of_def leaf_flags_def PRESENT_def WRITEABLE_def USER_def)
  have v: "0x400000 = (0x400008 AND FRAME :: u64)" by (simp add: FRAME_def)
  have e: "errorCode ?s = 7" by (simp add: shared_sel(6))
  obtain s' where "hndlr_isr14 0x400008 ?s = Some (Returned 0, s')"
    "\<forall>w. getPhysicalPageAddr w (getRunCr3 ?s) s' =
      (if same_page w 0x400000 then getPhysicalPageAddr 0x400000 (getRunCr3 ?s) ?s OR WRITEABLE
       else getPhysicalPageAddr w (getRunCr3 ?s) ?s)"
    using cow_reuses_private_page [OF ok wf e v _ rg _ _ pr] by auto
  moreover have "same_page 0x400000 0x400000" by (simp add: same_page_def)
  ultimately show ?thesis unfolding cr W shared_sel(3) by auto
qed

text \<open>C31: A user write to an absent page at which no area of the process starts (that is what the code tests) and which is not the stack
  border kills the process: the next task of the run queue is entered and the process is on the delete
  queue. The shell (pid 1) is the exception: only two messages are printed, nothing is ended or changed, and the handler returns to the
  faulting instruction.\<close>

theorem bad_access_kills:
  assumes e: "errorCode s = 6" and v: "addr AND FRAME \<noteq> 0xFFFFFF7EFFFF5000"
    and no: "isPartofCurrentVma (addr AND FRAME) s = Some 0"
    and q: "queues s (t # ts) ds" and ar: "areas_ok s (runningThread s)"
  shows "if pid_t (tasks s (runningThread s)) = 1
    then hndlr_isr14 addr s = Some (Returned 0, s\<lparr>errorCode := 0, klog := klog s @
      [(''Segmentation Fault..Unauthorised access to meomry..Killing the process..\<newline>'', []),
       (''killing sbush.... restarting....\<newline>'', [])]\<rparr>)
    else \<exists>s'. hndlr_isr14 addr s = Some (Entered, s') \<and> runningThread s' = t \<and>
      queues s' ts (ds @ [runningThread s]) \<and> cr3_reg s' = cr3 (regs (tasks s t)) \<and> task_state (tasks s' (runningThread s)) = 0"
proof (cases "pid_t (tasks s (runningThread s)) = 1")
  case True
  have "hndlr_isr14 addr s = Some (Returned 0, kprintf ''killing sbush.... restarting....\<newline>'' []
      (kprintf ''Segmentation Fault..Unauthorised access to meomry..Killing the process..\<newline>'' [] (s\<lparr>errorCode := 0\<rparr>)))"
    using hndlr_write_absent [OF v e] no True by (simp add: exit_then_def exit_def returns_def frame_simps)
  then show ?thesis using True by (simp add: kprintf_def)
next
  case pid: False
  let ?x = "runningThread s"
  let ?s = "kprintf ''Segmentation Fault..Unauthorised access to meomry..Killing the process..\<newline>'' [] (s\<lparr>errorCode := 0\<rparr>)"
  have n: "tasks ?s = tasks s" "runningThread ?s = ?x" "deleteQueue ?s = deleteQueue s" "vmas ?s = vmas s"
    by (simp_all add: frame_simps)
  from q have "ring (tnext ?s) ?x (t # ts)" "path (tnext ?s) (deleteQueue ?s) ds NULL"
    "distinct (?x # t # ts @ ds)" "NULL \<notin> set (?x # t # ts @ ds)" "areas_ok ?s ?x"
    using ar by (auto simp: queues_def n areas_ok_def)
  from end_task_ok [OF this] obtain s' where s': "end_task ?x ?s = Some s'" "runningThread s' = t"
    "queues s' ts (ds @ [?x])" "cr3_reg s' = cr3 (regs (tasks ?s t))" "task_state (tasks s' ?x) = 0" by blast
  then have "exit 0 ?s = Some (Entered, s')" using pid by (simp add: exit_def Let_def n)
  then have "hndlr_isr14 addr s = Some (Entered, s')"
    using hndlr_write_absent [OF v e] no by (simp add: exit_then_def)
  with s' show ?thesis using pid by (simp add: n)
qed

theorem bad_access_kills_witness:
  "\<exists>s'. hndlr_isr14 0x800000 (small_areas\<lparr>errorCode := 6\<rparr>) = Some (Entered, s') \<and> runningThread s' = 0x20"
proof -
  let ?s = "small_areas\<lparr>errorCode := 6\<rparr>"
  have ne: "page_of 301 \<noteq> page_of 300" by (simp add: page_of_inj)
  have p: "path (vnext small_areas) (run_mmap small_areas) [page_of 300 + KERNBASE, page_of 301 + KERNBASE] NULL"
    "NULL \<notin> set [page_of 300 + KERNBASE, page_of 301 + KERNBASE]"
    using small_areas_list vma_list_not_null [OF small_areas_list] by (simp_all add: vma_list_def small_areas_sel(2))
  from chase_ring_find [OF p, of "\<lambda>v. v_start (vmas small_areas v) AND FRAME = 0x800000"]
  have "isPartofCurrentVma 0x800000 small_areas = Some 0"
    using ne by (simp add: isPartofCurrentVma_def small_areas_sel zero_vma_def FRAME_def)
  moreover have "queues ?s [0x20, 0x30] [0x40]" using small_areas_queues by (simp add: queues_def)
  moreover have "areas_ok ?s (runningThread ?s)" using small_areas_ok by (simp add: areas_ok_def)
  ultimately show ?thesis
    using bad_access_kills [of ?s "0x800000" "0x20" "[0x30]" "[0x40]"]
    by (auto simp: FRAME_def small_areas_pid small_areas_sel(1) small_kernel_sel small_task_def zero_task_def)
qed

end
