(* ===== verification/Input.thy ===== *)
theory Input
  imports Fault
begin

text \<open>
  The terminal's input buffer of \<open>sys/idt.c\<close>: \<open>writeChar\<close>, \<open>readChar\<close>, \<open>handleBackspace\<close> and the
  loop of \<open>readFile\<close> (\<open>sys/tarfs.c\<close>) that reads descriptor 0. The buffer is one page; the model
  keeps the pointers of the source and the characters by address (record \<open>kbd\<close>). The contract
  \<open>line_buffer\<close> says what a reader may rely on: characters come out in the order in which they
  were typed, and only once a line is complete.
\<close>

section \<open>Operations\<close>

definition upd_kbd :: "(kbd \<Rightarrow> kbd) \<Rightarrow> 'a kernel_scheme \<Rightarrow> 'a kernel_scheme" where
  "upd_kbd f s = s\<lparr>kbd_state := f (kbd_state s)\<rparr>"

definition put_at :: "u64 \<Rightarrow> char \<Rightarrow> kbd \<Rightarrow> kbd" where
  "put_at p c k = k\<lparr>chars := (chars k)(p := c)\<rparr>"

text \<open>The pointers are compared as unsigned numbers, the line counter is a signed \<open>int\<close>.\<close>

definition readChar :: "'a kernel_scheme \<Rightarrow> char \<times> 'a kernel_scheme" where
  "readChar s =
     (let k = kbd_state s; r = readPosition k; w = writePosition k in
      if (w > r \<and> indicator k = 0 \<or> r > w \<and> indicator k = 1) \<and> 0 < sint (readline k)
      then (let c = chars k r;
                k1 = (if c = CHR 0x0A then k\<lparr>readline := readline k - 1\<rparr> else k);
                k2 = put_at r (CHR 0x00) k1;
                k3 = k2\<lparr>readPosition := r + 1\<rparr>;
                k4 = (if readPosition k3 = kbuf_end k3 + 1
                      then k3\<lparr>readPosition := stdStart k3, indicator := 0\<rparr> else k3)
            in (c, upd_kbd (\<lambda>_. k4) s))
      else (CHR 0x00, s))"

text \<open>
  \<open>writeChar\<close>. When the write position reaches the end of the page, one character is read (and
  thrown away) before the position wraps. The last test assigns to \<open>indicator\<close> (\<open>indicator=1\<close>).
\<close>

definition writeChar :: "char \<Rightarrow> i32 \<Rightarrow> 'a kernel_scheme \<Rightarrow> 'a kernel_scheme" where
  "writeChar c specialCharacter s =
     (let s1 = (if specialCharacter = 1
                then upd_kbd (\<lambda>k.
                  let k1 = put_at (writePosition k) (CHR ''^'') k;
                      k2 = k1\<lparr>writePosition := writePosition k1 + 1\<rparr>
                  in if writePosition k2 = kbuf_end k2
                     then k2\<lparr>writePosition := stdStart k2, indicator := 1\<rparr> else k2) s
                else s);
          s2 = upd_kbd (\<lambda>k. (put_at (writePosition k) c k)\<lparr>writePosition := writePosition k + 1\<rparr>) s1;
          s3 = (if writePosition (kbd_state s2) = kbuf_end (kbd_state s2)
                then (let t = snd (readChar s2); k = kbd_state t in
                      if readPosition k \<noteq> stdStart k
                      then upd_kbd (\<lambda>k. k\<lparr>writePosition := stdStart k, indicator := 1\<rparr>) t
                      else kprintf ''Warning: Input Buffer Full.. Cant Take more input.. Please Type Enter\<newline>'' [] t)
                else s2);
          s4 = (if writePosition (kbd_state s3) = readPosition (kbd_state s3) - 1
                then kprintf ''Warning: Input Buffer Full..Cant Take more input..Please Type Enter\<newline>'' []
                       (upd_kbd (\<lambda>k. k\<lparr>indicator := 1\<rparr>) s3)
                else s3)
      in if c = CHR 0x0A then upd_kbd (\<lambda>k. k\<lparr>readline := readline k + 1\<rparr>) s4 else s4)"

text \<open>Three tests in a row, each on the state the one before left.\<close>

definition handleBackspace :: "'a kernel_scheme \<Rightarrow> 'a kernel_scheme" where
  "handleBackspace s =
     (let k = kbd_state s;
          s1 = (if writePosition k = readPosition k then upd_kbd (put_at (writePosition k) (CHR 0x00)) s else s);
          k1 = kbd_state s1;
          s2 = (if writePosition k1 > readPosition k1 \<and> indicator k1 = 0 \<and> chars k1 (writePosition k1 - 1) \<noteq> CHR 0x0A
                then kprintf [CHR 0x08] [] (upd_kbd (\<lambda>k.
                  let w = writePosition k - 1;
                      w1 = (if w = stdStart k - 1 then stdStart k else w)
                  in put_at w1 (CHR 0x00) (k\<lparr>writePosition := w1\<rparr>)) s1)
                else s1);
          k2 = kbd_state s2
      in if readPosition k2 > writePosition k2 \<and> indicator k2 = 1 \<and> chars k2 (writePosition k2 - 1) \<noteq> CHR 0x0A
         then kprintf [CHR 0x08] [] (upd_kbd (\<lambda>k.
           let w = writePosition k - 1;
               k' = (if w = stdStart k - 1 then k\<lparr>writePosition := kbuf_end k, indicator := 0\<rparr>
                     else k\<lparr>writePosition := w\<rparr>)
           in put_at (writePosition k') (CHR 0x00) k') s2)
         else s2)"

text \<open>
  The loop of \<open>readFile\<close> for descriptor 0: at most \<open>count\<close> characters, up to a NUL (no complete
  line) or a newline, which is replaced by NUL. The result is what the loop stores in the buffer of the caller.
\<close>

fun read_line :: "('s \<Rightarrow> char \<times> 's) \<Rightarrow> nat \<Rightarrow> 's \<Rightarrow> string \<times> 's" where
  "read_line get 0 s = ([], s)"
| "read_line get (Suc n) s =
     (case get s of (c, s1) \<Rightarrow>
      if c = CHR 0x00 \<or> c = CHR 0x0A then ([CHR 0x00], s1)
      else (case read_line get n s1 of (cs, s2) \<Rightarrow> (c # cs, s2)))"

definition read_stdin :: "nat \<Rightarrow> 'a kernel_scheme \<Rightarrow> string \<times> 'a kernel_scheme" where
  "read_stdin count s = read_line readChar count s"

section \<open>The contract of a line buffer\<close>

text \<open>
  \<open>view s n xs\<close>: the characters typed and not yet read are \<open>xs\<close>, and \<open>n\<close> more can be typed.
\<close>

locale line_buffer =
  fixes view :: "'s \<Rightarrow> nat \<Rightarrow> string \<Rightarrow> bool"
    and put :: "char \<Rightarrow> 's \<Rightarrow> 's"
    and get :: "'s \<Rightarrow> char \<times> 's"
    and rub :: "'s \<Rightarrow> 's"
  assumes put_view: "view s (Suc n) xs \<Longrightarrow> view (put c s) n (xs @ [c])"
    and get_view: "view s n (c # xs) \<Longrightarrow> CHR 0x0A \<in> set (c # xs) \<Longrightarrow> \<exists>s'. get s = (c, s') \<and> view s' n xs"
    and get_incomplete: "view s n xs \<Longrightarrow> CHR 0x0A \<notin> set xs \<Longrightarrow> get s = (CHR 0x00, s)"
    and rub_view: "view s n (xs @ [c]) \<Longrightarrow> c \<noteq> CHR 0x0A \<Longrightarrow> view (rub s) (Suc n) xs"
    and rub_line: "view s n (xs @ [CHR 0x0A]) \<Longrightarrow> view (rub s) n (xs @ [CHR 0x0A])"
begin

lemma puts_view: "view s (length cs + n) xs \<Longrightarrow> view (fold put cs s) n (xs @ cs)"
proof (induction cs arbitrary: s xs)
  case (Cons c cs)
  from Cons.prems put_view have "view (put c s) (length cs + n) (xs @ [c])" by simp
  from Cons.IH [OF this] show ?case by simp
qed simp

text \<open>Rubbing out what was just typed gives back the line as it was.\<close>

lemma rub_put: "view s (Suc n) xs \<Longrightarrow> c \<noteq> CHR 0x0A \<Longrightarrow> view (rub (put c s)) (Suc n) xs"
  by (rule rub_view [OF put_view])

lemma rubs_view:
  "view s n (xs @ cs) \<Longrightarrow> CHR 0x0A \<notin> set cs \<Longrightarrow> view ((rub ^^ length cs) s) (n + length cs) xs"
proof (induction cs arbitrary: s n rule: rev_induct)
  case (snoc c cs)
  then have c: "c \<noteq> CHR 0x0A" "CHR 0x0A \<notin> set cs" by auto
  have "view s n ((xs @ cs) @ [c])" using snoc.prems(1) by simp
  from rub_view [OF this c(1)] have "view (rub s) (Suc n) (xs @ cs)" .
  from snoc.IH [OF this c(2)] show ?case by (simp add: funpow_swap1)
qed simp

lemma rubs_puts:
  assumes "view s (length cs + n) xs" and "CHR 0x0A \<notin> set cs"
  shows "view ((rub ^^ length cs) (fold put cs s)) (length cs + n) xs"
  using rubs_view [OF puts_view [OF assms(1)] assms(2)] by (simp add: add.commute)

text \<open>A reader that asks for enough gets exactly one line.\<close>

lemma line_read:
  assumes "view s n (l @ CHR 0x0A # xs)" and "CHR 0x0A \<notin> set l" and "CHR 0x00 \<notin> set l" and "length l < m"
  shows "\<exists>s'. read_line get m s = (l @ [CHR 0x00], s') \<and> view s' n xs"
  using assms
proof (induction l arbitrary: s m)
  case Nil
  then obtain k where m: "m = Suc k" by (cases m) auto
  from get_view [of s n "CHR 0x0A" xs] Nil(1) show ?case by (auto simp: m)
next
  case (Cons c l)
  then obtain k where m: "m = Suc k" by (cases m) auto
  from Cons.prems(1) have "view s n (c # (l @ CHR 0x0A # xs))" by simp
  from get_view [OF this] obtain s1 where s1: "get s = (c, s1)" "view s1 n (l @ CHR 0x0A # xs)" by auto
  from Cons.IH [OF s1(2), of k] Cons.prems(2-4) s1(1) show ?case by (auto simp: m)
qed

lemma typed_line_read:
  assumes "view s (Suc (length l) + n) []" and "CHR 0x0A \<notin> set l" and "CHR 0x00 \<notin> set l" and "length l < m"
  shows "\<exists>s'. read_line get m (fold put (l @ [CHR 0x0A]) s) = (l @ [CHR 0x00], s') \<and> view s' n []"
proof -
  have "view s (length (l @ [CHR 0x0A]) + n) []" using assms(1) by simp
  from puts_view [OF this] have "view (fold put (l @ [CHR 0x0A]) s) n (l @ CHR 0x0A # [])" by simp
  from line_read [OF this assms(2-4)] show ?thesis .
qed

lemma incomplete_read:
  assumes "view s (length l + n) []" and "CHR 0x0A \<notin> set l" and "0 < m"
  shows "read_line get m (fold put l s) = ([CHR 0x00], fold put l s)"
proof -
  from puts_view [OF assms(1)] have "view (fold put l s) n l" by simp
  from get_incomplete [OF this assms(2)] assms(3) show ?thesis by (cases m) simp_all
qed

end

section \<open>The terminal as a line buffer\<close>

text \<open>
  \<open>terminal s n xs\<close>: before the write position has wrapped, the page holds \<open>xs\<close> from the read
  position on, and \<open>n\<close> characters fit before its last byte. The page is neither at address 0 nor at the end of the address space.
\<close>

definition terminal :: "'a kernel_scheme \<Rightarrow> nat \<Rightarrow> string \<Rightarrow> bool" where
  "terminal s n xs \<longleftrightarrow>
     (let k = kbd_state s in
      \<exists>r. readPosition k = stdStart k + of_nat r \<and> r + length xs + n = 4095 \<and>
        0 < unat (stdStart k) \<and> unat (stdStart k) + 4098 \<le> 2 ^ 64 \<and> kbuf_end k = stdStart k + 4096 \<and>
        writePosition k = stdStart k + of_nat (r + length xs) \<and> indicator k = 0 \<and>
        readline k = of_nat (count_list xs CHR 0x0A) \<and>
        (\<forall>i < length xs. chars k (stdStart k + of_nat (r + i)) = xs ! i))"

lemma offset_unat: "unat (b :: u64) + i < 2 ^ 64 \<Longrightarrow> unat (b + of_nat i) = unat b + i"
  by (subst unat_add_64) simp_all

lemma offset_eq: "i < 2 ^ 64 \<Longrightarrow> j < 2 ^ 64 \<Longrightarrow> (b + of_nat i = b + of_nat j) = (i = j)" for b :: u64
  using of_nat_inj_64 by auto

lemma offset_less:
  "unat (b :: u64) + i < 2 ^ 64 \<Longrightarrow> unat b + j < 2 ^ 64 \<Longrightarrow> (b + of_nat i < b + of_nat j) = (i < j)"
  by (simp add: word_less_nat_alt offset_unat)

text \<open>The pointers of such a terminal, compared.\<close>

lemma terminal_pointers:
  fixes b :: u64
  assumes "unat b + 4098 \<le> 2 ^ 64" and "j \<le> 4095" and "r \<le> j"
  shows "b + of_nat j \<noteq> b + 4096" "b + of_nat j + 1 = b + of_nat (Suc j)" "b + of_nat (Suc j) \<noteq> b + of_nat r - 1"
    "b + of_nat r + 1 \<noteq> b + 4096 + 1" "(b + of_nat r < b + of_nat j) = (r < j)" "\<not> b + of_nat j < b + of_nat r"
proof -
  note E = offset_eq [of _ _ b]
  show "b + of_nat j \<noteq> b + 4096" using E [of j 4096] assms(2) by simp
  show "b + of_nat j + 1 = b + of_nat (Suc j)" by simp
  have "b + of_nat (Suc (Suc j)) \<noteq> b + of_nat r" using E [of "Suc (Suc j)" r] assms by simp
  then show "b + of_nat (Suc j) \<noteq> b + of_nat r - 1" by (simp add: algebra_simps)
  show "b + of_nat r + 1 \<noteq> b + 4096 + 1" using E [of r 4096] assms by simp
  show "(b + of_nat r < b + of_nat j) = (r < j)" by (rule offset_less) (use assms in simp_all)
  have "(b + of_nat j < b + of_nat r) = (j < r)" by (rule offset_less) (use assms in simp_all)
  then show "\<not> b + of_nat j < b + of_nat r" using assms(3) by simp
qed

lemma kbd_state_upd [simp]: "kbd_state (upd_kbd f s) = f (kbd_state s)"
  by (simp add: upd_kbd_def)

lemma put_at_sel [simp]:
  "stdStart (put_at p c k) = stdStart k" "writePosition (put_at p c k) = writePosition k"
  "readPosition (put_at p c k) = readPosition k" "kbuf_end (put_at p c k) = kbuf_end k"
  "indicator (put_at p c k) = indicator k" "readline (put_at p c k) = readline k"
  "chars (put_at p c k) = (chars k)(p := c)"
  by (simp_all add: put_at_def)

lemma writeChar_plain:
  assumes "writePosition (kbd_state s) + 1 \<noteq> kbuf_end (kbd_state s)"
    and "writePosition (kbd_state s) + 1 \<noteq> readPosition (kbd_state s) - 1"
  shows "writeChar c 0 s = upd_kbd (\<lambda>k. let k1 = (put_at (writePosition k) c k)\<lparr>writePosition := writePosition k + 1\<rparr>
    in if c = CHR 0x0A then k1\<lparr>readline := readline k1 + 1\<rparr> else k1) s"
  using assms by (simp add: writeChar_def Let_def) (simp add: upd_kbd_def)

lemma terminal_put:
  assumes "terminal s (Suc n) xs"
  shows "terminal (writeChar c 0 s) n (xs @ [c])"
proof -
  define k where "k = kbd_state s"
  from assms obtain r where r: "readPosition k = stdStart k + of_nat r" "r + length xs + Suc n = 4095"
    "0 < unat (stdStart k)" "unat (stdStart k) + 4098 \<le> 2 ^ 64" "kbuf_end k = stdStart k + 4096"
    "writePosition k = stdStart k + of_nat (r + length xs)" "indicator k = 0"
    "readline k = of_nat (count_list xs CHR 0x0A)" "\<And>i. i < length xs \<Longrightarrow> chars k (stdStart k + of_nat (r + i)) = xs ! i"
    unfolding terminal_def Let_def k_def by blast
  let ?w = "stdStart k + of_nat (r + length xs)"
  have "r + length xs \<le> 4095" "r \<le> r + length xs" "Suc (r + length xs) \<le> 4095" using r(2) by simp_all
  note P = terminal_pointers [OF r(4) this(1,2)] and P' = terminal_pointers(1) [OF r(4) this(3) order_refl]
  define k' where "k' = (let k1 = (put_at (writePosition k) c k)\<lparr>writePosition := writePosition k + 1\<rparr>
    in if c = CHR 0x0A then k1\<lparr>readline := readline k1 + 1\<rparr> else k1)"
  have "writePosition k + 1 \<noteq> kbuf_end k" "writePosition k + 1 \<noteq> readPosition k - 1"
    unfolding r(1,5,6) P(2) using P' P(3) by simp_all
  from writeChar_plain [of s c, folded k_def, OF this] have k': "kbd_state (writeChar c 0 s) = k'"
    by (simp add: k'_def k_def)
  have f: "stdStart k' = stdStart k" "readPosition k' = readPosition k" "kbuf_end k' = kbuf_end k"
    "indicator k' = indicator k" "writePosition k' = ?w + 1" "chars k' = (chars k)(?w := c)"
    "readline k' = readline k + (if c = CHR 0x0A then 1 else 0)"
    by (simp_all add: k'_def Let_def r(6))
  have "chars k' (stdStart k + of_nat (r + i)) = (xs @ [c]) ! i" if "i < length (xs @ [c])" for i
  proof (cases "i = length xs")
    case False
    with that have i: "i < length xs" by simp
    then have "stdStart k + of_nat (r + i) \<noteq> ?w" using offset_eq [of "r + i" "r + length xs" "stdStart k"] r(2) by simp
    then show ?thesis unfolding f(6) using r(9) [OF i] i by (simp add: nth_append del: of_nat_add)
  qed (simp add: f(6))
  moreover have "readline k' = of_nat (count_list (xs @ [c]) CHR 0x0A)" by (simp add: f(7) r(8))
  moreover have "writePosition k' = stdStart k + of_nat (r + length (xs @ [c]))" unfolding f(5) P(2) by simp
  ultimately show ?thesis
    unfolding terminal_def Let_def k' f(1-4) using r by (intro exI [of _ r]) simp
qed

text \<open>As long as there is room, \<open>writeChar\<close> prints nothing and changes only the buffer.\<close>

lemma terminal_write_frame:
  assumes "terminal s (Suc n) xs"
  shows "\<exists>f. writeChar c 0 s = upd_kbd f s"
proof -
  define k where "k = kbd_state s"
  from assms obtain r where r: "readPosition k = stdStart k + of_nat r" "r + length xs + Suc n = 4095"
    "unat (stdStart k) + 4098 \<le> 2 ^ 64" "kbuf_end k = stdStart k + 4096"
    "writePosition k = stdStart k + of_nat (r + length xs)"
    unfolding terminal_def Let_def k_def by blast
  have "r + length xs \<le> 4095" "r \<le> r + length xs" "Suc (r + length xs) \<le> 4095" using r(2) by simp_all
  note P = terminal_pointers [OF r(3) this(1,2)] and P' = terminal_pointers(1) [OF r(3) this(3) order_refl]
  have "writePosition k + 1 \<noteq> kbuf_end k" "writePosition k + 1 \<noteq> readPosition k - 1"
    unfolding r(1,4,5) P(2) using P' P(3) by simp_all
  from writeChar_plain [of s c, folded k_def, OF this] show ?thesis by blast
qed

lemma readline_pos:
  "count_list xs c \<le> 4095 \<Longrightarrow> (0 < sint (of_nat (count_list xs c) :: i32)) = (c \<in> set xs)"
  using count_list_0_iff [of xs c]
  by (simp add: signed_of_nat signed_take_bit_int_eq_self) (metis bot_nat_0.not_eq_extremum)

lemma terminal_get:
  assumes "terminal s n (c # xs)" and "CHR 0x0A \<in> set (c # xs)"
  shows "\<exists>s'. readChar s = (c, s') \<and> terminal s' n xs"
proof -
  define k where "k = kbd_state s"
  from assms(1) obtain r where r: "readPosition k = stdStart k + of_nat r" "r + length (c # xs) + n = 4095"
    "0 < unat (stdStart k)" "unat (stdStart k) + 4098 \<le> 2 ^ 64" "kbuf_end k = stdStart k + 4096"
    "writePosition k = stdStart k + of_nat (r + length (c # xs))" "indicator k = 0"
    "readline k = of_nat (count_list (c # xs) CHR 0x0A)"
    "\<And>i. i < length (c # xs) \<Longrightarrow> chars k (stdStart k + of_nat (r + i)) = (c # xs) ! i"
    unfolding terminal_def Let_def k_def by blast
  have "r + length (c # xs) \<le> 4095" "r \<le> r + length (c # xs)" using r(2) by simp_all
  note P = terminal_pointers [OF r(4) this]
  have "count_list (c # xs) CHR 0x0A \<le> 4095" using count_le_length [of "c # xs" "CHR 0x0A"] r(2) by simp
  then have pos: "0 < sint (readline k)" using assms(2) by (simp only: r(8) readline_pos)
  have lt: "writePosition k > readPosition k" unfolding r(1,6) using P(5) by simp
  have c: "chars k (readPosition k) = c" unfolding r(1) using r(9) [of 0] by simp
  define k' where "k' = (put_at (readPosition k) (CHR 0x00)
    (if c = CHR 0x0A then k\<lparr>readline := readline k - 1\<rparr> else k))\<lparr>readPosition := readPosition k + 1\<rparr>"
  have ne: "readPosition k + 1 \<noteq> kbuf_end k + 1" unfolding r(1,5) using P(4) .
  have "readChar s = (c, upd_kbd (\<lambda>_. k') s)"
    unfolding readChar_def Let_def k_def [symmetric] using lt r(7) pos c ne by (simp add: k'_def)
  moreover have "terminal (upd_kbd (\<lambda>_. k') s) n xs"
  proof -
    have f: "stdStart k' = stdStart k" "readPosition k' = readPosition k + 1" "kbuf_end k' = kbuf_end k"
      "indicator k' = indicator k" "writePosition k' = writePosition k"
      "chars k' = (chars k)(readPosition k := CHR 0x00)" "readline k' = readline k - (if c = CHR 0x0A then 1 else 0)"
      by (simp_all add: k'_def)
    have "chars k' (stdStart k + of_nat (Suc r + i)) = xs ! i" if "i < length xs" for i
    proof -
      have "stdStart k + of_nat (Suc r + i) \<noteq> stdStart k + of_nat r"
        using offset_eq [of "Suc r + i" r "stdStart k"] r(2) that by simp
      then show ?thesis unfolding f(6) r(1) using r(9) [of "Suc i"] that by (simp del: of_nat_add of_nat_Suc)
    qed
    moreover have "readline k' = of_nat (count_list xs CHR 0x0A)" by (simp add: f(7) r(8))
    ultimately show ?thesis unfolding terminal_def Let_def kbd_state_upd f(1-5) using r
      by (intro exI [of _ "Suc r"]) simp
  qed
  ultimately show ?thesis by blast
qed

lemma terminal_incomplete:
  assumes "terminal s n xs" and "CHR 0x0A \<notin> set xs"
  shows "readChar s = (CHR 0x00, s)"
proof -
  have "readline (kbd_state s) = 0" "indicator (kbd_state s) = 0"
    using assms by (auto simp: terminal_def Let_def count_list_0_iff)
  then show ?thesis by (simp add: readChar_def Let_def)
qed

lemma terminal_rub:
  assumes "terminal s n (xs @ [c])"
  shows "terminal (handleBackspace s) (if c = CHR 0x0A then n else Suc n) (if c = CHR 0x0A then xs @ [c] else xs)"
proof -
  define k where "k = kbd_state s"
  from assms obtain r where r: "readPosition k = stdStart k + of_nat r" "r + length (xs @ [c]) + n = 4095"
    "0 < unat (stdStart k)" "unat (stdStart k) + 4098 \<le> 2 ^ 64" "kbuf_end k = stdStart k + 4096"
    "writePosition k = stdStart k + of_nat (r + length (xs @ [c]))" "indicator k = 0"
    "readline k = of_nat (count_list (xs @ [c]) CHR 0x0A)"
    "\<And>i. i < length (xs @ [c]) \<Longrightarrow> chars k (stdStart k + of_nat (r + i)) = (xs @ [c]) ! i"
    unfolding terminal_def Let_def k_def by blast
  have "r + length (xs @ [c]) \<le> 4095" "r \<le> r + length (xs @ [c])" using r(2) by simp_all
  note P = terminal_pointers [OF r(4) this]
  have lt: "writePosition k > readPosition k" unfolding r(1,6) using P(5) by simp
  then have ne: "writePosition k \<noteq> readPosition k" by auto
  have w1: "writePosition k - 1 = stdStart k + of_nat (r + length xs)" by (simp add: r(6))
  then have c: "chars k (writePosition k - 1) = c" using r(9) [of "length xs"] by simp
  show ?thesis
  proof (cases "c = CHR 0x0A")
    case True
    then have "handleBackspace s = s" using lt ne c r(7) by (simp add: handleBackspace_def Let_def k_def [symmetric])
    with True assms show ?thesis by simp
  next
    case False
    define k' where "k' = put_at (writePosition k - 1) (CHR 0x00) (k\<lparr>writePosition := writePosition k - 1\<rparr>)"
    have "writePosition k \<noteq> stdStart k"
      using offset_eq [of "r + length (xs @ [c])" 0 "stdStart k"] r(2) unfolding r(6) by simp
    then have "writePosition k - 1 \<noteq> stdStart k - 1" by simp
    then have e: "kbd_state (handleBackspace s) = k'"
      using lt ne c False r(7) by (simp add: handleBackspace_def Let_def k_def [symmetric] kprintf_def k'_def)
    have f: "stdStart k' = stdStart k" "readPosition k' = readPosition k" "kbuf_end k' = kbuf_end k"
      "indicator k' = indicator k" "writePosition k' = stdStart k + of_nat (r + length xs)"
      "chars k' = (chars k)(stdStart k + of_nat (r + length xs) := CHR 0x00)" "readline k' = readline k"
      by (simp_all add: k'_def w1)
    have "chars k' (stdStart k + of_nat (r + i)) = xs ! i" if "i < length xs" for i
    proof -
      have "stdStart k + of_nat (r + i) \<noteq> stdStart k + of_nat (r + length xs)"
        using offset_eq [of "r + i" "r + length xs" "stdStart k"] r(2) that by simp
      then show ?thesis unfolding f(6) using r(9) [of i] that by (simp add: nth_append del: of_nat_add)
    qed
    moreover have "readline k' = of_nat (count_list xs CHR 0x0A)" using False by (simp add: f(7) r(8))
    ultimately show ?thesis unfolding terminal_def Let_def e f(1-5) using r False
      by (intro exI [of _ r]) simp
  qed
qed

interpretation tty: line_buffer terminal "\<lambda>c. writeChar c 0" readChar handleBackspace
  by unfold_locales
    (use terminal_put terminal_get terminal_incomplete terminal_rub in \<open>fastforce+\<close>)

lemma terminal_init:
  assumes "page \<noteq> 0" and "unat page + 4098 \<le> 2 ^ 64"
  shows "terminal (set_input_buf page s) 4095 []"
  using assms by (simp add: terminal_def set_input_buf_def unat_gt_0)

section \<open>Properties\<close>

text \<open>C28: What is typed is read, as long as the line fits into what is left of the buffer's page before its write position wraps for the first time
  (\<open>terminal s n xs\<close>: at most 4095 characters since boot; when the position wraps, the code loses a character): after a line \<open>l\<close> (no NUL, no newline) and Enter, the read loop of
  descriptor 0, asked for more than the length of the line, stores exactly the line and a NUL, and
  the buffer is empty again. Without the Enter the reader gets an empty string and the buffer stays as it is.\<close>

theorem typed_line_is_read:
  assumes "terminal s (Suc (length l) + n) []" and "CHR 0x0A \<notin> set l" and "CHR 0x00 \<notin> set l" and "length l < m"
  shows "(\<exists>s'. read_stdin m (fold (\<lambda>c. writeChar c 0) (l @ [CHR 0x0A]) s) = (l @ [CHR 0x00], s') \<and> terminal s' n []) \<and>
    read_stdin m (fold (\<lambda>c. writeChar c 0) l s) = ([CHR 0x00], fold (\<lambda>c. writeChar c 0) l s)"
proof -
  have "terminal s (length l + Suc n) []" using assms(1) by simp
  from tty.typed_line_read [OF assms] tty.incomplete_read [OF this assms(2)] assms(4) show ?thesis
    by (simp add: read_stdin_def)
qed

theorem typed_line_is_read_witness:
  "fst (read_stdin 64 (fold (\<lambda>c. writeChar c 0) ''ls\<newline>'' (set_input_buf 0x5000 small_kernel))) = ''ls'' @ [CHR 0x00]"
proof -
  have "terminal (set_input_buf 0x5000 small_kernel) 4095 []" by (rule terminal_init) simp_all
  then have "terminal (set_input_buf 0x5000 small_kernel) (Suc (length ''ls'') + 4092) []" by simp
  from typed_line_is_read [OF this, of 64] show ?thesis by auto
qed

text \<open>Backspace edits the line: \<open>length cs\<close> backspaces after typing \<open>l @ cs\<close> make the reader see
  \<open>l\<close> only, and a backspace never takes back a line that Enter has completed.\<close>

theorem backspace_edits_line:
  assumes "terminal s (Suc (length (l @ cs)) + n) []" and "CHR 0x0A \<notin> set (l @ cs)" and "CHR 0x00 \<notin> set l"
    and "length l < m"
  defines "typed \<equiv> fold (\<lambda>c. writeChar c 0) (l @ cs) s"
  shows "(\<exists>s'. read_stdin m (writeChar CHR 0x0A 0 ((handleBackspace ^^ length cs) typed)) = (l @ [CHR 0x00], s')) \<and>
    (\<exists>s'. read_stdin m (handleBackspace (writeChar CHR 0x0A 0 ((handleBackspace ^^ length cs) typed))) = (l @ [CHR 0x00], s'))"
proof -
  have "terminal s (length (l @ cs) + Suc n) []" using assms(1) by simp
  from tty.puts_view [OF this] have "terminal typed (Suc n) (l @ cs)" by (simp add: typed_def)
  from tty.rubs_view [OF this] assms(2) have "terminal ((handleBackspace ^^ length cs) typed) (Suc (n + length cs)) l" by simp
  note e = tty.put_view [OF this, of "CHR 0x0A"]
  have "CHR 0x0A \<notin> set l" using assms(2) by simp
  from tty.line_read [OF e this assms(3,4)] tty.line_read [OF tty.rub_line [OF e] this assms(3,4)]
  show ?thesis unfolding read_stdin_def by blast
qed

theorem backspace_edits_line_witness:
  "fst (read_stdin 64 (writeChar CHR 0x0A 0 (handleBackspace (fold (\<lambda>c. writeChar c 0) ''lss'' (set_input_buf 0x5000 small_kernel))))) =
     ''ls'' @ [CHR 0x00]"
proof -
  have "terminal (set_input_buf 0x5000 small_kernel) 4095 []" by (rule terminal_init) simp_all
  then have "terminal (set_input_buf 0x5000 small_kernel) (Suc (length (''ls'' @ ''s'')) + 4091) []" by simp
  from backspace_edits_line [OF this, of 64] show ?thesis by auto
qed

text \<open>A line that fills the whole page overflows it: with 4095 characters typed, none read and no Enter, the next character
  fills the page and the one after it is written to the first byte behind the page.\<close>

theorem input_buffer_overflow:
  assumes "terminal s 0 xs" and "readPosition (kbd_state s) = stdStart (kbd_state s)" and "CHR 0x0A \<notin> set xs"
    and "c \<noteq> CHR 0x0A" and "d \<noteq> CHR 0x0A"
  shows "kbuf_end (kbd_state s) = stdStart (kbd_state s) + 4096 \<and>
    chars (kbd_state (writeChar d 0 (writeChar c 0 s))) (kbuf_end (kbd_state s)) = d"
proof -
  define k where "k = kbd_state s"
  from assms(1) obtain r where r: "readPosition k = stdStart k + of_nat r" "r + length xs = 4095"
    "0 < unat (stdStart k)" "unat (stdStart k) + 4098 \<le> 2 ^ 64" "kbuf_end k = stdStart k + 4096"
    "writePosition k = stdStart k + of_nat (r + length xs)" "indicator k = 0"
    "readline k = of_nat (count_list xs CHR 0x0A)"
    unfolding terminal_def Let_def k_def add_0_right by blast
  have w: "writePosition k = stdStart k + 4095" using r(6) by (simp add: r(2) del: of_nat_add)
  have rl: "readline k = 0" using r(8) assms(3) by (simp add: count_list_0_iff)
  have rs: "readPosition k = stdStart k" using assms(2) by (simp add: k_def)
  define k1 where "k1 = (put_at (writePosition k) c k)\<lparr>writePosition := stdStart k + 4096\<rparr>"
  have f: "kbuf_end k1 = kbuf_end k" "readPosition k1 = stdStart k1" "readline k1 = 0" "stdStart k1 = stdStart k"
    "writePosition k1 = stdStart k + 4096"
    by (simp_all add: k1_def rs rl)
  have ne: "stdStart k + 4096 \<noteq> stdStart k - 1" "stdStart k + 4097 \<noteq> stdStart k - 1" "stdStart k + 4097 \<noteq> stdStart k + 4096"
    using offset_eq [of 4097 0 "stdStart k"] offset_eq [of 4098 0 "stdStart k"] by (auto simp: algebra_simps)
  have e: "upd_kbd (\<lambda>k. (put_at (writePosition k) c k)\<lparr>writePosition := writePosition k + 1\<rparr>) s = upd_kbd (\<lambda>_. k1) s"
    by (simp add: upd_kbd_def k1_def k_def [symmetric] w)
  have "readChar (upd_kbd (\<lambda>_. k1) s) = (CHR 0x00, upd_kbd (\<lambda>_. k1) s)"
    by (simp add: readChar_def Let_def f(3))
  moreover have "writePosition k1 \<noteq> readPosition k1 - 1" using ne(1) by (simp add: f)
  ultimately have "kbd_state (writeChar c 0 s) = k1"
    using assms(4) by (simp add: writeChar_def Let_def e f(1,2,4,5) r(5)) (simp add: kprintf_def f(2,4,5))
  moreover have "writePosition k1 + 1 \<noteq> kbuf_end k1" "writePosition k1 + 1 \<noteq> readPosition k1 - 1"
    using ne by (simp_all add: f r(5))
  ultimately show ?thesis
    using writeChar_plain [of "writeChar c 0 s" d] assms(5) by (simp add: f r(5) k_def [symmetric] Let_def)
qed

theorem input_buffer_overflow_witness:
  "chars (kbd_state (writeChar CHR ''z'' 0 (writeChar CHR ''y'' 0
     (fold (\<lambda>c. writeChar c 0) (replicate 4095 CHR ''x'') (set_input_buf 0x5000 small_kernel))))) 0x6000 = CHR ''z''"
proof -
  let ?s = "set_input_buf 0x5000 small_kernel" and ?xs = "replicate 4095 CHR ''x''"
  let ?t = "fold (\<lambda>c. writeChar c 0) ?xs ?s"
  have "terminal ?s 4095 []" by (rule terminal_init) simp_all
  then have "terminal ?s (length ?xs + 0) []" by simp
  from tty.puts_view [OF this] have t: "terminal ?t 0 ?xs" by simp
  then obtain r where r: "readPosition (kbd_state ?t) = stdStart (kbd_state ?t) + of_nat r" "r + length ?xs = 4095"
    unfolding terminal_def Let_def by auto
  then have "r = 0" by simp
  with r(1) have rs: "readPosition (kbd_state ?t) = stdStart (kbd_state ?t)" by (simp only: semiring_1_class.of_nat_0 add_0_right)
  have st: "stdStart (kbd_state (writeChar c 0 s)) = stdStart (kbd_state s)" for c and s :: kernel
    by (simp add: writeChar_def readChar_def kprintf_def upd_kbd_def Let_def)
  have "stdStart (kbd_state (fold (\<lambda>c. writeChar c 0) xs s)) = stdStart (kbd_state s)" for xs and s :: kernel
    by (induction xs arbitrary: s) (simp_all add: st)
  then have "stdStart (kbd_state ?t) = stdStart (kbd_state ?s)" .
  then have "stdStart (kbd_state ?t) = 0x5000" by (simp only: set_input_buf_def) simp
  moreover have "CHR 0x0A \<notin> set ?xs" "CHR ''y'' \<noteq> CHR 0x0A" "CHR ''z'' \<noteq> CHR 0x0A" by simp_all
  note I = input_buffer_overflow [OF t rs this]
  ultimately have "kbuf_end (kbd_state ?t) = 0x5000 + 4096" using I [THEN conjunct1] by (simp only:)
  then have "kbuf_end (kbd_state ?t) = 0x6000" by (simp only:) simp
  with I [THEN conjunct2] show ?thesis by (simp only:)
qed

end
