(* ===== verification/Irq.thy ===== *)
theory Irq
  imports Input
begin

text \<open>
  The interrupt handlers of \<open>sys/idt.c\<close> and its interrupt table: keyboard, timer, real-time clock,
  the CPU exceptions other than the page fault. The record \<open>machine\<close> adds the file's static
  variables and the screen to the kernel's state. The status bars are written to the screen at
  once; what \<open>kprintf\<close> prints is kept in \<open>klog\<close> (see \<open>Console\<close>: the two write to different rows).
  What \<open>inb\<close> reads is an argument.
\<close>

section \<open>State\<close>

record machine = kernel +
  screen :: console
  shift :: i32
  control :: i32
  tick_i :: i32  \<comment> \<open>the variable \<open>i\<close>\<close>
  tick_j :: i32  \<comment> \<open>the variable \<open>j\<close>\<close>
  hour :: i32
  minute :: i32
  seconds :: i32
  rtc_read_timeout :: i32

definition on_screen :: "(console \<Rightarrow> console) \<Rightarrow> 'a machine_scheme \<Rightarrow> 'a machine_scheme" where
  "on_screen f s = s\<lparr>screen := f (screen s)\<rparr>"

text \<open>The end-of-interrupt commands to both controllers.\<close>

definition eoi :: "'a kernel_scheme \<Rightarrow> 'a kernel_scheme" where
  "eoi s = outb 0x20 0xA0 (outb 0x20 0x20 s)"

section \<open>The keyboard\<close>

text \<open>The tables of \<open>include/sys/keyboard.h\<close>; the entries behind the initialisers are 0.\<close>

definition kbdus :: string where
  "kbdus = [CHR 0x00, CHR 0x1B] @ ''1234567890-='' @ [CHR 0x08, CHR 0x09] @ ''qwertyuiop[]'' @ [CHR 0x0A, CHR 0x00] @
     ''asdfghjkl;'' @ [CHR 0x27, CHR 0x60, CHR 0x00, CHR 0x5C] @ ''zxcvbnm,./'' @ [CHR 0x00] @ ''*'' @ [CHR 0x00] @ '' '' @
     replicate 16 CHR 0x00 @ ''-'' @ replicate 3 CHR 0x00 @ ''+'' @ replicate 49 CHR 0x00"

definition CAPS_kbdus :: string where
  "CAPS_kbdus = [CHR 0x00, CHR 0x1B] @ ''!@#$%^&*()_+'' @ [CHR 0x08, CHR 0x09] @ ''QWERTYUIOP{}'' @ [CHR 0x0A, CHR 0x00] @
     ''ASDFGHJKL:'' @ [CHR 0x22, CHR 0x7E, CHR 0x00, CHR 0x7C] @ ''ZXCVBNM<>?'' @ [CHR 0x00] @ ''*'' @ [CHR 0x00] @ '' '' @
     replicate 16 CHR 0x00 @ ''-'' @ replicate 3 CHR 0x00 @ ''+'' @ replicate 49 CHR 0x00"

definition press_bar :: "string \<Rightarrow> 'a machine_scheme \<Rightarrow> 'a machine_scheme" where
  "press_bar name s = on_screen (keypress_bar (''LAST PRESSED: '' @ name) CHR 0x0E) s"

text \<open>The keys whose case only shows their name.\<close>

definition key_name :: "u8 \<Rightarrow> string option" where
  "key_name = map_of [(58, ''Caps''), (77, ''Right Arrow''), (75, ''Left Arrow''), (72, ''Up Arrow''), (71, ''Home''),
     (70, ''Scroll Lock''), (73, ''Page Up''), (81, ''Page Down''), (82, ''Insert''), (83, ''Delete''), (79, ''End''),
     (80, ''Down Arrow''), (56, ''Alt''), (15, ''Tab''), (1, ''Esc''), (59, ''F1''), (60, ''F2''), (61, ''F3''), (62, ''F4''),
     (63, ''F5''), (64, ''F6''), (65, ''F7''), (66, ''F8''), (67, ''F9''), (68, ''F10''), (87, ''F11''), (88, ''F12'')]"

text \<open>Ctrl-C ends the foreground process; the interrupt is acknowledged before.\<close>

definition ctrl_c :: "'a kernel_scheme \<Rightarrow> (ctl \<times> 'a kernel_scheme) option" where
  "ctrl_c s =
     (let pid = getforegroundPid s in
      if pid \<noteq> 0 then
        (case exitpid pid (eoi (setforegroundPid 0 s)) of
           None \<Rightarrow> None
         | Some (Entered, s') \<Rightarrow> Some (Entered, s')
         | Some (Returned _, s') \<Rightarrow> returns s')
      else returns s)"

definition default_key :: "u8 \<Rightarrow> 'a machine_scheme \<Rightarrow> (ctl \<times> 'a machine_scheme) option" where
  "default_key a s =
     (let lower = kbdus ! unat a; upper = CAPS_kbdus ! unat a in
      if shift s \<noteq> 0 then
        returns (writeChar upper 0 (kprintf ''%c'' [KChr upper]
          (press_bar (''shift+'' @ [CHR 0x27, lower, CHR 0x27] @ ''='' @ [CHR 0x27, upper, CHR 0x27]) s)))
      else if control s \<noteq> 0 then
        (let s1 = press_bar [CHR ''^'', upper] s;
             s2 = (if upper = CHR ''H'' then handleBackspace s1 else s1)
         in if upper = CHR ''C'' then ctrl_c s2 else returns s2)
      else returns (writeChar lower 0 (kprintf ''%c'' [KChr lower] (press_bar [lower] s))))"

definition key_down :: "u8 \<Rightarrow> 'a machine_scheme \<Rightarrow> (ctl \<times> 'a machine_scheme) option" where
  "key_down a s =
     (if a = 42 \<or> a = 54 then returns (s\<lparr>shift := 1\<rparr>)
      else if a = 29 then returns (s\<lparr>control := 1\<rparr>)
      else if a = 14 then returns (handleBackspace (press_bar ''Backspace'' s))
      else if a = 28 then returns (kprintf [CHR 0x0A] [] (writeChar CHR 0x0A 0 (press_bar ''Enter'' s)))
      else if a = 57 then returns (kprintf '' '' [] (writeChar CHR 0x20 0 (press_bar ''Space'' s)))
      else (case key_name a of
              Some name \<Rightarrow> returns (press_bar name s)
            | None \<Rightarrow> default_key a s))"

text \<open>Released keys: the cases have no \<open>break\<close>, so releasing either shift key also clears \<open>control\<close>.\<close>

definition key_up :: "u8 \<Rightarrow> 'a machine_scheme \<Rightarrow> 'a machine_scheme" where
  "key_up a s =
     (if a = 170 then s\<lparr>shift := 0, control := 0\<rparr>
      else if a = 182 then s\<lparr>shift := 0, control := 0\<rparr>
      else if a = 157 then s\<lparr>control := 0\<rparr>
      else s)"

definition key_press_handler :: "u8 \<Rightarrow> 'a machine_scheme \<Rightarrow> (ctl \<times> 'a machine_scheme) option" where
  "key_press_handler a s =
     (case (if a < 128 then key_down a s else returns (key_up a s)) of
        None \<Rightarrow> None
      | Some (Entered, s') \<Rightarrow> Some (Entered, s')
      | Some (Returned _, s') \<Rightarrow> returns (eoi s'))"

section \<open>The timer\<close>

text \<open>One second passes for a task that waits for its alarm or sleeps.\<close>

definition count_second :: "u64 \<Rightarrow> 'a kernel_scheme \<Rightarrow> 'a kernel_scheme" where
  "count_second t s =
     (let s1 = (if currAlarmCount (tasks s t) \<ge> 1
                then upd_task t (\<lambda>k. k\<lparr>currAlarmCount := currAlarmCount k + 1\<rparr>) s else s)
      in if currSleepCount (tasks s1 t) \<ge> 1
         then upd_task t (\<lambda>k. k\<lparr>currSleepCount := currSleepCount k + 1\<rparr>) s1 else s1)"

definition advance_clock :: "'a machine_scheme \<Rightarrow> 'a machine_scheme" where
  "advance_clock s =
     (if c_rem (seconds s) 60 = 0
      then (let s1 = s\<lparr>seconds := c_rem (seconds s) 60, minute := minute s + 1\<rparr> in
            if c_rem (minute s1) 60 = 0
            then s1\<lparr>minute := c_rem (minute s1) 60, hour := hour s1 + 1\<rparr> else s1)
      else s)"

definition timer_second :: "'a machine_scheme \<Rightarrow> 'a machine_scheme option" where
  "timer_second s =
     (let s1 = s\<lparr>tick_i := 0, seconds := seconds s + 1\<rparr>;
          r = getRunningThread s1;
          s2 = count_second r s1 in
      case for_ptrs tnext r (\<lambda>t s. Some (count_second t s)) (tnext s2 r) s2 of
        None \<Rightarrow> None
      | Some s3 \<Rightarrow>
          (let s4 = advance_clock s3
           in Some (on_screen (boot_time_bar (sint (hour s4)) (sint (minute s4)) (sint (seconds s4)) CHR 0x0E) s4)))"

definition timer_intr_hdlr :: "'a machine_scheme \<Rightarrow> (ctl \<times> 'a machine_scheme) option" where
  "timer_intr_hdlr s =
     (let s1 = s\<lparr>tick_i := tick_i s + 1, tick_j := tick_j s + 1\<rparr> in
      if c_rem (tick_i s1) 19 = 0
      then (case timer_second s1 of None \<Rightarrow> None | Some s2 \<Rightarrow> returns (eoi s2))
      else if c_rem (tick_j s1) 3 = 0
      then (let s2 = eoi (s1\<lparr>tick_j := 0\<rparr>) in
            if getMutex s2 \<noteq> 1 then Some (Entered, runNextTask s2) else returns (eoi s2))
      else returns (eoi s1))"

section \<open>The real-time clock\<close>

text \<open>C's \<open>/\<close> on \<open>int\<close> truncates; \<open>char\<close> is signed.\<close>

definition c_div :: "int \<Rightarrow> int \<Rightarrow> int" where
  "c_div x y = sgn x * (\<bar>x\<bar> div y)"

definition bcd :: "u8 \<Rightarrow> u8" where
  "bcd b = word_of_int (c_div (sint b) 16 * 10 + uint (b AND 0xF))"

definition bcd_hour :: "u8 \<Rightarrow> u8" where
  "bcd_hour b = word_of_int (uint (b AND 0xF) + uint (b AND 0x70) div 16 * 10)"

definition new_york :: "u8 \<Rightarrow> u8" where
  "new_york b = word_of_int (if sint b - 5 < 0 then sint b - 5 + 24 else sint b - 5)"

text \<open>\<open>sec\<close>, \<open>mins\<close>, \<open>hr\<close> and \<open>regb\<close> are what port 0x71 gives for the four registers.\<close>

definition rtc_update :: "u8 \<Rightarrow> u8 \<Rightarrow> u8 \<Rightarrow> u8 \<Rightarrow> 'a machine_scheme \<Rightarrow> 'a machine_scheme" where
  "rtc_update sec mins hr regb s =
     (let s1 = (outb 0x00 0x70 s)\<lparr>rtc_second := bcd sec\<rparr>;
          s2 = (outb 0x02 0x70 s1)\<lparr>rtc_minute := mins\<rparr>;
          s3 = outb 0x0B 0x70 ((outb 0x04 0x70 s2)\<lparr>rtc_hour := hr\<rparr>);
          s4 = (if regb AND 0x04 = 0
                then s3\<lparr>rtc_minute := bcd (rtc_minute s3), rtc_hour := bcd_hour (rtc_hour s3)\<rparr> else s3);
          s5 = (if regb AND 0x02 = 0 \<and> rtc_hour s4 AND 0x80 \<noteq> 0
                then s4\<lparr>rtc_hour := word_of_int ((uint (rtc_hour s4 AND 0x7F) + 12) mod 24)\<rparr> else s4);
          s6 = s5\<lparr>rtc_hour := new_york (rtc_hour s5)\<rparr>
      in on_screen (time_bar (sint (rtc_hour s6)) (sint (rtc_minute s6)) (sint (rtc_second s6)) CHR 0x0E) s6)"

definition rtc_intr_hndlr :: "u8 \<Rightarrow> u8 \<Rightarrow> u8 \<Rightarrow> u8 \<Rightarrow> 'a machine_scheme \<Rightarrow> 'a machine_scheme" where
  "rtc_intr_hndlr sec mins hr regb s =
     (let s1 = s\<lparr>rtc_read_timeout := rtc_read_timeout s + 1\<rparr>;
          s2 = (if c_rem (rtc_read_timeout s1) 19 = 0
                then rtc_update sec mins hr regb (s1\<lparr>rtc_read_timeout := 0\<rparr>) else s1)
      in outb 0x0C 0x70 (eoi s2))"

section \<open>Exceptions\<close>

text \<open>What the handlers 0 to 13 and 15 to 21 print.\<close>

definition isr_messages :: "string list" where
  "isr_messages = [''0x0 divide by 0'', ''0x01    Single-step interrupt (see trap flag)'', ''0x02    NMI'',
     ''0x03    Breakpoint (callable by the special 1-byte instruction 0xCC, used by debuggers)'',
     ''0x04    Overflow'', ''0x05    Bounds'', ''0x06    Invalid Opcode'', ''0x07    Coprocessor not available'',
     ''0x08    Double fault'', ''0x09    Coprocessor Segment Overrun (386 or earlier only)'',
     '' 0x0A    Invalid Task State Segment'', ''0x0B    Segment not present'', ''0x0C    Stack Fault'',
     ''0x0D    General protection fault %d'', [], ''0x0F    reserved'', ''0x10    Math Fault'',
     ''0x11    Alignment Check'', ''0x12    Machine Check'', ''0x13    SIMD Floating-Point Exception'',
     ''0x14    Virtualization Exception'', ''0x15 Control Protection Exception'']"

definition hndlr_isr :: "nat \<Rightarrow> 'a kernel_scheme \<Rightarrow> (ctl \<times> 'a kernel_scheme) option" where
  "hndlr_isr n s =
     exit_then (kprintf (isr_messages ! n) (if n = 13 then [KNum (errorCode s)] else []) s) returns"

section \<open>The interrupt table\<close>

record idt_descriptor =
  id_base_lo :: u16
  id_sel :: u16
  id_always0 :: u8
  id_flags :: u8
  id_base_middle :: u16
  id_base_high :: u32
  id_always00 :: u32

definition id_set_gate :: "u8 \<Rightarrow> u64 \<Rightarrow> u8 \<Rightarrow> u8 \<Rightarrow> (u8 \<Rightarrow> idt_descriptor) \<Rightarrow> u8 \<Rightarrow> idt_descriptor" where
  "id_set_gate intr_num base_addr sel flags idt =
     idt(intr_num := \<lparr>id_base_lo = ucast (base_addr AND 0xFFFF), id_sel = ucast sel, id_always0 = 0, id_flags = flags,
       id_base_middle = ucast (drop_bit 16 base_addr AND 0xFFFF),
       id_base_high = ucast (drop_bit 32 base_addr AND 0xFFFFFFFF), id_always00 = 0\<rparr>)"

text \<open>The entry points of \<open>sys/idt.s\<close> are arguments.\<close>

definition init_idt :: "u64 \<Rightarrow> u64 \<Rightarrow> u64 \<Rightarrow> (u8 \<Rightarrow> u64) \<Rightarrow> (u8 \<Rightarrow> idt_descriptor) \<Rightarrow> u8 \<Rightarrow> idt_descriptor" where
  "init_idt rtc_intr key_board_intr timer_intr isr idt =
     fold (\<lambda>n. id_set_gate n (isr n) 8 0x8E) (map of_nat [0..<22])
       (id_set_gate 32 timer_intr 8 0x8E (id_set_gate 33 key_board_intr 8 0x8E (id_set_gate 40 rtc_intr 8 0x8E idt)))"

text \<open>The address the CPU puts together from the three pieces of a gate.\<close>

definition gate_base :: "idt_descriptor \<Rightarrow> u64" where
  "gate_base d = ucast (id_base_lo d) OR push_bit 16 (ucast (id_base_middle d)) OR push_bit 32 (ucast (id_base_high d))"

section \<open>Seconds\<close>

text \<open>What one second does to a task.\<close>

definition counted :: "Task \<Rightarrow> Task" where
  "counted k = k\<lparr>currAlarmCount := (if 1 \<le> currAlarmCount k then currAlarmCount k + 1 else currAlarmCount k),
     currSleepCount := (if 1 \<le> currSleepCount k then currSleepCount k + 1 else currSleepCount k)\<rparr>"

lemma counted_sel [simp]: "task_next (counted k) = task_next k" "pid_t (counted k) = pid_t k"
  "memMap (counted k) = memMap k" "expectedSleepCount (counted k) = expectedSleepCount k"
  by (simp_all add: counted_def)

lemma count_second_upd: "count_second t s = upd_task t counted s"
proof -
  have "k = k\<lparr>currAlarmCount := currAlarmCount k\<rparr>" "k = k\<lparr>currSleepCount := currSleepCount k\<rparr>"
    "k = k\<lparr>currAlarmCount := currAlarmCount k, currSleepCount := currSleepCount k\<rparr>" for k :: Task by simp_all
  then show ?thesis by (auto simp: count_second_def counted_def upd_task_def Let_def)
qed

lemma fold_upd_task:
  "distinct ts \<Longrightarrow> fold (\<lambda>t. upd_task t f) ts s = s\<lparr>tasks := \<lambda>x. if x \<in> set ts then f (tasks s x) else tasks s x\<rparr>"
proof (induction ts arbitrary: s)
  case (Cons t ts)
  then have t: "t \<notin> set ts" by simp
  let ?s1 = "upd_task t f s"
  have T: "tasks ?s1 = (tasks s)(t := f (tasks s t))" and S: "?s1\<lparr>tasks := g\<rparr> = s\<lparr>tasks := g\<rparr>" for g
    by (simp_all add: upd_task_def)
  have "(\<lambda>x. if x \<in> set ts then f (tasks ?s1 x) else tasks ?s1 x) =
    (\<lambda>x. if x \<in> set (t # ts) then f (tasks s x) else tasks s x)"
    using t by (auto simp: fun_eq_iff T)
  with Cons S show ?case by simp
qed simp

text \<open>All tasks of the run queue are counted, in whatever order the loop reaches them.\<close>

lemma timer_second_eq:
  assumes "queues s ts ds"
  shows "timer_second s = Some (let s3 = s\<lparr>tick_i := 0, seconds := seconds s + 1,
      tasks := \<lambda>x. if x \<in> set (runningThread s # ts) then counted (tasks s x) else tasks s x\<rparr>; s4 = advance_clock s3
    in on_screen (boot_time_bar (sint (hour s4)) (sint (minute s4)) (sint (seconds s4)) CHR 0x0E) s4)"
proof -
  let ?s1 = "s\<lparr>tick_i := 0, seconds := seconds s + 1\<rparr>" and ?r = "runningThread s"
  let ?s2 = "upd_task ?r counted ?s1"
  have nx: "tnext (upd_task t counted u) = tnext u" for t and u :: "'a machine_scheme" by (auto simp: upd_task_def)
  have e: "tnext ?s2 = tnext s" unfolding nx by simp
  with assms have p: "path (tnext ?s2) (tnext ?s2 ?r) ts ?r" "?r \<notin> set ts" "distinct (?r # ts)"
    by (auto simp: queues_def ring_def e fun_cong [OF e])
  have "for_ptrs tnext ?r (\<lambda>t s. Some (upd_task t counted s)) (tnext ?s2 ?r) ?s2 = Some (fold (\<lambda>t. upd_task t counted) ts ?s2)"
    by (rule for_ptrs_fold [where nx = tnext, OF p(1,2)]) (rule refl, rule nx)
  also have "fold (\<lambda>t. upd_task t counted) ts ?s2 = fold (\<lambda>t. upd_task t counted) (?r # ts) ?s1" by simp
  also have "\<dots> = ?s1\<lparr>tasks := \<lambda>x. if x \<in> set (?r # ts) then counted (tasks ?s1 x) else tasks ?s1 x\<rparr>"
    by (rule fold_upd_task [OF p(3)])
  also have "\<dots> = ?s1\<lparr>tasks := \<lambda>x. if x \<in> set (?r # ts) then counted (tasks s x) else tasks s x\<rparr>"
    by (simp cong: if_cong)
  finally show ?thesis by (simp add: timer_second_def getRunningThread_def count_second_upd Let_def)
qed

text \<open>The three counters show \<open>n\<close> seconds since boot.\<close>

definition clock :: "'a machine_scheme \<Rightarrow> nat \<Rightarrow> bool" where
  "clock s n \<longleftrightarrow> hour s = of_nat (n div 3600) \<and> minute s = of_nat (n div 60 mod 60) \<and> seconds s = of_nat (n mod 60)"

lemma advance_clock_ok:
  assumes "clock s n" and "s1 = s\<lparr>tick_i := i, seconds := seconds s + 1, tasks := t\<rparr>"
  shows "clock (advance_clock s1) (Suc n)"
proof -
  have s: "seconds s1 = of_nat (Suc (n mod 60))" "minute s1 = of_nat (n div 60 mod 60)" "hour s1 = of_nat (n div 3600)"
    using assms by (simp_all add: clock_def)
  have r: "c_rem (of_nat (Suc (n mod 60))) 60 = of_nat (Suc (n mod 60) mod 60)"
    "c_rem (of_nat (Suc (n div 60 mod 60))) 60 = of_nat (Suc (n div 60 mod 60) mod 60)"
    using c_rem_nat [of "Suc (n mod 60)" 60] c_rem_nat [of "Suc (n div 60 mod 60)" 60] by (simp_all del: of_nat_Suc)
  have z: "(of_nat (Suc k mod 60) :: i32) = 0 \<longleftrightarrow> Suc k mod 60 = 0" for k by (rule of_nat_small_0) simp
  have h: "n div 3600 = n div 60 div 60" "Suc n div 3600 = Suc n div 60 div 60" by (simp_all add: div_mult2_eq [symmetric])
  show ?thesis
  proof (cases "n mod 60 = 59")
    case False
    then have "Suc (n mod 60) mod 60 = Suc (n mod 60)" "Suc n mod 60 = Suc (n mod 60)" "Suc n div 60 = n div 60"
      by (auto simp: mod_Suc div_Suc)
    with s r(1) z [of "n mod 60"] show ?thesis by (simp add: advance_clock_def clock_def h del: of_nat_Suc)
  next
    case True
    then have m: "Suc n mod 60 = 0" "Suc n div 60 = Suc (n div 60)" by (auto simp: mod_Suc div_Suc)
    show ?thesis
    proof (cases "n div 60 mod 60 = 59")
      case False
      then have "Suc (n div 60 mod 60) mod 60 = Suc (n div 60 mod 60)" "Suc (n div 60) mod 60 = Suc (n div 60 mod 60)"
        "Suc (n div 60) div 60 = n div 60 div 60" by (auto simp: mod_Suc div_Suc)
      with True s r z [of "n div 60 mod 60"] m show ?thesis
        by (simp add: advance_clock_def clock_def h Let_def add.commute)
    next
      case t: True
      then have "Suc (n div 60) mod 60 = 0" "Suc (n div 60) div 60 = Suc (n div 60 div 60)" by (auto simp: mod_Suc div_Suc)
      with True t s r m show ?thesis by (simp add: advance_clock_def clock_def h Let_def)
    qed
  qed
qed

lemma machine_fields:
  assumes "kernel.more (s' :: 'a machine_scheme) = kernel.more s"
  shows "hour s' = hour s" "minute s' = minute s" "seconds s' = seconds s" "tick_i s' = tick_i s" "tick_j s' = tick_j s"
    "shift s' = shift s" "control s' = control s" "screen s' = screen s" "rtc_read_timeout s' = rtc_read_timeout s"
  using assms by (cases s; cases s'; simp)+

lemma undisturbed_runNextTask: "undisturbed s (runNextTask s)"
proof -
  have alarm: "undisturbed u (fire_alarm t u)" for t and u :: "'a kernel_scheme"
    by (simp add: undisturbed_def fire_alarm_def upd_task_def changeToAlarmFunction_def uwr_def wr_def Let_def)
  have entry: "undisturbed u (prepare_entry n (u\<lparr>runningThread := n\<rparr>))" for n and u :: "'a kernel_scheme"
    by (simp add: undisturbed_def prepare_entry_def set_tss_rsp_def upd_regs_def upd_task_def Let_def)
  have "undisturbed u (enter_task n u)" for n and u :: "'a kernel_scheme"
    by (simp add: undisturbed_def enter_task_def moveToNextProcess_def)
  note E = undisturbed_trans [OF undisturbed_trans [OF entry alarm] this]
  have "undisturbed s (save_running s)" by (simp add: save_running_def)
  from undisturbed_trans [OF this E] show ?thesis unfolding runNextTask_def Let_def .
qed

lemma eoi_more [simp]: "kernel.more (eoi s) = kernel.more s" "tasks (eoi s) = tasks s" "runningThread (eoi s) = runningThread s"
  "deleteQueue (eoi s) = deleteQueue s" "mutex (eoi s) = mutex s" "vmas (eoi s) = vmas s" "kbd_state (eoi s) = kbd_state s"
  by (simp_all add: eoi_def outb_def)

lemma queues_fields:
  assumes "tnext s' = tnext s" "deleteQueue s' = deleteQueue s" "runningThread s' = runningThread s"
  shows "queues s' ts ds = queues s ts ds"
  using assms by (simp add: queues_def)

lemma advance_clock_fields [simp]:
  "tasks (advance_clock s) = tasks s" "runningThread (advance_clock s) = runningThread s"
  "deleteQueue (advance_clock s) = deleteQueue s" "tick_i (advance_clock s) = tick_i s" "tick_j (advance_clock s) = tick_j s" "mutex (advance_clock s) = mutex s"
  "vmas (advance_clock s) = vmas s" "kbd_state (advance_clock s) = kbd_state s" "screen (advance_clock s) = screen s"
  by (simp_all add: advance_clock_def Let_def)

lemma on_screen_fields [simp]:
  "tasks (on_screen f s) = tasks s" "runningThread (on_screen f s) = runningThread s"
  "deleteQueue (on_screen f s) = deleteQueue s" "tick_i (on_screen f s) = tick_i s" "tick_j (on_screen f s) = tick_j s" "mutex (on_screen f s) = mutex s"
  "vmas (on_screen f s) = vmas s" "kbd_state (on_screen f s) = kbd_state s" "clock (on_screen f s) = clock s"
  "hour (on_screen f s) = hour s" "minute (on_screen f s) = minute s" "seconds (on_screen f s) = seconds s"
  "screen (on_screen f s) = f (screen s)" "shift (on_screen f s) = shift s" "control (on_screen f s) = control s"
  "klog (on_screen f s) = klog s" "foregroundPid (on_screen f s) = foregroundPid s"
  by (simp_all add: on_screen_def clock_def fun_eq_iff)

text \<open>What a second does, in one fact.\<close>

lemma timer_second_ok:
  assumes "queues s ts ds" and "clock s n"
  shows "\<exists>s'. timer_second s = Some s' \<and> clock s' (Suc n) \<and> tick_i s' = 0 \<and> tick_j s' = tick_j s \<and> queues s' ts ds \<and>
    runningThread s' = runningThread s \<and> mutex s' = mutex s \<and> vmas s' = vmas s \<and> kbd_state s' = kbd_state s \<and>
    (\<forall>x. tasks s' x = (if x \<in> set (runningThread s # ts) then counted (tasks s x) else tasks s x)) \<and>
    screen s' = boot_time_bar (sint (hour s')) (sint (minute s')) (sint (seconds s')) CHR 0x0E (screen s)"
proof -
  define s3 where "s3 = s\<lparr>tick_i := 0, seconds := seconds s + 1,
    tasks := \<lambda>x. if x \<in> set (runningThread s # ts) then counted (tasks s x) else tasks s x\<rparr>"
  define s4 where "s4 = advance_clock s3"
  let ?s' = "on_screen (boot_time_bar (sint (hour s4)) (sint (minute s4)) (sint (seconds s4)) CHR 0x0E) s4"
  have t: "timer_second s = Some ?s'" using timer_second_eq [OF assms(1)] by (simp add: s3_def s4_def Let_def)
  have T: "tasks s4 x = (if x \<in> set (runningThread s # ts) then counted (tasks s x) else tasks s x)" for x
    by (simp add: s4_def s3_def)
  have "clock s4 (Suc n)" unfolding s4_def by (rule advance_clock_ok [OF assms(2) s3_def])
  moreover have "tnext ?s' = tnext s" by (simp add: fun_eq_iff T)
  then have "queues ?s' ts ds" using assms(1) by (subst queues_fields [of _ s]) (simp_all add: s4_def s3_def)
  ultimately show ?thesis
    unfolding t by (intro exI [of _ ?s']) (simp add: T, simp add: s4_def s3_def)
qed

lemma sint_nat: "n < 2 ^ 31 \<Longrightarrow> sint (of_nat n :: i32) = int n"
  by (rule sint_small)

lemma c_rem_tick:
  assumes "i < 19"
  shows "c_rem (of_nat i + 1) 19 = 0 \<longleftrightarrow> i = 18"
proof -
  have "c_rem (of_nat (Suc i)) (int 19) = of_nat (Suc i mod 19)" by (rule c_rem_nat) (use assms in simp_all)
  moreover have "(of_nat (Suc i mod 19) :: i32) = 0 \<longleftrightarrow> Suc i mod 19 = 0" by (rule of_nat_small_0) simp
  ultimately show ?thesis using assms by (auto simp: add.commute mod_Suc split: if_splits)
qed

section \<open>Properties\<close>

text \<open>C20: The timer keeps time: \<open>hour\<close>, \<open>minute\<close> and \<open>seconds\<close> are always the digits of the number \<open>n\<close> of seconds since boot.
  Of nineteen interrupts exactly one advances it; that one reaches every task of the run queue
  (alarm and sleep counters), shows the new time on the screen and never switches tasks.
  The others leave the time alone; they switch to the next task of the run queue exactly when the second counter \<open>j\<close>, which every
  interrupt increments, reaches a multiple of 3 and no system call holds the mutex. Such a turn, taken or not, sets \<open>j\<close> back to 0, so
  that at least two interrupts lie between two switches.\<close>

theorem timer_keeps_time:
  assumes "queues s ts ds" and "clock s n" and "tick_i s = of_nat i" and "i < 19"
  shows "if i = 18
    then \<exists>s'. timer_intr_hdlr s = Some (Returned 0, s') \<and> clock s' (Suc n) \<and> tick_i s' = 0 \<and> queues s' ts ds \<and>
      runningThread s' = runningThread s \<and> (\<forall>t \<in> set (runningThread s # ts). tasks s' t = counted (tasks s t)) \<and>
      tick_j s' = tick_j s + 1 \<and> screen s' = boot_time_bar (sint (hour s')) (sint (minute s')) (sint (seconds s')) CHR 0x0E (screen s)
    else \<exists>c s'. timer_intr_hdlr s = Some (c, s') \<and> clock s' n \<and> tick_i s' = of_nat (Suc i) \<and>
      tick_j s' = (if c_rem (tick_j s + 1) 3 = 0 then 0 else tick_j s + 1) \<and>
      (if c_rem (tick_j s + 1) 3 = 0 \<and> mutex s \<noteq> 1
       then c = Entered \<and> run_order s' (ts @ [runningThread s])
       else c = Returned 0 \<and> run_order s' (runningThread s # ts))"
proof (cases "i = 18")
  case True
  let ?s1 = "s\<lparr>tick_i := tick_i s + 1, tick_j := tick_j s + 1\<rparr>"
  have "queues ?s1 ts ds" "clock ?s1 n" using assms(1,2) by (simp_all add: queues_def clock_def)
  from timer_second_ok [OF this] obtain s' where s': "timer_second ?s1 = Some s'" "clock s' (Suc n)" "tick_i s' = 0"
    "tick_j s' = tick_j s + 1" "queues s' ts ds" "runningThread s' = runningThread s"
    "\<And>x. tasks s' x = (if x \<in> set (runningThread s # ts) then counted (tasks s x) else tasks s x)"
    "screen s' = boot_time_bar (sint (hour s')) (sint (minute s')) (sint (seconds s')) CHR 0x0E (screen s)" by auto
  have m: "kernel.more (eoi s') = kernel.more s'" by simp
  have "timer_intr_hdlr s = Some (Returned 0, eoi s')"
    using s'(1) c_rem_tick [OF assms(4)] True by (simp add: timer_intr_hdlr_def assms(3) returns_def)
  moreover have "queues (eoi s') ts ds" using s'(5) by (simp add: queues_def)
  moreover have "clock (eoi s') (Suc n)" using s'(2) by (simp add: clock_def machine_fields [OF m])
  ultimately show ?thesis using True s'(3,4,6,7,8) by (simp add: machine_fields [OF m])
next
  case False
  define s1 where "s1 = s\<lparr>tick_i := tick_i s + 1, tick_j := tick_j s + 1\<rparr>"
  define s2 where "s2 = eoi (s1\<lparr>tick_j := 0\<rparr>)"
  have no: "c_rem (tick_i s1) 19 \<noteq> 0" using c_rem_tick [OF assms(4)] False by (simp add: s1_def assms(3))
  have s2: "hour s2 = hour s" "minute s2 = minute s" "seconds s2 = seconds s" "tick_i s2 = of_nat i + 1" "tick_j s2 = 0"
    using machine_fields [of "eoi (s1\<lparr>tick_j := 0\<rparr>)" "s1\<lparr>tick_j := 0\<rparr>"] by (simp_all add: s2_def s1_def assms(3))
  have e1: "hour (eoi s1) = hour s" "minute (eoi s1) = minute s" "seconds (eoi s1) = seconds s" "tick_i (eoi s1) = of_nat i + 1"
    "tick_j (eoi s1) = tick_j s + 1"
    using machine_fields [of "eoi s1" s1] by (simp_all add: s1_def assms(3))
  have e2: "hour (eoi s2) = hour s" "minute (eoi s2) = minute s" "seconds (eoi s2) = seconds s" "tick_i (eoi s2) = of_nat i + 1"
    "tick_j (eoi s2) = 0"
    using machine_fields [of "eoi s2" s2] s2 by simp_all
  have r2: "hour (runNextTask s2) = hour s" "minute (runNextTask s2) = minute s" "seconds (runNextTask s2) = seconds s"
    "tick_i (runNextTask s2) = of_nat i + 1" "tick_j (runNextTask s2) = 0"
    using machine_fields [of "runNextTask s2" s2] s2 undisturbed_runNextTask [of s2] by (simp_all add: undisturbed_def)
  have o: "run_order s2 (runningThread s # ts)" "run_order (eoi s1) (runningThread s # ts)" "run_order (eoi s2) (runningThread s # ts)"
    using assms(1) unfolding run_order_def queues_def by (auto simp: s2_def s1_def)
  have mx: "getMutex s2 = mutex s" "c_rem (tick_j s1) 3 = c_rem (tick_j s + 1) 3" by (simp_all add: s2_def s1_def getMutex_def)
  have t: "timer_intr_hdlr s = (if c_rem (tick_j s + 1) 3 = 0
      then if mutex s \<noteq> 1 then Some (Entered, runNextTask s2) else returns (eoi s2) else returns (eoi s1))"
    using no mx by (simp add: timer_intr_hdlr_def s1_def [symmetric] s2_def [symmetric] Let_def)
  show ?thesis
    using False assms(2) rr.step_rotates [OF o(1)] o by (auto simp: t returns_def clock_def s2 e1 e2 r2)
qed

text \<open>A machine around the small kernel.\<close>

definition small_machine :: machine where
  "small_machine = kernel.extend small_kernel
     (machine.fields (console0 (\<lambda>_. CHR 0x00)) 0 0 0 0 0 0 0 0)"

lemma small_machine_sel:
  "tasks small_machine = tasks small_kernel" "runningThread small_machine = runningThread small_kernel"
  "deleteQueue small_machine = deleteQueue small_kernel" "vmas small_machine = vmas small_kernel"
  "hour small_machine = 0" "minute small_machine = 0" "seconds small_machine = 0" "tick_i small_machine = 0"
  "tick_j small_machine = 0" "shift small_machine = 0" "control small_machine = 0" "mutex small_machine = mutex small_kernel"
  by (simp_all add: small_machine_def kernel.extend_def machine.fields_def)

lemma small_machine_queues: "queues small_machine [0x20, 0x30] [0x40]"
  using small_queues by (simp add: queues_def small_machine_sel)

theorem timer_keeps_time_witness:
  "\<exists>s'. timer_intr_hdlr (small_machine\<lparr>tick_i := 18, seconds := 59\<rparr>) = Some (Returned 0, s') \<and> seconds s' = 0 \<and> minute s' = 1"
proof -
  let ?s = "small_machine\<lparr>tick_i := 18, seconds := 59\<rparr>"
  have "queues ?s [0x20, 0x30] [0x40]" using small_machine_queues by (simp add: queues_def)
  moreover have "clock ?s 59" "tick_i ?s = of_nat 18" by (simp_all add: clock_def small_machine_sel)
  ultimately obtain s' where "timer_intr_hdlr ?s = Some (Returned 0, s')" "clock s' (Suc 59)"
    using timer_keeps_time [of ?s "[0x20, 0x30]" "[0x40]" 59 18] by auto
  then show ?thesis by (auto simp: clock_def)
qed

text \<open>The seconds that pass between two looks of a task at its counters.\<close>

primrec seconds_pass :: "nat \<Rightarrow> 'a machine_scheme \<Rightarrow> 'a machine_scheme option" where
  "seconds_pass 0 s = Some s"
| "seconds_pass (Suc n) s = Option.bind (seconds_pass n s) timer_second"

lemma seconds_pass_ok:
  assumes "queues s ts ds" and "clock s m" and "currSleepCount (tasks s (runningThread s)) = 1" and "n + 1 < 2 ^ 64"
  shows "\<exists>s'. seconds_pass n s = Some s' \<and> queues s' ts ds \<and> clock s' (m + n) \<and> runningThread s' = runningThread s \<and>
    currSleepCount (tasks s' (runningThread s)) = of_nat (Suc n) \<and>
    expectedSleepCount (tasks s' (runningThread s)) = expectedSleepCount (tasks s (runningThread s))"
  using assms(4)
proof (induction n)
  case 0
  with assms show ?case by simp
next
  case (Suc n)
  then obtain s1 where s1: "seconds_pass n s = Some s1" "queues s1 ts ds" "clock s1 (m + n)" "runningThread s1 = runningThread s"
    "currSleepCount (tasks s1 (runningThread s)) = of_nat (Suc n)"
    "expectedSleepCount (tasks s1 (runningThread s)) = expectedSleepCount (tasks s (runningThread s))" by auto
  from timer_second_ok [OF s1(2,3)] obtain s2 where s2: "timer_second s1 = Some s2" "clock s2 (Suc (m + n))" "queues s2 ts ds"
    "runningThread s2 = runningThread s1"
    "tasks s2 (runningThread s) = counted (tasks s1 (runningThread s))" unfolding s1(4) by auto
  have "unat (of_nat (Suc n) :: u64) = Suc n" using Suc.prems by (intro unat_of_nat_small) simp
  then have "1 \<le> (of_nat (Suc n) :: u64)" by (simp add: word_le_nat_alt del: of_nat_Suc)
  with s1 s2 show ?case by (simp add: counted_def add.commute)
qed

text \<open>C21: A sleeping task is woken after exactly the seconds it asked for: if it looks again after \<open>n\<close> seconds of
  the timer (other tasks may sleep meanwhile), \<open>getCounter\<close> answers 1 exactly if \<open>n\<close> is not less than the
  seconds given to \<open>setSleep\<close>.\<close>

theorem sleep_lasts:
  assumes "queues s ts ds" and "clock s m" and "n + 1 < 2 ^ 64"
  shows "\<exists>s'. seconds_pass n (snd (setSleep secs s)) = Some s' \<and> fst (getCounter s') = (if unat secs \<le> n then 1 else 0)"
proof -
  let ?s = "snd (setSleep secs s)"
  have t: "tnext ?s = tnext s" "deleteQueue ?s = deleteQueue s" "runningThread ?s = runningThread s"
    by (auto simp: setSleep_def upd_task_def)
  have q: "queues ?s ts ds" using assms(1) by (simp add: queues_fields [OF t])
  have "kernel.more ?s = kernel.more s" by (simp add: setSleep_def upd_task_def)
  from machine_fields [OF this] have c: "clock ?s m" using assms(2) by (simp add: clock_def)
  have "currSleepCount (tasks ?s (runningThread ?s)) = 1" "expectedSleepCount (tasks ?s (runningThread ?s)) = secs"
    by (simp_all add: setSleep_def upd_task_def)
  with seconds_pass_ok [OF q c _ assms(3)] obtain s' where s': "seconds_pass n ?s = Some s'"
    "runningThread s' = runningThread ?s" "currSleepCount (tasks s' (runningThread s')) = of_nat (Suc n)"
    "expectedSleepCount (tasks s' (runningThread s')) = secs" by auto
  have "secs < of_nat (Suc n) \<longleftrightarrow> unat secs \<le> n"
    using assms(3) by (simp add: word_less_nat_alt less_Suc_eq_le del: of_nat_Suc)
  with s' show ?thesis by (simp add: getCounter_def Let_def del: of_nat_Suc)
qed

theorem sleep_lasts_witness:
  "\<exists>s'. seconds_pass 3 (snd (setSleep 3 small_machine)) = Some s' \<and> fst (getCounter s') = 1"
  using sleep_lasts [OF small_machine_queues, of 0 3 3] by (simp add: clock_def small_machine_sel)

section \<open>The real-time clock\<close>

text \<open>A number below 100 as the clock chip gives it.\<close>

definition to_bcd :: "nat \<Rightarrow> u8" where
  "to_bcd n = of_nat (n div 10 * 16 + n mod 10)"

lemma bcd_table: "\<forall>n \<in> set [0..<60]. bcd (to_bcd n) = of_nat n"
  by code_simp

lemma bcd_hour_table: "\<forall>n \<in> set [0..<24]. bcd_hour (to_bcd n) = of_nat n \<and> (of_nat n :: u8) AND 0x80 = 0 \<and>
    new_york (of_nat n) = of_nat ((n + 19) mod 24)"
  by code_simp

text \<open>Every nineteenth clock interrupt reads the time: a chip in BCD mode that shows \<open>h:m:sec\<close> (24-hour format) leaves
  minutes and seconds in \<open>rtc_minute\<close> and \<open>rtc_second\<close> and the hour of New York (five hours less, modulo 24) in
  \<open>rtc_hour\<close>, which are shown in the clock bar; the other interrupts only acknowledge.\<close>

theorem rtc_reads_time:
  assumes "h < 24" and "m < 60" and "sec < 60" and "regb AND 0x04 = 0" and "rtc_read_timeout s = of_nat k" and "k < 19"
  defines "s' \<equiv> rtc_intr_hndlr (to_bcd sec) (to_bcd m) (to_bcd h) regb s"
  shows "if k = 18
    then rtc_hour s' = of_nat ((h + 19) mod 24) \<and> rtc_minute s' = of_nat m \<and> rtc_second s' = of_nat sec \<and>
      rtc_read_timeout s' = 0 \<and>
      screen s' = time_bar (sint (rtc_hour s')) (sint (rtc_minute s')) (sint (rtc_second s')) CHR 0x0E (screen s)
    else rtc_hour s' = rtc_hour s \<and> rtc_minute s' = rtc_minute s \<and> rtc_second s' = rtc_second s \<and>
      rtc_read_timeout s' = of_nat (Suc k) \<and> screen s' = screen s"
proof -
  have b: "bcd (to_bcd sec) = of_nat sec" "bcd (to_bcd m) = of_nat m" using bcd_table assms(2,3) by auto
  have hh: "bcd_hour (to_bcd h) = of_nat h" "(of_nat h :: u8) AND 0x80 = 0"
    "new_york (of_nat h) = of_nat ((h + 19) mod 24)"
    using bcd_hour_table assms(1) by auto
  have "c_rem 19 19 = 0" by code_simp
  then show ?thesis
    using c_rem_tick [OF assms(6)] assms(4)
    by (simp add: s'_def rtc_intr_hndlr_def rtc_update_def Let_def assms(5) b hh eoi_def outb_def on_screen_def)
qed

theorem rtc_reads_time_witness:
  "rtc_hour (rtc_intr_hndlr (to_bcd 7) (to_bcd 45) (to_bcd 3) 0x02 (small_machine\<lparr>rtc_read_timeout := 18\<rparr>)) = 22"
  using rtc_reads_time [of 3 45 7 "0x02" "small_machine\<lparr>rtc_read_timeout := 18\<rparr>" 18] by simp

section \<open>Keys\<close>

text \<open>A key that stands for a character (whatever the other keys) types it: with Shift the character of the upper table,
  without Shift and Control the one of the lower table. It goes to the end of the unread input, is
  printed once, and the handler returns to the interrupted task.\<close>

theorem key_types_character:
  assumes t: "terminal s (Suc n) xs" and a: "a < 128" "key_name a = None" "a \<notin> {14, 28, 29, 42, 54, 57}"
    and m: "shift s \<noteq> 0 \<or> control s = 0"
  defines "c \<equiv> (if shift s \<noteq> 0 then CAPS_kbdus else kbdus) ! unat a"
  shows "\<exists>s'. key_press_handler a s = Some (Returned 0, s') \<and> terminal s' n (xs @ [c]) \<and>
    klog s' = klog s @ [(''%c'', [KChr c])] \<and> runningThread s' = runningThread s"
proof -
  define u where "u = kprintf ''%c'' [KChr c] (press_bar (if shift s \<noteq> 0
    then ''shift+'' @ [CHR 0x27, kbdus ! unat a, CHR 0x27] @ ''='' @ [CHR 0x27, CAPS_kbdus ! unat a, CHR 0x27]
    else [kbdus ! unat a]) s)"
  have k: "kbd_state u = kbd_state s" "klog u = klog s @ [(''%c'', [KChr c])]" "runningThread u = runningThread s"
    by (simp_all add: u_def kprintf_def press_bar_def)
  have "terminal u (Suc n) xs" using t by (simp add: terminal_def k(1))
  note T = terminal_put [OF this, of c] terminal_write_frame [OF this, of c]
  obtain f where f: "writeChar c 0 u = upd_kbd f u" using T(2) by blast
  have "key_down a s = returns (writeChar c 0 u)"
    using a m by (simp add: key_down_def default_key_def Let_def c_def u_def)
  then have "key_press_handler a s = Some (Returned 0, eoi (writeChar c 0 u))"
    using a(1) by (simp add: key_press_handler_def returns_def)
  moreover have "terminal (eoi (writeChar c 0 u)) n (xs @ [c])" using T(1) by (simp add: terminal_def)
  moreover have "klog (eoi (writeChar c 0 u)) = klog u" "runningThread (eoi (writeChar c 0 u)) = runningThread u"
    unfolding f by (simp_all add: upd_kbd_def eoi_def outb_def)
  ultimately show ?thesis using k by auto
qed

theorem key_types_character_witness:
  "\<exists>s'. key_press_handler 30 (set_input_buf 0x5000 (small_machine\<lparr>shift := 1\<rparr>)) = Some (Returned 0, s') \<and> terminal s' 4094 ''A''"
proof -
  let ?s = "set_input_buf 0x5000 (small_machine\<lparr>shift := 1\<rparr>)"
  have "terminal ?s 4095 []" by (rule terminal_init) simp_all
  then have t: "terminal ?s (Suc 4094) []" by simp
  have "CAPS_kbdus ! 30 = CHR ''A''" by code_simp
  with key_types_character [OF t, of 30] show ?thesis by (auto simp: key_name_def set_input_buf_def)
qed

text \<open>All that a sequence of keyboard interrupts does, whichever tasks run when they come.\<close>

fun press_all :: "u8 list \<Rightarrow> 'a machine_scheme \<Rightarrow> 'a machine_scheme option" where
  "press_all [] s = Some s"
| "press_all (a # as) s = (case key_press_handler a s of None \<Rightarrow> None | Some (_, s') \<Rightarrow> press_all as s')"

text \<open>Is a modifier down? The last code that concerns it decides.\<close>

definition held :: "u8 set \<Rightarrow> u8 set \<Rightarrow> u8 list \<Rightarrow> bool" where
  "held downs ups codes \<longleftrightarrow> (case filter (\<lambda>a. a \<in> downs \<union> ups) (rev codes) of [] \<Rightarrow> False | a # _ \<Rightarrow> a \<in> downs)"

lemma held_snoc: "held D U (as @ [a]) = (if a \<in> D then True else if a \<in> U then False else held D U as)"
  by (simp add: held_def)

lemma more_kernel_ops [simp]:
  "kernel.more (kprintf f x s) = kernel.more s" "kernel.more (upd_kbd g s) = kernel.more s"
  "kernel.more (setforegroundPid pid s) = kernel.more s"
  by (simp_all add: kprintf_def upd_kbd_def setforegroundPid_def)

lemma more_readChar [simp]: "kernel.more (snd (readChar s)) = kernel.more s"
  by (simp add: readChar_def Let_def)

lemma more_writeChar [simp]: "kernel.more (writeChar c n s) = kernel.more s"
  by (simp add: writeChar_def Let_def)

lemma more_backspace [simp]: "kernel.more (handleBackspace s) = kernel.more s"
  by (simp add: handleBackspace_def Let_def)

lemma more_ctrl_c: "ctrl_c s = Some (c, s') \<Longrightarrow> kernel.more s' = kernel.more s"
  by (auto simp: ctrl_c_def Let_def returns_def undisturbed_def split: if_splits option.splits ctl.splits
      dest!: undisturbed_exitpid)

definition modifiers :: "'a machine_scheme \<Rightarrow> bool \<times> bool" where
  "modifiers s = (shift s \<noteq> 0, control s \<noteq> 0)"

lemma modifiers_more: "kernel.more s' = kernel.more s \<Longrightarrow> modifiers s' = modifiers s"
  unfolding modifiers_def by (simp only: machine_fields(6,7) [of s' s])

lemma modifiers_press_bar [simp]: "modifiers (press_bar n s) = modifiers s"
  by (simp add: modifiers_def press_bar_def)

lemma modifiers_default_key:
  assumes "default_key a s = Some (c, s')"
  shows "modifiers s' = modifiers s"
proof -
  have k: "modifiers (kprintf f x t) = modifiers t" "modifiers (writeChar d 0 t) = modifiers t"
    "modifiers (handleBackspace t) = modifiers t" "modifiers (if P then handleBackspace t else t) = modifiers t"
    for f x d P and t :: "'a machine_scheme" by (auto intro: modifiers_more)
  show ?thesis
    using assms by (auto simp: default_key_def Let_def returns_def k split: if_splits dest!: more_ctrl_c modifiers_more)
qed

lemma modifiers_key_press:
  assumes "key_press_handler a s = Some (c, s')"
  shows "modifiers s' = (if a \<in> {42, 54} then (True, snd (modifiers s))
    else if a \<in> {170, 182} then (False, False)
    else if a = 29 then (fst (modifiers s), True) else if a = 157 then (fst (modifiers s), False) else modifiers s)"
proof -
  have k: "modifiers (kprintf f x t) = modifiers t" "modifiers (writeChar d 0 t) = modifiers t"
    "modifiers (handleBackspace t) = modifiers t" "modifiers (eoi t) = modifiers t"
    for f x d and t :: "'a machine_scheme" by (auto intro: modifiers_more)
  show ?thesis
  proof (cases "a < 128")
    case False
    then have "a \<notin> {42, 54}" "a \<noteq> 29" by auto
    moreover have "shift (eoi t) = shift t" "control (eoi t) = control t" for t :: "'a machine_scheme"
      using machine_fields(6,7) [of "eoi t" t] by simp_all
    ultimately show ?thesis
      using assms False by (auto simp: key_press_handler_def returns_def key_up_def modifiers_def split: if_splits)
  next
    case True
    then have n: "a \<notin> {170, 182}" "a \<noteq> 157" by auto
    from assms True obtain c' t where t: "key_down a s = Some (c', t)" "s' = t \<or> s' = eoi t"
      by (auto simp: key_press_handler_def returns_def split: option.splits ctl.splits)
    have "modifiers t = (if a \<in> {42, 54} then (True, snd (modifiers s))
      else if a = 29 then (fst (modifiers s), True) else modifiers s)"
      using t(1) by (auto simp: key_down_def returns_def k modifiers_def [of "s\<lparr>shift := _\<rparr>"] modifiers_def [of "s\<lparr>control := _\<rparr>"]
          modifiers_def [of s] dest: modifiers_default_key split: if_splits option.splits)
    with t(2) n k(4) show ?thesis by auto
  qed
qed

text \<open>The modifier flags are the reference ``the last code that concerns the key decides'': Shift is on
  exactly if the last code among press and release of the two shift keys is a press. Control is on exactly if
  the last code among the press of Control, its release and the release of either shift key is its press
  (so releasing Shift turns Control off, because the cases of the release switch fall through).\<close>

theorem modifiers_follow_keys:
  assumes "press_all codes s = Some s'" and "modifiers s = (False, False)"
  shows "modifiers s' = (held {42, 54} {170, 182} codes, held {29} {157, 170, 182} codes)"
proof -
  have app: "press_all (as @ bs) t = Option.bind (press_all as t) (press_all bs)" for as bs and t :: "'a machine_scheme"
    by (induction as arbitrary: t) (auto split: option.split)
  show ?thesis
    using assms(1)
  proof (induction codes arbitrary: s' rule: rev_induct)
    case Nil
    with assms(2) show ?case by (simp add: held_def)
  next
    case (snoc a as)
    then obtain t c where t: "press_all as s = Some t" "key_press_handler a t = Some (c, s')"
      by (auto simp: app bind_eq_Some_conv split: option.splits)
    from snoc.IH [OF t(1)] modifiers_key_press [OF t(2)] show ?case by (auto simp: held_snoc)
  qed
qed

theorem modifiers_follow_keys_witness:
  "\<exists>s'. press_all [29, 42, 58, 170] (small_machine :: machine) = Some s' \<and> modifiers s' = (False, False)"
proof -
  have "press_all [29, 42, 58, 170] small_machine \<noteq> None"
    by (simp add: key_press_handler_def key_down_def key_name_def returns_def)
  then obtain s' where s': "press_all [29, 42, 58, 170] small_machine = Some s'" by blast
  have "modifiers small_machine = (False, False)" by (simp add: modifiers_def small_machine_sel)
  from modifiers_follow_keys [OF s' this] s' show ?thesis by (simp add: held_def)
qed

section \<open>Exceptions and gates\<close>

text \<open>Every CPU exception except the page fault prints its message and ends the running process: the next task of the
  run queue is entered and the process is retired. The shell survives: its handler returns.\<close>

theorem exception_ends_process:
  assumes q: "queues s (t # ts) ds" and ar: "areas_ok s (runningThread s)" and n: "n < 22" "n \<noteq> 14"
  defines "msg \<equiv> kprintf (isr_messages ! n) (if n = 13 then [KNum (errorCode s)] else [])"
  shows "if pid_t (tasks s (runningThread s)) = 1
    then hndlr_isr n s = Some (Returned 0, kprintf ''killing sbush.... restarting....\<newline>'' [] (msg s))
    else \<exists>s'. hndlr_isr n s = Some (Entered, s') \<and> runningThread s' = t \<and> queues s' ts (ds @ [runningThread s]) \<and>
      task_state (tasks s' (runningThread s)) = 0"
proof -
  have f: "tasks (msg s) = tasks s" "runningThread (msg s) = runningThread s" "deleteQueue (msg s) = deleteQueue s"
    "vmas (msg s) = vmas s" by (simp_all add: msg_def kprintf_def)
  have q': "queues (msg s) (t # ts) ds" using q by (simp add: queues_def f)
  have ar': "areas_ok (msg s) (runningThread (msg s))" using ar by (simp add: areas_ok_def f)
  have h: "hndlr_isr n s = exit_then (msg s) returns" by (simp add: hndlr_isr_def msg_def)
  show ?thesis
  proof (cases "pid_t (tasks s (runningThread s)) = 1")
    case True
    then have "exit 0 (msg s) = Some (Returned 0, kprintf ''killing sbush.... restarting....\<newline>'' [] (msg s))"
      by (simp add: exit_def Let_def f)
    with True h show ?thesis by (simp add: exit_then_def returns_def)
  next
    case False
    with exit_ok [OF q' ar', of 0] h show ?thesis by (auto simp: exit_then_def f)
  qed
qed

theorem exception_ends_process_witness:
  "\<exists>s'. hndlr_isr 0 small_areas = Some (Entered, s') \<and> runningThread s' = 0x20 \<and> queues s' [0x30] [0x40, 0x10]"
  using exception_ends_process [OF small_areas_queues small_areas_ok, of 0]
  by (auto simp: small_areas_pid small_areas_sel(1) small_kernel_sel small_task_def zero_task_def)

lemma gate_base_split: "gate_base \<lparr>id_base_lo = ucast (b AND 0xFFFF), id_sel = x, id_always0 = y, id_flags = z,
    id_base_middle = ucast (drop_bit 16 b AND 0xFFFF), id_base_high = ucast (drop_bit 32 b AND 0xFFFFFFFF), id_always00 = w\<rparr> = b"
proof -
  have m: "(0xFFFF :: u64) = mask 16" "(0xFFFFFFFF :: u64) = mask 32" by (simp_all add: mask_eq_exp_minus_1)
  show ?thesis
    unfolding gate_base_def m idt_descriptor.simps
  proof (rule bit_word_eqI)
    fix n assume "n < LENGTH(64)"
    moreover have "32 + (n - 32) = n" if "\<not> n < 32" using that by simp
    ultimately show "bit (ucast (ucast (b AND mask 16) :: u16) OR push_bit 16 (ucast (ucast (drop_bit 16 b AND mask 16) :: u16)) OR
      push_bit 32 (ucast (ucast (drop_bit 32 b AND mask 32) :: u32)) :: u64) n = bit b n"
      by (cases "n < 16"; cases "n < 32") (auto simp: bit_simps)
  qed
qed

lemma fold_set_gate:
  "fold (\<lambda>n. id_set_gate n (h n) sel fl) ns idt v = (if v \<in> set ns then id_set_gate v (h v) sel fl idt v else idt v)"
proof (induction ns arbitrary: idt)
  case (Cons n ns)
  have "id_set_gate v (h v) sel fl (id_set_gate n (h n) sel fl idt) v = id_set_gate v (h v) sel fl idt v"
    by (simp add: id_set_gate_def)
  with Cons show ?case by (simp add: id_set_gate_def)
qed simp

text \<open>The entry point the table must have for a vector.\<close>

definition vector_handler :: "u64 \<Rightarrow> u64 \<Rightarrow> u64 \<Rightarrow> (u8 \<Rightarrow> u64) \<Rightarrow> u8 \<Rightarrow> u64 option" where
  "vector_handler rtc kb tm isr v = (if v < 22 then Some (isr v) else if v = 32 then Some tm else if v = 33 then Some kb
     else if v = 40 then Some rtc else None)"

text \<open>The interrupt table round-trips: after \<open>init_idt\<close> the CPU finds at vectors 0 to 21, 32, 33 and 40 a present interrupt gate of the
  kernel code segment whose three address pieces give back exactly the 64-bit entry point that was
  installed; every other vector is as it was.\<close>

theorem idt_gates_roundtrip:
  "case vector_handler rtc kb tm isr v of
     None \<Rightarrow> init_idt rtc kb tm isr idt v = idt v
   | Some h \<Rightarrow> gate_base (init_idt rtc kb tm isr idt v) = h \<and> id_sel (init_idt rtc kb tm isr idt v) = 8 \<and>
       id_flags (init_idt rtc kb tm isr idt v) = 0x8E"
proof -
  have "v \<in> set (map of_nat [0..<22]) \<longleftrightarrow> v < 22"
  proof
    assume "v < 22"
    then have "unat v < 22" by (simp add: word_less_nat_alt)
    then have "of_nat (unat v) \<in> set (map of_nat [0..<22] :: u8 list)" unfolding set_map set_upt by (intro imageI) simp
    then show "v \<in> set (map of_nat [0..<22])" by (simp del: upt_rec_numeral)
  next
    assume "v \<in> set (map of_nat [0..<22])"
    then obtain k where "k < 22" "v = of_nat k" by (auto simp del: upt_rec_numeral)
    then show "v < 22" by (simp add: word_less_nat_alt unat_of_nat)
  qed
  then have e: "init_idt rtc kb tm isr idt v = (if v < 22 then id_set_gate v (isr v) 8 0x8E idt v
      else id_set_gate 32 tm 8 0x8E (id_set_gate 33 kb 8 0x8E (id_set_gate 40 rtc 8 0x8E idt)) v)"
    unfolding init_idt_def fold_set_gate by (simp add: id_set_gate_def)
  have g: "gate_base (id_set_gate v b 8 0x8E idt' v) = b \<and> id_sel (id_set_gate v b 8 0x8E idt' v) = 8 \<and>
    id_flags (id_set_gate v b 8 0x8E idt' v) = 0x8E" for b idt'
    unfolding id_set_gate_def by (simp add: gate_base_split)
  have o: "id_set_gate x b 8 0x8E idt' v = idt' v" if "x \<noteq> v" for x b idt' using that by (simp add: id_set_gate_def)
  consider "v < 22" | "v = 32" | "v = 33" | "v = 40" | "\<not> v < 22" "v \<notin> {32, 33, 40}" by auto
  then show ?thesis unfolding e by cases (use g o in \<open>auto simp: vector_handler_def\<close>)
qed

end
