(* ===== verification/UserMem.thy ===== *)
theory UserMem
  imports Fault
begin

text \<open>
  Building the memory of a program: its pages are filled through the kernel's own mapping of memory while
  the address space of the program is not loaded. This theory holds the byte copies the loader uses (\<open>memcpy\<close> and \<open>memset_file\<close> of
  \<open>sys/tarfs.c\<close>, on physical memory) and the vocabulary for their effect: \<open>holds_page\<close>, what a page of an
  address space contains, and \<open>extends\<close>, that a step keeps every such page outside a given set.
\<close>

section \<open>Copying bytes\<close>

text \<open>\<open>b\<close> is the memory the source pointer reads, character by character; the target is physical memory.\<close>

fun memcpy :: "nat \<Rightarrow> (u64 \<Rightarrow> char) \<Rightarrow> u64 \<Rightarrow> u64 \<Rightarrow> 'a phys_scheme \<Rightarrow> 'a phys_scheme" where
  "memcpy 0 b src dest s = s"
| "memcpy (Suc n) b src dest s =
     memcpy n b (src + 1) (dest + 1) (s\<lparr>pmem := put_byte (k2p (kernbase s) dest) (of_char (b src)) (pmem s)\<rparr>)"

fun clear_bytes :: "nat \<Rightarrow> u64 \<Rightarrow> 'a phys_scheme \<Rightarrow> 'a phys_scheme" where
  "clear_bytes 0 dest s = s"
| "clear_bytes (Suc n) dest s = clear_bytes n (dest + 1) (s\<lparr>pmem := put_byte (k2p (kernbase s) dest) 0 (pmem s)\<rparr>)"

section \<open>Bytes of a frame\<close>

definition pbyte :: "(u64 \<Rightarrow> u64) \<Rightarrow> nat \<Rightarrow> nat \<Rightarrow> u8" where
  "pbyte m f j = get_byte (page_of f + of_nat j) m"

text \<open>The byte a program with the page tables \<open>r\<close> reads at an address.\<close>

definition user_byte :: "u64 \<Rightarrow> 'a phys_scheme \<Rightarrow> u64 \<Rightarrow> u8" where
  "user_byte r s a = get_byte ((getPhysicalPageAddr a r s AND FRAME) + (a AND 0xFFF)) (pmem s)"

lemma bit_FF: "bit (0xFF :: u64) n \<longleftrightarrow> n < 8"
proof -
  have "(0xFF :: u64) = mask 8" by (simp add: mask_eq_exp_minus_1)
  then have "bit (0xFF :: u64) n \<longleftrightarrow> bit (mask 8 :: u64) n" by (rule arg_cong)
  also have "\<dots> \<longleftrightarrow> n < 8" unfolding bit_mask_iff by auto
  finally show ?thesis .
qed

lemma bit_put_byte:
  assumes "n < 64"
  shows "bit (put_byte q b m w) n \<longleftrightarrow> (if w = q AND NOT 7 \<and> 8 * unat (q AND 7) \<le> n \<and> n < 8 * unat (q AND 7) + 8
     then bit b (n - 8 * unat (q AND 7)) else bit (m w) n)"
proof (cases "w = q AND NOT 7")
  case True
  have e: "put_byte q b m w = (m w AND NOT (push_bit (8 * unat (q AND 7)) 0xFF)) OR push_bit (8 * unat (q AND 7)) (ucast b)"
    by (simp add: put_byte_def Let_def True)
  have F: "bit (push_bit k (0xFF :: u64)) n \<longleftrightarrow> k \<le> n \<and> n < k + 8" for k
    using assms bit_FF [of "n - k"] unfolding bit_push_bit_iff by auto
  have U: "bit (push_bit k (ucast b :: u64)) n \<longleftrightarrow> k \<le> n \<and> bit b (n - k)" for k
    using assms unfolding bit_push_bit_iff by (auto simp: bit_ucast_iff)
  have B: "bit b (n - k) \<Longrightarrow> n - k < 8" for k using bit_imp_possible_bit [of b "n - k"] by simp
  show ?thesis unfolding e bit_or_iff bit_and_iff bit_not_iff F U using assms B [of "8 * unat (q AND 7)"] True by auto
qed (simp add: put_byte_def Let_def)
lemma low_bits: "unat (p AND 7 :: u64) \<le> 7"
  using word_and_le1 [of p 7] by (simp add: word_le_nat_alt)

lemma bit_get_byte: "i < 8 \<Longrightarrow> bit (get_byte p m) i \<longleftrightarrow> bit (m (p AND NOT 7)) (8 * unat (p AND 7) + i)"
  by (simp add: get_byte_def bit_simps add.commute)

lemma get_put_byte: "get_byte p (put_byte q b m) = (if p = q then b else get_byte p m)"
proof (rule bit_word_eqI)
  fix i assume "i < LENGTH(8)"
  then have i: "i < 8" by simp
  have lt: "8 * unat (p AND 7) + i < 64" using i low_bits [of p] by linarith
  show "bit (get_byte p (put_byte q b m)) i = bit (if p = q then b else get_byte p m) i"
  proof (cases "p = q")
    case True
    with i lt show ?thesis by (simp only: bit_get_byte bit_put_byte) simp
  next
    case False
    have split: "x = (x AND NOT 7) OR (x AND 7)" for x :: u64 by (rule bit_word_eqI) (auto simp: bit_simps)
    have "unat (p AND 7) \<noteq> unat (q AND 7)" if "p AND NOT 7 = q AND NOT 7"
      using that False split [of p] split [of q] by (metis word_unat_eq_iff)
    then have "\<not> (p AND NOT 7 = q AND NOT 7 \<and> 8 * unat (q AND 7) \<le> 8 * unat (p AND 7) + i \<and>
        8 * unat (p AND 7) + i < 8 * unat (q AND 7) + 8)" using i by linarith
    then show ?thesis using i False by (simp only: bit_get_byte bit_put_byte [OF lt] if_False)
  qed
qed

lemma put_byte_other: "w \<noteq> q AND NOT 7 \<Longrightarrow> put_byte q b m w = m w"
  by (simp add: put_byte_def Let_def)

text \<open>Where a byte of a frame is.\<close>

lemma unat_page_byte: "f < 65536 \<Longrightarrow> j < 4096 \<Longrightarrow> unat (page_of f + of_nat j) = 4096 * f + j"
  by (subst unat_add_64) (simp_all add: unat_page_of unat_of_nat take_bit_nat_eq_self)

lemma page_byte_inj:
  assumes "f < 65536" "g < 65536" "i < 4096" "j < 4096"
  shows "page_of f + of_nat i = page_of g + of_nat j \<longleftrightarrow> f = g \<and> i = j"
proof -
  have "page_of f + of_nat i = page_of g + of_nat j \<longleftrightarrow> 4096 * f + i = 4096 * g + j"
    using assms by (simp add: word_unat_eq_iff unat_page_byte)
  also have "\<dots> \<longleftrightarrow> f = g \<and> i = j"
  proof
    assume e: "4096 * f + i = 4096 * g + j"
    have "(4096 * f + i) div 4096 = f" "(4096 * g + j) div 4096 = g" using assms by auto
    with e have "f = g" by simp
    with e show "f = g \<and> i = j" by simp
  qed simp
  finally show ?thesis .
qed

lemma mask_7: "NOT (7 :: u64) = NOT (mask 3)"
  by (simp add: mask_eq_exp_minus_1)

lemma len_u64: "LENGTH(64) = 64"
  by simp

lemma push_drop_3:
  assumes "x < 2 ^ 63"
  shows "take_bit 64 (push_bit 3 (drop_bit 3 x)) = 8 * (x div 8 :: nat)"
proof -
  have "push_bit 3 (drop_bit 3 x) = 8 * (x div 8)" by (simp add: drop_bit_eq_div push_bit_eq_mult)
  moreover have "8 * (x div 8) \<le> x" by simp
  then have "8 * (x div 8) < 2 ^ 64" using assms by simp
  ultimately show ?thesis by (simp only: take_bit_nat_eq_self)
qed

lemma page_byte_slot:
  assumes "f < 65536" "j < 4096"
  shows "(page_of f + of_nat j) AND NOT 7 = slot f (of_nat (j div 8))"
proof -
  have "x AND NOT 7 = push_bit 3 (drop_bit 3 x)" for x :: u64
    unfolding mask_7 by (rule bit_word_eqI) (auto simp: bit_simps)
  then have "unat ((page_of f + of_nat j) AND NOT 7) = unat (push_bit 3 (drop_bit 3 (page_of f + of_nat j :: u64)))"
    by (simp only:)
  also have "\<dots> = take_bit 64 (push_bit 3 (drop_bit 3 (4096 * f + j)))"
    by (simp only: unsigned_push_bit_eq unat_drop_bit_eq unat_page_byte [OF assms] len_u64)
  also have "\<dots> = 8 * ((4096 * f + j) div 8)" by (rule push_drop_3) (use assms in simp)
  also have "\<dots> = 4096 * f + 8 * (j div 8)"
    using div_mult_self1 [of 8 j "512 * f"] by (simp add: add.commute)
  also have "\<dots> = unat (slot f (of_nat (j div 8)))"
  proof -
    have "unat (of_nat (j div 8) :: u64) = j div 8" "j div 8 < 512"
      using assms(2) by (simp_all add: unat_of_nat take_bit_nat_eq_self)
    then show ?thesis using assms(1) unat_slot [of f "of_nat (j div 8)"] by (simp add: word_less_nat_alt)
  qed
  finally show ?thesis by (simp add: word_unat_eq_iff)
qed

lemma k2p_byte:
  assumes "f < 65536" "j < 4096"
  shows "k2p KERNBASE (page_of f + KERNBASE + of_nat j) = page_of f + of_nat j"
proof -
  have "page_of f + KERNBASE + of_nat j = (page_of f + of_nat j) + KERNBASE" by simp
  moreover have "unat (page_of f + of_nat j) < 2 ^ 31" using assms by (simp add: unat_page_byte)
  ultimately show ?thesis using k2p_direct(1) by metis
qed

lemma pbyte_slots:
  assumes "f < 65536" "j < 4096" and "\<And>k. k < 512 \<Longrightarrow> m' (slot f k) = m (slot f k)"
  shows "pbyte m' f j = pbyte m f j"
proof -
  have "of_nat (j div 8) < (512 :: u64)" using assms(2) by (simp add: word_less_nat_alt unat_of_nat take_bit_nat_eq_self)
  then show ?thesis using assms(3) unfolding pbyte_def get_byte_def page_byte_slot [OF assms(1,2)] by simp
qed

section \<open>Copying into a frame\<close>

text \<open>A write to physical memory that only touches the bytes of one frame.\<close>

definition frame_write :: "nat \<Rightarrow> 'a phys_scheme \<Rightarrow> 'a phys_scheme \<Rightarrow> bool" where
  "frame_write g s s' \<longleftrightarrow> s' = s\<lparr>pmem := pmem s'\<rparr> \<and>
     (\<forall>h k. h < 65536 \<and> h \<noteq> g \<and> k < 512 \<longrightarrow> pmem s' (slot h k) = pmem s (slot h k))"

lemma frame_write_refl [simp]: "frame_write g s s"
  by (simp add: frame_write_def)

lemma frame_write_trans:
  assumes "frame_write g s s'" and "frame_write g s' s''"
  shows "frame_write g s s''"
proof -
  have "s'' = s\<lparr>pmem := pmem s''\<rparr>" using assms unfolding frame_write_def by (metis phys.surjective phys.update_convs(9))
  with assms show ?thesis by (simp add: frame_write_def)
qed

lemma put_byte_frame:
  assumes "g < 65536" "j < 4096" "h < 65536" "k < 512" "h \<noteq> g"
  shows "put_byte (page_of g + of_nat j) b m (slot h k) = m (slot h k)"
proof (rule put_byte_other)
  have "of_nat (j div 8) < (512 :: u64)" using assms(2) by (simp add: word_less_nat_alt unat_of_nat take_bit_nat_eq_self)
  then show "slot h k \<noteq> (page_of g + of_nat j) AND NOT 7"
    unfolding page_byte_slot [OF assms(1,2)] using assms by (simp add: slot_inj)
qed

lemma frame_write_put:
  assumes "g < 65536" "j < 4096"
  shows "frame_write g s (s\<lparr>pmem := put_byte (page_of g + of_nat j) b (pmem s)\<rparr>)"
  using put_byte_frame [OF assms] by (simp add: frame_write_def)

lemma pbyte_put:
  assumes "g < 65536" "i < 4096" "j < 4096"
  shows "pbyte (put_byte (page_of g + of_nat i) b m) g j = (if j = i then b else pbyte m g j)"
  using assms page_byte_inj [of g g j i] by (simp add: pbyte_def get_put_byte)

lemma memcpy_frame:
  fixes b :: "u64 \<Rightarrow> char" and src :: u64
  assumes "g < 65536" "kernbase s = KERNBASE" "i + n \<le> 4096"
  defines "s' \<equiv> memcpy n b src (page_of g + KERNBASE + of_nat i) s"
  shows "frame_write g s s' \<and>
    (\<forall>j < 4096. pbyte (pmem s') g j = (if i \<le> j \<and> j < i + n then of_char (b (src + of_nat (j - i))) else pbyte (pmem s) g j))"
  using assms(2,3) unfolding s'_def
proof (induction n arbitrary: s i src)
  case (Suc n)
  let ?s = "s\<lparr>pmem := put_byte (page_of g + of_nat i) (of_char (b src)) (pmem s)\<rparr>"
  have i: "i < 4096" using Suc.prems by simp
  have d: "page_of g + KERNBASE + of_nat i + 1 = page_of g + KERNBASE + of_nat (Suc i)" by simp
  have e: "memcpy (Suc n) b src (page_of g + KERNBASE + of_nat i) s = memcpy n b (src + 1) (page_of g + KERNBASE + of_nat (Suc i)) ?s"
    by (simp only: memcpy.simps Suc.prems(1) k2p_byte [OF assms(1) i] d)
  have IH: "frame_write g ?s (memcpy n b (src + 1) (page_of g + KERNBASE + of_nat (Suc i)) ?s)"
    "\<And>j. j < 4096 \<Longrightarrow> pbyte (pmem (memcpy n b (src + 1) (page_of g + KERNBASE + of_nat (Suc i)) ?s)) g j =
      (if Suc i \<le> j \<and> j < Suc i + n then of_char (b (src + 1 + of_nat (j - Suc i))) else pbyte (pmem ?s) g j)"
    using Suc.IH [of ?s "Suc i" "src + 1"] Suc.prems by simp_all
  have "pbyte (pmem ?s) g j = (if j = i then of_char (b src) else pbyte (pmem s) g j)" if "j < 4096" for j
    using pbyte_put [OF assms(1) i that] by simp
  moreover have "src + 1 + of_nat (j - Suc i) = src + of_nat (j - i)" if "Suc i \<le> j" for j
    using that by (simp add: of_nat_diff)
  ultimately have "pbyte (pmem (memcpy n b (src + 1) (page_of g + KERNBASE + of_nat (Suc i)) ?s)) g j =
      (if i \<le> j \<and> j < i + Suc n then of_char (b (src + of_nat (j - i))) else pbyte (pmem s) g j)" if "j < 4096" for j
    using IH(2) [OF that] that by auto
  with IH(1) show ?case
    unfolding e using frame_write_trans [OF frame_write_put [OF assms(1) i]] by blast
qed auto

lemma clear_bytes_frame:
  assumes "g < 65536" "kernbase s = KERNBASE" "i + n \<le> 4096"
  defines "s' \<equiv> clear_bytes n (page_of g + KERNBASE + of_nat i) s"
  shows "frame_write g s s' \<and>
    (\<forall>j < 4096. pbyte (pmem s') g j = (if i \<le> j \<and> j < i + n then 0 else pbyte (pmem s) g j))"
  using assms(2,3) unfolding s'_def
proof (induction n arbitrary: s i)
  case (Suc n)
  let ?s = "s\<lparr>pmem := put_byte (page_of g + of_nat i) 0 (pmem s)\<rparr>"
  have i: "i < 4096" using Suc.prems by simp
  have d: "page_of g + KERNBASE + of_nat i + 1 = page_of g + KERNBASE + of_nat (Suc i)" by simp
  have e: "clear_bytes (Suc n) (page_of g + KERNBASE + of_nat i) s = clear_bytes n (page_of g + KERNBASE + of_nat (Suc i)) ?s"
    by (simp only: clear_bytes.simps Suc.prems(1) k2p_byte [OF assms(1) i] d)
  have "pbyte (pmem ?s) g j = (if j = i then 0 else pbyte (pmem s) g j)" if "j < 4096" for j
    using pbyte_put [OF assms(1) i that] by simp
  then show ?case
    unfolding e using Suc.IH [of ?s "Suc i"] Suc.prems frame_write_trans [OF frame_write_put [OF assms(1) i]] by auto
qed auto

section \<open>The contents of a page\<close>

text \<open>
  The page of \<open>v\<close> in the address space \<open>r\<close> is the frame \<open>g\<close>, mapped for the user, which is no page table
  and holds the bytes \<open>c\<close>.
\<close>

definition holds_page :: "u64 \<Rightarrow> u64 \<Rightarrow> (nat \<Rightarrow> u8) \<Rightarrow> nat \<Rightarrow> 'a phys_scheme \<Rightarrow> bool" where
  "holds_page r v c g s \<longleftrightarrow> g \<in> used_frames s \<and> no_table (pmem s) r g \<and>
     leaf_entry (pmem s) r v = page_of g OR leaf_flags 1 \<and> (\<forall>j < 4096. pbyte (pmem s) g j = c j)"

text \<open>
  A step that keeps the tree of \<open>r\<close> well formed and all its pages except those of the addresses \<open>V\<close> and those in the frames \<open>F\<close>.
\<close>

definition extends :: "u64 \<Rightarrow> u64 set \<Rightarrow> nat set \<Rightarrow> 'a phys_scheme \<Rightarrow> 'a phys_scheme \<Rightarrow> bool" where
  "extends r V F s s' \<longleftrightarrow> vm_ok s' \<and> wf_tree (pmem s') r (used_frames s') \<and> used_frames s \<subseteq> used_frames s' \<and>
     (\<forall>v c g. (\<forall>x \<in> V. \<not> same_page v x) \<and> g \<notin> F \<and> holds_page r v c g s \<longrightarrow> holds_page r v c g s')"

lemma extendsD:
  "extends r V F s s' \<Longrightarrow> holds_page r v c g s \<Longrightarrow> g \<notin> F \<Longrightarrow> (\<And>x. x \<in> V \<Longrightarrow> \<not> same_page v x) \<Longrightarrow> holds_page r v c g s'"
  unfolding extends_def by blast

lemma extends_ok:
  "extends r V F s s' \<Longrightarrow> vm_ok s'" "extends r V F s s' \<Longrightarrow> wf_tree (pmem s') r (used_frames s')"
  "extends r V F s s' \<Longrightarrow> used_frames s \<subseteq> used_frames s'"
  by (simp_all add: extends_def)

lemma extends_refl: "vm_ok s \<Longrightarrow> wf_tree (pmem s) r (used_frames s) \<Longrightarrow> extends r V F s s"
  by (simp add: extends_def)

text \<open>Frames that were free at the start do not matter.\<close>

lemma extends_trans:
  assumes "extends r V F s s'" and "extends r V' F' s' s''" and "F' \<inter> used_frames s \<subseteq> F"
  shows "extends r (V \<union> V') F s s''"
  unfolding extends_def
proof (intro conjI allI impI; (elim conjE)?)
  show "vm_ok s''" "wf_tree (pmem s'') r (used_frames s'')" "used_frames s \<subseteq> used_frames s''"
    using assms(1,2) unfolding extends_def by blast+
  fix v c g assume a: "\<forall>x \<in> V \<union> V'. \<not> same_page v x" "g \<notin> F" "holds_page r v c g s"
  have "g \<in> used_frames s" using a(3) by (simp add: holds_page_def)
  with a(2) assms(3) have "g \<notin> F'" by blast
  have "holds_page r v c g s'" by (rule extendsD [OF assms(1) a(3,2)]) (use a(1) in blast)
  then show "holds_page r v c g s''" by (rule extendsD [OF assms(2) _ \<open>g \<notin> F'\<close>]) (use a(1) in blast)
qed

lemma extends_cong:
  assumes "extends r V F s s'" and "pmem s'' = pmem s'" and "free_frames s'' = free_frames s'" and "vm_ok s'' = vm_ok s'"
  shows "extends r V F s s''"
proof -
  have u: "used_frames s'' = used_frames s'" using assms(3) by (simp add: used_frames_def)
  show ?thesis using assms(1) unfolding extends_def holds_page_def assms(2,4) u .
qed

lemma extends_from:
  assumes "extends r V F s s'" and "pmem s = pmem s0" and "free_frames s = free_frames s0"
  shows "extends r V F s0 s'"
proof -
  have u: "used_frames s = used_frames s0" using assms(3) by (simp add: used_frames_def)
  show ?thesis using assms(1) unfolding extends_def holds_page_def assms(2) u .
qed

lemma used_frame_bound: "g \<in> used_frames s \<Longrightarrow> g < 65536"
  by (simp add: used_frames_def)

lemma holds_page_kept:
  assumes "holds_page r v c g s" and "same_tree r (pmem s) (pmem s')" and "used_frames s \<subseteq> used_frames s'"
    and "\<And>k. k < 512 \<Longrightarrow> pmem s' (slot g k) = pmem s (slot g k)"
  shows "holds_page r v c g s'"
proof -
  have g: "g < 65536" using assms(1) used_frame_bound by (auto simp: holds_page_def)
  have "pbyte (pmem s') g j = pbyte (pmem s) g j" if "j < 4096" for j by (rule pbyte_slots [OF g that]) (rule assms(4))
  with assms show ?thesis
    by (auto simp: holds_page_def same_tree_leaf_entry no_table_same)
qed

text \<open>The steps: a fresh frame, a mapping, a write to a data frame.\<close>

lemma extends_kmalloc:
  assumes "vm_ok s" "free_frames s \<noteq> {}" "wf_tree (pmem s) r (used_frames s)" "kmalloc s = (p, s')"
  shows "\<exists>g \<in> free_frames s. p = page_of g + KERNBASE \<and> g < 65536 \<and> g \<in> used_frames s' \<and> no_table (pmem s') r g \<and>
    (\<forall>j < 4096. pbyte (pmem s') g j = 0) \<and> free_frames s' = free_frames s - {g} \<and> extends r {} {} s s'"
proof -
  obtain g where g: "g \<in> free_frames s" "g < 65536" "p = page_of g + KERNBASE" "vm_ok s'"
    "g \<in> used_frames s'" "free_frames s' = free_frames s - {g}" "used_frames s \<subseteq> used_frames s'"
    "\<And>h j. h < 65536 \<Longrightarrow> j < 512 \<Longrightarrow> pmem s' (slot h j) = (if h = g then 0 else pmem s (slot h j))"
    "\<And>r. wf_tree (pmem s) r (used_frames s) \<Longrightarrow>
       same_tree r (pmem s) (pmem s') \<and> wf_tree (pmem s') r (used_frames s') \<and> no_table (pmem s') r g"
    using kmalloc_tree [OF assms(1,2,4)] by blast
  have "pbyte (pmem s') g j = 0" if "j < 4096" for j
  proof -
    have "pbyte (pmem s') g j = pbyte (\<lambda>_. 0) g j" by (rule pbyte_slots [OF g(2) that]) (simp add: g(2,8))
    then show ?thesis by (simp add: pbyte_def get_byte_def)
  qed
  moreover have "holds_page r v c h s'" if h: "holds_page r v c h s" for v c h
  proof (rule holds_page_kept [OF h])
    have "h \<in> used_frames s" using h by (simp add: holds_page_def)
    then have "h \<noteq> g" "h < 65536" using g(1) by (auto simp: used_frames_def)
    then show "pmem s' (slot h k) = pmem s (slot h k)" if "k < 512" for k using that g(8) by simp
  qed (use g(7,9) assms(3) in blast)+
  ultimately show ?thesis
    using g assms(3) by (intro bexI [of _ g]) (auto simp: extends_def)
qed

lemma extends_mapped:
  assumes "mapped r v x s s'"
  shows "extends r {v} {} s s'"
proof -
  have m: "vm_ok s'" "wf_tree (pmem s') r (used_frames s')" "data_kept r s s'"
    "\<And>w. leaf_entry (pmem s') r w = (if same_page w v then x else leaf_entry (pmem s) r w) \<or>
        \<not> same_page w v \<and> leaf_entry (pmem s) r w = - 1 \<and> leaf_entry (pmem s') r w = 0"
    using assms by (simp_all only: mapped_def)
  have "holds_page r w c g s'" if "\<not> same_page w v" "holds_page r w c g s" for w c g
  proof -
    from that(2) have g: "g \<in> used_frames s" "no_table (pmem s) r g" "leaf_entry (pmem s) r w = page_of g OR leaf_flags 1"
      "\<And>j. j < 4096 \<Longrightarrow> pbyte (pmem s) g j = c j" by (simp_all add: holds_page_def)
    have d: "g \<in> used_frames s'" "no_table (pmem s') r g" "\<And>k. k < 512 \<Longrightarrow> pmem s' (slot g k) = pmem s (slot g k)"
      using m(3) g(1,2) by (auto simp: data_kept_def)
    have "leaf_entry (pmem s) r w \<noteq> - 1"
    proof
      assume "leaf_entry (pmem s) r w = - 1"
      with g(3) have "(page_of g OR leaf_flags 1) AND FRAME = - 1 AND FRAME" by simp
      then have "page_of g = FRAME" by (simp add: leaf_flags_user)
      moreover have "unat (page_of g) < 2 ^ 31" using used_frame_bound [OF g(1)] by (simp add: unat_page_of)
      ultimately show False by (simp add: FRAME_def)
    qed
    with m(4) [of w] that(1) g(3) have "leaf_entry (pmem s') r w = page_of g OR leaf_flags 1" by auto
    moreover have "pbyte (pmem s') g j = c j" if "j < 4096" for j
      using pbyte_slots [OF used_frame_bound [OF g(1)] that, of "pmem s'" "pmem s"] d(3) g(4) [OF that] by simp
    ultimately show ?thesis using d by (simp add: holds_page_def)
  qed
  with m(1-3) show ?thesis by (simp add: extends_def data_kept_def)
qed

lemma extends_write:
  assumes "frame_write g s s'" and "vm_ok s" and "wf_tree (pmem s) r (used_frames s)" and "no_table (pmem s) r g"
  shows "extends r {} {g} s s'" and "no_table (pmem s') r g" and "free_frames s' = free_frames s"
    and "leaf_entry (pmem s') r v = leaf_entry (pmem s) r v"
proof -
  have e: "s' = s\<lparr>pmem := pmem s'\<rparr>" and W: "\<And>h k. h < 65536 \<Longrightarrow> h \<noteq> g \<Longrightarrow> k < 512 \<Longrightarrow> pmem s' (slot h k) = pmem s (slot h k)"
    using assms(1) by (simp_all add: frame_write_def)
  have st: "same_tree r (pmem s) (pmem s')" by (rule data_write_tree [OF assms(3,4) W])
  have f: "free_frames s' = free_frames s" "used_frames s' = used_frames s" "vm_ok s' = vm_ok s" by (subst e, simp)+
  have "holds_page r v c h s'" if "h \<noteq> g" "holds_page r v c h s" for v c h
  proof (rule holds_page_kept [OF that(2) st])
    have "h < 65536" using that(2) used_frame_bound by (auto simp: holds_page_def)
    then show "pmem s' (slot h k) = pmem s (slot h k)" if "k < 512" for k using that \<open>h \<noteq> g\<close> W by simp
  qed (simp add: f)
  then show "extends r {} {g} s s'"
    using same_tree_wf [OF st assms(3)] assms(2) by (simp add: extends_def f)
  show "no_table (pmem s') r g" "leaf_entry (pmem s') r v = leaf_entry (pmem s) r v"
    using assms(4) st by (simp_all add: no_table_same same_tree_leaf_entry)
  show "free_frames s' = free_frames s" by (rule f)
qed

lemma user_byte_page:
  assumes "vm_ok s" and "wf_tree (pmem s) r (used_frames s)" and "holds_page r a c g s"
  shows "user_byte r s a = c (unat (a AND 0xFFF))"
proof -
  have "unat (a AND 0xFFF) < 4096"
  proof -
    have "a AND 0xFFF = take_bit 12 a" by (simp add: take_bit_eq_mask mask_eq_exp_minus_1)
    then show ?thesis by (simp add: unsigned_take_bit_eq take_bit_nat_less_exp [of 12, simplified])
  qed
  then have "pbyte (pmem s) g (unat (a AND 0xFFF)) = c (unat (a AND 0xFFF))" using assms(3) by (simp add: holds_page_def)
  moreover have "getPhysicalPageAddr a r s AND FRAME = page_of g"
    using assms(3) walk_leaf_entry [OF assms(1,2)] by (simp add: holds_page_def leaf_flags_user)
  ultimately show ?thesis by (simp add: user_byte_def pbyte_def)
qed

lemma extends_mono: "extends r V F s s' \<Longrightarrow> V \<subseteq> V' \<Longrightarrow> extends r V' F s s'"
  unfolding extends_def by blast

section \<open>A new page\<close>

lemma frame_write_phys: "frame_write g s s' \<Longrightarrow> phys_only s s'"
  unfolding frame_write_def phys_only_def by (metis phys.surjective phys.update_convs(1,9))

lemma kernbase_ok: "vm_ok s \<Longrightarrow> kernbase s = KERNBASE"
  by (simp add: vm_ok_def)

lemma new_page:
  fixes s :: "'a phys_scheme"
  assumes ok: "vm_ok s" and wf: "wf_tree (pmem s) r (used_frames s)" and c: "4 \<le> card (free_frames s)"
  shows "\<exists>g s1 s2. g \<in> free_frames s \<and> pageAllocator s = (page_of g, s1) \<and> kernbase s1 = KERNBASE \<and>
    s2 = mapPageForUser v (page_of g) (r + KERNBASE) (memset (page_of g + KERNBASE) s1) \<and>
    holds_page r v (\<lambda>_. 0) g s2 \<and> extends r {v} {} s s2 \<and> phys_only s s2 \<and> card (free_frames s) \<le> card (free_frames s2) + 4"
proof -
  obtain phy s1 where a: "pageAllocator s = (phy, s1)" by fastforce
  have ne: "free_frames s \<noteq> {}" using c by auto
  have "phys_only s s1" using phys_only_alloc [of s] a by simp
  then have kb: "kernbase s1 = KERNBASE" using kernbase_ok [OF ok] unfolding phys_only_def by (metis phys.select_convs(8) phys.surjective phys.update_convs(1,9))
  have k: "kmalloc s = (phy + KERNBASE, memset (phy + KERNBASE) s1)" by (simp add: kmalloc_def a kb Let_def)
  obtain g where g: "g \<in> free_frames s" "phy = page_of g" "g < 65536" "g \<in> used_frames (memset (phy + KERNBASE) s1)"
    "no_table (pmem (memset (phy + KERNBASE) s1)) r g" "\<forall>j < 4096. pbyte (pmem (memset (phy + KERNBASE) s1)) g j = 0"
    "free_frames (memset (phy + KERNBASE) s1) = free_frames s - {g}" "extends r {} {} s (memset (phy + KERNBASE) s1)"
    using extends_kmalloc [OF ok ne wf k] by auto
  let ?a = "memset (phy + KERNBASE) s1"
  define s2 where "s2 = mapPageForUser v (page_of g) (r + KERNBASE) ?a"
  have c3: "3 \<le> card (free_frames ?a)" using c g(1,7) by simp
  have m: "mapped r v (page_of g OR leaf_flags 1) ?a s2"
    unfolding s2_def mapPageForUser_force by (rule forceMapPage_ok [OF extends_ok(1,2) [OF g(8)] c3])
  have x: "extends r {v} {} ?a s2" by (rule extends_mapped [OF m])
  have d: "data_kept r ?a s2" and cc: "card (free_frames ?a) \<le> 3 + card (free_frames s2)" using m by (simp_all add: mapped_def)
  have "holds_page r v (\<lambda>_. 0) g s2"
  proof -
    have "g \<in> used_frames s2" "no_table (pmem s2) r g" "\<And>k. k < 512 \<Longrightarrow> pmem s2 (slot g k) = pmem ?a (slot g k)"
      using d g(4,5) by (auto simp: data_kept_def)
    moreover have "pbyte (pmem s2) g j = 0" if "j < 4096" for j
      using pbyte_slots [OF g(3) that, of "pmem s2" "pmem ?a"] calculation(3) g(6) that by simp
    ultimately show ?thesis using mapped_leaf [OF m] by (simp add: holds_page_def)
  qed
  moreover have "phys_only s s2"
    unfolding s2_def using phys_only_trans [OF phys_only_trans [OF \<open>phys_only s s1\<close> phys_only_memset] phys_only_map] .
  moreover have "extends r {v} {} s s2" using extends_trans [OF g(8) x] by simp
  moreover have "card (free_frames s) \<le> card (free_frames s2) + 4"
    using cc g(1,7) by (simp add: card_Diff_singleton)
  ultimately show ?thesis
    using a g(1,2) kb s2_def by blast
qed

section \<open>Pages of a range\<close>

definition page_addr :: "u64 \<Rightarrow> nat \<Rightarrow> u64" where "page_addr v k = v + of_nat (4096 * k)"

lemma page_addr_0 [simp]: "page_addr v 0 = v"
  by (simp add: page_addr_def)

lemma page_addr_Suc: "page_addr (v + 0x1000) k = page_addr v (Suc k)"
  by (simp add: page_addr_def algebra_simps)

lemma page_number:
  assumes "k < 2 ^ 20"
  shows "unat (take_bit 36 (drop_bit 12 (page_addr v k))) = (unat v div 4096 + k) mod 2 ^ 36"
proof -
  have k: "unat (of_nat (4096 * k) :: u64) = 4096 * k"
    using assms by (simp add: unat_of_nat take_bit_nat_eq_self del: of_nat_mult)
  have "unat (page_addr v k) = take_bit 64 (unat v + 4096 * k)"
    unfolding page_addr_def unat_word_ariths(1) k by (simp add: take_bit_eq_mod)
  then have "unat (take_bit 36 (drop_bit 12 (page_addr v k))) = take_bit 36 (drop_bit 12 (take_bit 64 (unat v + 4096 * k)))"
    by (simp only: unsigned_take_bit_eq unat_drop_bit_eq)
  also have "\<dots> = take_bit 36 (drop_bit 12 (unat v + 4096 * k))"
    by (simp add: drop_bit_take_bit)
  also have "drop_bit 12 (unat v + 4096 * k) = unat v div 4096 + k"
    by (simp add: drop_bit_eq_div)
  finally show ?thesis by (simp add: take_bit_eq_mod)
qed

lemma mod_add_cancel:
  assumes "(a + k) mod N = (a + k') mod N" and "k < N" "k' < (N :: nat)"
  shows "k = k'"
proof -
  have *: "x = y" if "(a + x) mod N = (a + y) mod N" "x \<le> y" "y < N" for x y
  proof -
    have "N dvd (a + y) - (a + x)" using that(1,2) mod_eq_dvd_iff_nat [of "a + x" "a + y" N] by simp
    then have "N dvd y - x" by simp
    with that(2,3) show ?thesis by (auto dest: dvd_imp_le)
  qed
  show ?thesis using *[of k k'] *[of k' k] assms by (cases "k \<le> k'") auto
qed

lemma same_page_addr:
  assumes "k < 2 ^ 20" "k' < 2 ^ 20"
  shows "same_page (page_addr v k) (page_addr v k') \<longleftrightarrow> k = k'"
proof
  assume "same_page (page_addr v k) (page_addr v k')"
  then have "(unat v div 4096 + k) mod 2 ^ 36 = (unat v div 4096 + k') mod 2 ^ 36"
    unfolding same_page_def page_number [OF assms(1), symmetric] page_number [OF assms(2), symmetric] by (rule arg_cong)
  then show "k = k'" by (rule mod_add_cancel) (use assms in simp_all)
qed (simp add: same_page_def)

end
