(* ===== verification/Env.thy ===== *)
theory Env
  imports Tar Irq UserMem
begin

text \<open>
  The environment of a process (\<open>sys/tarfs.c\<close>, system calls 53, 54, 55, 79 and 80): one page for
  each variable from address 0x302000 on, each holding \<open>NAME=value\<close>, ended by a page that starts
  with NUL. The specification \<open>environ\<close> is the list of the variables; the lemmas show that
  \<open>getenv\<close> looks a name up in it and \<open>setenv\<close> updates it, so that the area is a finite map (contract \<open>env_store\<close>).
\<close>

section \<open>State\<close>

record fileDescriptor =
  fd_num :: u64
  fd_start :: u64
  offset :: u64
  d_prev_dir :: "nat \<Rightarrow> char"
  fd_name :: "nat \<Rightarrow> char"
  d_dirp :: u64

definition zero_fd :: fileDescriptor where
  "zero_fd = \<lparr>fd_num = 0, fd_start = 0, offset = 0, d_prev_dir = (\<lambda>_. CHR 0x00), fd_name = (\<lambda>_. CHR 0x00), d_dirp = 0\<rparr>"

text \<open>
  \<open>bytes\<close> is the memory the running task sees, character by character: the archive in the kernel's image and the
  user pages that hold text. \<open>fds\<close> are the file descriptors, by address.
\<close>

record fs = machine +
  bytes :: "u64 \<Rightarrow> char"
  fds :: "u64 \<Rightarrow> fileDescriptor"
  BINARY_TARFS_START :: u64
  BINARY_TARFS_END :: u64

abbreviation ENVIRON :: u64 where "ENVIRON \<equiv> 0x302000"

text \<open>Storing a string, character by character.\<close>

primrec store_str :: "u64 \<Rightarrow> string \<Rightarrow> (u64 \<Rightarrow> char) \<Rightarrow> u64 \<Rightarrow> char" where
  "store_str a [] m = m"
| "store_str a (c # cs) m = store_str (a + 1) cs (m(a := c))"

section \<open>Reading the environment\<close>

text \<open>The loop \<open>while (env_entry[arg_i] != '=')\<close>.\<close>

partial_function (option) until_eq :: "(u64 \<Rightarrow> char) \<Rightarrow> u64 \<Rightarrow> string option" where
  "until_eq m a =
     (if m a = CHR ''='' then Some [] else Option.bind (until_eq m (a + 1)) (\<lambda>cs. Some (m a # cs)))"

text \<open>
  The loop of \<open>getenv\<close>, \<open>getCWD\<close> and \<open>getPATH\<close> over the entries. It gives whether the name is found, and the
  address \<open>env_entry+arg_i\<close> behind the \<open>=\<close> of the last entry looked at. The characters before the \<open>=\<close> are copied into
  \<open>temp[256]\<close> with a NUL behind them; more than 255 of them overrun the array, which has no value.
\<close>

partial_function (option) env_scan ::
    "(u64 \<Rightarrow> char) \<Rightarrow> string \<Rightarrow> u64 \<Rightarrow> u64 \<Rightarrow> (bool \<times> u64) option" where
  "env_scan m name p a =
     (if m p \<noteq> CHR 0x00
      then Option.bind (until_eq m p) (\<lambda>t.
        let a' = p + of_nat (length t) + 1 in
        if 256 \<le> length t then None
        else if strcmp (takeWhile (\<lambda>c. c \<noteq> CHR 0x00) t) name = 0 then Some (True, a')
        else env_scan m name (p + 0x1000) a')
      else Some (False, a))"

definition getenv :: "(u64 \<Rightarrow> char) \<Rightarrow> string \<Rightarrow> u64 option" where
  "getenv m name = map_option (\<lambda>(found, a). if found then a else NULL) (env_scan m name ENVIRON 0)"

text \<open>
  The copy of a value into the array \<open>dest\<close>: \<open>count\<close> is decremented after each character and tested for 0.
\<close>

partial_function (option) copy_value ::
    "(u64 \<Rightarrow> char) \<Rightarrow> u64 \<Rightarrow> nat \<Rightarrow> i32 \<Rightarrow> (nat \<Rightarrow> char) \<Rightarrow> (nat \<Rightarrow> char) option" where
  "copy_value m a i count dest =
     (if m a \<noteq> CHR 0x00
      then if count - 1 = 0 then Some (dest(i := m a))
           else copy_value m (a + 1) (i + 1) (count - 1) (dest(i := m a))
      else Some (if 1 < sint count then dest(i := CHR 0x00) else dest))"

definition get_variable :: "string \<Rightarrow> (u64 \<Rightarrow> char) \<Rightarrow> (nat \<Rightarrow> char) \<Rightarrow> i32 \<Rightarrow> (u64 \<times> (nat \<Rightarrow> char)) option" where
  "get_variable name m dest count =
     Option.bind (env_scan m name ENVIRON 0) (\<lambda>(found, a).
       if found then map_option (Pair a) (copy_value m a 0 count dest) else Some (a, dest))"

definition getCWD :: "(u64 \<Rightarrow> char) \<Rightarrow> (nat \<Rightarrow> char) \<Rightarrow> i32 \<Rightarrow> (u64 \<times> (nat \<Rightarrow> char)) option" where
  "getCWD m dest count = get_variable ''PWD'' m dest count"

definition getPATH :: "(u64 \<Rightarrow> char) \<Rightarrow> (nat \<Rightarrow> char) \<Rightarrow> i32 \<Rightarrow> (u64 \<times> (nat \<Rightarrow> char)) option" where
  "getPATH m dest count = get_variable ''PATH'' m dest count"

section \<open>Writing the environment\<close>

text \<open>The first page that starts with NUL.\<close>

partial_function (option) env_end :: "(u64 \<Rightarrow> char) \<Rightarrow> u64 \<Rightarrow> u64 option" where
  "env_end m p = (if m p \<noteq> CHR 0x00 then env_end m (p + 0x1000) else Some p)"

text \<open>
  \<open>kmalloc\<close> and \<open>mapPageForUser\<close> of an empty page at an address of the user. The characters there are NUL because the page that the
  tables now give is the cleared frame. Without a free frame the code maps frame 0 (which all such pages would share), and without
  frames for the tables it does not reach the page at all; neither has a value.
\<close>

definition map_empty_page :: "u64 \<Rightarrow> 'a fs_scheme \<Rightarrow> 'a fs_scheme option" where
  "map_empty_page v s =
     (case kmalloc s of (tempNewPage, s1) \<Rightarrow>
        let phys_page = tempNewPage - kernbase s1;
            s2 = mapPageForUser v phys_page (getRunCr3 s1 + kernbase s1) s1
        in if phys_page \<noteq> NULL \<and> getPhysicalPageAddr v (getRunCr3 s2) s2 AND FRAME = phys_page
           then Some (s2\<lparr>bytes := (\<lambda>a. if a AND FRAME = v then CHR 0x00 else bytes s2 a)\<rparr>) else None)"

text \<open>A new entry that is longer than its page runs into a page that is not mapped yet.\<close>

definition setenv :: "string \<Rightarrow> string \<Rightarrow> 'a fs_scheme \<Rightarrow> 'a fs_scheme option" where
  "setenv name val s =
     Option.bind (getenv (bytes s) name) (\<lambda>start.
       if start \<noteq> NULL
       then Some (s\<lparr>bytes := store_str start (val @ [CHR 0x00, CHR 0x00]) (bytes s)\<rparr>)
       else Option.bind (env_end (bytes s) ENVIRON) (\<lambda>p.
         let entry = name @ ''='' @ val @ [CHR 0x00]
         in if 0x1000 < length entry then None
            else map_empty_page (p + 0x1000) (s\<lparr>bytes := store_str p entry (bytes s)\<rparr>)))"

text \<open>
  The argument of \<open>env\<close>: \<open>NAME=value\<close>, the value possibly in quotes. None is the return value -1. The name and the value, with a
  leading quote taken off and a closing one still on, are copied into arrays of 512 characters.
\<close>

definition env_fits :: "string \<Rightarrow> bool" where
  "env_fits arg =
     (let name = takeWhile (\<lambda>c. c \<noteq> CHR ''='') arg; rest = dropWhile (\<lambda>c. c \<noteq> CHR ''='') arg in
      if rest = [] then length name \<le> 512
      else let val = tl rest; quoted = (val \<noteq> [] \<and> hd val = CHR 0x22); val = (if quoted then tl val else val) in
        length name < 512 \<and> (if quoted \<and> val \<noteq> [] \<and> List.last val = CHR 0x22 then length val \<le> 512 else length val < 512))"

text \<open>What is read from the two arrays.\<close>

definition env_parse :: "string \<Rightarrow> (string \<times> string) option" where
  "env_parse arg =
     (let name = takeWhile (\<lambda>c. c \<noteq> CHR ''='') arg; rest = dropWhile (\<lambda>c. c \<noteq> CHR ''='') arg in
      if rest = [] then None
      else let val = tl rest in
        if val \<noteq> [] \<and> hd val = CHR 0x22
        then (let val = tl val in
              if val = [] then None
              else if List.last val = CHR 0x22 then Some (name, butlast val)
              else Some (name, val))
        else Some (name, val))"

definition env :: "string \<Rightarrow> 'a fs_scheme \<Rightarrow> (i64 \<times> 'a fs_scheme) option" where
  "env arg s =
     (if \<not> env_fits arg then None else case env_parse arg of
        None \<Rightarrow> Some (- 1, s)
      | Some (name, val) \<Rightarrow> map_option (Pair 0) (setenv name val s))"

text \<open>The working directory as \<open>remove_dotslash\<close> reads it; \<open>stk\<close> is what its array \<open>cwd[256]\<close> holds before.\<close>

definition cwd_string :: "(nat \<Rightarrow> char) \<Rightarrow> (u64 \<Rightarrow> char) \<Rightarrow> string option" where
  "cwd_string stk m = Option.bind (getCWD m stk 256) (\<lambda>(a, cwd). array_string cwd)"

text \<open>\<open>remove_dotslash\<close> into a buffer of \<open>N\<close> characters.\<close>

definition abs_path :: "nat \<Rightarrow> (nat \<Rightarrow> char) \<Rightarrow> string \<Rightarrow> i32 \<Rightarrow> (u64 \<Rightarrow> char) \<Rightarrow> string option" where
  "abs_path N stk src d m =
     (if src \<noteq> [] \<and> hd src = SLASH then remove_dotslash N src [] d
      else Option.bind (cwd_string stk m) (\<lambda>cwd. remove_dotslash N src cwd d))"

definition changeDirectory :: "(nat \<Rightarrow> char) \<Rightarrow> string \<Rightarrow> 'a fs_scheme \<Rightarrow> (i64 \<times> 'a fs_scheme) option" where
  "changeDirectory stk buf s =
     Option.bind (abs_path 256 stk buf 1 (bytes s)) (\<lambda>dest.
     Option.bind (check_if_directory_present (bytes s) (BINARY_TARFS_START s) (BINARY_TARFS_END s) (tl dest)) (\<lambda>present.
       if present = 0 then Some (- 1, kprintf '' %s : No Such Directory.\<newline>'' [KStr buf] s)
       else Option.bind (getCWD (bytes s) stk 256) (\<lambda>(env_value, test).
         Some (0, s\<lparr>bytes := store_str env_value (dest @ [CHR 0x00]) (bytes s)\<rparr>))))"

section \<open>Memory that holds a string\<close>

definition holds :: "(u64 \<Rightarrow> char) \<Rightarrow> u64 \<Rightarrow> string \<Rightarrow> bool" where
  "holds m a s \<longleftrightarrow> (\<forall>i < length s. m (a + of_nat i) = s ! i)"

lemma holds_Nil [simp]: "holds m a []"
  by (simp add: holds_def)

lemma holds_Cons [simp]: "holds m a (c # cs) \<longleftrightarrow> m a = c \<and> holds m (a + 1) cs"
  by (auto simp: holds_def nth_Cons' less_Suc_eq_0_disj add_ac)

lemma holds_append: "holds m a (xs @ ys) \<longleftrightarrow> holds m a xs \<and> holds m (a + of_nat (length xs)) ys"
  by (induction xs arbitrary: a) (auto simp: add_ac)

lemma cstr_holds: "holds m a (v @ [CHR 0x00]) \<Longrightarrow> CHR 0x00 \<notin> set v \<Longrightarrow> cstr m a = Some v"
  by (induction v arbitrary: a) (auto simp: cstr.simps)

lemma until_eq_holds: "holds m a (n @ [CHR ''='']) \<Longrightarrow> CHR ''='' \<notin> set n \<Longrightarrow> until_eq m a = Some n"
  by (induction n arbitrary: a) (auto simp: until_eq.simps)

lemma of_nat_inj64: "i < 2 ^ 64 \<Longrightarrow> j < 2 ^ 64 \<Longrightarrow> (of_nat i :: u64) = of_nat j \<longleftrightarrow> i = j"
  by (simp add: word_of_nat_eq_iff take_bit_nat_eq_self)

lemma store_str_other: "(\<And>i. i < length s \<Longrightarrow> b \<noteq> a + of_nat i) \<Longrightarrow> store_str a s m b = m b"
proof (induction s arbitrary: a m)
  case (Cons c s)
  have "b \<noteq> a + 1 + of_nat i" if "i < length s" for i using Cons.prems [of "Suc i"] that by (simp add: add_ac)
  moreover have "b \<noteq> a" using Cons.prems [of 0] by simp
  ultimately show ?case using Cons.IH [of "a + 1"] by simp
qed simp

lemma store_str_holds: "length s < 2 ^ 64 \<Longrightarrow> holds (store_str a s m) a s"
proof (induction s arbitrary: a m)
  case (Cons c s)
  have "store_str (a + 1) s (m(a := c)) a = (m(a := c)) a"
  proof (rule store_str_other)
    fix i assume i: "i < length s"
    with Cons.prems have "(of_nat (Suc i) :: u64) \<noteq> of_nat 0" using of_nat_inj64 [of "Suc i" 0] by simp
    then have "(1 + of_nat i :: u64) \<noteq> 0" by simp
    then show "a \<noteq> a + 1 + of_nat i" by (simp add: add.assoc)
  qed
  with Cons show ?case by simp
qed simp

lemma store_str_keeps:
  assumes "holds m b s" and "\<And>i j. i < length s \<Longrightarrow> j < length t \<Longrightarrow> b + of_nat i \<noteq> a + of_nat j"
  shows "holds (store_str a t m) b s"
  using assms by (simp add: holds_def store_str_other)

section \<open>The environment as a list\<close>

definition env_page :: "nat \<Rightarrow> u64" where "env_page k = ENVIRON + of_nat (0x1000 * k)"

lemma env_page_0 [simp]: "env_page 0 = ENVIRON"
  by (simp add: env_page_def)

lemma env_page_Suc: "env_page k + 0x1000 = env_page (Suc k)"
  by (simp add: env_page_def algebra_simps)

definition entry_ok :: "string \<Rightarrow> string \<Rightarrow> bool" where
  "entry_ok n v \<longleftrightarrow> n \<noteq> [] \<and> length n < 256 \<and> CHR 0x00 \<notin> set n \<and> CHR ''='' \<notin> set n \<and> CHR 0x00 \<notin> set v \<and> length n + length v + 3 \<le> 0x1000"

fun environ :: "(u64 \<Rightarrow> char) \<Rightarrow> nat \<Rightarrow> (string \<times> string) list \<Rightarrow> bool" where
  "environ m k [] \<longleftrightarrow> m (env_page k) = CHR 0x00"
| "environ m k ((n, v) # es) \<longleftrightarrow>
     entry_ok n v \<and> holds m (env_page k) (n @ ''='' @ v @ [CHR 0x00]) \<and> environ m (Suc k) es"

fun env_set :: "string \<Rightarrow> string \<Rightarrow> (string \<times> string) list \<Rightarrow> (string \<times> string) list" where
  "env_set name val [] = [(name, val)]"
| "env_set name val ((n, v) # es) = (if n = name then (n, val) # es else (n, v) # env_set name val es)"

lemma map_of_env_set: "map_of (env_set name val es) = (map_of es)(name \<mapsto> val)"
  by (induction es) auto

lemma length_env_set: "length (env_set name val es) \<le> Suc (length es)"
  by (induction es) auto

text \<open>Two places in the area differ when their offsets do.\<close>

lemma env_page_neq:
  assumes "0x1000 * k + i \<noteq> 0x1000 * k' + j" and "0x1000 * k + i < 2 ^ 64" and "0x1000 * k' + j < 2 ^ 64"
  shows "env_page k + of_nat i \<noteq> env_page k' + of_nat j"
proof
  assume "env_page k + of_nat i = env_page k' + of_nat j"
  then have "(of_nat (0x1000 * k + i) :: u64) = of_nat (0x1000 * k' + j)" by (simp add: env_page_def add.assoc)
  with assms of_nat_inj64 show False by blast
qed

lemma env_page_frame:
  assumes "0x1000 * j + 0x400000 < 2 ^ 64" and "i < 0x1000"
  shows "(env_page j + of_nat i) AND FRAME = env_page j"
proof -
  define n where "n = 0x302 + j"
  have a: "env_page j = of_nat (0x1000 * n)" by (simp add: env_page_def n_def algebra_simps)
  then have b: "env_page j + of_nat i = of_nat (0x1000 * n + i)" by simp
  have n: "0x1000 * n + i < 2 ^ 64" using assms by (simp add: n_def)
  have u: "unat (of_nat (0x1000 * n + i) :: u64) = 0x1000 * n + i"
    using n by (simp add: unat_of_nat take_bit_nat_eq_self del: of_nat_add of_nat_mult)
  have u': "unat (of_nat n :: u64) = n" using n by (simp add: unat_of_nat take_bit_nat_eq_self)
  have "unat (drop_bit 12 (of_nat (0x1000 * n + i) :: u64)) = drop_bit 12 (0x1000 * n + i)"
    by (simp only: unat_drop_bit_eq u)
  also have "\<dots> = n" using assms(2) by (simp add: drop_bit_eq_div)
  finally have "drop_bit 12 (of_nat (0x1000 * n + i) :: u64) = of_nat n" using u' by (metis word_unat_eq_iff)
  moreover have "push_bit 12 (of_nat n :: u64) = env_page j" unfolding a by (simp add: push_bit_eq_mult mult.commute)
  moreover have "x AND FRAME = push_bit 12 (drop_bit 12 x)" for x :: u64
    by (rule bit_word_eqI) (auto simp: FRAME_mask bit_simps)
  ultimately show ?thesis unfolding b by simp
qed

lemma page_store_keeps:
  assumes "length s + x \<le> 0x1000" and "j \<noteq> j'" and "i < 0x1000"
    and "0x1000 * j + 0x2000 < 2 ^ 64" and "0x1000 * j' + 0x2000 < 2 ^ 64"
  shows "store_str (env_page j + of_nat x) s m (env_page j' + of_nat i) = m (env_page j' + of_nat i)"
proof (rule store_str_other)
  fix y assume y: "y < length s"
  have "env_page j' + of_nat i \<noteq> env_page j + of_nat (x + y)"
    using assms y by (intro env_page_neq) linarith+
  then show "env_page j' + of_nat i \<noteq> env_page j + of_nat x + of_nat y" by (simp add: add.assoc)
qed

lemma holds_cong: "(\<And>i. i < length s \<Longrightarrow> m' (a + of_nat i) = m (a + of_nat i)) \<Longrightarrow> holds m a s \<Longrightarrow> holds m' a s"
  by (simp add: holds_def)

lemma environ_cong:
  assumes "environ m k es" and "\<And>j i. k \<le> j \<Longrightarrow> j \<le> k + length es \<Longrightarrow> i < 0x1000 \<Longrightarrow> m' (env_page j + of_nat i) = m (env_page j + of_nat i)"
  shows "environ m' k es"
  using assms
proof (induction es arbitrary: k)
  case Nil
  from Nil(1) Nil(2) [of k 0] show ?case by simp
next
  case (Cons e es)
  obtain n v where e: "e = (n, v)" by (cases e)
  have "holds m' (env_page k) (n @ ''='' @ v @ [CHR 0x00])"
    using Cons.prems by (intro holds_cong [of "n @ ''='' @ v @ [CHR 0x00]" m']) (auto simp: e entry_ok_def)
  moreover have "environ m' (Suc k) es" using Cons.prems by (intro Cons.IH) (auto simp: e)
  ultimately show ?case using Cons.prems(1) by (simp add: e)
qed

section \<open>The operations on the list\<close>

fun env_pos :: "nat \<Rightarrow> (string \<times> string) list \<Rightarrow> string \<Rightarrow> nat option" where
  "env_pos k [] name = None"
| "env_pos k ((n, v) # es) name = (if n = name then Some k else env_pos (Suc k) es name)"

lemma env_pos_None: "env_pos k es name = None \<longleftrightarrow> map_of es name = None"
  by (induction es arbitrary: k) auto

lemma env_pos_bound: "env_pos k es name = Some j \<Longrightarrow> k \<le> j \<and> j < k + length es"
  by (induction es arbitrary: k) (fastforce split: if_splits)+

lemma env_pos_entry:
  "environ m k es \<Longrightarrow> env_pos k es name = Some j \<Longrightarrow>
     \<exists>v. map_of es name = Some v \<and> entry_ok name v \<and> holds m (env_page j) (name @ ''='' @ v @ [CHR 0x00])"
  by (induction es arbitrary: k) (auto split: if_splits)

abbreviation value_addr :: "nat \<Rightarrow> string \<Rightarrow> u64" where
  "value_addr j name \<equiv> env_page j + of_nat (length name + 1)"

lemma env_scan_environ:
  assumes "environ m k es" and "CHR 0x00 \<notin> set name"
  shows "\<exists>a'. env_scan m name (env_page k) a = Some (case env_pos k es name of None \<Rightarrow> (False, a') | Some j \<Rightarrow> (True, value_addr j name))"
  using assms(1)
proof (induction es arbitrary: k a)
  case Nil
  then show ?case by (simp add: env_scan.simps)
next
  case (Cons e es)
  obtain n v where e: "e = (n, v)" by (cases e)
  with Cons.prems have ok: "entry_ok n v" and h: "holds m (env_page k) (n @ ''='' @ v @ [CHR 0x00])"
    and rest: "environ m (Suc k) es" by simp_all
  have ne: "m (env_page k) \<noteq> CHR 0x00" using ok h by (cases n) (auto simp: entry_ok_def)
  have u: "until_eq m (env_page k) = Some n" using ok h by (intro until_eq_holds) (auto simp: entry_ok_def holds_append)
  have t: "takeWhile (\<lambda>c. c \<noteq> CHR 0x00) n = n" using ok by (auto simp: takeWhile_eq_all_conv entry_ok_def)
  have c: "strcmp n name = 0 \<longleftrightarrow> n = name" using ok assms(2) by (simp add: strcmp_eq_0 entry_ok_def)
  have "env_scan m name (env_page k) a =
      (if n = name then Some (True, value_addr k name) else env_scan m name (env_page (Suc k)) (value_addr k n))"
    using ne ok by (simp add: env_scan.simps [of m name "env_page k"] u t c Let_def env_page_Suc add_ac entry_ok_def)
  then show ?case using Cons.IH [OF rest, of "value_addr k n"] by (simp add: e)
qed

lemma value_addr_not_NULL: "0x1000 * j + 0x2000 < 2 ^ 63 \<Longrightarrow> length name < 0x1000 \<Longrightarrow> value_addr j name \<noteq> NULL"
proof -
  assume "0x1000 * j + 0x2000 < (2::nat) ^ 63" "length name < 0x1000"
  then have "(of_nat (0x302000 + (0x1000 * j + (length name + 1))) :: u64) \<noteq> of_nat 0"
    by (subst of_nat_inj64) simp_all
  then show ?thesis by (simp add: env_page_def add.assoc)
qed

lemma getenv_environ:
  assumes "environ m 0 es" and "CHR 0x00 \<notin> set name" and "length es < 2 ^ 40"
  shows "case env_pos 0 es name of None \<Rightarrow> getenv m name = Some NULL
    | Some j \<Rightarrow> getenv m name = Some (value_addr j name) \<and> value_addr j name \<noteq> NULL \<and> cstr m (value_addr j name) = map_of es name"
proof -
  obtain a' where a': "env_scan m name ENVIRON 0 = Some (case env_pos 0 es name of None \<Rightarrow> (False, a') | Some j \<Rightarrow> (True, value_addr j name))"
    using env_scan_environ [OF assms(1,2), of 0] by auto
  show ?thesis
  proof (cases "env_pos 0 es name")
    case None
    with a' show ?thesis by (simp add: getenv_def)
  next
    case (Some j)
    obtain v where v: "map_of es name = Some v" "entry_ok name v" "holds m (env_page j) (name @ ''='' @ v @ [CHR 0x00])"
      using env_pos_entry [OF assms(1) Some] by blast
    have "holds m (value_addr j name) (v @ [CHR 0x00])" using v(3) by (simp add: holds_append add_ac)
    then have "cstr m (value_addr j name) = Some v" using v(2) by (intro cstr_holds) (auto simp: entry_ok_def)
    moreover have "value_addr j name \<noteq> NULL"
      using env_pos_bound [OF Some] assms(3) v(2) by (intro value_addr_not_NULL) (auto simp: entry_ok_def)
    ultimately show ?thesis using a' Some v(1) by (simp add: getenv_def)
  qed
qed

lemma env_end_environ: "environ m k es \<Longrightarrow> env_end m (env_page k) = Some (env_page (k + length es))"
proof (induction es arbitrary: k)
  case Nil
  then show ?case by (simp add: env_end.simps)
next
  case (Cons e es)
  obtain n v where e: "e = (n, v)" by (cases e)
  with Cons.prems have "m (env_page k) \<noteq> CHR 0x00" by (cases n) (auto simp: entry_ok_def)
  then show ?case using Cons.IH [of "Suc k"] Cons.prems by (simp add: e env_end.simps [of m "env_page k"] env_page_Suc)
qed

lemma environ_replace:
  assumes "environ m k es" and "env_pos k es name = Some j" and "entry_ok name val" and "k + length es < 2 ^ 40" and "length zs \<le> 1"
  shows "environ (store_str (value_addr j name) (val @ CHR 0x00 # zs) m) k (env_set name val es)"
  using assms
proof (induction es arbitrary: k)
  case (Cons e es)
  let ?s = "val @ CHR 0x00 # zs"
  let ?m = "store_str (value_addr j name) ?s m"
  obtain n v where e: "e = (n, v)" by (cases e)
  have fits: "length ?s + (length name + 1) \<le> 0x1000" using Cons.prems(3,5) by (simp add: entry_ok_def)
  have j: "k \<le> j" "j < k + length (e # es)" using env_pos_bound [OF Cons.prems(2)] by auto
  have other: "?m (env_page j' + of_nat i) = m (env_page j' + of_nat i)" if "j \<noteq> j'" "j' \<le> k + length (e # es)" "i < 0x1000" for j' i
    using that j Cons.prems(4) by (intro page_store_keeps [OF fits]) auto
  show ?case
  proof (cases "n = name")
    case True
    then have jk: "j = k" using Cons.prems(2) by (simp add: e)
    have "environ m (Suc k) es" using Cons.prems(1) by (simp add: e)
    then have rest: "environ ?m (Suc k) es"
    proof (rule environ_cong)
      fix j' i :: nat assume "Suc k \<le> j'" "j' \<le> Suc k + length es" "i < 0x1000"
      with jk show "?m (env_page j' + of_nat i) = m (env_page j' + of_nat i)" by (intro other) auto
    qed
    have keep: "holds ?m (env_page k) (name @ ''='')"
    proof (rule store_str_keeps)
      show "holds m (env_page k) (name @ ''='')" using Cons.prems(1) True by (simp add: e holds_append)
      fix i y assume iy: "i < length (name @ ''='')" "y < length ?s"
      have "env_page k + of_nat i \<noteq> env_page j + of_nat (length name + 1 + y)"
        using iy fits jk Cons.prems(4) by (intro env_page_neq) auto
      then show "env_page k + of_nat i \<noteq> value_addr j name + of_nat y" by (simp add: add_ac)
    qed
    have "holds ?m (value_addr j name) ?s" using fits by (intro store_str_holds) simp
    with keep have "holds ?m (env_page k) (name @ ''='' @ val @ [CHR 0x00])" by (simp add: holds_append jk add_ac)
    with rest Cons.prems(3) show ?thesis by (simp add: e True)
  next
    case False
    then have pj: "env_pos (Suc k) es name = Some j" using Cons.prems(2) by (simp add: e)
    then have "j \<noteq> k" using env_pos_bound [OF pj] by auto
    have "holds ?m (env_page k) (n @ ''='' @ v @ [CHR 0x00])"
    proof (rule holds_cong)
      show "holds m (env_page k) (n @ ''='' @ v @ [CHR 0x00])" using Cons.prems(1) by (simp add: e)
      fix i assume "i < length (n @ ''='' @ v @ [CHR 0x00])"
      then have "i < 0x1000" using Cons.prems(1) by (simp add: e entry_ok_def)
      with \<open>j \<noteq> k\<close> show "?m (env_page k + of_nat i) = m (env_page k + of_nat i)" by (intro other) auto
    qed
    moreover have "environ ?m (Suc k) (env_set name val es)"
      using Cons.prems by (intro Cons.IH pj) (auto simp: e)
    ultimately show ?thesis using False Cons.prems(1) by (simp add: e)
  qed
qed simp

lemma environ_append:
  assumes "environ m k es" and "env_pos k es name = None" and "entry_ok name val" and "k + length es < 2 ^ 40"
    and "holds m' (env_page (k + length es)) (name @ ''='' @ val @ [CHR 0x00])"
    and "m' (env_page (Suc (k + length es))) = CHR 0x00"
    and "\<And>j i. k \<le> j \<Longrightarrow> j < k + length es \<Longrightarrow> i < 0x1000 \<Longrightarrow> m' (env_page j + of_nat i) = m (env_page j + of_nat i)"
  shows "environ m' k (env_set name val es)"
  using assms
proof (induction es arbitrary: k)
  case (Cons e es)
  obtain n v where e: "e = (n, v)" by (cases e)
  have "environ m' (Suc k) (env_set name val es)"
    using Cons.prems by (intro Cons.IH) (auto simp: e split: if_splits)
  moreover have "holds m' (env_page k) (n @ ''='' @ v @ [CHR 0x00])"
    using Cons.prems(1,7) by (intro holds_cong [of "n @ ''='' @ v @ [CHR 0x00]" m']) (auto simp: e entry_ok_def)
  ultimately show ?case using Cons.prems(1,2) by (simp add: e split: if_splits)
qed simp

lemma phys_only_bytes:
  assumes "phys_only (s :: 'a fs_scheme) s'"
  shows "bytes s' = bytes s" "fds s' = fds s" "BINARY_TARFS_START s' = BINARY_TARFS_START s" "BINARY_TARFS_END s' = BINARY_TARFS_END s"
    "tasks s' = tasks s" "runningThread s' = runningThread s" "klog s' = klog s" "vmas s' = vmas s"
proof -
  obtain a m where "s' = s\<lparr>availFrames := a, pmem := m\<rparr>" using assms unfolding phys_only_def by blast
  then show "bytes s' = bytes s" "fds s' = fds s" "BINARY_TARFS_START s' = BINARY_TARFS_START s" "BINARY_TARFS_END s' = BINARY_TARFS_END s"
    "tasks s' = tasks s" "runningThread s' = runningThread s" "klog s' = klog s" "vmas s' = vmas s" by simp_all
qed

text \<open>What the calls need of the memory: well-formed tables of the running task, and four frames for each new page.\<close>

definition map_ready :: "nat \<Rightarrow> 'a fs_scheme \<Rightarrow> bool" where
  "map_ready n s \<longleftrightarrow> vm_ok s \<and> wf_tree (pmem s) (getRunCr3 s) (used_frames s) \<and> 4 * n \<le> card (free_frames s)"

lemma map_ready_bytes [simp]: "map_ready n (s\<lparr>bytes := b\<rparr>) = map_ready n s"
  by (simp add: map_ready_def vm_ok_def phys_inv_def used_frames_def free_frames_def getRunCr3_def)

lemma map_ready_less: "map_ready (Suc n) s \<Longrightarrow> map_ready n s"
  by (simp add: map_ready_def)

text \<open>A fresh page of NULs at \<open>v\<close>, for the user, in a frame that was free; the other pages stay.\<close>

definition page_added :: "u64 \<Rightarrow> 'a fs_scheme \<Rightarrow> 'a fs_scheme \<Rightarrow> bool" where
  "page_added v s s' \<longleftrightarrow> (\<exists>g \<in> free_frames s. holds_page (getRunCr3 s) v (\<lambda>_. 0) g s') \<and> extends (getRunCr3 s) {v} {} s s'"

lemma map_empty_page_ok:
  assumes "map_ready (Suc n) s"
  shows "\<exists>s'. map_empty_page v s = Some s' \<and> bytes s' = (\<lambda>a. if a AND FRAME = v then CHR 0x00 else bytes s a) \<and>
    map_ready n s' \<and> getRunCr3 s' = getRunCr3 s \<and> page_added v s s'"
proof -
  let ?r = "getRunCr3 s"
  have ok: "vm_ok s" and wf: "wf_tree (pmem s) ?r (used_frames s)" and c: "4 \<le> card (free_frames s)"
    using assms by (simp_all add: map_ready_def)
  obtain g s1 s2 where n: "g \<in> free_frames s" "pageAllocator s = (page_of g, s1)" "kernbase s1 = KERNBASE"
    "s2 = mapPageForUser v (page_of g) (?r + KERNBASE) (memset (page_of g + KERNBASE) s1)"
    "holds_page ?r v (\<lambda>_. 0) g s2" "extends ?r {v} {} s s2" "phys_only s s2" "card (free_frames s) \<le> card (free_frames s2) + 4"
    using new_page [OF ok wf c, of v] by blast
  have gb: "0 < g" "g < 65536" using n(1) ok free_frames_bound by (auto simp: vm_ok_def)
  have k: "kmalloc s = (page_of g + KERNBASE, memset (page_of g + KERNBASE) s1)" by (simp add: kmalloc_def n(2,3) Let_def)
  have po: "phys_only s (memset (page_of g + KERNBASE) s1)" using phys_only_kmalloc [of s] by (simp add: k)
  have r1: "getRunCr3 (memset (page_of g + KERNBASE) s1) = ?r" "kernbase (memset (page_of g + KERNBASE) s1) = KERNBASE"
    using phys_onlyD [OF po] ok by (simp_all add: getRunCr3_def kernbase_ok)
  have r2: "getRunCr3 s2 = ?r" using phys_onlyD [OF n(7)] by (simp add: getRunCr3_def)
  have nn: "page_of g \<noteq> NULL" using gb page_of_eq_0 [of g] by simp
  note ok2 = extends_ok(1,2) [OF n(6)]
  have "getPhysicalPageAddr v ?r s2 AND FRAME = page_of g"
    using n(5) by (simp add: walk_leaf_entry [OF ok2] holds_page_def leaf_flags_user)
  then have run: "map_empty_page v s = Some (s2\<lparr>bytes := (\<lambda>a. if a AND FRAME = v then CHR 0x00 else bytes s a)\<rparr>)"
    using nn phys_only_bytes(1) [OF n(7)] by (simp add: map_empty_page_def k Let_def r1 n(4) [symmetric] r2 cong: if_cong)
  have "map_ready n s2" using ok2 r2 n(8) assms by (simp add: map_ready_def)
  moreover have "holds_page ?r v (\<lambda>_. 0) g (s2\<lparr>bytes := b\<rparr>)" for b
    using n(5) by (simp add: holds_page_def used_frames_def free_frames_def)
  moreover have "extends ?r {v} {} s (s2\<lparr>bytes := b\<rparr>)" for b
    by (rule extends_cong [OF n(6)]) (simp_all add: vm_ok_def phys_inv_def free_frames_def)
  ultimately show ?thesis
    using n(1) r2 by (intro exI [of _ "s2\<lparr>bytes := (\<lambda>a. if a AND FRAME = v then CHR 0x00 else bytes s a)\<rparr>"])
      (auto simp: run page_added_def getRunCr3_def)
qed

lemma page_added_bytes:
  assumes "page_added v (s\<lparr>bytes := b\<rparr>) s'"
  shows "page_added v s s'"
proof -
  have r: "getRunCr3 (s\<lparr>bytes := b\<rparr>) = getRunCr3 s" "free_frames (s\<lparr>bytes := b\<rparr>) = free_frames s"
    by (simp_all add: getRunCr3_def free_frames_def)
  from assms have "extends (getRunCr3 s) {v} {} (s\<lparr>bytes := b\<rparr>) s'" unfolding page_added_def r by blast
  then have "extends (getRunCr3 s) {v} {} s s'" by (rule extends_from) (simp_all add: r)
  with assms show ?thesis unfolding page_added_def r by blast
qed

lemma page_addedD:
  assumes "page_added v s s'"
  shows "(\<exists>g \<in> free_frames s. getPhysicalPageAddr v (getRunCr3 s) s' = page_of g OR (PRESENT OR WRITEABLE OR USER)) \<and>
    (\<forall>a. same_page a v \<longrightarrow> user_byte (getRunCr3 s) s' a = 0) \<and>
    (\<forall>w c h. \<not> same_page w v \<and> holds_page (getRunCr3 s) w c h s \<longrightarrow> holds_page (getRunCr3 s) w c h s')"
proof -
  let ?r = "getRunCr3 s"
  from assms obtain g where g: "g \<in> free_frames s" "holds_page ?r v (\<lambda>_. 0) g s'" and E: "extends ?r {v} {} s s'"
    unfolding page_added_def by blast
  note ok = extends_ok(1,2) [OF E]
  have "user_byte ?r s' a = 0" if "same_page a v" for a
  proof -
    have "holds_page ?r a (\<lambda>_. 0) g s'" using g(2) same_page_leaf [OF that] by (simp add: holds_page_def)
    from user_byte_page [OF ok this] show ?thesis .
  qed
  moreover have "getPhysicalPageAddr v ?r s' = page_of g OR (PRESENT OR WRITEABLE OR USER)"
    using g(2) by (simp add: walk_leaf_entry [OF ok] holds_page_def leaf_flags_def)
  ultimately show ?thesis using g(1) E unfolding extends_def by blast
qed

lemma setenv_environ:
  assumes "environ (bytes s) 0 es" and "entry_ok name val" and "length es < 2 ^ 32" and "map_ready (Suc n) s"
  shows "\<exists>s'. setenv name val s = Some s' \<and> environ (bytes s') 0 (env_set name val es) \<and> map_ready n s' \<and>
    (if map_of es name = None then page_added (env_page (Suc (length es))) s s' else \<exists>b. s' = s\<lparr>bytes := b\<rparr>)"
proof (cases "env_pos 0 es name")
  case (Some j)
  let ?s' = "s\<lparr>bytes := store_str (value_addr j name) (val @ [CHR 0x00, CHR 0x00]) (bytes s)\<rparr>"
  have "getenv (bytes s) name = Some (value_addr j name)" "value_addr j name \<noteq> NULL"
    using getenv_environ [OF assms(1), of name] assms(2,3) Some by (auto simp: entry_ok_def)
  then have run: "setenv name val s = Some ?s'" by (simp only: setenv_def Option.bind.bind_lunit not_False_eq_True if_True)
  have "environ (store_str (value_addr j name) (val @ [CHR 0x00, CHR 0x00]) (bytes s)) 0 (env_set name val es)"
    using environ_replace [OF assms(1) Some assms(2), of "[CHR 0x00]"] assms(3) by simp
  moreover have "map_of es name \<noteq> None" using Some env_pos_None [of 0 es name] by simp
  moreover have "map_ready n ?s'" using map_ready_less [OF assms(4)] by simp
  ultimately show ?thesis unfolding run by (intro exI [of _ ?s']) (simp only: fs.select_convs(1) fs.update_convs(1) if_False simp_thms, auto)
next
  case None
  let ?K = "length es" and ?s = "name @ ''='' @ val @ [CHR 0x00]"
  let ?m = "store_str (env_page ?K) ?s (bytes s)"
  have K: "0x1000 * ?K + 0x400000 < 2 ^ 64" using assms(3) by simp
  have fits: "length ?s + 0 \<le> 0x1000" using assms(2) by (simp add: entry_ok_def)
  have other: "?m (env_page j + of_nat i) = bytes s (env_page j + of_nat i)" if "j \<noteq> ?K" "j \<le> Suc ?K" "i < 0x1000" for j i
    using page_store_keeps [OF fits, of ?K j i] that K by simp
  have off: "env_page j \<noteq> env_page (Suc ?K)" if "j \<le> ?K" for j
    using env_page_neq [of j 0 "Suc ?K" 0] that K by simp
  define m' where "m' = (\<lambda>a. if a AND FRAME = env_page (Suc ?K) then CHR 0x00 else ?m a)"
  have m': "m' (env_page j + of_nat i) = ?m (env_page j + of_nat i)" if "j \<le> ?K" "i < 0x1000" for j i
    using env_page_frame [of j i] off [of j] that K by (simp add: m'_def)
  have "environ m' 0 (env_set name val es)"
  proof (rule environ_append [OF assms(1) None assms(2)])
    show "0 + ?K < 2 ^ 40" using assms(3) by simp
    have "holds ?m (env_page ?K) ?s" using fits by (intro store_str_holds) simp
    then show "holds m' (env_page (0 + ?K)) ?s"
      using fits by (intro holds_cong [of ?s m' _ ?m]) (simp_all add: m')
    show "m' (env_page (Suc (0 + ?K))) = CHR 0x00"
      using env_page_frame [of "Suc ?K" 0] assms(3) by (simp add: m'_def)
    show "m' (env_page j + of_nat i) = bytes s (env_page j + of_nat i)" if "j < 0 + ?K" "i < 0x1000" for j i
      using m' [of j i] other [of j i] that by simp
  qed
  moreover have "getenv (bytes s) name = Some NULL"
    using getenv_environ [OF assms(1), of name] assms(2,3) None by (auto simp: entry_ok_def)
  moreover have "env_end (bytes s) ENVIRON = Some (env_page ?K)" using env_end_environ [OF assms(1)] by simp
  moreover have "map_ready (Suc n) (s\<lparr>bytes := ?m\<rparr>)" using assms(4) by simp
  from map_empty_page_ok [OF this, of "env_page (Suc ?K)"] obtain s' where
    s': "map_empty_page (env_page (Suc ?K)) (s\<lparr>bytes := ?m\<rparr>) = Some s'"
    "bytes s' = (\<lambda>a. if a AND FRAME = env_page (Suc ?K) then CHR 0x00 else bytes (s\<lparr>bytes := ?m\<rparr>) a)" "map_ready n s'"
    "page_added (env_page (Suc ?K)) (s\<lparr>bytes := ?m\<rparr>) s'" by blast
  moreover have "bytes s' = m'" unfolding s'(2) m'_def by (simp cong: if_cong)
  moreover have "page_added (env_page (Suc ?K)) s s'"
    by (rule page_added_bytes [OF s'(4)])
  moreover have "map_of es name = None" using None env_pos_None [of 0 es name] by simp
  ultimately show ?thesis using fits by (simp add: setenv_def env_page_Suc Let_def)
qed

section \<open>The contract of an environment\<close>

text \<open>
  \<open>view m n es\<close>: the variables of \<open>m\<close> are \<open>es\<close>, with room for \<open>n\<close> more. The law of \<open>put\<close> is what
  makes the store a finite map: of several writes to a name the last one counts, others are not touched.
\<close>

locale env_store =
  fixes view :: "'m \<Rightarrow> nat \<Rightarrow> (string \<times> string) list \<Rightarrow> bool"
    and ok :: "string \<Rightarrow> string \<Rightarrow> bool"
    and get :: "string \<Rightarrow> 'm \<Rightarrow> string option"
    and put :: "string \<Rightarrow> string \<Rightarrow> 'm \<Rightarrow> 'm"
  assumes get_view: "view m n es \<Longrightarrow> ok k v \<Longrightarrow> get k m = map_of es k"
    and put_view: "view m (Suc n) es \<Longrightarrow> ok k v \<Longrightarrow> view (put k v m) n (env_set k v es)"
begin

lemma puts_view:
  "view m (length kvs + n) es \<Longrightarrow> \<forall>(k, v) \<in> set kvs. ok k v \<Longrightarrow>
     view (fold (\<lambda>(k, v). put k v) kvs m) n (fold (\<lambda>(k, v). env_set k v) kvs es)"
proof (induction kvs arbitrary: m es)
  case (Cons kv kvs)
  obtain k v where kv: "kv = (k, v)" by (cases kv)
  have "view (put k v m) (length kvs + n) (env_set k v es)" using Cons.prems by (intro put_view) (simp_all add: kv)
  from Cons.IH [OF this] Cons.prems show ?case by (simp add: kv)
qed simp

lemma get_puts:
  assumes "view m (length kvs + n) es" and "\<forall>(k, v) \<in> set kvs. ok k v" and "ok k v"
  shows "get k (fold (\<lambda>(k, v). put k v) kvs m) = (map_of es ++ map_of (rev kvs)) k"
proof -
  have "map_of (fold (\<lambda>(k, v). env_set k v) kvs es) = map_of es ++ map_of (rev kvs)"
    by (induction kvs arbitrary: es) (auto simp: map_of_env_set map_add_def fun_eq_iff split: option.splits)
  then show ?thesis using get_view [OF puts_view [OF assms(1,2)] assms(3)] by simp
qed

end

definition env_view :: "'a fs_scheme \<Rightarrow> nat \<Rightarrow> (string \<times> string) list \<Rightarrow> bool" where
  "env_view s n es \<longleftrightarrow> environ (bytes s) 0 es \<and> length es + n < 2 ^ 32 \<and> map_ready n s"

definition variable :: "string \<Rightarrow> 'a fs_scheme \<Rightarrow> string option" where
  "variable name s =
     (case getenv (bytes s) name of Some a \<Rightarrow> if a = NULL then None else cstr (bytes s) a | None \<Rightarrow> None)"

definition put_variable :: "string \<Rightarrow> string \<Rightarrow> 'a fs_scheme \<Rightarrow> 'a fs_scheme" where
  "put_variable name val s = the (setenv name val s)"

lemma variable_environ:
  assumes "environ (bytes s) 0 es" and "length es < 2 ^ 32" and "CHR 0x00 \<notin> set name"
  shows "variable name s = map_of es name"
proof (cases "env_pos 0 es name")
  case None
  with getenv_environ [OF assms(1,3)] assms(2) show ?thesis by (simp add: variable_def env_pos_None)
next
  case (Some j)
  with getenv_environ [OF assms(1,3)] assms(2) show ?thesis by (simp add: variable_def)
qed

interpretation environment: env_store env_view entry_ok variable put_variable
proof
  fix s :: "'a fs_scheme" and n es k v
  assume "env_view s n es" "entry_ok k v"
  then show "variable k s = map_of es k" by (intro variable_environ) (auto simp: env_view_def entry_ok_def)
next
  fix s :: "'a fs_scheme" and n es k v
  assume v: "env_view s (Suc n) es" "entry_ok k v"
  then obtain s' where "setenv k v s = Some s'" "environ (bytes s') 0 (env_set k v es)" "map_ready n s'"
    using setenv_environ [of s es k v n] by (auto simp: env_view_def)
  then show "env_view (put_variable k v s) n (env_set k v es)"
    using v length_env_set [of k v es] by (simp add: env_view_def put_variable_def)
qed

section \<open>The working directory\<close>

lemma copy_value_holds:
  assumes "holds m a (v @ [CHR 0x00])" and "CHR 0x00 \<notin> set v" and "length v + 1 < c" and "c \<le> 512"
  shows "copy_value m a i (of_nat c) d =
    Some (\<lambda>k. if i \<le> k \<and> k < i + length v then v ! (k - i) else if k = i + length v then CHR 0x00 else d k)"
  using assms
proof (induction v arbitrary: a i c d)
  case Nil
  then have "1 < sint (of_nat c :: i32)" by (simp add: signed_of_nat signed_take_bit_int_eq_self)
  with Nil show ?case by (auto simp: copy_value.simps fun_eq_iff)
next
  case (Cons x v)
  have c: "(of_nat c :: i32) - 1 = of_nat (c - 1)" using Cons.prems(3) by (simp add: of_nat_diff)
  have "(of_nat (c - 1) :: i32) \<noteq> 0" using Cons.prems(3,4) of_nat_small_0 [of "c - 1"] by simp
  then have "copy_value m a i (of_nat c) d = copy_value m (a + 1) (i + 1) (of_nat (c - 1)) (d(i := x))"
    using Cons.prems(1,2) by (subst copy_value.simps) (auto simp: c)
  also have "\<dots> = Some (\<lambda>k. if i + 1 \<le> k \<and> k < i + 1 + length v then v ! (k - (i + 1))
      else if k = i + 1 + length v then CHR 0x00 else (d(i := x)) k)"
    using Cons.prems by (intro Cons.IH) auto
  also have "\<dots> = Some (\<lambda>k. if i \<le> k \<and> k < i + length (x # v) then (x # v) ! (k - i) else if k = i + length (x # v) then CHR 0x00 else d k)"
    by (auto simp: fun_eq_iff nth_Cons')
  finally show ?case .
qed

lemma array_string_holds:
  assumes "\<And>i. i < length v \<Longrightarrow> b i = v ! i" and "b (length v) = CHR 0x00" and "length v < 256" and "CHR 0x00 \<notin> set v"
  shows "array_string b = Some v"
proof -
  define N where "N = (256 :: nat)"
  have n: "length v < N" using assms(3) by (simp add: N_def)
  have "takeWhile (\<lambda>c. c \<noteq> CHR 0x00) (map b [0..<N]) = take (length v) (map b [0..<N])"
    using assms(1,2,4) n by (intro takeWhile_eq_take_P_nth) (auto simp: in_set_conv_nth)
  also have "\<dots> = v" using assms(1) n by (intro nth_equalityI) auto
  finally have "takeWhile (\<lambda>c. c \<noteq> CHR 0x00) (map b [0..<N]) = v" .
  moreover have "CHR 0x00 \<in> set (map b [0..<N])" using assms(2) n by (metis atLeastLessThan_iff image_eqI le0 set_map set_upt)
  ultimately show ?thesis unfolding array_string_def Let_def N_def by simp
qed

lemma getCWD_environ:
  assumes "environ (bytes s) 0 es" and "length es < 2 ^ 32" and "map_of es ''PWD'' = Some cwd" and "length cwd < 255"
  shows "\<exists>j b. env_pos 0 es ''PWD'' = Some j \<and> getCWD (bytes s) stk 256 = Some (value_addr j ''PWD'', b) \<and> array_string b = Some cwd"
proof -
  obtain j where j: "env_pos 0 es ''PWD'' = Some j" using assms(3) by (metis env_pos_None not_Some_eq)
  from env_pos_entry [OF assms(1) j] assms(3) have e: "entry_ok ''PWD'' cwd" "holds (bytes s) (env_page j) (''PWD'' @ ''='' @ cwd @ [CHR 0x00])"
    by auto
  have h: "holds (bytes s) (value_addr j ''PWD'') (cwd @ [CHR 0x00])" using e(2) by (simp add: holds_append add_ac)
  have n: "CHR 0x00 \<notin> set cwd" using e(1) by (simp add: entry_ok_def)
  obtain b where b: "copy_value (bytes s) (value_addr j ''PWD'') 0 256 stk = Some b"
    "\<And>i. i < length cwd \<Longrightarrow> b i = cwd ! i" "b (length cwd) = CHR 0x00"
    using copy_value_holds [OF h n, of 256 0 stk] assms(4) by simp
  have "array_string b = Some cwd" using b(2,3) assms(4) n by (intro array_string_holds) auto
  moreover obtain a' where "env_scan (bytes s) ''PWD'' ENVIRON 0 = Some (case Some j of None \<Rightarrow> (False, a') | Some j \<Rightarrow> (True, value_addr j ''PWD''))"
    using env_scan_environ [OF assms(1), of "''PWD''" 0] by (auto simp: j)
  ultimately show ?thesis using j b(1) by (auto simp: getCWD_def get_variable_def)
qed

lemma split_path_chars: "n \<in> set (split_path s) \<Longrightarrow> set n \<subseteq> set s"
proof (induction s rule: split_path.induct)
  case (2 c cs)
  have "set (tl xs) \<subseteq> set xs" for xs :: string by (cases xs) auto
  then have "set (tl (dropWhile (\<lambda>c. c \<noteq> SLASH) (c # cs))) \<subseteq> set (c # cs)"
    using set_dropWhileD by (metis (no_types, lifting) subset_iff)
  moreover have "set (takeWhile (\<lambda>c. c \<noteq> SLASH) (c # cs)) \<subseteq> set (c # cs)" using set_takeWhileD by fast
  ultimately show ?case using 2 by (metis set_ConsD split_path.simps(2) subset_trans)
qed simp

lemma set_render_path: "set (render_path st) = insert SLASH (\<Union>n \<in> set st. set n)"
  by (auto simp: render_path_def)

lemma abs_path_walk:
  fixes src :: string
  assumes "cwd_string stk m = Some cwd" and "names_ok st" and "cwd = render_path st \<or> cwd @ [SLASH] = render_path st \<and> cwd \<noteq> []"
  defines "dest \<equiv> render_path (walk (split_path src) (if src \<noteq> [] \<and> hd src = SLASH then [] else st))"
  assumes "fits_path N st src" and "\<forall>c \<in> set st. length c < 256"
  shows "abs_path N stk src 1 m = Some dest \<and> length dest < N"
  using remove_dotslash_path [OF assms(2,3,5,6)] assms(1)
  by (auto simp: abs_path_def dest_def remove_dotslash_def)

section \<open>Properties\<close>

text \<open>C22: The environment is a finite map: in a well-formed area, with four free frames for each call, after a sequence of \<open>setenv\<close> calls
  (each of which returns), the value \<open>getenv\<close> finds for a name is the one written last, or the old one when the name was not written. An
  entry is updated in place and the physical memory stays; for a new name the next page is used, and the page behind it becomes a frame
  that was free, mapped for the user and zero, while every other page of the task keeps its frame and its bytes. Names have fewer than 256
  characters (the size of the buffer they are compared in), and an entry fits into its page.\<close>

theorem setenv_last_write:
  fixes s :: "'a fs_scheme"
  assumes env: "environ (bytes s) 0 es" "length es + length kvs < 2 ^ 32"
    and mem: "vm_ok s" "wf_tree (pmem s) (getRunCr3 s) (used_frames s)" "4 * Suc (length kvs) \<le> card (free_frames s)"
    and kvs: "\<forall>(k, v) \<in> set kvs. entry_ok k v" "entry_ok k v"
  defines "new \<equiv> env_page (Suc (length es))" and "r \<equiv> getRunCr3 s"
  shows "variable k (fold (\<lambda>(k, v). put_variable k v) kvs s) = (map_of es ++ map_of (rev kvs)) k \<and>
    (\<exists>s'. setenv k v s = Some s' \<and> environ (bytes s') 0 (env_set k v es) \<and>
       (if map_of es k = None
        then (\<exists>g \<in> free_frames s. getPhysicalPageAddr new r s' = page_of g OR (PRESENT OR WRITEABLE OR USER)) \<and>
          (\<forall>a. same_page a new \<longrightarrow> user_byte r s' a = 0) \<and>
          (\<forall>w c h. \<not> same_page w new \<and> holds_page r w c h s \<longrightarrow> holds_page r w c h s')
        else pmem s' = pmem s))"
proof -
  have "map_ready (Suc (length kvs)) s" using mem by (simp add: map_ready_def)
  then have m: "map_ready (length kvs) s" by (rule map_ready_less)
  then have "env_view s (length kvs + 0) es" using env by (simp add: env_view_def)
  from environment.get_puts [OF this kvs] have get: "variable k (fold (\<lambda>(k, v). put_variable k v) kvs s) = (map_of es ++ map_of (rev kvs)) k" .
  have "map_ready (Suc 0) s" using mem by (simp add: map_ready_def)
  from setenv_environ [OF env(1) kvs(2) _ this] env(2) obtain s' where s': "setenv k v s = Some s'" "environ (bytes s') 0 (env_set k v es)"
    "if map_of es k = None then page_added new s s' else \<exists>b. s' = s\<lparr>bytes := b\<rparr>" by (auto simp: new_def)
  have "(\<exists>g \<in> free_frames s. getPhysicalPageAddr new r s' = page_of g OR (PRESENT OR WRITEABLE OR USER)) \<and>
      (\<forall>a. same_page a new \<longrightarrow> user_byte r s' a = 0) \<and> (\<forall>w c h. \<not> same_page w new \<and> holds_page r w c h s \<longrightarrow> holds_page r w c h s')"
    if "page_added new s s'" by (rule page_addedD [OF that, folded r_def])
  with get s' show ?thesis by (cases "map_of es k") (auto intro!: exI [of _ s'])
qed

text \<open>A small memory: an archive with one directory, and the working directory in the environment.\<close>

definition tiny_memory :: "u64 \<Rightarrow> char" where
  "tiny_memory = store_str 0x1000 ''bin/'' (store_str 0x107C ''0'' (store_str ENVIRON ''PWD=/'' (\<lambda>_. CHR 0x00)))"

definition tiny_env :: fs where
  "tiny_env = machine.extend small_machine (fs.fields tiny_memory (\<lambda>_. zero_fd) 0x1000 0x1200)"

lemma tiny_environ: "environ tiny_memory 0 [(''PWD'', ''/'')]"
  by (simp add: entry_ok_def tiny_memory_def env_page_def)

lemma tiny_env_sel:
  "bytes tiny_env = tiny_memory" "vm_ok tiny_env" "pmem tiny_env = pmem small_vm" "free_frames tiny_env = free_frames small_vm"
  "used_frames tiny_env = used_frames small_vm" "getRunCr3 tiny_env = page_of 256"
  using small_kernel_sel small_ok(1)
  by (simp_all add: tiny_env_def small_machine_def machine.extend_def kernel.extend_def machine.fields_def fs.fields_def vm_ok_def phys_inv_def
      free_frames_def used_frames_def getRunCr3_def small_task_def zero_task_def zero_regs_def)

theorem setenv_last_write_witness:
  "variable ''PWD'' (fold (\<lambda>(k, v). put_variable k v) [(''A'', ''1''), (''PWD'', ''/bin/'')] tiny_env) = Some ''/bin/'' \<and>
   (\<exists>s' g. setenv ''B'' ''2'' tiny_env = Some s' \<and> getPhysicalPageAddr 0x304000 (page_of 256) s' = page_of g OR (PRESENT OR WRITEABLE OR USER))"
proof -
  have e: "environ (bytes tiny_env) 0 [(''PWD'', ''/'')]" using tiny_environ by (simp add: tiny_env_sel)
  have wf: "wf_tree (pmem tiny_env) (getRunCr3 tiny_env) (used_frames tiny_env)"
    unfolding tiny_env_sel by (rule small_tree [OF small_used(1)])
  have n: "env_page (Suc (length [(''PWD'', ''/'')])) = 0x304000" by (simp add: env_page_def)
  from setenv_last_write [OF e _ tiny_env_sel(2) wf, of "[(''A'', ''1''), (''PWD'', ''/bin/'')]" "''PWD''" "''/bin/''"]
    setenv_last_write [OF e _ tiny_env_sel(2) wf, of "[]" "''B''" "''2''", unfolded n]
  show ?thesis by (auto simp: entry_ok_def tiny_env_sel small_ok)
qed

text \<open>\<open>changeDirectory\<close> follows the path: the argument is resolved against the directory in \<open>PWD\<close>; when this name fits into the kernel's buffers and the archive has a
  directory of it, \<open>PWD\<close> becomes its absolute path, and nothing else of the environment changes; otherwise the call prints a message and returns -1.\<close>

theorem cd_sets_directory:
  fixes src :: string and s :: "'a fs_scheme"
  assumes "environ (bytes s) 0 es" and "length es < 2 ^ 32" and "map_of es ''PWD'' = Some cwd" and "length cwd < 255"
    and "names_ok st" and "cwd = render_path st \<or> cwd @ [SLASH] = render_path st \<and> cwd \<noteq> []"
    and "archive (bytes s) (BINARY_TARFS_START s) fl (BINARY_TARFS_END s)" and "CHR 0x00 \<notin> set src"
    and "fits_path 256 st src" "\<forall>c \<in> set st. length c < 256"
  defines "dest \<equiv> render_path (walk (split_path src) (if src \<noteq> [] \<and> hd src = SLASH then [] else st))"
  shows "if \<exists>p. lookup (BINARY_TARFS_START s) fl (tl dest) = Some (p, 0) \<and> p \<noteq> 0
    then \<exists>s'. changeDirectory stk src s = Some (0, s') \<and> environ (bytes s') 0 (env_set ''PWD'' dest es)
    else changeDirectory stk src s = Some (- 1, kprintf '' %s : No Such Directory.\<newline>'' [KStr src] s)"
proof -
  obtain j b where j: "env_pos 0 es ''PWD'' = Some j" and cwd: "getCWD (bytes s) stk 256 = Some (value_addr j ''PWD'', b)" "array_string b = Some cwd"
    using getCWD_environ [OF assms(1-4)] by blast
  have "cwd_string stk (bytes s) = Some cwd" by (simp add: cwd_string_def cwd)
  from abs_path_walk [OF this assms(5,6,9,10)] have path: "abs_path 256 stk src 1 (bytes s) = Some dest" and len: "length dest < 256"
    by (simp_all add: dest_def)
  have "CHR 0x00 \<notin> set cwd" using env_pos_entry [OF assms(1) j] assms(3) by (auto simp: entry_ok_def)
  moreover have "set (render_path st) \<subseteq> insert SLASH (set cwd)" using assms(6) by (metis Un_insert_right list.set(1,2) set_append subset_insertI sup_bot.right_neutral subset_refl)
  ultimately have "\<forall>n \<in> set st. CHR 0x00 \<notin> set n" by (auto simp: set_render_path)
  moreover have "\<forall>n \<in> set (split_path src). CHR 0x00 \<notin> set n" using split_path_chars assms(8) by blast
  ultimately have nul: "CHR 0x00 \<notin> set dest" using walk_subset by (fastforce simp: dest_def set_render_path split: if_splits)
  then have "CHR 0x00 \<notin> set (tl dest)" by (cases dest) auto
  from archive_lookup [OF assms(7) this]
  have present: "check_if_directory_present (bytes s) (BINARY_TARFS_START s) (BINARY_TARFS_END s) (tl dest) =
    Some (if \<exists>p. lookup (BINARY_TARFS_START s) fl (tl dest) = Some (p, 0) \<and> p \<noteq> 0 then 1 else 0)"
    by (auto simp: check_if_directory_present_def word_gt_0 split: option.splits)
  have "environ (store_str (value_addr j ''PWD'') (dest @ CHR 0x00 # []) (bytes s)) 0 (env_set ''PWD'' dest es)"
    using assms(2) len nul by (intro environ_replace [OF assms(1) j]) (auto simp: entry_ok_def)
  with present show ?thesis by (simp add: changeDirectory_def path cwd)
qed

theorem cd_sets_directory_witness:
  "\<forall>s. \<exists>s'. changeDirectory (\<lambda>_. CHR 0x00) ''./bin'' (s\<lparr>bytes := tiny_memory, BINARY_TARFS_START := 0x1000, BINARY_TARFS_END := 0x1200\<rparr> :: fs) = Some (0, s') \<and>
     environ (bytes s') 0 [(''PWD'', ''/bin/'')]"
proof
  fix s :: fs
  let ?s = "s\<lparr>bytes := tiny_memory, BINARY_TARFS_START := 0x1000, BINARY_TARFS_END := 0x1200\<rparr>"
  have "cstr tiny_memory 0x1000 = Some ''bin/''" "cstr tiny_memory 0x107C = Some ''0''" "cstr tiny_memory 0x127C = Some []"
    by (rule cstr_holds; simp add: tiny_memory_def)+
  moreover have "toInteger ''0'' = 0" by code_simp
  ultimately have "archive (bytes ?s) (BINARY_TARFS_START ?s) [(''bin/'', 0)] (BINARY_TARFS_END ?s)"
    by (simp add: header_name_def header_size_def pad_def)
  from cd_sets_directory [OF _ _ _ _ _ _ this, of "[(''PWD'', ''/'')]" "''/''" "[]" "''./bin''"] tiny_environ
  show "\<exists>s'. changeDirectory (\<lambda>_. CHR 0x00) ''./bin'' ?s = Some (0, s') \<and> environ (bytes s') 0 [(''PWD'', ''/bin/'')]"
    by (simp add: names_ok_def render_path_def walk_def walk_name_def fits_path_def)
qed

end
