(* ===== verification/Files.thy ===== *)
theory Files
  imports Env Input
begin

text \<open>
  The file descriptors of a process (\<open>sys/tarfs.c\<close>): a table of up to 20 pages with 5 descriptors
  each, of which 0, 1 and 2 are reserved; a descriptor is free when its name is empty. \<open>openFile\<close>, \<open>readFile\<close>,
  \<open>writeFile\<close>, \<open>closeFile\<close>, \<open>openDirectory\<close> and \<open>closeDir\<close>. The contract \<open>reader\<close> is what a program relies
  on: reads deliver the file in order, piece by piece.
\<close>

section \<open>The table\<close>

definition upd_fd :: "u64 \<Rightarrow> (fileDescriptor \<Rightarrow> fileDescriptor) \<Rightarrow> 'a fs_scheme \<Rightarrow> 'a fs_scheme" where
  "upd_fd a f s = s\<lparr>fds := (fds s)(a := f (fds s a))\<rparr>"

text \<open>The descriptor \<open>number\<close> of a page; a descriptor takes 544 bytes.\<close>

definition fd_at :: "u64 \<Rightarrow> nat \<Rightarrow> u64" where
  "fd_at page_address number = page_address + of_nat (544 * number)"

text \<open>\<open>(uint64_t)kmalloc()\<close>: a cleared page, seen as five descriptors.\<close>

definition kmalloc_fds :: "'a fs_scheme \<Rightarrow> u64 \<times> 'a fs_scheme" where
  "kmalloc_fds s =
     (case kmalloc s of (p, s1) \<Rightarrow> (p, s1\<lparr>fds := (\<lambda>a. if a \<in> fd_at p ` {0, 1, 2, 3, 4} then zero_fd else fds s1 a)\<rparr>))"

abbreviation fd_page :: "'a kernel_scheme \<Rightarrow> nat \<Rightarrow> u64" where
  "fd_page s page \<equiv> fd_pointers (tasks s (runningThread s)) page"

text \<open>
  \<^term>\<open>None\<close> is a number outside the table: the source then reads what lies behind or before it.
\<close>

definition get_fd_address :: "i32 \<Rightarrow> 'a fs_scheme \<Rightarrow> (u64 \<times> 'a fs_scheme) option" where
  "get_fd_address fd s =
     (if 0 \<le> sint fd \<and> sint fd < 100
      then (let n = nat (sint fd); page_address = fd_page s (n div 5) in
            Some (if page_address \<noteq> 0 then (fd_at page_address (n mod 5), s)
                  else (NULL, kprintf ''Looks Like an invalid FD..'' [] s)))
      else None)"

text \<open>The two loops that look for a free descriptor, in \<open>openFile\<close> and \<open>openDirectory\<close>.\<close>

definition free_in_page :: "nat \<Rightarrow> 'a fs_scheme \<Rightarrow> nat option" where
  "free_in_page page s =
     List.find (\<lambda>fd. 5 * page + fd > 2 \<and> fd_name (fds s (fd_at (fd_page s page) fd)) 0 = CHR 0x00) [0..<5]"

definition need_page :: "nat \<Rightarrow> 'a fs_scheme \<Rightarrow> 'a fs_scheme" where
  "need_page page s =
     (if fd_page s page = 0
      then (case kmalloc_fds s of (p, s1) \<Rightarrow>
        upd_task (runningThread s1) (\<lambda>k. k\<lparr>fd_pointers := (fd_pointers k)(page := p), fd_count := fd_count k + 5\<rparr>) s1)
      else s)"

fun find_free :: "nat list \<Rightarrow> 'a fs_scheme \<Rightarrow> (nat \<times> u64) option \<times> 'a fs_scheme" where
  "find_free [] s = (None, s)"
| "find_free (page # pages) s =
     (let s1 = need_page page s in
      case free_in_page page s1 of
        Some fd \<Rightarrow> (Some (5 * page + fd, fd_at (fd_page s1 page) fd), s1)
      | None \<Rightarrow> find_free pages s1)"

definition fill_fd :: "string \<Rightarrow> u64 \<Rightarrow> u64 \<Rightarrow> fileDescriptor \<Rightarrow> fileDescriptor" where
  "fill_fd name start dirp d =
     d\<lparr>fd_name := strcpy name (fd_name d), fd_start := start, offset := start,
       d_prev_dir := (d_prev_dir d)(0 := CHR 0x00), d_dirp := dirp\<rparr>"

abbreviation lookup_file :: "'a fs_scheme \<Rightarrow> string \<Rightarrow> u64 option" where
  "lookup_file s name \<equiv> get_file_address (bytes s) (BINARY_TARFS_START s) (BINARY_TARFS_END s) name"

section \<open>Files\<close>

text \<open>The name is tried as that of a file, then as that of a directory.\<close>

definition openFile :: "(nat \<Rightarrow> char) \<Rightarrow> string \<Rightarrow> 'a fs_scheme \<Rightarrow> (i64 \<times> 'a fs_scheme) option" where
  "openFile stk fname s =
     (if fname = [] then Some (- 1, kprintf ''File Name Empty.\<newline>'' [] s)
      else
        Option.bind
          (if strcmp fname ''/'' = 0 then Some (fname, BINARY_TARFS_START s)
           else Option.bind (abs_path 256 stk fname 0 (bytes s)) (\<lambda>newFileName.
             map_option (Pair (tl newFileName)) (lookup_file s (tl newFileName))))
        (\<lambda>(fileName, start). Option.bind
          (if start = 0
           then Option.bind (abs_path 256 stk fname 1 (bytes s)) (\<lambda>newFileName.
             map_option (Pair (tl newFileName)) (lookup_file s (tl newFileName)))
           else Some (fileName, start))
        (\<lambda>(fileName, start).
          if start = 0 then Some (- 1, kprintf ''Invalid File Specified.\<newline>'' [] s)
          else Some (case find_free [0..<20] s of
              (Some (file_fd, fd), s1) \<Rightarrow> (of_nat file_fd, upd_fd fd (fill_fd fileName start 0) s1)
            | (None, s1) \<Rightarrow>
                (- 1, kprintf ''Trying to open more than 100 FD's..This OS allows user to open only 100 FD's per process.\<newline>'' [] s1)))))"

text \<open>
  Descriptor 0 is the terminal. For the others, at most \<open>count\<close> bytes up to a NUL are copied; the
  count is converted to an unsigned size.
\<close>

definition readFile :: "i32 \<Rightarrow> u64 \<Rightarrow> i32 \<Rightarrow> 'a fs_scheme \<Rightarrow> (u64 \<times> 'a fs_scheme) option" where
  "readFile fd buf count s =
     (if sint fd < 0 then Some (- 1, kprintf ''Invalid FD provided.\<newline>'' [] s)
      else if fd = 0 then
        (case read_stdin (nat (sint count)) (s\<lparr>bytes := (bytes s)(buf := CHR ''0'')\<rparr>) of
           (str, s1) \<Rightarrow> Some (0, s1\<lparr>bytes := store_str buf str (bytes s1)\<rparr>))
      else
        Option.bind (get_fd_address fd s) (\<lambda>(fd_struct, s1).
          if fd_struct = NULL then Some (- 1, s1)
          else if fd_name (fds s1 fd_struct) 0 \<noteq> CHR 0x00
          then (case memread (offset (fds s1 fd_struct)) buf (unat (scast count :: u64)) (bytes s1) of
                  (val, m) \<Rightarrow> Some (scast val, upd_fd fd_struct (\<lambda>d. d\<lparr>offset := offset d + scast val\<rparr>) (s1\<lparr>bytes := m\<rparr>)))
          else Some (- 1, kprintf ''Incorrect File Descriptor.'' [] s1)))"

definition closeFile :: "i32 \<Rightarrow> 'a fs_scheme \<Rightarrow> (u64 \<times> 'a fs_scheme) option" where
  "closeFile fd s =
     (if sint fd < 0 then Some (1, s)
      else Option.bind (get_fd_address fd s) (\<lambda>(fd_struct, s1).
        if fd_struct = NULL then Some (1, s1)
        else if fd_name (fds s1 fd_struct) 0 \<noteq> CHR 0x00
        then Some (0, upd_fd fd_struct (\<lambda>d. d\<lparr>fd_name := (fd_name d)(0 := CHR 0x00)\<rparr>) s1)
        else Some (0, kprintf ''Err: Trying to close an unopened file.\<newline>'' [] s1)))"

definition writeFile :: "i32 \<Rightarrow> u64 \<Rightarrow> i32 \<Rightarrow> 'a fs_scheme \<Rightarrow> (u64 \<times> 'a fs_scheme) option" where
  "writeFile fd buf count s =
     (if fd = 1 \<or> fd = 2
      then map_option (\<lambda>str. (scast count, kprintf ''%s'' [KStr str] s)) (cstr (bytes s) buf)
      else Some (0, kprintf ''Does not support write system call for now.. Only stdout supported.\<newline>'' [] s))"

section \<open>Directories\<close>

definition openDirectory :: "(nat \<Rightarrow> char) \<Rightarrow> string \<Rightarrow> 'a fs_scheme \<Rightarrow> (u64 \<times> 'a fs_scheme) option" where
  "openDirectory stk dir s =
     (if dir = [] then Some (NULL, kprintf ''Err: Dir Name Empty.\<newline>'' [] s)
      else
        Option.bind
          (if strcmp dir ''/'' = 0 then Some (dir, BINARY_TARFS_START s)
           else Option.bind (abs_path 256 stk dir 1 (bytes s)) (\<lambda>newDirName.
             map_option (Pair (tl newDirName))
               (get_dir_address (bytes s) (BINARY_TARFS_START s) (BINARY_TARFS_END s) (tl newDirName))))
        (\<lambda>(dirName, start).
          if start = 0 then Some (NULL, kprintf ''Invalid Directory Specified.\<newline>'' [] s)
          else Some (case find_free [0..<20] s of
              (Some (dir_fd, fd), s1) \<Rightarrow> (fd, upd_fd fd (fill_fd dirName start fd) s1)
            | (None, s1) \<Rightarrow>
                (NULL, kprintf ''Trying to open more than 100 FD's..This OS allows user to open only 100 FD's per process.\<newline>'' [] s1))))"

text \<open>The descriptor whose \<open>d_dirp\<close> is the given pointer, -1 when there is none.\<close>

fun get_fd_loop :: "u64 \<Rightarrow> 'a fs_scheme \<Rightarrow> nat list \<Rightarrow> i32" where
  "get_fd_loop dirp s [] = - 1"
| "get_fd_loop dirp s (page # pages) =
     (let page_address = fd_page s page in
      if page_address = 0 then - 1
      else (case List.find (\<lambda>fd. 5 * page + fd > 2 \<and> d_dirp (fds s (fd_at page_address fd)) = dirp) [0..<5] of
              Some fd \<Rightarrow> of_nat (5 * page + fd)
            | None \<Rightarrow> get_fd_loop dirp s pages))"

definition get_fd :: "u64 \<Rightarrow> 'a fs_scheme \<Rightarrow> i32" where
  "get_fd dirp s = get_fd_loop dirp s [0..<nat (sint (fd_count (tasks s (runningThread s)))) div 5]"

definition closeDir :: "u64 \<Rightarrow> 'a fs_scheme \<Rightarrow> (i64 \<times> 'a fs_scheme) option" where
  "closeDir dirp s =
     (if dirp = NULL then Some (0, s)
      else (let fd = get_fd dirp s in
        if sint fd < 0 then Some (0, kprintf ''Invalid DIR * provided.\<newline>'' [] s)
        else Option.bind (get_fd_address fd s) (\<lambda>(fd_struct, s1).
          if fd_struct = NULL then Some (1, s1)
          else if fd_name (fds s1 fd_struct) 0 \<noteq> CHR 0x00
          then Some (0, upd_fd fd_struct (\<lambda>d. d\<lparr>fd_name := (fd_name d)(0 := CHR 0x00)\<rparr>) s1)
          else Some (0, kprintf ''Err: Trying to close an unopened Directory FD.\<newline>'' [] s1))))"

section \<open>The table as a map\<close>

text \<open>The open descriptors, by number.\<close>

definition descr :: "'a fs_scheme \<Rightarrow> nat \<Rightarrow> fileDescriptor option" where
  "descr s i =
     (let page = fd_page s (i div 5); d = fds s (fd_at page (i mod 5)) in
      if i < 100 \<and> page \<noteq> 0 \<and> fd_name d 0 \<noteq> CHR 0x00 then Some d else None)"

text \<open>
  The invariant: the first \<open>n\<close> pages of the table are allocated, each in a used frame of its own, and \<open>fd_count\<close> counts their descriptors.
\<close>

definition fd_ok :: "'a fs_scheme \<Rightarrow> nat \<Rightarrow> bool" where
  "fd_ok s n \<longleftrightarrow> vm_ok s \<and> n \<le> 20 \<and> fd_count (tasks s (runningThread s)) = of_nat (5 * n) \<and>
     (\<forall>i < 20. n \<le> i \<longrightarrow> fd_page s i = 0) \<and>
     (\<forall>i < n. \<exists>f < 65536. f \<notin> free_frames s \<and> fd_page s i = page_of f + KERNBASE) \<and> inj_on (fd_page s) {..<n}"

lemma unat_fd_at:
  assumes "f < 65536" and "k < 5"
  shows "unat (fd_at (page_of f + KERNBASE) k) = unat KERNBASE + 4096 * f + 544 * k"
proof -
  have "fd_at (page_of f + KERNBASE) k = KERNBASE + of_nat (4096 * f + 544 * k)" by (simp add: fd_at_def page_of_def)
  moreover have "unat (of_nat (4096 * f + 544 * k) :: u64) = 4096 * f + 544 * k"
    using assms by (simp add: unat_of_nat take_bit_nat_eq_self del: of_nat_add of_nat_mult)
  ultimately show ?thesis using assms unat_add_64 [of KERNBASE "of_nat (4096 * f + 544 * k)"] by (simp add: unat_KERNBASE)
qed

lemma fd_at_inj:
  assumes "f < 65536" "g < 65536" "k < 5" "l < 5" "fd_at (page_of f + KERNBASE) k = fd_at (page_of g + KERNBASE) l"
  shows "f = g \<and> k = l"
proof -
  have "unat (fd_at (page_of f + KERNBASE) k) = unat (fd_at (page_of g + KERNBASE) l)" using assms(5) by simp
  then have e: "4096 * f + 544 * k = 4096 * g + 544 * l" using assms(1-4) by (simp only: unat_fd_at)
  have "(4096 * f + 544 * k) div 4096 = f" "(4096 * g + 544 * l) div 4096 = g" using assms(3,4) by simp_all
  with e have "f = g" by simp
  with e show ?thesis by simp
qed

lemma fd_at_zero: "fd_at p 0 = p"
  by (simp add: fd_at_def)

lemma page_not_NULL:
  assumes "f < 65536"
  shows "page_of f + KERNBASE \<noteq> 0"
proof
  assume z: "page_of f + KERNBASE = 0"
  have "unat (fd_at (page_of f + KERNBASE) 0) = unat KERNBASE + 4096 * f + 544 * 0" using assms by (rule unat_fd_at) simp
  then have "unat (0 :: u64) = unat KERNBASE + 4096 * f" by (simp only: fd_at_zero z mult_0_right add_0_right)
  then show False by (simp add: unat_KERNBASE)
qed

lemma fd_okD:
  assumes "fd_ok s n"
  shows "n \<le> 20" "\<And>i. n \<le> i \<Longrightarrow> i < 20 \<Longrightarrow> fd_page s i = 0" "\<And>i. i < n \<Longrightarrow> fd_page s i \<noteq> 0"
    "\<And>i. i < n \<Longrightarrow> \<exists>f < 65536. f \<notin> free_frames s \<and> fd_page s i = page_of f + KERNBASE"
  using assms page_not_NULL unfolding fd_ok_def by (blast, blast, metis, blast)

text \<open>Two numbers of allocated descriptors have different addresses.\<close>

definition fd_addr :: "'a kernel_scheme \<Rightarrow> nat \<Rightarrow> u64" where
  "fd_addr s i = fd_at (fd_page s (i div 5)) (i mod 5)"

lemma fd_addr_inj:
  assumes "fd_ok s n" and "i < 5 * n" and "j < 5 * n" and "fd_addr s i = fd_addr s j"
  shows "i = j"
proof -
  have ij: "i div 5 < n" "j div 5 < n" using assms(2,3) by simp_all
  obtain f where f: "f < 65536" "fd_page s (i div 5) = page_of f + KERNBASE" using fd_okD(4) [OF assms(1) ij(1)] by blast
  obtain g where g: "g < 65536" "fd_page s (j div 5) = page_of g + KERNBASE" using fd_okD(4) [OF assms(1) ij(2)] by blast
  note fg = f g
  then have "f = g \<and> i mod 5 = j mod 5" using assms(4) by (intro fd_at_inj) (simp_all add: fd_addr_def)
  moreover from this fg ij have "i div 5 = j div 5" using assms(1) by (auto simp: fd_ok_def inj_on_def)
  ultimately show ?thesis by (metis div_mult_mod_eq)
qed

lemma descr_upd_fd:
  assumes "fd_ok s n" and "i < 5 * n"
  shows "descr (upd_fd (fd_addr s i) g s) = (descr s)(i := (let d = g (fds s (fd_addr s i)) in if fd_name d 0 \<noteq> CHR 0x00 then Some d else None))"
proof
  fix j
  have n: "n \<le> 20" and p: "fd_page s (i div 5) \<noteq> 0" using fd_okD(1,3) [OF assms(1)] assms(2) by simp_all
  show "descr (upd_fd (fd_addr s i) g s) j = ((descr s)(i := (let d = g (fds s (fd_addr s i)) in if fd_name d 0 \<noteq> CHR 0x00 then Some d else None))) j"
  proof (cases "j < 5 * n")
    case True
    then have "j = i \<or> fd_addr s j \<noteq> fd_addr s i" using fd_addr_inj [OF assms(1) _ assms(2)] by blast
    then show ?thesis using n p assms(2) True by (auto simp: descr_def upd_fd_def Let_def fd_addr_def)
  next
    case False
    then have "descr s j = None" "descr (upd_fd (fd_addr s i) g s) j = None"
      using fd_okD(2) [OF assms(1), of "j div 5"] by (auto simp: descr_def upd_fd_def Let_def)
    then show ?thesis using False assms(2) by simp
  qed
qed

lemma fd_ok_upd_fd [simp]: "fd_ok (upd_fd a g s) n \<longleftrightarrow> fd_ok s n"
  by (simp add: fd_ok_def upd_fd_def vm_ok_def phys_inv_def free_frames_def)

section \<open>Finding a free descriptor\<close>

lemma descr_page: "descr s (5 * page + k) = (if k < 5 \<and> page < 20 \<and> fd_page s page \<noteq> 0 \<and> fd_name (fds s (fd_at (fd_page s page) k)) 0 \<noteq> CHR 0x00
    then Some (fds s (fd_at (fd_page s page) k)) else None)" if "k < 5"
  using that by (auto simp: descr_def Let_def)

lemma find_upt_Some: "List.find P [0..<n] = Some k \<Longrightarrow> k < n \<and> P k \<and> (\<forall>l < k. \<not> P l)"
  by (auto simp: find_Some_iff)

lemma find_upt_None: "List.find P [0..<n] = None \<longleftrightarrow> (\<forall>k < n. \<not> P k)"
  by (auto simp: find_None_iff)

lemma free_in_page_None:
  assumes "fd_ok s n" and "page < n"
  shows "free_in_page page s = None \<longleftrightarrow> (\<forall>k < 5. 2 < 5 * page + k \<longrightarrow> descr s (5 * page + k) \<noteq> None)"
  using fd_okD(1,3) [OF assms(1)] assms(2) by (auto simp: free_in_page_def find_upt_None descr_page simp del: upt_rec_numeral)

lemma free_in_page_Some:
  assumes "fd_ok s n" and "page < n" and "free_in_page page s = Some k"
  shows "k < 5" "2 < 5 * page + k" "descr s (5 * page + k) = None" "\<forall>l < k. 2 < 5 * page + l \<longrightarrow> descr s (5 * page + l) \<noteq> None"
proof -
  note f = find_upt_Some [OF assms(3) [unfolded free_in_page_def]]
  then show "k < 5" "2 < 5 * page + k" "descr s (5 * page + k) = None" by (simp_all add: descr_page)
  show "\<forall>l < k. 2 < 5 * page + l \<longrightarrow> descr s (5 * page + l) \<noteq> None"
    using f fd_okD(1,3) [OF assms(1)] assms(2) by (simp add: descr_page)
qed

text \<open>What an operation of the table leaves alone.\<close>

definition table_only :: "'a fs_scheme \<Rightarrow> 'a fs_scheme \<Rightarrow> bool" where
  "table_only s s' \<longleftrightarrow> bytes s' = bytes s \<and> BINARY_TARFS_START s' = BINARY_TARFS_START s \<and> BINARY_TARFS_END s' = BINARY_TARFS_END s \<and>
     runningThread s' = runningThread s \<and> klog s' = klog s \<and> vmas s' = vmas s \<and>
     (\<forall>t. \<exists>p c. tasks s' t = (tasks s t)\<lparr>fd_pointers := p, fd_count := c\<rparr>)"

lemma table_only_refl [simp]: "table_only s s"
proof -
  have "k = k\<lparr>fd_pointers := fd_pointers k, fd_count := fd_count k\<rparr>" for k :: Task by simp
  then show ?thesis unfolding table_only_def by blast
qed

text \<open>Every \<open>d_dirp\<close> of the table is empty or its own address, so that \<open>get_fd\<close> finds the descriptor a pointer stands for.\<close>

definition dirp_ok :: "'a fs_scheme \<Rightarrow> nat \<Rightarrow> bool" where
  "dirp_ok s n \<longleftrightarrow> (\<forall>j < 5 * n. d_dirp (fds s (fd_addr s j)) = 0 \<or> d_dirp (fds s (fd_addr s j)) = fd_addr s j)"

text \<open>The next page of the table: five free descriptors, the others stay.\<close>

lemma need_page_new:
  assumes ok: "fd_ok s n" and n: "n < 20" and ne: "free_frames s \<noteq> {}"
  shows "fd_ok (need_page n s) (Suc n) \<and> descr (need_page n s) = descr s \<and> table_only s (need_page n s) \<and>
    (dirp_ok s n \<longrightarrow> dirp_ok (need_page n s) (Suc n))"
proof -
  have vm: "vm_ok s" and z: "fd_page s n = 0" using ok fd_okD(2) [OF ok order_refl n] by (simp_all add: fd_ok_def)
  obtain p s1 where k: "kmalloc s = (p, s1)" by fastforce
  obtain g where g: "g \<in> free_frames s" "g < 65536" "p = page_of g + KERNBASE" "vm_ok s1" "free_frames s1 = free_frames s - {g}"
    by (rule kmalloc_tree [OF vm ne k]) blast
  have "phys_only s s1" using phys_only_kmalloc [of s] k by simp
  note P = phys_only_bytes [OF this]
  define s' where "s' = need_page n s"
  let ?F = "\<lambda>a. if a \<in> fd_at p ` {0, 1, 2, 3, 4} then zero_fd else fds s a"
  let ?k = "tasks s (runningThread s)"
  have s': "fds s' = ?F" "tasks s' = (tasks s)(runningThread s := ?k\<lparr>fd_pointers := (fd_pointers ?k)(n := p), fd_count := fd_count ?k + 5\<rparr>)"
    "runningThread s' = runningThread s" "bytes s' = bytes s" "free_frames s' = free_frames s1" "vm_ok s'"
    "BINARY_TARFS_START s' = BINARY_TARFS_START s" "BINARY_TARFS_END s' = BINARY_TARFS_END s" "klog s' = klog s" "vmas s' = vmas s"
    using g(4) by (simp_all add: s'_def need_page_def z kmalloc_fds_def k upd_task_def P vm_ok_def phys_inv_def free_frames_def cong: if_cong)
  have pages: "fd_page s' i = (if i = n then p else fd_page s i)" for i by (simp add: s')
  have fresh: "fd_page s i \<noteq> p" if lt: "i < n" for i
  proof -
    obtain f where "f < 65536" "f \<notin> free_frames s" "fd_page s i = page_of f + KERNBASE" using fd_okD(4) [OF ok lt] by blast
    with g show ?thesis by (auto simp: page_of_inj)
  qed
  have "\<exists>f < 65536. f \<notin> free_frames s' \<and> fd_page s' i = page_of f + KERNBASE" if lt: "i < Suc n" for i
  proof (cases "i = n")
    case True
    then show ?thesis using g by (auto simp: pages s')
  next
    case False
    then obtain f where "f < 65536" "f \<notin> free_frames s" "fd_page s i = page_of f + KERNBASE" using fd_okD(4) [OF ok, of i] lt by auto
    with False show ?thesis using g by (auto simp: pages s')
  qed
  moreover have "inj_on (fd_page s') {..<Suc n}"
    using ok fresh by (auto simp: fd_ok_def inj_on_def pages lessThan_Suc split: if_splits)
  ultimately have "fd_ok s' (Suc n)"
    using ok n s' by (auto simp: fd_ok_def pages)
  moreover have old: "fds s' (fd_addr s' i) = fds s (fd_addr s i)" "fd_addr s' i = fd_addr s i" if lt: "i div 5 < n" for i
  proof -
    obtain f where f: "f < 65536" "f \<notin> free_frames s" "fd_page s (i div 5) = page_of f + KERNBASE" using fd_okD(4) [OF ok lt] by blast
    have "fd_at (fd_page s (i div 5)) (i mod 5) \<noteq> fd_at p k" if "k < 5" for k
      using fd_at_inj [of f g "i mod 5" k] f g that by auto
    then have "fd_at (fd_page s (i div 5)) (i mod 5) \<notin> fd_at p ` {0, 1, 2, 3, 4}" by auto
    with lt show "fds s' (fd_addr s' i) = fds s (fd_addr s i)" "fd_addr s' i = fd_addr s i" by (simp_all add: fd_addr_def pages s'(1))
  qed
  moreover have new: "fds s' (fd_at p (i mod 5)) = zero_fd" for i
  proof -
    have "i mod 5 < 5" by simp
    then have "i mod 5 \<in> {0, 1, 2, 3, 4}" by (simp only: insert_iff empty_iff) linarith
    then have "fd_at p (i mod 5) \<in> fd_at p ` {0, 1, 2, 3, 4}" by (rule imageI)
    then show ?thesis by (simp only: s'(1) if_True)
  qed
  moreover have "descr s' i = descr s i" for i
  proof (cases "i div 5 < n")
    case True
    with old [OF True] show ?thesis by (simp add: descr_def Let_def pages fd_addr_def)
  next
    case False
    have "descr s i = None" using fd_okD(2) [OF ok, of "i div 5"] False by (auto simp: descr_def Let_def)
    moreover have "descr s' i = None" using new [of i] fd_okD(2) [OF ok, of "i div 5"] False
      by (auto simp: descr_def Let_def pages zero_fd_def)
    ultimately show ?thesis by simp
  qed
  moreover have "table_only s s'"
  proof -
    have "\<exists>p c. tasks s' t = (tasks s t)\<lparr>fd_pointers := p, fd_count := c\<rparr>" for t
    proof (cases "t = runningThread s")
      case True
      then show ?thesis unfolding s'(2) by auto
    next
      case False
      have "k = k\<lparr>fd_pointers := fd_pointers k, fd_count := fd_count k\<rparr>" for k :: Task by simp
      with False show ?thesis unfolding s'(2) by (metis fun_upd_other)
    qed
    then show ?thesis unfolding table_only_def by (simp add: s'(3,4,7-10))
  qed
  moreover have "dirp_ok s' (Suc n)" if d: "dirp_ok s n"
    unfolding dirp_ok_def
  proof (intro allI impI)
    fix j assume j: "j < 5 * Suc n"
    show "d_dirp (fds s' (fd_addr s' j)) = 0 \<or> d_dirp (fds s' (fd_addr s' j)) = fd_addr s' j"
    proof (cases "j div 5 < n")
      case True
      then have "j < 5 * n" by simp
      with d old [OF True] show ?thesis by (simp add: dirp_ok_def)
    next
      case False
      with j have "j div 5 = n" by simp
      then have "fd_addr s' j = fd_at p (j mod 5)" by (simp add: fd_addr_def pages)
      with new [of j] show ?thesis by (simp add: zero_fd_def)
    qed
  qed
  ultimately show ?thesis by (auto simp: s'_def)
qed

text \<open>The search: the least free number from 3 on; it allocates at most one page, and no open descriptor changes.\<close>

definition least_free :: "'a fs_scheme \<Rightarrow> nat \<Rightarrow> bool" where
  "least_free s i \<longleftrightarrow> 3 \<le> i \<and> i < 100 \<and> descr s i = None \<and> (\<forall>j. 3 \<le> j \<and> j < i \<longrightarrow> descr s j \<noteq> None)"

lemma find_free_from:
  assumes "fd_ok s n" and "free_frames s \<noteq> {}" and "k \<le> n" and "\<forall>j. 3 \<le> j \<and> j < 5 * k \<longrightarrow> descr s j \<noteq> None"
  shows "\<exists>r s1 n'. find_free [k..<20] s = (r, s1) \<and> fd_ok s1 n' \<and> descr s1 = descr s \<and> table_only s s1 \<and> (dirp_ok s n \<longrightarrow> dirp_ok s1 n') \<and>
    (case r of None \<Rightarrow> \<forall>i. \<not> least_free s i | Some (i, a) \<Rightarrow> least_free s i \<and> i < 5 * n' \<and> a = fd_addr s1 i)"
  using assms(3,4)
proof (induction "20 - k" arbitrary: k)
  case 0
  then have "k = 20" using fd_okD(1) [OF assms(1)] by simp
  then have "\<not> least_free s i" for i using 0(3) by (auto simp: least_free_def)
  with assms(1) \<open>k = 20\<close> show ?case by (intro exI [of _ None] exI [of _ s] exI [of _ n]) simp
next
  case (Suc x)
  then have k: "k < 20" "[k..<20] = k # [Suc k..<20]" by (simp_all add: upt_conv_Cons del: upt_rec_numeral)
  define s1 where "s1 = need_page k s"
  obtain n1 where n1: "fd_ok s1 n1" "k < n1" and s1: "descr s1 = descr s" "table_only s s1" "k < n \<Longrightarrow> s1 = s" "dirp_ok s n \<Longrightarrow> dirp_ok s1 n1"
  proof (cases "k < n")
    case True
    then have "s1 = s" using fd_okD(3) [OF assms(1)] by (simp add: s1_def need_page_def)
    with True assms(1) show ?thesis by (intro that) auto
  next
    case False
    with Suc.prems have "k = n" by simp
    with need_page_new [OF assms(1) _ assms(2)] k show ?thesis by (intro that [of "Suc n"]) (auto simp: s1_def)
  qed
  show ?case
  proof (cases "free_in_page k s1")
    case (Some i)
    note F = free_in_page_Some [OF n1 Some, unfolded s1(1)]
    have "descr s j \<noteq> None" if "3 \<le> j" "j < 5 * k + i" for j
    proof (cases "j < 5 * k")
      case False
      then obtain l where "j = 5 * k + l" using le_Suc_ex by (metis not_less)
      with F(4) that show ?thesis by auto
    qed (use Suc.prems(2) that in auto)
    then have "least_free s (5 * k + i)" using F k(1) by (auto simp: least_free_def)
    moreover have "fd_at (fd_page s1 k) i = fd_addr s1 (5 * k + i)" using F(1) by (simp add: fd_addr_def)
    moreover have "5 * k + i < 5 * n1" using F(1) n1(2) by simp
    moreover have "find_free [k..<20] s = (Some (5 * k + i, fd_at (fd_page s1 k) i), s1)" using Some by (simp add: k(2) s1_def Let_def)
    ultimately show ?thesis using n1 s1 by (intro exI [of _ "Some (5 * k + i, fd_at (fd_page s1 k) i)"] exI [of _ s1] exI [of _ n1]) simp
  next
    case None
    then have N: "\<forall>i < 5. 2 < 5 * k + i \<longrightarrow> descr s (5 * k + i) \<noteq> None" using free_in_page_None [OF n1] by (simp add: s1(1))
    have "k < n"
    proof (rule ccontr)
      assume "\<not> k < n"
      then have "k = n" using Suc.prems by simp
      then have "descr s (5 * k + 4) = None" using fd_okD(2) [OF assms(1), of k] k by (simp add: descr_page)
      with N [rule_format, of 4] show False by simp
    qed
    have "\<forall>j. 3 \<le> j \<and> j < 5 * Suc k \<longrightarrow> descr s j \<noteq> None"
    proof (intro allI impI)
      fix j assume j: "3 \<le> j \<and> j < 5 * Suc k"
      show "descr s j \<noteq> None"
      proof (cases "j < 5 * k")
        case False
        then obtain l where "j = 5 * k + l" using le_Suc_ex by (metis not_less)
        with N j show ?thesis by auto
      qed (use Suc.prems(2) j in auto)
    qed
    from Suc.hyps(1) [OF _ _ this] Suc.hyps(2) \<open>k < n\<close> have
      "\<exists>r s1 n'. find_free [Suc k..<20] s = (r, s1) \<and> fd_ok s1 n' \<and> descr s1 = descr s \<and> table_only s s1 \<and> (dirp_ok s n \<longrightarrow> dirp_ok s1 n') \<and>
        (case r of None \<Rightarrow> \<forall>i. \<not> least_free s i | Some (i, a) \<Rightarrow> least_free s i \<and> i < 5 * n' \<and> a = fd_addr s1 i)" by auto
    moreover have "find_free [k..<20] s = find_free [Suc k..<20] s" using None s1(3) [OF \<open>k < n\<close>] by (simp add: k(2) s1_def Let_def)
    ultimately show ?thesis by simp
  qed
qed

lemma find_free_spec:
  fixes s :: "'a fs_scheme"
  assumes "fd_ok s n" and "free_frames s \<noteq> {}"
  shows "\<exists>r s1 n'. find_free [0..<20] s = (r, s1) \<and> fd_ok s1 n' \<and> descr s1 = descr s \<and> table_only s s1 \<and> (dirp_ok s n \<longrightarrow> dirp_ok s1 n') \<and>
    (case r of None \<Rightarrow> \<forall>i. \<not> least_free s i | Some (i, a) \<Rightarrow> least_free s i \<and> i < 5 * n' \<and> a = fd_addr s1 i)"
  by (rule find_free_from [OF assms]) simp_all

section \<open>The contract of a reader\<close>

text \<open>
  \<open>view s cs\<close>: the characters not yet read are \<open>cs\<close>. A client that reads piece by piece gets the file, whatever the sizes.
\<close>

fun reads :: "(nat \<Rightarrow> 's \<Rightarrow> string \<times> 's) \<Rightarrow> nat list \<Rightarrow> 's \<Rightarrow> string \<times> 's" where
  "reads get [] s = ([], s)"
| "reads get (n # ns) s = (case get n s of (xs, s1) \<Rightarrow> case reads get ns s1 of (ys, s2) \<Rightarrow> (xs @ ys, s2))"

locale reader =
  fixes view :: "'s \<Rightarrow> string \<Rightarrow> bool"
    and get :: "nat \<Rightarrow> 's \<Rightarrow> string \<times> 's"
    and N :: nat
  assumes get_view: "view s cs \<Longrightarrow> n \<le> N \<Longrightarrow> fst (get n s) = take n cs \<and> view (snd (get n s)) (drop n cs)"
begin

lemma reads_view:
  "view s cs \<Longrightarrow> \<forall>n \<in> set ns. n \<le> N \<Longrightarrow>
     fst (reads get ns s) = take (sum_list ns) cs \<and> view (snd (reads get ns s)) (drop (sum_list ns) cs)"
proof (induction ns arbitrary: s cs)
  case (Cons n ns)
  obtain xs s1 where r: "get n s = (xs, s1)" by fastforce
  with get_view [OF Cons.prems(1), of n] Cons.prems(2) have "xs = take n cs" "view s1 (drop n cs)" by simp_all
  with Cons.IH [of s1 "drop n cs"] Cons.prems(2) r show ?case by (simp add: take_add add.commute prod.case_eq_if)
qed simp

lemma reads_all: "view s cs \<Longrightarrow> \<forall>n \<in> set ns. n \<le> N \<Longrightarrow> length cs \<le> sum_list ns \<Longrightarrow> fst (reads get ns s) = cs"
  using reads_view by simp

end

lemma memread_loop_holds:
  assumes "holds m src (cs @ [CHR 0x00])" and "CHR 0x00 \<notin> set cs"
    and "\<And>i j. i \<le> length cs \<Longrightarrow> j < n \<Longrightarrow> src + of_nat i \<noteq> dest + of_nat j"
  shows "memread_loop n src dest m = (n - length cs, store_str dest (if n \<le> length cs then take n cs else cs @ [CHR 0x00]) m)"
  using assms
proof (induction n arbitrary: src dest cs m)
  case (Suc n)
  show ?case
  proof (cases cs)
    case Nil
    with Suc.prems(1) show ?thesis by (simp add: fun_upd_def)
  next
    case (Cons c cs')
    have "src + 1 + of_nat i \<noteq> dest + 1 + of_nat j" if "i \<le> length cs'" "j < n" for i j
      using Suc.prems(3) [of "Suc i" "Suc j"] that Cons by (simp add: add_ac)
    moreover define m' where "m' = m(dest := c)"
    have "holds m' (src + 1) (cs' @ [CHR 0x00])"
    proof (rule holds_cong)
      show "holds m (src + 1) (cs' @ [CHR 0x00])" using Suc.prems(1) Cons by simp
      fix i assume "i < length (cs' @ [CHR 0x00])"
      then show "m' (src + 1 + of_nat i) = m (src + 1 + of_nat i)"
        using Suc.prems(3) [of "Suc i" 0] Cons by (simp add: m'_def add_ac)
    qed
    ultimately have "memread_loop n (src + 1) (dest + 1) m' =
        (n - length cs', store_str (dest + 1) (if n \<le> length cs' then take n cs' else cs' @ [CHR 0x00]) m')"
      using Suc.prems(2) Cons by (intro Suc.IH) auto
    then show ?thesis using Suc.prems(1,2) Cons by (auto simp: m'_def)
  qed
qed simp

text \<open>The model's reader: descriptor \<open>fd\<close> read into a buffer of \<open>N\<close> bytes that does not overlap the file.\<close>

definition file_view :: "nat \<Rightarrow> u64 \<Rightarrow> nat \<Rightarrow> 'a fs_scheme \<Rightarrow> string \<Rightarrow> bool" where
  "file_view fd buf N s cs \<longleftrightarrow> 0 < fd \<and> N < 2 ^ 31 \<and> CHR 0x00 \<notin> set cs \<and> (\<exists>n. fd_ok s n) \<and>
     (\<exists>d. descr s fd = Some d \<and> holds (bytes s) (offset d) (cs @ [CHR 0x00]) \<and>
        (\<forall>i \<le> length cs. \<forall>j < N. offset d + of_nat i \<noteq> buf + of_nat j))"

definition file_read :: "nat \<Rightarrow> u64 \<Rightarrow> nat \<Rightarrow> 'a fs_scheme \<Rightarrow> string \<times> 'a fs_scheme" where
  "file_read fd buf n s =
     (case readFile (of_nat fd) buf (of_nat n) s of
        Some (val, s1) \<Rightarrow> (map (\<lambda>i. bytes s1 (buf + of_nat i)) [0..<unat val], s1)
      | None \<Rightarrow> ([], s))"

lemma descr_bound: "fd_ok s n \<Longrightarrow> descr s i = Some d \<Longrightarrow> i < 5 * n"
  using fd_okD(2) [of s n "i div 5"] div_le_mono [of i 99 5] by (cases "i div 5 < n") (auto simp: descr_def Let_def split: if_splits)

lemma fd_addr_not_NULL:
  assumes "fd_ok s n" and "descr s i = Some d"
  shows "fd_addr s i \<noteq> NULL"
proof
  assume z: "fd_addr s i = NULL"
  have "i div 5 < n" using descr_bound [OF assms] by simp
  then obtain f where f: "f < 65536" "fd_page s (i div 5) = page_of f + KERNBASE" using fd_okD(4) [OF assms(1)] by blast
  then have "unat (fd_addr s i) = unat KERNBASE + 4096 * f + 544 * (i mod 5)" unfolding fd_addr_def f(2) by (intro unat_fd_at) simp_all
  with z show False by (simp add: unat_KERNBASE)
qed

lemma get_fd_address_open:
  assumes "descr s fd = Some d"
  shows "get_fd_address (of_nat fd) s = Some (fd_addr s fd, s)" "fds s (fd_addr s fd) = d" "fd_name d 0 \<noteq> CHR 0x00" "fd < 100"
proof -
  have d: "fd < 100" "fd_page s (fd div 5) \<noteq> 0" "fds s (fd_addr s fd) = d" "fd_name d 0 \<noteq> CHR 0x00"
    using assms by (auto simp: descr_def fd_addr_def Let_def split: if_splits)
  then have "sint (of_nat fd :: i32) = int fd" by (simp add: signed_of_nat signed_take_bit_int_eq_self)
  with d show "get_fd_address (of_nat fd) s = Some (fd_addr s fd, s)" by (simp add: get_fd_address_def fd_addr_def Let_def)
  show "fds s (fd_addr s fd) = d" "fd_name d 0 \<noteq> CHR 0x00" "fd < 100" using d by simp_all
qed

lemma readFile_view:
  assumes v: "file_view fd buf N s cs" and n: "n \<le> N"
  shows "readFile (of_nat fd) buf (of_nat n) s = Some (of_nat (min n (length cs)),
    upd_fd (fd_addr s fd) (\<lambda>d. d\<lparr>offset := offset d + of_nat (min n (length cs))\<rparr>)
      (s\<lparr>bytes := store_str buf (if n \<le> length cs then take n cs else cs @ [CHR 0x00]) (bytes s)\<rparr>))"
proof -
  obtain d x where x: "fd_ok s x" and d: "descr s fd = Some d" "holds (bytes s) (offset d) (cs @ [CHR 0x00])"
    "\<And>i j. i \<le> length cs \<Longrightarrow> j < N \<Longrightarrow> offset d + of_nat i \<noteq> buf + of_nat j" and z: "0 < fd" "N < 2 ^ 31" "CHR 0x00 \<notin> set cs"
    using v by (auto simp: file_view_def)
  note A = get_fd_address_open [OF d(1)]
  have i: "sint (of_nat fd :: i32) = int fd" "(of_nat fd :: i32) \<noteq> 0"
    using A(4) z(1) of_nat_small_0 [of fd] by (simp_all add: signed_of_nat signed_take_bit_int_eq_self)
  have sn: "sint (of_nat n :: i32) = int n" using n z(2) by (simp add: signed_of_nat signed_take_bit_int_eq_self)
  then have un: "unat (scast (of_nat n :: i32) :: u64) = n" using n z(2) by (simp add: scast_eq unat_of_nat take_bit_nat_eq_self)
  let ?k = "min n (length cs)"
  have k: "(of_nat n - of_nat (n - length cs) :: i32) = of_nat ?k" by (cases "n \<le> length cs") (simp_all add: of_nat_diff)
  have "sint (of_nat ?k :: i32) = int ?k" using n z(2) by (simp add: signed_of_nat signed_take_bit_int_eq_self)
  then have sk: "(scast (of_nat ?k :: i32) :: u64) = of_nat ?k" by (simp add: scast_eq)
  have "memread_loop n (offset d) buf (bytes s) = (n - length cs, store_str buf (if n \<le> length cs then take n cs else cs @ [CHR 0x00]) (bytes s))"
    using d(2,3) z(3) n by (intro memread_loop_holds) auto
  then have "memread (offset d) buf n (bytes s) = (of_nat ?k, store_str buf (if n \<le> length cs then take n cs else cs @ [CHR 0x00]) (bytes s))"
    by (simp add: memread_def k)
  moreover have "fd_addr s fd \<noteq> NULL" by (rule fd_addr_not_NULL [OF x d(1)])
  ultimately show ?thesis using A i by (simp add: readFile_def un sk)
qed

lemma store_str_nth:
  assumes "i < length t" and "length t < 2 ^ 64"
  shows "store_str a t m (a + of_nat i) = t ! i"
  using store_str_holds [OF assms(2), of a m] assms(1) by (simp add: holds_def)

lemma fd_ok_bytes [simp]: "fd_ok (s\<lparr>bytes := m\<rparr>) n \<longleftrightarrow> fd_ok s n"
  by (simp add: fd_ok_def vm_ok_def phys_inv_def free_frames_def)

lemma descr_bytes [simp]: "descr (s\<lparr>bytes := m\<rparr>) = descr s"
  by (simp add: descr_def fun_eq_iff Let_def)

lemma upd_fd_bytes [simp]: "bytes (upd_fd a f s) = bytes s" "BINARY_TARFS_END (upd_fd a f s) = BINARY_TARFS_END s"
  by (simp_all add: upd_fd_def)

lemma file_read_view:
  assumes v: "file_view fd buf N s cs" and n: "n \<le> N"
  shows "fst (file_read fd buf n s) = take n cs \<and> file_view fd buf N (snd (file_read fd buf n s)) (drop n cs)"
proof -
  obtain d x where x: "fd_ok s x" and d: "descr s fd = Some d" "holds (bytes s) (offset d) (cs @ [CHR 0x00])"
    "\<And>i j. i \<le> length cs \<Longrightarrow> j < N \<Longrightarrow> offset d + of_nat i \<noteq> buf + of_nat j" and z: "0 < fd" "N < 2 ^ 31" "CHR 0x00 \<notin> set cs"
    using v by (auto simp: file_view_def)
  let ?k = "min n (length cs)" and ?t = "if n \<le> length cs then take n cs else cs @ [CHR 0x00]"
  define m where "m = store_str buf ?t (bytes s)"
  define s' where "s' = upd_fd (fd_addr s fd) (\<lambda>d. d\<lparr>offset := offset d + of_nat ?k\<rparr>) (s\<lparr>bytes := m\<rparr>)"
  have r: "file_read fd buf n s = (map (\<lambda>i. m (buf + of_nat i)) [0..<?k], s')"
    using readFile_view [OF v n] n z(2) by (simp add: file_read_def s'_def m_def unat_of_nat take_bit_nat_eq_self)
  have "map (\<lambda>i. m (buf + of_nat i)) [0..<?k] = take n cs"
  proof (rule nth_equalityI)
    fix i assume i: "i < length (map (\<lambda>i. m (buf + of_nat i)) [0..<?k])"
    then have "m (buf + of_nat i) = ?t ! i" unfolding m_def using n z(2) by (intro store_str_nth) auto
    with i show "map (\<lambda>i. m (buf + of_nat i)) [0..<?k] ! i = take n cs ! i" by (auto simp: nth_append)
  qed simp
  moreover have "file_view fd buf N s' (drop n cs)"
  proof -
    let ?d = "d\<lparr>offset := offset d + of_nat ?k\<rparr>"
    have a: "fd_addr (s\<lparr>bytes := m\<rparr>) fd = fd_addr s fd" by (simp add: fd_addr_def)
    have "descr s' fd = Some ?d"
      using descr_upd_fd [of "s\<lparr>bytes := m\<rparr>" x fd] x descr_bound [OF x d(1)] get_fd_address_open(2,3) [OF d(1)]
      by (simp add: s'_def a)
    moreover have "holds (bytes s') (offset ?d) (drop n cs @ [CHR 0x00])"
    proof -
      have "holds (bytes s) (offset d) (take n cs @ drop n cs @ [CHR 0x00])" using d(2) by (simp flip: append_assoc)
      then have h: "holds (bytes s) (offset ?d) (drop n cs @ [CHR 0x00])" by (subst (asm) holds_append) (simp add: min.commute)
      show ?thesis
      proof (rule holds_cong [OF _ h])
        fix i assume i: "i < length (drop n cs @ [CHR 0x00])"
        have "offset d + of_nat (?k + i) \<noteq> buf + of_nat j" if "j < length ?t" for j
          using i that n by (intro d(3)) (auto split: if_splits)
        then have "offset ?d + of_nat i \<noteq> buf + of_nat j" if "j < length ?t" for j using that by (simp add: add.assoc)
        then have "store_str buf ?t (bytes s) (offset ?d + of_nat i) = bytes s (offset ?d + of_nat i)" by (rule store_str_other)
        then show "bytes s' (offset ?d + of_nat i) = bytes s (offset ?d + of_nat i)" by (simp add: s'_def m_def)
      qed
    qed
    moreover have "offset ?d + of_nat i \<noteq> buf + of_nat j" if "i \<le> length (drop n cs)" "j < N" for i j
    proof -
      have "offset d + of_nat (?k + i) \<noteq> buf + of_nat j" using that by (intro d(3)) auto
      then show ?thesis by (simp add: add.assoc)
    qed
    moreover have "fd_ok s' x" using x by (simp add: s'_def)
    moreover have "CHR 0x00 \<notin> set (drop n cs)" using z(3) by (meson in_set_dropD)
    ultimately show ?thesis using z unfolding file_view_def by blast
  qed
  ultimately show ?thesis by (simp add: r)
qed

interpretation fd_reader: reader "file_view fd buf N" "file_read fd buf" N for fd buf N
  by unfold_locales (rule file_read_view)

text \<open>What reads do to the table and to the rest of the memory.\<close>

lemma file_read_table:
  assumes v: "file_view fd buf N s cs" and n: "n \<le> N" and d: "descr s fd = Some d" and x: "fd_ok s x"
  defines "s' \<equiv> snd (file_read fd buf n s)"
  shows "descr s' = (descr s)(fd \<mapsto> d\<lparr>offset := offset d + of_nat (min n (length cs))\<rparr>) \<and> fd_ok s' x \<and>
    (\<forall>a. (\<forall>j < N. a \<noteq> buf + of_nat j) \<longrightarrow> bytes s' a = bytes s a)"
proof -
  let ?t = "if n \<le> length cs then take n cs else cs @ [CHR 0x00]"
  define m where "m = store_str buf ?t (bytes s)"
  have s': "s' = upd_fd (fd_addr (s\<lparr>bytes := m\<rparr>) fd) (\<lambda>d. d\<lparr>offset := offset d + of_nat (min n (length cs))\<rparr>) (s\<lparr>bytes := m\<rparr>)"
    using readFile_view [OF v n] by (simp add: s'_def file_read_def m_def fd_addr_def)
  have a: "fd_addr (s\<lparr>bytes := m\<rparr>) fd = fd_addr s fd" by (simp add: fd_addr_def)
  have "descr s' = (descr s)(fd \<mapsto> d\<lparr>offset := offset d + of_nat (min n (length cs))\<rparr>)"
    unfolding s' using descr_upd_fd [of "s\<lparr>bytes := m\<rparr>" x fd] x descr_bound [OF x d] get_fd_address_open(2,3) [OF d] by (simp add: a)
  moreover have "bytes s' b = bytes s b" if "\<forall>j < N. b \<noteq> buf + of_nat j" for b
  proof -
    have "length ?t \<le> N" using n by simp
    with that have "store_str buf ?t (bytes s) b = bytes s b" by (intro store_str_other) auto
    then show ?thesis by (simp only: s' upd_fd_bytes m_def fs.select_convs(1) fs.update_convs(1)) simp
  qed
  ultimately show ?thesis using x by (simp add: s')
qed

lemma reads_table:
  assumes "file_view fd buf N s cs" and "descr s fd = Some d" and "fd_ok s x" and "\<forall>m \<in> set ms. m \<le> N"
  shows "descr (snd (reads (file_read fd buf) ms s)) = (descr s)(fd \<mapsto> d\<lparr>offset := offset d + of_nat (min (sum_list ms) (length cs))\<rparr>) \<and>
    fd_ok (snd (reads (file_read fd buf) ms s)) x \<and>
    (\<forall>a. (\<forall>j < N. a \<noteq> buf + of_nat j) \<longrightarrow> bytes (snd (reads (file_read fd buf) ms s)) a = bytes s a)"
  using assms
proof (induction ms arbitrary: s cs d)
  case Nil
  then show ?case by (simp add: fun_upd_idem)
next
  case (Cons n ms)
  obtain xs s1 where r: "file_read fd buf n s = (xs, s1)" by fastforce
  have n: "n \<le> N" "\<forall>m \<in> set ms. m \<le> N" using Cons.prems(4) by simp_all
  note T = file_read_table [OF Cons.prems(1) n(1) Cons.prems(2,3), unfolded r snd_conv]
  have v1: "file_view fd buf N s1 (drop n cs)" using file_read_view [OF Cons.prems(1) n(1)] by (simp add: r)
  have d1: "descr s1 fd = Some (d\<lparr>offset := offset d + of_nat (min n (length cs))\<rparr>)" using T by simp
  note IH = Cons.IH [OF v1 d1 _ n(2)]
  have m: "min n (length cs) + min (sum_list ms) (length (drop n cs)) = min (n + sum_list ms) (length cs)" by auto
  have o: "offset d + of_nat (min n (length cs)) + of_nat (min (sum_list ms) (length (drop n cs))) =
      (offset d + of_nat (min (n + sum_list ms) (length cs)) :: u64)"
    unfolding m [symmetric] by (simp only: of_nat_add add.assoc)
  have e: "snd (reads (file_read fd buf) (n # ms) s) = snd (reads (file_read fd buf) ms s1)" by (simp add: r case_prod_beta)
  have "descr (snd (reads (file_read fd buf) ms s1)) = (descr s)(fd \<mapsto> d\<lparr>offset := offset d + of_nat (min n (length cs)) +
      of_nat (min (sum_list ms) (length (drop n cs)))\<rparr>)" using IH T by (simp add: fun_eq_iff)
  then show ?case using IH T unfolding e o by simp
qed

lemma array_string_strcpy: "length name < 255 \<Longrightarrow> CHR 0x00 \<notin> set name \<Longrightarrow> array_string (strcpy name b) = Some name"
  by (rule array_string_holds) (auto simp: strcpy_def Let_def)

lemma fill_fd_open:
  assumes "name \<noteq> []" and "CHR 0x00 \<notin> set name"
  shows "fd_name (fill_fd name start dirp d) 0 \<noteq> CHR 0x00"
  using assms by (cases name) (auto simp: fill_fd_def strcpy_def Let_def)

text \<open>A descriptor as \<open>openFile\<close> and \<open>openDirectory\<close> leave it.\<close>

definition opened :: "string \<Rightarrow> u64 \<Rightarrow> u64 \<Rightarrow> fileDescriptor \<Rightarrow> bool" where
  "opened name start dirp d \<longleftrightarrow>
     array_string (fd_name d) = Some name \<and> fd_start d = start \<and> offset d = start \<and> d_prev_dir d 0 = CHR 0x00 \<and> d_dirp d = dirp"

lemma find_free_fill:
  fixes s :: "'a fs_scheme"
  assumes "fd_ok s n" and "free_frames s \<noteq> {}" and "least_free s i"
    and "name \<noteq> []" and "CHR 0x00 \<notin> set name" and "length name < 255"
  shows "\<exists>s1 n'. find_free [0..<20] s = (Some (i, fd_addr s1 i), s1) \<and>
    (\<forall>dirp. let s' = upd_fd (fd_addr s1 i) (fill_fd name start dirp) s1 in
       fd_ok s' n' \<and> bytes s' = bytes s \<and> BINARY_TARFS_END s' = BINARY_TARFS_END s \<and> i < 5 * n' \<and>
       (dirp_ok s n \<and> (dirp = 0 \<or> dirp = fd_addr s1 i) \<longrightarrow> dirp_ok s' n') \<and>
       (\<exists>d. opened name start dirp d \<and> descr s' = (descr s)(i \<mapsto> d)))"
proof -
  obtain r n' and s1 :: "'a fs_scheme" where F: "find_free [0..<20] s = (r, s1)" "fd_ok s1 n'" "descr s1 = descr s" "table_only s s1"
    "dirp_ok s n \<longrightarrow> dirp_ok s1 n'"
    "case r of None \<Rightarrow> \<forall>i. \<not> least_free s i | Some (i, a) \<Rightarrow> least_free s i \<and> i < 5 * n' \<and> a = fd_addr s1 i"
    using find_free_spec [OF assms(1,2)] by (elim exE conjE) (rule that)
  then obtain j a where r: "r = Some (j, a)" using assms(3) by (cases r) auto
  with F(6) have j: "least_free s j" "j < 5 * n'" "a = fd_addr s1 j" by simp_all
  then have "j = i" using assms(3) by (cases j i rule: linorder_cases) (auto simp: least_free_def)
  have "opened name start dirp (fill_fd name start dirp (fds s1 a))" for dirp
    using array_string_strcpy assms(5,6) by (simp add: opened_def fill_fd_def)
  moreover have "descr (upd_fd a (fill_fd name start dirp) s1) = (descr s)(i \<mapsto> fill_fd name start dirp (fds s1 a))" for dirp
    using descr_upd_fd [OF F(2) j(2)] fill_fd_open [OF assms(4,5)] by (simp add: j(3) \<open>j = i\<close> F(3) Let_def)
  moreover have "dirp_ok (upd_fd a (fill_fd name start dirp) s1) n'" if "dirp_ok s n" "dirp = 0 \<or> dirp = fd_addr s1 i" for dirp
    using F(5) that j(3) \<open>j = i\<close> by (auto simp: dirp_ok_def upd_fd_def fill_fd_def fd_addr_def)
  ultimately show ?thesis using F(1,2,4) r j(2,3) \<open>j = i\<close> by (auto simp: Let_def table_only_def)
qed

lemma find_free_full:
  fixes s :: "'a fs_scheme"
  assumes "fd_ok s n" and "free_frames s \<noteq> {}" and "\<forall>i. \<not> least_free s i"
  shows "\<exists>s1. find_free [0..<20] s = (None, s1) \<and> descr s1 = descr s"
proof -
  obtain r n' and s1 :: "'a fs_scheme" where F: "find_free [0..<20] s = (r, s1)" "descr s1 = descr s"
    "case r of None \<Rightarrow> \<forall>i. \<not> least_free s i | Some (i, a) \<Rightarrow> least_free s i \<and> i < 5 * n' \<and> a = fd_addr s1 i"
    using find_free_spec [OF assms(1,2)] by (elim exE conjE) (rule that)
  then show ?thesis using assms(3) by (cases r) auto
qed

lemma fd_ok_kprintf [simp]: "fd_ok (kprintf f a s) n \<longleftrightarrow> fd_ok s n"
  by (simp add: fd_ok_def vm_ok_def phys_inv_def free_frames_def kprintf_def)

lemma kprintf_bytes [simp]: "bytes (kprintf f a s) = bytes s"
  by (simp add: kprintf_def)

lemma descr_kprintf [simp]: "descr (kprintf f a s) = descr s"
  by (simp add: descr_def fun_eq_iff Let_def kprintf_def)

lemma openFile_alloc:
  fixes s :: "'a fs_scheme"
  assumes "fname \<noteq> []" and "strcmp fname ''/'' \<noteq> 0"
    and "archive (bytes s) (BINARY_TARFS_START s) fl (BINARY_TARFS_END s)"
    and "abs_path 256 stk fname 0 (bytes s) = Some (SLASH # name)" and "CHR 0x00 \<notin> set name"
    and "lookup (BINARY_TARFS_START s) fl name = Some (p, sz)" "0 < sz" "p + 512 \<noteq> 0"
  shows "openFile stk fname s = Some (case find_free [0..<20] s of
        (Some (file_fd, fd), s1) \<Rightarrow> (of_nat file_fd, upd_fd fd (fill_fd name (p + 512) 0) s1)
      | (None, s1) \<Rightarrow>
          (- 1, kprintf ''Trying to open more than 100 FD's..This OS allows user to open only 100 FD's per process.\<newline>'' [] s1))"
  using archive_lookup [OF assms(3,5)] assms by (simp add: openFile_def)

lemma openFile_file:
  fixes s :: "'a fs_scheme"
  assumes "fd_ok s n" and "free_frames s \<noteq> {}" and "fname \<noteq> []" and "strcmp fname ''/'' \<noteq> 0"
    and "archive (bytes s) (BINARY_TARFS_START s) fl (BINARY_TARFS_END s)"
    and "abs_path 256 stk fname 0 (bytes s) = Some (SLASH # name)" and "name \<noteq> []" "CHR 0x00 \<notin> set name" "length name < 255"
    and "lookup (BINARY_TARFS_START s) fl name = Some (p, sz)" "0 < sz" "p + 512 \<noteq> 0" and "least_free s i"
  shows "\<exists>s' n' d. openFile stk fname s = Some (of_nat i, s') \<and> fd_ok s' n' \<and> bytes s' = bytes s \<and>
    opened name (p + 512) 0 d \<and> descr s' = (descr s)(i \<mapsto> d)"
proof -
  from find_free_fill [OF assms(1,2,13,7-9), of "p + 512"] obtain s1 n' where
    G: "find_free [0..<20] s = (Some (i, fd_addr s1 i), s1)"
    "let s' = upd_fd (fd_addr s1 i) (fill_fd name (p + 512) 0) s1 in
     fd_ok s' n' \<and> bytes s' = bytes s \<and> (\<exists>d. opened name (p + 512) 0 d \<and> descr s' = (descr s)(i \<mapsto> d))" unfolding Let_def by blast
  moreover have "openFile stk fname s = Some (of_nat i, upd_fd (fd_addr s1 i) (fill_fd name (p + 512) 0) s1)"
    using openFile_alloc [OF assms(3-6,8,10-12)] G(1) by simp
  ultimately show ?thesis unfolding Let_def by blast
qed

section \<open>A small file system\<close>

text \<open>An archive with the file \<open>f\<close>, a process that has descriptor 3 open.\<close>

definition tiny_text :: "u64 \<Rightarrow> char" where
  "tiny_text = store_str 0x1000 ''f'' (store_str 0x107C ''3'' (store_str 0x1200 ''abc'' (\<lambda>_. CHR 0x00)))"

definition tiny_fs :: fs where
  "tiny_fs = upd_task 0x10 (\<lambda>k. k\<lparr>fd_pointers := (\<lambda>_. 0)(0 := page_of 300 + KERNBASE), fd_count := 5\<rparr>)
     (machine.extend small_machine (fs.fields tiny_text
       ((\<lambda>_. zero_fd)(fd_at (page_of 300 + KERNBASE) 3 := zero_fd\<lparr>fd_name := strcpy ''g'' (\<lambda>_. CHR 0x00)\<rparr>)) 0x1000 0x1400))"

lemmas tiny_fs_defs = tiny_fs_def small_machine_def machine.extend_def kernel.extend_def machine.fields_def fs.fields_def

lemma tiny_fs_sel:
  "bytes tiny_fs = tiny_text" "BINARY_TARFS_START tiny_fs = 0x1000" "BINARY_TARFS_END tiny_fs = 0x1400"
  "runningThread tiny_fs = 0x10" "vm_ok tiny_fs = vm_ok small_vm" "free_frames tiny_fs = free_frames small_vm"
  "fd_pointers (tasks tiny_fs 0x10) = (\<lambda>_. 0)(0 := page_of 300 + KERNBASE)" "fd_count (tasks tiny_fs 0x10) = 5"
  "fds tiny_fs = (\<lambda>_. zero_fd)(fd_at (page_of 300 + KERNBASE) 3 := zero_fd\<lparr>fd_name := strcpy ''g'' (\<lambda>_. CHR 0x00)\<rparr>)"
  using small_kernel_sel
  by (simp_all add: tiny_fs_defs upd_task_def vm_ok_def phys_inv_def free_frames_def)

lemma tiny_fs_ok: "fd_ok tiny_fs 1" "free_frames tiny_fs \<noteq> {}" "least_free tiny_fs 4"
proof -
  show "free_frames tiny_fs \<noteq> {}" using free_small by (simp add: tiny_fs_sel)
  have "(300 :: nat) \<notin> free_frames small_vm" using free_small by auto
  then show "fd_ok tiny_fs 1" using small_ok(1) by (auto simp: fd_ok_def tiny_fs_sel inj_on_def intro!: exI [of _ 300])
  have "page_of 300 + KERNBASE \<noteq> 0" by (rule page_not_NULL) simp
  moreover have "fd_at (page_of 300 + KERNBASE) 4 \<noteq> fd_at (page_of 300 + KERNBASE) 3" by (simp add: fd_at_def)
  ultimately have "descr tiny_fs 4 = None" "descr tiny_fs 3 \<noteq> None"
    by (simp_all add: descr_def tiny_fs_sel Let_def zero_fd_def strcpy_def)
  moreover have "3 \<le> j \<and> j < 4 \<longleftrightarrow> j = 3" for j :: nat by linarith
  ultimately show "least_free tiny_fs 4" unfolding least_free_def by (simp del: not_None_eq)
qed

lemma tiny_names:
  "strcmp ''/f'' ''/'' \<noteq> 0" "abs_path 256 (\<lambda>_. CHR 0x00) ''/f'' 0 (bytes tiny_fs) = Some (SLASH # ''f'')"
  "abs_path 256 (\<lambda>_. CHR 0x00) ''/f'' 1 (bytes tiny_fs) = Some (SLASH # ''f/'')"
  by (simp_all add: strcmp_eq_0 abs_path_def remove_dotslash_def norm_loop.simps get_between_2slashes_def)

lemma tiny_archive_fs: "archive (bytes tiny_fs) (BINARY_TARFS_START tiny_fs) [(''f'', 3)] (BINARY_TARFS_END tiny_fs)"
proof -
  have "cstr tiny_text 0x1000 = Some ''f''" "cstr tiny_text 0x107C = Some ''3''" "cstr tiny_text 0x147C = Some []"
    by (rule cstr_holds; simp add: tiny_text_def)+
  moreover have "toInteger ''3'' = 3" by code_simp
  ultimately show ?thesis by (simp add: tiny_fs_sel header_name_def header_size_def pad_def)
qed

section \<open>Properties\<close>

text \<open>C24: \<open>openFile\<close> gives the least free descriptor: when the absolute path names a non-empty file of the archive, the call returns the least free number from 3 on, that
  descriptor now has the name and stands at the first byte of the file, the invariant of the table holds, and no other open descriptor changes. When
  every number up to 99 is open the call returns -1 and the table stays as it is; so it does for a name that is neither a file nor a directory.\<close>

theorem openFile_refines:
  fixes s :: "'a fs_scheme"
  assumes "fd_ok s n" and "free_frames s \<noteq> {}" and "fname \<noteq> []" and "strcmp fname ''/'' \<noteq> 0"
    and "archive (bytes s) (BINARY_TARFS_START s) fl (BINARY_TARFS_END s)"
    and "abs_path 256 stk fname 0 (bytes s) = Some (SLASH # name)" and "name \<noteq> []" "CHR 0x00 \<notin> set name" "length name < 255"
    and "abs_path 256 stk fname 1 (bytes s) = Some (SLASH # name1)" and "CHR 0x00 \<notin> set name1"
  defines "L \<equiv> lookup (BINARY_TARFS_START s) fl"
  shows
    "(\<forall>p sz i. L name = Some (p, sz) \<and> 0 < sz \<and> p + 512 \<noteq> 0 \<and> least_free s i \<longrightarrow>
       (\<exists>s' n' d. openFile stk fname s = Some (of_nat i, s') \<and> fd_ok s' n' \<and> bytes s' = bytes s \<and>
          opened name (p + 512) 0 d \<and> descr s' = (descr s)(i \<mapsto> d))) \<and>
     (\<forall>p sz. L name = Some (p, sz) \<and> 0 < sz \<and> p + 512 \<noteq> 0 \<and> (\<forall>i. \<not> least_free s i) \<longrightarrow>
       (\<exists>s'. openFile stk fname s = Some (- 1, s') \<and> descr s' = descr s)) \<and>
     (L name = None \<and> L name1 = None \<longrightarrow>
       openFile stk fname s = Some (- 1, kprintf ''Invalid File Specified.\<newline>'' [] s))"
proof (intro conjI allI impI; elim conjE)
  fix p sz i assume "L name = Some (p, sz)" "0 < sz" "p + 512 \<noteq> 0" "least_free s i"
  then show "\<exists>s' n' d. openFile stk fname s = Some (of_nat i, s') \<and> fd_ok s' n' \<and> bytes s' = bytes s \<and>
      opened name (p + 512) 0 d \<and> descr s' = (descr s)(i \<mapsto> d)"
    unfolding L_def by (rule openFile_file [OF assms(1-9)])
next
  fix p sz assume "L name = Some (p, sz)" "0 < sz" "p + 512 \<noteq> 0" "\<forall>i. \<not> least_free s i"
  then show "\<exists>s'. openFile stk fname s = Some (- 1, s') \<and> descr s' = descr s"
    using openFile_alloc [OF assms(3-6,8)] find_free_full [OF assms(1,2)] by (auto 0 4 simp: L_def)
next
  assume "L name = None" "L name1 = None"
  then show "openFile stk fname s = Some (- 1, kprintf ''Invalid File Specified.\<newline>'' [] s)"
    using archive_lookup [OF assms(5,8)] archive_lookup [OF assms(5,11)] assms(3,4,6,10) by (simp add: L_def openFile_def)
qed

theorem openFile_refines_witness:
  "\<exists>s' d. openFile (\<lambda>_. CHR 0x00) ''/f'' tiny_fs = Some (4, s') \<and> opened ''f'' 0x1200 0 d \<and> descr s' 4 = Some d"
proof -
  have "\<exists>s' n' d. openFile (\<lambda>_. CHR 0x00) ''/f'' tiny_fs = Some (of_nat 4, s') \<and> fd_ok s' n' \<and> bytes s' = bytes tiny_fs \<and>
      opened ''f'' (0x1000 + 512) 0 d \<and> descr s' = (descr tiny_fs)(4 \<mapsto> d)"
    by (rule openFile_refines [OF tiny_fs_ok(1,2) _ tiny_names(1) tiny_archive_fs tiny_names(2) _ _ _ tiny_names(3) _,
        THEN conjunct1, rule_format, where p = "0x1000" and sz = 3])
      (simp_all add: tiny_fs_sel tiny_fs_ok(3))
  then show ?thesis by auto
qed

text \<open>C25: Opened files read as they are: after \<open>openFile\<close> of a non-empty file of the archive, reading the descriptor in pieces of any sizes (each
  fits the buffer, which does not overlap the file) delivers the bytes of the file in order, up to the first NUL byte of it: nothing is lost,
  repeated or added between the calls, and at the end a read returns 0. After all of it the table is the old one with one more open descriptor,
  which stands behind the bytes read, and no byte outside the buffer has changed.\<close>

theorem open_then_read:
  fixes s :: "'a fs_scheme"
  assumes "fd_ok s n" and "free_frames s \<noteq> {}" and "fname \<noteq> []" and "strcmp fname ''/'' \<noteq> 0"
    and "archive (bytes s) (BINARY_TARFS_START s) fl (BINARY_TARFS_END s)"
    and "abs_path 256 stk fname 0 (bytes s) = Some (SLASH # name)" and "name \<noteq> []" "CHR 0x00 \<notin> set name" "length name < 255"
    and "lookup (BINARY_TARFS_START s) fl name = Some (p, sz)" "0 < sz" "p + 512 \<noteq> 0" and "least_free s i"
    and "holds (bytes s) (p + 512) (cs @ [CHR 0x00])" "CHR 0x00 \<notin> set cs" and "N < 2 ^ 31"
    and "\<forall>k \<le> length cs. \<forall>j < N. p + 512 + of_nat k \<noteq> buf + of_nat j" and "\<forall>m \<in> set ms. m \<le> N"
  shows "\<exists>s' d n'. openFile stk fname s = Some (of_nat i, s') \<and> opened name (p + 512) 0 d \<and> descr s' = (descr s)(i \<mapsto> d) \<and>
    (let r = reads (file_read i buf) ms s'; s2 = snd r in
       fst r = take (sum_list ms) cs \<and> fd_ok s2 n' \<and>
       descr s2 = (descr s)(i \<mapsto> d\<lparr>offset := p + 512 + of_nat (min (sum_list ms) (length cs))\<rparr>) \<and>
       (\<forall>a. (\<forall>j < N. a \<noteq> buf + of_nat j) \<longrightarrow> bytes s2 a = bytes s a) \<and>
       (length cs \<le> sum_list ms \<longrightarrow> (\<exists>s3. readFile (of_nat i) buf (of_nat N) s2 = Some (0, s3))))"
proof -
  obtain s' n' d where s': "openFile stk fname s = Some (of_nat i, s')" "fd_ok s' n'" "bytes s' = bytes s"
    "opened name (p + 512) 0 d" "descr s' = (descr s)(i \<mapsto> d)" using openFile_file [OF assms(1-13)] by blast
  have v: "file_view i buf N s' cs"
    using s'(2-5) assms(13-17) by (auto simp: file_view_def opened_def least_free_def)
  note R = fd_reader.reads_view [OF v assms(18)]
  have di: "descr s' i = Some d" and o: "offset d = p + 512" using s'(4,5) by (simp_all add: opened_def)
  note T = reads_table [OF v di s'(2) assms(18)]
  have "\<exists>s3. readFile (of_nat i) buf (of_nat N) (snd (reads (file_read i buf) ms s')) = Some (0, s3)" if "length cs \<le> sum_list ms"
    using readFile_view [of i buf N "snd (reads (file_read i buf) ms s')" "[]" N] R that by simp
  with s' R T o show ?thesis
    by (intro exI [of _ s'] exI [of _ d] exI [of _ n']) (simp add: Let_def)
qed

theorem open_then_read_witness:
  "\<exists>s' d. openFile (\<lambda>_. CHR 0x00) ''/f'' tiny_fs = Some (4, s') \<and> fst (reads (file_read 4 0x8000) [1, 1, 7] s') = ''abc'' \<and>
     descr (snd (reads (file_read 4 0x8000) [1, 1, 7] s')) 4 = Some d \<and> offset d = 0x1203"
proof -
  have h: "holds (bytes tiny_fs) (0x1000 + 512) (''abc'' @ [CHR 0x00])" by (simp add: tiny_fs_sel tiny_text_def)
  have d: "\<forall>k \<le> length ''abc''. \<forall>j < 7. (0x1000 + 512 + of_nat k :: u64) \<noteq> 0x8000 + of_nat j"
  proof (intro allI impI)
    fix k j :: nat assume "k \<le> length ''abc''" "j < 7"
    then have "(of_nat (0x1200 + k) :: u64) \<noteq> of_nat (0x8000 + j)" by (subst of_nat_inj64) auto
    then show "(0x1000 + 512 + of_nat k :: u64) \<noteq> 0x8000 + of_nat j" by simp
  qed
  note W = open_then_read [OF tiny_fs_ok(1,2) _ tiny_names(1) tiny_archive_fs tiny_names(2) _ _ _ _ _ _ tiny_fs_ok(3) h _ _ d, of 3 "[1, 1, 7]"]
  from W show ?thesis by (auto simp: tiny_fs_sel Let_def simp del: reads.simps)
qed

text \<open>\<open>closeFile\<close> frees the descriptor: an open number is closed, with 0 as the result, and is free again; no other descriptor changes; a number
  that is not open gives 0 with a message, or 1 when its page does not exist; in every case the invariant of the table holds.\<close>

theorem closeFile_refines:
  fixes s :: "'a fs_scheme"
  assumes "fd_ok s n" and "fd < 100"
  shows "\<exists>r s'. closeFile (of_nat fd) s = Some (r, s') \<and> fd_ok s' n \<and> descr s' = (descr s)(fd := None) \<and> bytes s' = bytes s \<and>
    (descr s fd \<noteq> None \<longrightarrow> r = 0 \<and> klog s' = klog s) \<and> r = (if fd < 5 * n then 0 else 1)"
proof -
  have i: "sint (of_nat fd :: i32) = int fd" using assms(2) by (simp add: signed_of_nat signed_take_bit_int_eq_self)
  show ?thesis
  proof (cases "fd < 5 * n")
    case False
    then have z: "fd_page s (fd div 5) = 0" using fd_okD(2) [OF assms(1), of "fd div 5"] assms(2) by simp
    then have "descr s fd = None" by (simp add: descr_def Let_def)
    then show ?thesis using z False i assms by (simp add: closeFile_def get_fd_address_def Let_def fun_upd_idem)
  next
    case True
    then have "fd div 5 < n" by simp
    then obtain f where f: "f < 65536" "fd_page s (fd div 5) = page_of f + KERNBASE" using fd_okD(4) [OF assms(1)] by blast
    have "unat (fd_addr s fd) = unat KERNBASE + 4096 * f + 544 * (fd mod 5)" unfolding fd_addr_def f(2) using f(1) by (intro unat_fd_at) simp_all
    then have a: "fd_addr s fd \<noteq> NULL" by (auto simp: unat_KERNBASE)
    have g: "get_fd_address (of_nat fd) s = Some (fd_addr s fd, s)"
      using i assms(2) fd_okD(3) [OF assms(1) \<open>fd div 5 < n\<close>] by (simp add: get_fd_address_def fd_addr_def Let_def)
    show ?thesis
    proof (cases "fd_name (fds s (fd_addr s fd)) 0 = CHR 0x00")
      case True
      then have "descr s fd = None" by (simp add: descr_def Let_def fd_addr_def)
      with True show ?thesis using g a i assms \<open>fd < 5 * n\<close> by (simp add: closeFile_def fun_upd_idem)
    next
      case False
      then show ?thesis using g a i assms \<open>fd < 5 * n\<close> descr_upd_fd [OF assms(1) True]
        by (simp add: closeFile_def) (simp add: upd_fd_def)
    qed
  qed
qed

theorem closeFile_refines_witness:
  "\<exists>r s'. closeFile 3 tiny_fs = Some (r, s') \<and> descr tiny_fs 3 \<noteq> None \<and> descr s' 3 = None"
  using closeFile_refines [OF tiny_fs_ok(1), of 3] tiny_fs_ok(3) by (auto simp: least_free_def)

end
