(* ===== verification/Dirs.thy ===== *)
theory Dirs
  imports Files
begin

text \<open>
  Listing directories (\<open>sys/tarfs.c\<close>): \<open>readDir\<close> gives the next entry of an open directory in a new
  buffer, \<open>getDirEntries\<close> all of them in one. The archive is a flat list of path names: the entries of a directory are the
  first parts of the names that start with it, equal neighbours being one entry. The contract \<open>lister\<close> says that repeated calls give the whole listing.
\<close>

section \<open>State\<close>

record dirent =
  d_ino :: u64
  d_off :: u64
  d_reclen :: u16
  d_name :: "nat \<Rightarrow> char"

text \<open>\<open>dirents\<close> are the directory entries in user buffers, by address.\<close>

record dirfs = fs +
  dirents :: "u64 \<Rightarrow> dirent"

abbreviation SIZEOF_DIRENT :: u64 where "SIZEOF_DIRENT \<equiv> 280"

definition upd_dirent :: "u64 \<Rightarrow> (dirent \<Rightarrow> dirent) \<Rightarrow> 'a dirfs_scheme \<Rightarrow> 'a dirfs_scheme" where
  "upd_dirent a f s = s\<lparr>dirents := (dirents s)(a := f (dirents s a))\<rparr>"

text \<open>\<open>*buf='\0'\<close>: the first byte of the entry.\<close>

definition clear_first :: "dirent \<Rightarrow> dirent" where
  "clear_first d = d\<lparr>d_ino := d_ino d AND NOT 0xFF\<rparr>"

section \<open>The parts of a name\<close>

definition overlay :: "string \<Rightarrow> (nat \<Rightarrow> char) \<Rightarrow> nat \<Rightarrow> char" where
  "overlay cs d i = (if i < length cs then cs ! i else d i)"

text \<open>
  The characters \<open>get_first_directory\<close> writes: the name up to the first slash, the slash and a NUL, as far as \<open>count\<close>
  allows.
\<close>

definition first_part :: "string \<Rightarrow> nat \<Rightarrow> string" where
  "first_part child count =
     (let n = min (length (takeWhile (\<lambda>c. c \<noteq> SLASH) child)) count;
          slash = 0 < count - n \<and> drop n child \<noteq> [] \<and> hd (drop n child) = SLASH
      in take n child @ (if slash then [SLASH] else []) @ (if 0 < count - n - of_bool slash then [CHR 0x00] else []))"

definition get_first_directory :: "string \<Rightarrow> (nat \<Rightarrow> char) \<Rightarrow> nat \<Rightarrow> nat \<Rightarrow> char" where
  "get_first_directory child dbuf count = overlay (first_part child count) dbuf"

definition get_sub_directory :: "string \<Rightarrow> string \<Rightarrow> (nat \<Rightarrow> char) \<Rightarrow> nat \<Rightarrow> i32 \<times> (nat \<Rightarrow> char)" where
  "get_sub_directory parent child dbuf count =
     (if startswith parent child = 0
      then (0, overlay (first_part (drop (length parent) child) count) dbuf)
      else (- 1, dbuf(0 := CHR 0x00)))"

text \<open>
  The same into a \<open>dirent\<close>: here \<open>count\<close> is an \<open>int\<close> that is compared with \<open>sizeof\<close> as an unsigned number
  and ends the copy when it reaches 0; the slash and the NUL are bounded by 255.
\<close>

definition entry_part :: "string \<Rightarrow> i32 \<Rightarrow> string" where
  "entry_part child count =
     (let n = min (length (takeWhile (\<lambda>c. c \<noteq> SLASH) child)) (unat count);
          slash = n < 255 \<and> drop n child \<noteq> [] \<and> hd (drop n child) = SLASH
      in take n child @ (if slash then [SLASH] else []) @ (if n < 255 \<and> n + of_bool slash < 255 then [CHR 0x00] else []))"

definition fill_direntry :: "string \<Rightarrow> i32 \<Rightarrow> dirent \<Rightarrow> dirent" where
  "fill_direntry child count d =
     d\<lparr>d_reclen := 280, d_ino := 0, d_off := 0, d_name := overlay (entry_part child count) (d_name d)\<rparr>"

definition get_first_direntry :: "string \<Rightarrow> u64 \<Rightarrow> i32 \<Rightarrow> 'a dirfs_scheme \<Rightarrow> i32 \<times> 'a dirfs_scheme" where
  "get_first_direntry child dbuf count s =
     (if (scast count :: u64) < SIZEOF_DIRENT then (- 1, upd_dirent dbuf clear_first s)
      else (0, upd_dirent dbuf (fill_direntry child count) s))"

definition get_sub_direntry :: "string \<Rightarrow> string \<Rightarrow> u64 \<Rightarrow> i32 \<Rightarrow> 'a dirfs_scheme \<Rightarrow> i32 \<times> 'a dirfs_scheme" where
  "get_sub_direntry parent child dbuf count s =
     (if startswith parent child \<noteq> 0 \<or> (scast count :: u64) < SIZEOF_DIRENT then (- 1, upd_dirent dbuf clear_first s)
      else (0, upd_dirent dbuf (fill_direntry (drop (length parent) child) count) s))"

section \<open>Reading a directory\<close>

text \<open>The header behind the one at an address.\<close>

definition after :: "'a fs_scheme \<Rightarrow> u64 \<Rightarrow> u64 option" where
  "after s p = map_option (next_header p) (header_size (bytes s) p)"

text \<open>The entry is taken when its name differs from the one before; \<open>d_reclen\<close>, \<open>d_ino\<close> and \<open>d_off\<close> are set.\<close>

definition take_entry :: "u64 \<Rightarrow> u64 \<Rightarrow> u64 \<Rightarrow> 'a dirfs_scheme \<Rightarrow> 'a dirfs_scheme" where
  "take_entry fd buf new_offset s =
     upd_dirent buf (\<lambda>d. d\<lparr>d_reclen := 280, d_ino := 0, d_off := 0\<rparr>)
       (upd_fd fd (\<lambda>d. d\<lparr>offset := new_offset\<rparr>) s)"

text \<open>
  The loop for the root. The strings that are compared must end inside their arrays; \<^term>\<open>None\<close> otherwise.
\<close>

partial_function (option) list_root :: "u64 \<Rightarrow> u64 \<Rightarrow> u64 \<Rightarrow> 'a dirfs_scheme \<Rightarrow> (u64 \<times> 'a dirfs_scheme) option" where
  "list_root fd buf start s =
     (if start < BINARY_TARFS_END s
      then Option.bind (header_name (bytes s) start) (\<lambda>name.
        let s1 = upd_dirent buf (\<lambda>d. d\<lparr>d_name := get_first_directory name (d_name d) 4096\<rparr>) s in
        Option.bind (array_string (d_name (dirents s1 buf))) (\<lambda>new.
        Option.bind (array_string (d_prev_dir (fds s1 fd))) (\<lambda>prev.
        Option.bind (after s1 start) (\<lambda>nxt.
          if strcmp new prev \<noteq> 0
          then Some (buf, take_entry fd buf nxt (upd_fd fd (\<lambda>d. d\<lparr>d_prev_dir := strcpy new (d_prev_dir d)\<rparr>) s1))
          else list_root fd buf nxt s1))))
      else Some (NULL, upd_dirent buf clear_first s))"

text \<open>The loop for another directory; \<open>offset\<close> stays at the entry that was returned.\<close>

partial_function (option) list_sub :: "u64 \<Rightarrow> u64 \<Rightarrow> string \<Rightarrow> u64 \<Rightarrow> 'a dirfs_scheme \<Rightarrow> (u64 \<times> 'a dirfs_scheme) option" where
  "list_sub fd buf dir start s =
     (if start < BINARY_TARFS_END s
      then Option.bind (header_name (bytes s) start) (\<lambda>name.
        if startswith dir name = 0
        then (let s1 = upd_dirent buf (\<lambda>d. d\<lparr>d_name := snd (get_sub_directory dir name (d_name d) 4096)\<rparr>) s in
          Option.bind (array_string (d_name (dirents s1 buf))) (\<lambda>new.
          Option.bind (array_string (d_prev_dir (fds s1 fd))) (\<lambda>prev.
            if strcmp new prev \<noteq> 0
            then Some (buf, take_entry fd buf start (upd_fd fd (\<lambda>d. d\<lparr>d_prev_dir := strcpy new (d_prev_dir d)\<rparr>) s1))
            else Option.bind (after s1 start) (\<lambda>nxt. list_sub fd buf dir nxt s1))))
        else Some (NULL, upd_dirent buf clear_first s))
      else Some (NULL, kprintf ''Incorrect FD.\<newline>'' [] s))"

definition readDir :: "u64 \<Rightarrow> 'a dirfs_scheme \<Rightarrow> (u64 \<times> 'a dirfs_scheme) option" where
  "readDir dirp s =
     (if dirp = NULL then Some (NULL, s)
      else (let fd = get_fd dirp s in
        if sint fd < 0 then Some (NULL, kprintf ''Invalid DIR * provided.\<newline>'' [] s)
        else Option.bind (get_fd_address fd s) (\<lambda>(fd_struct, s0).
          if fd_struct = NULL then Some (NULL, s0)
          else Option.bind (malloc SIZEOF_DIRENT s0) (\<lambda>(buf, s1).
          Option.bind (array_string (fd_name (fds s1 fd_struct))) (\<lambda>dir.
            let start = offset (fds s1 fd_struct) in
            if strcmp dir ''/'' = 0 then list_root fd_struct buf start s1
            else if dir \<noteq> [] then Option.bind (after s1 start) (\<lambda>nxt. list_sub fd_struct buf dir nxt s1)
            else Some (NULL, kprintf ''Incorrect FD.\<newline>'' [] s1))))))"

section \<open>All entries at once\<close>

text \<open>The two loops of \<open>getDirEntries\<close>; \<open>prev\<close> is its array \<open>prev_dir\<close>.\<close>

partial_function (option) entries_root ::
    "u64 \<Rightarrow> i32 \<Rightarrow> (nat \<Rightarrow> char) \<Rightarrow> u64 \<Rightarrow> 'a dirfs_scheme \<Rightarrow> (u64 \<times> i32 \<times> 'a dirfs_scheme) option" where
  "entries_root buf count prev start s =
     (if start < BINARY_TARFS_END s
      then Option.bind (header_name (bytes s) start) (\<lambda>name.
        let s1 = snd (get_first_direntry name buf count s) in
        Option.bind (array_string (d_name (dirents s1 buf))) (\<lambda>new.
        Option.bind (array_string prev) (\<lambda>old.
        Option.bind (after s1 start) (\<lambda>nxt.
          if strcmp new old \<noteq> 0
          then entries_root (buf + SIZEOF_DIRENT) (count - 280)
                 (strcpy new (if new = [] then prev(0 := CHR 0x00) else prev)) nxt s1
          else entries_root buf count prev nxt s1))))
      else Some (buf, count, s))"

partial_function (option) entries_sub ::
    "string \<Rightarrow> u64 \<Rightarrow> i32 \<Rightarrow> (nat \<Rightarrow> char) \<Rightarrow> u64 \<Rightarrow> 'a dirfs_scheme \<Rightarrow> (bool \<times> u64 \<times> i32 \<times> 'a dirfs_scheme) option" where
  "entries_sub dir buf count prev start s =
     (if start < BINARY_TARFS_END s
      then Option.bind (header_name (bytes s) start) (\<lambda>name.
        if startswith dir name = 0
        then (case get_sub_direntry dir name buf count s of (x, s1) \<Rightarrow>
          Option.bind (after s1 start) (\<lambda>nxt.
            if x = 0
            then Option.bind (array_string (d_name (dirents s1 buf))) (\<lambda>new.
              Option.bind (array_string prev) (\<lambda>old.
                if strcmp new old \<noteq> 0
                then entries_sub dir (buf + SIZEOF_DIRENT) (count - 280) (strcpy new prev) nxt s1
                else entries_sub dir buf count prev nxt s1))
            else entries_sub dir buf count prev nxt s1))
        else Some (True, buf, count, s))
      else Some (False, buf, count, s))"

text \<open>The end of a list: a NUL behind the last entry when there is room; the result is the number of bytes used.\<close>

definition end_list :: "i32 \<Rightarrow> u64 \<Rightarrow> i32 \<Rightarrow> 'a dirfs_scheme \<Rightarrow> u64 \<times> 'a dirfs_scheme" where
  "end_list y buf count s =
     (scast (y - (if sint count < 0 then 0 else count)), if 0 < sint count then upd_dirent buf clear_first s else s)"

definition getDirEntries :: "(nat \<Rightarrow> char) \<Rightarrow> i32 \<Rightarrow> u64 \<Rightarrow> i32 \<Rightarrow> 'a dirfs_scheme \<Rightarrow> (u64 \<times> 'a dirfs_scheme) option" where
  "getDirEntries stk fd buf count s =
     (if sint fd < 0 then Some (0, kprintf ''Invalid FD provided.\<newline>'' [] s)
      else Option.bind (get_fd_address fd s) (\<lambda>(fd_struct, s1).
        if fd_struct = NULL then Some (0, s1)
        else if fd_name (fds s1 fd_struct) 0 = CHR 0x00 then Some (0, upd_dirent buf clear_first s1)
        else Option.bind (array_string (fd_name (fds s1 fd_struct))) (\<lambda>dir.
          let prev_dir = stk(0 := CHR 0x00) in
          if strcmp dir ''/'' = 0
          then map_option (\<lambda>(b, c, s2). end_list count b c s2) (entries_root buf count prev_dir (fd_start (fds s1 fd_struct)) s1)
          else map_option (\<lambda>(closed, b, c, s2). if closed then end_list count b c s2 else (0, upd_dirent b clear_first s2))
                 (entries_sub dir buf count prev_dir (fd_start (fds s1 fd_struct) + 512) s1))))"

section \<open>The listing\<close>

text \<open>The specification: the first part of a name below a directory, and the listing of a sequence of names, equal neighbours once.\<close>

definition part :: "string \<Rightarrow> string" where
  "part name = (let t = takeWhile (\<lambda>c. c \<noteq> SLASH) name in if length t < length name then t @ [SLASH] else t)"

fun fresh :: "string \<Rightarrow> string list \<Rightarrow> string list" where
  "fresh prev [] = []"
| "fresh prev (x # xs) = (if x = prev then fresh prev xs else x # fresh x xs)"

lemma fresh_remdups: "fresh prev xs = tl (remdups_adj (prev # xs))"
proof (induction xs arbitrary: prev)
  case (Cons x xs)
  have "remdups_adj (x # xs) \<noteq> []" by simp
  moreover have "hd (remdups_adj (x # xs)) = x" by simp
  ultimately have "remdups_adj (x # xs) = x # tl (remdups_adj (x # xs))" by (metis list.collapse)
  with Cons.IH [of x] Cons.IH [of prev] show ?case by simp
qed simp

lemma first_part_fits:
  assumes "length name < count"
  shows "first_part name count = part name @ (if length (part name) < count then [CHR 0x00] else [])"
proof -
  let ?t = "takeWhile (\<lambda>c. c \<noteq> SLASH) name"
  have t: "length ?t \<le> length name" by (rule length_takeWhile_le)
  have m: "min (length ?t) count = length ?t" using t assms by simp
  have d: "drop (length ?t) name = dropWhile (\<lambda>c. c \<noteq> SLASH) name" by (rule dropWhile_eq_drop [symmetric])
  have "drop (length ?t) name \<noteq> [] \<Longrightarrow> hd (drop (length ?t) name) = SLASH" unfolding d using hd_dropWhile [of "\<lambda>c. c \<noteq> SLASH" name] by blast
  moreover have "drop (length ?t) name \<noteq> [] \<longleftrightarrow> length ?t < length name" by (simp add: not_le)
  moreover have "take (length ?t) name = ?t" by (rule takeWhile_eq_take [symmetric])
  ultimately show ?thesis using t assms unfolding first_part_def part_def Let_def m by auto
qed

lemma part_length: "length (part name) \<le> length name"
  using length_takeWhile_le [of "\<lambda>c. c \<noteq> SLASH" name] by (auto simp: part_def Let_def)

lemma part_chars: "set (part name) \<subseteq> set name"
proof -
  have "SLASH \<in> set name" if "length (takeWhile (\<lambda>c. c \<noteq> SLASH) name) < length name"
  proof (rule ccontr)
    assume "SLASH \<notin> set name"
    then have "takeWhile (\<lambda>c. c \<noteq> SLASH) name = name" by (simp add: takeWhile_eq_all_conv) blast
    with that show False by simp
  qed
  moreover have "set (takeWhile (\<lambda>c. c \<noteq> SLASH) name) \<subseteq> set name" using set_takeWhileD by fast
  ultimately show ?thesis by (simp add: part_def Let_def)
qed

lemma array_overlay:
  assumes "length name < 255" and "CHR 0x00 \<notin> set name"
  shows "array_string (overlay (first_part name 4096) d) = Some (part name)"
proof (rule array_string_holds)
  have f: "first_part name 4096 = part name @ [CHR 0x00]" using first_part_fits [of name 4096] part_length [of name] assms(1) by simp
  show "overlay (first_part name 4096) d i = part name ! i" if "i < length (part name)" for i
    using that by (simp add: f overlay_def nth_append)
  show "overlay (first_part name 4096) d (length (part name)) = CHR 0x00" by (simp add: f overlay_def)
  show "length (part name) < 256" using part_length [of name] assms(1) by simp
  show "CHR 0x00 \<notin> set (part name)" using part_chars assms(2) by blast
qed

text \<open>Everything but the descriptors, the entries in user buffers and the console is as before.\<close>

definition dirs_only :: "'a dirfs_scheme \<Rightarrow> 'a dirfs_scheme \<Rightarrow> bool" where
  "dirs_only s s' \<longleftrightarrow> bytes s' = bytes s \<and> BINARY_TARFS_START s' = BINARY_TARFS_START s \<and>
     BINARY_TARFS_END s' = BINARY_TARFS_END s \<and> tasks s' = tasks s \<and> runningThread s' = runningThread s"

lemma dirs_only_refl [simp]: "dirs_only s s"
  and dirs_only_trans: "dirs_only s s' \<Longrightarrow> dirs_only s' s'' \<Longrightarrow> dirs_only s s''"
  and dirs_only_upd [simp]: "dirs_only s (upd_dirent a f s)" "dirs_only s (kprintf x y s)"
  by (simp_all add: dirs_only_def upd_dirent_def kprintf_def)

lemma upd_dirent_sel [simp]:
  "bytes (upd_dirent a f s) = bytes s" "BINARY_TARFS_END (upd_dirent a f s) = BINARY_TARFS_END s"
  "fds (upd_dirent a f s) = fds s" "dirents (upd_dirent a f s) = (dirents s)(a := f (dirents s a))"
  "bytes (upd_fd a g s) = bytes s" "fds (upd_fd a g s) = (fds s)(a := g (fds s a))"
  "dirents (upd_fd a g s) = dirents s"
  by (simp_all add: upd_dirent_def upd_fd_def)

lemma dirs_only_fd [simp]: "dirs_only s (upd_fd a g s)"
  by (simp add: dirs_only_def upd_fd_def)

text \<open>What a call that returns the entry \<open>x\<close> has done.\<close>

definition entry_given :: "u64 \<Rightarrow> u64 \<Rightarrow> u64 \<Rightarrow> string \<Rightarrow> 'a dirfs_scheme \<Rightarrow> 'a dirfs_scheme \<Rightarrow> bool" where
  "entry_given fd buf q x s s' \<longleftrightarrow> dirs_only s s' \<and>
     array_string (d_name (dirents s' buf)) = Some x \<and> d_reclen (dirents s' buf) = 280 \<and>
     (\<exists>p. array_string p = Some x \<and> fds s' = (fds s)(fd := (fds s fd)\<lparr>d_prev_dir := p, offset := q\<rparr>))"

lemma entry_given_step:
  assumes "array_string (d_name (dirents s buf)) = Some x" and "length x < 255" and "CHR 0x00 \<notin> set x"
  shows "entry_given fd buf q x s (take_entry fd buf q (upd_fd fd (\<lambda>d. d\<lparr>d_prev_dir := strcpy x (d_prev_dir d)\<rparr>) s))"
  unfolding entry_given_def
proof (intro conjI exI [of _ "strcpy x (d_prev_dir (fds s fd))"])
  show "dirs_only s (take_entry fd buf q (upd_fd fd (\<lambda>d. d\<lparr>d_prev_dir := strcpy x (d_prev_dir d)\<rparr>) s))"
    unfolding take_entry_def by (meson dirs_only_trans dirs_only_upd dirs_only_fd)
  show "array_string (strcpy x (d_prev_dir (fds s fd))) = Some x" by (rule array_string_strcpy [OF assms(2,3)])
qed (simp_all add: take_entry_def assms(1))

lemma entry_given_more: "entry_given fd buf q x (upd_dirent b f s) s' \<Longrightarrow> entry_given fd buf q x s s'"
  by (auto simp: entry_given_def intro: dirs_only_trans [OF dirs_only_upd(1)])

lemma names_archive: "archive m p es e \<Longrightarrow> (n, z) \<in> set es \<Longrightarrow> CHR 0x00 \<notin> set n"
  by (induction es arbitrary: p) (auto simp: header_name_def dest: cstr_no_NUL)

lemma after_archive:
  assumes "archive (bytes s) p ((n, z) # es) e"
  shows "after s p = Some (p + of_nat (512 + pad z))" "archive (bytes s) (p + of_nat (512 + pad z)) es e"
  using assms by (simp_all add: after_def next_header_nat)

text \<open>
  The loops return the head of the listing and leave the tail: the result of one call, when the names not yet listed are \<open>ns\<close>
  and \<open>rest q ns'\<close> says that after it the names \<open>ns'\<close> are left behind the offset \<open>q\<close>.
\<close>

definition lists_next ::
    "u64 \<Rightarrow> u64 \<Rightarrow> (u64 \<times> 'a dirfs_scheme) option \<Rightarrow> 'a dirfs_scheme \<Rightarrow> string list \<Rightarrow> (u64 \<Rightarrow> string list \<Rightarrow> bool) \<Rightarrow> bool" where
  "lists_next fd buf res s xs rest \<longleftrightarrow>
     (xs = [] \<longrightarrow> (\<exists>s'. res = Some (NULL, s') \<and> dirs_only s s' \<and> fds s' = fds s)) \<and>
     (\<forall>x xs'. xs = x # xs' \<longrightarrow> (\<exists>s' q. res = Some (buf, s') \<and> entry_given fd buf q x s s' \<and> (\<exists>ns. rest q ns \<and> xs' = fresh x (map part ns))))"

lemma lists_next_more:
  assumes "lists_next fd buf res (upd_dirent b f s) xs rest"
  shows "lists_next fd buf res s xs rest"
proof (cases xs)
  case Nil
  with assms show ?thesis by (auto simp: lists_next_def intro: dirs_only_trans [OF dirs_only_upd(1)])
next
  case (Cons x xs')
  with assms obtain s' q ns where "res = Some (buf, s')" "entry_given fd buf q x (upd_dirent b f s) s'" "rest q ns" "xs' = fresh x (map part ns)"
    unfolding lists_next_def by blast
  with Cons entry_given_more show ?thesis unfolding lists_next_def by blast
qed

lemma lists_next_ConsI:
  "entry_given fd buf q x s s' \<Longrightarrow> rest q ns \<Longrightarrow> lists_next fd buf (Some (buf, s')) s (x # fresh x (map part ns)) rest"
  unfolding lists_next_def by blast

definition root_rest :: "(u64 \<Rightarrow> char) \<Rightarrow> u64 \<Rightarrow> u64 \<Rightarrow> string list \<Rightarrow> bool" where
  "root_rest m en q ns \<longleftrightarrow> (\<exists>es. archive m q es en \<and> (\<forall>(n, z) \<in> set es. length n < 255) \<and> ns = map fst es)"

lemma list_root_spec:
  assumes "archive (bytes s) start es (BINARY_TARFS_END s)" and "array_string (d_prev_dir (fds s fd)) = Some prev"
    and "CHR 0x00 \<notin> set prev" and "\<forall>(n, z) \<in> set es. length n < 255"
  shows "lists_next fd buf (list_root fd buf start s) s (fresh prev (map part (map fst es))) (root_rest (bytes s) (BINARY_TARFS_END s))"
  using assms
proof (induction es arbitrary: s start)
  case Nil
  then show ?case by (simp add: list_root.simps lists_next_def)
next
  case (Cons e es)
  obtain n z where e: "e = (n, z)" by (cases e)
  let ?s = "upd_dirent buf (\<lambda>d. d\<lparr>d_name := get_first_directory n (d_name d) 4096\<rparr>) s"
  define q where "q = start + of_nat (512 + pad z)"
  have h: "start < BINARY_TARFS_END s" "header_name (bytes s) start = Some n" using Cons.prems(1) by (simp_all add: e)
  note A = after_archive [OF Cons.prems(1) [unfolded e], folded q_def]
  have nul: "CHR 0x00 \<notin> set n" using names_archive [OF Cons.prems(1), of n z] by (simp add: e)
  have len: "length n < 255" using Cons.prems(4) by (simp add: e)
  have new: "array_string (d_name (dirents ?s buf)) = Some (part n)"
    using array_overlay [OF len nul] by (simp add: get_first_directory_def)
  have a: "after ?s start = Some q" using A(1) by (simp add: after_def)
  have pn: "CHR 0x00 \<notin> set (part n)" "length (part n) < 255" using part_chars nul part_length [of n] len by (blast, simp)
  have c: "strcmp (part n) prev = 0 \<longleftrightarrow> part n = prev" using pn(1) Cons.prems(3) by (rule strcmp_eq_0)
  have step: "list_root fd buf start s =
      (if part n \<noteq> prev then Some (buf, take_entry fd buf q (upd_fd fd (\<lambda>d. d\<lparr>d_prev_dir := strcpy (part n) (d_prev_dir d)\<rparr>) ?s))
       else list_root fd buf q ?s)"
    using h Cons.prems(2) by (subst list_root.simps) (simp add: new a c Let_def del: upd_dirent_sel(4))
  show ?case
  proof (cases "part n = prev")
    case False
    have "entry_given fd buf q (part n) s (take_entry fd buf q (upd_fd fd (\<lambda>d. d\<lparr>d_prev_dir := strcpy (part n) (d_prev_dir d)\<rparr>) ?s))"
      by (rule entry_given_more [OF entry_given_step [OF new pn(2,1)]])
    moreover have "root_rest (bytes s) (BINARY_TARFS_END s) q (map fst es)" using A(2) Cons.prems(4) by (auto simp: root_rest_def)
    ultimately show ?thesis using False by (simp add: step e lists_next_ConsI del: map_map)
  next
    case True
    have "archive (bytes ?s) q es (BINARY_TARFS_END ?s)" using A(2) by simp
    from lists_next_more [OF Cons.IH [OF this _ Cons.prems(3)]] Cons.prems(2,4) True show ?thesis by (simp add: step e)
  qed
qed

text \<open>The part of the archive that lies below a directory: the entries that follow it and start with its name.\<close>

definition below :: "string \<Rightarrow> (string \<times> nat) list \<Rightarrow> string list" where
  "below dir es = map (drop (length dir)) (takeWhile (\<lambda>n. startswith dir n = 0) (map fst es))"

definition sub_rest :: "(u64 \<Rightarrow> char) \<Rightarrow> u64 \<Rightarrow> string \<Rightarrow> u64 \<Rightarrow> string list \<Rightarrow> bool" where
  "sub_rest m en dir q ns \<longleftrightarrow>
     (\<exists>e es. archive m q (e # es) en \<and> (\<forall>(n, z) \<in> set es. length n < 255) \<and> ns = below dir es)"

lemma list_sub_spec:
  assumes "archive (bytes s) start es (BINARY_TARFS_END s)" and "array_string (d_prev_dir (fds s fd)) = Some prev"
    and "CHR 0x00 \<notin> set prev" and "\<forall>(n, z) \<in> set es. length n < 255"
  shows "lists_next fd buf (list_sub fd buf dir start s) s (fresh prev (map part (below dir es))) (sub_rest (bytes s) (BINARY_TARFS_END s) dir)"
  using assms
proof (induction es arbitrary: s start)
  case Nil
  then show ?case by (simp add: list_sub.simps below_def lists_next_def) (simp add: kprintf_def)
next
  case (Cons e es)
  obtain n z where e: "e = (n, z)" by (cases e)
  let ?n = "drop (length dir) n"
  let ?s = "upd_dirent buf (\<lambda>d. d\<lparr>d_name := snd (get_sub_directory dir n (d_name d) 4096)\<rparr>) s"
  define q where "q = start + of_nat (512 + pad z)"
  have h: "start < BINARY_TARFS_END s" "header_name (bytes s) start = Some n" using Cons.prems(1) by (simp_all add: e)
  note A = after_archive [OF Cons.prems(1) [unfolded e], folded q_def]
  show ?case
  proof (cases "startswith dir n = 0")
    case False
    with h show ?thesis by (simp add: list_sub.simps [of fd buf dir start s] below_def e lists_next_def)
  next
    case sw: True
    have "CHR 0x00 \<notin> set n" using names_archive [OF Cons.prems(1), of n z] by (simp add: e)
    then have nul: "CHR 0x00 \<notin> set ?n" by (meson in_set_dropD)
    have "length n < 255" using Cons.prems(4) by (simp add: e)
    then have len: "length ?n < 255" by simp
    have new: "array_string (d_name (dirents ?s buf)) = Some (part ?n)"
      using array_overlay [OF len nul] sw by (simp add: get_sub_directory_def)
    have a: "after ?s start = Some q" using A(1) by (simp add: after_def)
    have pn: "CHR 0x00 \<notin> set (part ?n)" "length (part ?n) < 255" using part_chars nul part_length [of ?n] len by (blast, simp)
    have c: "strcmp (part ?n) prev = 0 \<longleftrightarrow> part ?n = prev" using pn(1) Cons.prems(3) by (rule strcmp_eq_0)
    have step: "list_sub fd buf dir start s =
        (if part ?n \<noteq> prev then Some (buf, take_entry fd buf start (upd_fd fd (\<lambda>d. d\<lparr>d_prev_dir := strcpy (part ?n) (d_prev_dir d)\<rparr>) ?s))
         else list_sub fd buf dir q ?s)"
      using h Cons.prems(2) sw by (subst list_sub.simps) (simp add: new a c Let_def del: upd_dirent_sel(4))
    have b: "below dir (e # es) = ?n # below dir es" using sw by (simp add: below_def e)
    show ?thesis
    proof (cases "part ?n = prev")
      case False
      have "entry_given fd buf start (part ?n) s (take_entry fd buf start (upd_fd fd (\<lambda>d. d\<lparr>d_prev_dir := strcpy (part ?n) (d_prev_dir d)\<rparr>) ?s))"
        by (rule entry_given_more [OF entry_given_step [OF new pn(2,1)]])
      moreover have "sub_rest (bytes s) (BINARY_TARFS_END s) dir start (below dir es)"
        using Cons.prems(1,4) unfolding sub_rest_def by fastforce
      ultimately show ?thesis using False by (simp add: step b lists_next_ConsI)
    next
      case True
      have "archive (bytes ?s) q es (BINARY_TARFS_END ?s)" using A(2) by simp
      from lists_next_more [OF Cons.IH [OF this _ Cons.prems(3)]] Cons.prems(2,4) True show ?thesis by (simp add: step b)
    qed
  qed
qed

section \<open>The buffer of \<open>malloc\<close>\<close>

text \<open>\<open>malloc\<close> changes memory, the areas and the list of areas of the task, nothing else of a process, of the terminal or of the file system.\<close>

definition areas_only :: "'a kernel_scheme \<Rightarrow> 'a kernel_scheme \<Rightarrow> bool" where
  "areas_only s s' \<longleftrightarrow> kernel.more s' = kernel.more s \<and> runningThread s' = runningThread s \<and> kbd_state s' = kbd_state s \<and>
     (\<forall>t. fd_pointers (tasks s' t) = fd_pointers (tasks s t) \<and> fd_count (tasks s' t) = fd_count (tasks s t))"

lemma areas_only_refl [simp]: "areas_only s s"
  by (simp add: areas_only_def)

lemma areas_only_trans: "areas_only s s' \<Longrightarrow> areas_only s' s'' \<Longrightarrow> areas_only s s''"
  by (simp add: areas_only_def)

lemma areas_only_upd [simp]:
  "areas_only s (upd_vma v f s)" "areas_only s (upd_mmap t p s)" "areas_only s (snd (getNextPageNum s))"
  by (simp_all add: areas_only_def upd_vma_def upd_mmap_def upd_task_def getNextPageNum_def Let_def)

lemma areas_only_phys: "phys_only (s :: 'a kernel_scheme) s' \<Longrightarrow> areas_only s s'"
proof -
  assume "phys_only s s'"
  then obtain a m where "s' = s\<lparr>availFrames := a, pmem := m\<rparr>" unfolding phys_only_def by blast
  then show ?thesis by (simp add: areas_only_def)
qed

lemma areas_only_kmalloc_vma: "kmalloc_vma s = (p, s') \<Longrightarrow> areas_only s s'"
  using areas_only_phys [OF phys_only_kmalloc [of s]]
  by (auto simp: kmalloc_vma_def split: prod.splits intro: areas_only_trans)

lemma areas_only_scan: "malloc_scan sz temp en s = Some (l, e, f, s') \<Longrightarrow> areas_only s s'"
proof -
  have "(case r of (l, e, f, s') \<Rightarrow> areas_only s s')" if "malloc_scan sz temp en s = Some r" for sz temp en s r
    by (rule malloc_scan.raw_induct [where P = "\<lambda>sz temp en s r. case r of (l, e, f, s') \<Rightarrow> areas_only s s'", OF _ that])
      (auto simp: Let_def split: if_splits) 
  then show "malloc_scan sz temp en s = Some (l, e, f, s') \<Longrightarrow> areas_only s s'" by fastforce
qed

lemma areas_only_malloc: "malloc sz s = Some (a, s') \<Longrightarrow> areas_only s s'"
proof -
  assume m: "malloc sz s = Some (a, s')"
  obtain v s1 where k: "kmalloc_vma s = (v, s1)" by fastforce
  note K = areas_only_kmalloc_vma [OF k]
  show ?thesis
  proof (cases "run_mmap s = NULL")
    case True
    obtain pn s2 where g: "getNextPageNum s1 = (pn, s2)" by fastforce
    have "areas_only s1 s2" using areas_only_upd(3) [of s1] g by simp
    with K have "areas_only s s2" by (rule areas_only_trans)
    with m show ?thesis by (auto simp: malloc_def k True g Let_def intro: areas_only_trans [OF areas_only_trans [OF _ areas_only_upd(1)] areas_only_upd(2)])
  next
    case False
    with m obtain l e f s2 where sc: "malloc_scan sz (run_mmap s) 0 s1 = Some (l, e, f, s2)" 
      by (auto simp: malloc_def k Let_def split: option.splits)
    obtain pn s3 where g: "getNextPageNum s2 = (pn, s3)" by fastforce
    have "areas_only s2 s3" using areas_only_upd(3) [of s2] g by simp
    then have "areas_only s s3" using K areas_only_scan [OF sc] by (blast intro: areas_only_trans)
    with m False show ?thesis
      by (auto simp: malloc_def k sc g Let_def intro: areas_only_trans [OF areas_only_trans [OF _ areas_only_upd(1)] areas_only_upd(1)])
  qed
qed

lemma more_fs:
  assumes "kernel.more (s' :: 'a fs_scheme) = kernel.more s"
  shows "bytes s' = bytes s" "fds s' = fds s" "BINARY_TARFS_START s' = BINARY_TARFS_START s" "BINARY_TARFS_END s' = BINARY_TARFS_END s"
  using assms by (cases s; cases s'; simp)+

section \<open>The contract of a lister\<close>

text \<open>
  \<open>view s xs\<close>: the entries not yet given are \<open>xs\<close>. A call gives the first of them, or nothing at the end.
\<close>

fun collect :: "('s \<Rightarrow> (string option \<times> 's) option) \<Rightarrow> nat \<Rightarrow> 's \<Rightarrow> (string list \<times> 's) option" where
  "collect nx 0 s = Some ([], s)"
| "collect nx (Suc n) s =
     (case nx s of
        None \<Rightarrow> None
      | Some (None, s1) \<Rightarrow> Some ([], s1)
      | Some (Some x, s1) \<Rightarrow> map_option (\<lambda>(xs, s2). (x # xs, s2)) (collect nx n s1))"

locale lister =
  fixes view :: "'s \<Rightarrow> string list \<Rightarrow> bool"
    and nx :: "'s \<Rightarrow> (string option \<times> 's) option"
  assumes nx_view: "view s xs \<Longrightarrow> nx s = Some (r, s') \<Longrightarrow>
    r = (if xs = [] then None else Some (hd xs)) \<and> view s' (tl xs)"
begin

lemma collect_view: "view s xs \<Longrightarrow> collect nx n s = Some (ys, s') \<Longrightarrow> ys = take n xs \<and> view s' (drop n xs)"
proof (induction n arbitrary: s xs ys)
  case (Suc n)
  from Suc.prems(2) obtain r s1 where r: "nx s = Some (r, s1)" by (auto split: option.splits)
  note V = nx_view [OF Suc.prems(1) r]
  show ?case
  proof (cases xs)
    case Nil
    with V r Suc.prems(2) show ?thesis by auto
  next
    case (Cons x xs')
    with V r Suc.prems(2) obtain zs where z: "collect nx n s1 = Some (zs, s')" "ys = x # zs" by auto
    from Suc.IH [OF _ z(1), of xs'] V Cons z(2) show ?thesis by simp
  qed
qed simp

end

section \<open>\<open>readDir\<close> as a lister\<close>

lemma array_string_no_NUL: "array_string b = Some x \<Longrightarrow> CHR 0x00 \<notin> set x"
  by (auto simp: array_string_def Let_def dest: set_takeWhileD simp del: upt_rec_numeral split: if_splits)

text \<open>The names not yet listed, from the offset on.\<close>

definition dir_rest :: "'a dirfs_scheme \<Rightarrow> string \<Rightarrow> u64 \<Rightarrow> string list \<Rightarrow> bool" where
  "dir_rest s dir q ns \<longleftrightarrow>
     (if dir = ''/'' then root_rest (bytes s) (BINARY_TARFS_END s) q ns else sub_rest (bytes s) (BINARY_TARFS_END s) dir q ns)"

lemma dir_rest_cong: "bytes s' = bytes s \<Longrightarrow> BINARY_TARFS_END s' = BINARY_TARFS_END s \<Longrightarrow> dir_rest s' = dir_rest s"
  by (intro ext) (simp add: dir_rest_def)

definition dir_view :: "u64 \<Rightarrow> string \<Rightarrow> 'a dirfs_scheme \<Rightarrow> string list \<Rightarrow> bool" where
  "dir_view dirp dir s xs \<longleftrightarrow> dirp \<noteq> NULL \<and> 0 \<le> sint (get_fd dirp s) \<and> get_fd_address (get_fd dirp s) s = Some (dirp, s) \<and>
     array_string (fd_name (fds s dirp)) = Some dir \<and> dir \<noteq> [] \<and>
     (\<exists>prev ns. array_string (d_prev_dir (fds s dirp)) = Some prev \<and>
        dir_rest s dir (offset (fds s dirp)) ns \<and> xs = fresh prev (map part ns))"

lemma get_fd_cong:
  assumes "runningThread s' = runningThread s" "fd_count (tasks s' (runningThread s)) = fd_count (tasks s (runningThread s))"
    "\<And>i. fd_page s' i = fd_page s i" "\<And>a. d_dirp (fds s' a) = d_dirp (fds s a)"
  shows "get_fd dirp s' = get_fd dirp s"
proof -
  have "get_fd_loop dirp s' ps = get_fd_loop dirp s ps" for ps
    by (induction ps) (simp_all add: assms(3,4) Let_def del: upt_rec_numeral split: option.split)
  then show ?thesis by (simp add: get_fd_def assms(1,2))
qed

lemma get_fd_address_cong:
  assumes "\<And>i. fd_page s' i = fd_page s i" and "get_fd_address fd s = Some (a, s)" and "a \<noteq> NULL"
  shows "get_fd_address fd s' = Some (a, s')"
  using assms by (auto simp: get_fd_address_def Let_def split: if_splits)

lemma dir_view_cong:
  assumes "dir_view dirp dir s xs" and "runningThread s' = runningThread s"
    and "fd_count (tasks s' (runningThread s)) = fd_count (tasks s (runningThread s))" and "\<And>i. fd_page s' i = fd_page s i"
    and "fds s' = fds s" "bytes s' = bytes s" "BINARY_TARFS_END s' = BINARY_TARFS_END s"
  shows "dir_view dirp dir s' xs"
proof -
  have "get_fd dirp s' = get_fd dirp s" by (rule get_fd_cong [OF assms(2-4)]) (simp add: assms(5))
  with assms(1) get_fd_address_cong [OF assms(4), of "get_fd dirp s" dirp] show ?thesis
    unfolding dir_view_def by (simp add: assms(5) dir_rest_cong [OF assms(6,7)])
qed

text \<open>The loops write no entry but the one at the given buffer.\<close>

lemma list_root_other:
  fixes s :: "'a dirfs_scheme"
  assumes "list_root fd buf start s = Some y" and "b \<noteq> buf"
  shows "dirents (snd y) b = dirents s b"
proof (rule list_root.raw_induct [where P = "\<lambda>fd' buf' _ s y. b \<noteq> buf' \<longrightarrow> dirents (snd y) b = dirents s b", OF _ assms(1), THEN mp, OF _ assms(2)])
  fix rec fd buf start y and s :: "'a dirfs_scheme"
  assume IH: "\<And>fd buf start s y. rec fd buf start s = Some y \<Longrightarrow> b \<noteq> buf \<longrightarrow> dirents (snd y) b = dirents s b"
    and y: "(if start < BINARY_TARFS_END s
      then Option.bind (header_name (bytes s) start) (\<lambda>name.
        let s1 = upd_dirent buf (\<lambda>d. d\<lparr>d_name := get_first_directory name (d_name d) 4096\<rparr>) s in
        Option.bind (array_string (d_name (dirents s1 buf))) (\<lambda>new.
        Option.bind (array_string (d_prev_dir (fds s1 fd))) (\<lambda>prev.
        Option.bind (after s1 start) (\<lambda>nxt.
          if strcmp new prev \<noteq> 0
          then Some (buf, take_entry fd buf nxt (upd_fd fd (\<lambda>d. d\<lparr>d_prev_dir := strcpy new (d_prev_dir d)\<rparr>) s1))
          else rec fd buf nxt s1))))
      else Some (NULL, upd_dirent buf clear_first s)) = Some y"
  from y show "b \<noteq> buf \<longrightarrow> dirents (snd y) b = dirents s b"
    by (auto simp: Let_def bind_eq_Some_conv take_entry_def split: if_splits dest!: IH)
qed

lemma list_sub_other:
  fixes s :: "'a dirfs_scheme"
  assumes "list_sub fd buf dir start s = Some y" and "b \<noteq> buf"
  shows "dirents (snd y) b = dirents s b"
proof (rule list_sub.raw_induct [where P = "\<lambda>fd' buf' _ _ s y. b \<noteq> buf' \<longrightarrow> dirents (snd y) b = dirents s b", OF _ assms(1), THEN mp, OF _ assms(2)])
  fix rec fd buf dir start y and s :: "'a dirfs_scheme"
  assume IH: "\<And>fd buf dir start s y. rec fd buf dir start s = Some y \<Longrightarrow> b \<noteq> buf \<longrightarrow> dirents (snd y) b = dirents s b"
    and y: "(if start < BINARY_TARFS_END s
      then Option.bind (header_name (bytes s) start) (\<lambda>name.
        if startswith dir name = 0
        then (let s1 = upd_dirent buf (\<lambda>d. d\<lparr>d_name := snd (get_sub_directory dir name (d_name d) 4096)\<rparr>) s in
          Option.bind (array_string (d_name (dirents s1 buf))) (\<lambda>new.
          Option.bind (array_string (d_prev_dir (fds s1 fd))) (\<lambda>prev.
            if strcmp new prev \<noteq> 0
            then Some (buf, take_entry fd buf start (upd_fd fd (\<lambda>d. d\<lparr>d_prev_dir := strcpy new (d_prev_dir d)\<rparr>) s1))
            else Option.bind (after s1 start) (\<lambda>nxt. rec fd buf dir nxt s1))))
        else Some (NULL, upd_dirent buf clear_first s))
      else Some (NULL, kprintf ''Incorrect FD.\<newline>'' [] s)) = Some y"
  have k: "dirents (kprintf m x t) = dirents t" for m x and t :: "'a dirfs_scheme" by (simp add: kprintf_def)
  from y show "b \<noteq> buf \<longrightarrow> dirents (snd y) b = dirents s b"
    by (auto simp: Let_def bind_eq_Some_conv take_entry_def k split: if_splits dest!: IH)
qed

lemma readDir_other:
  fixes s :: "'a dirfs_scheme"
  assumes r: "readDir dirp s = Some (v, s')" and m: "malloc SIZEOF_DIRENT s = Some (buf, t)" and b: "b \<noteq> buf"
    and fd: "get_fd_address (get_fd dirp s) s = Some (dirp, s)"
  shows "dirents s' b = dirents s b"
proof -
  have k: "dirents (kprintf m x u) = dirents u" for m x and u :: "'a dirfs_scheme" by (simp add: kprintf_def)
  have e: "dirents t = dirents s"
    using areas_only_malloc [OF m] unfolding areas_only_def by (cases s; cases t; simp)
  show ?thesis
    using r m fd list_root_other [OF _ b] list_sub_other [OF _ b]
    by (fastforce simp: readDir_def Let_def bind_eq_Some_conv k e split: if_splits)
qed

text \<open>One call: it returns when its \<open>malloc\<close> does.\<close>

lemma readDir_view:
  fixes s :: "'a dirfs_scheme"
  assumes v: "dir_view dirp dir s xs" and m: "malloc SIZEOF_DIRENT s = Some (buf, t)"
  shows "\<exists>s'. readDir dirp s = Some (if xs = [] then NULL else buf, s') \<and> dir_view dirp dir s' (tl xs) \<and>
    (xs \<noteq> [] \<longrightarrow> array_string (d_name (dirents s' buf)) = Some (hd xs) \<and> d_reclen (dirents s' buf) = 280)"
proof -
  note M = areas_only_malloc [OF m, unfolded areas_only_def]
  note F = more_fs [OF conjunct1 [OF M]]
  have vt: "dir_view dirp dir t xs" by (rule dir_view_cong [OF v]) (use M F in auto)
  then obtain prev ns where d: "dirp \<noteq> NULL" "array_string (fd_name (fds t dirp)) = Some dir" "dir \<noteq> []"
    "array_string (d_prev_dir (fds t dirp)) = Some prev" "xs = fresh prev (map part ns)"
    and rest: "dir_rest t dir (offset (fds t dirp)) ns"
    unfolding dir_view_def by blast
  have nul: "CHR 0x00 \<notin> set dir" "CHR 0x00 \<notin> set prev" using array_string_no_NUL d(2,4) by blast+
  have c: "strcmp dir ''/'' = 0 \<longleftrightarrow> dir = ''/''" using nul(1) by (simp add: strcmp_eq_0)
  have rd: "readDir dirp s = (if dir = ''/'' then list_root dirp buf (offset (fds t dirp)) t
      else Option.bind (after t (offset (fds t dirp))) (\<lambda>nxt. list_sub dirp buf dir nxt t))"
    using v d(1-3) m c by (simp add: readDir_def dir_view_def Let_def not_less)
  have "\<exists>res. readDir dirp s = res \<and> lists_next dirp buf res t xs (dir_rest t dir)"
  proof (cases "dir = ''/''")
    case True
    with rest obtain es where es: "archive (bytes t) (offset (fds t dirp)) es (BINARY_TARFS_END t)"
      "\<forall>(n, z) \<in> set es. length n < 255" "ns = map fst es" unfolding root_rest_def dir_rest_def by auto
    from list_root_spec [OF es(1) d(4) nul(2) es(2)] show ?thesis using True by (simp add: rd d(5) es(3) dir_rest_def [abs_def])
  next
    case False
    with rest obtain n z es where es: "archive (bytes t) (offset (fds t dirp)) ((n, z) # es) (BINARY_TARFS_END t)"
      "\<forall>(n, z) \<in> set es. length n < 255" "ns = below dir es" unfolding sub_rest_def dir_rest_def by auto
    note A = after_archive [OF es(1)]
    from list_sub_spec [OF A(2) d(4) nul(2) es(2)] show ?thesis using False by (simp add: rd d(5) es(3) dir_rest_def [abs_def] A(1))
  qed
  then have ln: "lists_next dirp buf (readDir dirp s) t xs (dir_rest t dir)" by blast
  have keep: "dir_view dirp dir s' ys" if "dirs_only t s'" "fds s' = (fds t)(dirp := (fds t dirp)\<lparr>d_prev_dir := p, offset := q\<rparr>)"
    "array_string p = Some x" "dir_rest t dir q ms" "ys = fresh x (map part ms)" for s' p q x ms ys
  proof -
    have e: "tasks s' = tasks t" "runningThread s' = runningThread t" "bytes s' = bytes t" "BINARY_TARFS_END s' = BINARY_TARFS_END t"
      using that(1) by (simp_all add: dirs_only_def)
    have "d_dirp (fds s' a) = d_dirp (fds t a)" for a by (simp add: that(2))
    then have "get_fd dirp s' = get_fd dirp t" by (intro get_fd_cong) (simp_all add: e)
    moreover have "get_fd_address (get_fd dirp t) s' = Some (dirp, s')"
      by (rule get_fd_address_cong [of _ t]) (use vt d(1) e in \<open>simp_all add: dir_view_def\<close>)
    moreover have "fds s' dirp = (fds t dirp)\<lparr>d_prev_dir := p, offset := q\<rparr>" by (simp add: that(2))
    ultimately show ?thesis using vt that(3-5) d(1-3) unfolding dir_view_def by (auto simp: dir_rest_cong [OF e(3,4)])
  qed
  show ?thesis
  proof (cases xs)
    case Nil
    with ln obtain s' where s': "readDir dirp s = Some (NULL, s')" "dirs_only t s'" "fds s' = fds t" unfolding lists_next_def by blast
    have "dir_view dirp dir s' xs" using s'(2) by (intro dir_view_cong [OF vt]) (simp_all add: s'(3) dirs_only_def)
    with s'(1) Nil show ?thesis by simp
  next
    case (Cons x xs')
    with ln obtain s' q ms where s': "readDir dirp s = Some (buf, s')" "entry_given dirp buf q x t s'" "dir_rest t dir q ms" "xs' = fresh x (map part ms)"
      unfolding lists_next_def by blast
    from s'(2) keep [OF _ _ _ s'(3,4)] have "dir_view dirp dir s' xs'" unfolding entry_given_def by blast
    with s'(1,2) Cons show ?thesis by (simp add: entry_given_def)
  qed
qed

text \<open>The next entry, as long as \<open>malloc\<close> gives a buffer.\<close>

definition next_entry :: "u64 \<Rightarrow> 'a dirfs_scheme \<Rightarrow> (string option \<times> 'a dirfs_scheme) option" where
  "next_entry dirp s =
     (case malloc SIZEOF_DIRENT s of
        None \<Rightarrow> None
      | Some (buf, t) \<Rightarrow>
          if buf = NULL then None
          else map_option (\<lambda>(p, s'). (if p = NULL then None else array_string (d_name (dirents s' p)), s')) (readDir dirp s))"

interpretation directory: lister "dir_view dirp dir" "next_entry dirp" for dirp dir
proof
  fix s s' :: "'a dirfs_scheme" and xs r
  assume v: "dir_view dirp dir s xs" and n: "next_entry dirp s = Some (r, s')"
  then obtain buf t where m: "malloc SIZEOF_DIRENT s = Some (buf, t)" "buf \<noteq> NULL" by (auto simp: next_entry_def split: option.splits if_splits)
  from readDir_view [OF v m(1)] n m show "r = (if xs = [] then None else Some (hd xs)) \<and> dir_view dirp dir s' (tl xs)"
    by (auto simp: next_entry_def split: if_splits)
qed

section \<open>Opening a directory\<close>

lemma get_fd_loop_finds:
  assumes "fd_ok s n" and "3 \<le> i" and "i < 5 * n" and "d_dirp (fds s (fd_addr s i)) = a"
    and "\<And>j. 3 \<le> j \<Longrightarrow> j < i \<Longrightarrow> d_dirp (fds s (fd_addr s j)) \<noteq> a" and "k \<le> i div 5"
  shows "get_fd_loop a s [k..<n] = of_nat i"
  using assms(6)
proof (induction "i div 5 - k" arbitrary: k)
  case 0
  then have k: "k = i div 5" by simp
  have kn: "k < n" using assms(3) k by simp
  have u: "[k..<n] = k # [Suc k..<n]" using kn by (rule upt_conv_Cons)
  have i: "i = 5 * k + i mod 5" by (simp add: k)
  let ?P = "\<lambda>fd. 5 * k + fd > 2 \<and> d_dirp (fds s (fd_at (fd_page s k) fd)) = a"
  have adr: "fd_addr s (5 * k + l) = fd_at (fd_page s k) l" if "l < 5" for l using that by (simp add: fd_addr_def)
  have P: "?P (i mod 5)" using assms(2,4) i adr [of "i mod 5"] by simp
  have "List.find ?P [0..<5] = Some (i mod 5)"
  proof (cases "List.find ?P [0..<5]")
    case None
    have "i mod 5 < 5" by simp
    with P None [unfolded find_upt_None] show ?thesis by blast
  next
    case (Some l)
    from find_upt_Some [OF this] have l: "l < 5" "?P l" "\<forall>l' < l. \<not> ?P l'" by blast+
    have "\<not> l < i mod 5"
    proof
      assume "l < i mod 5"
      then have "5 * k + l < i" using i by linarith
      with assms(5) [of "5 * k + l"] l(1,2) adr [of l] show False by simp
    qed
    moreover have "\<not> i mod 5 < l" using l(3) P by blast
    ultimately show ?thesis using Some by simp
  qed
  then show ?case using fd_okD(3) [OF assms(1) kn] i by (simp add: u Let_def del: upt_rec_numeral)
next
  case (Suc x)
  then have k: "k < i div 5" by simp
  have kn: "k < n" using assms(3) k by simp
  have u: "[k..<n] = k # [Suc k..<n]" using kn by (rule upt_conv_Cons)
  have adr: "fd_addr s (5 * k + l) = fd_at (fd_page s k) l" if "l < 5" for l using that by (simp add: fd_addr_def)
  have "d_dirp (fds s (fd_at (fd_page s k) l)) \<noteq> a" if "l < 5" "2 < 5 * k + l" for l
    using assms(5) [of "5 * k + l"] adr [OF that(1)] that k by simp
  then have "List.find (\<lambda>fd. 5 * k + fd > 2 \<and> d_dirp (fds s (fd_at (fd_page s k) fd)) = a) [0..<5] = None"
    by (simp add: find_upt_None del: upt_rec_numeral)
  with Suc fd_okD(3) [OF assms(1) kn] show ?case by (simp add: u Let_def del: upt_rec_numeral)
qed

lemma get_fd_finds:
  assumes "fd_ok s n" and "3 \<le> i" and "i < 5 * n" and "d_dirp (fds s (fd_addr s i)) = fd_addr s i" and "dirp_ok s n" and "fd_addr s i \<noteq> 0"
  shows "get_fd (fd_addr s i) s = of_nat i" "get_fd_address (of_nat i) s = Some (fd_addr s i, s)" "0 \<le> sint (of_nat i :: i32)"
proof -
  have n: "n \<le> 20" by (rule fd_okD(1) [OF assms(1)])
  have "sint (of_nat (5 * n) :: i32) = int (5 * n)" using n by (simp add: signed_of_nat signed_take_bit_int_eq_self del: of_nat_mult)
  then have "nat (sint (fd_count (tasks s (runningThread s)))) div 5 = n" using assms(1) unfolding fd_ok_def by simp
  moreover have "d_dirp (fds s (fd_addr s j)) \<noteq> fd_addr s i" if "3 \<le> j" "j < i" for j
  proof
    assume e: "d_dirp (fds s (fd_addr s j)) = fd_addr s i"
    have "j < 5 * n" using that assms(3) by simp
    then have "d_dirp (fds s (fd_addr s j)) = 0 \<or> d_dirp (fds s (fd_addr s j)) = fd_addr s j" using assms(5) unfolding dirp_ok_def by blast
    with e assms(6) have "fd_addr s j = fd_addr s i" by auto
    with fd_addr_inj [OF assms(1)] assms(3) that show False by (metis less_irrefl less_trans)
  qed
  ultimately show "get_fd (fd_addr s i) s = of_nat i"
    unfolding get_fd_def using get_fd_loop_finds [OF assms(1-4), of 0] by simp
  have i: "sint (of_nat i :: i32) = int i" using assms(3) n by (simp add: signed_of_nat signed_take_bit_int_eq_self)
  then show "0 \<le> sint (of_nat i :: i32)" by simp
  show "get_fd_address (of_nat i) s = Some (fd_addr s i, s)"
    using i assms(3) n fd_okD(3) [OF assms(1), of "i div 5"] by (simp add: get_fd_address_def Let_def fd_addr_def)
qed

text \<open>The archive from the entry that a look-up finds.\<close>

fun from_entry :: "(string \<times> nat) list \<Rightarrow> string \<Rightarrow> (string \<times> nat) list" where
  "from_entry [] name = []"
| "from_entry ((n, z) # es) name = (if n = name then (n, z) # es else from_entry es name)"

lemma archive_from:
  "archive m p es e \<Longrightarrow> lookup p es name = Some (q, sz) \<Longrightarrow>
     archive m q (from_entry es name) e \<and> (\<exists>rest. from_entry es name = (name, sz) # rest \<and> set rest \<subseteq> set es)"
proof (induction es arbitrary: p)
  case (Cons x es)
  obtain n z where x: "x = (n, z)" by (cases x)
  show ?case
  proof (cases "n = name")
    case True
    with Cons.prems show ?thesis by (auto simp: x)
  next
    case False
    with Cons.IH [of "p + of_nat (512 + pad z)"] Cons.prems have
      "archive m q (from_entry es name) e \<and> (\<exists>rest. from_entry es name = (name, sz) # rest \<and> set rest \<subseteq> set es)" by (simp add: x)
    with False show ?thesis by (auto simp: x)
  qed
qed simp

lemma opened_view:
  fixes s :: "'a dirfs_scheme"
  assumes "fd_ok s n" and "dirp_ok s n" and "free_frames s \<noteq> {}" and "least_free s i"
    and "name \<noteq> []" and "CHR 0x00 \<notin> set name" and "length name < 255" and "dir_rest s name start ns"
  shows "\<exists>s1 n'. find_free [0..<20] s = (Some (i, fd_addr s1 i), s1) \<and>
    (let s' = upd_fd (fd_addr s1 i) (fill_fd name start (fd_addr s1 i)) s1 in
     fd_ok s' n' \<and> dirp_ok s' n' \<and> dir_view (fd_addr s1 i) name s' (fresh [] (map part ns)))"
proof -
  obtain s1 n' where f: "find_free [0..<20] s = (Some (i, fd_addr s1 i), s1)"
    and A: "\<And>dirp. let s' = upd_fd (fd_addr s1 i) (fill_fd name start dirp) s1 in
       fd_ok s' n' \<and> bytes s' = bytes s \<and> BINARY_TARFS_END s' = BINARY_TARFS_END s \<and> i < 5 * n' \<and>
       (dirp_ok s n \<and> (dirp = 0 \<or> dirp = fd_addr s1 i) \<longrightarrow> dirp_ok s' n') \<and>
       (\<exists>d. opened name start dirp d \<and> descr s' = (descr s)(i \<mapsto> d))"
    using find_free_fill [OF assms(1,3-7), of start] by blast
  define a where "a = fd_addr s1 i"
  define s' where "s' = upd_fd a (fill_fd name start a) s1"
  obtain d where d: "opened name start a d" "descr s' = (descr s)(i \<mapsto> d)" and ok: "fd_ok s' n'" "bytes s' = bytes s"
    "BINARY_TARFS_END s' = BINARY_TARFS_END s" "i < 5 * n'" "dirp_ok s' n'"
    using A [of a, folded a_def, unfolded Let_def, folded s'_def] assms(2) by blast
  have a: "fd_addr s' i = a" by (simp add: s'_def fd_addr_def upd_fd_def) (simp add: a_def fd_addr_def)
  have di: "descr s' i = Some d" by (simp add: d(2))
  note G = get_fd_address_open [OF di] and N = fd_addr_not_NULL [OF ok(1) di]
  have "3 \<le> i" using assms(4) by (simp add: least_free_def)
  moreover have "d_dirp (fds s' (fd_addr s' i)) = fd_addr s' i" using d(1) G(2) a by (simp add: opened_def)
  ultimately have F: "get_fd a s' = of_nat i" "get_fd_address (of_nat i) s' = Some (a, s')" "0 \<le> sint (of_nat i :: i32)"
    using get_fd_finds [OF ok(1) _ ok(4) _ ok(5) N] by (simp_all add: a)
  have "array_string (d_prev_dir d) = Some []"
    using d(1) by (intro array_string_holds) (auto simp: opened_def)
  then have "dir_view a name s' (fresh [] (map part ns))"
    using d(1) G(2) N F assms(5,8) unfolding dir_view_def
    by (auto simp: a opened_def dir_rest_cong [OF ok(2,3)])
  with f ok(1,5) show ?thesis unfolding s'_def a_def Let_def by blast
qed

section \<open>Properties\<close>

text \<open>
  The directory an argument names, as the string the descriptor gets, the place where the reading starts, and the listing: the root, or a
  directory of the archive.
\<close>

definition names_dir :: "(nat \<Rightarrow> char) \<Rightarrow> string \<Rightarrow> 'a dirfs_scheme \<Rightarrow> (string \<times> nat) list \<Rightarrow> string \<Rightarrow> u64 \<Rightarrow> string list \<Rightarrow> bool" where
  "names_dir stk dir s fl name p listing \<longleftrightarrow>
     (if dir = ''/''
      then name = ''/'' \<and> p = BINARY_TARFS_START s \<and> listing = fresh [] (map part (map fst fl))
      else abs_path 256 stk dir 1 (bytes s) = Some (SLASH # name) \<and> name \<noteq> [] \<and> name \<noteq> ''/'' \<and> CHR 0x00 \<notin> set name \<and> length name < 255 \<and>
        lookup (BINARY_TARFS_START s) fl name = Some (p, 0) \<and>
        listing = fresh [] (map part (below name (tl (from_entry fl name)))))"

lemma names_dir_rest:
  assumes "names_dir stk dir s fl name p listing" and "dir \<noteq> []" "CHR 0x00 \<notin> set dir" "p \<noteq> 0"
    and "archive (bytes s) (BINARY_TARFS_START s) fl (BINARY_TARFS_END s)" and "\<forall>(m, z) \<in> set fl. length m < 255"
  obtains ns where "dir_rest s name p ns" "listing = fresh [] (map part ns)" "name \<noteq> []" "CHR 0x00 \<notin> set name" "length name < 255"
    "openDirectory stk dir s = Some (case find_free [0..<20] s of
       (Some (dir_fd, fd), s1) \<Rightarrow> (fd, upd_fd fd (fill_fd name p fd) s1)
     | (None, s1) \<Rightarrow> (NULL, kprintf ''Trying to open more than 100 FD's..This OS allows user to open only 100 FD's per process.\<newline>'' [] s1))"
proof (cases "dir = ''/''")
  case True
  with assms(1) have n: "name = ''/''" "p = BINARY_TARFS_START s" "listing = fresh [] (map part (map fst fl))" by (simp_all add: names_dir_def)
  have "dir_rest s name p (map fst fl)" using assms(5,6) by (auto simp: dir_rest_def n root_rest_def)
  moreover have "openDirectory stk dir s = Some (case find_free [0..<20] s of
       (Some (dir_fd, fd), s1) \<Rightarrow> (fd, upd_fd fd (fill_fd name p fd) s1)
     | (None, s1) \<Rightarrow> (NULL, kprintf ''Trying to open more than 100 FD's..This OS allows user to open only 100 FD's per process.\<newline>'' [] s1))"
    unfolding n(1,2) True using assms(4) n(2) by (simp add: openDirectory_def strcmp_eq_0)
  ultimately show ?thesis using n(1,3) by (intro that [of "map fst fl"]) simp_all
next
  case False
  with assms(1) have n: "abs_path 256 stk dir 1 (bytes s) = Some (SLASH # name)" "name \<noteq> []" "name \<noteq> ''/''" "CHR 0x00 \<notin> set name" "length name < 255"
    "lookup (BINARY_TARFS_START s) fl name = Some (p, 0)" "listing = fresh [] (map part (below name (tl (from_entry fl name))))"
    by (simp_all add: names_dir_def)
  obtain rest where r: "archive (bytes s) p ((name, 0) # rest) (BINARY_TARFS_END s)" "from_entry fl name = (name, 0) # rest" "set rest \<subseteq> set fl"
    using archive_from [OF assms(5) n(6)] by auto
  have "\<forall>(m, z) \<in> set rest. length m < 255" using assms(6) r(3) by blast
  with r(1) have "sub_rest (bytes s) (BINARY_TARFS_END s) name p (below name rest)" unfolding sub_rest_def by blast
  then have "dir_rest s name p (below name rest)" using n(3) by (simp add: dir_rest_def)
  moreover have "listing = fresh [] (map part (below name rest))" by (simp add: n(7) r(2))
  moreover have "strcmp dir ''/'' \<noteq> 0" using False assms(3) by (simp add: strcmp_eq_0)
  moreover have "openDirectory stk dir s = Some (case find_free [0..<20] s of
       (Some (dir_fd, fd), s1) \<Rightarrow> (fd, upd_fd fd (fill_fd name p fd) s1)
     | (None, s1) \<Rightarrow> (NULL, kprintf ''Trying to open more than 100 FD's..This OS allows user to open only 100 FD's per process.\<newline>'' [] s1))"
    using archive_lookup [OF assms(5) n(4)] assms(2,4) n(1,6) \<open>strcmp dir ''/'' \<noteq> 0\<close> by (simp add: openDirectory_def cong: if_cong)
  ultimately show ?thesis using n(2,4,5) by (intro that [of "below name rest"]) simp_all
qed

text \<open>C26: Listing a directory: when the path names the root or a directory of an archive whose names have fewer than 255
  characters, and a descriptor and a frame are free, \<open>openDirectory\<close> gives a pointer, and from then on the calls
  of \<open>readDir\<close> on it give, in the order of the archive, the first parts of the names below the directory, equal neighbours once (so a subdirectory
  is one entry), and then NULL. A call returns whenever its \<open>malloc\<close> does; the entry it gives is in the buffer that this \<open>malloc\<close> gave, with
  its name and its size set, and no other buffer's entry changes.\<close>

theorem directory_listing:
  fixes s :: "'a dirfs_scheme"
  assumes "fd_ok s n" and "dirp_ok s n" and "free_frames s \<noteq> {}" and "least_free s i"
    and "archive (bytes s) (BINARY_TARFS_START s) fl (BINARY_TARFS_END s)" and "\<forall>(m, z) \<in> set fl. length m < 255"
    and "dir \<noteq> []" "CHR 0x00 \<notin> set dir" and "names_dir stk dir s fl name p listing" and "p \<noteq> 0"
  shows "\<exists>dirp s'. openDirectory stk dir s = Some (dirp, s') \<and> dirp \<noteq> NULL \<and>
    (\<forall>k ys s2. collect (next_entry dirp) k s' = Some (ys, s2) \<longrightarrow>
       ys = take k listing \<and>
       (\<forall>buf t. malloc SIZEOF_DIRENT s2 = Some (buf, t) \<longrightarrow>
          (\<exists>s3. readDir dirp s2 = Some (if length listing \<le> k then NULL else buf, s3) \<and>
             (k < length listing \<longrightarrow> array_string (d_name (dirents s3 buf)) = Some (listing ! k) \<and> d_reclen (dirents s3 buf) = 280) \<and>
             (\<forall>b. b \<noteq> buf \<longrightarrow> dirents s3 b = dirents s2 b))))"
proof -
  obtain ns where ns: "dir_rest s name p ns" and l: "listing = fresh [] (map part ns)" and nm: "name \<noteq> []" "CHR 0x00 \<notin> set name" "length name < 255"
    and od: "openDirectory stk dir s = Some (case find_free [0..<20] s of
       (Some (dir_fd, fd), s1) \<Rightarrow> (fd, upd_fd fd (fill_fd name p fd) s1)
     | (None, s1) \<Rightarrow> (NULL, kprintf ''Trying to open more than 100 FD's..This OS allows user to open only 100 FD's per process.\<newline>'' [] s1))"
    by (rule names_dir_rest [OF assms(9,7,8,10,5,6)])
  from opened_view [OF assms(1-4) nm ns] obtain s1 n' where f: "find_free [0..<20] s = (Some (i, fd_addr s1 i), s1)"
    and v: "dir_view (fd_addr s1 i) name (upd_fd (fd_addr s1 i) (fill_fd name p (fd_addr s1 i)) s1) listing"
    unfolding Let_def l by blast
  define s' where "s' = upd_fd (fd_addr s1 i) (fill_fd name p (fd_addr s1 i)) s1"
  have "openDirectory stk dir s = Some (fd_addr s1 i, s')" unfolding od f by (simp add: s'_def)
  moreover have "fd_addr s1 i \<noteq> NULL" using v by (simp add: dir_view_def)
  moreover have "ys = take k listing \<and> dir_view (fd_addr s1 i) name s2 (drop k listing)" if "collect (next_entry (fd_addr s1 i)) k s' = Some (ys, s2)" for k ys s2
    by (rule directory.collect_view [OF _ that]) (use v in \<open>simp add: s'_def\<close>)
  moreover have "\<exists>s3. readDir (fd_addr s1 i) s2 = Some (if length listing \<le> k then NULL else buf, s3) \<and>
      (k < length listing \<longrightarrow> array_string (d_name (dirents s3 buf)) = Some (listing ! k) \<and> d_reclen (dirents s3 buf) = 280) \<and>
      (\<forall>b. b \<noteq> buf \<longrightarrow> dirents s3 b = dirents s2 b)"
    if w: "dir_view (fd_addr s1 i) name s2 (drop k listing)" and m: "malloc SIZEOF_DIRENT s2 = Some (buf, t)" for k s2 buf t
  proof -
    from readDir_view [OF w m] obtain s3 where s3: "readDir (fd_addr s1 i) s2 = Some (if drop k listing = [] then NULL else buf, s3)"
      "drop k listing \<noteq> [] \<longrightarrow> array_string (d_name (dirents s3 buf)) = Some (hd (drop k listing)) \<and> d_reclen (dirents s3 buf) = 280" by blast
    moreover have "get_fd_address (get_fd (fd_addr s1 i) s2) s2 = Some (fd_addr s1 i, s2)" using w by (simp add: dir_view_def)
    ultimately show ?thesis using readDir_other [OF s3(1) m] by (auto simp: hd_drop_conv_nth)
  qed
  ultimately show ?thesis by blast
qed

text \<open>A small tree: the directory \<open>d/\<close> with a file and a subdirectory.\<close>

definition tiny_tree :: "u64 \<Rightarrow> char" where
  "tiny_tree = fold (\<lambda>(a, n) m. store_str (a + 0x7C) ''0'' (store_str a n m))
     [(0x1000, ''d/''), (0x1200, ''d/a''), (0x1400, ''d/b/x''), (0x1600, ''d/b/y''), (0x1800, ''e'')] (\<lambda>_. CHR 0x00)"

definition tiny_dirs :: dirfs where
  "tiny_dirs = fs.extend (tiny_fs\<lparr>bytes := tiny_tree, BINARY_TARFS_END := 0x1A00\<rparr>)
     (dirfs.fields (\<lambda>_. \<lparr>d_ino = 0, d_off = 0, d_reclen = 0, d_name = (\<lambda>_. CHR 0x00)\<rparr>))"

lemma tiny_dirs_sel:
  "bytes tiny_dirs = tiny_tree" "BINARY_TARFS_START tiny_dirs = 0x1000" "BINARY_TARFS_END tiny_dirs = 0x1A00"
  "fd_ok tiny_dirs n = fd_ok tiny_fs n" "free_frames tiny_dirs = free_frames tiny_fs" "least_free tiny_dirs 4 = least_free tiny_fs 4"
  "fds tiny_dirs = fds tiny_fs"
  by (simp_all add: tiny_dirs_def fs.extend_def dirfs.fields_def tiny_fs_sel fd_ok_def vm_ok_def phys_inv_def free_frames_def
      least_free_def descr_def Let_def)

definition tiny_list :: "(string \<times> nat) list" where
  "tiny_list = [(''d/'', 0), (''d/a'', 0), (''d/b/x'', 0), (''d/b/y'', 0), (''e'', 0)]"

lemma tiny_tree_archive: "archive (bytes tiny_dirs) (BINARY_TARFS_START tiny_dirs) tiny_list (BINARY_TARFS_END tiny_dirs)"
proof -
  have "cstr tiny_tree 0x1000 = Some ''d/''" "cstr tiny_tree 0x1200 = Some ''d/a''" "cstr tiny_tree 0x1400 = Some ''d/b/x''"
    "cstr tiny_tree 0x1600 = Some ''d/b/y''" "cstr tiny_tree 0x1800 = Some ''e''"
    "cstr tiny_tree 0x107C = Some ''0''" "cstr tiny_tree 0x127C = Some ''0''" "cstr tiny_tree 0x147C = Some ''0''"
    "cstr tiny_tree 0x167C = Some ''0''" "cstr tiny_tree 0x187C = Some ''0''" "cstr tiny_tree 0x1A7C = Some []"
    by (rule cstr_holds; simp add: tiny_tree_def)+
  moreover have "toInteger ''0'' = 0" by code_simp
  ultimately show ?thesis by (simp add: tiny_dirs_sel tiny_list_def header_name_def header_size_def pad_def)
qed

theorem directory_listing_witness:
  "(\<exists>dirp s'. openDirectory (\<lambda>_. CHR 0x00) ''/d'' tiny_dirs = Some (dirp, s') \<and>
     (\<forall>k ys s2. collect (next_entry dirp) k s' = Some (ys, s2) \<longrightarrow> ys = take k [''a'', ''b/''])) \<and>
   (\<exists>dirp s'. openDirectory (\<lambda>_. CHR 0x00) ''/'' tiny_dirs = Some (dirp, s') \<and>
     (\<forall>k ys s2. collect (next_entry dirp) k s' = Some (ys, s2) \<longrightarrow> ys = take k [''d/'', ''e'']))"
proof -
  have path: "abs_path 256 (\<lambda>_. CHR 0x00) ''/d'' 1 (bytes tiny_dirs) = Some (SLASH # ''d/'')"
    by (simp add: abs_path_def remove_dotslash_def norm_loop.simps get_between_2slashes_def)
  have d: "dirp_ok tiny_dirs 1"
    by (simp add: dirp_ok_def tiny_dirs_sel tiny_fs_sel zero_fd_def)
  have "fresh [] (map part (below ''d/'' (tl (from_entry tiny_list ''d/'')))) = [''a'', ''b/'']"
    "fresh [] (map part (map fst tiny_list)) = [''d/'', ''e'']"
    by (simp_all add: tiny_list_def below_def part_def)
  moreover have "lookup (BINARY_TARFS_START tiny_dirs) tiny_list ''d/'' = Some (0x1000, 0)"
    by (simp_all add: tiny_list_def tiny_dirs_sel)
  ultimately have n: "names_dir (\<lambda>_. CHR 0x00) ''/d'' tiny_dirs tiny_list ''d/'' 0x1000 [''a'', ''b/'']"
    "names_dir (\<lambda>_. CHR 0x00) ''/'' tiny_dirs tiny_list ''/'' 0x1000 [''d/'', ''e'']"
    using path by (simp_all add: names_dir_def tiny_dirs_sel)
  have o: "fd_ok tiny_dirs 1" "free_frames tiny_dirs \<noteq> {}" "least_free tiny_dirs 4"
    using tiny_fs_ok by (simp_all add: tiny_dirs_sel)
  have s: "\<forall>(m, z) \<in> set tiny_list. length m < 255" by (simp add: tiny_list_def)
  show ?thesis
    using directory_listing [OF o(1) d o(2,3) tiny_tree_archive s _ _ n(1)] directory_listing [OF o(1) d o(2,3) tiny_tree_archive s _ _ n(2)]
    by (simp del: take.simps) blast
qed

end
