(* ===== verification/Loader.thy ===== *)
theory Loader
  imports Dirs UserMem
begin

text \<open>
  Loading programs (\<open>sys/tarfs.c\<close>, \<open>include/sys/elf64.h\<close>): \<open>get_executable_path\<close> finds the file of a command,
  \<open>loadFile\<close> checks its header and gives each loadable segment to \<open>map_elf_file\<close>, which adds an area to the
  task and fills fresh pages of its address space. The file is read from the archive in \<open>bytes\<close>, the pages are written in physical
  memory. The lemmas follow one segment page by page with \<open>extends\<close> and \<open>holds_page\<close>.
\<close>

section \<open>The file format\<close>

record Elf64_Ehdr =
  e_ident :: "nat \<Rightarrow> u8"
  e_type :: u16
  e_machine :: u16
  e_version :: u32
  e_entry :: u64
  e_phoff :: u64
  e_shoff :: u64
  e_flags :: u32
  e_ehsize :: u16
  e_phentsize :: u16
  e_phnum :: u16
  e_shentsize :: u16
  e_shnum :: u16
  e_shstrndx :: u16

record Elf64_Phdr =
  p_type :: u32
  p_flags :: u32
  p_offset :: u64
  p_vaddr :: u64
  p_paddr :: u64
  p_filesz :: u64
  p_memsz :: u64
  p_align :: u64

abbreviation SIZEOF_EHDR :: u64 where "SIZEOF_EHDR \<equiv> 64"
abbreviation SIZEOF_PHDR :: u64 where "SIZEOF_PHDR \<equiv> 56"
abbreviation (input) ELF_PT_LOAD :: u32 where "ELF_PT_LOAD \<equiv> 1"

text \<open>A field of \<open>n\<close> bytes, little-endian.\<close>

fun le :: "nat \<Rightarrow> (u64 \<Rightarrow> char) \<Rightarrow> u64 \<Rightarrow> u64" where
  "le 0 m a = 0"
| "le (Suc n) m a = of_char (m a) + 256 * le n m (a + 1)"

definition elf_header :: "(u64 \<Rightarrow> char) \<Rightarrow> u64 \<Rightarrow> Elf64_Ehdr" where
  "elf_header m a = \<lparr>e_ident = (\<lambda>i. of_char (m (a + of_nat i))), e_type = ucast (le 2 m (a + 16)),
     e_machine = ucast (le 2 m (a + 18)), e_version = ucast (le 4 m (a + 20)), e_entry = le 8 m (a + 24),
     e_phoff = le 8 m (a + 32), e_shoff = le 8 m (a + 40), e_flags = ucast (le 4 m (a + 48)),
     e_ehsize = ucast (le 2 m (a + 52)), e_phentsize = ucast (le 2 m (a + 54)), e_phnum = ucast (le 2 m (a + 56)),
     e_shentsize = ucast (le 2 m (a + 58)), e_shnum = ucast (le 2 m (a + 60)), e_shstrndx = ucast (le 2 m (a + 62))\<rparr>"

definition program_header :: "(u64 \<Rightarrow> char) \<Rightarrow> u64 \<Rightarrow> Elf64_Phdr" where
  "program_header m a = \<lparr>p_type = ucast (le 4 m a), p_flags = ucast (le 4 m (a + 4)), p_offset = le 8 m (a + 8),
     p_vaddr = le 8 m (a + 16), p_paddr = le 8 m (a + 24), p_filesz = le 8 m (a + 32), p_memsz = le 8 m (a + 40),
     p_align = le 8 m (a + 48)\<rparr>"

section \<open>Operations\<close>

definition validate_elf_file :: "u64 \<Rightarrow> 'a fs_scheme \<Rightarrow> u64 \<times> 'a fs_scheme" where
  "validate_elf_file elf_hdr s =
     (let h = elf_header (bytes s) elf_hdr in
      if elf_hdr = NULL then (0, s)
      else if e_ident h 0 \<noteq> 0x7F then (0, kprintf ''Magic Number 0 incorrect\<newline>'' [] s)
      else if e_ident h 1 \<noteq> of_char CHR ''E'' then (0, kprintf ''Magic Number 1 incorrect\<newline>'' [] s)
      else if e_ident h 2 \<noteq> of_char CHR ''L'' then (0, kprintf ''Magic Number 2 incorrect\<newline>'' [] s)
      else if e_ident h 3 \<noteq> of_char CHR ''F'' then (0, kprintf ''Magic Number 3 incorrect\<newline>'' [] s)
      else if e_type h \<noteq> 2 then (0, kprintf ''File Not Executable..\<newline>'' [] s)
      else (1, s))"

text \<open>
  The copy loop of \<open>map_elf_file\<close>: \<open>kern\<close> is the page being filled, through the kernel's mapping, \<open>temp\<close>
  what is left of the file's part. \<open>src\<close> is \<open>elf_file+temp3\<close>; the source adds to a pointer to \<open>Elf64_Ehdr\<close>, so it moves by 64 bytes
  for each byte of the offset.
\<close>

function load_pages :: "u64 \<Rightarrow> u64 \<Rightarrow> u64 \<Rightarrow> u64 \<Rightarrow> u64 \<Rightarrow> 'a fs_scheme \<Rightarrow> u64 \<times> 'a fs_scheme" where
  "load_pages src temp2 kern temp pm s =
     (if temp = 0 then (kern, s)
      else if 0x1000 < temp
      then (case pageAllocator (memcpy 0x1000 (bytes s) src kern s) of (phy, s1) \<Rightarrow>
        let kern' = phy + kernbase s1;
            s2 = mapPageForUser (temp2 + 0x1000) phy pm (memset kern' s1)
        in load_pages (src + SIZEOF_EHDR * 0x1000) (temp2 + 0x1000) kern' (temp - 0x1000) pm s2)
      else (kern + temp, memcpy (unat temp) (bytes s) src kern s))"
  by pat_completeness auto
termination
  by (relation "measure (\<lambda>(src, temp2, kern, temp, pm, s). unat temp)")
    (auto simp: word_less_nat_alt unat_sub_if_size)

declare load_pages.simps [simp del]

text \<open>The new area at the end of the task's list.\<close>

definition add_segment :: "u64 \<Rightarrow> Elf64_Phdr \<Rightarrow> u64 \<Rightarrow> 'a kernel_scheme \<Rightarrow> 'a kernel_scheme option" where
  "add_segment elf_file h t s =
     (case chase (\<lambda>v. v \<noteq> NULL \<and> vnext s v \<noteq> NULL) (vnext s) (task_mmap s t) of
        None \<Rightarrow> None
      | Some vma_start \<Rightarrow>
          (case kmalloc_vma s of (new_vma, s1) \<Rightarrow>
           case getNextPageNum s1 of (pn, s2) \<Rightarrow>
           let s3 = upd_vma new_vma (\<lambda>v. v\<lparr>pageNumber := pn\<rparr>) s2;
               s4 = (if vma_start = NULL then upd_mmap t new_vma s3 else upd_vma vma_start (\<lambda>v. v\<lparr>vma_next := new_vma\<rparr>) s3);
               s5 = upd_task t (\<lambda>k. k\<lparr>memMap := (memMap k)\<lparr>mm_count := mm_count (memMap k) + 1\<rparr>\<rparr>) s4
           in Some (upd_vma new_vma (\<lambda>v. v\<lparr>v_file := elf_file, vma_next := NULL, v_start := p_vaddr h,
                 v_end := ((p_vaddr h + p_memsz h) AND FRAME) + 0x1000, v_flags := ucast (p_flags h)\<rparr>) s5)))"

text \<open>\<open>vir_ker_temp2+p_filesz\<close> in the last call: the pointer has already moved behind the last bytes copied.\<close>

definition map_elf_file :: "u64 \<Rightarrow> Elf64_Phdr \<Rightarrow> u64 \<Rightarrow> u64 \<Rightarrow> 'a fs_scheme \<Rightarrow> (u64 \<times> 'a fs_scheme) option" where
  "map_elf_file elf_file h pm uthread s =
     (if p_memsz h < p_filesz h
      then Some (0, kprintf ''MemSize of file is less than File Size.. Something wrong.\<newline>'' [] s)
      else Option.bind (add_segment elf_file h uthread s) (\<lambda>s1.
        case pageAllocator s1 of (phy, s2) \<Rightarrow>
        let kern = phy + kernbase s2;
            s3 = mapPageForUser (p_vaddr h) phy pm (memset kern s2)
        in case load_pages (elf_file + SIZEOF_EHDR * p_offset h) (p_vaddr h) kern (p_filesz h) pm s3 of (kern', s4) \<Rightarrow>
          Some (1, clear_bytes (unat (p_memsz h - p_filesz h)) (kern' + p_filesz h) s4)))"

text \<open>The loop over the program headers.\<close>

fun load_segments :: "nat \<Rightarrow> u64 \<Rightarrow> u64 \<Rightarrow> i32 \<Rightarrow> u64 \<Rightarrow> u64 \<Rightarrow> 'a fs_scheme \<Rightarrow> (bool \<times> 'a fs_scheme) option" where
  "load_segments 0 elf_file hdr counter pm t s = Some (True, s)"
| "load_segments (Suc n) elf_file hdr counter pm t s =
     (if 100 < sint counter
      then Some (False, kprintf ''Already loaded 100 program sections into memory.. Not proceeding further as this might crash system.\<newline>'' [] s)
      else let h = program_header (bytes s) hdr in
        if p_type h = ELF_PT_LOAD
        then Option.bind (map_elf_file elf_file h pm t s) (\<lambda>(rc, s1).
          if rc = 0 then Some (False, kprintf ''Error while loading program into memory.\<newline>'' [] s1)
          else load_segments n elf_file (hdr + SIZEOF_PHDR) (counter + 1) pm t s1)
        else load_segments n elf_file (hdr + SIZEOF_PHDR) counter pm t s)"

section \<open>Finding the file\<close>

text \<open>
  The loop over the directories in PATH, in the array \<open>testfile\<close> of 512 characters. After a directory the index moves one on, over the
  colon or over the NUL that ends the list. \<^term>\<open>None\<close>: an access outside the arrays.
\<close>

partial_function (option) search_path ::
    "(u64 \<Rightarrow> char) \<Rightarrow> u64 \<Rightarrow> u64 \<Rightarrow> (nat \<Rightarrow> char) \<Rightarrow> string \<Rightarrow> nat \<Rightarrow> string option option" where
  "search_path m st en testfile filename i =
     (if 512 \<le> i then None
      else if testfile i = CHR 0x00 then Some None
      else (let dir = takeWhile (\<lambda>c. c \<noteq> CHR '':'' \<and> c \<noteq> CHR 0x00) (map testfile [i..<512]);
                path = dir @ (if last dir \<noteq> SLASH then [SLASH] else []) @ filename
            in if i + length dir = 512 \<or> dir = [] \<or> 512 \<le> length path then None
               else Option.bind (get_file_address m st en (tl path)) (\<lambda>address.
                 if address = 0 then search_path m st en testfile filename (i + length dir + 1)
                 else Some (Some (tl path)))))"

definition get_executable_path :: "(nat \<Rightarrow> char) \<Rightarrow> (nat \<Rightarrow> char) \<Rightarrow> string \<Rightarrow> 'a fs_scheme \<Rightarrow> string option option" where
  "get_executable_path stk stk2 filename s =
     (if filename \<noteq> [] \<and> hd filename = SLASH then Some (Some (tl filename))
      else Option.bind (abs_path 512 stk filename 512 (bytes s)) (\<lambda>path.
        Option.bind (get_file_address (bytes s) (BINARY_TARFS_START s) (BINARY_TARFS_END s) (tl path)) (\<lambda>address.
          if 0 < address then Some (Some (tl path))
          else Option.bind (getPATH (bytes s) stk2 512) (\<lambda>(e, testfile).
            search_path (bytes s) (BINARY_TARFS_START s) (BINARY_TARFS_END s) testfile filename 0))))"

definition loadFile :: "(nat \<Rightarrow> char) \<Rightarrow> (nat \<Rightarrow> char) \<Rightarrow> string \<Rightarrow> u64 \<Rightarrow> u64 \<Rightarrow> 'a fs_scheme \<Rightarrow> (u64 \<times> 'a fs_scheme) option" where
  "loadFile stk stk2 filename pm uthread s =
     Option.bind (get_executable_path stk stk2 filename s) (\<lambda>found.
       case found of None \<Rightarrow> Some (0, s)
       | Some fname \<Rightarrow>
           Option.bind (find_entry (bytes s) (BINARY_TARFS_END s) fname (BINARY_TARFS_START s)) (\<lambda>(p, file_found).
             if \<not> file_found then Some (0, kprintf ''Warning: File %s not found.\<newline>'' [KStr fname] s)
             else Option.bind (header_size (bytes s) p) (\<lambda>sz.
               let elf_file = p + 512;
                   h = elf_header (bytes s) elf_file
               in case validate_elf_file elf_file s of (valid, s1) \<Rightarrow>
                 if valid = 0 then Some (0, s1)
                 else if (scast sz :: u64) < e_phoff h + ucast (e_phnum h) * SIZEOF_PHDR
                 then Some (0, kprintf ''Something Wrong with the file, Program Header is out of file range.\<newline>'' [] s1)
                 else Option.bind (load_segments (unat (e_phnum h)) elf_file (elf_file + e_phoff h) 0 pm uthread s1) (\<lambda>(ok, s2).
                   Some (if ok then e_entry (elf_header (bytes s2) elf_file) else 0, s2)))))"

section \<open>The copy loop\<close>

definition npages :: "nat \<Rightarrow> nat" where "npages n = (if n = 0 then 1 else Suc ((n - 1) div 4096))"

lemma npages_small: "n \<le> 4096 \<Longrightarrow> npages n = 1"
  by (auto simp: npages_def)

lemma npages_Suc: "4096 < n \<Longrightarrow> npages n = Suc (npages (n - 4096))"
  using le_div_geq [of 4096 "n - 1"] by (auto simp: npages_def)

definition content :: "(u64 \<Rightarrow> char) \<Rightarrow> u64 \<Rightarrow> nat \<Rightarrow> nat \<Rightarrow> nat \<Rightarrow> u8" where
  "content b src n k j = (if 4096 * k + j < n then of_char (b (src + SIZEOF_EHDR * of_nat (4096 * k) + of_nat j)) else 0)"

definition seg_pages :: "u64 \<Rightarrow> nat \<Rightarrow> u64 set" where
  "seg_pages v n = page_addr v ` {..<npages n}"

lemma content_Suc:
  "4096 < n \<Longrightarrow> content b (src + SIZEOF_EHDR * 0x1000) (n - 4096) k = content b src n (Suc k)"
  by (auto simp: content_def fun_eq_iff algebra_simps)

lemma seg_pages_Suc: "4096 < n \<Longrightarrow> seg_pages v n = insert v (seg_pages (v + 0x1000) (n - 4096))"
  by (auto simp: seg_pages_def npages_Suc page_addr_Suc lessThan_Suc_eq_insert_0 image_image)

text \<open>The pages of a segment hold their part of the file, in frames outside \<open>U\<close>; \<open>h\<close> is the last one.\<close>

definition filled :: "u64 \<Rightarrow> u64 \<Rightarrow> (u64 \<Rightarrow> char) \<Rightarrow> u64 \<Rightarrow> nat \<Rightarrow> nat set \<Rightarrow> nat \<Rightarrow> 'a phys_scheme \<Rightarrow> bool" where
  "filled r v b src n U h s \<longleftrightarrow>
     (\<forall>k < npages n. \<exists>f. f \<notin> U \<and> holds_page r (page_addr v k) (content b src n k) f s \<and> (Suc k = npages n \<longrightarrow> f = h))"

lemma filled_one:
  assumes "holds_page r v (content b src n 0) g s" and "n \<le> 4096" and "g \<notin> U"
  shows "filled r v b src n U g s"
  using assms by (auto simp: filled_def npages_small)

lemma filled_Suc:
  assumes f: "filled r (v + 0x1000) b (src + SIZEOF_EHDR * 0x1000) (n - 4096) U' h s"
    and "holds_page r v (content b src n 0) g s" and n: "4096 < n" and "g \<notin> U" and "U \<subseteq> U'"
  shows "filled r v b src n U h s"
  unfolding filled_def npages_Suc [OF n]
proof (intro allI impI)
  fix k assume k: "k < Suc (npages (n - 4096))"
  show "\<exists>f. f \<notin> U \<and> holds_page r (page_addr v k) (content b src n k) f s \<and> (Suc k = Suc (npages (n - 4096)) \<longrightarrow> f = h)"
  proof (cases k)
    case 0
    have "0 < npages (n - 4096)" by (simp add: npages_def)
    with 0 assms(2,4) show ?thesis by auto
  next
    case (Suc j)
    with f k obtain f where "f \<notin> U'" "holds_page r (page_addr (v + 0x1000) j) (content b (src + SIZEOF_EHDR * 0x1000) (n - 4096) j) f s"
      "Suc j = npages (n - 4096) \<longrightarrow> f = h" unfolding filled_def by auto
    with Suc assms(5) show ?thesis unfolding page_addr_Suc content_Suc [OF n] by auto
  qed
qed

lemma seg_pages_start: "v \<in> seg_pages v n"
  unfolding seg_pages_def by (rule image_eqI [of _ _ 0]) (simp_all add: npages_def)

lemma load_pages_ok:
  fixes s :: "'a fs_scheme"
  assumes "vm_ok s" "wf_tree (pmem s) r (used_frames s)" "holds_page r v (\<lambda>_. 0) g s"
    and "4 * (npages (unat temp) - 1) \<le> card (free_frames s)" "npages (unat temp) \<le> 2 ^ 20"
  shows "\<exists>s' h. load_pages src v (page_of g + KERNBASE) temp (r + KERNBASE) s =
      (page_of h + KERNBASE + of_nat (unat temp - 4096 * (npages (unat temp) - 1)), s') \<and>
    extends r (seg_pages v (unat temp)) {g} s s' \<and> phys_only s s' \<and>
    filled r v (bytes s) src (unat temp) (used_frames s - {g}) h s' \<and>
    card (free_frames s) \<le> card (free_frames s') + 4 * (npages (unat temp) - 1)"
  using assms
proof (induction "unat temp" arbitrary: temp src v g s rule: less_induct)
  case less
  note ok = less.prems(1) and wf = less.prems(2) and hp = less.prems(3)
  have g: "g < 65536" "no_table (pmem s) r g" "g \<in> used_frames s" using hp used_frame_bound by (auto simp: holds_page_def)
  note kb = kernbase_ok [OF ok]
  let ?n = "unat temp"
  define m where "m = min ?n 4096"
  define sa where "sa = memcpy m (bytes s) src (page_of g + KERNBASE) s"
  have M: "frame_write g s sa" "\<And>j. j < 4096 \<Longrightarrow> pbyte (pmem sa) g j = content (bytes s) src ?n 0 j"
    using memcpy_frame [OF g(1) kb, of 0 m "bytes s" src] hp
    by (auto simp: sa_def m_def content_def holds_page_def)
  note X = extends_write [OF M(1) ok wf g(2)]
  have ha: "holds_page r v (content (bytes s) src ?n 0) g sa"
    using X(2,4) M(2) hp subsetD [OF extends_ok(3) [OF X(1)] g(3)] by (auto simp: holds_page_def)
  show ?case
  proof (cases "?n \<le> 4096")
    case True
    then have np: "npages ?n = 1" by (rule npages_small)
    have "\<not> 0x1000 < temp" using True by (simp add: word_less_nat_alt)
    then have "load_pages src v (page_of g + KERNBASE) temp (r + KERNBASE) s = (page_of g + KERNBASE + of_nat ?n, sa)"
      using True by (subst load_pages.simps) (auto simp: sa_def m_def)
    moreover have "extends r (seg_pages v ?n) {g} s sa" using X(1) unfolding extends_def by blast
    moreover have "filled r v (bytes s) src ?n (used_frames s - {g}) g sa" by (rule filled_one [OF ha True]) simp
    ultimately show ?thesis
      using X(3) frame_write_phys [OF M(1)] by (intro exI [of _ sa] exI [of _ g]) (simp add: np)
  next
    case False
    then have n: "4096 < ?n" by simp
    then have lt: "0x1000 < temp" "temp \<noteq> 0" by (auto simp: word_less_nat_alt)
    have u: "unat (temp - 0x1000) = ?n - 4096" using lt by (simp add: unat_sub_if_size word_less_nat_alt)
    have m: "m = 0x1000" using n by (simp add: m_def)
    note np = npages_Suc [OF n]
    have np1: "1 \<le> npages (?n - 4096)" by (simp add: npages_def)
    then have c: "4 \<le> card (free_frames sa)" using less.prems(4) X(3) by (simp add: np)
    obtain g' s1 s2 where P: "g' \<in> free_frames sa" "pageAllocator sa = (page_of g', s1)" "kernbase s1 = KERNBASE"
      "s2 = mapPageForUser (v + 0x1000) (page_of g') (r + KERNBASE) (memset (page_of g' + KERNBASE) s1)"
      "holds_page r (v + 0x1000) (\<lambda>_. 0) g' s2" "extends r {v + 0x1000} {} sa s2" "phys_only sa s2"
      "card (free_frames sa) \<le> card (free_frames s2) + 4"
      using new_page [OF extends_ok(1,2) [OF X(1)] c, of "v + 0x1000"] by blast
    have step: "load_pages src v (page_of g + KERNBASE) temp (r + KERNBASE) s =
        load_pages (src + SIZEOF_EHDR * 0x1000) (v + 0x1000) (page_of g' + KERNBASE) (temp - 0x1000) (r + KERNBASE) s2"
      using lt by (subst load_pages.simps) (simp add: sa_def [unfolded m, symmetric] P(2,3) P(4) [symmetric])
    have po: "phys_only s s2" by (rule phys_only_trans [OF frame_write_phys [OF M(1)] P(7)])
    note b2 = phys_only_bytes(1) [OF po]
    have ih: "4 * (npages (unat (temp - 0x1000)) - 1) \<le> card (free_frames s2)" "npages (unat (temp - 0x1000)) \<le> 2 ^ 20"
      using less.prems(4,5) P(8) np1 unfolding u np X(3) by simp_all
    have "unat (temp - 0x1000) < ?n" using u n by simp
    from less.hyps [OF this extends_ok(1,2) [OF P(6)] P(5) ih, of "src + SIZEOF_EHDR * 0x1000", unfolded u b2]
    obtain s' h where IH: "load_pages (src + SIZEOF_EHDR * 0x1000) (v + 0x1000) (page_of g' + KERNBASE) (temp - 0x1000) (r + KERNBASE) s2 =
        (page_of h + KERNBASE + of_nat (?n - 4096 - 4096 * (npages (?n - 4096) - 1)), s')"
      "extends r (seg_pages (v + 0x1000) (?n - 4096)) {g'} s2 s'" "phys_only s2 s'"
      "filled r (v + 0x1000) (bytes s) (src + SIZEOF_EHDR * 0x1000) (?n - 4096) (used_frames s2 - {g'}) h s'"
      "card (free_frames s2) \<le> card (free_frames s') + 4 * (npages (?n - 4096) - 1)" by blast
    have gu: "g' \<notin> used_frames s" using P(1) X(3) by (simp add: used_frames_def)
    have gg: "g \<noteq> g'" using gu g(3) by blast
    have U2: "used_frames s \<subseteq> used_frames s2" using extends_ok(3) [OF X(1)] extends_ok(3) [OF P(6)] by blast
    have ns: "\<not> same_page v x" if "x \<in> insert (v + 0x1000) (seg_pages (v + 0x1000) (?n - 4096))" for x
    proof -
      from that obtain k where k: "x = page_addr v (Suc k)" "k < npages (?n - 4096)"
        using np1 page_addr_Suc [of v 0] by (auto simp: seg_pages_def page_addr_Suc)
      have "Suc k < 2 ^ 20" using k(2) less.prems(5) unfolding np by simp
      from same_page_addr [OF _ this, of 0 v] show ?thesis by (simp add: k(1))
    qed
    have E1: "extends r {v + 0x1000} {g} s s2" using extends_trans [OF X(1) P(6)] by simp
    have E: "extends r (insert (v + 0x1000) (seg_pages (v + 0x1000) (?n - 4096))) {g} s s'"
      using extends_trans [OF E1 IH(2)] gu by simp
    have E': "extends r (seg_pages v ?n) {g} s s'"
      by (rule extends_mono [OF E]) (auto simp: seg_pages_Suc [OF n] seg_pages_start)
    have "holds_page r v (content (bytes s) src ?n 0) g s2" by (rule extendsD [OF P(6) ha]) (use ns in auto)
    then have h1: "holds_page r v (content (bytes s) src ?n 0) g s'" by (rule extendsD [OF IH(2)]) (use ns gg in auto)
    have "filled r v (bytes s) src ?n (used_frames s - {g}) h s'"
      by (rule filled_Suc [OF IH(4) h1 n]) (use U2 gu in auto)
    moreover have "?n - 4096 - 4096 * (npages (?n - 4096) - 1) = ?n - 4096 * (npages ?n - 1)"
      using np1 by (simp add: np algebra_simps diff_mult_distrib2)
    moreover have "phys_only s s'" by (rule phys_only_trans [OF po IH(3)])
    moreover have "card (free_frames s) \<le> card (free_frames s') + 4 * (npages ?n - 1)"
      using IH(5) P(8) np1 unfolding np X(3) by linarith
    ultimately show ?thesis using E' IH(1) unfolding step by (intro exI [of _ s'] exI [of _ h]) simp
  qed
qed

section \<open>The area of a segment\<close>

lemma chase_last:
  assumes "vma_list s p ws" and "ws \<noteq> []"
  shows "chase (\<lambda>v. v \<noteq> NULL \<and> vnext s v \<noteq> NULL) (vnext s) p = Some (last ws)"
    "chase (\<lambda>v. vnext s v \<noteq> NULL) (vnext s) p = Some (last ws)"
proof -
  from assms(2) obtain us u where ws: "ws = us @ [u]" by (cases ws rule: rev_cases) auto
  have pa: "path (vnext s) p ws NULL" "distinct ws" using assms(1) by (auto simp: vma_list_def)
  note nn = vma_list_not_null [OF assms(1)]
  show "chase (\<lambda>v. vnext s v \<noteq> NULL) (vnext s) p = Some (last ws)"
    using path_find_last [OF pa(1) assms(2) nn pa(2)] by simp
  have pu: "path (vnext s) p us u" "vnext s u = NULL" using pa(1) by (auto simp: ws path_append)
  have "v \<noteq> NULL \<and> vnext s v \<noteq> NULL" if "v \<in> set us" for v
  proof -
    from that obtain xs ys where us: "us = xs @ v # ys" by (auto simp: in_set_conv_decomp)
    with pu(1) have "vnext s v \<in> set ys \<union> {u}" by (cases ys) (auto simp: path_append)
    with nn us ws show ?thesis by auto
  qed
  then show "chase (\<lambda>v. v \<noteq> NULL \<and> vnext s v \<noteq> NULL) (vnext s) p = Some (last ws)"
    using chase_path [OF pu(1)] pu(2) ws by simp
qed

lemma pagenum_mem: "pmem (snd (getNextPageNum s)) = pmem s" "kernel.more (snd (getNextPageNum s)) = kernel.more s"
  by (simp_all add: getNextPageNum_def Let_def)

lemma upd_more: "kernel.more (upd_vma v f s) = kernel.more s" "kernel.more (upd_task t g s) = kernel.more s"
  by (simp_all add: upd_vma_def upd_task_def)

text \<open>What \<open>map_elf_file\<close> and \<open>stackForUser\<close> have in common: an area added at the end of the list, its fields filled by \<open>fill\<close>.\<close>

definition link_area :: "(VMA \<Rightarrow> VMA) \<Rightarrow> u64 \<Rightarrow> 'a kernel_scheme \<Rightarrow> 'a kernel_scheme option" where
  "link_area fill t s =
     (case chase (\<lambda>v. v \<noteq> NULL \<and> vnext s v \<noteq> NULL) (vnext s) (task_mmap s t) of
        None \<Rightarrow> None
      | Some lst \<Rightarrow>
          (case kmalloc_vma s of (new, s1) \<Rightarrow>
           case getNextPageNum s1 of (pn, s2) \<Rightarrow>
           let s3 = upd_vma new (\<lambda>v. v\<lparr>pageNumber := pn\<rparr>) s2;
               s4 = (if lst = NULL then upd_mmap t new s3 else upd_vma lst (\<lambda>v. v\<lparr>vma_next := new\<rparr>) s3);
               s5 = upd_task t (\<lambda>k. k\<lparr>memMap := (memMap k)\<lparr>mm_count := mm_count (memMap k) + 1\<rparr>\<rparr>) s4
           in Some (upd_vma new fill s5)))"

lemma link_area_ok:
  fixes fill :: "VMA \<Rightarrow> VMA"
  assumes nf: "\<And>v. vma_next (fill v) = NULL" and ok: "vm_ok s" "free_frames s \<noteq> {}" and wf: "wf_tree (pmem s) r (used_frames s)"
    and l: "vma_list s (task_mmap s t) ws"
  shows "\<exists>s' new v0. link_area fill t s = Some s' \<and> vma_list s' (task_mmap s' t) (ws @ [new]) \<and>
    vmas s' new = fill v0 \<and>
    (\<forall>v. live s v \<longrightarrow> live s' v \<and> area (vmas s' v) = area (vmas s v)) \<and>
    extends r {} {} s s' \<and> card (free_frames s) \<le> Suc (card (free_frames s')) \<and> kernel.more s' = kernel.more s \<and>
    same_rest t s s'"
proof -
  obtain new s1 where km: "kmalloc_vma s = (new, s1)" by fastforce
  obtain p tt where kk: "kmalloc s = (p, tt)" by fastforce
  from km kk have n: "new = p" "s1 = upd_vma p (\<lambda>_. zero_vma) tt" by (auto simp: kmalloc_vma_def)
  from kmalloc_vma_ok [OF ok] km have k: "\<not> live s new" "live s1 new" "vmas s1 = (vmas s)(new := zero_vma)" "tasks s1 = tasks s"
    "runningThread s1 = runningThread s" "deleteQueue s1 = deleteQueue s" "vm_ok s1" "used_frames s \<subseteq> used_frames s1"
    by auto
  from extends_kmalloc [OF ok wf kk] obtain g where g: "g \<in> free_frames s" "free_frames tt = free_frames s - {g}"
    "extends r {} {} s tt" by blast
  define s3 where "s3 = upd_vma new (\<lambda>v. v\<lparr>pageNumber := fst (getNextPageNum s1)\<rparr>) (snd (getNextPageNum s1))"
  have f3: "tasks s3 = tasks s" "live s3 = live s1" "\<And>v. v \<noteq> new \<Longrightarrow> vmas s3 v = vmas s v" "vma_next (vmas s3 new) = NULL"
    using k by (simp_all add: s3_def frame_simps live_def fun_eq_iff zero_vma_def)
  have fresh: "new \<notin> set ws" using l k(1) by (auto simp: vma_list_def)
  have "vnext s3 x = vnext s x" if "x \<in> set ws" for x using that fresh f3(3) [of x] by (cases "x = new") auto
  then have "path (vnext s3) (task_mmap s t) ws NULL"
    by (rule path_fun_upd [where nx = "vnext s"]) (use l in \<open>auto simp: vma_list_def\<close>)
  moreover have "live s3 v" if "live s v" for v using that k(8) by (auto simp: f3(2) live_def)
  ultimately have l3: "vma_list s3 (task_mmap s3 t) ws" using l by (auto simp: vma_list_def f3(1))
  obtain sA where A: "append_vma t new s3 = Some sA" "vma_list sA (task_mmap sA t) (ws @ [new])"
    "\<And>v. area (vmas sA v) = area (vmas s3 v)" "same_rest t s3 sA" "vm_ok sA = vm_ok s3" "used_frames sA = used_frames s3"
    "free_frames sA = free_frames s3"
    using append_vma_ok [OF l3 _ fresh] k(2) f3(2) by auto
  define vs where "vs = (if ws = [] then NULL else last ws)"
  have c: "chase (\<lambda>v. v \<noteq> NULL \<and> vnext s v \<noteq> NULL) (vnext s) (task_mmap s t) = Some vs"
    using chase_last(1) [OF l] vma_list_empty [OF l] by (auto simp: vs_def chase_stop)
  define s4 where "s4 = (if vs = NULL then upd_mmap t new s3 else upd_vma vs (\<lambda>v. v\<lparr>vma_next := new\<rparr>) s3)"
  define cnt :: "Task \<Rightarrow> Task" where "cnt = (\<lambda>k. k\<lparr>memMap := (memMap k)\<lparr>mm_count := mm_count (memMap k) + 1\<rparr>\<rparr>)"
  define s' where "s' = upd_vma new fill (upd_task t cnt s4)"
  obtain pn s2 where pn: "getNextPageNum s1 = (pn, s2)" by fastforce
  have run: "link_area fill t s = Some s'"
    by (simp add: link_area_def c km pn s'_def s4_def cnt_def s3_def Let_def cong: if_cong)
  have "vs = NULL \<longleftrightarrow> ws = []" using vma_list_not_null [OF l] by (auto simp: vs_def dest: last_in_set)
  then have sA: "sA = upd_vma new (\<lambda>v. v\<lparr>vma_next := NULL\<rparr>) s4"
    using A(1) chase_last(2) [OF l3] vma_list_empty [OF l3] by (auto simp: append_vma_def s4_def vs_def f3(1) Let_def split: if_splits)
  have s': "vmas s' = (vmas sA)(new := fill (vmas s4 new))" "tasks s' = (tasks sA)(t := cnt (tasks sA t))" "used_frames s' = used_frames sA"
    "runningThread s' = runningThread sA" "deleteQueue s' = deleteQueue sA"
    by (simp_all add: s'_def sA frame_simps used_frames_def)
  have nx: "vnext s' v = vnext sA v" for v
    by (simp add: s' nf) (simp add: sA frame_simps)
  have lv: "live s' = live sA" by (simp add: s' live_def fun_eq_iff)
  have tm: "task_mmap s' t = task_mmap sA t" by (simp add: s' cnt_def)
  have "vma_list s' (task_mmap s' t) (ws @ [new])"
    using A(2) by (simp add: vma_list_def nx lv tm)
  moreover have "vmas s' new = fill (vmas s4 new)" by (simp add: s')
  moreover have "live s' v \<and> area (vmas s' v) = area (vmas s v)" if "live s v" for v
  proof -
    have "v \<noteq> new" using that k(1) by auto
    then have "vmas s' v = vmas sA v" by (simp add: s')
    with \<open>v \<noteq> new\<close> show ?thesis using that A(3,6) k(8) f3(2,3) by (auto simp: lv live_def fun_eq_iff)
  qed
  moreover have "extends r {} {} s s'"
    by (rule extends_cong [OF g(3)])
      (simp_all add: s'_def s4_def s3_def n frame_simps pagenum_mem)
  moreover have "free_frames s' = free_frames tt"
    by (simp add: s'_def s4_def s3_def n frame_simps)
  then have "card (free_frames s) \<le> Suc (card (free_frames s'))"
    using g(1,2) by (simp add: card_Diff_singleton)
  moreover have "kernel.more tt = kernel.more s" using areas_only_phys [OF phys_only_kmalloc [of s]] by (simp add: areas_only_def kk)
  then have "kernel.more s' = kernel.more s"
    by (simp add: s'_def s4_def s3_def n upd_more pagenum_mem upd_mmap_def)
  moreover have "same_rest t s s'"
  proof -
    have "runningThread s3 = runningThread s" "deleteQueue s3 = deleteQueue s"
      using k(5,6) by (simp_all add: s3_def frame_simps)
    then have "same_rest t s s3" by (simp add: same_rest_def f3(1))
    moreover have "same_rest t sA s'" by (simp add: same_rest_def s' cnt_def)
    ultimately show ?thesis using A(4) same_rest_trans by blast
  qed
  ultimately show ?thesis using run by blast
qed

lemma add_segment_ok:
  assumes ok: "vm_ok s" "free_frames s \<noteq> {}" and wf: "wf_tree (pmem s) r (used_frames s)"
    and l: "vma_list s (task_mmap s t) ws"
  shows "\<exists>s' new. add_segment elf h t s = Some s' \<and> vma_list s' (task_mmap s' t) (ws @ [new]) \<and>
    v_start (vmas s' new) = p_vaddr h \<and> v_end (vmas s' new) = ((p_vaddr h + p_memsz h) AND FRAME) + 0x1000 \<and>
    (\<forall>v. live s v \<longrightarrow> live s' v \<and> area (vmas s' v) = area (vmas s v)) \<and>
    extends r {} {} s s' \<and> card (free_frames s) \<le> Suc (card (free_frames s')) \<and> kernel.more s' = kernel.more s \<and>
    same_rest t s s'"
proof -
  define fill :: "VMA \<Rightarrow> VMA" where "fill = (\<lambda>v. v\<lparr>v_file := elf, vma_next := NULL, v_start := p_vaddr h,
                 v_end := ((p_vaddr h + p_memsz h) AND FRAME) + 0x1000, v_flags := ucast (p_flags h)\<rparr>)"
  have "vma_next (fill v) = NULL" for v by (simp add: fill_def)
  from link_area_ok [where fill = fill, OF this ok wf l] obtain s' new v0 where L: "link_area fill t s = Some s'" "vma_list s' (task_mmap s' t) (ws @ [new])"
    "vmas s' new = fill v0" "\<forall>v. live s v \<longrightarrow> live s' v \<and> area (vmas s' v) = area (vmas s v)" "extends r {} {} s s'"
    "card (free_frames s) \<le> Suc (card (free_frames s'))" "kernel.more s' = kernel.more s" "same_rest t s s'" by blast
  have "add_segment elf h t s = link_area fill t s" by (simp add: add_segment_def link_area_def fill_def)
  moreover have "v_start (vmas s' new) = p_vaddr h" "v_end (vmas s' new) = ((p_vaddr h + p_memsz h) AND FRAME) + 0x1000"
    by (simp_all add: L(3) fill_def)
  ultimately show ?thesis using L by metis
qed

section \<open>One segment\<close>

text \<open>
  The bytes behind the file's part are cleared at the wrong place (\<open>map_elf_file\<close>): that is harmless when there are none, or when
  both parts of the segment and the mistake fit in one page.
\<close>

definition seg_ok :: "Elf64_Phdr \<Rightarrow> bool" where
  "seg_ok h \<longleftrightarrow> p_filesz h \<le> p_memsz h \<and> npages (unat (p_filesz h)) \<le> 2 ^ 20 \<and>
     (p_memsz h = p_filesz h \<or> unat (p_filesz h) + unat (p_memsz h) \<le> 4096)"

lemma filled_mono: "filled r v b src n U h s \<Longrightarrow> U' \<subseteq> U \<Longrightarrow> filled r v b src n U' h s"
  unfolding filled_def by blast

lemma phys_only_more: "phys_only (s :: 'a kernel_scheme) s' \<Longrightarrow> kernel.more s' = kernel.more s"
  using areas_only_phys [of s s'] by (simp add: areas_only_def)

lemma vma_list_phys:
  assumes "phys_only (s :: 'a kernel_scheme) s'" and "used_frames s \<subseteq> used_frames s'" and "vma_list s (task_mmap s t) ws"
  shows "vma_list s' (task_mmap s' t) ws"
proof -
  have "live s' v" if "live s v" for v using that assms(2) by (auto simp: live_def)
  with assms(3) show ?thesis by (auto simp: vma_list_def phys_onlyD [OF assms(1)])
qed

lemma same_rest_phys: "phys_only (s :: 'a kernel_scheme) s' \<Longrightarrow> same_rest t s s'"
  using phys_onlyD [of s s'] by (simp add: same_rest_def)

lemma phys_only_clear: "phys_only s (clear_bytes n a s)"
proof (induction n arbitrary: a s)
  case (Suc n)
  let ?s = "s\<lparr>pmem := put_byte (k2p (kernbase s) a) 0 (pmem s)\<rparr>"
  have "phys_only s ?s" by (simp add: phys_only_def)
  from phys_only_trans [OF this Suc.IH] show ?case by simp
qed simp

lemma map_elf_file_ok:
  fixes s :: "'a fs_scheme"
  assumes ok: "vm_ok s" and wf: "wf_tree (pmem s) r (used_frames s)" and l: "vma_list s (task_mmap s t) ws"
    and h: "seg_ok h" and c: "4 * npages (unat (p_filesz h)) + 1 \<le> card (free_frames s)"
  shows "\<exists>s' new hh. map_elf_file elf h (r + KERNBASE) t s = Some (1, s') \<and>
    extends r (seg_pages (p_vaddr h) (unat (p_filesz h))) {} s s' \<and>
    filled r (p_vaddr h) (bytes s) (elf + SIZEOF_EHDR * p_offset h) (unat (p_filesz h)) (used_frames s) hh s' \<and>
    vma_list s' (task_mmap s' t) (ws @ [new]) \<and> v_start (vmas s' new) = p_vaddr h \<and>
    v_end (vmas s' new) = ((p_vaddr h + p_memsz h) AND FRAME) + 0x1000 \<and>
    (\<forall>v. live s v \<longrightarrow> live s' v \<and> area (vmas s' v) = area (vmas s v)) \<and>
    kernel.more s' = kernel.more s \<and> same_rest t s s' \<and>
    card (free_frames s) \<le> card (free_frames s') + (4 * npages (unat (p_filesz h)) + 1)"
proof -
  let ?n = "unat (p_filesz h)" and ?v = "p_vaddr h" and ?src = "elf + SIZEOF_EHDR * p_offset h"
  have ne: "free_frames s \<noteq> {}" using c by auto
  have np: "1 \<le> npages ?n" by (simp add: npages_def)
  obtain s1 new where A: "add_segment elf h t s = Some s1" "vma_list s1 (task_mmap s1 t) (ws @ [new])"
    "v_start (vmas s1 new) = ?v" "v_end (vmas s1 new) = ((?v + p_memsz h) AND FRAME) + 0x1000"
    "\<And>v. live s v \<Longrightarrow> live s1 v \<and> area (vmas s1 v) = area (vmas s v)" "extends r {} {} s s1"
    "card (free_frames s) \<le> Suc (card (free_frames s1))" "kernel.more s1 = kernel.more s" "same_rest t s s1"
    using add_segment_ok [OF ok ne wf l] by blast
  have c1: "4 \<le> card (free_frames s1)" using c A(7) np by linarith
  obtain g s2 s3 where P: "g \<in> free_frames s1" "pageAllocator s1 = (page_of g, s2)" "kernbase s2 = KERNBASE"
    "s3 = mapPageForUser ?v (page_of g) (r + KERNBASE) (memset (page_of g + KERNBASE) s2)"
    "holds_page r ?v (\<lambda>_. 0) g s3" "extends r {?v} {} s1 s3" "phys_only s1 s3"
    "card (free_frames s1) \<le> card (free_frames s3) + 4"
    using new_page [OF extends_ok(1,2) [OF A(6)] c1] by blast
  have c3: "4 * (npages ?n - 1) \<le> card (free_frames s3)" using c A(7) P(8) np by linarith
  have b3: "bytes s3 = bytes s" using more_fs(1) [OF A(8)] phys_only_bytes(1) [OF P(7)] by simp
  obtain s4 hh where L: "load_pages ?src ?v (page_of g + KERNBASE) (p_filesz h) (r + KERNBASE) s3 =
      (page_of hh + KERNBASE + of_nat (?n - 4096 * (npages ?n - 1)), s4)"
    "extends r (seg_pages ?v ?n) {g} s3 s4" "phys_only s3 s4"
    "filled r ?v (bytes s) ?src ?n (used_frames s3 - {g}) hh s4"
    "card (free_frames s3) \<le> card (free_frames s4) + 4 * (npages ?n - 1)"
    using load_pages_ok [OF extends_ok(1,2) [OF P(6)] P(5) c3, of ?src] h unfolding seg_ok_def b3 by blast
  define m where "m = unat (p_memsz h - p_filesz h)"
  define s' where "s' = clear_bytes m (page_of hh + KERNBASE + of_nat (?n - 4096 * (npages ?n - 1)) + p_filesz h) s4"
  have run: "map_elf_file elf h (r + KERNBASE) t s = Some (1, s')"
    using h unfolding map_elf_file_def
    by (simp add: seg_ok_def A(1) P(2,3) Let_def L(1) P(4) [symmetric] s'_def m_def not_less)
  have U: "used_frames s \<subseteq> used_frames s1" "used_frames s1 \<subseteq> used_frames s3" "g \<notin> used_frames s"
    using extends_ok(3) [OF A(6)] extends_ok(3) [OF P(6)] P(1) by (auto simp: used_frames_def)
  have F4: "filled r ?v (bytes s) ?src ?n (used_frames s) hh s4" by (rule filled_mono [OF L(4)]) (use U in blast)
  have E4: "extends r (seg_pages ?v ?n) {} s s4"
  proof -
    have "extends r {?v} {} s s3" using extends_trans [OF A(6) P(6)] by simp
    from extends_trans [OF this L(2)] U(3) have "extends r ({?v} \<union> seg_pages ?v ?n) {} s s4" by simp
    then show ?thesis by (rule extends_mono) (simp add: seg_pages_start)
  qed
  have E: "extends r (seg_pages ?v ?n) {} s s' \<and> filled r ?v (bytes s) ?src ?n (used_frames s) hh s' \<and> free_frames s' = free_frames s4"
  proof (cases "m = 0")
    case True
    then show ?thesis using E4 F4 by (simp add: s'_def)
  next
    case False
    have mm: "m = unat (p_memsz h) - ?n" using h by (simp add: m_def seg_ok_def unat_sub)
    with False h have small: "?n + unat (p_memsz h) \<le> 4096" "?n \<le> unat (p_memsz h)"
      by (auto simp: seg_ok_def word_le_nat_alt)
    then have n1: "npages ?n = 1" by (intro npages_small) simp
    from F4 obtain f where hp: "hh \<notin> used_frames s" "holds_page r ?v (content (bytes s) ?src ?n 0) hh s4"
      by (auto simp: filled_def n1)
    have hb: "hh < 65536" "no_table (pmem s4) r hh" "hh \<in> used_frames s4" using hp(2) used_frame_bound by (auto simp: holds_page_def)
    have s': "s' = clear_bytes m (page_of hh + KERNBASE + of_nat (?n + ?n)) s4"
      by (simp add: s'_def n1 add.assoc)
    have W: "frame_write hh s4 s'" "\<And>j. j < 4096 \<Longrightarrow> pbyte (pmem s') hh j = (if ?n + ?n \<le> j \<and> j < ?n + ?n + m then 0 else pbyte (pmem s4) hh j)"
      using clear_bytes_frame [OF hb(1) kernbase_ok [OF extends_ok(1) [OF L(2)]], of "?n + ?n" m] small mm
      unfolding s' by simp_all
    note X = extends_write [OF W(1) extends_ok(1,2) [OF L(2)] hb(2)]
    have "pbyte (pmem s') hh j = content (bytes s) ?src ?n 0 j" if "j < 4096" for j
      using W(2) [OF that] hp(2) that by (auto simp: holds_page_def content_def)
    then have "holds_page r ?v (content (bytes s) ?src ?n 0) hh s'"
      using X(2,4) hp(2) subsetD [OF extends_ok(3) [OF X(1)] hb(3)] by (simp add: holds_page_def)
    then have "filled r ?v (bytes s) ?src ?n (used_frames s) hh s'"
      by (rule filled_one) (use small hp(1) in auto)
    moreover have "extends r (seg_pages ?v ?n) {} s s'" using extends_trans [OF E4 X(1)] hp(1) by simp
    ultimately show ?thesis using X(3) by simp
  qed
  have po: "phys_only s1 s'"
    unfolding s'_def by (rule phys_only_trans [OF phys_only_trans [OF P(7) L(3)] phys_only_clear])
  have U': "used_frames s1 \<subseteq> used_frames s'"
  proof -
    have "used_frames s' = used_frames s4" using E by (simp add: used_frames_def)
    then show ?thesis using U(2) extends_ok(3) [OF L(2)] by blast
  qed
  have "vma_list s' (task_mmap s' t) (ws @ [new])" by (rule vma_list_phys [OF po U' A(2)])
  moreover have "live s' v \<and> area (vmas s' v) = area (vmas s v)" if "live s v" for v
    using A(5) [OF that] U' by (auto simp: phys_onlyD [OF po] live_def)
  moreover have "same_rest t s s'" by (rule same_rest_trans [OF A(9) same_rest_phys [OF po]])
  moreover have "kernel.more s' = kernel.more s" using phys_only_more [OF po] A(8) by simp
  moreover have "card (free_frames s) \<le> card (free_frames s') + (4 * npages ?n + 1)"
    using A(7) P(8) L(5) E np by auto
  ultimately show ?thesis
    using run E A(3,4) phys_onlyD(2) [OF po] by (intro exI [of _ s'] exI [of _ new] exI [of _ hh]) simp
qed

section \<open>All segments\<close>

fun phdrs :: "nat \<Rightarrow> (u64 \<Rightarrow> char) \<Rightarrow> u64 \<Rightarrow> Elf64_Phdr list" where
  "phdrs 0 m a = []"
| "phdrs (Suc n) m a = program_header m a # phdrs n m (a + SIZEOF_PHDR)"

definition loadable :: "nat \<Rightarrow> (u64 \<Rightarrow> char) \<Rightarrow> u64 \<Rightarrow> Elf64_Phdr list" where
  "loadable n m a = filter (\<lambda>h. p_type h = ELF_PT_LOAD) (phdrs n m a)"

abbreviation h_pages :: "Elf64_Phdr \<Rightarrow> u64 set" where
  "h_pages h \<equiv> seg_pages (p_vaddr h) (unat (p_filesz h))"

definition apart_pages :: "u64 set \<Rightarrow> u64 set \<Rightarrow> bool" where
  "apart_pages V W \<longleftrightarrow> (\<forall>x \<in> V. \<forall>y \<in> W. \<not> same_page x y)"

definition segs_ok :: "Elf64_Phdr list \<Rightarrow> bool" where
  "segs_ok hs \<longleftrightarrow> (\<forall>h \<in> set hs. seg_ok h) \<and> sorted_wrt (\<lambda>h h'. apart_pages (h_pages h) (h_pages h')) hs"

definition frames_for :: "Elf64_Phdr list \<Rightarrow> nat" where
  "frames_for hs = sum_list (map (\<lambda>h. 4 * npages (unat (p_filesz h)) + 1) hs)"

text \<open>Every page of the segment holds its part of the file, in a frame outside \<open>U\<close>.\<close>

definition loaded :: "u64 \<Rightarrow> nat set \<Rightarrow> (u64 \<Rightarrow> char) \<Rightarrow> u64 \<Rightarrow> Elf64_Phdr \<Rightarrow> 'a phys_scheme \<Rightarrow> bool" where
  "loaded r U b elf h s \<longleftrightarrow> (\<forall>k < npages (unat (p_filesz h)). \<exists>f. f \<notin> U \<and>
     holds_page r (page_addr (p_vaddr h) k) (content b (elf + SIZEOF_EHDR * p_offset h) (unat (p_filesz h)) k) f s)"

lemma filled_loaded:
  "filled r (p_vaddr h) b (elf + SIZEOF_EHDR * p_offset h) (unat (p_filesz h)) U f s \<Longrightarrow> loaded r U b elf h s"
  unfolding filled_def loaded_def by blast

lemma loaded_extends:
  assumes "loaded r U b elf h s" and "extends r V F s s'" and "apart_pages (h_pages h) V" and "F \<subseteq> U"
  shows "loaded r U b elf h s'"
  unfolding loaded_def
proof (intro allI impI)
  fix k assume k: "k < npages (unat (p_filesz h))"
  then obtain f where U: "f \<notin> U" and
      f: "holds_page r (page_addr (p_vaddr h) k) (content b (elf + SIZEOF_EHDR * p_offset h) (unat (p_filesz h)) k) f s"
    using assms(1) unfolding loaded_def by blast
  have "page_addr (p_vaddr h) k \<in> h_pages h" using k by (simp add: seg_pages_def)
  then have "holds_page r (page_addr (p_vaddr h) k) (content b (elf + SIZEOF_EHDR * p_offset h) (unat (p_filesz h)) k) f s'"
    by (intro extendsD [OF assms(2) f]) (use assms(3,4) U in \<open>auto simp: apart_pages_def\<close>)
  with U show "\<exists>f. f \<notin> U \<and> holds_page r (page_addr (p_vaddr h) k) (content b (elf + SIZEOF_EHDR * p_offset h) (unat (p_filesz h)) k) f s'"
    by blast
qed

lemma loaded_mono: "loaded r U b elf h s \<Longrightarrow> U' \<subseteq> U \<Longrightarrow> loaded r U' b elf h s"
  unfolding loaded_def by blast

definition seg_area :: "Elf64_Phdr \<Rightarrow> u64 \<times> u64" where
  "seg_area h = (p_vaddr h, ((p_vaddr h + p_memsz h) AND FRAME) + 0x1000)"

definition bounds_of :: "VMA \<Rightarrow> u64 \<times> u64" where
  "bounds_of v = (v_start v, v_end v)"

lemma bounds_area: "area v = area w \<Longrightarrow> bounds_of v = bounds_of w"
  by (simp add: area_def bounds_of_def)

lemma load_segments_ok:
  fixes s :: "'a fs_scheme"
  assumes "vm_ok s" and "wf_tree (pmem s) r (used_frames s)" and "vma_list s (task_mmap s t) ws"
    and "segs_ok (loadable n (bytes s) hdr)" and "frames_for (loadable n (bytes s) hdr) \<le> card (free_frames s)"
    and "c + length (loadable n (bytes s) hdr) \<le> 100"
  shows "\<exists>s' us. load_segments n elf hdr (of_nat c) (r + KERNBASE) t s = Some (True, s') \<and>
    extends r (\<Union>h \<in> set (loadable n (bytes s) hdr). h_pages h) {} s s' \<and>
    (\<forall>h \<in> set (loadable n (bytes s) hdr). loaded r (used_frames s) (bytes s) elf h s') \<and>
    vma_list s' (task_mmap s' t) (ws @ us) \<and>
    map (\<lambda>v. bounds_of (vmas s' v)) us = map seg_area (loadable n (bytes s) hdr) \<and>
    (\<forall>v. live s v \<longrightarrow> live s' v \<and> area (vmas s' v) = area (vmas s v)) \<and>
    kernel.more s' = kernel.more s \<and> same_rest t s s' \<and>
    card (free_frames s) \<le> card (free_frames s') + frames_for (loadable n (bytes s) hdr)"
  using assms
proof (induction n arbitrary: hdr c s ws)
  case 0
  then show ?case by (auto simp: loadable_def extends_refl frames_for_def same_rest_def intro!: exI [of _ s] exI [of _ "[]"])
next
  case (Suc n)
  let ?h = "program_header (bytes s) hdr" and ?hs = "loadable n (bytes s) (hdr + SIZEOF_PHDR)"
  have cs: "\<not> 100 < sint (of_nat c :: i32)"
    using Suc.prems(6) by (simp add: signed_of_nat signed_take_bit_int_eq_self)
  show ?case
  proof (cases "p_type ?h = ELF_PT_LOAD")
    case False
    then have e: "loadable (Suc n) (bytes s) hdr = ?hs" by (simp add: loadable_def)
    have "load_segments (Suc n) elf hdr (of_nat c) (r + KERNBASE) t s = load_segments n elf (hdr + SIZEOF_PHDR) (of_nat c) (r + KERNBASE) t s"
      using False cs by simp
    with Suc.IH [OF Suc.prems(1-3), of "hdr + SIZEOF_PHDR" c] Suc.prems(4-6) show ?thesis unfolding e by simp
  next
    case True
    then have e: "loadable (Suc n) (bytes s) hdr = ?h # ?hs" by (simp add: loadable_def)
    from Suc.prems(4) have so: "seg_ok ?h" "segs_ok ?hs" "\<forall>h' \<in> set ?hs. apart_pages (h_pages ?h) (h_pages h')"
      unfolding e by (auto simp: segs_ok_def)
    have fr: "4 * npages (unat (p_filesz ?h)) + 1 + frames_for ?hs \<le> card (free_frames s)"
      using Suc.prems(5) unfolding e by (simp add: frames_for_def)
    then have c1: "4 * npages (unat (p_filesz ?h)) + 1 \<le> card (free_frames s)" by simp
    obtain s1 new hh where A: "map_elf_file elf ?h (r + KERNBASE) t s = Some (1, s1)" "extends r (h_pages ?h) {} s s1"
      "filled r (p_vaddr ?h) (bytes s) (elf + SIZEOF_EHDR * p_offset ?h) (unat (p_filesz ?h)) (used_frames s) hh s1"
      "vma_list s1 (task_mmap s1 t) (ws @ [new])" "v_start (vmas s1 new) = p_vaddr ?h"
      "v_end (vmas s1 new) = ((p_vaddr ?h + p_memsz ?h) AND FRAME) + 0x1000"
      "\<And>v. live s v \<Longrightarrow> live s1 v \<and> area (vmas s1 v) = area (vmas s v)" "kernel.more s1 = kernel.more s" "same_rest t s s1"
      "card (free_frames s) \<le> card (free_frames s1) + (4 * npages (unat (p_filesz ?h)) + 1)"
      using map_elf_file_ok [OF Suc.prems(1-3) so(1) c1, of elf] by blast
    note b1 = more_fs(1) [OF A(8)]
    have p1: "segs_ok (loadable n (bytes s1) (hdr + SIZEOF_PHDR))" "frames_for (loadable n (bytes s1) (hdr + SIZEOF_PHDR)) \<le> card (free_frames s1)"
      "Suc c + length (loadable n (bytes s1) (hdr + SIZEOF_PHDR)) \<le> 100"
      using so(2) fr A(10) Suc.prems(6) unfolding e b1 by simp_all
    from Suc.IH [OF extends_ok(1,2) [OF A(2)] A(4) p1, unfolded b1]
    obtain s' us where B: "load_segments n elf (hdr + SIZEOF_PHDR) (of_nat (Suc c)) (r + KERNBASE) t s1 = Some (True, s')"
      "extends r (\<Union>h \<in> set ?hs. h_pages h) {} s1 s'" "\<forall>h \<in> set ?hs. loaded r (used_frames s1) (bytes s) elf h s'"
      "vma_list s' (task_mmap s' t) ((ws @ [new]) @ us)" "map (\<lambda>v. bounds_of (vmas s' v)) us = map seg_area ?hs"
      "\<And>v. live s1 v \<Longrightarrow> live s' v \<and> area (vmas s' v) = area (vmas s1 v)" "kernel.more s' = kernel.more s1" "same_rest t s1 s'"
      "card (free_frames s1) \<le> card (free_frames s') + frames_for ?hs" by blast
    have "load_segments (Suc n) elf hdr (of_nat c) (r + KERNBASE) t s = Some (True, s')"
      using True cs A(1) B(1) by (simp add: add.commute)
    moreover have "extends r (\<Union>h \<in> set (?h # ?hs). h_pages h) {} s s'"
      using extends_trans [OF A(2) B(2)] by simp
    moreover have "loaded r (used_frames s) (bytes s) elf ?h s'"
      by (rule loaded_extends [OF filled_loaded [OF A(3)] B(2)]) (use so(3) in \<open>auto simp: apart_pages_def\<close>)
    moreover have "\<forall>h \<in> set ?hs. loaded r (used_frames s) (bytes s) elf h s'"
      using B(3) loaded_mono extends_ok(3) [OF A(2)] by blast
    moreover have "bounds_of (vmas s' new) = seg_area ?h"
    proof -
      have "live s1 new" using A(4) by (auto simp: vma_list_def)
      then have "bounds_of (vmas s' new) = bounds_of (vmas s1 new)" using B(6) by (intro bounds_area) simp
      then show ?thesis using A(5,6) by (simp add: bounds_of_def seg_area_def)
    qed
    moreover have "same_rest t s s'" by (rule same_rest_trans [OF A(9) B(8)])
    moreover have "card (free_frames s) \<le> card (free_frames s') + frames_for (?h # ?hs)"
      using A(10) B(9) by (simp add: frames_for_def)
    ultimately show ?thesis
      unfolding e using B(4-7) A(7,8) by (intro exI [of _ s'] exI [of _ "new # us"]) simp
  qed
qed

section \<open>The search for the file\<close>

definition archive_size :: "(string \<times> nat) list \<Rightarrow> nat" where
  "archive_size es = sum_list (map (\<lambda>(n, sz). 512 + pad sz) es)"

lemma lookup_bounds:
  assumes "lookup p es fname = Some (q, sz)" and "unat p + archive_size es < 2 ^ 64"
  shows "unat p \<le> unat q \<and> unat q + 512 < 2 ^ 64"
  using assms
proof (induction es arbitrary: p)
  case (Cons e es)
  obtain n x where e: "e = (n, x)" by (cases e)
  have u: "unat (p + of_nat (512 + pad x)) = unat p + (512 + pad x)"
    using Cons.prems(2) by (subst unat_add_64) (simp_all add: e archive_size_def unat_of_nat take_bit_nat_eq_self del: of_nat_add)
  show ?case
  proof (cases "n = fname")
    case True
    with Cons.prems show ?thesis by (simp add: e archive_size_def)
  next
    case False
    with Cons.prems(1) have "lookup (p + of_nat (512 + pad x)) es fname = Some (q, sz)" by (simp add: e)
    moreover have "unat (p + of_nat (512 + pad x)) + archive_size es < 2 ^ 64"
      using Cons.prems(2) unfolding u by (simp add: e archive_size_def)
    ultimately show ?thesis using Cons.IH u by fastforce
  qed
qed simp

lemma file_address_zero:
  assumes "archive m st es en" and "CHR 0x00 \<notin> set fname" and "st \<noteq> 0" and "unat st + archive_size es < 2 ^ 64"
  shows "\<exists>a. get_file_address m st en fname = Some a \<and> (a = 0 \<longleftrightarrow> lookup st es fname = None)"
proof (cases "lookup st es fname")
  case None
  with archive_lookup [OF assms(1,2)] show ?thesis by simp
next
  case (Some x)
  then obtain p sz where p: "lookup st es fname = Some (p, sz)" by (cases x) simp
  from lookup_bounds [OF p assms(4)] assms(3) have b: "unat p \<noteq> 0" "unat p + 512 < 2 ^ 64" by (auto simp: unat_eq_0 word_le_nat_alt)
  then have "unat (p + 512) = unat p + 512" by (subst unat_add_64) simp_all
  then have "p + 512 \<noteq> 0" by (metis add_is_0 unat_0 zero_neq_numeral)
  moreover have "p \<noteq> 0" using b(1) by auto
  ultimately show ?thesis using archive_lookup [OF assms(1,2)] p by simp
qed

fun colon_path :: "string list \<Rightarrow> string" where
  "colon_path [] = []"
| "colon_path [d] = d"
| "colon_path (d # e # ds) = d @ '':'' @ colon_path (e # ds)"

definition candidate :: "string \<Rightarrow> string \<Rightarrow> string" where
  "candidate fname d = tl (d @ (if last d \<noteq> SLASH then [SLASH] else []) @ fname)"

definition dirs_ok :: "string \<Rightarrow> string list \<Rightarrow> bool" where
  "dirs_ok fname dirs \<longleftrightarrow> CHR 0x00 \<notin> set fname \<and> (\<forall>d \<in> set dirs. d \<noteq> [] \<and> CHR '':'' \<notin> set d \<and> CHR 0x00 \<notin> set d \<and>
     length d + length fname < 511)"

lemma takeWhile_array:
  assumes "\<And>k. k < length d \<Longrightarrow> tf (i + k) = d ! k" and "\<not> P (tf (i + length d))" and "\<And>x. x \<in> set d \<Longrightarrow> P x"
    and "i + length d < N"
  shows "takeWhile P (map tf [i..<N]) = (d :: string)"
proof -
  have "takeWhile P (map tf [i..<N]) = take (length d) (map tf [i..<N])"
    using assms by (intro takeWhile_eq_take_P_nth) auto
  also have "\<dots> = d" using assms(1,4) by (intro nth_equalityI) auto
  finally show ?thesis .
qed

lemma search_path_step:
  assumes m: "archive m st es en" "st \<noteq> 0" "unat st + archive_size es < 2 ^ 64"
    and d: "dirs_ok fname (d # ds)" and tf: "\<And>k. k < length d \<Longrightarrow> tf (i + k) = d ! k"
    and e: "tf (i + length d) = CHR '':'' \<or> tf (i + length d) = CHR 0x00" and i: "i + length d < 512"
  shows "search_path m st en tf fname i = (if lookup st es (candidate fname d) = None
     then search_path m st en tf fname (i + length d + 1) else Some (Some (candidate fname d)))"
proof -
  define N where "N = (512 :: nat)"
  have dd: "d \<noteq> []" "CHR '':'' \<notin> set d" "CHR 0x00 \<notin> set d" "CHR 0x00 \<notin> set fname" "length d + length fname < 511"
    using d by (auto simp: dirs_ok_def)
  have t: "takeWhile (\<lambda>c. c \<noteq> CHR '':'' \<and> c \<noteq> CHR 0x00) (map tf [i..<N]) = d"
    by (rule takeWhile_array [OF tf]) (use dd e i in \<open>auto simp: N_def\<close>)
  have n0: "tf i \<noteq> CHR 0x00" using tf [of 0] dd(1,3) by (cases d) auto
  have c0: "CHR 0x00 \<notin> set (candidate fname d)"
  proof -
    have "set (tl xs) \<subseteq> set xs" for xs :: string by (cases xs) auto
    from this [of "d @ (if last d \<noteq> SLASH then [SLASH] else []) @ fname"] show ?thesis
      using dd(3,4) by (auto simp: candidate_def split: if_splits)
  qed
  obtain a where a: "get_file_address m st en (candidate fname d) = Some a" "a = 0 \<longleftrightarrow> lookup st es (candidate fname d) = None"
    using file_address_zero [OF m(1) c0 m(2,3)] by (elim exE conjE) (rule that)
  have b: "\<not> N \<le> i" "i + length d \<noteq> N" "\<not> N \<le> length (d @ (if last d \<noteq> SLASH then [SLASH] else []) @ fname)"
    using i dd(5) by (auto simp: N_def)
  have eq: "search_path m st en tf fname i =
      (if N \<le> i then None else if tf i = CHR 0x00 then Some None
       else (let dir = takeWhile (\<lambda>c. c \<noteq> CHR '':'' \<and> c \<noteq> CHR 0x00) (map tf [i..<N]);
                 path = dir @ (if last dir \<noteq> SLASH then [SLASH] else []) @ fname
             in if i + length dir = N \<or> dir = [] \<or> N \<le> length path then None
                else Option.bind (get_file_address m st en (tl path)) (\<lambda>address.
                  if address = 0 then search_path m st en tf fname (i + length dir + 1) else Some (Some (tl path)))))"
    unfolding N_def by (rule search_path.simps)
  show ?thesis
    unfolding eq t Let_def candidate_def [symmetric] a(1) a(2) [symmetric]
    by (simp only: b n0 dd(1) if_False Option.bind.bind_lunit simp_thms a(2))
qed

lemma search_path_dirs:
  assumes m: "archive m st es en" "st \<noteq> 0" "unat st + archive_size es < 2 ^ 64"
    and "dirs_ok fname dirs" and "dirs \<noteq> []" and "\<And>k. k < length (colon_path dirs) \<Longrightarrow> tf (i + k) = colon_path dirs ! k"
    and "tf (i + length (colon_path dirs)) = CHR 0x00" and "i + length (colon_path dirs) + 1 < 512"
    and "(\<exists>d \<in> set dirs. lookup st es (candidate fname d) \<noteq> None) \<or> tf (i + length (colon_path dirs) + 1) = CHR 0x00"
  shows "search_path m st en tf fname i = Some (find (\<lambda>p. lookup st es p \<noteq> None) (map (candidate fname) dirs))"
  using assms(4-)
proof (induction dirs arbitrary: i rule: colon_path.induct)
  case (2 d)
  have s: "search_path m st en tf fname i = (if lookup st es (candidate fname d) = None
     then search_path m st en tf fname (i + length d + 1) else Some (Some (candidate fname d)))"
    by (rule search_path_step [OF m]) (use 2 in auto)
  show ?case
  proof (cases "lookup st es (candidate fname d)")
    case None
    with 2 have "tf (i + length d + 1) = CHR 0x00" "\<not> 512 \<le> i + length d + 1" by auto
    then have "search_path m st en tf fname (i + length d + 1) = Some None" by (subst search_path.simps) simp
    with s None show ?thesis by simp
  qed (use s in simp)
next
  case (3 d e ds)
  let ?i = "i + length d + 1" and ?p = "colon_path (e # ds)"
  have t: "tf (i + k) = (d @ '':'' @ ?p) ! k" if "k < length (d @ '':'' @ ?p)" for k using "3.prems"(3) [of k] that by simp
  have t1: "tf (i + k) = d ! k" if "k < length d" for k using t [of k] that by (simp add: nth_append)
  have t2: "tf (i + length d) = CHR '':''" using t [of "length d"] by (simp add: nth_append)
  have t3: "tf (?i + k) = ?p ! k" if "k < length ?p" for k using t [of "length d + 1 + k"] that by (simp add: nth_append add_ac)
  have s: "search_path m st en tf fname i = (if lookup st es (candidate fname d) = None
     then search_path m st en tf fname ?i else Some (Some (candidate fname d)))"
    by (rule search_path_step [OF m "3.prems"(1) t1]) (use t2 "3.prems"(5) in auto)
  show ?case
  proof (cases "lookup st es (candidate fname d)")
    case None
    have "search_path m st en tf fname ?i = Some (find (\<lambda>p. lookup st es p \<noteq> None) (map (candidate fname) (e # ds)))"
      by (rule "3.IH" [OF _ _ t3]) (use "3.prems" None in \<open>auto simp: dirs_ok_def add_ac\<close>)
    with s None show ?thesis by simp
  qed (use s in simp)
qed simp

lemma getPATH_environ:
  assumes "environ m 0 vars" and "map_of vars ''PATH'' = Some v" and "length v + 1 < 512"
  shows "\<exists>a. getPATH m stk 512 = Some (a, \<lambda>k. if k < length v then v ! k else if k = length v then CHR 0x00 else stk k)"
proof -
  obtain j where j: "env_pos 0 vars ''PATH'' = Some j" using assms(2) by (metis env_pos_None not_Some_eq)
  from env_pos_entry [OF assms(1) j] assms(2) have e: "entry_ok ''PATH'' v" "holds m (env_page j) (''PATH'' @ ''='' @ v @ [CHR 0x00])"
    by auto
  have h: "holds m (value_addr j ''PATH'') (v @ [CHR 0x00])" using e(2) by (simp add: holds_append add_ac)
  have n: "CHR 0x00 \<notin> set v" using e(1) by (simp add: entry_ok_def)
  obtain a' where "env_scan m ''PATH'' ENVIRON 0 = Some (case Some j of None \<Rightarrow> (False, a') | Some j \<Rightarrow> (True, value_addr j ''PATH''))"
    using env_scan_environ [OF assms(1), of "''PATH''" 0] by (auto simp: j)
  with copy_value_holds [OF h n, of 512 0 stk] assms(3) show ?thesis by (simp add: getPATH_def get_variable_def cong: if_cong)
qed

lemma executable_search_lemma:
  assumes m: "archive (bytes s) (BINARY_TARFS_START s) es (BINARY_TARFS_END s)" "BINARY_TARFS_START s \<noteq> 0"
      "unat (BINARY_TARFS_START s) + archive_size es < 2 ^ 64"
    and v: "environ (bytes s) 0 vars" "map_of vars ''PATH'' = Some (colon_path dirs)" "length (colon_path dirs) + 1 < 512"
    and d: "dirs_ok fname dirs" "dirs \<noteq> []"
    and p: "abs_path 512 stk fname 512 (bytes s) = Some p" "CHR 0x00 \<notin> set p"
  defines "found \<equiv> find (\<lambda>p. lookup (BINARY_TARFS_START s) es p \<noteq> None)
    (if fname \<noteq> [] \<and> hd fname = SLASH then [tl fname] else tl p # map (candidate fname) dirs)"
  assumes n: "fname \<noteq> [] \<and> hd fname = SLASH \<or> found \<noteq> None \<or> stk2 (Suc (length (colon_path dirs))) = CHR 0x00"
  shows "get_executable_path stk stk2 fname s = Some (if fname \<noteq> [] \<and> hd fname = SLASH then Some (tl fname) else found)"
proof (cases "fname \<noteq> [] \<and> hd fname = SLASH")
  case False
  let ?st = "BINARY_TARFS_START s"
  have "set (tl xs) \<subseteq> set xs" for xs :: string by (cases xs) auto
  with p(2) have "CHR 0x00 \<notin> set (tl p)" by blast
  from file_address_zero [OF m(1) this m(2,3)] obtain a where a: "get_file_address (bytes s) ?st (BINARY_TARFS_END s) (tl p) = Some a"
    "a = 0 \<longleftrightarrow> lookup ?st es (tl p) = None" by (elim exE conjE) (rule that)
  define tf where "tf = (\<lambda>k. if k < length (colon_path dirs) then colon_path dirs ! k
      else if k = length (colon_path dirs) then CHR 0x00 else stk2 k)"
  obtain e where e: "getPATH (bytes s) stk2 512 = Some (e, tf)"
    using getPATH_environ [OF v] unfolding tf_def by blast
  have tf: "\<And>k. k < length (colon_path dirs) \<Longrightarrow> tf (0 + k) = colon_path dirs ! k" "tf (0 + length (colon_path dirs)) = CHR 0x00"
    "tf (0 + length (colon_path dirs) + 1) = stk2 (Suc (length (colon_path dirs)))" by (simp_all add: tf_def)
  show ?thesis
  proof (cases "lookup ?st es (tl p)")
    case None
    then have f: "found = find (\<lambda>p. lookup ?st es p \<noteq> None) (map (candidate fname) dirs)"
      unfolding found_def if_not_P [OF False] by simp
    have c: "(\<exists>d \<in> set dirs. lookup ?st es (candidate fname d) \<noteq> None) \<or> tf (0 + length (colon_path dirs) + 1) = CHR 0x00"
      using n False unfolding tf(3) f by (auto simp: find_None_iff)
    have "search_path (bytes s) ?st (BINARY_TARFS_END s) tf fname 0 = Some found"
      unfolding f by (rule search_path_dirs [OF m d tf(1,2) _ c]) (use v(3) in simp_all)
    with a e p None show ?thesis unfolding get_executable_path_def if_not_P [OF False] by simp
  next
    case (Some x)
    with a p show ?thesis unfolding get_executable_path_def found_def if_not_P [OF False] by (simp add: word_neq_0_conv)
  qed
qed (simp add: get_executable_path_def)

section \<open>The memory of a loaded program\<close>

lemma aligned_bits: "x AND 0xFFF = (0 :: u64) \<Longrightarrow> n < 12 \<Longrightarrow> \<not> bit x n"
proof
  have m: "(0xFFF :: u64) = mask 12" by (simp add: mask_eq_exp_minus_1)
  assume "x AND 0xFFF = 0" "n < 12" "bit x n"
  moreover then have "bit (x AND mask 12) n" by (auto simp: bit_simps dest: bit_imp_le_length)
  ultimately show False unfolding m by simp
qed

lemma aligned_byte:
  assumes "x AND 0xFFF = (0 :: u64)" and "j < 4096"
  shows "drop_bit 12 (x + of_nat j) = drop_bit 12 x" "(x + of_nat j) AND 0xFFF = of_nat j"
proof -
  have m: "(0xFFF :: u64) = mask 12" by (simp add: mask_eq_exp_minus_1)
  have b: "bit (of_nat j :: u64) n \<Longrightarrow> n < 12" for n
  proof -
    assume "bit (of_nat j :: u64) n"
    moreover have "(of_nat j :: u64) = take_bit 12 (of_nat j)" using assms(2) by (simp add: take_bit_of_nat take_bit_nat_eq_self)
    ultimately show "n < 12" by (metis bit_take_bit_iff)
  qed
  note a = aligned_bits [OF assms(1)]
  have "x AND of_nat j = 0" by (rule bit_word_eqI) (use a b in \<open>auto simp: bit_and_iff\<close>)
  then have e: "x + of_nat j = x OR of_nat j" using word_plus_and_or [of x "of_nat j"] by simp
  show "drop_bit 12 (x + of_nat j) = drop_bit 12 x" unfolding e
    by (rule bit_word_eqI) (use b in \<open>fastforce simp: bit_drop_bit_eq bit_or_iff\<close>)
  show "(x + of_nat j) AND 0xFFF = of_nat j" unfolding e m
    by (rule bit_word_eqI) (use a b in \<open>auto simp: bit_and_iff bit_or_iff bit_mask_iff dest: bit_imp_le_length\<close>)
qed

lemma page_addr_aligned:
  assumes "v AND 0xFFF = 0"
  shows "page_addr v k AND 0xFFF = 0"
proof -
  have m: "(0xFFF :: u64) = mask 12" by (simp add: mask_eq_exp_minus_1)
  have "v = push_bit 12 (drop_bit 12 v)"
  proof (rule bit_word_eqI)
    fix n assume "n < LENGTH(64)"
    then show "bit v n = bit (push_bit 12 (drop_bit 12 v)) n"
      using aligned_bits [OF assms, of n] by (cases "n < 12") (auto simp: bit_push_bit_iff bit_drop_bit_eq)
  qed
  then have "page_addr v k = push_bit 12 (drop_bit 12 v + of_nat k)"
    by (simp add: page_addr_def push_bit_eq_mult algebra_simps)
  moreover have "push_bit 12 x AND mask 12 = 0" for x :: u64
    by (rule bit_word_eqI) (simp add: bit_and_iff bit_push_bit_iff bit_mask_iff)
  ultimately show ?thesis unfolding m by simp
qed

lemma loaded_user_byte:
  assumes "vm_ok s" and "wf_tree (pmem s) r (used_frames s)" and "loaded r U b elf h s" and "p_vaddr h AND 0xFFF = 0"
    and i: "i < 4096 * npages (unat (p_filesz h))"
  shows "user_byte r s (p_vaddr h + of_nat i) = (if i < unat (p_filesz h)
     then of_char (b (elf + SIZEOF_EHDR * (p_offset h + of_nat (i - i mod 4096)) + of_nat (i mod 4096))) else 0)"
proof -
  let ?k = "i div 4096" and ?j = "i mod 4096"
  have ik: "4096 * ?k + ?j = i" "4096 * ?k = i - ?j" by (simp_all add: minus_mod_eq_mult_div)
  have "?k < npages (unat (p_filesz h))" using i by (simp add: less_mult_imp_div_less mult.commute)
  then obtain f where f: "holds_page r (page_addr (p_vaddr h) ?k) (content b (elf + SIZEOF_EHDR * p_offset h) (unat (p_filesz h)) ?k) f s"
    using assms(3) unfolding loaded_def by blast
  have a: "p_vaddr h + of_nat i = page_addr (p_vaddr h) ?k + of_nat ?j"
    using arg_cong [OF ik(1) [symmetric], of "of_nat :: nat \<Rightarrow> u64"] by (simp only: page_addr_def of_nat_add add.assoc)
  note A = aligned_byte [OF page_addr_aligned [OF assms(4)], of ?j ?k]
  have "same_page (p_vaddr h + of_nat i) (page_addr (p_vaddr h) ?k)"
    unfolding a same_page_def using A(1) by simp
  then have "leaf_entry (pmem s) r (p_vaddr h + of_nat i) = leaf_entry (pmem s) r (page_addr (p_vaddr h) ?k)" by (rule same_page_leaf)
  then have "holds_page r (p_vaddr h + of_nat i) (content b (elf + SIZEOF_EHDR * p_offset h) (unat (p_filesz h)) ?k) f s"
    using f by (simp add: holds_page_def)
  from user_byte_page [OF assms(1,2) this]
  have "user_byte r s (p_vaddr h + of_nat i) = content b (elf + SIZEOF_EHDR * p_offset h) (unat (p_filesz h)) ?k (unat ((p_vaddr h + of_nat i) AND 0xFFF))" .
  also have "unat ((p_vaddr h + of_nat i) AND 0xFFF) = ?j"
    unfolding a using A(2) by (simp add: unat_of_nat take_bit_nat_eq_self)
  also have "content b (elf + SIZEOF_EHDR * p_offset h) (unat (p_filesz h)) ?k ?j = (if i < unat (p_filesz h)
     then of_char (b (elf + SIZEOF_EHDR * (p_offset h + of_nat (i - ?j)) + of_nat ?j)) else 0)"
    unfolding content_def ik(2) [symmetric] using ik(1) by (simp add: algebra_simps)
  finally show ?thesis .
qed

section \<open>Loading a file\<close>

definition elf_ok :: "Elf64_Ehdr \<Rightarrow> nat \<Rightarrow> bool" where
  "elf_ok h sz \<longleftrightarrow> e_ident h 0 = 0x7F \<and> e_ident h 1 = of_char CHR ''E'' \<and> e_ident h 2 = of_char CHR ''L'' \<and>
     e_ident h 3 = of_char CHR ''F'' \<and> e_type h = 2 \<and> e_phoff h + ucast (e_phnum h) * SIZEOF_PHDR \<le> of_nat sz"

lemma loadFile_ok:
  fixes s :: "'a fs_scheme"
  assumes ok: "vm_ok s" and wf: "wf_tree (pmem s) r (used_frames s)" and l: "vma_list s (task_mmap s t) ws"
    and a: "archive (bytes s) (BINARY_TARFS_START s) es (BINARY_TARFS_END s)"
    and f: "get_executable_path stk stk2 fname s = Some (Some name)" "CHR 0x00 \<notin> set name"
      "lookup (BINARY_TARFS_START s) es name = Some (p, sz)" "p + 512 \<noteq> 0"
    and h: "elf_ok (elf_header (bytes s) (p + 512)) sz"
  defines "H \<equiv> elf_header (bytes s) (p + 512)"
  defines "hs \<equiv> loadable (unat (e_phnum H)) (bytes s) (p + 512 + e_phoff H)"
  assumes sg: "segs_ok hs" "frames_for hs \<le> card (free_frames s)" "length hs \<le> 100"
  shows "\<exists>s' us. loadFile stk stk2 fname (r + KERNBASE) t s = Some (e_entry H, s') \<and> vm_ok s' \<and> wf_tree (pmem s') r (used_frames s') \<and>
    extends r (\<Union>h \<in> set hs. h_pages h) {} s s' \<and> (\<forall>h \<in> set hs. loaded r (used_frames s) (bytes s) (p + 512) h s') \<and>
    vma_list s' (task_mmap s' t) (ws @ us) \<and> map (\<lambda>v. bounds_of (vmas s' v)) us = map seg_area hs \<and>
    kernel.more s' = kernel.more s \<and> same_rest t s s' \<and> card (free_frames s) \<le> card (free_frames s') + frames_for hs"
proof -
  have F: "find_entry (bytes s) (BINARY_TARFS_END s) name (BINARY_TARFS_START s) = Some (p, True)"
    using find_entry_archive [OF a f(2)] f(3) by simp
  from lookup_size [OF a f(3)] have S: "header_size (bytes s) p = Some (of_nat sz)" "sz + 512 < 2 ^ 31" by simp_all
  have V: "validate_elf_file (p + 512) s = (1, s)"
    using h f(4) by (simp add: validate_elf_file_def elf_ok_def Let_def)
  have "(scast (of_nat sz :: i32) :: u64) = of_nat sz"
    using S(2) by (simp add: signed_of_nat signed_take_bit_int_eq_self scast_eq)
  then have N: "\<not> (scast (of_nat sz :: i32) :: u64) < e_phoff H + ucast (e_phnum H) * SIZEOF_PHDR"
    using h by (simp add: elf_ok_def H_def not_less)
  obtain s' us where L: "load_segments (unat (e_phnum H)) (p + 512) (p + 512 + e_phoff H) 0 (r + KERNBASE) t s = Some (True, s')"
    "extends r (\<Union>h \<in> set hs. h_pages h) {} s s'" "\<forall>h \<in> set hs. loaded r (used_frames s) (bytes s) (p + 512) h s'"
    "vma_list s' (task_mmap s' t) (ws @ us)" "map (\<lambda>v. bounds_of (vmas s' v)) us = map seg_area hs"
    "kernel.more s' = kernel.more s" "same_rest t s s'" "card (free_frames s) \<le> card (free_frames s') + frames_for hs"
    using load_segments_ok [OF ok wf l, of "unat (e_phnum H)" "p + 512 + e_phoff H" 0 "p + 512"] sg unfolding hs_def by auto
  have "loadFile stk stk2 fname (r + KERNBASE) t s = Some (e_entry H, s')"
    using N L(1) more_fs(1) [OF L(6)]
    by (simp add: loadFile_def f(1) F S(1) V Let_def H_def)
  with L extends_ok [OF L(2)] show ?thesis by blast
qed

section \<open>Properties\<close>

text \<open>C29: A command names the right file: for a name that does not start with a slash, \<open>get_executable_path\<close> takes the file with this name in the working
  directory if there is one, and otherwise the first that exists in the directories of PATH, in their order; when there is none it returns
  NULL (provided that the character behind the copy of PATH on the stack is NUL, as the loop steps over the end of the
  list). A name that starts with a slash is taken as it is.\<close>

theorem executable_search:
  assumes "archive (bytes s) (BINARY_TARFS_START s) es (BINARY_TARFS_END s)" "BINARY_TARFS_START s \<noteq> 0"
      "unat (BINARY_TARFS_START s) + archive_size es < 2 ^ 64"
    and "environ (bytes s) 0 vars" "map_of vars ''PATH'' = Some (colon_path dirs)" "length (colon_path dirs) + 1 < 512"
    and "dirs_ok fname dirs" "dirs \<noteq> []"
    and "abs_path 512 stk fname 512 (bytes s) = Some p" "CHR 0x00 \<notin> set p"
  defines "found \<equiv> find (\<lambda>p. lookup (BINARY_TARFS_START s) es p \<noteq> None)
    (if fname \<noteq> [] \<and> hd fname = SLASH then [tl fname] else tl p # map (candidate fname) dirs)"
  assumes "fname \<noteq> [] \<and> hd fname = SLASH \<or> found \<noteq> None \<or> stk2 (Suc (length (colon_path dirs))) = CHR 0x00"
  shows "get_executable_path stk stk2 fname s = Some (if fname \<noteq> [] \<and> hd fname = SLASH then Some (tl fname) else found)"
  using executable_search_lemma [OF assms(1-10), of stk2] assms(12) unfolding found_def by blast

text \<open>C5: A program is loaded completely: for a valid ELF file whose segments start at page boundaries, do not overlap and need at most the free frames,
  \<open>loadFile\<close> returns the entry point; then the program reads at each address of each segment the bytes of the file from
  \<open>p_offset\<close> on, with zeros behind them up to the end of the page, and the task has one new area for each segment. (The loader
  counts \<open>p_offset\<close> in units of the ELF header's 64 bytes: for a segment at offset 0 of at most a page that makes no
  difference. Segments with zero-filled data are covered when they fit half a page, see \<open>seg_ok\<close>.)\<close>

theorem program_loaded:
  fixes s :: "'a fs_scheme"
  assumes "vm_ok s" and "wf_tree (pmem s) r (used_frames s)" and "vma_list s (task_mmap s t) ws"
    and "archive (bytes s) (BINARY_TARFS_START s) es (BINARY_TARFS_END s)"
    and "get_executable_path stk stk2 fname s = Some (Some name)" "CHR 0x00 \<notin> set name"
    and "lookup (BINARY_TARFS_START s) es name = Some (p, sz)" "p + 512 \<noteq> 0"
    and "elf_ok (elf_header (bytes s) (p + 512)) sz"
    and "hs = loadable (unat (e_phnum (elf_header (bytes s) (p + 512)))) (bytes s) (p + 512 + e_phoff (elf_header (bytes s) (p + 512)))"
    and "segs_ok hs" "frames_for hs \<le> card (free_frames s)" "length hs \<le> 100" "\<forall>h \<in> set hs. p_vaddr h AND 0xFFF = 0"
  shows "\<exists>s' us. loadFile stk stk2 fname (r + KERNBASE) t s = Some (e_entry (elf_header (bytes s) (p + 512)), s') \<and>
    (\<forall>h \<in> set hs. \<forall>i < 4096 * npages (unat (p_filesz h)). user_byte r s' (p_vaddr h + of_nat i) =
       (if i < unat (p_filesz h)
        then of_char (bytes s (p + 512 + SIZEOF_EHDR * (p_offset h + of_nat (i - i mod 4096)) + of_nat (i mod 4096))) else 0)) \<and>
    vma_list s' (task_mmap s' t) (ws @ us) \<and>
    map (\<lambda>v. (v_start (vmas s' v), v_end (vmas s' v))) us = map (\<lambda>h. (p_vaddr h, ((p_vaddr h + p_memsz h) AND FRAME) + 0x1000)) hs"
proof -
  obtain s' us where L: "loadFile stk stk2 fname (r + KERNBASE) t s = Some (e_entry (elf_header (bytes s) (p + 512)), s')"
    "vm_ok s'" "wf_tree (pmem s') r (used_frames s')" "\<forall>h \<in> set hs. loaded r (used_frames s) (bytes s) (p + 512) h s'"
    "vma_list s' (task_mmap s' t) (ws @ us)" "map (\<lambda>v. bounds_of (vmas s' v)) us = map seg_area hs"
    using loadFile_ok [OF assms(1-9)] assms(11-13) unfolding assms(10) by blast
  then show ?thesis
    using loaded_user_byte [OF L(2,3), where U = "used_frames s"] assms(14) by (intro exI [of _ s'] exI [of _ us]) (simp add: bounds_of_def seg_area_def)
qed

text \<open>A small machine with a program of one byte in \<open>/b/f\<close> and \<open>PATH=/b\<close>.\<close>

definition exec_text :: "u64 \<Rightarrow> char" where
  "exec_text = store_str 0x1000 ''b/f'' (store_str 0x107C ''201'' (store_str 0x1200 [CHR 0x7F, CHR ''E'', CHR ''L'', CHR ''F'']
     (store_str 0x1210 [CHR 0x02] (store_str 0x121A [CHR 0x40] (store_str 0x1220 [CHR 0x40] (store_str 0x1238 [CHR 0x01]
     (store_str 0x1240 [CHR 0x01] (store_str 0x1248 [CHR 0x02] (store_str 0x1252 [CHR 0x40] (store_str 0x1260 [CHR 0x01]
     (store_str 0x1268 [CHR 0x01] (store_str 0x1280 ''X'' (store_str 0x302000 ''PWD=/'' (store_str 0x303000 ''PATH=/b''
     (\<lambda>_. CHR 0x00)))))))))))))))"

definition exec_fs :: fs where
  "exec_fs = tiny_fs\<lparr>bytes := exec_text\<rparr>"

lemma exec_fs_sel:
  "bytes exec_fs = exec_text" "BINARY_TARFS_START exec_fs = 0x1000" "BINARY_TARFS_END exec_fs = 0x1400"
  "vm_ok exec_fs" "free_frames exec_fs = {257..<269}" "wf_tree (pmem exec_fs) (page_of 300) (used_frames exec_fs)"
  "task_mmap exec_fs 0x40 = NULL"
proof -
  have p: "pmem exec_fs = pmem small_vm" "used_frames exec_fs = used_frames small_vm"
    by (simp_all add: exec_fs_def tiny_fs_defs upd_task_def small_kernel_sel used_frames_def free_frames_def)
      (simp_all add: small_kernel_def vm.defs kernel.defs small_vm_def)
  show "wf_tree (pmem exec_fs) (page_of 300) (used_frames exec_fs)" unfolding p by (rule small_tree [OF small_used(2)])
  show "bytes exec_fs = exec_text" "BINARY_TARFS_START exec_fs = 0x1000" "BINARY_TARFS_END exec_fs = 0x1400"
    "vm_ok exec_fs" "free_frames exec_fs = {257..<269}"
    using tiny_fs_sel small_ok(1) free_small by (simp_all add: exec_fs_def vm_ok_def phys_inv_def free_frames_def)
  show "task_mmap exec_fs 0x40 = NULL"
    by (simp add: exec_fs_def tiny_fs_defs upd_task_def small_kernel_sel small_task_def zero_task_def)
qed

lemma exec_archive: "archive (bytes exec_fs) (BINARY_TARFS_START exec_fs) [(''b/f'', 129)] (BINARY_TARFS_END exec_fs)"
proof -
  have "cstr exec_text 0x1000 = Some ''b/f''" "cstr exec_text 0x107C = Some ''201''" "cstr exec_text 0x147C = Some []"
    by (rule cstr_holds; simp add: exec_text_def)+
  moreover have "toInteger ''201'' = 129" by code_simp
  ultimately show ?thesis by (simp add: exec_fs_sel header_name_def header_size_def pad_def)
qed

lemma exec_environ: "environ (bytes exec_fs) 0 [(''PWD'', ''/''), (''PATH'', ''/b'')]"
  by (simp add: exec_fs_sel entry_ok_def env_page_def exec_text_def)

lemma exec_cwd: "abs_path 512 (\<lambda>_. CHR 0x00) ''f'' 512 (bytes exec_fs) = Some ''/f''"
proof -
  obtain a b where "getCWD (bytes exec_fs) (\<lambda>_. CHR 0x00) 256 = Some (a, b)" "array_string b = Some ''/''"
    using getCWD_environ [OF exec_environ, of "''/''" "\<lambda>_. CHR 0x00"] by auto
  then have "cwd_string (\<lambda>_. CHR 0x00) (bytes exec_fs) = Some ''/''" by (simp add: cwd_string_def)
  then show ?thesis by (simp add: abs_path_def remove_dotslash_def norm_loop.simps get_between_2slashes_def)
qed

theorem executable_search_witness:
  "get_executable_path (\<lambda>_. CHR 0x00) (\<lambda>_. CHR 0x00) ''f'' exec_fs = Some (Some ''b/f'')"
  using executable_search [OF exec_archive _ _ exec_environ, of "[''/b'']" "''f''" "\<lambda>_. CHR 0x00" "''/f''" "\<lambda>_. CHR 0x00"] exec_cwd
  by (simp add: exec_fs_sel archive_size_def pad_def dirs_ok_def candidate_def)

lemma le_unfold:
  "le 2 m a = of_char (m a) + 256 * of_char (m (a + 1))"
  "le 4 m a = of_char (m a) + 256 * (of_char (m (a + 1)) + 256 * le 2 m (a + 2))"
  "le 8 m a = of_char (m a) + 256 * (of_char (m (a + 1)) + 256 * (of_char (m (a + 2)) + 256 * (of_char (m (a + 3)) + 256 * le 4 m (a + 4))))"
  by (simp_all add: eval_nat_numeral add.assoc)

lemma exec_fields:
  "le 2 exec_text 0x1210 = 2" "le 8 exec_text 0x1218 = 0x400000" "le 8 exec_text 0x1220 = 0x40" "le 2 exec_text 0x1238 = 1"
  "le 4 exec_text 0x1240 = 1" "le 8 exec_text 0x1248 = 2" "le 8 exec_text 0x1250 = 0x400000" "le 8 exec_text 0x1260 = 1"
  "le 8 exec_text 0x1268 = 1"
  by (simp_all add: le_unfold exec_text_def)

lemma exec_headers:
  "elf_ok (elf_header exec_text 0x1200) 129" "e_phoff (elf_header exec_text 0x1200) = 0x40"
  "e_phnum (elf_header exec_text 0x1200) = 1" "e_entry (elf_header exec_text 0x1200) = 0x400000"
  "p_type (program_header exec_text 0x1240) = 1"
  "p_vaddr (program_header exec_text 0x1240) = 0x400000" "p_filesz (program_header exec_text 0x1240) = 1"
  "p_memsz (program_header exec_text 0x1240) = 1" "p_offset (program_header exec_text 0x1240) = 2"
  by (simp_all add: elf_ok_def elf_header_def program_header_def exec_fields) (simp_all add: exec_text_def)

lemma exec_loadable: "loadable 1 exec_text 0x1240 = [program_header exec_text 0x1240]"
  using exec_headers(5) by (simp add: loadable_def)

theorem program_loaded_witness:
  "\<exists>s'. loadFile (\<lambda>_. CHR 0x00) (\<lambda>_. CHR 0x00) ''f'' (page_of 300 + KERNBASE) 0x40 exec_fs = Some (0x400000, s') \<and>
     user_byte (page_of 300) s' 0x400000 = of_char CHR ''X''"
proof -
  have path: "get_executable_path (\<lambda>_. CHR 0x00) (\<lambda>_. CHR 0x00) ''f'' exec_fs = Some (Some ''b/f'')"
    using executable_search_lemma [OF exec_archive _ _ exec_environ, of "[''/b'']" "''f''" "\<lambda>_. CHR 0x00" "''/f''" "\<lambda>_. CHR 0x00"] exec_cwd
    by (simp add: exec_fs_sel archive_size_def pad_def dirs_ok_def candidate_def)
  have l: "vma_list exec_fs (task_mmap exec_fs 0x40) []" by (simp add: vma_list_def exec_fs_sel(7))
  have k: "lookup (BINARY_TARFS_START exec_fs) [(''b/f'', 129)] ''b/f'' = Some (0x1000, 129)" by (simp add: exec_fs_sel)
  have e: "elf_ok (elf_header (bytes exec_fs) (0x1000 + 512)) 129" using exec_headers(1) by (simp add: exec_fs_sel)
  have hs: "[program_header exec_text 0x1240] = loadable (unat (e_phnum (elf_header (bytes exec_fs) (0x1000 + 512)))) (bytes exec_fs)
      (0x1000 + 512 + e_phoff (elf_header (bytes exec_fs) (0x1000 + 512)))"
    using exec_headers(2,3) exec_loadable by (simp add: exec_fs_sel)
  have sg: "segs_ok [program_header exec_text 0x1240]" "frames_for [program_header exec_text 0x1240] \<le> card (free_frames exec_fs)"
    "length [program_header exec_text 0x1240] \<le> 100" "\<forall>h \<in> set [program_header exec_text 0x1240]. p_vaddr h AND 0xFFF = 0"
    by (simp_all add: segs_ok_def seg_ok_def frames_for_def exec_headers exec_fs_sel(5) npages_small)
  let ?h = "program_header exec_text 0x1240"
  obtain s' where L: "loadFile (\<lambda>_. CHR 0x00) (\<lambda>_. CHR 0x00) ''f'' (page_of 300 + KERNBASE) 0x40 exec_fs =
      Some (e_entry (elf_header (bytes exec_fs) (0x1000 + 512)), s')"
    "\<forall>h \<in> set [?h]. \<forall>i < 4096 * npages (unat (p_filesz h)). user_byte (page_of 300) s' (p_vaddr h + of_nat i) = (if i < unat (p_filesz h)
       then of_char (bytes exec_fs (0x1000 + 512 + SIZEOF_EHDR * (p_offset h + of_nat (i - i mod 4096)) + of_nat (i mod 4096))) else 0)"
    using program_loaded [OF exec_fs_sel(4,6) l exec_archive path _ k _ e hs sg] by auto
  have "user_byte (page_of 300) s' (p_vaddr ?h + of_nat 0) = (if 0 < unat (p_filesz ?h)
      then of_char (bytes exec_fs (0x1000 + 512 + SIZEOF_EHDR * (p_offset ?h + of_nat (0 - 0 mod 4096)) + of_nat (0 mod 4096))) else 0)"
    using bspec [OF L(2), of ?h, THEN spec, of 0] by (simp add: npages_def del: of_nat_0)
  moreover have "exec_text 0x1280 = CHR ''X''" by (simp add: exec_text_def)
  ultimately show ?thesis using L(1) by (simp add: exec_headers exec_fs_sel)
qed

end
