(* ===== verification/Args.thy ===== *)
theory Args
  imports Loader
begin

text \<open>
  Handing arguments and environment to a new program: the part that \<open>exec\<close> and \<open>pushInitialParamstoStack\<close> of \<open>sys/task.c\<close> have in
  common, and \<open>_start\<close> of \<open>crt/crt1.c\<close>, which finds them again. The page at \<open>0x300000\<close> becomes a second stack with the count, the
  pointers to the arguments and to the environment; the strings of the arguments share the page at \<open>0x301000\<close>, each
  variable of the environment has a page of its own from \<open>0x302000\<close> on.
\<close>

section \<open>Operations\<close>

abbreviation (input) ARGS_STACK :: u64 where "ARGS_STACK \<equiv> 0x300000"
abbreviation (input) ARGS_STRINGS :: u64 where "ARGS_STRINGS \<equiv> 0x301000"
abbreviation (input) ENV_START :: u64 where "ENV_START \<equiv> 0x302000"

definition store_char :: "u64 \<Rightarrow> char \<Rightarrow> 'a phys_scheme \<Rightarrow> 'a phys_scheme" where
  "store_char a c s = s\<lparr>pmem := put_byte (k2p (kernbase s) a) (of_char c) (pmem s)\<rparr>"

text \<open>The loop that copies a string to \<open>newPage\<close> from index \<open>k\<close> on while \<open>k<=lim\<close>, and the NUL behind it.\<close>

fun store_string :: "nat \<Rightarrow> u64 \<Rightarrow> nat \<Rightarrow> string \<Rightarrow> 'a phys_scheme \<Rightarrow> nat \<times> 'a phys_scheme" where
  "store_string lim newPage k [] s = (k, store_char (newPage + of_nat k) CHR 0x00 s)"
| "store_string lim newPage k (c # cs) s =
     (if k \<le> lim then store_string lim newPage (Suc k) cs (store_char (newPage + of_nat k) c s)
      else (k, store_char (newPage + of_nat k) CHR 0x00 s))"

text \<open>The arrays \<open>args\<close> and \<open>envp\<close>, up to their NULL, are lists of strings.\<close>

fun map_env :: "u64 \<Rightarrow> u64 \<Rightarrow> string list \<Rightarrow> 'a phys_scheme \<Rightarrow> u64 \<times> 'a phys_scheme" where
  "map_env pm envStart [] s = (envStart, s)"
| "map_env pm envStart (e # es) s =
     (case kmalloc s of (newPage, s1) \<Rightarrow>
      let s2 = snd (store_string 511 newPage 0 e s1)
      in map_env pm (envStart + 0x1000) es (mapPageForUser envStart (newPage - kernbase s2) pm s2))"

text \<open>One round of the loop over \<open>z\<close>: the pages from the last one at \<open>i\<close> downwards get a pointer, the others an empty slot.\<close>

definition env_slot :: "u64 \<Rightarrow> i32 \<Rightarrow> u64 \<times> i32 \<times> 'a phys_scheme \<Rightarrow> u64 \<times> i32 \<times> 'a phys_scheme" where
  "env_slot c z = (\<lambda>(mainArgs, i, s).
     if z = i then (mainArgs - 8, i - 0x1000, pushSomeArgsToUser mainArgs (scast i) c s) else (mainArgs - 8, i, s))"

definition env_zs :: "i32 list" where
  "env_zs = map (\<lambda>k. 0x322000 - 0x1000 * of_nat k) [0..<33]"

fun push_args :: "u64 \<Rightarrow> u64 \<Rightarrow> nat \<Rightarrow> string list \<Rightarrow> u64 \<Rightarrow> 'a phys_scheme \<Rightarrow> u64 \<times> 'a phys_scheme" where
  "push_args c newPage k [] mainArgs s = (mainArgs, s)"
| "push_args c newPage k (a # as) mainArgs s =
     (case store_string 510 newPage k a (pushSomeArgsToUser mainArgs (of_nat k + ARGS_STRINGS) c s) of
        (k', s1) \<Rightarrow> push_args c newPage (Suc k') as (mainArgs - 8) s1)"

text \<open>The first part maps the second stack and the pages of the environment, with an empty string in the last one.\<close>

definition build_env :: "string list \<Rightarrow> u64 \<Rightarrow> 'a phys_scheme \<Rightarrow> u64 \<times> u64 \<times> 'a phys_scheme" where
  "build_env envp c s =
     (case kmalloc s of (p, s1) \<Rightarrow>
      let s2 = mapPageForUser ARGS_STACK (p - kernbase s1) (c + kernbase s1) s1;
          tempMainArgs = p + 0x1000;
          s3 = pushSomeArgsToUser tempMainArgs NULL c s2 in
      case map_env (c + kernbase s3) ENV_START envp s3 of (envStart, s4) \<Rightarrow>
      case kmalloc s4 of (tempNewPage, s5) \<Rightarrow>
      let s6 = store_char tempNewPage CHR 0x00 s5
      in (tempMainArgs, envStart, mapPageForUser envStart (tempNewPage - kernbase s6) (c + kernbase s6) s6))"

text \<open>The result is what is pushed on the program's stack at last.\<close>

definition build_args :: "string list \<Rightarrow> string list \<Rightarrow> u64 \<Rightarrow> 'a phys_scheme \<Rightarrow> u64 \<times> 'a phys_scheme" where
  "build_args args envp c s =
     (case build_env envp c s of (tempMainArgs, envStart, s1) \<Rightarrow>
      case fold (env_slot c) env_zs (tempMainArgs - 8, ucast envStart, s1) of (mainArgs, i, s2) \<Rightarrow>
      let s3 = pushSomeArgsToUser mainArgs NULL c s2 in
      case kmalloc s3 of (newPage, s4) \<Rightarrow>
      case push_args c newPage 0 (rev args) (mainArgs - 8) s4 of (mainArgs', s5) \<Rightarrow>
      let s6 = mapPageForUser ARGS_STRINGS (newPage - kernbase s5) (c + kernbase s5) s5;
          s7 = pushSomeArgsToUser mainArgs' (of_nat (length args)) c s6
      in (ARGS_STRINGS - (tempMainArgs - (mainArgs' - 8)) - 8, s7))"

text \<open>The word a program with the page tables \<open>c\<close> reads.\<close>

definition user_word :: "u64 \<Rightarrow> 'a phys_scheme \<Rightarrow> u64 \<Rightarrow> u64" where
  "user_word c s a = pmem s (v2p s c a)"

text \<open>
  \<open>_start\<close>: \<open>main\<close> is called with \<open>argc\<close> and the addresses of the arrays \<open>argv\<close> and \<open>envp\<close>. \<open>rsp\<close> is the register's value after
  the prologue has pushed \<open>rbp\<close>.
\<close>

definition start_params :: "u64 \<Rightarrow> 'a phys_scheme \<Rightarrow> u64 \<Rightarrow> u64 \<times> u64 \<times> u64" where
  "start_params c s rsp0 =
     (let rsp1 = user_word c s (rsp0 + 8);
          argc = user_word c s (rsp1 + 8)
      in (argc, rsp1 + 16, rsp1 + 8 * (argc + 3)))"

section \<open>Pages of words\<close>

definition word_byte :: "(nat \<Rightarrow> u64) \<Rightarrow> nat \<Rightarrow> u8" where
  "word_byte w j = ucast (drop_bit (8 * (j mod 8)) (w (j div 8)))"

lemma page_byte_low:
  assumes "f < 65536" and "j < 4096"
  shows "unat ((page_of f + of_nat j) AND 7) = j mod 8"
proof -
  have m: "(7 :: u64) = mask 3" by (simp add: mask_eq_exp_minus_1)
  have "unat ((page_of f + of_nat j) AND 7) = take_bit 3 (unat (page_of f + of_nat j))"
    unfolding m take_bit_eq_mask [symmetric] by (rule unsigned_take_bit_eq)
  also have "\<dots> = (4096 * f + j) mod 8" unfolding unat_page_byte [OF assms] by (simp add: take_bit_eq_mod)
  also have "\<dots> = j mod 8" by (simp add: mod_add_eq [symmetric, of "4096 * f" j] mod_mult_left_eq [of 4096 8, symmetric])
  finally show ?thesis .
qed

lemma pbyte_word:
  assumes "f < 65536" and "j < 4096"
  shows "pbyte m f j = word_byte (\<lambda>k. m (slot f (of_nat k))) j"
  using page_byte_slot [OF assms] page_byte_low [OF assms] by (simp add: pbyte_def get_byte_def word_byte_def)

lemma word_bytes_eq:
  assumes "\<And>j. j < 4096 \<Longrightarrow> word_byte w j = word_byte w' j" and "k < 512"
  shows "w k = w' k"
proof (rule bit_word_eqI)
  fix n assume "n < LENGTH(64)"
  then have n: "n < 64" by simp
  let ?j = "8 * k + n div 8"
  have "?j < 4096" "?j div 8 = k" "?j mod 8 = n div 8" "8 * (n div 8) + n mod 8 = n" using n assms(2) by auto
  moreover have "bit (ucast (x :: u64) :: u8) (n mod 8) = bit x (n mod 8)" for x
    using mod_less_divisor [of 8 n] by (simp only: bit_ucast_iff) simp
  ultimately have "bit (word_byte v ?j) (n mod 8) = bit (v k) n" for v :: "nat \<Rightarrow> u64"
    unfolding word_byte_def by (simp only: bit_drop_bit_eq o_apply)
  with assms(1) [OF \<open>?j < 4096\<close>] show "bit (w k) n = bit (w' k) n" by metis
qed

lemma page_words:
  assumes "f < 65536"
  shows "(\<forall>j < 4096. pbyte m f j = word_byte w j) \<longleftrightarrow> (\<forall>k < 512. m (slot f (of_nat k)) = w k)"
proof
  assume a: "\<forall>j < 4096. pbyte m f j = word_byte w j"
  then have "word_byte (\<lambda>k. m (slot f (of_nat k))) j = word_byte w j" if "j < 4096" for j
    using pbyte_word [OF assms that, of m] that by simp
  from word_bytes_eq [OF this] show "\<forall>k < 512. m (slot f (of_nat k)) = w k" by simp
next
  assume "\<forall>k < 512. m (slot f (of_nat k)) = w k"
  then show "\<forall>j < 4096. pbyte m f j = word_byte w j" using pbyte_word [OF assms] by (simp add: word_byte_def)
qed
section \<open>What a program reads in a page\<close>

lemma aligned_holds:
  assumes "v AND 0xFFF = 0" and "holds_page r v c g s" and "j < 4096"
  shows "holds_page r (v + of_nat j) c g s"
proof -
  have "same_page (v + of_nat j) v" unfolding same_page_def using aligned_byte(1) [OF assms(1,3)] by simp
  then show ?thesis using assms(2) same_page_leaf by (simp add: holds_page_def)
qed

lemma page_byte_read:
  assumes "vm_ok s" and "wf_tree (pmem s) r (used_frames s)" and "v AND 0xFFF = 0" "holds_page r v c g s" and "j < 4096"
  shows "user_byte r s (v + of_nat j) = c j"
  using user_byte_page [OF assms(1,2) aligned_holds [OF assms(3-5)]] aligned_byte(2) [OF assms(3,5)] assms(5)
  by (simp add: unat_of_nat take_bit_nat_eq_self)

lemma user_v2p:
  assumes "vm_ok s" and "wf_tree (pmem s) r (used_frames s)" and "v AND 0xFFF = 0" "holds_page r v c g s" and "j < 4096"
    and "v + of_nat j < KERNBASE"
  shows "v2p s r (v + of_nat j) = page_of g + of_nat j"
proof -
  have "getPhysicalPageAddr (v + of_nat j) r s AND FRAME = page_of g"
    using aligned_holds [OF assms(3-5)] walk_leaf_entry [OF assms(1,2)] by (simp add: holds_page_def leaf_flags_user)
  then show ?thesis
    using assms(6) aligned_byte(2) [OF assms(3,5)] kernbase_ok [OF assms(1)] by (simp add: v2p_def not_less [symmetric])
qed

lemma page_word_read:
  assumes "vm_ok s" and "wf_tree (pmem s) r (used_frames s)" and "v AND 0xFFF = 0" "holds_page r v (word_byte w) g s"
    and "k < 512" and "v + of_nat (8 * k) < KERNBASE"
  shows "user_word r s (v + of_nat (8 * k)) = w k"
proof -
  have "g < 65536" using assms(4) used_frame_bound by (auto simp: holds_page_def)
  then have "pmem s (slot g (of_nat k)) = w k"
    using assms(4,5) page_words [of g "pmem s" w] by (simp add: holds_page_def)
  moreover have "v2p s r (v + of_nat (8 * k)) = page_of g + of_nat (8 * k)"
    by (rule user_v2p [OF assms(1-4) _ assms(6)]) (use assms(5) in simp)
  ultimately show ?thesis by (simp add: user_word_def slot_def)
qed

section \<open>The second stack\<close>

text \<open>The words of the page when \<open>xs\<close> have been pushed, the oldest at its end.\<close>

definition stacked :: "u64 list \<Rightarrow> nat \<Rightarrow> u64" where
  "stacked xs k = (if 511 - k < length xs then xs ! (511 - k) else 0)"

definition arg_stack :: "u64 \<Rightarrow> nat \<Rightarrow> u64 list \<Rightarrow> 'a phys_scheme \<Rightarrow> bool" where
  "arg_stack r A xs s \<longleftrightarrow> holds_page r ARGS_STACK (word_byte (stacked xs)) A s"

abbreviation stack_ptr :: "nat \<Rightarrow> nat \<Rightarrow> u64" where
  "stack_ptr A n \<equiv> page_of A + KERNBASE + 0x1000 - 8 * of_nat n"

lemma stack_ptr_Suc: "stack_ptr A n - 8 = stack_ptr A (Suc n)"
  by simp

lemma stacked_skip: "stacked (xs @ [0]) = stacked xs"
  by (auto simp: stacked_def fun_eq_iff nth_append)

lemma stacked_push: "length xs < 512 \<Longrightarrow> k < 512 \<Longrightarrow>
    stacked (xs @ [x]) k = (if k = 511 - length xs then x else stacked xs k)"
  by (auto simp: stacked_def nth_append)

lemma stack_ptr_slot:
  assumes "A < 65536" and "n < 512"
  shows "KERNBASE \<le> stack_ptr A n - 8" "stack_ptr A n - 8 - KERNBASE = slot A (of_nat (511 - n))"
proof -
  have "of_nat n = (511 - of_nat (511 - n) :: u64)" using assms(2) by (simp add: of_nat_diff)
  moreover have "page_of A + KERNBASE + 0x1000 - 8 * (511 - x) - 8 = slot A x + KERNBASE" for x
    by (simp add: slot_def algebra_simps)
  ultimately have e: "stack_ptr A n - 8 = slot A (of_nat (511 - n)) + KERNBASE" by (simp only:)
  then show "stack_ptr A n - 8 - KERNBASE = slot A (of_nat (511 - n))" by simp
  have "(of_nat m :: u64) < 512" if "m < 512" for m
    using that by (simp add: word_less_nat_alt unat_of_nat take_bit_nat_eq_self)
  from this [of "511 - n"] have "(of_nat (511 - n) :: u64) < 512" by linarith
  moreover have "unat (slot A k) < 2 ^ 31" if "k < 512" for k
    using unat_slot [OF assms(1) that] that assms(1) by (simp add: word_less_nat_alt)
  ultimately have u: "unat (slot A (of_nat (511 - n))) < 2 ^ 31" by blast
  have "unat (slot A (of_nat (511 - n)) + KERNBASE) = unat (slot A (of_nat (511 - n))) + unat KERNBASE"
    by (rule unat_add_64) (use u in \<open>simp add: unat_KERNBASE\<close>)
  then show "KERNBASE \<le> stack_ptr A n - 8" unfolding e word_le_nat_alt by simp
qed

lemma push_arg:
  fixes x c :: u64
  assumes "vm_ok s" "wf_tree (pmem s) r (used_frames s)" "arg_stack r A xs s" "length xs < 512"
  defines "s' \<equiv> pushSomeArgsToUser (stack_ptr A (length xs)) x c s"
  shows "arg_stack r A (xs @ [x]) s' \<and> frame_write A s s' \<and> extends r {} {A} s s' \<and> free_frames s' = free_frames s"
proof -
  have A: "A < 65536" "A \<in> used_frames s" "no_table (pmem s) r A" "leaf_entry (pmem s) r ARGS_STACK = page_of A OR leaf_flags 1"
    "\<forall>j < 4096. pbyte (pmem s) A j = word_byte (stacked xs) j"
    using assms(3) used_frame_bound by (auto simp: arg_stack_def holds_page_def)
  let ?k = "511 - length xs"
  note K = stack_ptr_slot [OF A(1) assms(4)]
  have s': "s' = s\<lparr>pmem := (pmem s)(slot A (of_nat ?k) := x)\<rparr>"
    unfolding s'_def pushSomeArgsToUser_def uwr_def v2p_def kernbase_ok [OF assms(1)] by (simp only: K if_True)
  have kb: "of_nat k < (512 :: u64)" if "k < 512" for k
    using that by (simp add: word_less_nat_alt unat_of_nat take_bit_nat_eq_self)
  have ki: "of_nat k = (of_nat m :: u64) \<longleftrightarrow> k = m" if "k < 512" "m < 512" for k m
    using that by (simp add: unat_of_nat take_bit_nat_eq_self word_unat_eq_iff)
  have fw: "frame_write A s s'"
    using A(1) kb [of ?k] by (auto simp: frame_write_def s' slot_inj)
  note E = extends_write [OF fw assms(1,2) A(3)]
  have "pmem s' (slot A (of_nat k)) = stacked (xs @ [x]) k" if "k < 512" for k
    using A(5) that kb [OF that] kb [of ?k] ki [OF that, of ?k] slot_inj [OF A(1) _ A(1)] stacked_push [OF assms(4) that]
    unfolding page_words [OF A(1)] by (simp add: s')
  then have "\<forall>j < 4096. pbyte (pmem s') A j = word_byte (stacked (xs @ [x])) j"
    unfolding page_words [OF A(1)] by blast
  then have "arg_stack r A (xs @ [x]) s'"
    using A E(2,4) by (simp add: arg_stack_def holds_page_def used_frames_def E(3))
  with fw E show ?thesis by blast
qed

lemma skip_arg: "arg_stack r A xs s \<Longrightarrow> arg_stack r A (xs @ [0]) s"
  by (simp add: arg_stack_def stacked_skip)

lemma extends_stack:
  "extends r V F s s' \<Longrightarrow> arg_stack r A xs s \<Longrightarrow> A \<notin> F \<Longrightarrow> (\<And>x. x \<in> V \<Longrightarrow> \<not> same_page ARGS_STACK x) \<Longrightarrow> arg_stack r A xs s'"
  unfolding arg_stack_def by (rule extendsD)

lemma extends_same: "extends r V F s s' \<Longrightarrow> extends r V' F s' s'' \<Longrightarrow> extends r (V \<union> V') F s s''"
  by (rule extends_trans) auto

section \<open>Filling a page before it is mapped\<close>

definition text_bytes :: "string \<Rightarrow> nat \<Rightarrow> u8" where
  "text_bytes t j = (if j < length t then of_char (t ! j) else 0)"

definition frame_holds :: "u64 \<Rightarrow> (nat \<Rightarrow> u8) \<Rightarrow> nat \<Rightarrow> 'a phys_scheme \<Rightarrow> bool" where
  "frame_holds r c g s \<longleftrightarrow> g \<in> used_frames s \<and> no_table (pmem s) r g \<and> (\<forall>j < 4096. pbyte (pmem s) g j = c j)"

lemma map_filled:
  fixes v :: u64
  assumes "vm_ok s" "wf_tree (pmem s) r (used_frames s)" "3 \<le> card (free_frames s)" "frame_holds r c g s"
  defines "s' \<equiv> mapPageForUser v (page_of g + KERNBASE - kernbase s) (r + kernbase s) s"
  shows "holds_page r v c g s' \<and> extends r {v} {} s s' \<and> card (free_frames s) \<le> card (free_frames s') + 3"
proof -
  have kb: "kernbase s = KERNBASE" by (rule kernbase_ok [OF assms(1)])
  have m: "mapped r v (page_of g OR leaf_flags 1) s s'"
    unfolding s'_def mapPageForUser_force kb add_diff_cancel_right' by (rule forceMapPage_ok [OF assms(1-3)])
  have g: "g < 65536" "g \<in> used_frames s" "no_table (pmem s) r g" "\<And>j. j < 4096 \<Longrightarrow> pbyte (pmem s) g j = c j"
    using assms(4) used_frame_bound by (auto simp: frame_holds_def)
  have d: "data_kept r s s'" "card (free_frames s) \<le> 3 + card (free_frames s')" using m by (simp_all add: mapped_def)
  then have "g \<in> used_frames s'" "no_table (pmem s') r g" "\<And>k. k < 512 \<Longrightarrow> pmem s' (slot g k) = pmem s (slot g k)"
    using g by (auto simp: data_kept_def)
  moreover have "pbyte (pmem s') g j = c j" if "j < 4096" for j
    using pbyte_slots [OF g(1) that, of "pmem s'" "pmem s"] calculation(3) g(4) that by simp
  ultimately show ?thesis using mapped_leaf [OF m] extends_mapped [OF m] d(2) by (simp add: holds_page_def)
qed

lemma store_char_ok:
  fixes c :: char
  assumes "vm_ok s" "wf_tree (pmem s) r (used_frames s)" "frame_holds r (text_bytes t) g s" "length t < 4096"
  defines "s' \<equiv> store_char (page_of g + KERNBASE + of_nat (length t)) c s"
  shows "frame_holds r (text_bytes (t @ [c])) g s' \<and> frame_write g s s' \<and> extends r {} {g} s s' \<and> free_frames s' = free_frames s"
proof -
  have g: "g < 65536" "g \<in> used_frames s" "no_table (pmem s) r g" "\<And>j. j < 4096 \<Longrightarrow> pbyte (pmem s) g j = text_bytes t j"
    using assms(3) used_frame_bound by (auto simp: frame_holds_def)
  have s': "s' = s\<lparr>pmem := put_byte (page_of g + of_nat (length t)) (of_char c) (pmem s)\<rparr>"
    by (simp add: s'_def store_char_def kernbase_ok [OF assms(1)] k2p_byte [OF g(1) assms(4)])
  have fw: "frame_write g s s'" unfolding s' by (rule frame_write_put [OF g(1) assms(4)])
  note E = extends_write [OF fw assms(1,2) g(3)]
  have "pbyte (pmem s') g j = text_bytes (t @ [c]) j" if "j < 4096" for j
    using pbyte_put [OF g(1) assms(4) that] g(4) [OF that] by (auto simp: s' text_bytes_def nth_append)
  with fw E g show ?thesis by (simp add: frame_holds_def used_frames_def)
qed

text \<open>Writes to one data frame of an address space.\<close>

definition written :: "u64 \<Rightarrow> nat \<Rightarrow> 'a phys_scheme \<Rightarrow> 'a phys_scheme \<Rightarrow> bool" where
  "written r g s s' \<longleftrightarrow> frame_write g s s' \<and> extends r {} {g} s s' \<and> free_frames s' = free_frames s"

lemma written_trans: "written r g s s' \<Longrightarrow> written r g s' s'' \<Longrightarrow> written r g s s''"
  unfolding written_def using frame_write_trans extends_trans [of r "{}" "{g}" s s' "{}" "{g}" s''] by auto

lemma written_ok: "written r g s s' \<Longrightarrow> vm_ok s'" "written r g s s' \<Longrightarrow> wf_tree (pmem s') r (used_frames s')"
  by (simp_all add: written_def extends_def)

lemma frame_holds_other:
  assumes "written r h s s'" and "frame_holds r c g s" and "g \<noteq> h" and "vm_ok s" "wf_tree (pmem s) r (used_frames s)" "no_table (pmem s) r h"
  shows "frame_holds r c g s'"
proof -
  have g: "g \<in> used_frames s" "g < 65536" "no_table (pmem s) r g" "\<forall>j < 4096. pbyte (pmem s) g j = c j"
    using assms(2) used_frame_bound by (auto simp: frame_holds_def)
  have W: "\<And>f k. f < 65536 \<Longrightarrow> f \<noteq> h \<Longrightarrow> k < 512 \<Longrightarrow> pmem s' (slot f k) = pmem s (slot f k)" and u: "used_frames s' = used_frames s"
    using assms(1) by (simp_all add: written_def frame_write_def used_frames_def)
  have "same_tree r (pmem s) (pmem s')" by (rule data_write_tree [OF assms(5,6) W])
  then have "no_table (pmem s') r g" using g(3) by (simp add: no_table_same)
  moreover have "pbyte (pmem s') g j = c j" if "j < 4096" for j
    using pbyte_slots [OF g(2) that, of "pmem s'" "pmem s"] W [OF g(2) assms(3)] g(4) that by simp
  ultimately show ?thesis using g(1) u by (simp add: frame_holds_def)
qed

lemma store_string_ok:
  assumes "vm_ok s" "wf_tree (pmem s) r (used_frames s)" "frame_holds r (text_bytes t) g s"
    and "length t + length cs \<le> Suc lim" "length t + length cs < 4096"
  shows "\<exists>s'. store_string lim (page_of g + KERNBASE) (length t) cs s = (length t + length cs, s') \<and>
    frame_holds r (text_bytes (t @ cs @ [CHR 0x00])) g s' \<and> written r g s s'"
  using assms
proof (induction cs arbitrary: t s)
  case Nil
  then show ?case using store_char_ok [of s r t g "CHR 0x00"] by (simp add: written_def)
next
  case (Cons a cs)
  let ?s = "store_char (page_of g + KERNBASE + of_nat (length t)) a s"
  have S: "frame_holds r (text_bytes (t @ [a])) g ?s" "written r g s ?s"
    using store_char_ok [of s r t g a] Cons.prems by (simp_all add: written_def)
  from Cons.IH [OF written_ok [OF S(2)] S(1)] Cons.prems obtain s' where
    "store_string lim (page_of g + KERNBASE) (length (t @ [a])) cs ?s = (length (t @ [a]) + length cs, s')"
    "frame_holds r (text_bytes ((t @ [a]) @ cs @ [CHR 0x00])) g s'" "written r g ?s s'" by auto
  with Cons.prems written_trans [OF S(2)] show ?case by (intro exI [of _ s']) simp
qed

section \<open>The environment\<close>

lemma fresh_frame:
  assumes "vm_ok s" "free_frames s \<noteq> {}" "wf_tree (pmem s) r (used_frames s)"
  shows "\<exists>g s'. g \<in> free_frames s \<and> kmalloc s = (page_of g + KERNBASE, s') \<and> frame_holds r (text_bytes []) g s' \<and>
    free_frames s' = free_frames s - {g} \<and> extends r {} {} s s' \<and> phys_only s s'"
proof -
  obtain p s' where k: "kmalloc s = (p, s')" by fastforce
  have "phys_only s s'" using phys_only_kmalloc [of s] k by simp
  with extends_kmalloc [OF assms k] k show ?thesis by (auto simp: frame_holds_def text_bytes_def)
qed

text \<open>A frame taken, filled with \<open>t\<close> and mapped at \<open>v\<close>.\<close>

lemma fill_page:
  fixes v :: u64
  assumes "vm_ok s" "wf_tree (pmem s) r (used_frames s)" "4 \<le> card (free_frames s)"
    and "kmalloc s = (p, s1)" and step: "\<And>g. p = page_of g + KERNBASE \<Longrightarrow> vm_ok s1 \<Longrightarrow> wf_tree (pmem s1) r (used_frames s1) \<Longrightarrow>
      frame_holds r (text_bytes []) g s1 \<Longrightarrow> written r g s1 s2 \<and> frame_holds r (text_bytes t) g s2"
  defines "s' \<equiv> mapPageForUser v (p - kernbase s2) (r + KERNBASE) s2"
  shows "\<exists>g \<in> free_frames s. p = page_of g + KERNBASE \<and> kernbase s2 = KERNBASE \<and> holds_page r v (text_bytes t) g s' \<and> extends r {v} {} s s' \<and> phys_only s s' \<and>
    card (free_frames s) \<le> card (free_frames s') + 4"
proof -
  have ne: "free_frames s \<noteq> {}" using assms(3) by auto
  obtain g where g: "g \<in> free_frames s" "p = page_of g + KERNBASE" "frame_holds r (text_bytes []) g s1"
    "free_frames s1 = free_frames s - {g}" "extends r {} {} s s1" "phys_only s s1"
    using fresh_frame [OF assms(1) ne assms(2)] assms(4) by auto
  have w: "written r g s1 s2" "frame_holds r (text_bytes t) g s2" using step [OF g(2) extends_ok(1,2) [OF g(5)] g(3)] by simp_all
  have f2: "free_frames s2 = free_frames s1" "extends r {} {g} s1 s2" "frame_write g s1 s2" using w(1) by (simp_all add: written_def)
  have c: "card (free_frames s) = Suc (card (free_frames s2))"
    using g(1) card_Suc_Diff1 [OF finite_free_frames g(1)] by (simp add: f2 g(4))
  then have "3 \<le> card (free_frames s2)" using assms(3) by simp
  have kb: "kernbase s2 = KERNBASE" by (rule kernbase_ok [OF written_ok(1) [OF w(1)]])
  from map_filled [OF written_ok [OF w(1)] \<open>3 \<le> card (free_frames s2)\<close> w(2), of v]
  have M: "holds_page r v (text_bytes t) g s' \<and> extends r {v} {} s2 s' \<and> card (free_frames s2) \<le> card (free_frames s') + 3"
    by (simp add: s'_def g(2) kb)
  have "extends r {v} {} s2 s'" using M by blast
  from extends_trans [OF f2(2) this] have "extends r {v} {g} s1 s'" by simp
  from extends_trans [OF g(5) this] g(1) have "extends r {v} {} s s'" by (simp add: used_frames_def)
  moreover have "phys_only s s'" unfolding s'_def
    using phys_only_trans [OF phys_only_trans [OF g(6) frame_write_phys [OF f2(3)]] phys_only_map] .
  ultimately show ?thesis using M g(1,2) c kb by auto
qed

lemma map_env_ok:
  assumes "vm_ok s" "wf_tree (pmem s) r (used_frames s)" "4 * length es \<le> card (free_frames s)"
    and "\<forall>e \<in> set es. length e \<le> 512" and "length es < 2 ^ 20"
  shows "\<exists>s'. map_env (r + KERNBASE) v es s = (page_addr v (length es), s') \<and>
    extends r (page_addr v ` {..<length es}) {} s s' \<and> phys_only s s' \<and>
    card (free_frames s) \<le> card (free_frames s') + 4 * length es \<and>
    (\<forall>j < length es. \<exists>g. g \<notin> used_frames s \<and> holds_page r (page_addr v j) (text_bytes (es ! j @ [CHR 0x00])) g s')"
  using assms
proof (induction es arbitrary: v s)
  case Nil
  then show ?case by (simp add: extends_refl)
next
  case (Cons e es)
  obtain p s1 where k: "kmalloc s = (p, s1)" by fastforce
  define s2 where "s2 = snd (store_string 511 p 0 e s1)"
  let ?s3 = "mapPageForUser v (p - kernbase s2) (r + KERNBASE) s2"
  have st: "written r g s1 s2 \<and> frame_holds r (text_bytes (e @ [CHR 0x00])) g s2"
    if "p = page_of g + KERNBASE" "vm_ok s1" "wf_tree (pmem s1) r (used_frames s1)" "frame_holds r (text_bytes []) g s1" for g
    using store_string_ok [OF that(2-4), of e 511] Cons.prems(4) by (auto simp: s2_def that(1))
  have c4: "4 \<le> card (free_frames s)" using Cons.prems(3) by simp
  from fill_page [OF Cons.prems(1,2) c4 k st, of v] obtain g where g:
    "g \<in> free_frames s" "holds_page r v (text_bytes (e @ [CHR 0x00])) g ?s3" "extends r {v} {} s ?s3" "phys_only s ?s3"
    "card (free_frames s) \<le> card (free_frames ?s3) + 4" by blast
  from Cons.IH [OF extends_ok(1,2) [OF g(3)], of "v + 0x1000"] Cons.prems(3-5) g(5) obtain s' where s':
    "map_env (r + KERNBASE) (v + 0x1000) es ?s3 = (page_addr v (Suc (length es)), s')"
    "extends r (page_addr (v + 0x1000) ` {..<length es}) {} ?s3 s'" "phys_only ?s3 s'"
    "card (free_frames ?s3) \<le> card (free_frames s') + 4 * length es"
    "\<And>j. j < length es \<Longrightarrow> \<exists>g. g \<notin> used_frames ?s3 \<and> holds_page r (page_addr v (Suc j)) (text_bytes (es ! j @ [CHR 0x00])) g s'"
    by (auto simp: page_addr_Suc)
  have V: "page_addr v ` {..<length (e # es)} = insert v (page_addr (v + 0x1000) ` {..<length es})"
    by (simp add: lessThan_Suc_eq_insert_0 image_image page_addr_Suc)
  have "extends r (page_addr v ` {..<length (e # es)}) {} s s'"
    using extends_same [OF g(3) s'(2)] unfolding V by simp
  have E: "extends r (page_addr v ` {..<length (e # es)}) {} s s'" by fact
  have "holds_page r (page_addr v 0) (text_bytes (e @ [CHR 0x00])) g s'"
  proof -
    have "\<not> same_page (page_addr v 0) (page_addr v (Suc j))" if "j < length es" for j
      by (subst same_page_addr) (use that Cons.prems(5) in simp_all)
    then have "\<not> same_page v x" if "x \<in> page_addr (v + 0x1000) ` {..<length es}" for x
      using that by (auto simp: page_addr_Suc)
    from extendsD [OF s'(2) g(2) _ this] show ?thesis by simp
  qed
  moreover have "g \<notin> used_frames s" "used_frames s \<subseteq> used_frames ?s3" using g(1) extends_ok(3) [OF g(3)] by (auto simp: used_frames_def)
  moreover have "\<exists>g. g \<notin> used_frames s \<and> holds_page r (page_addr v (Suc j)) (text_bytes (es ! j @ [CHR 0x00])) g s'"
    if "j < length es" for j using s'(5) [OF that] calculation(3) by (meson subsetD)
  ultimately have "\<exists>g. g \<notin> used_frames s \<and> holds_page r (page_addr v j) (text_bytes ((e # es) ! j @ [CHR 0x00])) g s'"
    if "j < length (e # es)" for j
    using that by (cases j) auto
  moreover have "map_env (r + KERNBASE) v (e # es) s = (page_addr v (length (e # es)), s')"
    using s'(1) by (simp add: k s2_def Let_def)
  ultimately show ?case
    using E g(5) s'(4) phys_only_trans [OF g(4) s'(3)] by (intro exI [of _ s']) simp
qed

text \<open>The slots of the pointers: 33, the lower ones filled.\<close>

definition env_words :: "nat \<Rightarrow> u64 list" where
  "env_words n = map (\<lambda>k. if 32 - n \<le> k then 0x322000 - 0x1000 * of_nat k else 0) [0..<33]"

lemma env_z:
  assumes "m \<le> 32"
  shows "(scast (0x322000 - 0x1000 * of_nat m :: i32) :: u64) = 0x322000 - 0x1000 * of_nat m"
proof -
  have "(0x322000 - 0x1000 * of_nat m :: i32) = of_nat (0x322000 - 0x1000 * m)"
    "(0x322000 - 0x1000 * of_nat m :: u64) = of_nat (0x322000 - 0x1000 * m)"
    using assms by (simp_all add: of_nat_diff)
  then show ?thesis
    by (simp add: signed_of_nat signed_take_bit_int_eq_self scast_eq del: of_nat_diff)
qed

lemma env_z_eq:
  assumes "n \<le> 32" "m \<le> 32"
  shows "(0x302000 + 0x1000 * of_nat n :: i32) = 0x322000 - 0x1000 * of_nat m \<longleftrightarrow> n + m = 32"
proof -
  have "(0x302000 + 0x1000 * of_nat n :: i32) = of_nat (0x302000 + 0x1000 * n)"
    "(0x322000 - 0x1000 * of_nat m :: i32) = of_nat (0x322000 - 0x1000 * m)"
    using assms by (simp_all add: of_nat_diff)
  moreover have "(of_nat a :: i32) = of_nat b \<longleftrightarrow> a = b" if "a < 2 ^ 32" "b < 2 ^ 32" for a b
    using that by (simp add: word_unat_eq_iff unat_of_nat take_bit_nat_eq_self)
  ultimately show ?thesis using assms by (simp del: of_nat_diff of_nat_add of_nat_mult) linarith
qed

lemma env_slot_steps:
  assumes "vm_ok s" "wf_tree (pmem s) r (used_frames s)" "arg_stack r A xs s" "length xs + 33 < 512" "n \<le> 32" "m \<le> 33"
  shows "\<exists>s'. fold (env_slot c) (take m env_zs) (stack_ptr A (length xs), 0x302000 + 0x1000 * of_nat n, s) =
      (stack_ptr A (length xs + m), if m \<le> 32 - n then 0x302000 + 0x1000 * of_nat n else 0x322000 - 0x1000 * of_nat m, s') \<and>
    arg_stack r A (xs @ take m (env_words n)) s' \<and> written r A s s'"
  using assms(6)
proof (induction m)
  case 0
  then show ?case using assms by (simp add: written_def extends_refl)
next
  case (Suc m)
  then obtain s' where s': "fold (env_slot c) (take m env_zs) (stack_ptr A (length xs), 0x302000 + 0x1000 * of_nat n, s) =
      (stack_ptr A (length xs + m), if m \<le> 32 - n then 0x302000 + 0x1000 * of_nat n else 0x322000 - 0x1000 * of_nat m, s')"
    "arg_stack r A (xs @ take m (env_words n)) s'" "written r A s s'" by auto
  have len: "length (xs @ take m (env_words n)) = length xs + m" using Suc.prems by (simp add: env_words_def)
  have t: "take (Suc m) env_zs = take m env_zs @ [0x322000 - 0x1000 * of_nat m]"
    "take (Suc m) (env_words n) = take m (env_words n) @ [if 32 - n \<le> m then 0x322000 - 0x1000 * of_nat m else 0]"
    using Suc.prems by (simp_all add: env_zs_def env_words_def take_Suc_conv_app_nth)
  define z :: i32 where "z = 0x322000 - 0x1000 * of_nat m"
  have sz: "(scast z :: u64) = 0x322000 - 0x1000 * of_nat m" using env_z [of m] Suc.prems by (simp add: z_def)
  have i: "(if m \<le> 32 - n then 0x302000 + 0x1000 * of_nat n else 0x322000 - 0x1000 * of_nat m) = z \<longleftrightarrow> 32 - n \<le> m"
    using env_z_eq [of n m] assms(5) Suc.prems by (auto simp: z_def)
  have ok: "vm_ok s'" "wf_tree (pmem s') r (used_frames s')" using written_ok [OF s'(3)] by simp_all
  define I :: i32 where "I = (if m \<le> 32 - n then 0x302000 + 0x1000 * of_nat n else 0x322000 - 0x1000 * of_nat m)"
  have f: "fold (env_slot c) (take (Suc m) env_zs) (stack_ptr A (length xs), 0x302000 + 0x1000 * of_nat n, s) =
      env_slot c z (stack_ptr A (length xs + m), I, s')"
    unfolding t z_def [symmetric] fold_append comp_apply s'(1) I_def by (simp only: fold_simps id_apply)
  have p: "stack_ptr A (length xs + m) - 8 = stack_ptr A (length xs + Suc m)" by simp
  show ?case
  proof (cases "32 - n \<le> m")
    case True
    let ?s = "pushSomeArgsToUser (stack_ptr A (length xs + m)) (scast z) c s'"
    have "arg_stack r A ((xs @ take m (env_words n)) @ [0x322000 - 0x1000 * of_nat m]) ?s \<and> written r A s' ?s"
      using push_arg [OF ok s'(2), of "scast z" c] assms(4) Suc.prems unfolding len sz by (simp add: written_def)
    moreover have "I = z" using i True unfolding I_def by blast
    moreover have "z - 0x1000 = 0x322000 - 0x1000 * of_nat (Suc m)" by (simp add: z_def algebra_simps)
    ultimately show ?thesis
      using True written_trans [OF s'(3), of ?s] unfolding f unfolding t(2) env_slot_def prod.case p
      by (intro exI [of _ ?s]) simp
  next
    case False
    then have "I \<noteq> z" "I = 0x302000 + 0x1000 * of_nat n" "Suc m \<le> 32 - n" using i unfolding I_def by auto
    then show ?thesis
      using False s'(3) skip_arg [OF s'(2)] unfolding f unfolding t(2) env_slot_def prod.case p
      by (intro exI [of _ s']) simp
  qed
qed

section \<open>The arguments\<close>

definition packed :: "string list \<Rightarrow> string" where
  "packed as = concat (map (\<lambda>a. a @ [CHR 0x00]) as)"

fun arg_ptrs :: "nat \<Rightarrow> string list \<Rightarrow> u64 list" where
  "arg_ptrs k [] = []"
| "arg_ptrs k (a # as) = (ARGS_STRINGS + of_nat k) # arg_ptrs (k + length a + 1) as"

lemma length_arg_ptrs [simp]: "length (arg_ptrs k as) = length as"
  by (induction as arbitrary: k) auto

lemma extends_frames: "extends r V F s s' \<Longrightarrow> F \<subseteq> F' \<Longrightarrow> extends r V F' s s'"
  unfolding extends_def by blast

lemma push_args_ok:
  assumes "vm_ok s" "wf_tree (pmem s) r (used_frames s)" "arg_stack r A xs s" "frame_holds r (text_bytes t) N s" "A \<noteq> N"
    and "length xs + length as < 512" and "length t + length (packed as) \<le> 512"
  shows "\<exists>s'. push_args c (page_of N + KERNBASE) (length t) as (stack_ptr A (length xs)) s = (stack_ptr A (length xs + length as), s') \<and>
    arg_stack r A (xs @ arg_ptrs (length t) as) s' \<and> frame_holds r (text_bytes (t @ packed as)) N s' \<and>
    extends r {} {A, N} s s' \<and> free_frames s' = free_frames s \<and> phys_only s s'"
  using assms
proof (induction as arbitrary: xs t s)
  case Nil
  then show ?case by (simp add: packed_def extends_refl)
next
  case (Cons a as)
  let ?x = "ARGS_STRINGS + of_nat (length t)"
  define s1 where "s1 = pushSomeArgsToUser (stack_ptr A (length xs)) ?x c s"
  have p: "arg_stack r A (xs @ [?x]) s1" "written r A s s1"
    using push_arg [OF Cons.prems(1-3), of ?x c] Cons.prems(6) by (simp_all add: s1_def written_def)
  note ok1 = written_ok [OF p(2)]
  have nA: "no_table (pmem s) r A" using Cons.prems(3) by (simp add: arg_stack_def holds_page_def)
  have n1: "frame_holds r (text_bytes t) N s1"
    by (rule frame_holds_other [OF p(2) Cons.prems(4) _ Cons.prems(1,2) nA]) (use Cons.prems(5) in simp)
  have la: "length t + length a \<le> Suc 510" "length t + length a < 4096" using Cons.prems(7) by (simp_all add: packed_def)
  from store_string_ok [OF ok1 n1 la] obtain s2 where s2:
    "store_string 510 (page_of N + KERNBASE) (length t) a s1 = (length t + length a, s2)"
    "frame_holds r (text_bytes (t @ a @ [CHR 0x00])) N s2" "written r N s1 s2" by blast
  have w: "extends r {} {A} s s1" "extends r {} {N} s1 s2" "free_frames s2 = free_frames s" "frame_write A s s1" "frame_write N s1 s2"
    using p(2) s2(3) by (simp_all add: written_def)
  have st2: "arg_stack r A (xs @ [?x]) s2" by (rule extends_stack [OF w(2) p(1)]) (use Cons.prems(5) in simp_all)
  from Cons.IH [OF written_ok [OF s2(3)] st2 s2(2) Cons.prems(5)] Cons.prems(6,7) obtain s' where s':
    "push_args c (page_of N + KERNBASE) (length (t @ a @ [CHR 0x00])) as (stack_ptr A (length (xs @ [?x]))) s2 =
      (stack_ptr A (length (xs @ [?x]) + length as), s')"
    "arg_stack r A ((xs @ [?x]) @ arg_ptrs (length (t @ a @ [CHR 0x00])) as) s'"
    "frame_holds r (text_bytes ((t @ a @ [CHR 0x00]) @ packed as)) N s'"
    "extends r {} {A, N} s2 s'" "free_frames s' = free_frames s2" "phys_only s2 s'" by (auto simp: packed_def)
  have "push_args c (page_of N + KERNBASE) (length t) (a # as) (stack_ptr A (length xs)) s =
      push_args c (page_of N + KERNBASE) (length (t @ a @ [CHR 0x00])) as (stack_ptr A (length (xs @ [?x]))) s2"
    using s2(1) by (simp add: s1_def add.commute)
  moreover have "extends r {} {A, N} s s2"
    using extends_same [OF extends_frames [OF w(1)] extends_frames [OF w(2)], of "{A, N}"] by simp
  with s'(4) have "extends r {} {A, N} s s'" using extends_same by fastforce
  moreover have "phys_only s s'"
    using phys_only_trans [OF phys_only_trans [OF frame_write_phys [OF w(4)] frame_write_phys [OF w(5)]] s'(6)] .
  moreover have "t @ packed (a # as) = (t @ a @ [CHR 0x00]) @ packed as" by (simp add: packed_def)
  moreover have "xs @ arg_ptrs (length t) (a # as) = (xs @ [?x]) @ arg_ptrs (length (t @ a @ [CHR 0x00])) as" by simp
  ultimately show ?case using s'(1-3,5) w(3) by (intro exI [of _ s']) simp
qed

definition arg_words :: "string list \<Rightarrow> nat \<Rightarrow> u64 list" where
  "arg_words args n = [0] @ env_words n @ [0] @ arg_ptrs 0 (rev args) @ [of_nat (length args)]"

text \<open>The pages of the arguments and of the environment, and their contents, in frames outside \<open>U\<close>.\<close>

definition arg_pages :: "nat \<Rightarrow> u64 set" where
  "arg_pages n = page_addr ARGS_STACK ` {..<n + 3}"

definition args_laid_out :: "u64 \<Rightarrow> nat set \<Rightarrow> string list \<Rightarrow> string list \<Rightarrow> 'a phys_scheme \<Rightarrow> bool" where
  "args_laid_out r U args envp s \<longleftrightarrow> (\<exists>A. A \<notin> U \<and> arg_stack r A (arg_words args (length envp)) s) \<and>
     (\<exists>N. N \<notin> U \<and> holds_page r ARGS_STRINGS (text_bytes (packed (rev args))) N s) \<and>
     (\<forall>j \<le> length envp. \<exists>g. g \<notin> U \<and> holds_page r (page_addr ENV_START j) (text_bytes ((envp @ [[]]) ! j @ [CHR 0x00])) g s)"

lemma env_addr: "page_addr ENV_START j = page_addr ARGS_STACK (j + 2)"
  by (simp add: page_addr_def algebra_simps)

lemma env_index:
  assumes "n \<le> 32"
  shows "(ucast (page_addr ENV_START n) :: i32) = 0x302000 + 0x1000 * of_nat n"
proof -
  have "page_addr ENV_START n = of_nat (0x302000 + 4096 * n)" by (simp add: page_addr_def)
  moreover have "(0x302000 + 0x1000 * of_nat n :: i32) = of_nat (0x302000 + 4096 * n)" by simp
  moreover have "(ucast (of_nat m :: u64) :: i32) = of_nat m" if "m < 2 ^ 32" for m
    using that by (simp add: unsigned_of_nat take_bit_nat_eq_self)
  from this [of "0x302000 + 4096 * n"] have "(ucast (of_nat (0x302000 + 4096 * n) :: u64) :: i32) = of_nat (0x302000 + 4096 * n)"
    using assms by simp
  ultimately show ?thesis by (simp only:)
qed

lemma build_env_ok:
  fixes s :: "'a phys_scheme"
  assumes ok: "vm_ok s" and wf: "wf_tree (pmem s) r (used_frames s)" and c: "4 * length envp + 8 \<le> card (free_frames s)"
    and n: "length envp \<le> 32" and e: "\<forall>e \<in> set envp. length e \<le> 512"
  shows "\<exists>A s'. build_env envp r s = (stack_ptr A 0, page_addr ENV_START (length envp), s') \<and> A \<in> free_frames s \<and>
    arg_stack r A [0] s' \<and> extends r (page_addr ARGS_STACK ` ({..<length envp + 3} - {1})) {} s s' \<and> phys_only s s' \<and>
    card (free_frames s) \<le> card (free_frames s') + 4 * length envp + 8 \<and>
    (\<forall>j \<le> length envp. \<exists>g. g \<noteq> A \<and> g \<notin> used_frames s \<and> holds_page r (page_addr ENV_START j) (text_bytes ((envp @ [[]]) ! j @ [CHR 0x00])) g s')"
proof -
  let ?n = "length envp"
  obtain p s1 where k1: "kmalloc s = (p, s1)" by fastforce
  define s2 where "s2 = mapPageForUser ARGS_STACK (p - kernbase s1) (r + KERNBASE) s1"
  have "written r g s1 s1 \<and> frame_holds r (text_bytes []) g s1"
    if "p = page_of g + KERNBASE" "vm_ok s1" "wf_tree (pmem s1) r (used_frames s1)" "frame_holds r (text_bytes []) g s1" for g
    using that by (simp add: written_def extends_refl)
  from fill_page [OF ok wf _ k1 this, of ARGS_STACK, folded s2_def] c obtain A where A: "A \<in> free_frames s" "p = page_of A + KERNBASE"
    "kernbase s1 = KERNBASE" "holds_page r ARGS_STACK (text_bytes []) A s2" "extends r {ARGS_STACK} {} s s2" "phys_only s s2"
    "card (free_frames s) \<le> card (free_frames s2) + 4" by auto
  have "arg_stack r A [] s2"
    using A(4) by (simp add: arg_stack_def holds_page_def text_bytes_def word_byte_def stacked_def)
  define s3 where "s3 = pushSomeArgsToUser (stack_ptr A 0) NULL r s2"
  have st3: "arg_stack r A [0] s3" and w3: "written r A s2 s3"
    using push_arg [OF extends_ok(1,2) [OF A(5)] \<open>arg_stack r A [] s2\<close>, of NULL r] by (simp_all add: s3_def written_def)
  have f3: "free_frames s3 = free_frames s2" "frame_write A s2 s3" "extends r {} {A} s2 s3" using w3 by (simp_all add: written_def)
  obtain s4 where s4: "map_env (r + KERNBASE) ENV_START envp s3 = (page_addr ENV_START ?n, s4)"
    "extends r (page_addr ENV_START ` {..<?n}) {} s3 s4" "phys_only s3 s4"
    "card (free_frames s3) \<le> card (free_frames s4) + 4 * ?n"
    "\<And>j. j < ?n \<Longrightarrow> \<exists>g. g \<notin> used_frames s3 \<and> holds_page r (page_addr ENV_START j) (text_bytes (envp ! j @ [CHR 0x00])) g s4"
    using map_env_ok [OF written_ok [OF w3], of envp ENV_START] e n c A(7) f3(1) by auto
  obtain q s5 where k5: "kmalloc s4 = (q, s5)" by fastforce
  define s6 where "s6 = store_char q CHR 0x00 s5"
  define s7 where "s7 = mapPageForUser (page_addr ENV_START ?n) (q - kernbase s6) (r + KERNBASE) s6"
  have "written r g s5 s6 \<and> frame_holds r (text_bytes [CHR 0x00]) g s6"
    if "q = page_of g + KERNBASE" "vm_ok s5" "wf_tree (pmem s5) r (used_frames s5)" "frame_holds r (text_bytes []) g s5" for g
    using store_char_ok [OF that(2-4), of "CHR 0x00"] by (simp add: s6_def that(1) written_def)
  from fill_page [OF extends_ok(1,2) [OF s4(2)] _ k5 this, of "page_addr ENV_START ?n", folded s7_def] c A(7) f3(1) s4(4)
  obtain G where G: "G \<in> free_frames s4" "kernbase s6 = KERNBASE" "holds_page r (page_addr ENV_START ?n) (text_bytes [CHR 0x00]) G s7"
    "extends r {page_addr ENV_START ?n} {} s4 s7" "phys_only s4 s7" "card (free_frames s4) \<le> card (free_frames s7) + 4" by auto
  have run: "build_env envp r s = (stack_ptr A 0, page_addr ENV_START ?n, s7)"
  proof -
    have "kernbase s3 = KERNBASE" by (rule kernbase_ok [OF written_ok(1) [OF w3]])
    then show ?thesis
      using s4(1) G(2) by (simp add: build_env_def k1 A(2,3) k5 s2_def s3_def s6_def s7_def Let_def)
  qed
  have Au: "A \<notin> used_frames s" "A \<in> used_frames s2" "used_frames s3 = used_frames s2"
    using A(1,4) f3(1) by (auto simp: used_frames_def holds_page_def)
  have sub: "used_frames s \<subseteq> used_frames s3" using extends_ok(3) [OF A(5)] Au(3) by simp
  have env: "\<not> same_page (page_addr ARGS_STACK i) (page_addr ENV_START j)" if "i < j + 2" "j \<le> 32" for i j
    unfolding env_addr by (subst same_page_addr) (use that in simp_all)
  have st: "arg_stack r A [0] s4" using extends_stack [OF s4(2) st3] env [of 0] n by fastforce
  have st7: "arg_stack r A [0] s7" using extends_stack [OF G(4) st] env [of 0 ?n] n by fastforce
  have "extends r {ARGS_STACK} {} s s3" using extends_trans [OF A(5) f3(3)] Au(1) by simp
  from extends_same [OF extends_same [OF this s4(2)] G(4)]
  have "extends r (page_addr ARGS_STACK ` ({..<?n + 3} - {1})) {} s s7"
  proof (rule extends_mono)
    have "ARGS_STACK = page_addr ARGS_STACK 0" by simp
    then show "{ARGS_STACK} \<union> page_addr ENV_START ` {..<?n} \<union> {page_addr ENV_START ?n} \<subseteq> page_addr ARGS_STACK ` ({..<?n + 3} - {1})"
      unfolding env_addr by (auto intro!: image_eqI)
  qed
  moreover have "\<exists>g. g \<noteq> A \<and> g \<notin> used_frames s \<and>
      holds_page r (page_addr ENV_START j) (text_bytes ((envp @ [[]]) ! j @ [CHR 0x00])) g s7" if j: "j \<le> ?n" for j
  proof (cases "j = ?n")
    case True
    have "G \<notin> used_frames s4" using G(1) by (auto simp: used_frames_def)
    then have "G \<noteq> A" "G \<notin> used_frames s" using Au(2,3) sub extends_ok(3) [OF s4(2)] by blast+
    with G(3) True show ?thesis by auto
  next
    case False
    with j have lt: "j < ?n" by simp
    with s4(5) obtain g where g: "g \<notin> used_frames s3" "holds_page r (page_addr ENV_START j) (text_bytes (envp ! j @ [CHR 0x00])) g s4" by blast
    have "holds_page r (page_addr ENV_START j) (text_bytes (envp ! j @ [CHR 0x00])) g s7"
      by (rule extendsD [OF G(4) g(2)]) (use env [of "j + 2" ?n] lt n in \<open>auto simp: env_addr\<close>)
    moreover have "g \<noteq> A" "g \<notin> used_frames s" using g(1) Au(2,3) sub by blast+
    ultimately show ?thesis using lt by (auto simp: nth_append)
  qed
  moreover have "phys_only s s7"
    using phys_only_trans [OF phys_only_trans [OF phys_only_trans [OF A(6) frame_write_phys [OF f3(2)]] s4(3)] G(5)] .
  ultimately show ?thesis using run A(1,7) st7 f3(1) s4(4) G(6) by (intro exI [of _ A] exI [of _ s7]) simp
qed

lemma length_packed_rev: "length (packed (rev as)) = length (packed as)"
  unfolding packed_def length_concat by (simp add: rev_map [symmetric] del: length_append)

lemma length_arg_words [simp]: "length ([0] @ env_words n @ [0]) = 35"
  by (simp add: env_words_def)

lemma env_slot_all:
  assumes "vm_ok s" "wf_tree (pmem s) r (used_frames s)" "arg_stack r A [0] s" "n \<le> 32"
  shows "\<exists>i s'. fold (env_slot c) env_zs (stack_ptr A 1, 0x302000 + 0x1000 * of_nat n, s) = (stack_ptr A 34, i, s') \<and>
    arg_stack r A ([0] @ env_words n) s' \<and> written r A s s'"
proof -
  have t: "take 33 env_zs = env_zs" "take 33 (env_words n) = env_words n" "length [0 :: u64] = 1" "1 + 33 = (34 :: nat)"
    by (simp_all add: env_zs_def env_words_def)
  have "length [0 :: u64] + 33 < 512" by simp
  from env_slot_steps [OF assms(1-3) this assms(4), of 33 c] show ?thesis unfolding t by blast
qed

lemma arg_page_addr: "ARGS_STACK = page_addr ARGS_STACK 0" "ARGS_STRINGS = page_addr ARGS_STACK 1"
  by (simp_all add: page_addr_def)

lemma place_args:
  fixes s :: "'a phys_scheme"
  assumes ok: "vm_ok s" and wf: "wf_tree (pmem s) r (used_frames s)" and c: "4 \<le> card (free_frames s)"
    and st: "arg_stack r A xs s" "length xs + length as < 512" "length (packed as) \<le> 512"
  shows "\<exists>p s1 s2 s'. kmalloc s = (p, s1) \<and> push_args c p 0 as (stack_ptr A (length xs)) s1 = (stack_ptr A (length xs + length as), s2) \<and>
    s' = mapPageForUser ARGS_STRINGS (p - kernbase s2) (r + kernbase s2) s2 \<and> arg_stack r A (xs @ arg_ptrs 0 as) s' \<and>
    (\<exists>N. N \<noteq> A \<and> N \<notin> used_frames s \<and> holds_page r ARGS_STRINGS (text_bytes (packed as)) N s') \<and> extends r {ARGS_STRINGS} {A} s s' \<and>
    phys_only s s' \<and> card (free_frames s) \<le> card (free_frames s') + 4"
proof -
  have "free_frames s \<noteq> {}" using c by auto
  from fresh_frame [OF ok this wf] obtain N s1 where N: "N \<in> free_frames s"
    "kmalloc s = (page_of N + KERNBASE, s1)" "frame_holds r (text_bytes []) N s1" "free_frames s1 = free_frames s - {N}"
    "extends r {} {} s s1" "phys_only s s1" by blast
  have Nu: "N \<notin> used_frames s" using N(1) by (simp add: used_frames_def)
  have AN: "A \<noteq> N" using st(1) N(1) by (auto simp: arg_stack_def holds_page_def used_frames_def)
  have l: "length [] + length (packed as) \<le> 512" using st(3) by simp
  from push_args_ok [OF extends_ok(1,2) [OF N(5)] extends_stack [OF N(5) st(1)] N(3) AN st(2) l, of c] obtain s2 where s2:
    "push_args c (page_of N + KERNBASE) 0 as (stack_ptr A (length xs)) s1 = (stack_ptr A (length xs + length as), s2)"
    "arg_stack r A (xs @ arg_ptrs 0 as) s2" "frame_holds r (text_bytes (packed as)) N s2" "extends r {} {A, N} s1 s2"
    "free_frames s2 = free_frames s1" "phys_only s1 s2" by auto
  have c2: "card (free_frames s) = Suc (card (free_frames s2))"
    using card_Suc_Diff1 [OF finite_free_frames N(1)] by (simp add: N(4) s2(5))
  define s' where "s' = mapPageForUser ARGS_STRINGS (page_of N + KERNBASE - kernbase s2) (r + kernbase s2) s2"
  have s': "holds_page r ARGS_STRINGS (text_bytes (packed as)) N s'" "extends r {ARGS_STRINGS} {} s2 s'"
    "card (free_frames s2) \<le> card (free_frames s') + 3"
    using map_filled [OF extends_ok(1,2) [OF s2(4)] _ s2(3), of ARGS_STRINGS] c c2 by (simp_all add: s'_def)
  have "\<not> same_page ARGS_STACK ARGS_STRINGS" unfolding arg_page_addr(2) by (subst (1) arg_page_addr(1), subst same_page_addr) simp_all
  then have st': "arg_stack r A (xs @ arg_ptrs 0 as) s'" using extends_stack [OF s'(2) s2(2)] by auto
  have "extends r {} {A} s s2"
    using extends_trans [OF extends_frames [OF N(5)] s2(4)] N(1) by (auto simp: used_frames_def)
  from extends_trans [OF this s'(2)] have E: "extends r {ARGS_STRINGS} {A} s s'" by simp
  have P: "phys_only s s'"
    unfolding s'_def using phys_only_trans [OF phys_only_trans [OF N(6) s2(6)] phys_only_map] .
  have C: "card (free_frames s) \<le> card (free_frames s') + 4" using c2 s'(3) by simp
  show ?thesis
    by (intro exI conjI, rule N(2), rule s2(1), rule s'_def, rule st', rule AN [symmetric], rule Nu, rule s'(1), rule E, rule P, rule C)
qed

lemma build_args_ok:
  fixes s :: "'a phys_scheme"
  assumes ok: "vm_ok s" and wf: "wf_tree (pmem s) r (used_frames s)" and c: "4 * length envp + 12 \<le> card (free_frames s)"
    and n: "length envp \<le> 32" and e: "\<forall>e \<in> set envp. length e \<le> 512"
    and a: "length args \<le> 400" "length (packed args) \<le> 512"
  shows "\<exists>s'. build_args args envp r s = (ARGS_STRINGS - 8 * of_nat (length args + 36) - 8, s') \<and>
    args_laid_out r (used_frames s) args envp s' \<and> extends r (arg_pages (length envp)) {} s s' \<and> phys_only s s' \<and>
    card (free_frames s) \<le> card (free_frames s') + 4 * length envp + 12"
proof -
  let ?n = "length envp"
  obtain A s1 where B: "build_env envp r s = (stack_ptr A 0, page_addr ENV_START ?n, s1)" "A \<in> free_frames s" "arg_stack r A [0] s1"
    "extends r (page_addr ARGS_STACK ` ({..<?n + 3} - {1})) {} s s1" "phys_only s s1"
    "card (free_frames s) \<le> card (free_frames s1) + 4 * ?n + 8"
    "\<And>j. j \<le> ?n \<Longrightarrow> \<exists>g. g \<noteq> A \<and> g \<notin> used_frames s \<and> holds_page r (page_addr ENV_START j) (text_bytes ((envp @ [[]]) ! j @ [CHR 0x00])) g s1"
    using build_env_ok [OF ok wf _ n e] c by auto
  note ok1 = extends_ok(1,2) [OF B(4)]
  obtain i s2 where s2: "fold (env_slot r) env_zs (stack_ptr A 1, 0x302000 + 0x1000 * of_nat ?n, s1) = (stack_ptr A 34, i, s2)"
    "arg_stack r A ([0] @ env_words ?n) s2" "written r A s1 s2"
    using env_slot_all [OF ok1 B(3) n] by blast
  define s3 where "s3 = pushSomeArgsToUser (stack_ptr A 34) NULL r s2"
  have s3: "arg_stack r A ([0] @ env_words ?n @ [0]) s3" "written r A s2 s3"
    using push_arg [OF written_ok [OF s2(3)] s2(2), of NULL r] by (simp_all add: s3_def written_def env_words_def)
  note w13 = written_trans [OF s2(3) s3(2)]
  have f3: "free_frames s3 = free_frames s1" "extends r {} {A} s1 s3" "frame_write A s1 s3" using w13 by (simp_all add: written_def)
  let ?as = "rev args" and ?xs = "[0] @ env_words ?n @ [0]"
  have ls: "length ?xs + length ?as < 512" "length (packed ?as) \<le> 512"
    using a by (simp_all add: env_words_def length_packed_rev)
  have c3: "4 \<le> card (free_frames s3)" using c B(6) f3(1) by auto
  from place_args [OF written_ok [OF w13] c3 s3(1) ls, of r] obtain p s4 s5 s6 N where s6: "kmalloc s3 = (p, s4)"
    "push_args r p 0 ?as (stack_ptr A 35) s4 = (stack_ptr A (35 + length args), s5)"
    "s6 = mapPageForUser ARGS_STRINGS (p - kernbase s5) (r + kernbase s5) s5" "arg_stack r A (?xs @ arg_ptrs 0 ?as) s6"
    "N \<noteq> A" "N \<notin> used_frames s3" "holds_page r ARGS_STRINGS (text_bytes (packed ?as)) N s6" "extends r {ARGS_STRINGS} {A} s3 s6" "phys_only s3 s6"
    "card (free_frames s3) \<le> card (free_frames s6) + 4" unfolding length_arg_words length_rev by blast
  define s7 where "s7 = pushSomeArgsToUser (stack_ptr A (35 + length args)) (of_nat (length args)) r s6"
  have s7: "arg_stack r A (arg_words args ?n) s7" "written r A s6 s7"
    using push_arg [OF extends_ok(1,2) [OF s6(8)] s6(4), of "of_nat (length args)" r] ls(1)
    by (simp_all add: s7_def written_def arg_words_def env_words_def)
  have ex: "extends r {} {A} s6 s7" "free_frames s7 = free_frames s6" "frame_write A s6 s7" using s7(2) by (simp_all add: written_def)
  have Au: "A \<notin> used_frames s" using B(2) by (auto simp: used_frames_def)
  from extends_same [OF extends_same [OF f3(2) s6(8)] ex(1)] have E: "extends r {ARGS_STRINGS} {A} s1 s7" by simp
  have sp: "stack_ptr A 0 - 8 = stack_ptr A 1" "stack_ptr A 34 - 8 = stack_ptr A 35" "stack_ptr A 0 = page_of A + KERNBASE + 0x1000"
    "ARGS_STRINGS - (stack_ptr A 0 - (stack_ptr A (35 + length args) - 8)) - 8 = ARGS_STRINGS - 8 * of_nat (length args + 36) - 8"
    by (simp_all add: algebra_simps)
  have "build_args args envp r s = (ARGS_STRINGS - (stack_ptr A 0 - (stack_ptr A (35 + length args) - 8)) - 8, s7)"
    unfolding build_args_def B(1) prod.case env_index [OF n] sp(1) s2(1) s3_def [symmetric] Let_def s6(1) prod.case sp(2) s6(2)
      s6(3) [symmetric] s7_def [symmetric] ..
  moreover have "args_laid_out r (used_frames s) args envp s7"
    unfolding args_laid_out_def
  proof (intro conjI allI impI)
    show "\<exists>A. A \<notin> used_frames s \<and> arg_stack r A (arg_words args ?n) s7" using s7(1) Au by blast
    have "holds_page r ARGS_STRINGS (text_bytes (packed ?as)) N s7" by (rule extendsD [OF ex(1) s6(7)]) (use s6(5) in auto)
    moreover have "N \<notin> used_frames s" using s6(6) extends_ok(3) [OF B(4)] extends_ok(3) [OF f3(2)] by blast
    ultimately show "\<exists>N. N \<notin> used_frames s \<and> holds_page r ARGS_STRINGS (text_bytes (packed ?as)) N s7" by blast
    fix j assume j: "j \<le> ?n"
    with B(7) obtain g where g: "g \<noteq> A" "g \<notin> used_frames s" "holds_page r (page_addr ENV_START j) (text_bytes ((envp @ [[]]) ! j @ [CHR 0x00])) g s1" by blast
    have "\<not> same_page (page_addr ENV_START j) ARGS_STRINGS"
      unfolding env_addr arg_page_addr(2) by (subst same_page_addr) (use j n in simp_all)
    with g(1) have "holds_page r (page_addr ENV_START j) (text_bytes ((envp @ [[]]) ! j @ [CHR 0x00])) g s7"
      by (intro extendsD [OF E g(3)]) auto
    with g(2) show "\<exists>g. g \<notin> used_frames s \<and> holds_page r (page_addr ENV_START j) (text_bytes ((envp @ [[]]) ! j @ [CHR 0x00])) g s7" by blast
  qed
  moreover have "extends r (arg_pages ?n) {} s s7"
  proof (rule extends_mono)
    show "extends r (page_addr ARGS_STACK ` ({..<?n + 3} - {1}) \<union> {ARGS_STRINGS}) {} s s7"
      by (rule extends_trans [OF B(4) E]) (use Au in auto)
    show "page_addr ARGS_STACK ` ({..<?n + 3} - {1}) \<union> {ARGS_STRINGS} \<subseteq> arg_pages ?n"
      unfolding arg_page_addr(2) arg_pages_def by auto
  qed
  moreover have "phys_only s s7"
    using phys_only_trans [OF phys_only_trans [OF phys_only_trans [OF B(5) frame_write_phys [OF f3(3)]] s6(9)] frame_write_phys [OF ex(3)]] .
  ultimately show ?thesis unfolding sp(4) using B(6) f3(1) s6(10) ex(2) by (intro exI [of _ s7]) simp
qed

section \<open>What the program finds\<close>

text \<open>The string at an address of the program.\<close>

definition user_text :: "u64 \<Rightarrow> 'a phys_scheme \<Rightarrow> u64 \<Rightarrow> string \<Rightarrow> bool" where
  "user_text r s a t \<longleftrightarrow> (\<forall>j < length t. user_byte r s (a + of_nat j) = of_char (t ! j)) \<and> user_byte r s (a + of_nat (length t)) = 0"

lemma page_text:
  assumes "vm_ok s" "wf_tree (pmem s) r (used_frames s)" "v AND 0xFFF = 0" "holds_page r v (text_bytes (p @ t @ CHR 0x00 # q)) g s"
    and "length p + length t < 4096"
  shows "user_text r s (v + of_nat (length p)) t"
proof -
  have "user_byte r s (v + of_nat (length p) + of_nat j) = text_bytes (p @ t @ CHR 0x00 # q) (length p + j)" if "j \<le> length t" for j
    using page_byte_read [OF assms(1-4), of "length p + j"] that assms(5) by (simp add: add.assoc)
  then show ?thesis by (simp add: user_text_def text_bytes_def nth_append)
qed

lemma arg_word:
  assumes "vm_ok s" "wf_tree (pmem s) r (used_frames s)" "arg_stack r A ws s" "m < length ws" "length ws \<le> 512"
  shows "user_word r s (ARGS_STRINGS - 8 * of_nat (m + 1)) = ws ! m"
proof -
  have a: "ARGS_STACK AND 0xFFF = 0" by simp
  have k: "511 - m < 512" "ARGS_STACK + of_nat (8 * (511 - m)) < KERNBASE"
  proof -
    have "unat (of_nat x :: u64) = x" if "x < 2 ^ 64" for x
      using that by (simp add: unat_of_nat take_bit_nat_eq_self)
    from this [of "0x300000 + 8 * (511 - m)"] have "unat (of_nat (0x300000 + 8 * (511 - m)) :: u64) = 0x300000 + 8 * (511 - m)"
      by simp
    then show "ARGS_STACK + of_nat (8 * (511 - m)) < KERNBASE" by (simp add: word_less_nat_alt unat_KERNBASE)
  qed simp
  have "ARGS_STRINGS - 8 * of_nat (m + 1) = ARGS_STACK + of_nat (8 * (511 - m))"
    using assms(4,5) by (simp add: of_nat_diff algebra_simps)
  moreover have "stacked ws (511 - m) = ws ! m" using assms(4,5) by (simp add: stacked_def)
  ultimately show ?thesis
    using page_word_read [OF assms(1,2) a assms(3) [unfolded arg_stack_def] k] by (simp only:)
qed

lemma arg_ptrs_nth:
  "i < length as \<Longrightarrow> arg_ptrs k as ! i = ARGS_STRINGS + of_nat (k + length (packed (take i as)))"
  by (induction k as arbitrary: i rule: arg_ptrs.induct) (auto simp: packed_def nth_Cons split: nat.split)

lemma packed_split: "i < length as \<Longrightarrow> packed as = packed (take i as) @ as ! i @ CHR 0x00 # packed (drop (Suc i) as)"
  by (subst id_take_nth_drop [of i as]) (simp_all add: packed_def)

lemma arg_words_nth:
  assumes "n \<le> 32"
  shows "length (arg_words args n) = length args + 36" "arg_words args n ! (length args + 35) = of_nat (length args)"
    "i < length args \<Longrightarrow> arg_words args n ! (length args + 34 - i) = ARGS_STRINGS + of_nat (length (packed (rev (drop (Suc i) args))))"
    "arg_words args n ! 34 = 0" "j \<le> n \<Longrightarrow> arg_words args n ! (33 - j) = page_addr ENV_START j" "arg_words args n ! (32 - n) = 0"
proof -
  let ?w = "env_words n" and ?p = "arg_ptrs 0 (rev args)"
  have l: "length ?w = 33" by (simp add: env_words_def)
  have e: "arg_words args n = [0] @ ?w @ [0] @ ?p @ [of_nat (length args)]" by (simp add: arg_words_def)
  show "length (arg_words args n) = length args + 36" "arg_words args n ! (length args + 35) = of_nat (length args)"
    "arg_words args n ! 34 = 0" by (simp_all add: e l nth_append)
  have W: "?w ! k = (if 32 - n \<le> k then 0x322000 - 0x1000 * of_nat k else 0)" if "k < 33" for k
    using that by (simp add: env_words_def)
  show "arg_words args n ! (33 - j) = page_addr ENV_START j" if "j \<le> n"
  proof -
    have "33 - j = Suc (32 - j)" "32 - j < 33" using that assms by simp_all
    then have "arg_words args n ! (33 - j) = ?w ! (32 - j)" by (simp add: e l nth_append)
    moreover have "32 - n \<le> 32 - j" using that by simp
    ultimately show ?thesis using that assms by (simp add: W page_addr_def of_nat_diff algebra_simps)
  qed
  show "arg_words args n ! (32 - n) = 0"
  proof (cases "n = 32")
    case False
    then have "32 - n = Suc (31 - n)" "31 - n < 33" using assms by simp_all
    then show ?thesis using False assms by (simp add: e l nth_append W)
  qed (subst e, simp)
  assume i: "i < length args"
  have "arg_words args n ! (35 + m) = ?p ! m" if "m < length args" for m using that by (simp add: e l nth_append)
  moreover have "length args + 34 - i = 35 + (length args - Suc i)" using i by simp
  ultimately have "arg_words args n ! (length args + 34 - i) = ?p ! (length args - Suc i)" using i by (simp only:)
  also have "\<dots> = ARGS_STRINGS + of_nat (length (packed (take (length args - Suc i) (rev args))))"
    using i by (subst arg_ptrs_nth) simp_all
  also have "take (length args - Suc i) (rev args) = rev (drop (Suc i) args)" using i by (simp add: take_rev)
  finally show "arg_words args n ! (length args + 34 - i) = ARGS_STRINGS + of_nat (length (packed (rev (drop (Suc i) args))))" .
qed

text \<open>The arrays \<open>main\<close> gets: the arguments, and the environment with the empty string behind it.\<close>

definition main_gets :: "u64 \<Rightarrow> 'a phys_scheme \<Rightarrow> string list \<Rightarrow> string list \<Rightarrow> u64 \<times> u64 \<times> u64 \<Rightarrow> bool" where
  "main_gets r s args envp = (\<lambda>(argc, argv, env).
     argc = of_nat (length args) \<and>
     (\<forall>i < length args. user_text r s (user_word r s (argv + 8 * of_nat i)) (args ! i)) \<and>
     user_word r s (argv + 8 * of_nat (length args)) = NULL \<and>
     (\<forall>j < length envp. user_text r s (user_word r s (env + 8 * of_nat j)) (envp ! j)) \<and>
     user_word r s (env + 8 * of_nat (length envp)) = NULL)"

lemma start_finds:
  assumes ok: "vm_ok s" "wf_tree (pmem s) r (used_frames s)" and l: "args_laid_out r U args envp s"
    and n: "length envp \<le> 32" "length args \<le> 400" "length (packed args) \<le> 512" "\<forall>e \<in> set envp. length e \<le> 512"
    and top: "user_word r s (rsp0 + 8) = ARGS_STRINGS - 8 * of_nat (length args + 36) - 8"
  shows "main_gets r s args (envp @ [[]]) (start_params r s rsp0)"
proof -
  let ?n = "length args" and ?m = "length envp"
  obtain A N where A: "arg_stack r A (arg_words args ?m) s" and N: "holds_page r ARGS_STRINGS (text_bytes (packed (rev args))) N s"
    and env: "\<And>j. j \<le> ?m \<Longrightarrow> \<exists>g. holds_page r (page_addr ENV_START j) (text_bytes ((envp @ [[]]) ! j @ [CHR 0x00])) g s"
    using l unfolding args_laid_out_def by blast
  note W = arg_words_nth [OF n(1), where args = args]
  have word: "user_word r s (ARGS_STRINGS - 8 * of_nat (m + 1)) = arg_words args ?m ! m" if "m < ?n + 36" for m
    by (rule arg_word [OF ok A]) (use that W(1) n(2) in simp_all)
  define V :: u64 where "V = ARGS_STRINGS - 8 * of_nat (?n + 36) - 8"
  have addr: "V + 8 = ARGS_STRINGS - 8 * of_nat (?n + 35 + 1)"
    "V + 16 + 8 * of_nat i = ARGS_STRINGS - 8 * of_nat (?n + 34 - i + 1)" if "i \<le> ?n" for i
    using that by (simp_all add: V_def of_nat_diff algebra_simps)
  have addr2: "V + 8 * (of_nat ?n + 3) + 8 * of_nat j = ARGS_STRINGS - 8 * of_nat (33 - j + 1)" if "j \<le> 33" for j
    using that by (simp add: V_def of_nat_diff algebra_simps)
  have "user_word r s (rsp0 + 8) = V" unfolding top V_def ..
  moreover have "user_word r s (V + 8) = of_nat ?n" unfolding addr(1) [OF le0] W(2) [symmetric] by (rule word) simp
  ultimately have start: "start_params r s rsp0 = (of_nat ?n, V + 16, V + 8 * (of_nat ?n + 3))"
    by (simp add: start_params_def Let_def)
  have strs: "user_text r s (user_word r s (V + 16 + 8 * of_nat i)) (args ! i)" if i: "i < ?n" for i
  proof -
    let ?k = "?n - Suc i" and ?as = "rev args"
    have k: "?k < length ?as" "?as ! ?k = args ! i" "take ?k ?as = rev (drop (Suc i) args)"
      using i by (simp_all add: rev_nth take_rev)
    note P = packed_split [OF k(1), unfolded k(2,3)]
    have "user_text r s (ARGS_STRINGS + of_nat (length (packed (rev (drop (Suc i) args))))) (args ! i)"
      by (rule page_text [OF ok _ N [unfolded P]]) (use n(3) arg_cong [OF P, of length] in \<open>simp_all add: length_packed_rev\<close>)
    moreover have "user_word r s (V + 16 + 8 * of_nat i) = arg_words args ?m ! (?n + 34 - i)"
      using i by (subst addr(2)) (simp, rule word, simp)
    ultimately show ?thesis using W(3) [OF i] by simp
  qed
  have vars: "user_text r s (user_word r s (V + 8 * (of_nat ?n + 3) + 8 * of_nat j)) ((envp @ [[]]) ! j)" if j: "j \<le> ?m" for j
  proof -
    from env [OF j] obtain g where g: "holds_page r (page_addr ENV_START j) (text_bytes ([] @ (envp @ [[]]) ! j @ [CHR 0x00])) g s" by auto
    have "length ((envp @ [[]]) ! j) \<le> 512" using j n(4) by (cases "j < ?m") (auto simp: nth_append)
    then have "user_text r s (page_addr ENV_START j + of_nat (length ([] :: string))) ((envp @ [[]]) ! j)"
      by (intro page_text [OF ok _ g] page_addr_aligned) simp_all
    moreover have "user_word r s (V + 8 * (of_nat ?n + 3) + 8 * of_nat j) = arg_words args ?m ! (33 - j)"
      using j n(1) by (subst addr2) (simp, rule word, simp)
    ultimately show ?thesis using W(5) [OF j] by simp
  qed
  have "user_word r s (V + 16 + 8 * of_nat ?n) = NULL"
    unfolding addr(2) [OF order_refl] using word [of 34] W(4) by simp
  moreover have "user_word r s (V + 8 * (of_nat ?n + 3) + 8 * of_nat (Suc ?m)) = NULL"
  proof -
    have "Suc ?m \<le> 33" "33 - Suc ?m = 32 - ?m" using n(1) by simp_all
    with word [of "32 - ?m"] W(6) show ?thesis by (simp only: addr2)
  qed
  ultimately show ?thesis
    unfolding start main_gets_def prod.case using strs vars by (simp add: less_Suc_eq_le del: of_nat_Suc)
qed

end
