(* ===== verification/ForkOk.thy ===== *)
theory ForkOk
  imports Fault
begin

text \<open>
  What \<open>fork\<close> does (\<open>sys/task.c\<close>). The loops over the pages of the parent are bounded by the
  number of pages of its areas, each page costs at most four frames (three page tables and, for the
  stack, a copy), so that \<open>fork\<close> returns when enough frames are free: \<open>fork_ready\<close> says how many.
  \<open>spent n s s'\<close> is the contract of every memory operation on the way: it writes only memory and
  bitmap, keeps the allocator's invariant and takes at most \<open>n\<close> frames.
\<close>

section \<open>What an operation spends\<close>

definition spent :: "nat \<Rightarrow> 'a phys_scheme \<Rightarrow> 'a phys_scheme \<Rightarrow> bool" where
  "spent n s s' \<longleftrightarrow> phys_only s s' \<and> vm_ok s' \<and> free_frames s' \<subseteq> free_frames s \<and>
     card (free_frames s) \<le> n + card (free_frames s')"

lemma spent_refl: "vm_ok s \<Longrightarrow> spent 0 s s"
  by (simp add: spent_def)

lemma spent_trans: "spent m s s' \<Longrightarrow> spent n s' s'' \<Longrightarrow> spent (m + n) s s''"
  using phys_only_trans [of s s' s''] by (auto simp: spent_def)

lemma spent_mono: "spent m s s' \<Longrightarrow> m \<le> n \<Longrightarrow> spent n s s'"
  by (auto simp: spent_def)

lemma spent_ok: "spent n s s' \<Longrightarrow> vm_ok s'"
  by (simp add: spent_def)

lemma spent_alloc:
  assumes "vm_ok s"
  shows "spent 1 s (snd (pageAllocator s))"
proof (cases "free_frames s = {}")
  case True
  then show ?thesis using assms by (simp add: spent_def pageAllocator_none)
next
  case False
  have inv: "phys_inv s" using assms by (simp add: vm_ok_def)
  note A = pageAllocator_step [OF inv False]
  have "Min (free_frames s) \<in> free_frames s" using False by simp
  from card_Suc_Diff1 [OF finite_free_frames this] A assms show ?thesis
    by (simp add: spent_def vm_ok_def frame_simps)
qed

lemma spent_pmem:
  assumes "vm_ok s"
  shows "spent 0 s (s\<lparr>pmem := m\<rparr>)"
  using assms by (simp add: spent_def phys_only_def)

lemma spent_wr: "vm_ok s \<Longrightarrow> spent 0 s (wr a x s)"
  unfolding wr_def by (rule spent_pmem)

lemma spent_memset: "vm_ok s \<Longrightarrow> spent 0 s (memset a s)"
  unfolding memset_def by (rule spent_pmem)

lemma spent_memcpy: "vm_ok (s :: 'a vm_scheme) \<Longrightarrow> spent 0 s (memcpy_page a b s)"
  unfolding memcpy_page_def by (rule spent_pmem)

lemma spent_mark: "vm_ok s \<Longrightarrow> spent 0 s (snd (markPageAsRW v c rw s))"
  by (simp add: markPageAsRW_def Let_def spent_wr spent_refl)

lemma spent_kmalloc:
  assumes "vm_ok s"
  shows "spent 1 s (snd (kmalloc s))"
proof -
  note A = spent_alloc [OF assms]
  from spent_trans [OF A spent_memset [OF spent_ok [OF A]]] show ?thesis
    by (simp add: kmalloc_def Let_def case_prod_beta)
qed

lemma spent_step:
  assumes "vm_ok s"
  shows "spent 1 s (snd (table_step off fl t i s))"
proof -
  note A = spent_alloc [OF assms]
  note B = spent_trans [OF A spent_memset [OF spent_ok [OF A]]]
  note C = spent_trans [OF B spent_wr [OF spent_ok [OF B]]]
  from C spent_mono [OF spent_refl [OF assms], of 1] show ?thesis
    by (simp add: table_step_def Let_def case_prod_beta)
qed

lemma spent_map:
  assumes "vm_ok s"
  shows "spent 3 s (mapPageForUser v p t s)"
proof -
  have S: "spent (Suc n) s (snd (table_step off fl t i s'))" if "spent n s s'" for n off fl t i s'
    using spent_trans [OF that spent_step [OF spent_ok [OF that]]] by simp
  have W: "spent n s (wr a x s')" if "spent n s s'" for n a x s'
    using spent_trans [OF that spent_wr [OF spent_ok [OF that]]] by simp
  have "spent (Suc (Suc (Suc 0))) s (mapPageForUser v p t s)"
    unfolding mapPageForUser_def Let_def case_prod_beta by (intro W S spent_refl assms)
  then show ?thesis by (simp add: numeral_3_eq_3)
qed

section \<open>The loops over pages\<close>

text \<open>The number of turns of a page loop.\<close>

definition num_pages :: "u64 \<Rightarrow> u64 \<Rightarrow> nat" where
  "num_pages st en = (unat en - unat st + 4095) div 4096"

lemma for_pages_spent:
  assumes en: "unat en + 4096 \<le> 2 ^ 64" and "vm_ok s"
    and body: "\<And>a s. vm_ok s \<Longrightarrow> \<exists>s'. body a s = Some s' \<and> spent k s s'"
  shows "\<exists>s'. for_pages body st en s = Some s' \<and> spent (k * num_pages st en) s s'"
  using assms(2)
proof (induction "unat en - unat st" arbitrary: st s rule: less_induct)
  case less
  show ?case
  proof (cases "st < en")
    case True
    from body [OF less.prems] obtain s1 where s1: "body st s = Some s1" "spent k s s1" by blast
    from True have lt: "unat st < unat en" by (simp add: word_less_nat_alt)
    with en have st: "unat (st + PAGE) = unat st + 4096" by (subst unat_add_64) simp_all
    with lt have "unat en - unat (st + PAGE) < unat en - unat st" by simp
    from less.hyps [OF this spent_ok [OF s1(2)]] obtain s' where
      s': "for_pages body (st + PAGE) en s1 = Some s'" "spent (k * num_pages (st + PAGE) en) s1 s'" by blast
    have "num_pages (st + PAGE) en + 1 \<le> num_pages st en"
    proof -
      have "unat en - (unat st + 4096) + 4095 + 4096 \<le> unat en - unat st + 4095 \<or> unat en - (unat st + 4096) = 0"
        using lt by linarith
      then show ?thesis unfolding num_pages_def st
      proof
        assume "unat en - (unat st + 4096) + 4095 + 4096 \<le> unat en - unat st + 4095"
        then have "(unat en - (unat st + 4096) + 4095 + 4096) div 4096 \<le> (unat en - unat st + 4095) div 4096"
          by (rule div_le_mono)
        then show "(unat en - (unat st + 4096) + 4095) div 4096 + 1 \<le> (unat en - unat st + 4095) div 4096"
          by (simp only: div_add_self2)
      next
        assume z: "unat en - (unat st + 4096) = 0"
        have "4096 div 4096 \<le> (unat en - unat st + 4095) div 4096" by (rule div_le_mono) (use lt in simp)
        then show "(unat en - (unat st + 4096) + 4095) div 4096 + 1 \<le> (unat en - unat st + 4095) div 4096"
          by (simp add: z)
      qed
    qed
    then have "k * (num_pages (st + PAGE) en + 1) \<le> k * num_pages st en" by (rule mult_le_mono2)
    then have "k + k * num_pages (st + PAGE) en \<le> k * num_pages st en" by simp
    from spent_mono [OF spent_trans [OF s1(2) s'(2)] this] s1(1) s'(1) True show ?thesis
      by (simp add: for_pages.simps [of body st])
  next
    case False
    with spent_mono [OF spent_refl [OF less.prems]] show ?thesis by (simp add: for_pages.simps [of body st])
  qed
qed

text \<open>The areas of the parent: the loops stop, and the pages they have to map.\<close>

definition area_pages :: "'a kernel_scheme \<Rightarrow> u64 list \<Rightarrow> nat" where
  "area_pages s vs = sum_list (map (\<lambda>v. num_pages (v_start (vmas s v)) (v_end (vmas s v))) vs)"

lemma area_loop_spent:
  fixes s :: "'a kernel_scheme"
  assumes "path (vnext s) p vs NULL" and "NULL \<notin> set vs" and "vm_ok s"
    and "\<forall>v \<in> set vs. unat (v_end (vmas s v)) + 4096 \<le> 2 ^ 64"
    and body: "\<And>v a s. vm_ok s \<Longrightarrow> \<exists>s'. body v a s = Some s' \<and> spent k s (s' :: 'a kernel_scheme)"
  shows "\<exists>s'. for_ptrs vnext NULL (\<lambda>v s. for_pages (body v) (v_start (vmas s v)) (v_end (vmas s v)) s) p s = Some s' \<and>
    spent (k * area_pages s vs) s s'"
  using assms(1-4)
proof (induction vs arbitrary: p s)
  case Nil
  then show ?case by (simp add: spent_refl area_pages_def)
next
  case (Cons v vs)
  then have p: "p = v" "v \<noteq> NULL" by auto
  from Cons.prems(4) have "unat (v_end (vmas s v)) + 4096 \<le> 2 ^ 64" by simp
  from for_pages_spent [OF this Cons.prems(3), of "body v" k "v_start (vmas s v)"] body obtain s1 where s1:
    "for_pages (body v) (v_start (vmas s v)) (v_end (vmas s v)) s = Some s1"
    "spent (k * num_pages (v_start (vmas s v)) (v_end (vmas s v))) s s1" by blast
  have v1: "vmas s1 = vmas s" using s1(2) phys_onlyD(2) unfolding spent_def by blast
  have "path (vnext s1) (vnext s1 v) vs NULL" "NULL \<notin> set vs" "vm_ok s1"
    "\<forall>v \<in> set vs. unat (v_end (vmas s1 v)) + 4096 \<le> 2 ^ 64"
    using Cons.prems spent_ok [OF s1(2)] by (simp_all add: v1)
  from Cons.IH [OF this] obtain s' where s':
    "for_ptrs vnext NULL (\<lambda>v s. for_pages (body v) (v_start (vmas s v)) (v_end (vmas s v)) s) (vnext s1 v) s1 = Some s'"
    "spent (k * area_pages s1 vs) s1 s'" by blast
  have "k * num_pages (v_start (vmas s v)) (v_end (vmas s v)) + k * area_pages s1 vs = k * area_pages s (v # vs)"
    by (simp add: area_pages_def v1 add_mult_distrib2)
  with spent_trans [OF s1(2) s'(2)] p s1(1) s'(1) show ?case by (simp add: for_ptrs_step)
qed

section \<open>The child\<close>

lemma copy_parent_page_spent:
  fixes s :: "'a kernel_scheme"
  assumes "vm_ok s"
  shows "\<exists>s'. copy_parent_page c v a s = Some s' \<and> spent 4 s s'"
proof -
  let ?cr = "cr3 (regs (tasks s c)) + kernbase s" and ?e = "getPhysicalPageAddr a (getRunCr3 s) s"
  obtain ptr s1 where k: "kmalloc s = (ptr, s1)" by fastforce
  then have s1: "spent 1 s s1" using spent_kmalloc [OF assms] by simp
  let ?s2 = "mapPageForUser (a AND FRAME) (ptr - kernbase s) ?cr s1"
  have s2: "spent (1 + 3) s ?s2" by (rule spent_trans [OF s1 spent_map [OF spent_ok [OF s1]]])
  have A: "spent (1 + 3 + 0) s (memcpy_page (a AND FRAME) (ptr - kernbase s + kernbase s) ?s2)"
    by (rule spent_trans [OF s2 spent_memcpy [OF spent_ok [OF s2]]])
  have m: "spent 3 s (mapPageForUser (a AND FRAME) (?e AND FRAME) ?cr s)" by (rule spent_map [OF assms])
  have "spent (3 + 0) s (snd (markPageAsRW (a AND FRAME) ?cr 1 (mapPageForUser (a AND FRAME) (?e AND FRAME) ?cr s)))"
    by (rule spent_trans [OF m spent_mark [OF spent_ok [OF m]]])
  from spent_mono [OF this, of 4] spent_mono [OF A, of 4] spent_mono [OF spent_refl [OF assms], of 4]
  show ?thesis by (simp add: copy_parent_page_def Let_def k)
qed

lemma mark_parent_page_spent:
  fixes s :: "'a kernel_scheme"
  assumes "vm_ok s"
  shows "\<exists>s'. mark_parent_page v a s = Some s' \<and> spent 0 s s'"
  using spent_mark [OF assms] spent_refl [OF assms] by (simp add: mark_parent_page_def)

lemma spent_getNewPML4:
  assumes "vm_ok s"
  shows "spent 1 s (snd (getNewPML4ForUser s))"
proof -
  note A = spent_alloc [OF assms]
  note B = spent_trans [OF A spent_memset [OF spent_ok [OF A]]]
  note C = spent_trans [OF B spent_wr [OF spent_ok [OF B]]]
  from C show ?thesis by (simp add: getNewPML4ForUser_def Let_def case_prod_beta)
qed

text \<open>
  What \<open>fork\<close> needs: well-formed queues of tasks that live in used frames, a well-formed list of
  areas, and enough frames for the task, its root table, the pages, the kernel stack and the
  area structures.
\<close>

definition fork_ready :: "'a kernel_scheme \<Rightarrow> u64 list \<Rightarrow> u64 list \<Rightarrow> u64 list \<Rightarrow> bool" where
  "fork_ready s ts ds vs \<longleftrightarrow> vm_ok s \<and> queues s ts ds \<and> (\<forall>t \<in> set (runningThread s # ts @ ds). live s t) \<and>
     vma_list s (run_mmap s) vs \<and> (\<forall>v \<in> set vs. unat (v_end (vmas s v)) + 4096 \<le> 2 ^ 64) \<and>
     4 * area_pages s vs + length vs + 3 \<le> card (free_frames s)"

lemma live_mono: "free_frames s' \<subseteq> free_frames s \<Longrightarrow> live s p \<Longrightarrow> live s' p"
  by (auto simp: live_def used_frames_def)

lemma vma_list_mono:
  assumes "vma_list s p vs" and "vmas s' = vmas s" and "free_frames s' \<subseteq> free_frames s"
  shows "vma_list s' p vs"
  using assms(1) live_mono [OF assms(3)] by (simp add: vma_list_def assms(2))

lemma vm_ok_pidCount [simp]: "vm_ok (s\<lparr>pidCount := n\<rparr>) = vm_ok s" "free_frames (s\<lparr>pidCount := n\<rparr>) = free_frames s"
  by (simp_all add: vm_ok_def phys_inv_def free_frames_def)

lemma upd_regs_ok [frame_simps]:
  "vm_ok (upd_regs t g s) = vm_ok s" "free_frames (upd_regs t g s) = free_frames s"
  "pidCount (upd_regs t g s) = pidCount s" "userRegs (upd_regs t g s) = userRegs s"
  "userRegs (upd_task t f s) = userRegs s"
  by (simp_all add: upd_regs_def frame_simps) (simp_all add: upd_task_def)

text \<open>
  The registers of a new child, with the root of its tables and the top of its kernel stack. Nine are the parent's at its system call;
  \<open>rax\<close> is 0, and so is \<open>rbp\<close>, which \<open>createChildTask\<close> never copies.
\<close>

definition child_regs :: "Registers \<Rightarrow> u64 \<Rightarrow> u64 \<Rightarrow> Registers" where
  "child_regs u root kst = zero_regs\<lparr>rax := 0, rbx := rbx u, rcx := rcx u, rdx := rdx u, rsi := rsi u, rdi := rdi u,
     rflags := rflags u, rip := rip u, cr3 := root, userRsp := userRsp u, kernelRsp := kst\<rparr>"

lemma createChildTask_ok:
  assumes ok: "vm_ok s" and z: "tasks s c = zero_task" and c: "c \<noteq> runningThread s"
    and l: "vma_list s (run_mmap s) vs" and en: "\<forall>v \<in> set vs. unat (v_end (vmas s v)) + 4096 \<le> 2 ^ 64"
    and fr: "4 * area_pages s vs + length vs + 2 \<le> card (free_frames s)"
  shows "\<exists>s' k root us. createChildTask c s = Some s' \<and> (\<forall>x. x \<noteq> c \<longrightarrow> tasks s' x = tasks s x) \<and>
    runningThread s' = runningThread s \<and> deleteQueue s' = deleteQueue s \<and> pid_t (tasks s' c) = pidCount s + 1 \<and>
    ppid_t (tasks s' c) = pid_t (tasks s (runningThread s)) \<and> task_state (tasks s' c) = 1 \<and>
    regs (tasks s' c) = child_regs (userRegs s) root (page_of k + KERNBASE + 0x1000) \<and> k < 65536 \<and>
    vma_list s' (task_mmap s' c) us \<and> map (\<lambda>v. area (vmas s' v)) us = map (\<lambda>v. area (vmas s v)) vs \<and>
    vma_list s' (run_mmap s') vs \<and> (\<forall>v \<in> set vs. vmas s' v = vmas s v) \<and> vm_ok s' \<and>
    (\<exists>t. vm_ok t \<and> s' = prepareInitialKernelStack (child_regs (userRegs s) root (page_of k + KERNBASE + 0x1000)) t)"
proof -
  let ?r = "runningThread s" and ?u = "userRegs s"
  define s1 where "s1 = upd_task c (\<lambda>k. k\<lparr>pid_t := pidCount s + 1\<rparr>) s"
  define s2 where "s2 = s1\<lparr>pidCount := pidCount s1 + 1\<rparr>"
  define s4 where "s4 = upd_regs c (\<lambda>r. r\<lparr>rax := 0, rbx := rbx ?u, rcx := rcx ?u, rdx := rdx ?u, rsi := rsi ?u,
      rdi := rdi ?u, rflags := rflags ?u, rip := rip ?u\<rparr>) (upd_task c (\<lambda>k. k\<lparr>ppid_t := pid_t (tasks s2 (runningThread s2))\<rparr>) s2)"
  have s4: "vm_ok s4" "free_frames s4 = free_frames s" "vmas s4 = vmas s" "runningThread s4 = ?r"
    "deleteQueue s4 = deleteQueue s" "userRegs s4 = ?u"
    "tasks s4 = (tasks s)(c := zero_task\<lparr>pid_t := pidCount s + 1, ppid_t := pid_t (tasks s ?r),
       regs := zero_regs\<lparr>rax := 0, rbx := rbx ?u, rcx := rcx ?u, rdx := rdx ?u, rsi := rsi ?u,
      rdi := rdi ?u, rflags := rflags ?u, rip := rip ?u\<rparr>\<rparr>)"
    using ok c by (simp_all add: s4_def s2_def s1_def frame_simps z) (simp add: zero_task_def)
  obtain root s5 where p5: "getNewPML4ForUser s4 = (root, s5)" by fastforce
  then have sp5: "spent 1 s4 s5" using spent_getNewPML4 [OF s4(1)] by simp
  then have po5: "phys_only s4 s5" by (simp add: spent_def)
  define s6 where "s6 = upd_regs c (\<lambda>r. r\<lparr>cr3 := root\<rparr>) s5"
  have s6: "vm_ok s6" "free_frames s6 = free_frames s5" "vmas s6 = vmas s" "runningThread s6 = ?r"
    "tasks s6 = (tasks s4)(c := (tasks s4 c)\<lparr>regs := (regs (tasks s4 c))\<lparr>cr3 := root\<rparr>\<rparr>)" "userRegs s6 = ?u"
    "deleteQueue s6 = deleteQueue s"
    using spent_ok [OF sp5] phys_onlyD [OF po5] s4 by (simp_all add: s6_def frame_simps)
  have m6: "run_mmap s6 = run_mmap s" using c by (simp add: s6 s4)
  have pv: "path (vnext s6) (run_mmap s6) vs NULL" "NULL \<notin> set vs"
    using l vma_list_not_null [OF l] by (simp_all add: vma_list_def s6(3) m6)
  have ap: "area_pages s6 vs = area_pages s vs" by (simp add: area_pages_def s6(3))
  obtain s7 where p7: "copyParentCr3Entries c s6 = Some s7" and sp7: "spent (4 * area_pages s6 vs) s6 s7"
  proof -
    have "\<exists>s7. copyParentCr3Entries c s6 = Some s7 \<and> spent (4 * area_pages s6 vs) s6 s7"
      unfolding copyParentCr3Entries_def
      by (rule area_loop_spent [OF pv s6(1)]) (simp_all add: s6(3) en [simplified] copy_parent_page_spent)
    then show thesis using that by blast
  qed
  from sp7 have po7: "phys_only s6 s7" by (simp add: spent_def)
  define s8 where "s8 = upd_regs c (\<lambda>r. r\<lparr>userRsp := userRsp ?u\<rparr>) s7"
  have s8: "vm_ok s8" "free_frames s8 = free_frames s7" "vmas s8 = vmas s" "runningThread s8 = ?r"
    "tasks s8 = (tasks s6)(c := (tasks s6 c)\<lparr>regs := (regs (tasks s6 c))\<lparr>userRsp := userRsp ?u\<rparr>\<rparr>)"
    "deleteQueue s8 = deleteQueue s"
    using spent_ok [OF sp7] phys_onlyD [OF po7] s6 by (simp_all add: s8_def frame_simps)
  have sub8: "free_frames s8 \<subseteq> free_frames s" and c8: "Suc (length vs) \<le> card (free_frames s8)"
    using sp5 sp7 fr by (auto simp: spent_def s8(2) s6(2) s4(2) ap)
  then have ne: "free_frames s8 \<noteq> {}" by auto
  obtain kst s9 where p9: "kmalloc s8 = (kst, s9)" by fastforce
  then have sp9: "spent 1 s8 s9" using spent_kmalloc [OF s8(1)] by simp
  then have po9: "phys_only s8 s9" by (simp add: spent_def)
  obtain k where k: "kst = page_of k + KERNBASE" "k \<in> free_frames s8"
    using kmalloc_zeroed_lemma [OF s8(1) ne p9] by blast
  have kb: "k < 65536" using k(2) s8(1) free_frames_bound by (auto simp: vm_ok_def)
  define s10 where "s10 = upd_regs c (\<lambda>r. r\<lparr>kernelRsp := kst + 0x1000, reg_count := 0, reg_add := 0\<rparr>) s9"
  let ?p = "tasks s10 (runningThread s10)"
  define s11 where "s11 = upd_task c (\<lambda>k. k\<lparr>task_state := 1, exeName := exeName ?p, startHH := scast (getCurHr s10),
      startMM := scast (getCurMin s10), startSS := scast (getCurSec s10), endHH := 0, endMM := 0, endSS := 0,
      fd_pointers := (\<lambda>i. if i < 20 then fd_pointers ?p i else fd_pointers k i), fd_count := fd_count ?p\<rparr>) s10"
  have s11: "vm_ok s11" "free_frames s11 = free_frames s9" "vmas s11 = vmas s" "runningThread s11 = ?r"
    "deleteQueue s11 = deleteQueue s" "x \<noteq> c \<Longrightarrow> tasks s11 x = tasks s x"
    "pid_t (tasks s11 c) = pidCount s + 1" "ppid_t (tasks s11 c) = pid_t (tasks s ?r)" "task_state (tasks s11 c) = 1"
    "regs (tasks s11 c) = child_regs ?u root (page_of k + KERNBASE + 0x1000)" for x
    using spent_ok [OF sp9] phys_onlyD [OF po9] s8 s6 s4 k(1)
    by (simp_all add: s11_def s10_def frame_simps child_regs_def zero_regs_def)
  have m11: "run_mmap s11 = run_mmap s" using c by (simp add: s11)
  have l11: "vma_list s11 (run_mmap s11) vs"
    unfolding m11 by (rule vma_list_mono [OF l s11(3)]) (use sp9 sub8 s11(2) in \<open>auto simp: spent_def\<close>)
  have c11: "length vs \<le> card (free_frames s11)" using sp9 c8 by (simp add: spent_def s11(2))
  obtain s12 us where s12: "copyVMA c (run_mmap s11) s11 = Some s12" "vma_list s12 (task_mmap s12 c) us"
    "map (\<lambda>v. area (vmas s12 v)) us = map (\<lambda>v. area (vmas s11 v)) vs" "vma_list s12 (run_mmap s11) vs"
    "\<And>v. live s11 v \<Longrightarrow> vmas s12 v = vmas s11 v" "vm_ok s12" "same_rest c s11 s12"
    using copyVMA_ok [OF s11(1) l11 c11, of c] by blast
  have t12: "x \<noteq> c \<Longrightarrow> tasks s12 x = tasks s11 x" "runningThread s12 = ?r"
    "tasks s12 c = (tasks s11 c)\<lparr>memMap := memMap (tasks s12 c)\<rparr>" "deleteQueue s12 = deleteQueue s" for x
    using s12(7) by (simp_all add: same_rest_def s11(4,5))
  have f12: "pid_t (tasks s12 c) = pid_t (tasks s11 c)" "ppid_t (tasks s12 c) = ppid_t (tasks s11 c)"
    "task_state (tasks s12 c) = task_state (tasks s11 c)" "regs (tasks s12 c) = regs (tasks s11 c)"
    by (subst t12(3), simp)+
  define s' where "s' = prepareInitialKernelStack (regs (tasks s12 c)) s12"
  have po: "phys_only s12 s'" unfolding s'_def by simp
  have run: "createChildTask c s = Some s'"
    by (simp only: createChildTask_def Let_def s1_def [symmetric] s2_def [symmetric] s4_def [symmetric] p5 prod.case
        s6_def [symmetric] p7 option.case s8_def [symmetric] p9 s10_def [symmetric] s11_def [symmetric] s12(1) s'_def)
  have same: "\<forall>v \<in> set vs. vmas s12 v = vmas s v"
    using s12(5) l11 by (auto simp: vma_list_def s11(3))
  have fr': "free_frames s' = free_frames s12" "vm_ok s'"
    using s12(6) by (simp_all add: s'_def prepareInitialKernelStack_def Let_def wr_def vm_ok_def free_frames_def phys_inv_def)
  have l': "vma_list s' p ws = vma_list s12 p ws" for p ws
    by (simp add: vma_list_def live_def used_frames_def fr'(1) phys_onlyD(2) [OF po])
  have m': "run_mmap s' = run_mmap s11" using c by (simp add: phys_onlyD [OF po] t12 s11(4))
  note P = phys_onlyD(1-4) [OF po]
  have e': "s' = prepareInitialKernelStack (child_regs ?u root (page_of k + KERNBASE + 0x1000)) s12"
    by (simp only: s'_def f12 s11)
  have 1: "\<forall>x. x \<noteq> c \<longrightarrow> tasks s' x = tasks s x" by (simp add: P t12(1) s11(6))
  have 2: "vma_list s' (task_mmap s' c) us" "vma_list s' (run_mmap s') vs"
    using s12(2) by (simp only: l' P) (simp only: l' m' s12(4))
  have 3: "map (\<lambda>v. area (vmas s' v)) us = map (\<lambda>v. area (vmas s v)) vs" "\<forall>v \<in> set vs. vmas s' v = vmas s v"
    using s12(3) same by (simp_all add: P s11(3))
  have 4: "runningThread s' = ?r" "deleteQueue s' = deleteQueue s" "pid_t (tasks s' c) = pidCount s + 1"
    "ppid_t (tasks s' c) = pid_t (tasks s ?r)" "task_state (tasks s' c) = 1"
    "regs (tasks s' c) = child_regs ?u root (page_of k + KERNBASE + 0x1000)"
    by (simp_all add: P t12(2,4) f12 s11)
  show ?thesis
    by (intro exI [of _ s'] exI [of _ k] exI [of _ root] exI [of _ us] conjI exI [of _ s12])
      (rule run 1 2 3 4 kb fr'(2) s12(6) e')+
qed

lemma makeParent_spent:
  assumes "vm_ok s" and "vma_list s (run_mmap s) vs" and "\<forall>v \<in> set vs. unat (v_end (vmas s v)) + 4096 \<le> 2 ^ 64"
  shows "\<exists>s'. makeParentCr3asReadOnly s = Some s' \<and> spent 0 s s'"
proof -
  have p: "path (vnext s) (run_mmap s) vs NULL" "NULL \<notin> set vs"
    using assms(2) vma_list_not_null by (auto simp: vma_list_def)
  have "\<exists>s'. makeParentCr3asReadOnly s = Some s' \<and> spent (0 * area_pages s vs) s s'"
    unfolding makeParentCr3asReadOnly_def
    by (rule area_loop_spent [OF p assms(1)]) (simp_all add: assms(3) [simplified] mark_parent_page_spent)
  then show ?thesis by simp
qed

lemma kmalloc_task_ok:
  assumes "vm_ok s" and "free_frames s \<noteq> {}"
  shows "\<exists>g s'. kmalloc_task s = (page_of g + KERNBASE, s') \<and> \<not> live s (page_of g + KERNBASE) \<and>
    live s' (page_of g + KERNBASE) \<and> tasks s' = (tasks s)(page_of g + KERNBASE := zero_task) \<and> vmas s' = vmas s \<and>
    runningThread s' = runningThread s \<and> deleteQueue s' = deleteQueue s \<and> pidCount s' = pidCount s \<and>
    userRegs s' = userRegs s \<and> spent 1 s (snd (kmalloc s)) \<and> vm_ok s' \<and> free_frames s' = free_frames (snd (kmalloc s))"
proof -
  obtain p t where k: "kmalloc s = (p, t)" by fastforce
  from kmalloc_zeroed_lemma [OF assms k] obtain g where g: "g \<in> free_frames s" "p = page_of g + KERNBASE"
    "free_frames t = free_frames s - {g}" "vm_ok t" by blast
  have sp: "spent 1 s t" using spent_kmalloc [OF assms(1)] k by simp
  then have po: "phys_only s t" by (simp add: spent_def)
  have gb: "0 < g" "g < 65536" using g(1) assms(1) free_frames_bound by (auto simp: vm_ok_def)
  let ?s = "upd_task p (\<lambda>_. zero_task) t"
  have "\<not> live s p" using g(1) gb unfolding g(2) live_def by (auto simp: used_frames_def page_of_inj)
  moreover have "live ?s p" using g gb by (auto simp: live_def used_frames_def frame_simps)
  moreover have "kmalloc_task s = (p, ?s)" by (simp add: kmalloc_task_def k)
  ultimately show ?thesis
    using g sp k phys_onlyD [OF po] by (intro exI [of _ g] exI [of _ ?s]) (simp add: frame_simps)
qed

lemma fork_ok:
  assumes rdy: "fork_ready s ts ds vs"
  shows "\<exists>s' c us. fork s = Some (scast (pidCount s + 1), s') \<and> queues s' (c # ts) ds \<and>
    runningThread s' = runningThread s \<and> \<not> live s c \<and> pid_t (tasks s' c) = pidCount s + 1 \<and>
    ppid_t (tasks s' c) = pid_t (tasks s (runningThread s)) \<and> task_state (tasks s' c) = 1 \<and>
    (\<exists>root kst. regs (tasks s' c) = child_regs (userRegs s) root kst) \<and> vm_ok s' \<and>
    vma_list s' (task_mmap s' c) us \<and> map (\<lambda>v. area (vmas s' v)) us = map (\<lambda>v. area (vmas s v)) vs \<and>
    vma_list s' (run_mmap s') vs"
proof -
  let ?r = "runningThread s"
  from rdy have ok: "vm_ok s" and q: "queues s ts ds" and lv: "\<forall>t \<in> set (?r # ts @ ds). live s t"
    and l: "vma_list s (run_mmap s) vs" and en: "\<forall>v \<in> set vs. unat (v_end (vmas s v)) + 4096 \<le> 2 ^ 64"
    and fr: "4 * area_pages s vs + length vs + 3 \<le> card (free_frames s)" by (simp_all add: fork_ready_def)
  from fr have "free_frames s \<noteq> {}" by auto
  from kmalloc_task_ok [OF ok this] obtain c s1 where k: "kmalloc_task s = (c, s1)" "\<not> live s c" "live s1 c"
    "tasks s1 = (tasks s)(c := zero_task)" "vmas s1 = vmas s" "runningThread s1 = ?r" "deleteQueue s1 = deleteQueue s"
    "pidCount s1 = pidCount s" "userRegs s1 = userRegs s" "spent 1 s (snd (kmalloc s))" "vm_ok s1"
    "free_frames s1 = free_frames (snd (kmalloc s))" by blast
  have fresh: "c \<notin> set (?r # ts @ ds)" using lv k(2) by blast
  then have cr: "c \<noteq> ?r" "?r \<noteq> c" by auto
  have nn: "c \<noteq> NULL" using live_not_null [OF k(3)] .
  have m1: "run_mmap s1 = run_mmap s" using cr by (simp add: k(4,6))
  have sub: "free_frames s1 \<subseteq> free_frames s" "card (free_frames s) \<le> 1 + card (free_frames s1)"
    using k(10) by (simp_all add: spent_def k(12))
  have l1: "vma_list s1 (run_mmap s1) vs" unfolding m1 by (rule vma_list_mono [OF l k(5) sub(1)])
  have z1: "tasks s1 c = zero_task" "c \<noteq> runningThread s1" using cr by (simp_all add: k(4,6))
  have en1: "\<forall>v \<in> set vs. unat (v_end (vmas s1 v)) + 4096 \<le> 2 ^ 64" using en by (simp add: k(5))
  have fr1: "4 * area_pages s1 vs + length vs + 2 \<le> card (free_frames s1)"
    using fr sub(2) by (simp add: area_pages_def k(5))
  from createChildTask_ok [OF k(11) z1 l1 en1 fr1] obtain s2 f root us where s2: "createChildTask c s1 = Some s2"
    "\<And>x. x \<noteq> c \<Longrightarrow> tasks s2 x = tasks s1 x" "runningThread s2 = ?r" "deleteQueue s2 = deleteQueue s"
    "pid_t (tasks s2 c) = pidCount s + 1" "ppid_t (tasks s2 c) = pid_t (tasks s ?r)" "task_state (tasks s2 c) = 1"
    "regs (tasks s2 c) = child_regs (userRegs s) root (page_of f + KERNBASE + 0x1000)"
    "vma_list s2 (task_mmap s2 c) us" "map (\<lambda>v. area (vmas s2 v)) us = map (\<lambda>v. area (vmas s v)) vs"
    "vma_list s2 (run_mmap s2) vs" "\<forall>v \<in> set vs. vmas s2 v = vmas s v" "vm_ok s2"
    using cr unfolding k(4-9) by (auto simp: k(4))
  have same: "tnext s2 x = tnext s x" if "x \<in> set (?r # ts @ ds)" for x
    using that fresh s2(2) [of x] by (cases "x = c") (simp_all add: k(4))
  have "path (tnext s2) (tnext s2 ?r) ts ?r"
    by (rule path_fun_upd [where nx = "tnext s"]) (use q same in \<open>auto simp: queues_def ring_def\<close>)
  moreover have "path (tnext s2) (deleteQueue s2) ds NULL"
    unfolding s2(4) by (rule path_fun_upd [where nx = "tnext s"]) (use q same in \<open>auto simp: queues_def\<close>)
  ultimately have "queues s2 ts ds" using q by (auto simp: queues_def ring_def s2(3))
  from addToQueue_ok [OF this _ nn] fresh have q3: "queues (addToQueue c s2) (c # ts) ds"
    "runningThread (addToQueue c s2) = ?r" by (simp_all add: s2(3))
  let ?s3 = "addToQueue c s2"
  have t3: "vmas ?s3 = vmas s2" "vm_ok ?s3" "free_frames ?s3 = free_frames s2"
    "tasks ?s3 x = (tasks s2 x)\<lparr>task_next := tnext ?s3 x\<rparr>" for x
    using s2(13) by (simp_all add: addToQueue_def Let_def frame_simps)
  have f3: "pid_t (tasks ?s3 x) = pid_t (tasks s2 x)" "ppid_t (tasks ?s3 x) = ppid_t (tasks s2 x)"
    "task_state (tasks ?s3 x) = task_state (tasks s2 x)" "regs (tasks ?s3 x) = regs (tasks s2 x)"
    "memMap (tasks ?s3 x) = memMap (tasks s2 x)" for x
    by (subst t3(4), simp)+
  have l3: "vma_list ?s3 p ws = vma_list s2 p ws" for p ws
    by (simp add: vma_list_def live_def used_frames_def t3)
  have v3: "vma_list ?s3 (run_mmap ?s3) vs" "\<forall>v \<in> set vs. unat (v_end (vmas ?s3 v)) + 4096 \<le> 2 ^ 64"
    using s2(11,12) en by (simp_all add: l3 q3(2) f3 s2(3) t3(1))
  from makeParent_spent [OF t3(2) v3] obtain s4 where s4: "makeParentCr3asReadOnly ?s3 = Some s4" "spent 0 ?s3 s4" by blast
  then have po: "phys_only ?s3 s4" by (simp add: spent_def)
  note P = phys_onlyD(1-4) [OF po]
  have l4: "vma_list s4 p ws" if "vma_list ?s3 p ws" for p ws
    by (rule vma_list_mono [OF that P(2)]) (use s4(2) in \<open>simp add: spent_def\<close>)
  have "fork s = Some (scast (pidCount s + 1), s4)"
    by (simp add: fork_def Let_def k(1) s2(1,5) s4(1) P f3)
  moreover have "queues s4 (c # ts) ds" using q3(1) by (simp add: queues_def P)
  moreover have "vma_list s4 (task_mmap s4 c) us" "vma_list s4 (run_mmap s4) vs"
    using l4 [of _ us] l4 [OF v3(1)] s2(9) by (simp_all add: l3 P f3)
  ultimately show ?thesis
    using s2(5-8,10) q3(2) k(2) spent_ok [OF s4(2)]
    by (intro exI [of _ s4] exI [of _ c] exI [of _ us]) (auto simp: P f3 t3(1))
qed

section \<open>The pages of the child\<close>

lemma read_only_entry:
  "((e AND FRAME) OR leaf_flags 1) AND MAKERDONLY = (e AND FRAME) OR (PRESENT OR USER)"
  "((e AND FRAME) OR leaf_flags 1) \<noteq> - 1"
proof -
  have "((e AND FRAME) OR leaf_flags 1) AND MAKERDONLY = (e AND (FRAME AND MAKERDONLY)) OR (leaf_flags 1 AND MAKERDONLY)"
    by (simp only: bit.conj_disj_distrib2 and.assoc)
  also have "\<dots> = (e AND FRAME) OR (PRESENT OR USER)"
    by (simp add: FRAME_def MAKERDONLY_def leaf_flags_def PRESENT_def WRITEABLE_def USER_def)
  finally show "((e AND FRAME) OR leaf_flags 1) AND MAKERDONLY = (e AND FRAME) OR (PRESENT OR USER)" .
  have "((e AND FRAME) OR leaf_flags 1) AND 8 = (e AND (FRAME AND 8)) OR (leaf_flags 1 AND 8)"
    by (simp only: bit.conj_disj_distrib2 and.assoc)
  also have "\<dots> = 0" by (simp add: FRAME_def leaf_flags_def PRESENT_def WRITEABLE_def USER_def)
  finally show "((e AND FRAME) OR leaf_flags 1) \<noteq> - 1" by auto
qed

lemma same_page_trans_frame: "same_page w (v AND FRAME) = same_page w v"
  using same_page_frame [of v] by (auto simp: same_page_def)

lemma share_page_ok:
  fixes e :: u64
  assumes ok: "vm_ok s" and wf: "wf_tree (pmem s) c (used_frames s)" and ne: "3 \<le> card (free_frames s)"
    and wr: "wf_tree (pmem s) r (used_frames s)" and ap: "apart (pmem s) c r (get_PML4_INDEX v)"
  defines "s' \<equiv> snd (markPageAsRW (v AND FRAME) (c + KERNBASE) 1
      (mapPageForUser (v AND FRAME) (e AND FRAME) (c + KERNBASE) s))"
  shows "vm_ok s' \<and> wf_tree (pmem s') c (used_frames s') \<and>
    leaf_entry (pmem s') c v = (e AND FRAME) OR (PRESENT OR USER) \<and>
    (\<forall>w. same_page w v \<or> leaf_entry (pmem s') c w = leaf_entry (pmem s) c w \<or>
       leaf_entry (pmem s) c w = - 1 \<and> leaf_entry (pmem s') c w = 0) \<and>
    (\<forall>w. leaf_entry (pmem s') r w = leaf_entry (pmem s) r w) \<and> wf_tree (pmem s') r (used_frames s')"
proof -
  let ?v = "v AND FRAME" and ?s = "mapPageForUser (v AND FRAME) (e AND FRAME) (c + KERNBASE) s"
  have i: "get_PML4_INDEX ?v = get_PML4_INDEX v"
    using same_page_frame [of v] by (simp add: same_page_index idx3_def)
  have m: "mapped c ?v ((e AND FRAME) OR leaf_flags 1) s ?s"
    unfolding mapPageForUser_force by (rule forceMapPage_ok [OF ok wf ne])
  then have ok1: "vm_ok ?s" and wf1: "wf_tree (pmem ?s) c (used_frames ?s)"
    and oth: "others_kept c (get_PML4_INDEX v) s ?s" by (simp_all add: mapped_def i)
  have "leaf_entry (pmem ?s) c ?v \<noteq> - 1" by (simp add: mapped_leaf [OF m] read_only_entry(2))
  then obtain t where t: "tbl (pmem ?s) c (idx3 ?v) = Some t" using leaf_entry_table [of "pmem ?s" c ?v] by auto
  note M = mark_ok [OF ok1 wf1 t, of 1, folded s'_def]
  have L: "leaf_entry (pmem s') c w = (if same_page w v then (e AND FRAME) OR (PRESENT OR USER) else leaf_entry (pmem ?s) c w)" for w
    using M [of w] by (simp add: mapped_leaf [OF m] read_only_entry(1) same_page_trans_frame)
  have r1: "same_tree r (pmem s) (pmem ?s)" "wf_tree (pmem ?s) r (used_frames ?s)" "apart (pmem ?s) c r (get_PML4_INDEX v)"
    using oth wr ap unfolding others_kept_def by blast+
  have "others_kept c (get_PML4_INDEX v) ?s s'" using M unfolding i by blast
  then have r2: "same_tree r (pmem ?s) (pmem s')" "wf_tree (pmem s') r (used_frames s')"
    using r1 unfolding others_kept_def by blast+
  have R: "leaf_entry (pmem s') r w = leaf_entry (pmem s) r w" for w
    by (simp only: same_tree_leaf_entry [OF r2(1)] same_tree_leaf_entry [OF r1(1)])
  have "leaf_entry (pmem s') c v = (e AND FRAME) OR (PRESENT OR USER)" by (simp add: L same_page_def)
  moreover have O: "same_page w v \<or> leaf_entry (pmem ?s) c w = leaf_entry (pmem s) c w \<or>
       leaf_entry (pmem s) c w = - 1 \<and> leaf_entry (pmem ?s) c w = 0" for w
    using m unfolding mapped_def same_page_trans_frame by metis
  have "same_page w v \<or> leaf_entry (pmem s') c w = leaf_entry (pmem s) c w \<or>
       leaf_entry (pmem s) c w = - 1 \<and> leaf_entry (pmem s') c w = 0" for w
    using O [of w] by (auto simp: L)
  ultimately show ?thesis using M R r2(2) by blast
qed

section \<open>Properties\<close>

text \<open>C1: \<open>fork\<close> returns the pid of the child to the parent. The child is queued right behind the parent,
  the order of the other tasks is kept; it has the next pid, the parent as its parent, and a list of areas of its own that equals the
  parent's, whose list is unchanged. Of the registers of the parent at the system call its structure gets \<open>rbx\<close>, \<open>rcx\<close>, \<open>rdx\<close>, \<open>rsi\<close>,
  \<open>rdi\<close>, the flags, the instruction pointer and the stack pointer; \<open>rax\<close> is 0, and \<open>rbp\<close> is 0 as well, whatever the parent's was.\<close>

theorem fork_creates_child:
  assumes "fork_ready s ts ds vs"
  shows "\<exists>s' c us. fork s = Some (scast (pidCount s + 1), s') \<and> queues s' (c # ts) ds \<and>
    runningThread s' = runningThread s \<and> \<not> live s c \<and> pid_t (tasks s' c) = pidCount s + 1 \<and>
    ppid_t (tasks s' c) = pid_t (tasks s (runningThread s)) \<and> task_state (tasks s' c) = 1 \<and>
    (let r = regs (tasks s' c); u = userRegs s in rax r = 0 \<and> rbp r = 0 \<and> rbx r = rbx u \<and> rcx r = rcx u \<and> rdx r = rdx u \<and>
       rsi r = rsi u \<and> rdi r = rdi u \<and> rflags r = rflags u \<and> rip r = rip u \<and> userRsp r = userRsp u \<and> reg_count r = 0) \<and> vm_ok s' \<and>
    vma_list s' (task_mmap s' c) us \<and> map (\<lambda>v. area (vmas s' v)) us = map (\<lambda>v. area (vmas s v)) vs \<and>
    vma_list s' (run_mmap s') vs"
proof -
  from fork_ok [OF assms] obtain s' c us root kst where f: "fork s = Some (scast (pidCount s + 1), s')" "queues s' (c # ts) ds"
    "runningThread s' = runningThread s" "\<not> live s c" "pid_t (tasks s' c) = pidCount s + 1"
    "ppid_t (tasks s' c) = pid_t (tasks s (runningThread s))" "task_state (tasks s' c) = 1"
    "regs (tasks s' c) = child_regs (userRegs s) root kst" "vm_ok s'"
    "vma_list s' (task_mmap s' c) us" "map (\<lambda>v. area (vmas s' v)) us = map (\<lambda>v. area (vmas s v)) vs" "vma_list s' (run_mmap s') vs"
    by blast
  then show ?thesis
    by (intro exI [of _ s'] exI [of _ c] exI [of _ us]) (simp add: Let_def child_regs_def zero_regs_def)
qed

text \<open>A machine in which \<open>fork\<close> can run: one task, with one area of one page.\<close>

definition fork_kernel :: kernel where
  "fork_kernel = small_kernel\<lparr>runningThread := page_of 302 + KERNBASE, deleteQueue := NULL,
     tasks := (\<lambda>_. zero_task)(page_of 302 + KERNBASE := (small_task 5 (page_of 302 + KERNBASE))
       \<lparr>memMap := \<lparr>mm_count = 1, mmap = page_of 300 + KERNBASE\<rparr>\<rparr>),
     vmas := (\<lambda>_. zero_vma)(page_of 300 + KERNBASE := zero_vma\<lparr>v_start := 0x400000, v_end := 0x401000\<rparr>)\<rparr>"

lemma fork_kernel_ready: "fork_ready fork_kernel [] [] [page_of 300 + KERNBASE]"
proof -
  have ph: "vm_ok fork_kernel" "free_frames fork_kernel = free_frames small_vm" "used_frames fork_kernel = used_frames small_vm"
    "kernbase fork_kernel = KERNBASE"
    using small_ok small_kernel_sel(7,8)
    by (simp_all add: fork_kernel_def vm_ok_def phys_inv_def used_frames_def free_frames_def small_kernel_def vm.defs kernel.defs small_vm_def)
  have lv: "live fork_kernel (page_of 302 + KERNBASE)" "live fork_kernel (page_of 300 + KERNBASE)"
    by (auto simp: live_def ph used_frames_def free_small page_of_inj)
  have f: "runningThread fork_kernel = page_of 302 + KERNBASE" "deleteQueue fork_kernel = NULL"
    "tasks fork_kernel (page_of 302 + KERNBASE) = (small_task 5 (page_of 302 + KERNBASE))
       \<lparr>memMap := \<lparr>mm_count = 1, mmap = page_of 300 + KERNBASE\<rparr>\<rparr>"
    "vmas fork_kernel (page_of 300 + KERNBASE) = zero_vma\<lparr>v_start := 0x400000, v_end := 0x401000\<rparr>"
    by (simp_all add: fork_kernel_def)
  have "queues fork_kernel [] []"
    using live_not_null [OF lv(1)] by (simp add: queues_def f small_task_def)
  moreover have "area_pages fork_kernel [page_of 300 + KERNBASE] = 1"
    by (simp add: area_pages_def f num_pages_def)
  moreover have "vma_list fork_kernel (run_mmap fork_kernel) [page_of 300 + KERNBASE]"
    using lv(2) by (simp add: vma_list_def f zero_vma_def)
  ultimately show ?thesis using lv ph small_ok(2) by (simp add: fork_ready_def f)
qed

theorem fork_creates_child_witness:
  "\<exists>s' c. fork fork_kernel = Some (10, s') \<and> queues s' [c] [] \<and> pid_t (tasks s' c) = 10 \<and> ppid_t (tasks s' c) = 5"
proof -
  have "pidCount fork_kernel = 9" "pid_t (tasks fork_kernel (runningThread fork_kernel)) = 5"
    by (simp_all add: fork_kernel_def small_kernel_sel small_task_def)
  with fork_creates_child [OF fork_kernel_ready] show ?thesis by auto
qed

text \<open>The first entry of a forked child. When the scheduler enters the new task, the frame that
  \<open>iretq\<close> pops holds the instruction and stack pointer the parent had at its system call, with
  the user selectors and interrupts enabled; \<open>rax\<close> and \<open>rbp\<close> are 0, \<open>rsi\<close> is the address of the child's registers, and the address
  space is the child's own.\<close>

theorem child_first_entry:
  assumes "vm_ok s" and "tasks s c = zero_task" and "c \<noteq> runningThread s"
    and "vma_list s (run_mmap s) vs" and "\<forall>v \<in> set vs. unat (v_end (vmas s v)) + 4096 \<le> 2 ^ 64"
    and "4 * area_pages s vs + length vs + 2 \<le> card (free_frames s)"
  shows "\<exists>s'. createChildTask c s = Some s' \<and> (let e = enter_task c (prepare_entry c s') in
    iret_rip e = rip (userRegs s) \<and> iret_cs e = 0x2B \<and> iret_rflags e = rflags (userRegs s) OR 0x200 \<and>
    iret_rsp e = userRsp (userRegs s) \<and> iret_ss e = 0x23 \<and> rax (cpu_regs e) = 0 \<and>
    rbp (cpu_regs e) = 0 \<and> rsi (cpu_regs e) = regs_addr c \<and> cr3_reg e = cr3 (regs (tasks s' c)))"
proof -
  obtain s' k root t where s': "createChildTask c s = Some s'" "k < 65536" "vm_ok t"
    "regs (tasks s' c) = child_regs (userRegs s) root (page_of k + KERNBASE + 0x1000)"
    "s' = prepareInitialKernelStack (child_regs (userRegs s) root (page_of k + KERNBASE + 0x1000)) t"
    using createChildTask_ok [OF assms] by blast
  let ?R = "child_regs (userRegs s) root (page_of k + KERNBASE + 0x1000)" and ?e = "enter_task c (prepare_entry c s')"
  have kb: "kernbase t = KERNBASE" using s'(3) by (simp add: vm_ok_def)
  have kr: "kernelRsp ?R = page_of k + KERNBASE + 0x1000" by (simp add: child_regs_def)
  have kk: "KERNBASE + 40 \<le> kernelRsp ?R" unfolding kr by (rule stack_page_kernel [OF s'(2)])
  note F = prepared_frame [OF kb kk, folded s'(5), unfolded kr]
  have R: "regs (tasks (prepare_entry c s') c) = ?R\<lparr>reg_add := 40, reg_count := 1\<rparr>"
    by (simp add: prepare_entry_def Let_def s'(4) set_tss_rsp_def frame_simps) (simp add: child_regs_def zero_regs_def)
  have sp: "cpu_rsp ?e = page_of k + KERNBASE + 0x1000 - 40" "cpu_regs ?e = ?R\<lparr>reg_add := 40, reg_count := 1, rsi := regs_addr c\<rparr>"
    "cr3_reg ?e = cr3 ?R"
    by (simp_all add: frame_simps R kr)
  have rd: "rd ?e a = rd s' a" for a by (simp add: rd_def frame_simps)
  show ?thesis
    using F by (intro exI [of _ s']) (simp add: Let_def s'(1,4) iret_rip_def iret_cs_def iret_rflags_def
        iret_rsp_def iret_ss_def rd sp, simp add: child_regs_def zero_regs_def)
qed

theorem child_first_entry_witness:
  "\<exists>s'. createChildTask 0x50 fork_kernel = Some s' \<and>
     iret_cs (enter_task 0x50 (prepare_entry 0x50 s')) = 0x2B \<and> rax (cpu_regs (enter_task 0x50 (prepare_entry 0x50 s'))) = 0"
proof -
  note r = fork_kernel_ready [unfolded fork_ready_def]
  have n: "(0x50 :: u64) \<noteq> page_of 302 + KERNBASE" by (simp add: page_of_def KERNBASE_def)
  then have "tasks fork_kernel 0x50 = zero_task" "0x50 \<noteq> runningThread fork_kernel"
    by (simp_all add: fork_kernel_def)
  with child_first_entry [of fork_kernel "0x50" "[page_of 300 + KERNBASE]"] r show ?thesis by (auto simp: Let_def)
qed

text \<open>What \<open>fork\<close> does with a page of the parent that is not on its stack: the child maps the same
  frame at the same address, readable by the user and not writable; no other page of the child and
  no page of the parent changes.\<close>

theorem fork_shares_page:
  assumes ok: "vm_ok s" and wf: "wf_tree (pmem s) (cr3 (regs (tasks s c))) (used_frames s)"
    and wr: "wf_tree (pmem s) (getRunCr3 s) (used_frames s)" and ne: "3 \<le> card (free_frames s)"
    and ap: "apart (pmem s) (cr3 (regs (tasks s c))) (getRunCr3 s) (get_PML4_INDEX a)"
    and v: "v_end (vmas s v) \<noteq> get_stack_top"
    and e: "getPhysicalPageAddr a (getRunCr3 s) s = e" "e \<noteq> - 1" "e \<noteq> 0"
  shows "\<exists>s'. copy_parent_page c v a s = Some s' \<and>
    getPhysicalPageAddr a (cr3 (regs (tasks s c))) s' = (e AND FRAME) OR (PRESENT OR USER) \<and>
    (\<forall>w. same_page w a \<or> getPhysicalPageAddr w (cr3 (regs (tasks s c))) s' = getPhysicalPageAddr w (cr3 (regs (tasks s c))) s \<or>
       getPhysicalPageAddr w (cr3 (regs (tasks s c))) s = - 1 \<and> getPhysicalPageAddr w (cr3 (regs (tasks s c))) s' = 0) \<and>
    (\<forall>w. getPhysicalPageAddr w (getRunCr3 s) s' = getPhysicalPageAddr w (getRunCr3 s) s)"
proof -
  let ?c = "cr3 (regs (tasks s c))"
  let ?s' = "snd (markPageAsRW (a AND FRAME) (?c + KERNBASE) 1 (mapPageForUser (a AND FRAME) (e AND FRAME) (?c + KERNBASE) s))"
  have kb: "kernbase s = KERNBASE" using ok by (simp add: vm_ok_def)
  have "copy_parent_page c v a s = Some ?s'" using v e by (simp add: copy_parent_page_def Let_def kb)
  with share_page_ok [OF ok wf ne wr ap, of e] show ?thesis
    by (intro exI [of _ ?s']) (simp add: walk_leaf_entry [OF ok wf] walk_leaf_entry [OF ok wr] walk_leaf_entry)
qed

theorem fork_shares_page_witness:
  "\<exists>s'. copy_parent_page 0x50 0x60 0x400000 (upd_regs 0x50 (\<lambda>r. r\<lparr>cr3 := page_of 301\<rparr>) shared_kernel) = Some s' \<and>
     getPhysicalPageAddr 0x400000 (page_of 301) s' = page_of 300 OR (PRESENT OR USER)"
proof -
  let ?s = "upd_regs 0x50 (\<lambda>r. r\<lparr>cr3 := page_of 301\<rparr>) shared_kernel" and ?b = "small_kernel\<lparr>errorCode := 7\<rparr>"
  have u: "301 \<in> used_frames small_vm" by (simp add: used_frames_def free_small)
  have wf0: "wf_tree (pmem ?b) (page_of 301) (used_frames ?b)"
    using small_tree [OF u] by (simp add: small_kernel_sel)
  have ap0: "apart (pmem ?b) (page_of 256) (page_of 301) i" for i
    by (simp add: apart_def small_tbl page_of_inj small_kernel_sel)
  note m = shared_mapped
  have st: "same_tree (page_of 301) (pmem ?b) (pmem shared_kernel)"
    and wf: "wf_tree (pmem shared_kernel) (page_of 301) (used_frames shared_kernel)"
    using m wf0 ap0 unfolding mapped_def others_kept_def by blast+
  have "no_table (pmem ?b) (page_of 256) 301"
    by (simp add: no_table_def small_kernel_sel small_tbl page_of_inj)
  moreover have "301 \<in> used_frames ?b" using u by (simp add: small_kernel_sel)
  ultimately have nt: "no_table (pmem shared_kernel) (page_of 256) 301"
    using m unfolding mapped_def data_kept_def by blast
  have ap: "apart (pmem shared_kernel) (page_of 301) (page_of 256) i" for i
    unfolding apart_def
  proof (intro allI impI; elim conjE)
    fix ks js t assume k: "vpath ks" "vpath js" "tbl (pmem shared_kernel) (page_of 301) ks = Some t"
    have "t = page_of 301"
      using k(3) same_tree_tbl [OF st k(1)] by (simp add: small_kernel_sel small_tbl split: if_splits)
    with nt k(2) show "tbl (pmem shared_kernel) (page_of 256) js \<noteq> Some t" by (simp add: no_table_def)
  qed
  have c: "cr3 (regs (tasks ?s 0x50)) = page_of 301" and r: "getRunCr3 ?s = page_of 256"
    using shared_sel(5,8) by (simp_all add: frame_simps getRunCr3_def)
  have F: "vm_ok ?s" "pmem ?s = pmem shared_kernel" "used_frames ?s = used_frames shared_kernel"
    "free_frames ?s = free_frames shared_kernel"
    using shared_sel(1) by (simp_all add: frame_simps used_frames_def)
  have W: "getPhysicalPageAddr a b ?s = getPhysicalPageAddr a b shared_kernel" for a b
    by (simp add: getPhysicalPageAddr_def Let_def rd_def frame_simps cong: if_cong)
  have e: "getPhysicalPageAddr 0x400000 (getRunCr3 ?s) ?s = page_of 300 OR leaf_flags 1"
    unfolding r W by (rule shared_sel(3))
  have v: "v_end (vmas ?s 0x60) \<noteq> get_stack_top"
    using phys_onlyD(2) [OF shared_po] by (simp add: frame_simps small_kernel_sel zero_vma_def get_stack_top_def USER_VIRTUAL_STACK_TOP_def)
  have n: "page_of 300 OR leaf_flags 1 \<noteq> - 1" "page_of 300 OR leaf_flags 1 \<noteq> 0"
    by (simp_all add: page_of_def leaf_flags_def PRESENT_def WRITEABLE_def USER_def)
  obtain s' where s': "copy_parent_page 0x50 0x60 0x400000 ?s = Some s'"
    "getPhysicalPageAddr 0x400000 (cr3 (regs (tasks ?s 0x50))) s' = ((page_of 300 OR leaf_flags 1) AND FRAME) OR (PRESENT OR USER)"
    using fork_shares_page [OF F(1) _ _ _ _ v e n, of "0x50"] wf ap shared_sel(2,9) unfolding c r F by auto
  then show ?thesis unfolding c leaf_flags_user by blast
qed

end
