(* ===== verification/Exec.thy ===== *)
theory Exec
  imports Args ForkOk
begin

text \<open>
  Creating tasks and replacing programs (\<open>sys/task.c\<close>): kernel threads and \<open>yield\<close>, the first task \<open>initUserProcess\<close> starts, and \<open>exec\<close>,
  which builds a new task for a program and puts it in the place of the caller in the run queue, or ends the caller when
  there is no such program. The lemmas follow the address space of the new task from its root table to its last page.
\<close>

section \<open>Kernel threads\<close>

definition createThread :: "u64 \<Rightarrow> u64 \<Rightarrow> u64 \<Rightarrow> u64 \<Rightarrow> 'a kernel_scheme \<Rightarrow> 'a kernel_scheme" where
  "createThread task func flags root s =
     (case kmalloc s of (p, s1) \<Rightarrow>
      upd_task task (\<lambda>k. k\<lparr>regs := (regs k)\<lparr>rax := 0, rbx := 0, rcx := 0, rdx := 0, rsi := 0, reg_count := 0, reg_add := 0,
        rdi := 0, rflags := flags, rip := func, cr3 := root, userRsp := p + 0x1000, rbp := p + 0x1000\<rparr>, task_next := NULL\<rparr>) s1)"

definition initMultiTasking :: "u64 \<Rightarrow> 'a kernel_scheme \<Rightarrow> 'a kernel_scheme" where
  "initMultiTasking mainThread s = s\<lparr>runningThread := mainThread\<rparr>"

text \<open>
  \<open>_switchThread_\<close> saves the registers, with the return address it pops as \<open>rip\<close> and the stack pointer behind it, and loads those of
  the other thread. \<open>cpu\<close> is what the CPU holds: its registers, \<open>ret\<close> the return address on its stack at \<open>rsp\<close>.
\<close>

definition saved_regs :: "Registers \<Rightarrow> u64 \<Rightarrow> u64 \<Rightarrow> u64 \<Rightarrow> Registers \<Rightarrow> Registers" where
  "saved_regs cpu ret rsp root r = r\<lparr>rax := rax cpu, rip := ret, rbx := rbx cpu, rcx := rcx cpu, rdx := rdx cpu, rsi := rsi cpu,
     rdi := rdi cpu, rbp := rbp cpu, rflags := rflags cpu, cr3 := root, userRsp := rsp + 8\<rparr>"

definition yield :: "u64 \<Rightarrow> 'a kernel_scheme \<Rightarrow> 'a kernel_scheme" where
  "yield ret s =
     (let lst = runningThread s;
          new = tnext s lst;
          s1 = upd_regs lst (saved_regs (cpu_regs s) ret (cpu_rsp s) (cr3_reg s)) (s\<lparr>runningThread := new\<rparr>);
          r = regs (tasks s1 new)
      in s1\<lparr>cpu_regs := r\<lparr>rsi := rsi (cpu_regs s)\<rparr>, cpu_rsp := userRsp r, cr3_reg := cr3 r\<rparr>)"

section \<open>Arguments\<close>

text \<open>The area of the pages of the arguments, put in front of the others, and the pointer to them on the program's stack.\<close>

definition args_area :: "u64 \<Rightarrow> u64 \<Rightarrow> 'a kernel_scheme \<Rightarrow> 'a kernel_scheme" where
  "args_area task en s =
     (case kmalloc_vma s of (newVma, s1) \<Rightarrow>
      case getNextPageNum s1 of (pn, s2) \<Rightarrow>
      upd_mmap task newVma (upd_vma newVma (\<lambda>v. v\<lparr>pageNumber := pn, v_mm := memMap_addr (runningThread s2), v_start := ARGS_STACK,
        v_end := en, mmsz := en - ARGS_STACK, v_flags := 0, grows_down := 0, v_file := 0, v_offset := 0,
        vma_next := task_mmap s2 task\<rparr>) s2))"

definition pass_args :: "u64 \<Rightarrow> string list \<Rightarrow> string list \<Rightarrow> u64 \<Rightarrow> 'a kernel_scheme \<Rightarrow> 'a kernel_scheme" where
  "pass_args task args envp en s =
     (let c = cr3 (regs (tasks s task)) in
      case build_args args envp c s of (x, s1) \<Rightarrow>
      let s2 = pushSomeArgsToUser (userRsp (regs (tasks s1 task))) x c s1
      in args_area task en (upd_regs task (\<lambda>r. r\<lparr>userRsp := userRsp r - 8\<rparr>) s2))"

definition pushInitialParamstoStack :: "u64 \<Rightarrow> 'a kernel_scheme \<Rightarrow> 'a kernel_scheme" where
  "pushInitialParamstoStack task s =
     pass_args task [''sbush''] [''PWD=/'', ''PATH=/:/bin:/usr''] 0x322000 (snd (kmalloc (snd (kmalloc s))))"

section \<open>New tasks\<close>

abbreviation new_regs :: "u64 \<Rightarrow> u64 \<Rightarrow> Registers \<Rightarrow> Registers" where
  "new_regs func flags r \<equiv> r\<lparr>rax := 0, rbx := 0, rcx := 0, rdx := 0, rsi := 0, rdi := 0, rflags := flags, rip := func\<rparr>"

definition createNewTask :: "u64 \<Rightarrow> u64 \<Rightarrow> u64 \<Rightarrow> u64 \<Rightarrow> 'a kernel_scheme \<Rightarrow> 'a kernel_scheme option" where
  "createNewTask task func flags root s =
     (let s1 = upd_task task (\<lambda>k. k\<lparr>pid_t := pidCount s + 1, ppid_t := 0, regs := (new_regs func flags (regs k))\<lparr>cr3 := root\<rparr>\<rparr>)
                 (s\<lparr>pidCount := pidCount s + 1\<rparr>)
      in Option.bind (stackForUser task s1) (\<lambda>(top, s2).
        let s3 = upd_task task (\<lambda>k. k\<lparr>regs := (regs k)\<lparr>userRsp := top + 0x1000\<rparr>, task_state := 1, endHH := 0, endMM := 0, endSS := 0\<rparr>) s2;
            s4 = pushInitialParamstoStack task s3
        in case kmalloc s4 of (kst, s5) \<Rightarrow>
           let s6 = upd_task task (\<lambda>k. k\<lparr>regs := (regs k)\<lparr>kernelRsp := kst + 0x1000, rbp := userRsp (regs k), reg_count := 0, reg_add := 0\<rparr>,
                      task_next := NULL\<rparr>) s5
           in Some (prepareInitialKernelStack (regs (tasks s6 task)) s6)))"

definition createNewExecTask :: "u64 \<Rightarrow> u64 \<Rightarrow> u64 \<Rightarrow> u64 \<Rightarrow> 'a kernel_scheme \<Rightarrow> 'a kernel_scheme" where
  "createNewExecTask task func flags root s =
     (let pid = pid_t (tasks s (runningThread s));
          s1 = upd_task task (\<lambda>k. k\<lparr>pid_t := pid, ppid_t := 0, regs := new_regs func flags (regs k)\<rparr>)
                 (s\<lparr>foregroundPid := pid, pidCount := pidCount s + 1\<rparr>) in
      case kmalloc s1 of (kst, s2) \<Rightarrow>
      let s3 = upd_task task (\<lambda>k. k\<lparr>regs := (regs k)\<lparr>kernelRsp := kst + 0x1000, rbp := userRsp (regs k), reg_count := 0, reg_add := 0\<rparr>,
                 task_next := NULL, task_state := 1, endHH := 0, endMM := 0, endSS := 0\<rparr>) s2 in
      case kmalloc s3 of (fdp, s4) \<Rightarrow>
      let s5 = upd_task task (\<lambda>k. k\<lparr>fd_pointers := (\<lambda>i. if i = 0 then fdp else if i < 20 then 0 else fd_pointers k i), fd_count := 5\<rparr>) s4
      in prepareInitialKernelStack (regs (tasks s5 task)) s5)"

section \<open>Replacing the program\<close>

abbreviation sizeof_Task :: u64 where "sizeof_Task \<equiv> 552"

text \<open>
  The part of \<open>exec\<close> for a command that does not exist. \<open>task - get_kernbase()\<close> subtracts \<open>kernbase\<close> tasks from the pointer, so the
  bit \<open>pageDeAllocator\<close> sets is far behind the bitmap and the call has no value; \<open>abandon_caller\<close> is the code after it.
  The next task in the queue starts at the \<open>rip\<close> and \<open>userRsp\<close> kept since it was created.
\<close>

definition abandon_caller :: "string \<Rightarrow> 'a kernel_scheme \<Rightarrow> 'a kernel_scheme option" where
  "abandon_caller cmd s =
     (let s1 = kprintf ''%s : command not found\<newline>'' [KStr cmd] s;
          r = runningThread s1;
          s2 = upd_task r (\<lambda>k. k\<lparr>task_state := 0\<rparr>) s1 in
      case find_prev r s2 of
        None \<Rightarrow> None
      | Some temp \<Rightarrow>
          (let s3 = upd_task temp (\<lambda>k. k\<lparr>task_next := tnext s2 r\<rparr>) s2;
               n = tnext s3 r;
               s4 = upd_regs n (\<lambda>x. x\<lparr>reg_count := 0\<rparr>) (s3\<lparr>runningThread := n\<rparr>);
               s5 = prepareInitialKernelStack (regs (tasks s4 n)) s4
           in Some (enter_task n (prepare_entry n s5))))"

definition command_not_found :: "string \<Rightarrow> u64 \<Rightarrow> 'a kernel_scheme \<Rightarrow> 'a kernel_scheme option" where
  "command_not_found cmd task s =
     Option.bind (pageDeAllocator_checked (task - sizeof_Task * kernbase s) s) (abandon_caller cmd)"

text \<open>The array \<open>exeName\<close> has 15 characters; a longer path is written over what follows it (\<^term>\<open>None\<close>).\<close>

definition exec :: "(nat \<Rightarrow> char) \<Rightarrow> (nat \<Rightarrow> char) \<Rightarrow> string \<Rightarrow> string list \<Rightarrow> string list \<Rightarrow> 'a fs_scheme \<Rightarrow> (ctl \<times> 'a fs_scheme) option" where
  "exec stk stk2 cmd args envp s =
     (case kmalloc_task s of (task, s1) \<Rightarrow>
      case getNewPML4ForUser s1 of (newCr3, s2) \<Rightarrow>
      let s3 = upd_regs task (\<lambda>r. r\<lparr>cr3 := newCr3\<rparr>) s2 in
      Option.bind (stackForUser task s3) (\<lambda>(top, s4).
      let s5 = upd_regs task (\<lambda>r. r\<lparr>userRsp := top + 0x1000\<rparr>) s4 in
      Option.bind (loadFile stk stk2 cmd (newCr3 + kernbase s5) task s5) (\<lambda>(entryPoint, s6).
      if entryPoint = 0 then map_option (\<lambda>s'. (Entered, s')) (command_not_found cmd task s6)
      else
        let s7 = pass_args task args envp 0x321000 s6;
            s8 = createNewExecTask task entryPoint (rflags (regs (tasks s7 (runningThread s7)))) newCr3 s7 in
        if 15 \<le> length cmd then None
        else
          let s9 = upd_task task (\<lambda>k. k\<lparr>exeName := cmd, startHH := scast (getCurHr s8), startMM := scast (getCurMin s8),
                     startSS := scast (getCurSec s8)\<rparr>) s8
          in map_option (\<lambda>s'. (Entered, s')) (deleteRunningThreadAndJump task s9))))"

section \<open>The first process\<close>

definition enableIntr :: "'a kernel_scheme \<Rightarrow> 'a kernel_scheme" where
  "enableIntr s = outb 0xFE 0xA1 (outb 0xF8 0x21 s)"

text \<open>\<open>mainThread\<close> is the address of the kernel's static task. \<^term>\<open>Returned\<close>: there is no shell.\<close>

definition initUserProcess :: "(nat \<Rightarrow> char) \<Rightarrow> (nat \<Rightarrow> char) \<Rightarrow> u64 \<Rightarrow> 'a fs_scheme \<Rightarrow> (ctl \<times> 'a fs_scheme) option" where
  "initUserProcess stk stk2 mainThread s =
     (case getNewPML4ForUser s of (root, s1) \<Rightarrow>
      case kmalloc_task s1 of (t, s2) \<Rightarrow>
      Option.bind (loadFile stk stk2 ''/bin/sbush'' (root + kernbase s2) t s2) (\<lambda>(entry, s3).
      if entry = 0 then Some (Returned 0, s3)
      else
        let s4 = upd_task t (\<lambda>k. k\<lparr>exeName := ''/bin/sbush''\<rparr>) s3 in
        Option.bind (createNewTask t entry (rflags (regs (tasks s4 mainThread))) root s4) (\<lambda>s5.
          let s6 = upd_task t (\<lambda>k. k\<lparr>task_next := t\<rparr>) (upd_task mainThread (\<lambda>k. k\<lparr>task_next := t\<rparr>) s5);
              s7 = enableIntr s6;
              s8 = upd_task t (\<lambda>k. k\<lparr>startHH := scast (getCurHr s7), startMM := scast (getCurMin s7), startSS := scast (getCurSec s7)\<rparr>) s7
          in Some (Entered, switchToUserMode (clearScreen s8)))))"

section \<open>A new address space\<close>

lemma new_root_tbl:
  assumes c: "wf_tree m (page_of c) U" and g: "g \<notin> U" "g < 65536" "c < 65536"
    and m': "\<And>h k. h < 65536 \<Longrightarrow> k < 512 \<Longrightarrow> m' (slot h k) = (if h = g then (if k = 511 then m (slot c 511) else 0) else m (slot h k))"
    and ip: "vpath is" "is \<noteq> []"
  shows "tbl m' (page_of g) is = (if hd is = 511 then tbl m (page_of c) is else None)"
proof -
  obtain i js where i: "is = i # js" using ip(2) by (cases "is") auto
  with ip(1) have b: "i < 512" by (simp add: vpath_def)
  have n: "next_tbl m' (page_of g) i = (if i = 511 then next_tbl m (page_of c) 511 else None)"
    using m' [OF g(2) b] by (simp add: next_tbl_def slot_def)
  have no: "no_table m (page_of c) g"
    unfolding no_table_def
  proof (intro allI impI notI)
    fix js assume "vpath js" "tbl m (page_of c) js = Some (page_of g)"
    with c obtain h where "h \<in> U" "page_of g = page_of h" "h < 65536" by (rule wf_tree_frame)
    with g show False by (auto simp: page_of_inj)
  qed
  have "same_tree (page_of c) m m'" by (rule data_write_tree [OF c no]) (simp add: m')
  then have t: "tbl m' (page_of c) is = tbl m (page_of c) is" using ip(1) by (rule same_tree_tbl)
  have "c \<noteq> g"
    using no by (auto simp: no_table_def dest: spec [of _ "[]"])
  then have "next_tbl m' (page_of c) 511 = next_tbl m (page_of c) 511"
    using m' [OF g(3), of 511] by (simp add: next_tbl_def slot_def)
  with t n show ?thesis by (cases "i = 511") (simp_all add: i)
qed

lemma new_root_tree:
  assumes ok: "vm_ok s" and ne: "free_frames s \<noteq> {}" and c: "cr3_reg s = page_of c" "wf_tree (pmem s) (page_of c) (used_frames s)"
    and cu: "c \<in> used_frames s"
  shows "\<exists>g s'. g \<in> free_frames s \<and> getNewPML4ForUser s = (page_of g, s') \<and> vm_ok s' \<and> free_frames s' = free_frames s - {g} \<and>
    wf_tree (pmem s') (page_of g) (used_frames s') \<and>
    (\<forall>r. wf_tree (pmem s) r (used_frames s) \<longrightarrow> wf_tree (pmem s') r (used_frames s')) \<and>
    (\<forall>r i. wf_tree (pmem s) r (used_frames s) \<and> apart (pmem s) r (page_of c) i \<longrightarrow> apart (pmem s') r (page_of g) i) \<and>
    (\<forall>r i. wf_tree (pmem s) r (used_frames s) \<and> i \<noteq> 511 \<longrightarrow> apart (pmem s') (page_of g) r i)"
proof -
  obtain root s' where r: "getNewPML4ForUser s = (root, s')" by fastforce
  from getNewPML4ForUser_shares_kernel [OF ok ne c(1) cu r] obtain g where g: "g \<in> free_frames s" "root = page_of g"
    "vm_ok s'" "free_frames s' = free_frames s - {g}"
    "\<And>k. k < 512 \<Longrightarrow> pmem s' (slot g k) = (if k = 511 then pmem s (slot c 511) else 0)"
    "\<And>h k. h < 65536 \<Longrightarrow> k < 512 \<Longrightarrow> h \<noteq> g \<Longrightarrow> pmem s' (slot h k) = pmem s (slot h k)" by blast
  have "phys_inv s" using ok by (simp add: vm_ok_def)
  from free_frames_bound [OF this] g(1) have b1: "g < 65536" and b0: "0 < g" by auto
  have b2: "c < 65536" by (rule used_frame_bound [OF cu])
  have b3: "g \<notin> used_frames s" using g(1) unfolding used_frames_def by blast
  have U: "used_frames s' = insert g (used_frames s)" unfolding used_frames_def g(4) using g(1) b1 b0 by blast
  have T: "tbl (pmem s') (page_of g) is = (if hd is = 511 then tbl (pmem s) (page_of c) is else None)" if "vpath is" "is \<noteq> []" for "is"
  proof (rule new_root_tbl [OF c(2) b3 b1 b2 _ that])
    show "pmem s' (slot h k) = (if h = g then if k = 511 then pmem s (slot c 511) else 0 else pmem s (slot h k))"
      if "h < 65536" "k < 512" for h k using that g(5,6) by (cases "h = g") simp_all
  qed
  have S: "same_tree r (pmem s) (pmem s')" if "wf_tree (pmem s) r (used_frames s)" for r
    by (rule data_write_tree [OF that free_no_table [OF that g(1) ok] g(6)])
  have old: "\<exists>f \<in> used_frames s. t = page_of f" if "vpath is" "is \<noteq> []" "tbl (pmem s') (page_of g) is = Some t" for "is" t
  proof -
    have "tbl (pmem s) (page_of c) is = Some t" using that(3) T [OF that(1,2)] by (simp split: if_splits)
    with c(2) that(1) show ?thesis unfolding wf_tree_def by blast
  qed
  have notg: "page_of f \<noteq> page_of g" if "f \<in> used_frames s" for f
    using that b1 b3 used_frame_bound [of f s] page_of_inj [of f g] by auto
  have "wf_tree (pmem s') (page_of g) (used_frames s')"
    unfolding wf_tree_def
  proof (intro conjI allI impI; (elim conjE)?)
    show "used_frames s' \<subseteq> {..<65536}" by (rule used_frames_bound)
    show "\<exists>f \<in> used_frames s'. t = page_of f" if "vpath is" "tbl (pmem s') (page_of g) is = Some t" for "is" t
      using that old [of "is" t] by (cases "is = []") (auto simp: U)
    fix is1 is2 t assume a: "vpath is1" "vpath is2" "tbl (pmem s') (page_of g) is1 = Some t" "tbl (pmem s') (page_of g) is2 = Some t"
    show "is1 = is2"
    proof (cases "is1 = [] \<or> is2 = []")
      case True
      have "js = []" if "tbl (pmem s') (page_of g) js = Some (page_of g)" "vpath js" for js
        using old [OF that(2) _ that(1)] notg by metis
      from this [of is1] this [of is2] True a show ?thesis by auto
    next
      case False
      then have "tbl (pmem s) (page_of c) is1 = Some t" "tbl (pmem s) (page_of c) is2 = Some t"
        using a T [of is1] T [of is2] by (auto split: if_splits)
      with c(2) a(1,2) show ?thesis unfolding wf_tree_def by blast
    qed
  qed
  moreover have "wf_tree (pmem s') r (used_frames s')" if "wf_tree (pmem s) r (used_frames s)" for r
    by (rule wf_tree_mono [OF same_tree_wf [OF S [OF that] that]]) (use U used_frames_bound in auto)
  moreover have "apart (pmem s') r (page_of g) i" if w: "wf_tree (pmem s) r (used_frames s)" and ap: "apart (pmem s) r (page_of c) i" for r i
    unfolding apart_def
  proof (intro allI impI notI; elim conjE)
    fix ks js t assume k: "vpath ks" "vpath js" "ks = [] \<or> hd ks = i" "tbl (pmem s') r ks = Some t" "tbl (pmem s') (page_of g) js = Some t"
    have t: "tbl (pmem s) r ks = Some t" using same_tree_tbl [OF S [OF w] k(1)] k(4) by simp
    obtain f where f: "f \<in> used_frames s" "t = page_of f" using w k(1) t unfolding wf_tree_def by blast
    with notg [OF f(1)] have "js \<noteq> []" using k(5) by auto
    with k(2,5) T [of js] have "tbl (pmem s) (page_of c) js = Some t" by (auto split: if_splits)
    with ap k(1-3) t show False unfolding apart_def by blast
  qed
  moreover have "apart (pmem s') (page_of g) r i" if w: "wf_tree (pmem s) r (used_frames s)" and "i \<noteq> 511" for r i
    unfolding apart_def
  proof (intro allI impI notI; elim conjE)
    fix ks js t assume k: "vpath ks" "vpath js" "ks = [] \<or> hd ks = i" "tbl (pmem s') (page_of g) ks = Some t" "tbl (pmem s') r js = Some t"
    have "ks = []" using T [of ks] k(1,3,4) \<open>i \<noteq> 511\<close> by (cases "ks = []") auto
    then have t: "tbl (pmem s) r js = Some (page_of g)" using same_tree_tbl [OF S [OF w] k(2)] k(4,5) by simp
    obtain f where f: "f \<in> used_frames s" "page_of g = page_of f" "f < 65536" using w k(2) t by (rule wf_tree_frame)
    with notg [OF f(1)] show False by simp
  qed
  ultimately show ?thesis using g(1-4) r by blast
qed

lemma apart_mapped:
  assumes "data_kept r s s'" "same_tree k (pmem s) (pmem s')" "wf_tree (pmem s) k (used_frames s)" "apart (pmem s) k r i"
  shows "apart (pmem s') k r i"
  unfolding apart_def
proof (intro allI impI; elim conjE)
  fix ks js t assume k: "vpath ks" "vpath js" "ks = [] \<or> hd ks = i" "tbl (pmem s') k ks = Some t"
  have t: "tbl (pmem s) k ks = Some t" using same_tree_tbl [OF assms(2) k(1)] k(4) by simp
  obtain f where f: "f \<in> used_frames s" "t = page_of f" using assms(3) k(1) t unfolding wf_tree_def by blast
  have "no_table (pmem s) r f" using assms(4) k(1,3) t f(2) unfolding apart_def no_table_def by blast
  then have "no_table (pmem s') r f" using assms(1) f(1) unfolding data_kept_def by blast
  then show "tbl (pmem s') r js \<noteq> Some t" using f(2) k(2) by (simp add: no_table_def)
qed

section \<open>The stack of a program\<close>

abbreviation (input) USER_STACK :: u64 where "USER_STACK \<equiv> USER_VIRTUAL_STACK_TOP - 0x1000"

lemma stack_page_ok:
  fixes s :: "'a kernel_scheme"
  assumes ok: "vm_ok s" and wr: "wf_tree (pmem s) r (used_frames s)" and wk: "wf_tree (pmem s) k (used_frames s)"
    and ap: "apart (pmem s) r k (get_PML4_INDEX v)" "apart (pmem s) k r (get_PML4_INDEX v)" and c: "7 \<le> card (free_frames s)"
    and al: "pageAllocator s = (ptr, s1)"
  defines "s2 \<equiv> mapPageForUser v ptr (r + kernbase s1) s1"
  defines "s3 \<equiv> forceMapPage v ptr (k + KERNBASE) 0 s2"
  defines "s4 \<equiv> memset (ptr + kernbase s3) s3"
  shows "\<exists>g. holds_page r v (\<lambda>_. 0) g s4 \<and> vm_ok s4 \<and> wf_tree (pmem s4) r (used_frames s4) \<and>
    phys_only s s4 \<and> card (free_frames s) \<le> card (free_frames s4) + 7 \<and> used_frames s \<subseteq> used_frames s4"
proof -
  have inv: "phys_inv s" and kb: "kernbase s = KERNBASE" using ok by (simp_all add: vm_ok_def)
  have ne: "free_frames s \<noteq> {}" using c by auto
  note A = pageAllocator_step [OF inv ne]
  define g where "g = Min (free_frames s)"
  have g: "g \<in> free_frames s" using ne by (simp add: g_def)
  from free_frames_bound [OF inv g] have gb: "0 < g" "g < 65536" by simp_all
  have p: "ptr = page_of g" "s1 = markasUsed (of_nat g) s" using A(1) al by (simp_all add: g_def)
  have s1: "vm_ok s1" "free_frames s1 = free_frames s - {g}" "pmem s1 = pmem s" "kernbase s1 = KERNBASE"
    using A(2,3) kb by (simp_all add: p(2) g_def vm_ok_def frame_simps)
  have U1: "used_frames s1 = insert g (used_frames s)" using s1(2) g gb by (auto simp: used_frames_def)
  have w1: "wf_tree (pmem s1) q (used_frames s1)" if "wf_tree (pmem s) q (used_frames s)" for q
    unfolding s1(3) by (rule wf_tree_mono [OF that]) (use U1 used_frames_bound in auto)
  have n1: "no_table (pmem s1) q g" if "wf_tree (pmem s) q (used_frames s)" for q
    unfolding s1(3) by (rule free_no_table [OF that g ok])
  have c1: "card (free_frames s) = Suc (card (free_frames s1))"
    using card_Suc_Diff1 [OF finite_free_frames g] by (simp add: s1(2))
  have m2: "mapped r v (page_of g OR leaf_flags 1) s1 s2"
    unfolding s2_def mapPageForUser_force s1(4) p(1) by (rule forceMapPage_ok [OF s1(1) w1 [OF wr]]) (use c c1 in simp)
  then have ok2: "vm_ok s2" and wr2: "wf_tree (pmem s2) r (used_frames s2)" and d2: "data_kept r s1 s2"
    and o2: "others_kept r (get_PML4_INDEX v) s1 s2" and c2: "card (free_frames s1) \<le> 3 + card (free_frames s2)"
    by (simp_all add: mapped_def)
  have k2: "same_tree k (pmem s1) (pmem s2)" "wf_tree (pmem s2) k (used_frames s2)"
    using o2 w1 [OF wk] ap(1) unfolding others_kept_def s1(3) by blast+
  have a2: "apart (pmem s2) k r (get_PML4_INDEX v)"
    by (rule apart_mapped [OF d2 k2(1) w1 [OF wk]]) (use ap(2) s1(3) in simp)
  have m3: "mapped k v (page_of g OR leaf_flags 0) s2 s3"
    unfolding s3_def p(1) by (rule forceMapPage_ok [OF ok2 k2(2)]) (use c c1 c2 in simp)
  then have ok3: "vm_ok s3" and d3: "data_kept k s2 s3" and o3: "others_kept k (get_PML4_INDEX v) s2 s3"
    and c3: "card (free_frames s2) \<le> 3 + card (free_frames s3)" by (simp_all add: mapped_def)
  have r3: "same_tree r (pmem s2) (pmem s3)" "wf_tree (pmem s3) r (used_frames s3)"
    using o3 wr2 a2 unfolding others_kept_def by blast+
  have g2: "g \<in> used_frames s2" "no_table (pmem s2) r g" using d2 U1 n1 [OF wr] unfolding data_kept_def by blast+
  then have g3: "g \<in> used_frames s3" "no_table (pmem s3) r g" using d3 no_table_same [OF r3(1)] unfolding data_kept_def by blast+
  have s4: "s4 = s3\<lparr>pmem := zero_words 512 (page_of g) (pmem s3)\<rparr>"
    unfolding s4_def kernbase_ok [OF ok3] p(1) by (rule memset_page [OF gb(2) kernbase_ok [OF ok3]])
  have fw: "frame_write g s3 s4"
    using gb(2) by (simp add: frame_write_def s4 zero_page_slot)
  note E = extends_write [OF fw ok3 r3(2) g3(2)]
  have "leaf_entry (pmem s4) r v = page_of g OR leaf_flags 1"
    using E(4) same_tree_leaf_entry [OF r3(1)] mapped_leaf [OF m2] by simp
  moreover have "pbyte (pmem s4) g j = 0" if "j < 4096" for j
  proof -
    have "pbyte (pmem s4) g j = pbyte (\<lambda>_. 0) g j"
      by (rule pbyte_slots [OF gb(2) that]) (simp add: s4 zero_page_slot gb(2))
    then show ?thesis by (simp add: pbyte_def get_byte_def)
  qed
  ultimately have "holds_page r v (\<lambda>_. 0) g s4"
    using g3(1) E(2,3) by (simp add: holds_page_def used_frames_def)
  moreover have "phys_only s s4"
  proof -
    have "phys_only s s1" by (simp add: p(2))
    moreover have "phys_only s1 s2" "phys_only s2 s3" "phys_only s3 s4" by (simp_all add: s2_def s3_def s4_def)
    ultimately show ?thesis by (blast intro: phys_only_trans)
  qed
  moreover have "used_frames s \<subseteq> used_frames s4"
    using U1 d2 d3 extends_ok(3) [OF E(1)] unfolding data_kept_def by blast
  ultimately show ?thesis
    using extends_ok(1,2) [OF E(1)] c1 c2 c3 E(3) by (intro exI [of _ g]) simp
qed

lemma stackForUser_ok:
  fixes s :: "'a kernel_scheme"
  assumes ok: "vm_ok s" and wr: "wf_tree (pmem s) r (used_frames s)" and wk: "wf_tree (pmem s) k (used_frames s)"
    and ap: "apart (pmem s) r k (get_PML4_INDEX USER_STACK)" "apart (pmem s) k r (get_PML4_INDEX USER_STACK)"
    and c: "8 \<le> card (free_frames s)" and r: "cr3 (regs (tasks s t)) = r" "pml4 s = k + KERNBASE"
    and l: "vma_list s (task_mmap s t) ws"
  shows "\<exists>s' new g. stackForUser t s = Some (USER_STACK, s') \<and> holds_page r USER_STACK (\<lambda>_. 0) g s' \<and> vm_ok s' \<and>
    wf_tree (pmem s') r (used_frames s') \<and> vma_list s' (task_mmap s' t) (ws @ [new]) \<and> same_rest t s s' \<and>
    kernel.more s' = kernel.more s \<and> card (free_frames s) \<le> card (free_frames s') + 8 \<and> used_frames s \<subseteq> used_frames s'"
proof -
  obtain ptr s1 where al: "pageAllocator s = (ptr, s1)" by fastforce
  have "phys_only s s1" using phys_only_alloc [of s] al by simp
  note P1 = phys_onlyD [OF this]
  define s2 where "s2 = mapPageForUser USER_STACK ptr (r + kernbase s1) s1"
  have "phys_only s1 s2" by (simp add: s2_def)
  note P2 = phys_onlyD [OF this]
  define s3 where "s3 = forceMapPage USER_STACK ptr (k + KERNBASE) 0 s2"
  define s4 where "s4 = memset (ptr + kernbase s3) s3"
  have c7: "7 \<le> card (free_frames s)" using c by simp
  from stack_page_ok [OF ok wr wk ap c7 al, folded s2_def, folded s3_def, folded s4_def] obtain g where
    g: "holds_page r USER_STACK (\<lambda>_. 0) g s4" "vm_ok s4" "wf_tree (pmem s4) r (used_frames s4)" "phys_only s s4"
      "card (free_frames s) \<le> card (free_frames s4) + 7" "used_frames s \<subseteq> used_frames s4" by blast
  note P4 = phys_onlyD [OF g(4)]
  have l4: "vma_list s4 (task_mmap s4 t) ws"
  proof -
    have "live s4 v" if "live s v" for v using that g(6) unfolding live_def by blast
    then show ?thesis using l unfolding P4(1) by (simp add: vma_list_def P4(2))
  qed
  define fill :: "VMA \<Rightarrow> VMA" where "fill = (\<lambda>v. v\<lparr>vma_next := NULL, grows_down := 1, v_start := USER_STACK,
    v_end := USER_VIRTUAL_STACK_TOP, mmsz := 0x1000\<rparr>)"
  have "vma_next (fill v) = NULL" for v by (simp add: fill_def)
  moreover have "free_frames s4 \<noteq> {}" using c g(5) by auto
  ultimately obtain s' new where L: "link_area fill t s4 = Some s'" "vma_list s' (task_mmap s' t) (ws @ [new])"
    "extends r {} {} s4 s'" "card (free_frames s4) \<le> Suc (card (free_frames s'))" "kernel.more s' = kernel.more s4" "same_rest t s4 s'"
    using link_area_ok [where fill = fill, OF _ g(2) _ g(3) l4] by blast
  have e: "cr3 (regs (tasks s1 t)) = r" "pml4 s2 = k + KERNBASE" by (simp_all add: P1 P2 r)
  have "stackForUser t s = map_option (\<lambda>s'. (USER_STACK, s')) (link_area fill t s4)"
    unfolding stackForUser_def al prod.case Let_def e(1) s2_def [symmetric] e(2) s3_def [symmetric] s4_def [symmetric] link_area_def fill_def
    by (simp split: option.split prod.split)
  moreover have "same_rest t s s'" using same_rest_trans [OF same_rest_phys [OF g(4)] L(6)] .
  moreover have "holds_page r USER_STACK (\<lambda>_. 0) g s'" by (rule extendsD [OF L(3) g(1)]) simp_all
  ultimately show ?thesis
    using L extends_ok [OF L(3)] g(5,6) phys_only_more [OF g(4)]
    by (intro exI [of _ s'] exI [of _ new] exI [of _ g]) auto
qed

section \<open>Passing the arguments\<close>

lemma word_write:
  fixes x :: u64
  assumes "vm_ok s" "wf_tree (pmem s) r (used_frames s)" "holds_page r v (word_byte w) g s" "k < 512"
  defines "s' \<equiv> s\<lparr>pmem := (pmem s)(slot g (of_nat k) := x)\<rparr>"
  shows "holds_page r v (word_byte (w(k := x))) g s' \<and> written r g s s'"
proof -
  have g: "g < 65536" "g \<in> used_frames s" "no_table (pmem s) r g" "leaf_entry (pmem s) r v = page_of g OR leaf_flags 1"
    "\<forall>j < 4096. pbyte (pmem s) g j = word_byte w j"
    using assms(3) used_frame_bound by (auto simp: holds_page_def)
  have kb: "of_nat k < (512 :: u64)" if "k < 512" for k
    using that by (simp add: word_less_nat_alt unat_of_nat take_bit_nat_eq_self)
  have ki: "of_nat k = (of_nat m :: u64) \<longleftrightarrow> k = m" if "k < 512" "m < 512" for k m
    using that by (simp add: unat_of_nat take_bit_nat_eq_self word_unat_eq_iff)
  have fw: "frame_write g s s'"
    using g(1) kb [OF assms(4)] by (auto simp: frame_write_def s'_def slot_inj)
  note E = extends_write [OF fw assms(1,2) g(3)]
  have "pmem s' (slot g (of_nat j)) = (w(k := x)) j" if "j < 512" for j
    using g(5) that kb [OF that] kb [OF assms(4)] ki [OF that assms(4)] slot_inj [OF g(1) _ g(1)]
    unfolding page_words [OF g(1)] by (simp add: s'_def)
  then have "\<forall>j < 4096. pbyte (pmem s') g j = word_byte (w(k := x)) j"
    unfolding page_words [OF g(1)] by blast
  with g E(2,4) fw E(1,3) show ?thesis by (simp add: written_def holds_page_def used_frames_def)
qed

lemma zero_page_words: "holds_page r v (\<lambda>_. 0) g s = holds_page r v (word_byte (\<lambda>_. 0)) g s"
  by (simp add: holds_page_def word_byte_def)

lemma stack_addr:
  "USER_STACK AND 0xFFF = 0" "USER_VIRTUAL_STACK_TOP - 8 = USER_STACK + of_nat (8 * 511)" "USER_VIRTUAL_STACK_TOP - 8 < KERNBASE"
  by (simp_all add: USER_VIRTUAL_STACK_TOP_def KERNBASE_def)

lemma stack_page_apart:
  assumes "i < 2 ^ 20"
  shows "\<not> same_page (page_addr ARGS_STACK i) USER_STACK"
proof
  assume "same_page (page_addr ARGS_STACK i) USER_STACK"
  then have "unat (take_bit 36 (drop_bit 12 (page_addr ARGS_STACK i))) = unat (take_bit 36 (drop_bit 12 (page_addr USER_STACK 0)))"
    by (simp add: same_page_def)
  then have "(unat ARGS_STACK div 4096 + i) mod 2 ^ 36 = (unat USER_STACK div 4096 + 0) mod 2 ^ 36"
    by (subst (asm) page_number, use assms in simp, subst (asm) page_number, simp) 
  with assms show False by (simp add: USER_VIRTUAL_STACK_TOP_def)
qed

lemma push_stack:
  fixes x :: u64
  assumes "vm_ok s" "wf_tree (pmem s) r (used_frames s)" "holds_page r USER_STACK (\<lambda>_. 0) g s"
  defines "s' \<equiv> pushSomeArgsToUser USER_VIRTUAL_STACK_TOP x r s"
  shows "(\<exists>w. holds_page r USER_STACK (word_byte w) g s' \<and> w 511 = x) \<and> written r g s s'"
proof -
  have a: "v2p s r (USER_STACK + of_nat (8 * 511)) = page_of g + of_nat (8 * 511)"
    by (rule user_v2p [OF assms(1,2) stack_addr(1) assms(3)]) (simp, simp only: stack_addr(2) [symmetric] stack_addr(3))
  have "page_of g + of_nat (8 * 511) = slot g (of_nat 511)" by (simp add: slot_def)
  then have s': "s' = s\<lparr>pmem := (pmem s)(slot g (of_nat 511) := x)\<rparr>"
    unfolding s'_def pushSomeArgsToUser_def uwr_def stack_addr(2) a by (simp only:)
  have "holds_page r USER_STACK (word_byte ((\<lambda>_. 0)(511 := x))) g s' \<and> written r g s s'"
    unfolding s' by (rule word_write [OF assms(1,2) assms(3) [unfolded zero_page_words]]) simp
  moreover have "((\<lambda>_. 0)(511 := x)) 511 = x" by simp
  ultimately show ?thesis by blast
qed

lemma laid_out_extends:
  assumes "args_laid_out r U args envp s" and "extends r V F s s'" and "F \<subseteq> U"
    and "\<And>x i. x \<in> V \<Longrightarrow> i < length envp + 3 \<Longrightarrow> \<not> same_page (page_addr ARGS_STACK i) x"
  shows "args_laid_out r U args envp s'"
  unfolding args_laid_out_def
proof (intro conjI allI impI)
  have k: "holds_page r (page_addr ARGS_STACK i) c g s'" if "holds_page r (page_addr ARGS_STACK i) c g s" "g \<notin> U" "i < length envp + 3" for i c g
    by (rule extendsD [OF assms(2) that(1)]) (use assms(3,4) that in auto)
  show "\<exists>A. A \<notin> U \<and> arg_stack r A (arg_words args (length envp)) s'"
    using assms(1) k [of 0] unfolding args_laid_out_def arg_stack_def by auto
  show "\<exists>N. N \<notin> U \<and> holds_page r ARGS_STRINGS (text_bytes (packed (rev args))) N s'"
    using assms(1) k [of 1] unfolding args_laid_out_def arg_page_addr(2) [symmetric] by auto
  fix j assume j: "j \<le> length envp"
  show "\<exists>g. g \<notin> U \<and> holds_page r (page_addr ENV_START j) (text_bytes ((envp @ [[]]) ! j @ [CHR 0x00])) g s'"
    using assms(1) k [of "j + 2"] j unfolding args_laid_out_def env_addr by fastforce
qed

lemma args_area_ok:
  fixes s :: "'a kernel_scheme" and t en :: u64
  assumes "vm_ok s" "wf_tree (pmem s) r (used_frames s)" "1 \<le> card (free_frames s)"
  defines "s' \<equiv> args_area t en s"
  shows "extends r {} {} s s' \<and> same_rest t s s' \<and> kernel.more s' = kernel.more s \<and> card (free_frames s) \<le> card (free_frames s') + 1"
proof -
  have ne: "free_frames s \<noteq> {}" using assms(3) by auto
  obtain p s1 where k: "kmalloc s = (p, s1)" by fastforce
  have po: "phys_only s s1" using phys_only_kmalloc [of s] k by simp
  from extends_kmalloc [OF assms(1) ne assms(2) k] obtain g where g: "g \<in> free_frames s" "free_frames s1 = free_frames s - {g}"
    "extends r {} {} s s1" by blast
  have e: "pmem s' = pmem s1" "free_frames s' = free_frames s1" "vm_ok s' = vm_ok s1" "kernel.more s' = kernel.more s1"
    "same_rest t s1 s'"
    by (simp_all add: s'_def args_area_def kmalloc_vma_def k Let_def case_prod_beta frame_simps pagenum_mem upd_more upd_mmap_def
        same_rest_def)
  have "card (free_frames s) \<le> card (free_frames s') + 1" using g by (simp add: e(2) card_Diff_singleton)
  then show ?thesis
    using extends_cong [OF g(3) e(1,2,3)] same_rest_trans [OF same_rest_phys [OF po] e(5)] phys_only_more [OF po] e(4) by simp
qed

lemma stack_word:
  assumes "vm_ok s" "wf_tree (pmem s) r (used_frames s)" "holds_page r USER_STACK (word_byte w) g s"
  shows "user_word r s (USER_VIRTUAL_STACK_TOP - 8) = w 511"
  unfolding stack_addr(2)
  by (rule page_word_read [OF assms(1,2) stack_addr(1) assms(3)]) (simp, simp only: stack_addr(2) [symmetric] stack_addr(3))

lemma same_rest_task:
  assumes "same_rest t s s'"
  shows "regs (tasks s' x) = regs (tasks s x)" "pid_t (tasks s' x) = pid_t (tasks s x)" "task_next (tasks s' x) = task_next (tasks s x)"
proof -
  have e: "tasks s' x = (if x = t then (tasks s t)\<lparr>memMap := memMap (tasks s' t)\<rparr> else tasks s x)"
    using assms unfolding same_rest_def by simp
  show "regs (tasks s' x) = regs (tasks s x)" "pid_t (tasks s' x) = pid_t (tasks s x)" "task_next (tasks s' x) = task_next (tasks s x)"
    by (subst e, simp)+
qed

lemma pass_args_ok:
  fixes s :: "'a kernel_scheme" and t en :: u64
  assumes ok: "vm_ok s" "wf_tree (pmem s) r (used_frames s)" and c: "4 * length envp + 13 \<le> card (free_frames s)"
    and n: "length envp \<le> 32" "\<forall>e \<in> set envp. length e \<le> 512" "length args \<le> 400" "length (packed args) \<le> 512"
    and rg: "cr3 (regs (tasks s t)) = r" "userRsp (regs (tasks s t)) = USER_VIRTUAL_STACK_TOP" and st: "holds_page r USER_STACK (\<lambda>_. 0) g s"
  defines "s' \<equiv> pass_args t args envp en s"
  shows "args_laid_out r (used_frames s) args envp s' \<and>
    (\<exists>w. holds_page r USER_STACK (word_byte w) g s' \<and> w 511 = ARGS_STRINGS - 8 * of_nat (length args + 36) - 8) \<and>
    extends r (insert USER_STACK (arg_pages (length envp))) {g} s s' \<and>
    same_rest t (upd_regs t (\<lambda>r. r\<lparr>userRsp := userRsp r - 8\<rparr>) s) s' \<and> kernel.more s' = kernel.more s \<and>
    card (free_frames s) \<le> card (free_frames s') + 4 * length envp + 13"
proof -
  let ?n = "length envp" and ?f = "\<lambda>r. r\<lparr>userRsp := userRsp r - 8\<rparr>"
  define V :: u64 where "V = ARGS_STRINGS - 8 * of_nat (length args + 36) - 8"
  obtain s1 where s1: "build_args args envp r s = (V, s1)" "args_laid_out r (used_frames s) args envp s1"
    "extends r (arg_pages ?n) {} s s1" "phys_only s s1" "card (free_frames s) \<le> card (free_frames s1) + 4 * ?n + 12"
    using build_args_ok [OF ok _ n(1,2,3,4)] c unfolding V_def by auto
  have gU: "g \<in> used_frames s" using st by (simp add: holds_page_def)
  have ap: "\<not> same_page (page_addr ARGS_STACK i) USER_STACK" "\<not> same_page USER_STACK (page_addr ARGS_STACK i)" if "i < ?n + 3" for i
    using stack_page_apart [of i] that n(1) by (simp_all add: same_page_def)
  have st1: "holds_page r USER_STACK (\<lambda>_. 0) g s1"
    by (rule extendsD [OF s1(3) st]) (use ap in \<open>auto simp: arg_pages_def\<close>)
  define s2 where "s2 = pushSomeArgsToUser USER_VIRTUAL_STACK_TOP V r s1"
  obtain w where w: "holds_page r USER_STACK (word_byte w) g s2" "w 511 = V" "written r g s1 s2"
    using push_stack [OF extends_ok(1,2) [OF s1(3)] st1, of V] unfolding s2_def by blast
  have w2: "extends r {} {g} s1 s2" "free_frames s2 = free_frames s1" "phys_only s s2"
    using w(3) phys_only_trans [OF s1(4) frame_write_phys] by (auto simp: written_def)
  note P = phys_onlyD [OF w2(3)]
  define s3 where "s3 = upd_regs t ?f s2"
  have f3: "pmem s3 = pmem s2" "free_frames s3 = free_frames s2" "vm_ok s3 = vm_ok s2" "kernel.more s3 = kernel.more s2"
    by (simp_all add: s3_def frame_simps upd_regs_def upd_more)
  have E: "extends r (arg_pages ?n) {g} s s3"
    by (rule extends_cong [OF _ f3(1,2,3)]) (use extends_same [OF extends_frames [OF s1(3)] w2(1)] in simp)
  have run: "s' = args_area t en s3"
    by (simp add: s'_def pass_args_def rg s1(1) phys_onlyD(1) [OF s1(4)] s2_def [symmetric] s3_def [symmetric])
  have l3: "args_laid_out r (used_frames s) args envp s3"
    using laid_out_extends [OF s1(2) w2(1)] gU f3(1,2)
    by (simp add: args_laid_out_def arg_stack_def holds_page_def used_frames_def)
  have "1 \<le> card (free_frames s3)" using c s1(5) w2(2) f3(2) by simp
  from args_area_ok [OF extends_ok(1,2) [OF E] this, of t en, folded run] have A: "extends r {} {} s3 s'" "same_rest t s3 s'"
    "kernel.more s' = kernel.more s3" "card (free_frames s3) \<le> card (free_frames s') + 1" by blast+
  have "holds_page r USER_STACK (word_byte w) g s3" using w(1) f3(1,2) by (simp add: holds_page_def used_frames_def)
  then have h: "holds_page r USER_STACK (word_byte w) g s'" by (rule extendsD [OF A(1)]) simp_all
  have "args_laid_out r (used_frames s) args envp s'" by (rule laid_out_extends [OF l3 A(1)]) simp_all
  moreover have "extends r (insert USER_STACK (arg_pages ?n)) {g} s s'"
    by (rule extends_mono [OF extends_same [OF E extends_frames [OF A(1)]]]) auto
  moreover have "same_rest t (upd_regs t ?f s) s3"
    by (simp add: same_rest_def s3_def upd_regs_frame P)
  ultimately show ?thesis
    using same_rest_trans [OF _ A(2)] A(3,4) f3 phys_only_more [OF w2(3)] s1(5) w2(2) h w(2) unfolding V_def [symmetric] by auto
qed

section \<open>The new task\<close>

lemma wr_frame_write:
  assumes "f < 65536" "kernbase s = KERNBASE" "i < 512"
  shows "frame_write f s (wr (page_of f + KERNBASE + 8 * i) x s)"
  using assms by (auto simp: frame_write_def wr_def k2p_slot slot_inj)

lemma prepare_frame_write:
  assumes f: "f < 65536" and kb: "kernbase s = KERNBASE" and k: "kernelRsp r = page_of f + KERNBASE + 0x1000"
  shows "frame_write f s (prepareInitialKernelStack r s)"
proof -
  let ?b = "page_of f + KERNBASE"
  have a: "kernelRsp r - 8 = ?b + 8 * 511" "kernelRsp r - 16 = ?b + 8 * 510" "kernelRsp r - 24 = ?b + 8 * 509"
    "kernelRsp r - 32 = ?b + 8 * 508" "kernelRsp r - 40 = ?b + 8 * 507"
    by (simp_all add: k)
  show ?thesis
    unfolding prepareInitialKernelStack_def Let_def a
    by (intro frame_write_trans [OF _ wr_frame_write] wr_frame_write f) (simp_all add: kb)
qed

definition exec_regs :: "u64 \<Rightarrow> u64 \<Rightarrow> u64 \<Rightarrow> Registers \<Rightarrow> Registers" where
  "exec_regs func flags kst r = (new_regs func flags r)\<lparr>kernelRsp := kst, rbp := userRsp r, reg_count := 0, reg_add := 0\<rparr>"

lemma new_exec_task_ok:
  fixes s :: "'a kernel_scheme" and t func flags root :: u64
  assumes ok: "vm_ok s" "wf_tree (pmem s) r (used_frames s)" and c: "2 \<le> card (free_frames s)"
  defines "s' \<equiv> createNewExecTask t func flags root s"
  shows "\<exists>K. K < 65536 \<and> extends r {} {} s s' \<and> (\<forall>x. x \<noteq> t \<longrightarrow> tasks s' x = tasks s x) \<and>
    pid_t (tasks s' t) = pid_t (tasks s (runningThread s)) \<and> task_state (tasks s' t) = 1 \<and>
    regs (tasks s' t) = exec_regs func flags (page_of K + KERNBASE + 0x1000) (regs (tasks s t)) \<and>
    runningThread s' = runningThread s \<and> deleteQueue s' = deleteQueue s \<and> kernel.more s' = kernel.more s \<and>
    memMap (tasks s' t) = memMap (tasks s t) \<and>
    rd s' (page_of K + KERNBASE + 0x1000 - 40) = func \<and> rd s' (page_of K + KERNBASE + 0x1000 - 16) = userRsp (regs (tasks s t))"
proof -
  let ?pid = "pid_t (tasks s (runningThread s))"
  define s1 where "s1 = upd_task t (\<lambda>k. k\<lparr>pid_t := ?pid, ppid_t := 0, regs := new_regs func flags (regs k)\<rparr>)
     (s\<lparr>foregroundPid := ?pid, pidCount := pidCount s + 1\<rparr>)"
  have f1: "pmem s1 = pmem s" "free_frames s1 = free_frames s" "vm_ok s1 = vm_ok s" "used_frames s1 = used_frames s"
    by (simp_all add: s1_def upd_task_def vm_ok_def phys_inv_def free_frames_def used_frames_def)
  obtain p s2 where k2: "kmalloc s1 = (p, s2)" by fastforce
  have ne: "free_frames s1 \<noteq> {}" using c f1(2) by auto
  from fresh_frame [of s1 r] ok ne k2 obtain K where K: "K \<in> free_frames s1" "p = page_of K + KERNBASE" "frame_holds r (text_bytes []) K s2"
    "free_frames s2 = free_frames s1 - {K}" "extends r {} {} s1 s2" "phys_only s1 s2" by (auto simp: f1)
  have Kb: "K < 65536" using K(3) used_frame_bound by (auto simp: frame_holds_def)
  define s3 where "s3 = upd_task t (\<lambda>k. k\<lparr>regs := (regs k)\<lparr>kernelRsp := p + 0x1000, rbp := userRsp (regs k), reg_count := 0, reg_add := 0\<rparr>,
                 task_next := NULL, task_state := 1, endHH := 0, endMM := 0, endSS := 0\<rparr>) s2"
  have f3: "pmem s3 = pmem s2" "free_frames s3 = free_frames s2" "vm_ok s3 = vm_ok s2" "used_frames s3 = used_frames s2"
    by (simp_all add: s3_def frame_simps used_frames_def)
  obtain fdp s4 where k4: "kmalloc s3 = (fdp, s4)" by fastforce
  have "card (free_frames s1) = Suc (card (free_frames s2))" using card_Suc_Diff1 [OF finite_free_frames K(1)] by (simp add: K(4))
  then have ne3: "free_frames s3 \<noteq> {}" using c by (auto simp: f1(2) f3(2))
  have ok3: "vm_ok s3" "wf_tree (pmem s3) r (used_frames s3)" using extends_ok(1,2) [OF K(5)] by (simp_all add: f3)
  have po4: "phys_only s3 s4" using phys_only_kmalloc [of s3] k4 by simp
  from extends_kmalloc [OF ok3(1) ne3 ok3(2) k4] have E4: "extends r {} {} s3 s4" by blast
  define s5 where "s5 = upd_task t (\<lambda>k. k\<lparr>fd_pointers := (\<lambda>i. if i = 0 then fdp else if i < 20 then 0 else fd_pointers k i), fd_count := 5\<rparr>) s4"
  have f5: "pmem s5 = pmem s4" "free_frames s5 = free_frames s4" "vm_ok s5 = vm_ok s4" "used_frames s5 = used_frames s4"
    by (simp_all add: s5_def frame_simps used_frames_def)
  have s': "s' = prepareInitialKernelStack (regs (tasks s5 t)) s5"
    by (simp add: s'_def createNewExecTask_def s1_def [symmetric] k2 s3_def [symmetric] k4 s5_def [symmetric] Let_def)
  obtain "same_tree r (pmem s3) (pmem s4)" "used_frames s3 \<subseteq> used_frames s4"
    using kmalloc_tree [OF ok3(1) ne3 k4] ok3(2) by metis
  then have nK: "no_table (pmem s5) r K" using K(3) no_table_same by (simp add: f3 f5 frame_holds_def)
  have ok5: "vm_ok s5" "wf_tree (pmem s5) r (used_frames s5)" using extends_ok(1,2) [OF E4] by (simp_all add: f5)
  note P2 = phys_onlyD [OF K(6)] and P4 = phys_onlyD [OF po4]
  have T: "tasks s5 x = tasks s x" if "x \<noteq> t" for x
    using that by (simp add: s5_def s3_def s1_def frame_simps P2 P4)
  have Tt: "pid_t (tasks s5 t) = ?pid" "task_state (tasks s5 t) = 1" "memMap (tasks s5 t) = memMap (tasks s t)"
    "regs (tasks s5 t) = exec_regs func flags (page_of K + KERNBASE + 0x1000) (regs (tasks s t))"
    by (simp_all add: s5_def s3_def s1_def exec_regs_def upd_task_def P2 P4 K(2))
  have R: "runningThread s5 = runningThread s" "deleteQueue s5 = deleteQueue s" "kernel.more s5 = kernel.more s"
    using phys_only_more [OF K(6)] phys_only_more [OF po4]
    by (simp_all add: s5_def s3_def s1_def upd_task_def P2 P4)
  have kst: "kernelRsp (regs (tasks s5 t)) = page_of K + KERNBASE + 0x1000" by (simp add: Tt exec_regs_def)
  have fw: "frame_write K s5 s'" unfolding s' by (rule prepare_frame_write [OF Kb kernbase_ok [OF ok5(1)] kst])
  note E5 = extends_write(1) [OF fw ok5 nK]
  have "extends r {} {} s2 s4" by (rule extends_from [OF E4]) (simp_all add: f3)
  from extends_same [OF K(5) this] have "extends r {} {} s1 s4" by simp
  then have "extends r {} {} s1 s5" by (rule extends_cong) (rule f5)+
  moreover have "{K} \<inter> used_frames s1 \<subseteq> {}" using K(1) by (auto simp: used_frames_def)
  ultimately have "extends r {} {} s1 s'" using extends_trans [OF _ E5] by fastforce
  then have E: "extends r {} {} s s'" by (rule extends_from) (simp_all add: f1)
  have po: "phys_only s5 s'" by (simp add: s')
  note P = phys_onlyD [OF po]
  note F = prepared_frame [OF kernbase_ok [OF ok5(1)], of "regs (tasks s5 t)", unfolded kst, OF stack_page_kernel [OF Kb], folded s']
  have "rd s' (page_of K + KERNBASE + 0x1000 - 40) = func" "rd s' (page_of K + KERNBASE + 0x1000 - 16) = userRsp (regs (tasks s t))"
    using F(1,4) unfolding kst by (simp_all add: Tt(4) exec_regs_def)
  then show ?thesis
    using Kb E T Tt R phys_only_more [OF po] by (intro exI [of _ K]) (simp add: P)
qed

section \<open>In the place of the caller\<close>

text \<open>The tasks behind the new one: those that were behind the caller, or the caller itself when it was alone (it stays in the ring).\<close>

abbreviation (input) behind :: "u64 \<Rightarrow> u64 list \<Rightarrow> u64 list" where
  "behind r ts \<equiv> (if ts = [] then [r] else ts)"

lemma delete_jump_ok:
  assumes q: "queues s ts ds" and t: "t \<notin> set (runningThread s # ts @ ds)" "t \<noteq> NULL"
    and c: "reg_count (regs (tasks s t)) = 0"
  shows "\<exists>s'. deleteRunningThreadAndJump t s = Some s' \<and> runningThread s' = t \<and> queues s' (behind (runningThread s) ts) ds \<and> pmem s' = pmem s \<and>
    kernbase s' = kernbase s \<and> free_frames s' = free_frames s \<and> vm_ok s' = vm_ok s \<and>
    cpu_rsp s' = kernelRsp (regs (tasks s t)) - 40 \<and> cr3_reg s' = cr3 (regs (tasks s t)) \<and>
    pid_t (tasks s' t) = pid_t (tasks s t) \<and> task_state (tasks s' t) = task_state (tasks s t) \<and>
    userRsp (regs (tasks s' t)) = userRsp (regs (tasks s t)) \<and> memMap (tasks s' t) = memMap (tasks s t)"
proof -
  let ?r = "runningThread s"
  let ?n = "tnext s ?r"
  define l where "l = last (?r # ts)"
  define s1 where "s1 = upd_task t (\<lambda>k. k\<lparr>task_next := ?n\<rparr>) s"
  have r0: "ring (tnext s) ?r ts" using q by (simp only: queues_def)
  have d: "distinct (?r # ts @ ds)" "NULL \<notin> set (?r # ts @ ds)" "path (tnext s) (deleteQueue s) ds NULL"
    using q unfolding queues_def by simp_all
  have ll: "l \<in> set (?r # ts)" unfolding l_def by (rule last_in_set) simp
  have n1: "tnext s1 x = (if x = t then ?n else tnext s x)" for x
    by (simp add: s1_def frame_simps)
  have "tnext s1 x = tnext s x" if "x \<in> set (?r # ts)" for x using that t(1) n1 by auto
  then have "ring (tnext s1) ?r ts"
    using r0 path_cong [of ts "tnext s1" "tnext s" "tnext s ?r" ?r] by (simp add: ring_def)
  from find_prev_ring [OF this] have fp: "find_prev ?r s1 = Some l" by (simp only: l_def)
  define s2 where "s2 = (upd_task l (\<lambda>k. k\<lparr>task_next := t\<rparr>) s1)\<lparr>runningThread := t\<rparr>"
  define s' where "s' = enter_task t (prepare_entry t s2)"
  have run: "deleteRunningThreadAndJump t s = Some s'"
    by (simp add: deleteRunningThreadAndJump_def s1_def [symmetric] fp s'_def s2_def)
  have l: "l \<noteq> t" "l \<notin> set ds" using ll t(1) d(1) by auto
  have f: "runningThread s' = t" "deleteQueue s' = deleteQueue s" "pmem s' = pmem s" "kernbase s' = kernbase s"
    by (simp_all add: s'_def s2_def s1_def frame_simps)
  have n2: "tnext s' x = (if x = t then ?n else if x = l then t else tnext s x)" for x
    using l(1) n1 by (simp add: s'_def s2_def frame_simps)
  have "path (tnext s') ?n (behind ?r ts) t"
  proof (cases ts rule: rev_cases)
    case Nil
    then have "tnext s ?r = ?r" "l = ?r" "?r \<noteq> t" using r0 t(1) by (auto simp: ring_def l_def)
    with Nil show ?thesis using n2 [of ?r] by simp
  next
    case (snoc ws w)
    then have w: "w = l" by (simp add: l_def)
    have "path (tnext s) ?n ws l" using r0 by (simp add: ring_def snoc w)
    then have "path (tnext s') ?n ws l"
      by (rule path_fun_upd [rotated]) (use d t(1) n2 in \<open>auto simp: snoc w\<close>)
    then show ?thesis using l(1) by (simp add: n2 snoc w)
  qed
  moreover have "path (tnext s') (deleteQueue s) ds NULL"
    by (rule path_fun_upd [OF _ d(3)]) (use l t(1) n2 in auto)
  moreover have "distinct (t # behind ?r ts @ ds)" "NULL \<notin> set (t # behind ?r ts @ ds)" using d t by auto
  ultimately have "queues s' (behind ?r ts) ds"
    unfolding queues_def ring_def f using n2 [of t] by (simp del: if_image_distrib)
  moreover have tt: "tasks s2 t = (tasks s t)\<lparr>task_next := ?n\<rparr>" using l by (simp add: s2_def s1_def frame_simps)
  have "free_frames s' = free_frames s" "vm_ok s' = vm_ok s"
    by (simp_all add: s'_def s2_def s1_def enter_task_def moveToNextProcess_def prepare_entry_def Let_def set_tss_rsp_def frame_simps
        vm_ok_def phys_inv_def free_frames_def upd_task_def upd_regs_def)
  moreover have "cpu_rsp s' = kernelRsp (regs (tasks s t)) - 40" "cr3_reg s' = cr3 (regs (tasks s t))"
    "pid_t (tasks s' t) = pid_t (tasks s t)" "task_state (tasks s' t) = task_state (tasks s t)"
    "userRsp (regs (tasks s' t)) = userRsp (regs (tasks s t))" "memMap (tasks s' t) = memMap (tasks s t)"
    by (simp_all add: s'_def frame_simps prepare_entry_def Let_def set_tss_rsp_def tt c)
  ultimately show ?thesis using run f by (intro exI [of _ s']) simp
qed

text \<open>
  What \<open>exec\<close> needs of the kernel: the tables of the caller and of the kernel are well formed and do not share those of the stack's
  region, the queues are well formed and their tasks live in used frames.
\<close>

definition exec_ready :: "'a kernel_scheme \<Rightarrow> u64 list \<Rightarrow> u64 list \<Rightarrow> bool" where
  "exec_ready s ts ds \<longleftrightarrow> vm_ok s \<and> queues s ts ds \<and> (\<forall>t \<in> set (runningThread s # ts @ ds). live s t) \<and>
     (\<exists>c k. cr3_reg s = page_of c \<and> c \<in> used_frames s \<and> wf_tree (pmem s) (page_of c) (used_frames s) \<and>
        pml4 s = k + KERNBASE \<and> wf_tree (pmem s) k (used_frames s) \<and> apart (pmem s) k (page_of c) (get_PML4_INDEX USER_STACK))"

lemma stack_index: "get_PML4_INDEX USER_STACK \<noteq> 511"
  by (simp add: get_PML4_INDEX_def USER_VIRTUAL_STACK_TOP_def)

lemma exec_setup:
  fixes s :: "'a kernel_scheme"
  assumes rdy: "exec_ready s ts ds" and c: "10 \<le> card (free_frames s)"
  shows "\<exists>t g s1 s2 s4 S new. kmalloc_task s = (t, s1) \<and> getNewPML4ForUser s1 = (page_of g, s2) \<and>
    stackForUser t (upd_regs t (\<lambda>r. r\<lparr>cr3 := page_of g\<rparr>) s2) = Some (USER_STACK, s4) \<and> vm_ok s4 \<and>
    wf_tree (pmem s4) (page_of g) (used_frames s4) \<and> holds_page (page_of g) USER_STACK (\<lambda>_. 0) S s4 \<and>
    vma_list s4 (task_mmap s4 t) [new] \<and> \<not> live s t \<and> t \<noteq> NULL \<and> (\<forall>x. x \<noteq> t \<longrightarrow> tasks s4 x = tasks s x) \<and>
    cr3 (regs (tasks s4 t)) = page_of g \<and> runningThread s4 = runningThread s \<and>
    deleteQueue s4 = deleteQueue s \<and> kernel.more s4 = kernel.more s \<and> card (free_frames s) \<le> card (free_frames s4) + 10"
proof -
  obtain cc k where R: "vm_ok s" "cr3_reg s = page_of cc" "cc \<in> used_frames s" "wf_tree (pmem s) (page_of cc) (used_frames s)"
    "pml4 s = k + KERNBASE" "wf_tree (pmem s) k (used_frames s)" "apart (pmem s) k (page_of cc) (get_PML4_INDEX USER_STACK)"
    using rdy unfolding exec_ready_def by blast
  have ne: "free_frames s \<noteq> {}" using c by auto
  obtain p sk where kk: "kmalloc s = (p, sk)" by fastforce
  have pk: "phys_only s sk" using phys_only_kmalloc [of s] kk by simp
  note Pk = phys_onlyD [OF pk]
  from kmalloc_tree [OF R(1) ne kk] obtain f where f: "f \<in> free_frames s" "p = page_of f + KERNBASE" "vm_ok sk"
    "free_frames sk = free_frames s - {f}" "used_frames s \<subseteq> used_frames sk"
    "\<And>r. wf_tree (pmem s) r (used_frames s) \<Longrightarrow> same_tree r (pmem s) (pmem sk) \<and> wf_tree (pmem sk) r (used_frames sk)" by metis
  define s1 where "s1 = upd_task p (\<lambda>_. zero_task) sk"
  have k1: "kmalloc_task s = (p, s1)" by (simp add: kmalloc_task_def kk s1_def)
  from kmalloc_task_ok [OF R(1) ne] k1 have t1: "\<not> live s p" "live s1 p" "tasks s1 = (tasks s)(p := zero_task)" by auto
  have e1: "pmem s1 = pmem sk" "free_frames s1 = free_frames sk" "used_frames s1 = used_frames sk" "vm_ok s1" "cr3_reg s1 = page_of cc"
    "pml4 s1 = k + KERNBASE" "runningThread s1 = runningThread s" "deleteQueue s1 = deleteQueue s" "kernel.more s1 = kernel.more s"
    using f(3) R(2,5) phys_only_more [OF pk] by (simp_all add: s1_def frame_simps used_frames_def Pk upd_more) (simp_all add: upd_task_def Pk)
  have w1: "wf_tree (pmem s1) (page_of cc) (used_frames s1)" "wf_tree (pmem s1) k (used_frames s1)"
    using f(6) R(4,6) by (simp_all add: e1)
  have a1: "apart (pmem s1) k (page_of cc) (get_PML4_INDEX USER_STACK)"
    unfolding e1(1) by (rule apart_same [OF _ _ R(7)]) (use f(6) R(4,6) in blast)+
  have c1: "card (free_frames s) = Suc (card (free_frames s1))"
    using card_Suc_Diff1 [OF finite_free_frames f(1)] by (simp add: e1(2) f(4))
  then have ne1: "free_frames s1 \<noteq> {}" using c by auto
  have cu: "cc \<in> used_frames s1" using R(3) f(5) e1(3) by blast
  from new_root_tree [OF e1(4) ne1 e1(5) w1(1) cu] obtain g s2 where g: "g \<in> free_frames s1" "getNewPML4ForUser s1 = (page_of g, s2)"
    "vm_ok s2" "free_frames s2 = free_frames s1 - {g}" "wf_tree (pmem s2) (page_of g) (used_frames s2)"
    "wf_tree (pmem s2) k (used_frames s2)" "apart (pmem s2) k (page_of g) (get_PML4_INDEX USER_STACK)"
    "apart (pmem s2) (page_of g) k (get_PML4_INDEX USER_STACK)"
    using w1(2) a1 stack_index by blast
  have p2: "phys_only s1 s2" using spent_getNewPML4 [OF e1(4)] g(2) by (simp add: spent_def)
  note P2 = phys_onlyD [OF p2]
  define s3 where "s3 = upd_regs p (\<lambda>r. r\<lparr>cr3 := page_of g\<rparr>) s2"
  have e3: "pmem s3 = pmem s2" "free_frames s3 = free_frames s2" "used_frames s3 = used_frames s2" "vm_ok s3" "pml4 s3 = k + KERNBASE"
    "cr3 (regs (tasks s3 p)) = page_of g" "task_mmap s3 p = NULL" "runningThread s3 = runningThread s" "deleteQueue s3 = deleteQueue s"
    "kernel.more s3 = kernel.more s" "\<And>x. x \<noteq> p \<Longrightarrow> tasks s3 x = tasks s x"
    using g(3) phys_only_more [OF p2]
    by (simp_all add: s3_def frame_simps used_frames_def P2 e1 t1(3) zero_task_def upd_more) (simp_all add: upd_regs_def upd_task_def P2 e1)
  have c3: "card (free_frames s1) = Suc (card (free_frames s3))"
    using card_Suc_Diff1 [OF finite_free_frames g(1)] by (simp add: e3(2) g(4))
  have l3: "vma_list s3 (task_mmap s3 p) []" by (simp add: vma_list_def e3(7))
  have "\<exists>s' new S. stackForUser p s3 = Some (USER_STACK, s') \<and> holds_page (page_of g) USER_STACK (\<lambda>_. 0) S s' \<and> vm_ok s' \<and>
    wf_tree (pmem s') (page_of g) (used_frames s') \<and> vma_list s' (task_mmap s' p) ([] @ [new]) \<and> same_rest p s3 s' \<and>
    kernel.more s' = kernel.more s3 \<and> card (free_frames s3) \<le> card (free_frames s') + 8 \<and> used_frames s3 \<subseteq> used_frames s'"
    by (rule stackForUser_ok [OF e3(4) _ _ _ _ _ e3(6,5) l3]) (use g c c1 c3 in \<open>simp_all add: e3(1,3)\<close>)
  then obtain s4 new S where s4: "stackForUser p s3 = Some (USER_STACK, s4)" "holds_page (page_of g) USER_STACK (\<lambda>_. 0) S s4" "vm_ok s4"
    "wf_tree (pmem s4) (page_of g) (used_frames s4)" "vma_list s4 (task_mmap s4 p) [new]" "same_rest p s3 s4"
    "kernel.more s4 = kernel.more s3" "card (free_frames s3) \<le> card (free_frames s4) + 8" by auto
  have "cr3 (regs (tasks s4 p)) = page_of g"
  proof -
    have "regs (tasks s4 p) = regs (tasks s3 p)" using s4(6) unfolding same_rest_def by (metis Task.select_convs(14) Task.surjective Task.update_convs(17))
    then show ?thesis by (simp add: e3(6))
  qed
  moreover have "card (free_frames s) \<le> card (free_frames s4) + 10" using c1 c3 s4(8) by simp
  moreover have "runningThread s4 = runningThread s" "deleteQueue s4 = deleteQueue s" "\<forall>x. x \<noteq> p \<longrightarrow> tasks s4 x = tasks s x"
    using s4(6) e3(8,9,11) unfolding same_rest_def by simp_all
  ultimately show ?thesis
    using k1 g(2) s4(1-5,7) e3(10) t1(1) live_not_null [OF t1(2)] unfolding s3_def by metis
qed

text \<open>The file of a command is the valid program at \<open>p\<close> in the archive, with the loadable segments \<open>hs\<close>.\<close>

definition command_file :: "(nat \<Rightarrow> char) \<Rightarrow> (nat \<Rightarrow> char) \<Rightarrow> string \<Rightarrow> 'a fs_scheme \<Rightarrow> u64 \<Rightarrow> Elf64_Phdr list \<Rightarrow> bool" where
  "command_file stk stk2 cmd s p hs \<longleftrightarrow> (\<exists>es name sz. archive (bytes s) (BINARY_TARFS_START s) es (BINARY_TARFS_END s) \<and>
     get_executable_path stk stk2 cmd s = Some (Some name) \<and> CHR 0x00 \<notin> set name \<and>
     lookup (BINARY_TARFS_START s) es name = Some (p, sz) \<and> p + 512 \<noteq> 0 \<and> elf_ok (elf_header (bytes s) (p + 512)) sz \<and>
     hs = loadable (unat (e_phnum (elf_header (bytes s) (p + 512)))) (bytes s) (p + 512 + e_phoff (elf_header (bytes s) (p + 512))) \<and>
     segs_ok hs \<and> length hs \<le> 100)"

definition seg_byte :: "(u64 \<Rightarrow> char) \<Rightarrow> u64 \<Rightarrow> Elf64_Phdr \<Rightarrow> nat \<Rightarrow> u8" where
  "seg_byte b elf h i = (if i < unat (p_filesz h)
     then of_char (b (elf + SIZEOF_EHDR * (p_offset h + of_nat (i - i mod 4096)) + of_nat (i mod 4096))) else 0)"

text \<open>The pages of the program, of its arguments and of its stack are different.\<close>

definition pages_apart :: "Elf64_Phdr list \<Rightarrow> nat \<Rightarrow> bool" where
  "pages_apart hs n \<longleftrightarrow> (\<forall>h \<in> set hs. p_vaddr h AND 0xFFF = 0 \<and> apart_pages (h_pages h) (insert USER_STACK (arg_pages n)))"

lemma command_file_more:
  fixes s s' :: "'a fs_scheme"
  assumes "kernel.more s' = kernel.more s"
  shows "command_file stk stk2 cmd s' p hs = command_file stk stk2 cmd s p hs"
proof -
  note M = more_fs [OF assms]
  have "get_executable_path stk stk2 cmd s' = get_executable_path stk stk2 cmd s"
    unfolding get_executable_path_def M ..
  then show ?thesis by (simp add: command_file_def M)
qed

lemma same_page_sym: "same_page a b \<longleftrightarrow> same_page b a"
  by (auto simp: same_page_def)

lemma exec_memory:
  fixes s :: "'a fs_scheme"
  assumes ok: "vm_ok s" "wf_tree (pmem s) r (used_frames s)" and l: "vma_list s (task_mmap s t) ws"
    and st: "holds_page r USER_STACK (\<lambda>_. 0) S s"
    and f: "command_file stk stk2 cmd s p hs" "pages_apart hs (length envp)"
    and c: "frames_for hs + 4 * length envp + 13 \<le> card (free_frames s)"
    and n: "length envp \<le> 32" "\<forall>e \<in> set envp. length e \<le> 512" "length args \<le> 400" "length (packed args) \<le> 512"
    and rg: "cr3 (regs (tasks s t)) = r" "userRsp (regs (tasks s t)) = USER_VIRTUAL_STACK_TOP"
  shows "\<exists>s1 s2. loadFile stk stk2 cmd (r + KERNBASE) t s = Some (e_entry (elf_header (bytes s) (p + 512)), s1) \<and>
    s2 = pass_args t args envp 0x321000 s1 \<and> vm_ok s2 \<and> wf_tree (pmem s2) r (used_frames s2) \<and>
    args_laid_out r {} args envp s2 \<and>
    (\<exists>w g. holds_page r USER_STACK (word_byte w) g s2 \<and> w 511 = ARGS_STRINGS - 8 * of_nat (length args + 36) - 8) \<and>
    (\<forall>h \<in> set hs. loaded r {} (bytes s) (p + 512) h s2) \<and> kernel.more s2 = kernel.more s \<and>
    same_rest t (upd_regs t (\<lambda>r. r\<lparr>userRsp := userRsp r - 8\<rparr>) s) s2 \<and>
    card (free_frames s) \<le> card (free_frames s2) + frames_for hs + 4 * length envp + 13"
proof -
  obtain es name sz where F: "archive (bytes s) (BINARY_TARFS_START s) es (BINARY_TARFS_END s)"
     "get_executable_path stk stk2 cmd s = Some (Some name)" "CHR 0x00 \<notin> set name"
     "lookup (BINARY_TARFS_START s) es name = Some (p, sz)" "p + 512 \<noteq> 0" "elf_ok (elf_header (bytes s) (p + 512)) sz"
     "hs = loadable (unat (e_phnum (elf_header (bytes s) (p + 512)))) (bytes s) (p + 512 + e_phoff (elf_header (bytes s) (p + 512)))"
     "segs_ok hs" "length hs \<le> 100" using f(1) unfolding command_file_def by blast
  have ch: "frames_for hs \<le> card (free_frames s)" using c by simp
  obtain s1 us where L: "loadFile stk stk2 cmd (r + KERNBASE) t s = Some (e_entry (elf_header (bytes s) (p + 512)), s1)"
    "extends r (\<Union>h \<in> set hs. h_pages h) {} s s1" "\<forall>h \<in> set hs. loaded r (used_frames s) (bytes s) (p + 512) h s1"
    "kernel.more s1 = kernel.more s" "same_rest t s s1" "card (free_frames s) \<le> card (free_frames s1) + frames_for hs"
    using loadFile_ok [OF ok l F(1-6)] F(8,9) ch unfolding F(7) by blast
  have Su: "S \<in> used_frames s" using st by (simp add: holds_page_def)
  have ap: "\<not> same_page USER_STACK x" if "h \<in> set hs" "x \<in> h_pages h" for h x
    using f(2) that unfolding pages_apart_def apart_pages_def by (auto simp: same_page_sym [of USER_STACK])
  have st1: "holds_page r USER_STACK (\<lambda>_. 0) S s1" by (rule extendsD [OF L(2) st]) (use ap in auto)
  have rg1: "cr3 (regs (tasks s1 t)) = r" "userRsp (regs (tasks s1 t)) = USER_VIRTUAL_STACK_TOP"
    using rg by (simp_all add: same_rest_task [OF L(5)])
  have c1: "4 * length envp + 13 \<le> card (free_frames s1)" using c L(6) by simp
  define s2 where "s2 = pass_args t args envp 0x321000 s1"
  note A = pass_args_ok [OF extends_ok(1,2) [OF L(2)] c1 n rg1 st1, of "0x321000", folded s2_def]
  have E: "extends r (insert USER_STACK (arg_pages (length envp))) {S} s1 s2" using A by blast
  have "loaded r {} (bytes s) (p + 512) h s2" if h: "h \<in> set hs" for h
  proof -
    have "loaded r (used_frames s) (bytes s) (p + 512) h s2"
      by (rule loaded_extends [OF _ E]) (use L(3) h f(2) Su in \<open>auto simp: pages_apart_def\<close>)
    then show ?thesis by (rule loaded_mono) simp
  qed
  moreover have "args_laid_out r {} args envp s2" using A unfolding args_laid_out_def by blast
  moreover have "same_rest t (upd_regs t (\<lambda>r. r\<lparr>userRsp := userRsp r - 8\<rparr>) s) s2"
  proof -
    let ?f = "\<lambda>r. r\<lparr>userRsp := userRsp r - 8\<rparr>"
    have "same_rest t (upd_regs t ?f s) (upd_regs t ?f s1)"
    proof -
      have "k'\<lparr>regs := x\<rparr> = k\<lparr>regs := x, memMap := m\<rparr>" if "k' = k\<lparr>memMap := m\<rparr>" for k k' :: Task and m x
        using that by simp
      moreover have "tasks s1 t = (tasks s t)\<lparr>memMap := memMap (tasks s1 t)\<rparr>" using L(5) by (simp add: same_rest_def)
      ultimately have "(tasks s1 t)\<lparr>regs := x\<rparr> = (tasks s t)\<lparr>regs := x, memMap := memMap (tasks s1 t)\<rparr>" for x by blast
      then show ?thesis
        using L(5) same_rest_task(1) [OF L(5), of t] unfolding same_rest_def upd_regs_frame by simp
    qed
    with A show ?thesis using same_rest_trans by blast
  qed
  ultimately show ?thesis
    using L(1,4,6) s2_def extends_ok(1,2) [OF E] A by (intro exI [of _ s1] exI [of _ s2]) auto
qed

lemma queues_next_kept:
  assumes "queues s ts ds" and "\<And>x. x \<in> set (runningThread s # ts @ ds) \<Longrightarrow> tnext s' x = tnext s x"
    and "runningThread s' = runningThread s" "deleteQueue s' = deleteQueue s"
  shows "queues s' ts ds"
proof -
  have "path (tnext s') (tnext s' (runningThread s)) ts (runningThread s)"
    by (rule path_fun_upd [where nx = "tnext s"]) (use assms in \<open>auto simp: queues_def ring_def\<close>)
  moreover have "path (tnext s') (deleteQueue s) ds NULL"
    by (rule path_fun_upd [where nx = "tnext s"]) (use assms in \<open>auto simp: queues_def\<close>)
  ultimately show ?thesis using assms by (simp add: queues_def ring_def)
qed

lemma exec_switch:
  fixes s :: "'a kernel_scheme" and t entry flags root :: u64 and cmd :: string and hh mm ss :: i32
  assumes ok: "vm_ok s" "wf_tree (pmem s) r (used_frames s)" and c: "2 \<le> card (free_frames s)"
    and q: "queues s ts ds" "t \<notin> set (runningThread s # ts @ ds)" "t \<noteq> NULL"
  defines "s1 \<equiv> createNewExecTask t entry flags root s"
  defines "s2 \<equiv> upd_task t (\<lambda>k. k\<lparr>exeName := cmd, startHH := hh, startMM := mm, startSS := ss\<rparr>) s1"
  shows "\<exists>s'. deleteRunningThreadAndJump t s2 = Some s' \<and> runningThread s' = t \<and> queues s' (behind (runningThread s) ts) ds \<and>
    pid_t (tasks s' t) = pid_t (tasks s (runningThread s)) \<and> task_state (tasks s' t) = 1 \<and> cr3_reg s' = cr3 (regs (tasks s t)) \<and>
    iret_rip s' = entry \<and> iret_rsp s' = userRsp (regs (tasks s t)) \<and> extends r {} {} s s'"
proof -
  from new_exec_task_ok [OF ok c, of t entry flags root, folded s1_def]
  obtain K where N: "extends r {} {} s s1" "\<And>x. x \<noteq> t \<Longrightarrow> tasks s1 x = tasks s x" "pid_t (tasks s1 t) = pid_t (tasks s (runningThread s))"
    "task_state (tasks s1 t) = 1" "regs (tasks s1 t) = exec_regs entry flags (page_of K + KERNBASE + 0x1000) (regs (tasks s t))"
    "runningThread s1 = runningThread s" "deleteQueue s1 = deleteQueue s"
    "rd s1 (page_of K + KERNBASE + 0x1000 - 40) = entry" "rd s1 (page_of K + KERNBASE + 0x1000 - 16) = userRsp (regs (tasks s t))" by blast
  have e2: "pmem s2 = pmem s1" "kernbase s2 = kernbase s1" "runningThread s2 = runningThread s" "deleteQueue s2 = deleteQueue s"
    "regs (tasks s2 t) = regs (tasks s1 t)" "pid_t (tasks s2 t) = pid_t (tasks s1 t)" "task_state (tasks s2 t) = 1"
    "free_frames s2 = free_frames s1" "vm_ok s2 = vm_ok s1"
    using N(4,6,7) by (simp_all add: s2_def frame_simps)
  have nx: "tnext s2 x = tnext s x" if "x \<in> set (runningThread s # ts @ ds)" for x
  proof -
    have "x \<noteq> t" using that q(2) by auto
    then show ?thesis using N(2) by (simp add: s2_def frame_simps)
  qed
  have "queues s2 ts ds" by (rule queues_next_kept [OF q(1) nx e2(3,4)])
  moreover have "reg_count (regs (tasks s2 t)) = 0" by (simp add: e2 N(5) exec_regs_def)
  ultimately obtain s' where D: "deleteRunningThreadAndJump t s2 = Some s'" "runningThread s' = t" "queues s' (behind (runningThread s) ts) ds" "pmem s' = pmem s2"
    "kernbase s' = kernbase s2" "cpu_rsp s' = kernelRsp (regs (tasks s2 t)) - 40" "cr3_reg s' = cr3 (regs (tasks s2 t))"
    "pid_t (tasks s' t) = pid_t (tasks s2 t)" "task_state (tasks s' t) = task_state (tasks s2 t)" "free_frames s' = free_frames s2"
    "vm_ok s' = vm_ok s2"
    using delete_jump_ok [of s2 ts ds t] q(2,3) unfolding e2(3) by blast
  have rd: "rd s' = rd s1" by (simp add: rd_def D(4,5) e2(1,2) fun_eq_iff)
  have cpu: "cpu_rsp s' = page_of K + KERNBASE + 0x1000 - 40" by (simp add: D(6) e2(5) N(5) exec_regs_def)
  have "iret_rip s' = entry" unfolding iret_rip_def rd cpu by (rule N(8))
  moreover have "page_of K + KERNBASE + 0x1000 - 40 + 24 = page_of K + KERNBASE + 0x1000 - 16" by simp
  then have "iret_rsp s' = userRsp (regs (tasks s t))" unfolding iret_rsp_def rd cpu by (simp only: N(9))
  moreover have "extends r {} {} s s'"
    by (rule extends_cong [OF N(1)]) (simp_all add: D(4,10,11) e2)
  moreover have "cr3_reg s' = cr3 (regs (tasks s t))" by (simp add: D(7) e2(5) N(5) exec_regs_def)
  ultimately show ?thesis using D(1-3,8,9) e2(6,7) N(3) by (intro exI [of _ s']) simp
qed

section \<open>Properties\<close>

text \<open>C2: A successful \<open>exec\<close>. When the command (a path of fewer than 15 characters) names a valid program, there are enough free frames, the pages of program,
  arguments and stack are different, and the arguments fit (at most 512 bytes, and at most 32 variables of at most 512 characters), \<open>exec\<close> does not return: it
  enters a new task that has the pid of the caller and its place in the run queue, at the entry point of the program, in an
  address space of its own where the program reads in each page of each segment the bytes of the file the loader takes for it; \<open>_start\<close> finds on
  the stack the count, the arguments and the variables that \<open>exec\<close> was given (and one more, empty, variable). The loader counts
  \<open>p_offset\<close> and the offset of the page in units of 64 bytes (\<open>seg_byte\<close>), so these are the bytes the file means only for the first page of a
  segment at offset 0. A caller that is the only task of the queue is not taken out of it: it stays behind the new one.\<close>

theorem exec_runs_program:
  fixes s :: "'a fs_scheme"
  assumes rdy: "exec_ready s ts ds"
    and f: "command_file stk stk2 cmd s p hs" "pages_apart hs (length envp)" "e_entry (elf_header (bytes s) (p + 512)) \<noteq> 0"
    and c: "frames_for hs + 4 * length envp + 25 \<le> card (free_frames s)" and cmd: "length cmd < 15"
    and n: "length envp \<le> 32" "\<forall>e \<in> set envp. length e \<le> 512" "length args \<le> 400" "length (packed args) \<le> 512"
  shows "\<exists>s' t r. exec stk stk2 cmd args envp s = Some (Entered, s') \<and> runningThread s' = t \<and> \<not> live s t \<and> queues s' (behind (runningThread s) ts) ds \<and>
    pid_t (tasks s' t) = pid_t (tasks s (runningThread s)) \<and> task_state (tasks s' t) = 1 \<and> cr3_reg s' = r \<and>
    iret_rip s' = e_entry (elf_header (bytes s) (p + 512)) \<and>
    main_gets r s' args (envp @ [[]]) (start_params r s' (iret_rsp s' - 8)) \<and>
    (\<forall>h \<in> set hs. \<forall>i < 4096 * npages (unat (p_filesz h)). user_byte r s' (p_vaddr h + of_nat i) = seg_byte (bytes s) (p + 512) h i)"
proof -
  let ?H = "elf_header (bytes s) (p + 512)"
  obtain t g s1 s2 s4 S new where A: "kmalloc_task s = (t, s1)" "getNewPML4ForUser s1 = (page_of g, s2)"
    "stackForUser t (upd_regs t (\<lambda>r. r\<lparr>cr3 := page_of g\<rparr>) s2) = Some (USER_STACK, s4)" "vm_ok s4"
    "wf_tree (pmem s4) (page_of g) (used_frames s4)" "holds_page (page_of g) USER_STACK (\<lambda>_. 0) S s4"
    "vma_list s4 (task_mmap s4 t) [new]" "\<not> live s t" "t \<noteq> NULL" "\<And>x. x \<noteq> t \<Longrightarrow> tasks s4 x = tasks s x"
    "cr3 (regs (tasks s4 t)) = page_of g" "runningThread s4 = runningThread s" "deleteQueue s4 = deleteQueue s"
    "kernel.more s4 = kernel.more s" "card (free_frames s) \<le> card (free_frames s4) + 10"
    using exec_setup [OF rdy] c by auto
  let ?r = "page_of g"
  define s5 where "s5 = upd_regs t (\<lambda>r. r\<lparr>userRsp := USER_STACK + 0x1000\<rparr>) s4"
  have e5: "vm_ok s5" "pmem s5 = pmem s4" "used_frames s5 = used_frames s4" "free_frames s5 = free_frames s4" "kernbase s5 = KERNBASE"
    "kernel.more s5 = kernel.more s" "runningThread s5 = runningThread s" "deleteQueue s5 = deleteQueue s"
    "cr3 (regs (tasks s5 t)) = ?r" "userRsp (regs (tasks s5 t)) = USER_VIRTUAL_STACK_TOP" "\<And>x. x \<noteq> t \<Longrightarrow> tasks s5 x = tasks s x"
    using A(4,10-14) kernbase_ok [OF A(4)]
    by (simp_all add: s5_def frame_simps used_frames_def) (simp_all add: upd_regs_def upd_task_def frame_simps)
  have l5: "vma_list s5 (task_mmap s5 t) [new]" "holds_page ?r USER_STACK (\<lambda>_. 0) S s5"
    using A(6,7) by (simp_all add: s5_def vma_list_def live_def holds_page_def frame_simps used_frames_def)
  have b5: "bytes s5 = bytes s" by (rule more_fs(1) [OF e5(6)])
  have c5: "frames_for hs + 4 * length envp + 13 \<le> card (free_frames s5)" using c A(15) by (simp add: e5(4))
  have wf5: "wf_tree (pmem s5) ?r (used_frames s5)" using A(5) by (simp add: e5)
  have f5: "command_file stk stk2 cmd s5 p hs" using f(1) command_file_more [OF e5(6)] by blast
  from exec_memory [OF e5(1) wf5 l5 f5 f(2) c5 n e5(9,10)] obtain s6 s7 w G where M:
    "loadFile stk stk2 cmd (?r + KERNBASE) t s5 = Some (e_entry ?H, s6)" "s7 = pass_args t args envp 0x321000 s6"
    "vm_ok s7" "wf_tree (pmem s7) ?r (used_frames s7)" "args_laid_out ?r {} args envp s7"
    "holds_page ?r USER_STACK (word_byte w) G s7" "w 511 = ARGS_STRINGS - 8 * of_nat (length args + 36) - 8"
    "\<forall>h \<in> set hs. loaded ?r {} (bytes s) (p + 512) h s7" "same_rest t (upd_regs t (\<lambda>r. r\<lparr>userRsp := userRsp r - 8\<rparr>) s5) s7"
    "card (free_frames s5) \<le> card (free_frames s7) + frames_for hs + 4 * length envp + 13"
    unfolding b5 by blast
  have T7: "tasks s7 x = tasks s x" if "x \<noteq> t" for x
    using M(9) that e5(11) [OF that] by (simp add: same_rest_def upd_regs_frame)
  have R7: "runningThread s7 = runningThread s" "deleteQueue s7 = deleteQueue s" "regs (tasks s7 t) = (regs (tasks s5 t))\<lparr>userRsp := USER_VIRTUAL_STACK_TOP - 8\<rparr>"
    using M(9) e5(7,8,10) same_rest_task(1) [OF M(9), of t] by (simp_all add: same_rest_def upd_regs_frame)
  have fresh: "t \<notin> set (runningThread s # ts @ ds)" using rdy A(8) unfolding exec_ready_def by auto
  have q: "queues s ts ds" using rdy by (simp add: exec_ready_def)
  have "tnext s7 x = tnext s x" if "x \<in> set (runningThread s # ts @ ds)" for x
  proof -
    have "x \<noteq> t" using that fresh by auto
    then show ?thesis using T7 by simp
  qed
  note q7 = queues_next_kept [OF q this R7(1,2)]
  have c7: "2 \<le> card (free_frames s7)" using c A(15) M(10) by (simp add: e5(4))
  define s8 where "s8 = createNewExecTask t (e_entry ?H) (rflags (regs (tasks s7 (runningThread s7)))) ?r s7"
  define s9 where "s9 = upd_task t (\<lambda>k. k\<lparr>exeName := cmd, startHH := scast (getCurHr s8), startMM := scast (getCurMin s8),
      startSS := scast (getCurSec s8)\<rparr>) s8"
  obtain s' where D: "deleteRunningThreadAndJump t s9 = Some s'" "runningThread s' = t" "queues s' (behind (runningThread s) ts) ds"
    "pid_t (tasks s' t) = pid_t (tasks s7 (runningThread s7))" "task_state (tasks s' t) = 1" "cr3_reg s' = cr3 (regs (tasks s7 t))"
    "iret_rip s' = e_entry ?H" "iret_rsp s' = userRsp (regs (tasks s7 t))" "extends ?r {} {} s7 s'"
    using exec_switch [OF M(3,4) c7 q7 _ A(9)] fresh unfolding R7(1) s9_def s8_def by blast
  have run: "exec stk stk2 cmd args envp s = Some (Entered, s')"
    unfolding exec_def A(1,2) prod.case Let_def A(3) Option.bind.bind_lunit s5_def [symmetric] e5(5) M(1) M(2) [symmetric]
      s8_def [symmetric] s9_def [symmetric] D(1) using f(3) cmd by simp
  have rsp: "iret_rsp s' = USER_VIRTUAL_STACK_TOP - 8" by (simp add: D(8) R7(3))
  note ok' = extends_ok(1,2) [OF D(9)]
  have "user_word ?r s' (USER_VIRTUAL_STACK_TOP - 8) = w 511" by (rule stack_word [OF ok' extendsD [OF D(9) M(6)]]) simp_all
  then have "main_gets ?r s' args (envp @ [[]]) (start_params ?r s' (iret_rsp s' - 8))" unfolding rsp
    by (intro start_finds [OF ok' laid_out_extends [OF M(5) D(9)]] n) (simp_all add: M(7))
  moreover have "user_byte ?r s' (p_vaddr h + of_nat i) = seg_byte (bytes s) (p + 512) h i"
    if "h \<in> set hs" "i < 4096 * npages (unat (p_filesz h))" for h i
  proof -
    have "loaded ?r {} (bytes s) (p + 512) h s'"
      by (rule loaded_extends [OF _ D(9)]) (use M(8) that in \<open>auto simp: apart_pages_def\<close>)
    from loaded_user_byte [OF ok' this _ that(2)] f(2) that(1) show ?thesis by (simp add: pages_apart_def seg_byte_def)
  qed
  moreover have "cr3_reg s' = ?r" using e5(9) by (simp add: D(6) R7(3))
  ultimately show ?thesis
    using run A(8) D(2-5,7) T7 [of "runningThread s"] fresh R7(1)
    by (intro exI [of _ s'] exI [of _ t] exI [of _ ?r]) auto
qed

text \<open>A small machine with two tasks and the program of the loader's example.\<close>

definition exec_state :: fs where
  "exec_state = exec_fs\<lparr>availFrames := (\<lambda>r. if r = 6 then - 1 else 0), pml4 := page_of 300 + KERNBASE,
     runningThread := page_of 302 + KERNBASE, deleteQueue := NULL,
     tasks := (\<lambda>p. if p = page_of 302 + KERNBASE then small_task 5 (page_of 303 + KERNBASE)
                   else if p = page_of 303 + KERNBASE then small_task 6 (page_of 302 + KERNBASE) else zero_task)\<rparr>"

lemma exec_fs_mem: "MAX_BITMAP_ROWS exec_fs = 1024" "pmem exec_fs = (\<lambda>_. 0)" "kernbase exec_fs = KERNBASE" "cr3_reg exec_fs = page_of 256"
  by (simp_all add: exec_fs_def tiny_fs_defs upd_task_def small_kernel_def vm.defs kernel.defs small_vm_def)

lemma exec_state_sel:
  "pmem exec_state = (\<lambda>_. 0)" "kernbase exec_state = KERNBASE" "cr3_reg exec_state = page_of 256" "pml4 exec_state = page_of 300 + KERNBASE"
  "runningThread exec_state = page_of 302 + KERNBASE" "deleteQueue exec_state = NULL" "kernel.more exec_state = kernel.more exec_fs"
  "bytes exec_state = bytes exec_fs" "tnext exec_state (page_of 302 + KERNBASE) = page_of 303 + KERNBASE"
  "tnext exec_state (page_of 303 + KERNBASE) = page_of 302 + KERNBASE" "pid_t (tasks exec_state (page_of 302 + KERNBASE)) = 5"
  using exec_fs_mem by (simp_all add: exec_state_def small_task_def page_of_inj)

lemma exec_state_free: "free_frames exec_state = {384..<448}"
proof -
  have w: "(of_nat (f div 64) :: u64) = 6 \<longleftrightarrow> f div 64 = 6" if "f < 65536" for f
    using of_nat_inj_64 [of "f div 64" 6] that by simp
  have "f \<in> free_frames exec_state \<longleftrightarrow> f < 65536 \<and> f div 64 = 6" for f
    using w [of f] by (auto simp: free_frames_def exec_state_def exec_fs_mem)
  moreover have "f < 65536 \<and> f div 64 = 6 \<longleftrightarrow> f \<in> {384..<448}" for f :: nat
  proof
    assume "f < 65536 \<and> f div 64 = 6"
    then show "f \<in> {384..<448}" using div_mult_mod_eq [of f 64] mod_less_divisor [of 64 f] unfolding atLeastLessThan_iff by linarith
  next
    assume "f \<in> {384..<448}"
    then show "f < 65536 \<and> f div 64 = 6" unfolding atLeastLessThan_iff by (intro conjI div_nat_eqI) simp_all
  qed
  ultimately show ?thesis by blast
qed

lemma exec_state_ready: "exec_ready exec_state [page_of 303 + KERNBASE] []"
proof -
  have ok: "vm_ok exec_state"
    unfolding vm_ok_def phys_inv_def exec_state_free by (simp add: exec_state_sel) (simp add: exec_state_def exec_fs_mem)
  have u: "f \<in> used_frames exec_state" if "0 < f \<and> f < 384" for f using that by (simp add: used_frames_def exec_state_free)
  have tree: "wf_tree (pmem exec_state) (page_of f) (used_frames exec_state)" if "0 < f \<and> f < 384" for f
    by (rule wf_tree_cleared [OF u [OF that] used_frames_bound]) (simp add: exec_state_sel)
  have tbl: "tbl (pmem exec_state) r is = (if is = [] then Some r else None)" for r "is"
    by (cases "is") (simp_all add: exec_state_sel next_tbl_def)
  have ap: "apart (pmem exec_state) (page_of 300) (page_of 256) i" for i
    by (simp add: apart_def tbl page_of_inj)
  have live: "live exec_state (page_of f + KERNBASE)" if "0 < f \<and> f < 384" for f using u [OF that] by (auto simp: live_def)
  have "queues exec_state [page_of 303 + KERNBASE] []"
    using live_not_null [OF live] by (simp add: queues_def ring_def exec_state_sel page_of_inj)
  then show ?thesis
    unfolding exec_ready_def using ok u tree ap live
    by (intro conjI exI [of _ 256] exI [of _ "page_of 300"]) (simp_all add: exec_state_sel)
qed

lemma exec_command: "command_file (\<lambda>_. CHR 0x00) (\<lambda>_. CHR 0x00) ''f'' exec_state 0x1000 [program_header exec_text 0x1240]"
proof -
  have path: "get_executable_path (\<lambda>_. CHR 0x00) (\<lambda>_. CHR 0x00) ''f'' exec_fs = Some (Some ''b/f'')"
    using executable_search_lemma [OF exec_archive _ _ exec_environ, of "[''/b'']" "''f''" "\<lambda>_. CHR 0x00" "''/f''" "\<lambda>_. CHR 0x00"] exec_cwd
    by (simp add: exec_fs_sel archive_size_def pad_def dirs_ok_def candidate_def)
  have "lookup (BINARY_TARFS_START exec_fs) [(''b/f'', 129)] ''b/f'' = Some (0x1000, 129)" by (simp add: exec_fs_sel)
  then have "command_file (\<lambda>_. CHR 0x00) (\<lambda>_. CHR 0x00) ''f'' exec_fs 0x1000 [program_header exec_text 0x1240]"
    unfolding command_file_def
    by (intro exI [of _ "[(''b/f'', 129)]"] exI [of _ "''b/f''"] exI [of _ "129"] conjI exec_archive path)
      (simp_all add: exec_fs_sel exec_headers exec_loadable [unfolded One_nat_def] segs_ok_def seg_ok_def npages_small)
  then show ?thesis using command_file_more [OF exec_state_sel(7)] by blast
qed

theorem exec_runs_program_witness:
  "\<exists>s' t r. exec (\<lambda>_. CHR 0x00) (\<lambda>_. CHR 0x00) ''f'' [''f'', ''-x''] [''A=1''] exec_state = Some (Entered, s') \<and> runningThread s' = t \<and>
     pid_t (tasks s' t) = 5 \<and> iret_rip s' = 0x400000 \<and>
     main_gets r s' [''f'', ''-x''] [''A=1'', ''''] (start_params r s' (iret_rsp s' - 8))"
proof -
  have "take_bit 36 (drop_bit 12 (page_addr 0x300000 y)) \<noteq> 0x400" if "y < 4" for y
  proof -
    have "y = 0 \<or> y = 1 \<or> y = 2 \<or> y = 3" using that by linarith
    then show ?thesis by (elim disjE) (simp_all add: page_addr_def)
  qed
  then have "pages_apart [program_header exec_text 0x1240] (length [''A=1''])"
    by (auto simp: pages_apart_def exec_headers seg_pages_def arg_pages_def apart_pages_def same_page_def npages_small USER_VIRTUAL_STACK_TOP_def)
  moreover have "length (packed [''f'', ''-x'']) \<le> 512" by (simp add: packed_def)
  ultimately show ?thesis
    using exec_runs_program [OF exec_state_ready exec_command, of "[''A=1'']" "[''f'', ''-x'']"]
    by (auto simp: exec_state_sel exec_fs_sel exec_headers exec_state_free frames_for_def npages_small)
qed

lemma ring_drop_head:
  assumes "ring nx h (n # ts)" and "\<And>x. x \<in> set (n # ts) \<Longrightarrow> nx' x = (if x = last (n # ts) then n else nx x)"
  shows "ring nx' n ts"
proof (cases ts rule: rev_cases)
  case Nil
  with assms show ?thesis by (simp add: ring_def)
next
  case (snoc us l)
  then have p: "path nx (nx n) us l" "distinct (n # us @ [l])" "ts = us @ [l]" using assms(1) by (auto simp: ring_def)
  have "path nx' (nx n) us l"
    by (rule path_fun_upd [OF _ p(1)]) (use assms(2) p(2,3) in auto)
  moreover have "nx' n = nx n" "nx' l = n" using assms(2) p(2,3) by auto
  ultimately show ?thesis using p(2,3) by (simp add: ring_def)
qed

lemma abandon_caller_ok:
  assumes q: "queues s (n # ts) ds" and k: "kernbase s = KERNBASE" "KERNBASE + 40 \<le> kernelRsp (regs (tasks s n))"
  shows "\<exists>s'. abandon_caller cmd s = Some s' \<and> runningThread s' = n \<and> queues s' ts ds \<and> task_state (tasks s' (runningThread s)) = 0 \<and>
    klog s' = klog s @ [(''%s : command not found\<newline>'', [KStr cmd])] \<and> cr3_reg s' = cr3 (regs (tasks s n)) \<and>
    iret_rip s' = rip (regs (tasks s n)) \<and> iret_rsp s' = userRsp (regs (tasks s n))"
proof -
  let ?r = "runningThread s"
  let ?s1 = "kprintf ''%s : command not found\<newline>'' [KStr cmd] s"
  define s2 where "s2 = upd_task ?r (\<lambda>k. k\<lparr>task_state := 0\<rparr>) ?s1"
  have rg: "ring (tnext s) ?r (n # ts)" and d: "distinct (?r # (n # ts) @ ds)" "NULL \<notin> set (?r # (n # ts) @ ds)"
    "path (tnext s) (deleteQueue s) ds NULL" using q unfolding queues_def by auto
  have e1: "runningThread ?s1 = ?r" by (simp add: frame_simps)
  have n2: "tnext s2 = tnext s" by (simp add: fun_eq_iff s2_def frame_simps)
  let ?l = "last (n # ts)"
  have f2: "find_prev ?r s2 = Some ?l" using find_prev_ring [of s2 ?r "n # ts"] rg by (simp add: n2)
  have nr: "tnext s ?r = n" by (rule ring_nonempty_next [OF rg])
  have lr: "?l \<noteq> ?r" "n \<noteq> ?r" using d(1) last_in_set [of "n # ts"] by auto
  define s3 where "s3 = upd_task ?l (\<lambda>k. k\<lparr>task_next := n\<rparr>) s2"
  have n3: "tnext s3 ?r = n" using lr(1) nr fun_cong [OF n2, of ?r] by (simp add: s3_def frame_simps)
  have n2r: "tnext s2 ?r = n" using nr fun_cong [OF n2, of ?r] by simp
  define s4 where "s4 = upd_regs n (\<lambda>x. x\<lparr>reg_count := 0\<rparr>) (s3\<lparr>runningThread := n\<rparr>)"
  define s5 where "s5 = prepareInitialKernelStack (regs (tasks s4 n)) s4"
  define s' where "s' = enter_task n (prepare_entry n s5)"
  have run: "abandon_caller cmd s = Some s'"
    unfolding abandon_caller_def Let_def e1 s2_def [symmetric] f2 option.case n2r s3_def [symmetric] n3
      s4_def [symmetric] s5_def [symmetric] s'_def ..
  have r4: "regs (tasks s4 n) = (regs (tasks s n))\<lparr>reg_count := 0\<rparr>"
    using lr by (simp add: s4_def s3_def s2_def frame_simps upd_regs_def upd_task_def)
  have k4: "kernbase s4 = KERNBASE" by (simp add: s4_def s3_def s2_def frame_simps k(1))
  note F = prepared_frame [OF k4, of "regs (tasks s4 n)", folded s5_def, unfolded r4, simplified, OF k(2)]
  note P5 = phys_onlyD [OF phys_only_prepare [of s4 "regs (tasks s4 n)"], folded s5_def]
  have f: "runningThread s' = n" "deleteQueue s' = deleteQueue s" "klog s' = klog ?s1" "pmem s' = pmem s5" "kernbase s' = kernbase s5"
    by (simp_all add: s'_def frame_simps P5 s4_def s3_def s2_def)
  have n': "tnext s' x = (if x = ?l then n else tnext s x)" for x
  proof -
    have "tnext s' x = tnext s3 x" by (simp add: s'_def frame_simps P5 s4_def)
    then show ?thesis using fun_cong [OF n2, of x] by (simp add: s3_def frame_simps)
  qed
  have "path (tnext s') (deleteQueue s) ds NULL"
    by (rule path_fun_upd [OF _ d(3)]) (use n' d(1) last_in_set [of "n # ts"] in auto)
  then have "queues s' ts ds"
    using ring_drop_head [OF rg n'] d unfolding queues_def f by auto
  moreover have "task_state (tasks s' ?r) = 0"
    using lr by (simp add: s'_def frame_simps prepare_entry_regs P5 s4_def s3_def s2_def upd_regs_def upd_task_def)
  moreover have "rd s' = rd s5" by (simp add: rd_def f(4,5) fun_eq_iff)
  moreover have "cpu_rsp s' = kernelRsp (regs (tasks s n)) - 40" "cr3_reg s' = cr3 (regs (tasks s n))"
    by (simp_all add: s'_def frame_simps prepare_entry_def Let_def set_tss_rsp_def P5 r4)
  moreover have "kernelRsp (regs (tasks s n)) - 40 + 24 = kernelRsp (regs (tasks s n)) - 16" by simp
  ultimately show ?thesis
    using run f(1,3) F by (intro exI [of _ s']) (simp add: iret_rip_def iret_rsp_def frame_simps)
qed

text \<open>The address that \<open>exec\<close> hands to the allocator for its new task is that of a frame past the 64 GB, and past the bitmap.\<close>

lemma exec_free_address: "page_of f + KERNBASE - sizeof_Task * KERNBASE = page_of (f + 288882688)"
  by (simp add: page_of_def KERNBASE_def distrib_right)

lemma exec_free_outside:
  assumes "vm_ok s" "free_frames s \<noteq> {}" "kmalloc_task s = (t, s1)" and "vm_ok u"
  shows "pageDeAllocator_checked (t - sizeof_Task * kernbase u) u = None"
proof -
  obtain p sk where k: "kmalloc s = (p, sk)" by fastforce
  from kmalloc_tree [OF assms(1,2) k] obtain f where f: "f \<in> free_frames s" "p = page_of f + KERNBASE" by metis
  have t: "t = page_of f + KERNBASE" using assms(3) f(2) by (simp add: kmalloc_task_def k)
  have "f < 65536" using free_frames_bound [of s f] assms(1) f(1) by (simp add: vm_ok_def)
  then have "pageDeAllocator_checked (page_of (f + 288882688)) u = None"
    using assms(4) by (intro outside_bitmap) (simp_all add: vm_ok_def)
  then show ?thesis unfolding kernbase_ok [OF assms(4)] t exec_free_address .
qed

text \<open>C30: A failing \<open>exec\<close>. When no directory of \<open>PATH\<close> has the command, \<open>exec\<close> has no value: it sets a bit far outside the bitmap (\<open>u\<close> is
  the state there, with the old tasks and queues). If what it hits leaves the tasks and queues alone, the code goes on like this: the
  caller is told on the console and taken out of the run queue for good, it is in neither queue and its state is 0, and
  the next task (one has to be there) is entered, but at the instruction and with the stack pointer its registers have from its creation, wherever it was interrupted.\<close>

theorem exec_not_found:
  fixes s :: "'a fs_scheme"
  assumes rdy: "exec_ready s (n # ts) ds" and f: "get_executable_path stk stk2 cmd s = Some None" and c: "10 \<le> card (free_frames s)"
    and k: "KERNBASE + 40 \<le> kernelRsp (regs (tasks s n))"
  shows "exec stk stk2 cmd args envp s = None \<and>
    (\<exists>t u. exec stk stk2 cmd args envp s = Option.bind (pageDeAllocator_checked (t - sizeof_Task * kernbase u) u)
        (\<lambda>u. map_option (\<lambda>s'. (Entered, s')) (abandon_caller cmd u)) \<and>
      pageDeAllocator_checked (t - sizeof_Task * kernbase u) u = None \<and> queues u (n # ts) ds \<and> (\<forall>x. x \<noteq> t \<longrightarrow> tasks u x = tasks s x) \<and>
      (\<forall>u' :: 'a fs_scheme. tasks u' = tasks u \<and> runningThread u' = runningThread u \<and> deleteQueue u' = deleteQueue u \<and> kernbase u' = kernbase u \<longrightarrow>
        (\<exists>s'. abandon_caller cmd u' = Some s' \<and> runningThread s' = n \<and> queues s' ts ds \<and>
          task_state (tasks s' (runningThread s)) = 0 \<and> klog s' = klog u' @ [(''%s : command not found\<newline>'', [KStr cmd])] \<and>
          cr3_reg s' = cr3 (regs (tasks s n)) \<and> iret_rip s' = rip (regs (tasks s n)) \<and> iret_rsp s' = userRsp (regs (tasks s n)))))"
proof -
  obtain t g s1 s2 s4 S new where A: "kmalloc_task s = (t, s1)" "getNewPML4ForUser s1 = (page_of g, s2)"
    "stackForUser t (upd_regs t (\<lambda>r. r\<lparr>cr3 := page_of g\<rparr>) s2) = Some (USER_STACK, s4)" "vm_ok s4"
    "\<not> live s t" "\<And>x. x \<noteq> t \<Longrightarrow> tasks s4 x = tasks s x"
    "runningThread s4 = runningThread s" "deleteQueue s4 = deleteQueue s" "kernel.more s4 = kernel.more s"
    using exec_setup [OF rdy c] by auto
  define u where "u = upd_regs t (\<lambda>r. r\<lparr>userRsp := USER_STACK + 0x1000\<rparr>) s4"
  have e: "vm_ok u" "kernbase u = KERNBASE" "kernel.more u = kernel.more s" "runningThread u = runningThread s" "deleteQueue u = deleteQueue s"
    "\<And>x. x \<noteq> t \<Longrightarrow> tasks u x = tasks s x"
    using A(4,6-9) kernbase_ok [OF A(4)] by (simp_all add: u_def frame_simps) (simp_all add: upd_regs_def upd_task_def)
  have fresh: "t \<notin> set (runningThread s # (n # ts) @ ds)" using rdy A(5) unfolding exec_ready_def by auto
  have same: "tasks u x = tasks s x" if "x \<in> set (runningThread s # (n # ts) @ ds)" for x
    by (rule e(6)) (use that fresh in blast)
  then have q: "queues u (n # ts) ds"
    using queues_next_kept [of s "n # ts" ds u] rdy e(4,5) unfolding exec_ready_def by simp
  have n: "tasks u n = tasks s n" by (rule same) simp
  have "get_executable_path stk stk2 cmd u = Some None" using f unfolding get_executable_path_def more_fs [OF e(3)] .
  then have L: "loadFile stk stk2 cmd pm t u = Some (0, u)" for pm by (simp add: loadFile_def)
  have out: "pageDeAllocator_checked (t - sizeof_Task * kernbase u) u = None"
    using exec_free_outside [OF _ _ A(1) e(1)] rdy c unfolding exec_ready_def by fastforce
  have E: "exec stk stk2 cmd args envp s = Option.bind (pageDeAllocator_checked (t - sizeof_Task * kernbase u) u)
        (\<lambda>u. map_option (\<lambda>s'. (Entered, s')) (abandon_caller cmd u))"
    unfolding exec_def A(1,2) prod.case Let_def A(3) Option.bind.bind_lunit u_def [symmetric] L out command_not_found_def by simp
  have "\<exists>s'. abandon_caller cmd u' = Some s' \<and> runningThread s' = n \<and> queues s' ts ds \<and>
          task_state (tasks s' (runningThread s)) = 0 \<and> klog s' = klog u' @ [(''%s : command not found\<newline>'', [KStr cmd])] \<and>
          cr3_reg s' = cr3 (regs (tasks s n)) \<and> iret_rip s' = rip (regs (tasks s n)) \<and> iret_rsp s' = userRsp (regs (tasks s n))"
    if "tasks u' = tasks u \<and> runningThread u' = runningThread u \<and> deleteQueue u' = deleteQueue u \<and> kernbase u' = kernbase u" for u' :: "'a fs_scheme"
  proof -
    have "queues u' (n # ts) ds" using queues_next_kept [OF q, of u'] that by simp
    from abandon_caller_ok [OF this, of cmd] that k e(2,4) show ?thesis by (auto simp: n)
  qed
  with E out q e(6) show ?thesis by (intro conjI exI [of _ t] exI [of _ u]) simp_all
qed

theorem exec_not_found_witness:
  "exec (\<lambda>_. CHR 0x00) (\<lambda>_. CHR 0x00) ''g'' [] [] exec_state = None \<and>
   (\<exists>u s'. abandon_caller ''g'' (u :: fs) = Some s' \<and> runningThread s' = page_of 303 + KERNBASE \<and>
     task_state (tasks s' (page_of 302 + KERNBASE)) = 0 \<and> iret_rip s' = 0)"
proof -
  obtain a b where "getCWD (bytes exec_fs) (\<lambda>_. CHR 0x00) 256 = Some (a, b)" "array_string b = Some ''/''"
    using getCWD_environ [OF exec_environ, of "''/''" "\<lambda>_. CHR 0x00"] by auto
  then have "cwd_string (\<lambda>_. CHR 0x00) (bytes exec_fs) = Some ''/''" by (simp add: cwd_string_def)
  then have "abs_path 512 (\<lambda>_. CHR 0x00) ''g'' 512 (bytes exec_fs) = Some ''/g''"
    by (simp add: abs_path_def remove_dotslash_def norm_loop.simps get_between_2slashes_def)
  then have "get_executable_path (\<lambda>_. CHR 0x00) (\<lambda>_. CHR 0x00) ''g'' exec_fs = Some None"
    using executable_search_lemma [OF exec_archive _ _ exec_environ, of "[''/b'']" "''g''" "\<lambda>_. CHR 0x00" "''/g''" "\<lambda>_. CHR 0x00"]
    by (simp add: exec_fs_sel archive_size_def pad_def dirs_ok_def candidate_def)
  then have "get_executable_path (\<lambda>_. CHR 0x00) (\<lambda>_. CHR 0x00) ''g'' exec_state = Some None"
    unfolding get_executable_path_def more_fs [OF exec_state_sel(7)] .
  moreover have "regs (tasks exec_state (page_of 303 + KERNBASE)) = zero_regs\<lparr>cr3 := page_of 256, kernelRsp := page_of 300 + KERNBASE + 0x1000\<rparr>"
    by (simp add: exec_state_def small_task_def page_of_inj)
  ultimately show ?thesis
    using exec_not_found [OF exec_state_ready, of "\<lambda>_. CHR 0x00" "\<lambda>_. CHR 0x00" "''g''" "[]" "[]"] stack_page_kernel [of 300]
    by (simp add: exec_state_free exec_state_sel zero_regs_def) blast
qed

end
