(* ===== verification/Steps.thy ===== *)
theory Steps
  imports Irq
begin

text \<open>
  Interrupts as steps of a state machine: an interrupt, an exception or a page fault, as the
  handlers of \<open>Irq\<close> and \<open>Fault\<close> model them, with any inputs; \<open>System\<close> adds the system calls. The invariant says that the two queues stay well formed, that no
  task gets lost, that tasks keep their pids and that the shell is never ended.
\<close>

section \<open>Steps\<close>

inductive machine_step :: "'a machine_scheme \<Rightarrow> 'a machine_scheme \<Rightarrow> bool" where
  timer: "timer_intr_hdlr s = Some (c, s') \<Longrightarrow> machine_step s s'"
| keyboard: "key_press_handler a s = Some (c, s') \<Longrightarrow> machine_step s s'"
| rtc: "machine_step s (rtc_intr_hndlr sec mins hr regb s)"
| trap: "n < 22 \<Longrightarrow> n \<noteq> 14 \<Longrightarrow> hndlr_isr n s = Some (c, s') \<Longrightarrow> machine_step s s'"
| fault: "hndlr_isr14 addr s = Some (c, s') \<Longrightarrow> machine_step s s'"

section \<open>The invariant\<close>

definition kernel_ok :: "u64 set \<Rightarrow> (u64 \<Rightarrow> i32) \<Rightarrow> 'a kernel_scheme \<Rightarrow> bool" where
  "kernel_ok T pid s \<longleftrightarrow>
     (\<exists>ts ds. queues s ts ds \<and> set (runningThread s # ts @ ds) = T \<and> (\<exists>x \<in> set (runningThread s # ts). pid x = 1)) \<and>
     (\<forall>x \<in> T. areas_ok s x) \<and> (\<forall>x. pid_t (tasks s x) = pid x)"

text \<open>Most operations do not touch what the invariant speaks of.\<close>

definition quiet :: "'a kernel_scheme \<Rightarrow> 'a kernel_scheme \<Rightarrow> bool" where
  "quiet s s' \<longleftrightarrow> vmas s' = vmas s \<and> deleteQueue s' = deleteQueue s \<and> runningThread s' = runningThread s \<and>
     (\<forall>x. tnext s' x = tnext s x \<and> pid_t (tasks s' x) = pid_t (tasks s x) \<and> memMap (tasks s' x) = memMap (tasks s x))"

lemma quiet_refl [simp]: "quiet s s"
  by (simp add: quiet_def)

lemma quiet_trans: "quiet s s' \<Longrightarrow> quiet s' s'' \<Longrightarrow> quiet s s''"
  by (simp add: quiet_def)

lemma quiet_ok:
  assumes "quiet s s'" and "kernel_ok T pid s"
  shows "kernel_ok T pid s'"
proof -
  have "tnext s' = tnext s" using assms(1) by (auto simp: quiet_def)
  moreover have "areas_ok s' x = areas_ok s x" for x using assms(1) by (simp add: quiet_def areas_ok_def)
  ultimately show ?thesis using assms by (simp add: kernel_ok_def quiet_def queues_def)
qed

lemma quiet_phys: "phys_only (s :: 'a kernel_scheme) s' \<Longrightarrow> quiet s s'"
  by (simp add: quiet_def phys_onlyD)

lemma quiet_upd_task:
  "(\<And>k. task_next (f k) = task_next k) \<Longrightarrow> (\<And>k. pid_t (f k) = pid_t k) \<Longrightarrow> (\<And>k. memMap (f k) = memMap k) \<Longrightarrow>
    quiet s (upd_task t f s)"
  by (simp add: quiet_def upd_task_def)

lemma quiet_ops [simp]:
  "quiet s (kprintf f x s)" "quiet s (upd_kbd g s)" "quiet s (eoi s)" "quiet s (outb d p s)" "quiet s (setforegroundPid q s)"
  by (simp_all add: quiet_def kprintf_def upd_kbd_def eoi_def outb_def setforegroundPid_def)

lemma quiet_machine [simp]:
  "quiet s (on_screen h s)" "quiet s (press_bar n s)" "quiet s (s\<lparr>shift := a\<rparr>)" "quiet s (s\<lparr>control := a\<rparr>)"
  "quiet s (key_up b s)" "quiet s (advance_clock s)" "quiet s (s\<lparr>tick_i := a, tick_j := a'\<rparr>)" "quiet s (s\<lparr>tick_j := a\<rparr>)"
  by (simp_all add: quiet_def press_bar_def key_up_def)

lemma quiet_if: "quiet s t \<Longrightarrow> quiet s u \<Longrightarrow> quiet s (if P then t else u)"
  by simp

lemma quiet_readChar: "quiet s (snd (readChar s))"
  by (simp add: readChar_def Let_def)

lemma quiet_writeChar: "quiet s (writeChar c n s)"
  unfolding writeChar_def Let_def
  by (intro quiet_if quiet_trans [OF _ quiet_ops(1)] quiet_trans [OF _ quiet_ops(2)] quiet_refl
      quiet_trans [OF _ quiet_readChar])

lemma quiet_backspace: "quiet s (handleBackspace s)"
  unfolding handleBackspace_def Let_def
  by (intro quiet_if quiet_trans [OF _ quiet_ops(1)] quiet_trans [OF _ quiet_ops(2)] quiet_refl)

lemma quiet_read_stdin: "quiet s (snd (read_stdin n s))"
proof -
  have "quiet s (snd (read_line readChar n s))"
  proof (induction n arbitrary: s)
    case (Suc n)
    obtain c t where t: "readChar s = (c, t)" by (cases "readChar s")
    then have "quiet s t" using quiet_readChar [of s] by simp
    with Suc [of t] quiet_trans show ?case by (auto simp: t split: prod.split)
  qed simp
  then show ?thesis by (simp add: read_stdin_def)
qed

lemma quiet_sleep: "quiet s (snd (setSleep secs s))" "quiet s (snd (getCounter s))"
  "quiet s (snd (setAlarmFP n fp s))" "quiet s (snd (setAlarm secs s))"
  by (auto simp: setSleep_def getCounter_def setAlarmFP_def setAlarm_def Let_def intro!: quiet_upd_task)

lemma quiet_rtc: "quiet s (rtc_intr_hndlr a b c d s)"
  by (simp add: quiet_def rtc_intr_hndlr_def rtc_update_def eoi_def outb_def Let_def)

lemma quiet_timer_second:
  assumes "timer_second s = Some s'"
  shows "quiet s s'"
proof -
  let ?s1 = "s\<lparr>tick_i := 0, seconds := seconds s + 1\<rparr>"
  have c: "quiet u (count_second t u)" for t and u :: "'a machine_scheme"
    unfolding count_second_upd by (rule quiet_upd_task) simp_all
  have "quiet s ?s1" by (simp add: quiet_def)
  note 1 = quiet_trans [OF this c]
  from assms obtain s3 f where s3: "for_ptrs tnext (runningThread ?s1) (\<lambda>t s. Some (count_second t s))
      (tnext (count_second (runningThread ?s1) ?s1) (runningThread ?s1)) (count_second (runningThread ?s1) ?s1) = Some s3"
    "s' = on_screen f (advance_clock s3)"
    by (auto simp: timer_second_def getRunningThread_def Let_def split: option.splits)
  have "quiet s s3" by (rule for_ptrs_keeps [OF s3(1)]) (use 1 c quiet_trans in blast)+
  then show ?thesis unfolding s3(2) by (intro quiet_trans [OF _ quiet_machine(1)] quiet_trans [OF _ quiet_machine(6)])
qed

section \<open>Operations on the queues\<close>

lemma undisturbed_ok:
  assumes "undisturbed s s'" and "kernel_ok T pid s" and "queues s' ts ds" "set (runningThread s' # ts @ ds) = T"
    and "\<exists>x \<in> set (runningThread s' # ts). pid x = 1"
  shows "kernel_ok T pid s'"
proof -
  have "pid_t (tasks s' x) = pid x" for x using assms(1,2) by (simp add: kernel_ok_def undisturbed_def)
  moreover have "areas_ok s' x" if "x \<in> T" for x
    using assms(2) that by (simp add: kernel_ok_def undisturbed_areas_ok [OF assms(1)])
  ultimately show ?thesis using assms(3-5) unfolding kernel_ok_def by blast
qed

lemma switch_ok:
  assumes "kernel_ok T pid s"
  shows "kernel_ok T pid (runNextTask s)"
proof -
  from assms obtain ts ds where q: "queues s ts ds" "set (runningThread s # ts @ ds) = T"
    "\<exists>x \<in> set (runningThread s # ts). pid x = 1" by (auto simp: kernel_ok_def)
  show ?thesis
  proof (cases ts)
    case Nil
    with q runNextTask_alone [of s ds] have "queues (runNextTask s) [] ds" "runningThread (runNextTask s) = runningThread s" by auto
    with undisturbed_ok [OF undisturbed_runNextTask assms this(1)] q Nil show ?thesis by simp
  next
    case (Cons t us)
    with q runNextTask_rotates [of s t us ds]
    have "queues (runNextTask s) (us @ [runningThread s]) ds" "runningThread (runNextTask s) = t" by auto
    with undisturbed_ok [OF undisturbed_runNextTask assms this(1)] q Cons show ?thesis by auto
  qed
qed

lemma exit_keeps:
  assumes "kernel_ok T pid s" and "exit n s = Some (c, s')"
  shows "kernel_ok T pid s'"
proof -
  let ?r = "runningThread s"
  from assms(1) obtain ts ds where q: "queues s ts ds" "set (?r # ts @ ds) = T" "\<exists>x \<in> set (?r # ts). pid x = 1"
    and p: "pid_t (tasks s ?r) = pid ?r" and ar: "areas_ok s ?r" by (auto simp: kernel_ok_def)
  show ?thesis
  proof (cases "pid ?r = 1")
    case True
    with assms(2) p have "s' = kprintf ''killing sbush.... restarting....\<newline>'' [] s" by (simp add: exit_def Let_def)
    with quiet_ok [OF quiet_ops(1) assms(1)] show ?thesis by simp
  next
    case False
    with q(3) obtain t us where ts: "ts = t # us" by (cases ts) auto
    from exit_ok [OF q(1) [unfolded ts] ar, of n] p False assms(2) have "runningThread s' = t" "queues s' us (ds @ [?r])" by auto
    with undisturbed_ok [OF undisturbed_exit [OF assms(2)] assms(1) this(2)] q ts False show ?thesis by auto
  qed
qed

lemma exitpid_keeps:
  assumes "kernel_ok T pid s" and "exitpid p s = Some (c, s')"
  shows "kernel_ok T pid s'"
proof -
  let ?r = "runningThread s"
  from assms(1) obtain ts ds where q: "queues s ts ds" "set (?r # ts @ ds) = T" "\<exists>x \<in> set (?r # ts). pid x = 1"
    and pd: "\<And>x. pid_t (tasks s x) = pid x" and ar: "\<And>x. x \<in> T \<Longrightarrow> areas_ok s x" by (auto simp: kernel_ok_def)
  show ?thesis
  proof (cases "p = 1 \<or> find (\<lambda>t. pid_t (tasks s t) = p) (ts @ [?r]) = None")
    case True
    have "path (tnext s) (tnext s ?r) ts ?r" "?r \<notin> set ts" using q(1) by (auto simp: queues_def ring_def)
    note ch = chase_ring_find [OF this, of "\<lambda>t. pid_t (tasks s t) = p"]
    have "s' = s"
    proof (cases "p = 1")
      case False
      with True have "find (\<lambda>t. pid_t (tasks s t) = p) ts = None" "pid_t (tasks s ?r) \<noteq> p" by (auto simp: find_None_iff)
      with ch have "chase (\<lambda>t. pid_t (tasks s t) \<noteq> p \<and> t \<noteq> ?r) (tnext s) (tnext s ?r) = Some ?r" by (simp add: conj_commute)
      with assms(2) False \<open>pid_t (tasks s ?r) \<noteq> p\<close> show ?thesis by (simp add: exitpid_def Let_def)
    qed (use assms(2) in \<open>simp add: exitpid_def\<close>)
    with assms(1) show ?thesis by simp
  next
    case False
    then obtain x where x: "find (\<lambda>t. pid_t (tasks s t) = p) (ts @ [?r]) = Some x" and p1: "p \<noteq> 1" by auto
    from find_split [OF x] obtain as bs where ab: "ts @ [?r] = as @ x # bs" "pid x = p" by (auto simp: pd)
    then have px: "pid x = p" by simp
    have "x \<in> set (ts @ [?r])" unfolding ab(1) by simp
    then have xin: "x \<in> set (?r # ts)" by simp
    have ne: "ts \<noteq> []" using q(3) xin px p1 by auto
    have arx: "areas_ok s x" by (rule ar) (use xin q(2) in auto)
    from exitpid_queues [OF q(1) ne p1 x arx] assms(2) obtain us where
      us: "queues s' us (ds @ [x])" "set (runningThread s' # us) = set (?r # ts) - {x}" by auto
    have "set (runningThread s' # us @ ds @ [x]) = T" using us(2) q(2) xin by auto
    moreover have "\<exists>y \<in> set (runningThread s' # us). pid y = 1" unfolding us(2) using q(3) px p1 by auto
    ultimately show ?thesis using undisturbed_ok [OF undisturbed_exitpid [OF assms(2)] assms(1) us(1)] by simp
  qed
qed

lemma kill_keeps:
  assumes "kernel_ok T pid s" and "kill p s = Some (v, s')"
  shows "kernel_ok T pid s'"
proof -
  let ?r = "runningThread s"
  from assms(1) obtain ts ds where q: "queues s ts ds" "set (?r # ts @ ds) = T" "\<exists>x \<in> set (?r # ts). pid x = 1"
    and pd: "\<And>x. pid_t (tasks s x) = pid x" and ar: "\<And>x. x \<in> T \<Longrightarrow> areas_ok s x" by (auto simp: kernel_ok_def)
  define as where "as = takeWhile (\<lambda>t. scast (pid_t (tasks s t)) \<noteq> p) ts"
  have sub: "set (drop (length as) ts) \<subseteq> T" using q(2) set_drop_subset [of "length as" ts] by auto
  show ?thesis
  proof (cases "p = 1")
    case True
    with assms(2) have "s' = kprintf ''cannot kill sbush\<newline>'' [] s" by (simp add: kill_def)
    with quiet_ok [OF quiet_ops(1) assms(1)] show ?thesis by simp
  next
    case False
    have "areas_ok s (hd (drop (length as) ts))" if "drop (length as) ts \<noteq> []" by (rule ar) (use sub hd_in_set [OF that] in auto)
    note K = kill_queues [OF q(1), of p, folded as_def, OF this False]
    show ?thesis
    proof (cases "drop (length as) ts")
      case Nil
      with K assms(2) have "s' = kprintf ''Did not find any process with given pid\<newline>'' [] s" by simp
      with quiet_ok [OF quiet_ops(1) assms(1)] show ?thesis by simp
    next
      case (Cons x bs)
      have "as = take (length as) ts" unfolding as_def by (rule takeWhile_eq_take)
      then have ts: "ts = as @ x # bs" using Cons append_take_drop_id [of "length as" ts] by simp
      have "dropWhile (\<lambda>t. scast (pid_t (tasks s t)) \<noteq> p) ts = x # bs" using Cons by (simp add: as_def dropWhile_eq_drop)
      then have "scast (pid x) = p" by (simp add: dropWhile_eq_Cons_conv pd)
      then have x1: "pid x \<noteq> 1" using False by auto
      from K Cons assms(2) have "runningThread s' = ?r" "queues s' (as @ bs) (ds @ [x])" by auto
      with undisturbed_ok [OF undisturbed_kill [OF assms(2)] assms(1) this(2)] q ts x1 show ?thesis by auto
    qed
  qed
qed


section \<open>All steps keep the invariant\<close>

lemma exit_then_keeps:
  assumes "kernel_ok T pid s" and "exit_then s k = Some (c, s')"
    and "\<And>t. kernel_ok T pid t \<Longrightarrow> k t = Some (c, s') \<Longrightarrow> kernel_ok T pid s'"
  shows "kernel_ok T pid s'"
  using assms(2) exit_keeps [OF assms(1), of 0] assms(3)
  by (auto simp: exit_then_def split: option.splits ctl.splits)

lemma returns_keeps: "kernel_ok T pid s \<Longrightarrow> returns s = Some (c, s') \<Longrightarrow> kernel_ok T pid s'"
  by (simp add: returns_def)

lemma exit_then_returns_keeps:
  "kernel_ok T pid s \<Longrightarrow> exit_then s returns = Some (c, s') \<Longrightarrow> kernel_ok T pid s'"
  by (erule (1) exit_then_keeps) (rule returns_keeps)

lemma ctrl_c_keeps:
  assumes "kernel_ok T pid s" and "ctrl_c s = Some (c, s')"
  shows "kernel_ok T pid s'"
proof -
  have "kernel_ok T pid (eoi (setforegroundPid 0 s))"
    by (rule quiet_ok [OF quiet_trans [OF quiet_ops(5) quiet_ops(3)] assms(1)])
  from exitpid_keeps [OF this] assms show ?thesis
    by (auto simp: ctrl_c_def Let_def returns_def split: if_splits option.splits ctl.splits)
qed

lemma key_keeps:
  assumes "kernel_ok T pid s" and "key_press_handler a s = Some (c, s')"
  shows "kernel_ok T pid s'"
proof -
  note w = quiet_trans [OF quiet_trans [OF quiet_machine(2) quiet_ops(1)] quiet_writeChar]
    and w' = quiet_trans [OF quiet_trans [OF quiet_machine(2) quiet_writeChar] quiet_ops(1)]
    and b = quiet_trans [OF quiet_machine(2) quiet_backspace]
  have d: "kernel_ok T pid t" if "default_key a s = Some (c', t)" for c' t
  proof -
    have "kernel_ok T pid (press_bar n s)" for n by (rule quiet_ok [OF quiet_machine(2) assms(1)])
    then show ?thesis
      using that by (auto simp: default_key_def Let_def returns_def intro: quiet_ok [OF w assms(1)]
          quiet_ok [OF b assms(1)] quiet_ok [OF quiet_machine(2) assms(1)] dest: ctrl_c_keeps [rotated] split: if_splits)
  qed
  have "kernel_ok T pid t" if "key_down a s = Some (c', t)" for c' t
    using that d by (auto simp: key_down_def returns_def intro: quiet_ok [OF w' assms(1)]
        quiet_ok [OF b assms(1)] quiet_ok [OF quiet_machine(2) assms(1)] quiet_ok [OF quiet_machine(3) assms(1)]
        quiet_ok [OF quiet_machine(4) assms(1)] split: if_splits option.splits)
  moreover have "kernel_ok T pid (key_up a s)" by (rule quiet_ok [OF quiet_machine(5) assms(1)])
  moreover have "kernel_ok T pid t \<Longrightarrow> kernel_ok T pid (eoi t)" for t :: "'a machine_scheme" by (rule quiet_ok [OF quiet_ops(3)])
  ultimately show ?thesis
    using assms(2) by (auto simp: key_press_handler_def returns_def split: if_splits option.splits ctl.splits)
qed

lemma timer_keeps:
  assumes "kernel_ok T pid s" and "timer_intr_hdlr s = Some (c, s')"
  shows "kernel_ok T pid s'"
proof -
  let ?s1 = "s\<lparr>tick_i := tick_i s + 1, tick_j := tick_j s + 1\<rparr>"
  have 1: "kernel_ok T pid ?s1" by (rule quiet_ok [OF quiet_machine(7) assms(1)])
  have 2: "kernel_ok T pid (eoi (?s1\<lparr>tick_j := 0\<rparr>))"
    by (rule quiet_ok [OF quiet_trans [OF quiet_machine(8) quiet_ops(3)] 1])
  have e: "kernel_ok T pid (eoi t)" if "kernel_ok T pid t" for t :: "'a machine_scheme" by (rule quiet_ok [OF quiet_ops(3) that])
  have "kernel_ok T pid t" if "timer_second ?s1 = Some t" for t by (rule quiet_ok [OF quiet_timer_second [OF that] 1])
  with assms(2) show ?thesis
    using e [OF 1] e [OF 2] switch_ok [OF 2] e
    by (auto simp: timer_intr_hdlr_def Let_def returns_def split: if_splits option.splits)
qed

lemma quiet_demand: "quiet s (demand_page page s)"
proof -
  obtain p t where pt: "pageAllocator s = (p, t)" by (cases "pageAllocator s")
  then have "phys_only s t" using phys_only_alloc [of s] by simp
  from phys_only_trans [OF this phys_only_trans [OF phys_only_map phys_only_memset]] pt show ?thesis
    by (simp add: demand_page_def Let_def quiet_phys)
qed

lemma quiet_cow:
  assumes "cow_page page s = Some s'"
  shows "quiet s s'"
proof -
  obtain p t where pt: "kmalloc s = (p, t)" by (cases "kmalloc s")
  then have "phys_only s t" using phys_only_kmalloc [of s] by simp
  from phys_only_trans [OF this phys_only_trans [OF phys_only_map phys_only_memcpy]] pt assms show ?thesis
    by (auto simp: cow_page_def Let_def intro!: quiet_phys split: option.splits if_splits)
qed

lemma fault_keeps:
  fixes s :: "'a kernel_scheme"
  assumes "kernel_ok T pid s" and "hndlr_isr14 addr s = Some (c, s')"
  shows "kernel_ok T pid s'"
proof -
  have k: "kernel_ok T pid (kprintf f x t)" if "kernel_ok T pid t" for f x and t :: "'a kernel_scheme"
    by (rule quiet_ok [OF quiet_ops(1) that])
  have dm: "kernel_ok T pid (demand_page p t)" if "kernel_ok T pid t" for p and t :: "'a kernel_scheme"
    by (rule quiet_ok [OF quiet_demand that])
  have e: "kernel_ok T pid (t\<lparr>errorCode := x\<rparr>)" if "kernel_ok T pid t" for x and t :: "'a kernel_scheme"
    by (rule quiet_ok [OF _ that]) (simp add: quiet_def)
  note X = exit_then_returns_keeps [OF k] exit_then_returns_keeps [OF k [OF k]]
  define page where "page = addr AND FRAME"
  define tail where "tail = (\<lambda>us rw p code (s :: 'a kernel_scheme).
    if (us \<and> rw \<and> \<not> p) \<or> (\<not> us \<and> rw \<and> \<not> p) then
      (case isPartofCurrentVma page s of
         None \<Rightarrow> None
       | Some b \<Rightarrow>
           if b \<noteq> 0 then returns (demand_page page s)
           else if us \<and> rw \<and> \<not> p then
             exit_then (kprintf ''Segmentation Fault..Unauthorised access to meomry..Killing the process..\<newline>'' [] s) returns
           else None)
    else if us \<and> rw \<and> p then
      (case cow_page page s of None \<Rightarrow> None | Some s' \<Rightarrow> returns s')
    else if us \<and> \<not> rw \<and> \<not> p then
      exit_then (kprintf ''Segmentation Fault..Unauthorised access to meomry..Killing the process..\<newline>'' []
                  (kprintf ''%d'' [KNum code] s)) returns
    else if \<not> us \<and> \<not> rw \<and> \<not> p then None
    else exit_then (kprintf ''Segmentation Fault..\<newline>'' [] (kprintf ''%d'' [KNum code] s)) returns)"
  have tl: "kernel_ok T pid s'" if "kernel_ok T pid t" "tail us rw p code t = Some (c, s')" for us rw p code and t :: "'a kernel_scheme"
    using that(2) X [OF that(1)] dm [OF that(1)] quiet_ok [OF quiet_cow that(1)]
    by (auto simp: tail_def returns_def split: if_splits option.splits)
  define body where "body = (\<lambda>s :: 'a kernel_scheme.
    let s0 = s\<lparr>errorCode := drop_bit 3 (errorCode s)\<rparr>;
        k = tail (drop_bit 2 (errorCode s) AND 1 \<noteq> 0) (drop_bit 1 (errorCode s) AND 1 \<noteq> 0) (errorCode s AND 1 \<noteq> 0) (errorCode s0)
    in if errorCode s0 \<noteq> 0 then exit_then (kprintf ''%d'' [KNum (errorCode s0)] s0) k else k s0)"
  have bd: "kernel_ok T pid s'" if "kernel_ok T pid t" "body t = Some (c, s')" for t
    using that(2) exit_then_keeps [OF k [OF e [OF that(1)]] _ tl] tl [OF e [OF that(1)]]
    by (auto simp: body_def Let_def split: if_splits)
  have h: "hndlr_isr14 addr s = (if page = 0xFFFFFF7EFFFF5000
    then exit_then (kprintf ''Reached the stack border: Cannot allocate this page\<newline>'' [] s) body else body s)"
    unfolding hndlr_isr14_def body_def tail_def page_def Let_def by (rule refl)
  show ?thesis
    using assms(2) bd [OF assms(1)] exit_then_keeps [OF k [OF assms(1)] _ bd] unfolding h by (auto split: if_splits)
qed

lemma step_keeps:
  assumes "machine_step s s'" and "kernel_ok T pid s"
  shows "kernel_ok T pid s'"
  using assms
proof (induction rule: machine_step.induct)
  case (trap n s c s')
  from exit_then_returns_keeps [OF quiet_ok [OF quiet_ops(1) trap.prems]] trap.hyps(3) show ?case by (simp add: hndlr_isr_def)
qed (blast intro: timer_keeps key_keeps fault_keeps quiet_ok [OF quiet_rtc])+

lemma exit_total:
  assumes "kernel_ok T pid t"
  shows "exit m t \<noteq> None"
proof -
  from assms obtain ts ds where q: "queues t ts ds" "\<exists>x \<in> set (runningThread t # ts). pid x = 1"
    and p: "pid_t (tasks t (runningThread t)) = pid (runningThread t)" and ar: "areas_ok t (runningThread t)"
    by (auto simp: kernel_ok_def)
  show ?thesis
  proof (cases "pid (runningThread t) = 1")
    case False
    with q(2) obtain u us where "ts = u # us" by (cases ts) auto
    with exit_ok [of t u us ds m] q(1) ar p False show ?thesis by auto
  qed (simp add: exit_def Let_def p)
qed

text \<open>A search of the ring for a pid: it is not there, or it belongs to a task that can be ended.\<close>

lemma exitpid_total:
  assumes "kernel_ok T pid t"
  shows "exitpid m t \<noteq> None"
proof -
  let ?r = "runningThread t"
  from assms obtain ts ds where q: "queues t ts ds" "set (?r # ts @ ds) = T" "\<exists>x \<in> set (?r # ts). pid x = 1"
    and pd: "\<And>x. pid_t (tasks t x) = pid x" and ar: "\<And>x. x \<in> T \<Longrightarrow> areas_ok t x" by (auto simp: kernel_ok_def)
  have "path (tnext t) (tnext t ?r) ts ?r" "?r \<notin> set ts" using q(1) by (auto simp: queues_def ring_def)
  note ch = chase_ring_find [OF this, of "\<lambda>x. pid_t (tasks t x) = m"]
  consider "m = 1" | "m \<noteq> 1" "find (\<lambda>x. pid_t (tasks t x) = m) (ts @ [?r]) = None"
    | x where "m \<noteq> 1" "find (\<lambda>x. pid_t (tasks t x) = m) (ts @ [?r]) = Some x" by fastforce
  then show ?thesis
  proof cases
    case 2
    then have "find (\<lambda>x. pid_t (tasks t x) = m) ts = None" "pid_t (tasks t ?r) \<noteq> m" by (auto simp: find_None_iff)
    with ch have "chase (\<lambda>x. pid_t (tasks t x) \<noteq> m \<and> x \<noteq> ?r) (tnext t) (tnext t ?r) = Some ?r" by (simp add: conj_commute)
    with \<open>pid_t (tasks t ?r) \<noteq> m\<close> show ?thesis by (simp add: exitpid_def Let_def)
  next
    case (3 x)
    from find_split [OF 3(2)] obtain as bs where ab: "ts @ [?r] = as @ x # bs" "pid x = m" by (auto simp: pd)
    have xin: "x \<in> set (ts @ [?r])" unfolding ab(1) by simp
    have "ts \<noteq> []" using q(3) xin ab(2) 3(1) by auto
    moreover have "areas_ok t x" by (rule ar) (use xin q(2) in auto)
    ultimately show ?thesis using exitpid_queues [OF q(1) _ 3(1,2)] by auto
  qed (simp add: exitpid_def)
qed

lemma kill_total:
  assumes "kernel_ok T pid s"
  shows "kill p s \<noteq> None"
proof (cases "p = 1")
  case False
  from assms obtain ts ds where q: "queues s ts ds" "set (runningThread s # ts @ ds) = T"
    and ar: "\<And>x. x \<in> T \<Longrightarrow> areas_ok s x" by (auto simp: kernel_ok_def)
  define as where "as = takeWhile (\<lambda>t. scast (pid_t (tasks s t)) \<noteq> p) ts"
  have "areas_ok s (hd (drop (length as) ts))" if "drop (length as) ts \<noteq> []"
    by (rule ar) (use q(2) hd_in_set [OF that] set_drop_subset [of "length as" ts] in auto)
  from kill_queues [OF q(1), of p, folded as_def, OF this False] show ?thesis by (auto split: list.splits)
qed (simp add: kill_def)

lemma timer_total:
  assumes "kernel_ok T pid s"
  shows "timer_intr_hdlr s \<noteq> None"
proof -
  from assms obtain ts ds where "queues s ts ds" by (auto simp: kernel_ok_def)
  then have "queues (s\<lparr>tick_i := tick_i s + 1, tick_j := tick_j s + 1\<rparr>) ts ds" by (simp add: queues_def)
  from timer_second_eq [OF this] show ?thesis by (simp add: timer_intr_hdlr_def returns_def Let_def)
qed

lemma key_total:
  assumes "kernel_ok T pid s"
  shows "key_press_handler a s \<noteq> None"
proof -
  have "ctrl_c t \<noteq> None" if "kernel_ok T pid t" for t :: "'a machine_scheme"
  proof -
    have "kernel_ok T pid (eoi (setforegroundPid 0 t))" by (rule quiet_ok [OF quiet_trans [OF quiet_ops(5) quiet_ops(3)] that])
    from exitpid_total [OF this, of "getforegroundPid t"] show ?thesis by (auto simp: ctrl_c_def Let_def returns_def split: option.splits ctl.splits)
  qed
  note cc = this [OF quiet_ok [OF quiet_machine(2) assms]] this [OF quiet_ok [OF quiet_trans [OF quiet_machine(2) quiet_backspace] assms]]
  have "default_key a s \<noteq> None" using cc by (auto simp: default_key_def Let_def returns_def)
  then show ?thesis
    by (auto simp: key_press_handler_def key_down_def returns_def split: option.splits ctl.splits)
qed

lemma trap_total:
  assumes "kernel_ok T pid s"
  shows "hndlr_isr n s \<noteq> None"
proof -
  define u where "u = kprintf (isr_messages ! n) (if n = 13 then [KNum (errorCode s)] else []) s"
  have "exit 0 u \<noteq> None" unfolding u_def by (rule exit_total [OF quiet_ok [OF quiet_ops(1) assms]])
  then show ?thesis by (auto simp: hndlr_isr_def exit_then_def returns_def u_def [symmetric] split: option.split ctl.split)
qed

section \<open>Properties\<close>

lemma small_machine_ok: "kernel_ok {0x10, 0x20, 0x30, 0x40} (\<lambda>x. pid_t (tasks small_machine x)) small_machine"
proof -
  have r: "runningThread small_machine = 0x10" by (simp add: small_machine_sel small_kernel_sel)
  have "task_mmap small_machine x = NULL" for x
    by (simp add: small_machine_sel small_kernel_sel small_task_def zero_task_def)
  then have "areas_ok small_machine x" for x unfolding areas_ok_def by (intro exI [of _ "[]"]) simp
  moreover have "pid_t (tasks small_machine 0x30) = 1" by (simp add: small_machine_sel small_kernel_sel small_task_def)
  ultimately show ?thesis
    unfolding kernel_ok_def using small_machine_queues
    by (intro conjI exI [of _ "[0x20, 0x30]"] exI [of _ "[0x40]"]) (auto simp: r)
qed

text \<open>C19: No handler hangs: in every state with well-formed queues and area lists (\<open>kernel_ok\<close>) the timer, every key, every exception and the calls \<open>exit\<close> and \<open>kill\<close> always
  come to an end (return, or enter a task), whatever their arguments. (A page fault can end in
  the source's \<open>while(1)\<close>.)\<close>

theorem handlers_terminate:
  assumes "kernel_ok T pid s"
  shows "timer_intr_hdlr s \<noteq> None \<and> key_press_handler a s \<noteq> None \<and> hndlr_isr n s \<noteq> None \<and>
    exit n' s \<noteq> None \<and> kill p s \<noteq> None"
  using timer_total [OF assms] key_total [OF assms] trap_total [OF assms] exit_total [OF assms] kill_total [OF assms] by blast

theorem handlers_terminate_witness: "timer_intr_hdlr small_machine \<noteq> None \<and> kill 3 small_machine \<noteq> None"
  using handlers_terminate [OF small_machine_ok] by blast

end
