(* ===== verification/Syscall.thy ===== *)
theory Syscall
  imports Exec Steps Dirs
begin

text \<open>
  The system call interface (\<open>sys/syscall.c\<close>, \<open>sys/syscall.s\<close>): the registers set up by \<open>initSyscalls\<close>, what the entry code saves,
  and the dispatch to the operations of the other theories, with the conversions of the parameters and of the results. The
  lemmas say what a call does to the state of the calling task and which calls keep the invariant of the run queues.
\<close>

section \<open>Model specific registers\<close>

abbreviation MSR_EFER :: u32 where "MSR_EFER \<equiv> 0xC0000080"
abbreviation MSR_STAR :: u32 where "MSR_STAR \<equiv> 0xC0000081"
abbreviation MSR_LSTAR :: u32 where "MSR_LSTAR \<equiv> 0xC0000082"
abbreviation MSR_SFMASK :: u32 where "MSR_SFMASK \<equiv> 0xC0000084"

text \<open>The registers of the CPU are a function; \<open>rdmsr\<close> and \<open>wrmsr\<close> see their two halves.\<close>

definition readMSR :: "(u32 \<Rightarrow> u64) \<Rightarrow> u32 \<Rightarrow> u64" where
  "readMSR msrs msrAddr =
     (let msrLow = ucast (msrs msrAddr) :: u32; msrHigh = ucast (drop_bit 32 (msrs msrAddr)) :: u32
      in push_bit 32 (ucast msrHigh) OR ucast msrLow)"

definition writeMSR :: "u64 \<Rightarrow> u32 \<Rightarrow> (u32 \<Rightarrow> u64) \<Rightarrow> u32 \<Rightarrow> u64" where
  "writeMSR val msrAddr msrs =
     (let msrLow = ucast val :: u32; msrHigh = ucast (drop_bit 32 val) :: u32
      in msrs(msrAddr := push_bit 32 (ucast msrHigh) OR ucast msrLow))"

text \<open>\<open>entry\<close> is the address of \<open>_syscallEntry\<close>. The first result is \<open>kernelRSP\<close>.\<close>

definition initSyscalls :: "u64 \<Rightarrow> (u32 \<Rightarrow> u64) \<Rightarrow> 'a phys_scheme \<Rightarrow> u64 \<times> (u32 \<Rightarrow> u64) \<times> 'a phys_scheme" where
  "initSyscalls entry msrs s =
     (case kmalloc s of (kernelRSP, s1) \<Rightarrow>
      let sce = readMSR msrs MSR_EFER OR 1;
          m1 = writeMSR sce MSR_EFER msrs;
          m2 = writeMSR (push_bit 9 1) MSR_SFMASK m1;
          m3 = writeMSR (push_bit 32 0x8 OR push_bit 48 0x1B) MSR_STAR m2
      in (kernelRSP, writeMSR entry MSR_LSTAR m3, s1))"

section \<open>Parameters in memory\<close>

text \<open>The array of strings at \<open>a\<close>, up to the NULL pointer.\<close>

partial_function (option) str_array :: "(u64 \<Rightarrow> char) \<Rightarrow> u64 \<Rightarrow> string list option" where
  "str_array m a =
     (if le 8 m a = 0 then Some []
      else Option.bind (cstr m (le 8 m a)) (\<lambda>x. Option.bind (str_array m (a + 8)) (\<lambda>xs. Some (x # xs))))"

text \<open>The memory from \<open>a\<close> on as an array, and an array written back.\<close>

definition array_at :: "(u64 \<Rightarrow> char) \<Rightarrow> u64 \<Rightarrow> nat \<Rightarrow> char" where
  "array_at m a i = m (a + of_nat i)"

definition store_array :: "u64 \<Rightarrow> (nat \<Rightarrow> char) \<Rightarrow> 'a fs_scheme \<Rightarrow> 'a fs_scheme" where
  "store_array a f s = s\<lparr>bytes := (\<lambda>x. f (unat (x - a)))\<rparr>"

definition store_int :: "u64 \<Rightarrow> i32 \<Rightarrow> 'a fs_scheme \<Rightarrow> 'a fs_scheme" where
  "store_int a v s = s\<lparr>bytes := store_str a (map (\<lambda>i. char_of (unat (drop_bit (8 * i) v))) [0..<4]) (bytes s)\<rparr>"

definition printMe :: "u64 \<Rightarrow> u64 \<Rightarrow> u64 \<Rightarrow> 'a fs_scheme \<Rightarrow> (u64 \<times> 'a fs_scheme) option" where
  "printMe a b c s =
     (let str = (\<lambda>p i. cstr (bytes s) (le 8 (bytes s) (p + 8 * i))) in
      Option.bind (str b 0) (\<lambda>b0. Option.bind (str c 0) (\<lambda>c0. Option.bind (str b 1) (\<lambda>b1. Option.bind (str c 1) (\<lambda>c1.
      Option.bind (str b 2) (\<lambda>b2.
        Some (0, kprintf ''%d %s %s\<newline>'' [KNum a, KStr b2, KStr c1]
          (kprintf ''%d %s %s\<newline>'' [KNum a, KStr b1, KStr c1] (kprintf ''%d %s %s\<newline>'' [KNum a, KStr b0, KStr c0] s)))))))))"

section \<open>The handler\<close>

text \<open>A routine that returns a value to the caller.\<close>

abbreviation returning :: "('v \<Rightarrow> u64) \<Rightarrow> ('v \<times> 's) option \<Rightarrow> (ctl \<times> 's) option" where
  "returning f r \<equiv> map_option (\<lambda>(v, s). (Returned (f v), s)) r"

text \<open>
  The dispatch. \<open>stk\<close> and \<open>stk2\<close> are what the uninitialised arrays of the operations hold. A number without a case returns 0.
\<close>

definition syscallHandler ::
    "(nat \<Rightarrow> char) \<Rightarrow> (nat \<Rightarrow> char) \<Rightarrow> u64 \<Rightarrow> u64 \<Rightarrow> u64 \<Rightarrow> u64 \<Rightarrow> 'a dirfs_scheme \<Rightarrow> (ctl \<times> 'a dirfs_scheme) option" where
  "syscallHandler stk stk2 paramA paramB paramC syscallNum s0 =
     (let s = s0\<lparr>mutex := 1\<rparr>; str = cstr (bytes s) in
      if syscallNum = 123 then Some (Returned 0, clearScreen s)
      else if syscallNum = 100 then exit paramA s
      else if syscallNum = 199 then returning id (kill paramA s)
      else if syscallNum = 1 then returning id (fork s)
      else if syscallNum = 99 then returning id (malloc paramA s)
      else if syscallNum = 0 then returning id (readFile (ucast paramA) paramB (ucast paramC) s)
      else if syscallNum = 4 then returning id (writeFile (ucast paramA) paramB (ucast paramC) s)
      else if syscallNum = 3 then returning id (closeFile (ucast paramA) s)
      else if syscallNum = 2 then Option.bind (str paramA) (\<lambda>p. returning ucast (openFile stk p s))
      else if syscallNum = 9 then Option.bind (str paramA) (\<lambda>p. returning id (openDirectory stk p s))
      else if syscallNum = 10 then returning ucast (closeDir paramA s)
      else if syscallNum = 11 then returning id (readDir paramA s)
      else if syscallNum = 12 then returning id (getDirEntries stk (ucast paramA) paramB (ucast paramC) s)
      else if syscallNum = 80 then Option.bind (str paramA) (\<lambda>p. returning ucast (changeDirectory stk p s))
      else if syscallNum = 79 then
        map_option (\<lambda>(v, dest). (Returned v, store_array paramA dest s)) (getCWD (bytes s) (array_at (bytes s) paramA) (ucast paramB))
      else if syscallNum = 78 then
        Option.bind (str paramA) (\<lambda>p. Option.bind (str_array (bytes s) paramB) (\<lambda>args.
          Option.bind (str_array (bytes s) paramC) (\<lambda>envp. exec stk stk2 p args envp s)))
      else if syscallNum = 88 then map_option (\<lambda>(v, st). (Returned v, store_int paramB st s)) (waitpid paramA s)
      else if syscallNum = 89 then map_option (\<lambda>s'. (Returned 0, s')) (free paramA s)
      else if syscallNum = 44 then map_option (\<lambda>s'. (Returned 0, s')) (ps s)
      else if syscallNum = 50 then (case setSleep paramA s of (v, s') \<Rightarrow> Some (Returned v, s'))
      else if syscallNum = 51 then (case getCounter s of (v, s') \<Rightarrow> Some (Returned v, s'))
      else if syscallNum = 53 then
        Option.bind (str paramA) (\<lambda>n. Option.bind (str paramB) (\<lambda>v. map_option (\<lambda>s'. (Returned 0, s')) (setenv n v s)))
      else if syscallNum = 155 then (case setAlarmFP paramA paramB s of (v, s') \<Rightarrow> Some (Returned v, s'))
      else if syscallNum = 156 then (case setAlarm paramA s of (v, s') \<Rightarrow> Some (Returned v, s'))
      else if syscallNum = 54 then Option.bind (str paramA) (\<lambda>n. map_option (\<lambda>v. (Returned v, s)) (getenv (bytes s) n))
      else if syscallNum = 55 then
        Option.bind (str (le 8 (bytes s) (paramA + 8))) (\<lambda>arg. returning ucast (env arg s))
      else if syscallNum = 66 then Some (Returned (getPid s), s)
      else if syscallNum = 67 then Some (Returned (getPPid s), s)
      else if syscallNum = 420 then returning id (printMe paramA paramB paramC s)
      else Some (Returned 0, s))"

text \<open>
  The entry code around it: the user's registers are saved before the handler runs, \<open>mutex\<close> is cleared when it returns. \<open>cpu\<close> are
  the registers at the \<open>syscall\<close> instruction, which has put the return address in \<open>rcx\<close> and the flags in \<open>r11\<close>.
\<close>

definition syscallEntry ::
    "(nat \<Rightarrow> char) \<Rightarrow> (nat \<Rightarrow> char) \<Rightarrow> Registers \<Rightarrow> u64 \<Rightarrow> u64 \<Rightarrow> 'a dirfs_scheme \<Rightarrow> (ctl \<times> 'a dirfs_scheme) option" where
  "syscallEntry stk stk2 cpu r11 rsp s =
     (let u = (userRegs s)\<lparr>userRsp := rsp, rip := rcx cpu, rax := rax cpu, rbx := rbx cpu, rcx := rcx cpu, rdx := rdx cpu,
                rsi := rsi cpu, rdi := rdi cpu, rbp := rbp cpu, rflags := r11\<rparr>
      in map_option (\<lambda>(c, s'). (c, if c = Entered then s' else s'\<lparr>mutex := 0\<rparr>))
           (syscallHandler stk stk2 (rdi cpu) (rsi cpu) (rdx cpu) (rax cpu) (s\<lparr>userRegs := u\<rparr>)))"

section \<open>Calls that leave the tasks alone\<close>

lemma quiet_fs [simp]:
  "quiet s (s\<lparr>mutex := x\<rparr>)" "quiet s (upd_fd a f s)" "quiet s (s\<lparr>bytes := m\<rparr>)" "quiet s (store_array a g s)" "quiet s (store_int a v s)"
  "quiet (t :: 'a dirfs_scheme) (upd_dirent b h t)"
  by (simp_all add: quiet_def upd_fd_def store_array_def store_int_def upd_dirent_def)

lemma quiet_fold_kprintf: "quiet s (((kprintf f x) ^^ n) s)"
  by (induction n) (auto intro: quiet_trans [OF _ quiet_ops(1)])

lemma quiet_fd_address: "get_fd_address fd s = Some (a, s') \<Longrightarrow> quiet s s'"
  by (auto simp: get_fd_address_def Let_def split: if_splits)

lemma quiet_need_page: "quiet s (need_page page s)"
proof -
  obtain p s1 where k: "kmalloc s = (p, s1)" by fastforce
  then have "quiet s s1" using quiet_phys [OF phys_only_kmalloc [of s]] by simp
  moreover have "quiet s1 (s1\<lparr>fds := x\<rparr>)" for x by (simp add: quiet_def)
  ultimately show ?thesis
    by (auto simp: need_page_def kmalloc_fds_def k intro!: quiet_trans [OF _ quiet_upd_task] elim: quiet_trans)
qed

lemma quiet_find_free: "quiet s (snd (find_free pages s))"
proof (induction pages arbitrary: s)
  case (Cons p ps)
  from Cons [of "need_page p s"] quiet_need_page [of s p] show ?case
    by (auto simp: Let_def split: option.split elim: quiet_trans)
qed simp

lemma quiet_files:
  "readFile fd buf n s = Some (v, s') \<Longrightarrow> quiet s s'"
  "writeFile fd buf n s = Some (v, s') \<Longrightarrow> quiet s s'"
  "closeFile fd s = Some (v, s') \<Longrightarrow> quiet s s'"
  "openFile stk p s = Some (w, s') \<Longrightarrow> quiet s s'"
  "openDirectory stk p s = Some (v, s') \<Longrightarrow> quiet s s'"
  "closeDir d s = Some (w, s') \<Longrightarrow> quiet s s'"
proof -
  obtain str s1 where r: "read_stdin (nat (sint n)) (s\<lparr>bytes := (bytes s)(buf := CHR ''0'')\<rparr>) = (str, s1)" by fastforce
  then have "quiet s s1" using quiet_trans [OF quiet_fs(3) quiet_read_stdin [of "s\<lparr>bytes := (bytes s)(buf := CHR ''0'')\<rparr>" "nat (sint n)"]] by simp
  then show "readFile fd buf n s = Some (v, s') \<Longrightarrow> quiet s s'"
    by (auto simp: readFile_def r bind_eq_Some_conv split: if_splits prod.splits dest: quiet_fd_address
        intro: quiet_trans [OF _ quiet_fs(3)] quiet_trans [OF _ quiet_ops(1)] quiet_trans [OF _ quiet_trans [OF quiet_fs(3) quiet_fs(2)]])
  show "writeFile fd buf n s = Some (v, s') \<Longrightarrow> quiet s s'" by (auto simp: writeFile_def split: if_splits)
  show "closeFile fd s = Some (v, s') \<Longrightarrow> quiet s s'"
    by (auto simp: closeFile_def bind_eq_Some_conv split: if_splits dest: quiet_fd_address intro: quiet_trans [OF _ quiet_fs(2)]
        quiet_trans [OF _ quiet_ops(1)])
  obtain o' sf where F: "find_free [0..<20] s = (o', sf)" by fastforce
  then have "quiet s sf" using quiet_find_free [of s "[0..<20]"] by simp
  then have q: "quiet s (upd_fd fd g sf)" "quiet s (kprintf m x sf)" for fd g m x
    using quiet_trans [OF _ quiet_fs(2)] quiet_trans [OF _ quiet_ops(1)] by blast+
  show "openFile stk p s = Some (w, s') \<Longrightarrow> quiet s s'"
    by (auto simp: openFile_def F bind_eq_Some_conv simp del: upt_rec_numeral split: if_splits option.splits intro: q)
  show "openDirectory stk p s = Some (v, s') \<Longrightarrow> quiet s s'"
    by (auto simp: openDirectory_def F bind_eq_Some_conv simp del: upt_rec_numeral split: if_splits option.splits intro: q)
  show "closeDir d s = Some (w, s') \<Longrightarrow> quiet s s'"
    by (auto simp: closeDir_def bind_eq_Some_conv Let_def split: if_splits dest: quiet_fd_address intro: quiet_trans [OF _ quiet_fs(2)]
        quiet_trans [OF _ quiet_ops(1)])
qed

lemma quiet_entry: "get_first_direntry nm b n t = (v, t') \<Longrightarrow> quiet t t'" "get_sub_direntry d nm b n t = (v, t') \<Longrightarrow> quiet t t'"
  by (auto simp: get_first_direntry_def get_sub_direntry_def split: if_splits)

lemma quiet_entries_root:
  fixes s :: "'a dirfs_scheme"
  assumes "entries_root buf n prev start s = Some y"
  shows "quiet s (snd (snd y))"
proof (rule entries_root.raw_induct [where P = "\<lambda>_ _ _ _ s y. quiet s (snd (snd y))", OF _ assms])
  fix rec buf n prev start y and s :: "'a dirfs_scheme"
  assume IH: "\<And>buf n prev start s y. rec buf n prev start s = Some y \<Longrightarrow> quiet s (snd (snd y))"
    and y: "(if start < BINARY_TARFS_END s
      then Option.bind (header_name (bytes s) start) (\<lambda>name.
        let s1 = snd (get_first_direntry name buf n s) in
        Option.bind (array_string (d_name (dirents s1 buf))) (\<lambda>new.
        Option.bind (array_string prev) (\<lambda>old.
        Option.bind (after s1 start) (\<lambda>nxt.
          if strcmp new old \<noteq> 0
          then rec (buf + SIZEOF_DIRENT) (n - 280) (strcpy new (if new = [] then prev(0 := CHR 0x00) else prev)) nxt s1
          else rec buf n prev nxt s1))))
      else Some (buf, n, s)) = Some y"
  have q: "quiet s (snd (get_first_direntry name buf n s))" for name using quiet_entry(1) [OF prod.collapse [symmetric]] .
  have st: "quiet s (snd (snd y))" if "rec b m p a (snd (get_first_direntry name buf n s)) = Some y" for b m p a name
    by (rule quiet_trans [OF q IH [OF that]])
  from y show "quiet s (snd (snd y))"
    by (auto simp: Let_def bind_eq_Some_conv split: if_splits intro: st)
qed

lemma quiet_entries_sub:
  fixes s :: "'a dirfs_scheme"
  assumes "entries_sub dir buf n prev start s = Some y"
  shows "quiet s (snd (snd (snd y)))"
proof (rule entries_sub.raw_induct [where P = "\<lambda>_ _ _ _ _ s y. quiet s (snd (snd (snd y)))", OF _ assms])
  fix rec dir buf n prev start y and s :: "'a dirfs_scheme"
  assume IH: "\<And>dir buf n prev start s y. rec dir buf n prev start s = Some y \<Longrightarrow> quiet s (snd (snd (snd y)))"
    and y: "(if start < BINARY_TARFS_END s
      then Option.bind (header_name (bytes s) start) (\<lambda>name.
        if startswith dir name = 0
        then (case get_sub_direntry dir name buf n s of (x, s1) \<Rightarrow>
          Option.bind (after s1 start) (\<lambda>nxt.
            if x = 0
            then Option.bind (array_string (d_name (dirents s1 buf))) (\<lambda>new.
              Option.bind (array_string prev) (\<lambda>old.
                if strcmp new old \<noteq> 0
                then rec dir (buf + SIZEOF_DIRENT) (n - 280) (strcpy new prev) nxt s1
                else rec dir buf n prev nxt s1))
            else rec dir buf n prev nxt s1))
        else Some (True, buf, n, s))
      else Some (False, buf, n, s)) = Some y"
  have q: "quiet s (snd (get_sub_direntry dir name buf n s))" for name using quiet_entry(2) [OF prod.collapse [symmetric]] .
  have st: "quiet s (snd (snd (snd y)))" if "rec d b m p a (snd (get_sub_direntry dir name buf n s)) = Some y" for d b m p a name
    by (rule quiet_trans [OF q IH [OF that]])
  from y show "quiet s (snd (snd (snd y)))"
    by (auto simp: Let_def bind_eq_Some_conv prod.case_eq_if split: if_splits intro: st)
qed

lemma quiet_end_list: "end_list y b n t = (v, t') \<Longrightarrow> quiet t t'"
  by (auto simp: end_list_def)

lemma quiet_getDirEntries:
  assumes "getDirEntries stk fd buf n s = Some (v, s')"
  shows "quiet s s'"
  using assms
  by (auto simp: getDirEntries_def Let_def bind_eq_Some_conv split: if_splits dest!: quiet_fd_address quiet_entries_root quiet_entries_sub quiet_end_list
      intro: quiet_trans [OF _ quiet_fs(6)] quiet_trans)

lemma quiet_environment:
  "changeDirectory stk p s = Some (w, s') \<Longrightarrow> quiet s s'"
  "setenv nm val s = Some s' \<Longrightarrow> quiet s s'"
  "env arg s = Some (w, s') \<Longrightarrow> quiet s s'"
  "printMe a b c s = Some (v, s') \<Longrightarrow> quiet s s'"
proof -
  show "changeDirectory stk p s = Some (w, s') \<Longrightarrow> quiet s s'"
    by (auto simp: changeDirectory_def bind_eq_Some_conv split: if_splits)
  have m: "quiet t t'" if "map_empty_page a t = Some t'" for a and t t' :: "'a fs_scheme"
  proof -
    obtain p t1 where k: "kmalloc t = (p, t1)" by fastforce
    then have "quiet t t1" using quiet_phys [OF phys_only_kmalloc [of t]] by simp
    then show ?thesis using that
      by (auto simp: map_empty_page_def k Let_def split: if_splits
          intro: quiet_trans [OF quiet_trans [OF _ quiet_phys [OF phys_only_map]] quiet_fs(3)])
  qed
  have set: "setenv nm val s = Some s' \<Longrightarrow> quiet s s'" for nm val
    by (auto simp: setenv_def bind_eq_Some_conv Let_def split: if_splits intro: quiet_trans [OF quiet_fs(3) m])
  then show "setenv nm val s = Some s' \<Longrightarrow> quiet s s'" .
  show "env arg s = Some (w, s') \<Longrightarrow> quiet s s'" by (auto simp: env_def split: option.splits if_splits intro: set)
  show "printMe a b c s = Some (v, s') \<Longrightarrow> quiet s s'"
    by (auto simp: printMe_def Let_def bind_eq_Some_conv intro: quiet_trans [OF quiet_ops(1) quiet_trans [OF quiet_ops(1) quiet_ops(1)]])
qed

lemma quiet_ps_line: "quiet s (ps_line fmt st k s)"
  by (simp add: ps_line_def)

lemma quiet_ps:
  assumes "ps s = Some s'"
  shows "quiet s s'"
proof -
  let ?f = "\<lambda>st t (s :: 'a kernel_scheme). Some (ps_line ''%d    %d:%d:%d    %d:%d:%d    %s      %s\<newline>'' st (tasks s t) s)"
  let ?s2 = "ps_line ''%d  %d:%d:%d   %d:%d:%d %s         %s\<newline>'' ''RUNNING'' (tasks s (runningThread s))
     (kprintf ''PID START_TIME END_TIME STATE      BINARY\<newline>'' [] s)"
  have l: "quiet t u \<Longrightarrow> ?f st p u = Some v \<Longrightarrow> quiet t v" for st p and t u v :: "'a kernel_scheme"
    using quiet_trans [OF _ quiet_ps_line] by auto
  have "quiet s ?s2" by (rule quiet_trans [OF quiet_ops(1) quiet_ps_line])
  moreover obtain s3 where s3: "for_ptrs tnext (runningThread s) (?f ''RUNNING'') (tnext ?s2 (runningThread s)) ?s2 = Some s3"
    "for_ptrs tnext NULL (?f ''EXITED'') (deleteQueue s3) s3 = Some s'"
    using assms unfolding ps_def Let_def by (cases rule: option.exhaust) (auto split: option.splits)
  ultimately have "quiet s s3" using for_ptrs_keeps [OF s3(1), of "quiet s"] l by blast
  then show ?thesis using for_ptrs_keeps [OF s3(2), of "quiet s"] l by blast
qed

text \<open>\<open>free\<close> takes one area out of a list: the lists of all tasks stay finite.\<close>

lemma path_distinct: "path nx p xs q \<Longrightarrow> q \<notin> set xs \<Longrightarrow> distinct xs"
proof (induction xs arbitrary: p)
  case (Cons x xs)
  have "x \<notin> set xs"
  proof
    assume "x \<in> set xs"
    then obtain as bs where xs: "xs = as @ x # bs" by (auto simp: in_set_conv_decomp)
    with Cons.prems(1) have p: "path nx (nx x) (as @ x # bs) q" "path nx (nx x) bs q" by auto
    have "as @ x # bs = bs" by (rule path_unique [OF p]) (use Cons.prems(2) xs in auto)
    then have "length (as @ x # bs) = length bs" by (rule arg_cong)
    then show False by simp
  qed
  with Cons show ?case by auto
qed simp

lemma path_skip:
  assumes p: "path nx p xs q" and q: "q \<notin> set xs" "nx v \<noteq> q"
  shows "\<exists>ys. path (nx(v := nx (nx v))) p ys q \<and> set ys \<subseteq> set xs"
proof (cases "v \<in> set xs")
  case True
  then obtain as bs where xs: "xs = as @ v # bs" by (auto simp: in_set_conv_decomp)
  have d: "distinct xs" by (rule path_distinct [OF p q(1)])
  from p xs obtain x cs where bs: "bs = x # cs" using q(2) by (cases bs) auto
  from p xs bs have b: "path nx p as v" "nx v = x" "path nx (nx x) cs q" by auto
  have "path (nx(v := nx (nx v))) p as v" "path (nx(v := nx (nx v))) (nx x) cs q"
    by (rule path_fun_upd [OF _ b(1)], use d xs in auto) (rule path_fun_upd [OF _ b(3)], use d xs bs in auto)
  then have "path (nx(v := nx (nx v))) p (as @ v # cs) q" by (simp add: b(2))
  then show ?thesis using xs bs by (intro exI [of _ "as @ v # cs"]) auto
next
  case False
  then have "path (nx(v := nx (nx v))) p xs q" by (intro path_fun_upd [OF _ p]) auto
  then show ?thesis by blast
qed

lemma free_keeps:
  assumes k: "kernel_ok T pid s" and f: "free ptr s = Some s'"
  shows "kernel_ok T pid s' \<and> runningThread s' = runningThread s"
proof (cases "s' = s")
  case False
  obtain v where v: "vnext s v \<noteq> NULL" and s': "s' = pageDeAllocator ((vnext s (vnext s v) - sizeof_VMA * kernbase s) AND FRAME)
      (upd_vma v (\<lambda>a. a\<lparr>vma_next := vnext s (vnext s v), isNextFreed := 1\<rparr>) s)"
    using f False by (auto simp: free_def Let_def pageDeAllocator_checked_def upd_vma_def split: option.splits if_splits)
  note P = phys_onlyD [OF phys_only_dealloc [of "upd_vma v (\<lambda>a. a\<lparr>vma_next := vnext s (vnext s v), isNextFreed := 1\<rparr>) s"
      "(vnext s (vnext s v) - sizeof_VMA * kernbase s) AND FRAME"], folded s']
  have t: "tasks s' = tasks s" "runningThread s' = runningThread s" "deleteQueue s' = deleteQueue s"
    by (simp_all add: P upd_vma_def)
  have n: "vnext s' = (vnext s)(v := vnext s (vnext s v))" and e: "v_end (vmas s' x) = v_end (vmas s x)" for x
    by (simp_all add: fun_eq_iff P upd_vma_def)
  have "areas_ok s' x" if "areas_ok s x" for x
  proof -
    from that obtain vs where vs: "path (vnext s) (task_mmap s x) vs NULL" "NULL \<notin> set vs"
      "\<forall>v \<in> set vs. unat (v_end (vmas s v)) + 4096 \<le> 2 ^ 64" unfolding areas_ok_def by blast
    from path_skip [OF vs(1,2) v] obtain ys where "path (vnext s') (task_mmap s x) ys NULL" "set ys \<subseteq> set vs" unfolding n by blast
    with vs(2,3) show ?thesis unfolding areas_ok_def by (intro exI [of _ ys]) (auto simp: e t)
  qed
  with k show ?thesis unfolding kernel_ok_def queues_def t by blast
qed (use k in simp)

text \<open>The calls that change neither the run queues nor the areas of a task.\<close>

abbreviation quiet_calls :: "u64 set" where
  "quiet_calls \<equiv> - {1, 11, 78, 89, 99, 100, 199}"

lemma syscall_quiet:
  assumes "syscallHandler stk stk2 a b c num s = Some (r, s')" and "num \<in> quiet_calls"
  shows "quiet s s' \<and> (\<exists>v. r = Returned v)"
proof -
  have m: "quiet (s\<lparr>mutex := 1\<rparr>) t \<Longrightarrow> quiet s t" for t by (rule quiet_trans [OF quiet_fs(1)])
  show ?thesis
    using assms unfolding syscallHandler_def Let_def
    by (auto simp: bind_eq_Some_conv prod.case_eq_if clearScreen_def quiet_fold_kprintf intro!: m split: if_splits
        dest: quiet_files quiet_getDirEntries quiet_environment quiet_ps intro: quiet_sleep)
qed

section \<open>The descriptor table\<close>

lemma fd_ok_mutex [simp]: "fd_ok (s\<lparr>mutex := x\<rparr>) n = fd_ok s n" "free_frames (s\<lparr>mutex := x\<rparr>) = free_frames s"
  by (simp_all add: fd_ok_def vm_ok_def phys_inv_def free_frames_def)

lemma fd_ok_kbd: "fd_ok (upd_kbd g s) n = fd_ok s n"
  by (simp add: fd_ok_def vm_ok_def phys_inv_def free_frames_def upd_kbd_def)

lemma fd_ok_stdin: "fd_ok (snd (read_stdin m s)) n = fd_ok s n"
proof -
  have c: "fd_ok (snd (readChar s)) n = fd_ok s n" for s :: "'a fs_scheme" by (simp add: readChar_def Let_def fd_ok_kbd)
  have "fd_ok (snd (read_line readChar m s)) n = fd_ok s n"
  proof (induction m arbitrary: s)
    case (Suc m)
    obtain x t where t: "readChar s = (x, t)" by fastforce
    with c [of s] Suc [of t] show ?case by (auto split: prod.split)
  qed simp
  then show ?thesis by (simp add: read_stdin_def)
qed

lemma fd_ok_address: "get_fd_address fd s = Some (a, s') \<Longrightarrow> fd_ok s n \<Longrightarrow> fd_ok s' n"
  by (auto simp: get_fd_address_def Let_def fd_ok_kprintf split: if_splits)

lemma fd_ok_find_free:
  assumes "fd_ok s n" and "free_frames s \<noteq> {}" and "find_free [0..<20] s = (r, s1)"
  shows "\<exists>n'. fd_ok s1 n' \<and> (\<forall>i a. r = Some (i, a) \<longrightarrow> 3 \<le> i \<and> i < 100)"
proof -
  from find_free_spec [OF assms(1,2)] assms(3) obtain n' where F: "fd_ok s1 n'"
    "case r of None \<Rightarrow> \<forall>i. \<not> least_free s i | Some (i, a) \<Rightarrow> least_free s i \<and> i < 5 * n' \<and> a = fd_addr s1 i" by auto
  have "3 \<le> i \<and> i < 100" if "r = Some (i, a)" for i a
    using F(2) fd_okD(1) [OF F(1)] that by (simp add: least_free_def)
  with F(1) show ?thesis by blast
qed

lemma file_call_cases:
  assumes ok: "fd_ok s n" and ne: "free_frames s \<noteq> {}"
  shows "readFile fd buf m s = Some (v, s') \<Longrightarrow> \<exists>n'. fd_ok s' n'"
    "writeFile fd buf m s = Some (v, s') \<Longrightarrow> \<exists>n'. fd_ok s' n'"
    "closeFile fd s = Some (v, s') \<Longrightarrow> \<exists>n'. fd_ok s' n'"
    "openFile stk p s = Some (w, s') \<Longrightarrow> (\<exists>n'. fd_ok s' n') \<and> (w = - 1 \<or> (\<exists>i. w = of_nat i \<and> 3 \<le> i \<and> i < 100))"
    "openDirectory stk p s = Some (v, s') \<Longrightarrow> \<exists>n'. fd_ok s' n'"
    "closeDir d s = Some (w, s') \<Longrightarrow> \<exists>n'. fd_ok s' n'"
proof -
  obtain str s1 where r: "read_stdin (nat (sint m)) (s\<lparr>bytes := (bytes s)(buf := CHR ''0'')\<rparr>) = (str, s1)" by fastforce
  then have "fd_ok s1 n" using fd_ok_stdin [of "nat (sint m)" "s\<lparr>bytes := (bytes s)(buf := CHR ''0'')\<rparr>" n] ok by simp
  then show "readFile fd buf m s = Some (v, s') \<Longrightarrow> \<exists>n'. fd_ok s' n'"
    by (auto simp: readFile_def r bind_eq_Some_conv split: if_splits prod.splits dest: fd_ok_address [OF _ ok] intro!: exI [of _ n] ok)
  show "writeFile fd buf m s = Some (v, s') \<Longrightarrow> \<exists>n'. fd_ok s' n'" using ok by (auto simp: writeFile_def split: if_splits)
  show "closeFile fd s = Some (v, s') \<Longrightarrow> \<exists>n'. fd_ok s' n'"
    using ok by (auto simp: closeFile_def bind_eq_Some_conv split: if_splits dest: fd_ok_address [OF _ ok] intro!: exI [of _ n] ok)
  show "closeDir d s = Some (w, s') \<Longrightarrow> \<exists>n'. fd_ok s' n'"
    using ok by (auto simp: closeDir_def bind_eq_Some_conv Let_def split: if_splits dest: fd_ok_address [OF _ ok] intro!: exI [of _ n] ok)
  obtain o' sf where F: "find_free [0..<20] s = (o', sf)" by fastforce
  from fd_ok_find_free [OF ok ne F] obtain n' where f: "fd_ok sf n'" "\<And>i a. o' = Some (i, a) \<Longrightarrow> 3 \<le> i \<and> i < 100" by metis
  show "openFile stk p s = Some (w, s') \<Longrightarrow> (\<exists>n'. fd_ok s' n') \<and> (w = - 1 \<or> (\<exists>i. w = of_nat i \<and> 3 \<le> i \<and> i < 100))"
    using ok f by (auto simp: openFile_def F bind_eq_Some_conv simp del: upt_rec_numeral split: if_splits option.splits)
  show "openDirectory stk p s = Some (v, s') \<Longrightarrow> \<exists>n'. fd_ok s' n'"
    using ok f(1) by (auto simp: openDirectory_def F bind_eq_Some_conv simp del: upt_rec_numeral split: if_splits option.splits)
qed

lemma fd_ok_dirents [simp]: "fd_ok (upd_dirent b f s) n = fd_ok s n"
  by (simp add: upd_dirent_def fd_ok_def vm_ok_def phys_inv_def free_frames_def)

lemma fd_ok_take_entry [simp]: "fd_ok (take_entry fd buf p s) n = fd_ok s n"
  by (simp add: take_entry_def)

lemma fd_ok_entry [simp]: "fd_ok (snd (get_first_direntry nm b m t)) n = fd_ok t n" "fd_ok (snd (get_sub_direntry d nm b m t)) n = fd_ok t n"
  "fd_ok (snd (end_list y b m t)) n = fd_ok t n"
  by (simp_all add: get_first_direntry_def get_sub_direntry_def end_list_def)

lemma fd_ok_entries_root:
  fixes s :: "'a dirfs_scheme"
  assumes "entries_root buf m prev start s = Some y"
  shows "fd_ok (snd (snd y)) n = fd_ok s n"
proof (rule entries_root.raw_induct [where P = "\<lambda>_ _ _ _ s y. fd_ok (snd (snd y)) n = fd_ok s n", OF _ assms])
  fix rec buf m prev start y and s :: "'a dirfs_scheme"
  assume IH: "\<And>buf m prev start s y. rec buf m prev start s = Some y \<Longrightarrow> fd_ok (snd (snd y)) n = fd_ok s n"
    and y: "(if start < BINARY_TARFS_END s
      then Option.bind (header_name (bytes s) start) (\<lambda>name.
        let s1 = snd (get_first_direntry name buf m s) in
        Option.bind (array_string (d_name (dirents s1 buf))) (\<lambda>new.
        Option.bind (array_string prev) (\<lambda>old.
        Option.bind (after s1 start) (\<lambda>nxt.
          if strcmp new old \<noteq> 0
          then rec (buf + SIZEOF_DIRENT) (m - 280) (strcpy new (if new = [] then prev(0 := CHR 0x00) else prev)) nxt s1
          else rec buf m prev nxt s1))))
      else Some (buf, m, s)) = Some y"
  from y show "fd_ok (snd (snd y)) n = fd_ok s n" by (auto simp: Let_def bind_eq_Some_conv split: if_splits dest: IH)
qed

lemma fd_ok_entries_sub:
  fixes s :: "'a dirfs_scheme"
  assumes "entries_sub dir buf m prev start s = Some y"
  shows "fd_ok (snd (snd (snd y))) n = fd_ok s n"
proof (rule entries_sub.raw_induct [where P = "\<lambda>_ _ _ _ _ s y. fd_ok (snd (snd (snd y))) n = fd_ok s n", OF _ assms])
  fix rec dir buf m prev start y and s :: "'a dirfs_scheme"
  assume IH: "\<And>dir buf m prev start s y. rec dir buf m prev start s = Some y \<Longrightarrow> fd_ok (snd (snd (snd y))) n = fd_ok s n"
    and y: "(if start < BINARY_TARFS_END s
      then Option.bind (header_name (bytes s) start) (\<lambda>name.
        if startswith dir name = 0
        then (case get_sub_direntry dir name buf m s of (x, s1) \<Rightarrow>
          Option.bind (after s1 start) (\<lambda>nxt.
            if x = 0
            then Option.bind (array_string (d_name (dirents s1 buf))) (\<lambda>new.
              Option.bind (array_string prev) (\<lambda>old.
                if strcmp new old \<noteq> 0
                then rec dir (buf + SIZEOF_DIRENT) (m - 280) (strcpy new prev) nxt s1
                else rec dir buf m prev nxt s1))
            else rec dir buf m prev nxt s1))
        else Some (True, buf, m, s))
      else Some (False, buf, m, s)) = Some y"
  from y show "fd_ok (snd (snd (snd y))) n = fd_ok s n"
    by (auto simp: Let_def bind_eq_Some_conv prod.case_eq_if split: if_splits dest: IH)
qed

lemma fd_ok_lists:
  fixes s :: "'a dirfs_scheme"
  shows "list_root fd buf start s = Some y \<Longrightarrow> fd_ok (snd y) n = fd_ok s n"
    and "list_sub fd buf dir start s = Some z \<Longrightarrow> fd_ok (snd z) n = fd_ok s n"
proof -
  assume a: "list_root fd buf start s = Some y"
  show "fd_ok (snd y) n = fd_ok s n"
  proof (rule list_root.raw_induct [where P = "\<lambda>_ _ _ s y. fd_ok (snd y) n = fd_ok s n", OF _ a])
    fix rec fd buf start y and s :: "'a dirfs_scheme"
    assume IH: "\<And>fd buf start s y. rec fd buf start s = Some y \<Longrightarrow> fd_ok (snd y) n = fd_ok s n"
      and y: "(if start < BINARY_TARFS_END s
      then Option.bind (header_name (bytes s) start) (\<lambda>name.
        let s1 = upd_dirent buf (\<lambda>d. d\<lparr>d_name := get_first_directory name (d_name d) 4096\<rparr>) s in
        Option.bind (array_string (d_name (dirents s1 buf))) (\<lambda>new.
        Option.bind (array_string (d_prev_dir (fds s1 fd))) (\<lambda>prev.
        Option.bind (after s1 start) (\<lambda>nxt.
          if strcmp new prev \<noteq> 0
          then Some (buf, take_entry fd buf nxt (upd_fd fd (\<lambda>d. d\<lparr>d_prev_dir := strcpy new (d_prev_dir d)\<rparr>) s1))
          else rec fd buf nxt s1))))
      else Some (NULL, upd_dirent buf clear_first s)) = Some y"
    from y show "fd_ok (snd y) n = fd_ok s n" by (auto simp: Let_def bind_eq_Some_conv split: if_splits dest: IH)
  qed
next
  assume a: "list_sub fd buf dir start s = Some z"
  show "fd_ok (snd z) n = fd_ok s n"
  proof (rule list_sub.raw_induct [where P = "\<lambda>_ _ _ _ s y. fd_ok (snd y) n = fd_ok s n", OF _ a])
    fix rec fd buf dir start y and s :: "'a dirfs_scheme"
    assume IH: "\<And>fd buf dir start s y. rec fd buf dir start s = Some y \<Longrightarrow> fd_ok (snd y) n = fd_ok s n"
      and y: "(if start < BINARY_TARFS_END s
      then Option.bind (header_name (bytes s) start) (\<lambda>name.
        if startswith dir name = 0
        then (let s1 = upd_dirent buf (\<lambda>d. d\<lparr>d_name := snd (get_sub_directory dir name (d_name d) 4096)\<rparr>) s in
          Option.bind (array_string (d_name (dirents s1 buf))) (\<lambda>new.
          Option.bind (array_string (d_prev_dir (fds s1 fd))) (\<lambda>prev.
            if strcmp new prev \<noteq> 0
            then Some (buf, take_entry fd buf start (upd_fd fd (\<lambda>d. d\<lparr>d_prev_dir := strcpy new (d_prev_dir d)\<rparr>) s1))
            else Option.bind (after s1 start) (\<lambda>nxt. rec fd buf dir nxt s1))))
        else Some (NULL, upd_dirent buf clear_first s))
      else Some (NULL, kprintf ''Incorrect FD.\<newline>'' [] s)) = Some y"
    from y show "fd_ok (snd y) n = fd_ok s n" by (auto simp: Let_def bind_eq_Some_conv split: if_splits dest: IH)
  qed
qed

text \<open>\<open>malloc\<close> takes one frame.\<close>

definition same_frames :: "'a kernel_scheme \<Rightarrow> 'a kernel_scheme \<Rightarrow> bool" where
  "same_frames s s' \<longleftrightarrow> vm_ok s' = vm_ok s \<and> free_frames s' = free_frames s"

lemma same_frames_upd:
  "same_frames s (upd_vma v f s)" "same_frames s (upd_mmap t p s)" "same_frames s (snd (getNextPageNum s))" "same_frames s s"
  by (simp_all add: same_frames_def upd_vma_def upd_mmap_def upd_task_def getNextPageNum_def Let_def vm_ok_def phys_inv_def free_frames_def)

lemma same_frames_trans: "same_frames s s' \<Longrightarrow> same_frames s' s'' \<Longrightarrow> same_frames s s''"
  by (simp add: same_frames_def)

lemma same_frames_scan: "malloc_scan sz temp en s = Some (l, e, f, s') \<Longrightarrow> same_frames s s'"
proof -
  have "(case r of (l, e, f, s') \<Rightarrow> same_frames s s')" if "malloc_scan sz temp en s = Some r" for sz temp en s r
    by (rule malloc_scan.raw_induct [where P = "\<lambda>sz temp en s r. case r of (l, e, f, s') \<Rightarrow> same_frames s s'", OF _ that])
      (auto simp: Let_def same_frames_upd split: if_splits)
  then show "malloc_scan sz temp en s = Some (l, e, f, s') \<Longrightarrow> same_frames s s'" by fastforce
qed

lemma malloc_frames:
  assumes m: "malloc sz s = Some (a, s')" and k: "kmalloc_vma s = (v, s1)"
  shows "same_frames s1 s'"
proof (cases "run_mmap s = NULL")
  case True
  obtain pn s2 where g: "getNextPageNum s1 = (pn, s2)" by fastforce
  have "same_frames s1 s2" using same_frames_upd(3) [of s1] g by simp
  with m show ?thesis
    by (auto simp: malloc_def k True g Let_def intro: same_frames_trans [OF same_frames_trans [OF _ same_frames_upd(1)] same_frames_upd(2)])
next
  case False
  with m obtain l e f s2 where sc: "malloc_scan sz (run_mmap s) 0 s1 = Some (l, e, f, s2)"
    by (auto simp: malloc_def k Let_def split: option.splits)
  obtain pn s3 where g: "getNextPageNum s2 = (pn, s3)" by fastforce
  have "same_frames s2 s3" using same_frames_upd(3) [of s2] g by simp
  then have "same_frames s1 s3" using same_frames_scan [OF sc] by (blast intro: same_frames_trans)
  with m False show ?thesis
    by (auto simp: malloc_def k sc g Let_def intro: same_frames_trans [OF same_frames_trans [OF _ same_frames_upd(1)] same_frames_upd(1)])
qed

lemma fd_ok_malloc:
  fixes s :: "'a fs_scheme"
  assumes ok: "fd_ok s n" and ne: "free_frames s \<noteq> {}" and m: "malloc sz s = Some (a, s')"
  shows "fd_ok s' n"
proof -
  have vm: "vm_ok s" using ok by (simp add: fd_ok_def)
  obtain p s1 where k: "kmalloc s = (p, s1)" by fastforce
  from kmalloc_tree [OF vm ne k] obtain g where g: "vm_ok s1" "free_frames s1 = free_frames s - {g}" by metis
  obtain v s2 where k2: "kmalloc_vma s = (v, s2)" by fastforce
  then have "same_frames s1 s2" by (auto simp: kmalloc_vma_def k same_frames_upd)
  with g malloc_frames [OF m k2] have f: "vm_ok s'" "free_frames s' \<subseteq> free_frames s" by (auto simp: same_frames_def)
  note A = areas_only_malloc [OF m, unfolded areas_only_def]
  show ?thesis using ok f A unfolding fd_ok_def by (auto; meson subsetD)
qed

lemma fd_ok_readDir:
  assumes ok: "fd_ok s n" and ne: "free_frames s \<noteq> {}" and r: "readDir d s = Some (v, s')"
  shows "fd_ok s' n"
proof -
  have m: "fd_ok t n" if "malloc sz s = Some (a, t)" for sz a and t :: "'a dirfs_scheme" by (rule fd_ok_malloc [OF ok ne that])
  have m': "fd_ok t n" if "malloc sz (kprintf f x s) = Some (a, t)" for sz a f x and t :: "'a dirfs_scheme"
  proof (rule fd_ok_malloc [OF _ _ that])
    show "free_frames (kprintf f x s) \<noteq> {}" using ne by (simp add: free_frames_def kprintf_def)
  qed (use ok in simp)
  from r ok show ?thesis
    by (auto simp: readDir_def Let_def bind_eq_Some_conv get_fd_address_def split: if_splits dest!: fd_ok_lists [where n = n] m m')
qed

lemma fd_ok_getDirEntries:
  assumes "fd_ok s n" and "getDirEntries stk fd buf m s = Some (v, s')"
  shows "fd_ok s' n"
proof -
  have e: "end_list y b c t = (v, s') \<Longrightarrow> fd_ok s' n = fd_ok t n" for y b c v s' and t :: "'a dirfs_scheme"
    using fd_ok_entry(3) [of y b c t n] by simp
  show ?thesis using assms
    by (auto simp: getDirEntries_def Let_def bind_eq_Some_conv split: if_splits dest!: fd_ok_address [OF _ assms(1)] e
        fd_ok_entries_root [where n = n] fd_ok_entries_sub [where n = n])
qed

section \<open>Properties\<close>

lemma syscall_keeps:
  fixes s :: "'a dirfs_scheme"
  assumes k: "kernel_ok T pid s" and h: "syscallHandler stk stk2 a b c num s = Some (r, s')" and n: "num \<notin> {1, 78, 99, 11}"
  shows "kernel_ok T pid s' \<and> (num \<noteq> 100 \<and> num \<noteq> 199 \<longrightarrow> (\<exists>v. r = Returned v) \<and> runningThread s' = runningThread s)"
proof (cases "num \<in> quiet_calls")
  case True
  from syscall_quiet [OF h this] quiet_ok [OF _ k] show ?thesis by (auto simp: quiet_def)
next
  case False
  have "kernel_ok T pid (s\<lparr>mutex := 1\<rparr>)" by (rule quiet_ok [OF quiet_fs(1) k])
  from exit_keeps [OF this] kill_keeps [OF this] free_keeps [OF this] False h n show ?thesis
    by (auto simp: syscallHandler_def Let_def)
qed

lemma ps_total:
  assumes "queues s ts ds"
  shows "ps s \<noteq> None"
proof -
  let ?r = "runningThread s"
  let ?f = "\<lambda>st t (s :: 'a kernel_scheme). ps_line ''%d    %d:%d:%d    %d:%d:%d    %s      %s\<newline>'' st (tasks s t) s"
  have l: "tasks (ps_line f st k u) = tasks u" for f st k and u :: "'a kernel_scheme" by (simp add: ps_line_def frame_simps)
  have nx: "tnext (?f st x u) = tnext u" for st x and u :: "'a kernel_scheme" by (simp add: l)
  define s2 where "s2 = ps_line ''%d  %d:%d:%d   %d:%d:%d %s         %s\<newline>'' ''RUNNING'' (tasks s ?r)
     (kprintf ''PID START_TIME END_TIME STATE      BINARY\<newline>'' [] s)"
  have t2: "tasks s2 = tasks s" by (simp add: s2_def l frame_simps)
  have q: "path (tnext s2) (tnext s2 ?r) ts ?r" "?r \<notin> set ts" "path (tnext s) (deleteQueue s) ds NULL" "NULL \<notin> set ds"
    using assms by (auto simp: queues_def ring_def t2)
  define s3 where "s3 = fold (?f ''RUNNING'') ts s2"
  have 3: "for_ptrs tnext ?r (\<lambda>t s. Some (?f ''RUNNING'' t s)) (tnext s2 ?r) s2 = Some s3"
    unfolding s3_def by (rule for_ptrs_fold [where nx = tnext, OF q(1,2)]) (rule refl, rule nx)
  have "quiet s2 s3" by (rule for_ptrs_keeps [OF 3, of "quiet s2"]) (auto intro: quiet_trans [OF _ quiet_ps_line])
  moreover have "deleteQueue s2 = deleteQueue s" by (simp add: s2_def ps_line_def frame_simps)
  ultimately have "tnext s3 = tnext s" "deleteQueue s3 = deleteQueue s" by (auto simp: quiet_def fun_eq_iff t2)
  then have "path (tnext s3) (deleteQueue s3) ds NULL" using q(3) by simp
  then have "for_ptrs tnext NULL (\<lambda>t s. Some (?f ''EXITED'' t s)) (deleteQueue s3) s3 = Some (fold (?f ''EXITED'') ds s3)"
    by (rule for_ptrs_fold [where nx = tnext, OF _ q(4)]) (rule refl, rule nx)
  with 3 show ?thesis by (simp add: ps_def Let_def s2_def [symmetric])
qed

text \<open>C8: The system calls keep the run queues: apart from those that create or replace a task or give it a new area (\<open>fork\<close>, \<open>exec\<close>, \<open>malloc\<close>,
  \<open>readdir\<close>), every call number, known or not, with any parameters: when the call comes back, both queues are well formed with the same tasks
  and pids and the shell is alive, and a call other than \<open>exit\<close> and \<open>kill\<close> returns to the task that made it. The calls on tasks and time
  (\<open>exit\<close>, \<open>kill\<close>, \<open>waitpid\<close>, \<open>ps\<close>, sleeping, signals, the pids), clearing the screen and unknown numbers always come back; those on files,
  directories, the environment, \<open>free\<close> and the test call 420 may have no value (a bad descriptor or string, an array overrun, see the theories of these calls).\<close>

theorem syscall_keeps_queues:
  fixes s :: "'a dirfs_scheme"
  assumes "kernel_ok T pid s"
  shows "(\<forall>r s'. syscallHandler stk stk2 a b c num s = Some (r, s') \<and> num \<notin> {1, 11, 78, 99} \<longrightarrow>
      kernel_ok T pid s' \<and> (num \<noteq> 100 \<and> num \<noteq> 199 \<longrightarrow> (\<exists>v. r = Returned v) \<and> runningThread s' = runningThread s)) \<and>
    (num \<notin> {0, 1, 2, 3, 4, 9, 10, 11, 12, 53, 54, 55, 78, 79, 80, 89, 99, 420} \<longrightarrow> syscallHandler stk stk2 a b c num s \<noteq> None)"
proof (intro conjI impI)
  let ?s = "s\<lparr>mutex := 1\<rparr>"
  assume n: "num \<notin> {0, 1, 2, 3, 4, 9, 10, 11, 12, 53, 54, 55, 78, 79, 80, 89, 99, 420}"
  have k: "kernel_ok T pid ?s" by (rule quiet_ok [OF quiet_fs(1) assms])
  then obtain ts ds where q: "queues ?s ts ds" unfolding kernel_ok_def by blast
  have w: "waitpid a ?s \<noteq> None"
  proof -
    have "path (tnext ?s) (tnext ?s (runningThread ?s)) ts (runningThread ?s)" "runningThread ?s \<notin> set ts"
      using q unfolding queues_def ring_def by auto
    from chase_ring_find [OF this, of "\<lambda>t. waitpid_match a (ppid_t (tasks ?s (runningThread ?s))) (tasks ?s t)"] show ?thesis
      by (auto simp: waitpid_def Let_def split: option.splits)
  qed
  show "syscallHandler stk stk2 a b c num s \<noteq> None"
    using n exit_total [OF k, of a] kill_total [OF k, of a] ps_total [OF q] w
    by (auto simp: syscallHandler_def Let_def split: prod.splits)
qed (use syscall_keeps [OF assms] in blast)

text \<open>C34: Typing of the descriptor table: every call on files and directories that comes back takes a well-typed table (its first pages allocated, in
  different used frames, counted by \<open>fd_count\<close>) to a well-typed table and returns to its caller, and what \<open>open\<close> returns is a descriptor number
  from 3 to 99 or -1. (A number outside 0 to 99 is not checked by most of the calls and has no value; \<open>close\<close> with a number
  below 100, negative or not, always comes back. One frame has to be free.)\<close>

theorem file_calls_keep_table:
  fixes s :: "'a dirfs_scheme"
  assumes "fd_ok s n" and "free_frames s \<noteq> {}" and "num \<in> {0, 2, 3, 4, 9, 10, 11, 12, 79, 80}"
  shows "(\<forall>r s'. syscallHandler stk stk2 a b c num s = Some (r, s') \<longrightarrow>
      (\<exists>v n'. r = Returned v \<and> fd_ok s' n' \<and> (num = 2 \<longrightarrow> v = - 1 \<or> 3 \<le> v \<and> v < 100))) \<and>
    (num = 3 \<and> sint (ucast a :: i32) < 100 \<longrightarrow> syscallHandler stk stk2 a b c num s \<noteq> None)"
proof (intro conjI allI impI)
  fix r s'
  assume h: "syscallHandler stk stk2 a b c num s = Some (r, s')"
  let ?s = "s\<lparr>mutex := 1\<rparr>"
  have ok: "fd_ok ?s n" "free_frames ?s \<noteq> {}" using assms(1,2) by simp_all
  note C = file_call_cases [OF ok] fd_ok_readDir [OF ok] fd_ok_getDirEntries [OF ok(1)]
  have v: "(ucast (of_nat i :: i64) :: u64) = - 1 \<or> 3 \<le> (ucast (of_nat i :: i64) :: u64) \<and> (ucast (of_nat i :: i64) :: u64) < 100"
    if "3 \<le> i" "i < 100" for i :: nat
  proof -
    have "(ucast (of_nat i :: i64) :: u64) = of_nat i" by simp
    moreover have "unat (of_nat i :: u64) = i" using that by (simp add: unat_of_nat take_bit_nat_eq_self)
    ultimately show ?thesis using that by (simp add: word_le_nat_alt word_less_nat_alt)
  qed
  have cd: "fd_ok t n" if "changeDirectory stk p ?s = Some (w, t)" for p w t
    using that ok(1) by (auto simp: changeDirectory_def bind_eq_Some_conv split: if_splits)
  have sa: "\<exists>n'. fd_ok (store_array a g ?s) n'" for g using ok(1) by (intro exI [of _ n]) (simp add: store_array_def)
  from assms(3) h show "\<exists>v n'. r = Returned v \<and> fd_ok s' n' \<and> (num = 2 \<longrightarrow> v = - 1 \<or> 3 \<le> v \<and> v < 100)"
    by (auto simp: syscallHandler_def Let_def bind_eq_Some_conv dest!: C v cd intro: sa) (blast+)
next
  assume "num = 3 \<and> sint (ucast a :: i32) < 100"
  then show "syscallHandler stk stk2 a b c num s \<noteq> None"
    by (auto simp: syscallHandler_def Let_def closeFile_def get_fd_address_def)
qed

lemma tiny_dirs_kernel: "kernel_ok {0x10, 0x20, 0x30, 0x40} (\<lambda>x. pid_t (tasks small_kernel x)) tiny_dirs"
proof -
  have t: "tasks tiny_dirs = (tasks small_kernel)(0x10 := (tasks small_kernel 0x10)\<lparr>fd_pointers := (\<lambda>_. 0)(0 := page_of 300 + KERNBASE), fd_count := 5\<rparr>)"
    "runningThread tiny_dirs = 0x10" "deleteQueue tiny_dirs = 0x40"
    using small_kernel_sel(2,3)
    by (simp_all add: tiny_dirs_def fs.extend_def dirfs.fields_def tiny_fs_defs upd_task_def)
  then have n: "tnext tiny_dirs x = tnext small_kernel x" "pid_t (tasks tiny_dirs x) = pid_t (tasks small_kernel x)"
    "task_mmap tiny_dirs x = NULL" for x
    by (simp_all add: small_kernel_sel(1) small_task_def zero_task_def)
  have "queues tiny_dirs [0x20, 0x30] [0x40] = queues small_kernel [0x20, 0x30] [0x40]"
    using n(1) t(2,3) by (simp add: queues_def small_kernel_sel(2,3) fun_eq_iff)
  then have "queues tiny_dirs [0x20, 0x30] [0x40]" using small_queues by simp
  moreover have "areas_ok tiny_dirs x" for x unfolding areas_ok_def by (intro exI [of _ "[]"]) (simp add: n(3))
  moreover have "pid_t (tasks small_kernel 0x30) = 1" by (simp add: small_kernel_sel small_task_def)
  ultimately show ?thesis
    unfolding kernel_ok_def by (intro conjI exI [of _ "[0x20, 0x30]"] exI [of _ "[0x40]"]) (auto simp: t(2) n(2))
qed

theorem syscall_keeps_queues_witness:
  "\<exists>r s'. syscallHandler (\<lambda>_. CHR 0x00) (\<lambda>_. CHR 0x00) 3 0 0 199 tiny_dirs = Some (r, s') \<and>
     kernel_ok {0x10, 0x20, 0x30, 0x40} (\<lambda>x. pid_t (tasks small_kernel x)) s'"
proof -
  have "kernel_ok {0x10, 0x20, 0x30, 0x40} (\<lambda>x. pid_t (tasks small_kernel x)) (tiny_dirs\<lparr>mutex := 1\<rparr>)"
    by (rule quiet_ok [OF quiet_fs(1) tiny_dirs_kernel])
  from kill_total [OF this, of 3] obtain v s' where "kill 3 (tiny_dirs\<lparr>mutex := 1\<rparr>) = Some (v, s')" by auto
  then have "syscallHandler (\<lambda>_. CHR 0x00) (\<lambda>_. CHR 0x00) 3 0 0 199 tiny_dirs = Some (Returned v, s')"
    by (simp add: syscallHandler_def)
  with syscall_keeps_queues [OF tiny_dirs_kernel, of "\<lambda>_. CHR 0x00" "\<lambda>_. CHR 0x00" 3 0 0 199] show ?thesis by auto
qed

theorem file_calls_keep_table_witness:
  "\<exists>r s' n'. syscallHandler (\<lambda>_. CHR 0x00) (\<lambda>_. CHR 0x00) 3 0 0 3 tiny_dirs = Some (r, s') \<and> fd_ok s' n'"
proof -
  have ok: "fd_ok tiny_dirs 1" "free_frames tiny_dirs \<noteq> {}" using tiny_fs_ok by (simp_all add: tiny_dirs_sel)
  then have "fd_ok (tiny_dirs\<lparr>mutex := 1\<rparr>) 1" by simp
  from closeFile_refines [OF this, of 3] obtain v s' where "closeFile 3 (tiny_dirs\<lparr>mutex := 1\<rparr>) = Some (v, s')" by auto
  then have "syscallHandler (\<lambda>_. CHR 0x00) (\<lambda>_. CHR 0x00) 3 0 0 3 tiny_dirs = Some (Returned v, s')"
    by (simp add: syscallHandler_def)
  with file_calls_keep_table [OF ok, of 3 "\<lambda>_. CHR 0x00" "\<lambda>_. CHR 0x00" 3 0 0] show ?thesis by auto
qed

end
