(* ===== verification/System.thy ===== *)
theory System
  imports Syscall
begin

text \<open>
  The kernel as a whole: a step is an interrupt, an exception or a page fault (\<open>Steps\<close>), or a system call through \<open>_syscallEntry\<close>
  (\<open>Syscall\<close>), in any order and with any inputs. Left out are the four calls that need free frames to keep the lists apart: \<open>fork\<close>, \<open>exec\<close>,
  \<open>malloc\<close> and \<open>readdir\<close>, each of which has properties of its own. The invariant is the one of \<open>Steps\<close>.
\<close>

section \<open>Steps\<close>

abbreviation SYS_FORK :: u64 where "SYS_FORK \<equiv> 1"
abbreviation SYS_READDIR :: u64 where "SYS_READDIR \<equiv> 11"
abbreviation SYS_EXEC :: u64 where "SYS_EXEC \<equiv> 78"
abbreviation SYS_MALLOC :: u64 where "SYS_MALLOC \<equiv> 99"

inductive system_step :: "'a dirfs_scheme \<Rightarrow> 'a dirfs_scheme \<Rightarrow> bool" where
  interrupt: "machine_step s s' \<Longrightarrow> system_step s s'"
| call: "rax cpu \<notin> {SYS_FORK, SYS_READDIR, SYS_EXEC, SYS_MALLOC} \<Longrightarrow> syscallEntry stk stk2 cpu r11 rsp s = Some (c, s') \<Longrightarrow> system_step s s'"

inductive_cases system_stepE: "system_step s s'"

lemma quiet_userRegs [simp]: "quiet (s :: 'a kernel_scheme) (s\<lparr>userRegs := u\<rparr>)" "quiet s (s\<lparr>mutex := m\<rparr>)"
  by (simp_all add: quiet_def)

lemma entry_keeps:
  fixes s :: "'a dirfs_scheme"
  assumes k: "kernel_ok T pid s" and n: "rax cpu \<notin> {SYS_FORK, SYS_READDIR, SYS_EXEC, SYS_MALLOC}"
    and e: "syscallEntry stk stk2 cpu r11 rsp s = Some (c, s')"
  shows "kernel_ok T pid s'"
proof -
  obtain u c' t where t: "syscallHandler stk stk2 (rdi cpu) (rsi cpu) (rdx cpu) (rax cpu) (s\<lparr>userRegs := u\<rparr>) = Some (c', t)"
    "s' = t \<or> s' = t\<lparr>mutex := 0\<rparr>"
    using e by (auto simp: syscallEntry_def Let_def split: if_splits)
  have "kernel_ok T pid (s\<lparr>userRegs := u\<rparr>)" by (rule quiet_ok [OF quiet_userRegs(1) k])
  from syscall_keeps [OF this t(1)] n have "kernel_ok T pid t" by auto
  with t(2) quiet_ok [OF quiet_userRegs(2)] show ?thesis by blast
qed

lemma system_step_keeps: "system_step s s' \<Longrightarrow> kernel_ok T pid s \<Longrightarrow> kernel_ok T pid s'"
  by (erule system_stepE) (blast intro: step_keeps, blast intro: entry_keeps)

section \<open>Properties\<close>

text \<open>C3: Whatever interrupts, exceptions, page faults and system calls happen, in any order and with any inputs (of the system calls all but
  \<open>fork\<close>, \<open>exec\<close>, \<open>malloc\<close> and \<open>readdir\<close>; known numbers or not): as long as each handler comes back, the run queue stays
  a ring without duplicates that contains the running task, the delete queue stays a list apart from it, together they hold exactly the
  tasks there were (none is lost, none appears twice), every task keeps its pid, and the shell (pid 1) is always in the run queue.\<close>

theorem reachable_queues_ok:
  fixes s :: "'a dirfs_scheme"
  assumes "system_step\<^sup>*\<^sup>* s0 s" and "kernel_ok T pid s0"
  shows "\<exists>ts ds. queues s ts ds \<and> set (runningThread s # ts @ ds) = T \<and>
    (\<exists>x \<in> set (runningThread s # ts). pid_t (tasks s x) = 1) \<and> (\<forall>x. pid_t (tasks s x) = pid x)"
proof -
  from assms have "kernel_ok T pid s" by (induction rule: rtranclp_induct) (auto intro: system_step_keeps)
  then show ?thesis unfolding kernel_ok_def by metis
qed

theorem reachable_queues_ok_witness:
  "\<exists>s ts ds. system_step\<^sup>*\<^sup>* tiny_dirs s \<and> mutex s = 0 \<and> queues s ts ds \<and> set (runningThread s # ts @ ds) = {0x10, 0x20, 0x30, 0x40}"
proof -
  let ?cpu = "zero_regs\<lparr>rax := 199, rdi := 3\<rparr>"
  define t where "t = rtc_intr_hndlr 0 0 0 0 tiny_dirs"
  have a: "system_step tiny_dirs t" unfolding t_def by (intro system_step.interrupt machine_step.rtc)
  define u where "u = (userRegs t)\<lparr>userRsp := 0, rip := rcx ?cpu, rax := rax ?cpu, rbx := rbx ?cpu, rcx := rcx ?cpu, rdx := rdx ?cpu,
                rsi := rsi ?cpu, rdi := rdi ?cpu, rbp := rbp ?cpu, rflags := 0\<rparr>"
  have "kernel_ok {0x10, 0x20, 0x30, 0x40} (\<lambda>x. pid_t (tasks small_kernel x)) (t\<lparr>userRegs := u, mutex := 1\<rparr>)"
    unfolding t_def by (intro quiet_ok [OF quiet_userRegs(2)] quiet_ok [OF quiet_userRegs(1)] quiet_ok [OF quiet_rtc] tiny_dirs_kernel)
  from kill_total [OF this, of 3] obtain v s' where "kill 3 (t\<lparr>userRegs := u, mutex := 1\<rparr>) = Some (v, s')" by auto
  then have "syscallEntry (\<lambda>_. CHR 0x00) (\<lambda>_. CHR 0x00) ?cpu 0 0 t = Some (Returned v, s'\<lparr>mutex := 0\<rparr>)"
    by (simp add: syscallEntry_def syscallHandler_def u_def)
  then have "system_step t (s'\<lparr>mutex := 0\<rparr>)" by (rule system_step.call [rotated]) simp
  with a have "system_step\<^sup>*\<^sup>* tiny_dirs (s'\<lparr>mutex := 0\<rparr>)" by (meson converse_rtranclp_into_rtranclp r_into_rtranclp)
  from reachable_queues_ok [OF this tiny_dirs_kernel] this show ?thesis by (intro exI [of _ "s'\<lparr>mutex := 0\<rparr>"]) auto
qed

end
