(* ===== verification/Setup.thy ===== *)
theory Setup
  imports Irq Syscall
begin

text \<open>
  The start of the system: the interrupt controllers, the timer and the clock (\<open>sys/pic.c\<close>, \<open>sys/pit.c\<close>, \<open>sys/rtc.c\<close>), the descriptor table
  (\<open>sys/gdt.c\<close>), the search of the PCI bus for a disk controller (\<open>sys/pci.c\<close>), and \<open>start\<close> and \<open>boot\<close> (\<open>sys/main.c\<close>), which call the
  set-up of all other components in order. Writes to ports are recorded in the order in which they are made; what a read of a port or of
  a configuration register gives is an argument. The interrupt flag of the CPU is not modelled.
\<close>

section \<open>Interrupt controllers, timer and clock\<close>

definition init_pic :: "'a kernel_scheme \<Rightarrow> 'a kernel_scheme" where
  "init_pic s =
     (let s1 = outb 0x11 0xA0 (outb 0x11 0x20 s);
          s2 = outb 0x28 0xA1 (outb 0x20 0x21 s1);
          s3 = outb 0x02 0xA1 (outb 0x04 0x21 s2);
          s4 = outb 0x01 0xA1 (outb 0x01 0x21 s3)
      in outb 0xFF 0xA1 (outb 0xFF 0x21 s4))"

definition init_pit :: "'a kernel_scheme \<Rightarrow> 'a kernel_scheme" where
  "init_pit s = outb 0x40 0 (outb 0x40 0 (outb 0x43 0x36 s))"

definition init_rtc :: "u8 \<Rightarrow> 'a kernel_scheme \<Rightarrow> 'a kernel_scheme" where
  "init_rtc prev s = outb (prev OR 0x40) 0x71 (outb 0x8B 0x70 (outb 0x8B 0x70 s))"

section \<open>The descriptor table\<close>

abbreviation GDT_CS :: u64 where "GDT_CS \<equiv> 0x00180000000000"
abbreviation GDT_DS :: u64 where "GDT_DS \<equiv> 0x00100000000000"
abbreviation DPL0 :: u64 where "DPL0 \<equiv> 0"
abbreviation DPL3 :: u64 where "DPL3 \<equiv> 0x00600000000000"
abbreviation P :: u64 where "P \<equiv> 0x00800000000000"
abbreviation L :: u64 where "L \<equiv> 0x20000000000000"
abbreviation W :: u64 where "W \<equiv> 0x00020000000000"
abbreviation MAX_GDT :: nat where "MAX_GDT \<equiv> 32"

definition gdt :: "u64 list" where
  "gdt = [0, GDT_CS OR P OR DPL0 OR L, GDT_DS OR P OR W OR DPL0, GDT_CS OR P OR DPL3 OR L, GDT_DS OR P OR W OR DPL3,
     GDT_CS OR P OR DPL3 OR L, 0, 0] @ replicate (MAX_GDT - 8) 0"

record sys_segment_descriptor =
  sd_lolimit :: "16 word"
  sd_lobase :: "24 word"
  sd_type :: "5 word"
  sd_dpl :: "2 word"
  sd_p :: "1 word"
  sd_hilimit :: "4 word"
  sd_xx1 :: "3 word"
  sd_gran :: "1 word"
  sd_hibase :: "40 word"
  sd_xx2 :: "8 word"
  sd_zero :: "5 word"
  sd_xx3 :: "19 word"

text \<open>The two words of the table that hold the bit fields, the first field in the lowest bits; \<open>sd_hibase\<close> lies across them.\<close>

definition pack_sd :: "sys_segment_descriptor \<Rightarrow> u64 \<times> u64" where
  "pack_sd d =
     (ucast (sd_lolimit d) OR push_bit 16 (ucast (sd_lobase d)) OR push_bit 40 (ucast (sd_type d)) OR push_bit 45 (ucast (sd_dpl d)) OR
      push_bit 47 (ucast (sd_p d)) OR push_bit 48 (ucast (sd_hilimit d)) OR push_bit 52 (ucast (sd_xx1 d)) OR push_bit 55 (ucast (sd_gran d)) OR
      push_bit 56 (ucast (sd_hibase d)),
      drop_bit 8 (ucast (sd_hibase d)) OR push_bit 32 (ucast (sd_xx2 d)) OR push_bit 40 (ucast (sd_zero d)) OR push_bit 45 (ucast (sd_xx3 d)))"

definition unpack_sd :: "u64 \<times> u64 \<Rightarrow> sys_segment_descriptor" where
  "unpack_sd = (\<lambda>(lo, hi). \<lparr>sd_lolimit = ucast lo, sd_lobase = ucast (drop_bit 16 lo), sd_type = ucast (drop_bit 40 lo),
     sd_dpl = ucast (drop_bit 45 lo), sd_p = ucast (drop_bit 47 lo), sd_hilimit = ucast (drop_bit 48 lo), sd_xx1 = ucast (drop_bit 52 lo),
     sd_gran = ucast (drop_bit 55 lo), sd_hibase = ucast (drop_bit 56 lo) OR push_bit 8 (ucast hi), sd_xx2 = ucast (drop_bit 32 hi),
     sd_zero = ucast (drop_bit 40 hi), sd_xx3 = ucast (drop_bit 45 hi)\<rparr>)"

text \<open>\<open>sizeof(struct tss_t)\<close>, and the table \<open>init_gdt\<close> leaves; \<open>tss\<close> is the address of the task state segment.\<close>

abbreviation SIZEOF_TSS :: nat where "SIZEOF_TSS \<equiv> 104"

definition init_gdt :: "u64 \<Rightarrow> u64 list \<Rightarrow> u64 list" where
  "init_gdt tss g =
     (let d = (unpack_sd (g ! 6, g ! 7))\<lparr>sd_lolimit := of_nat (SIZEOF_TSS - 1), sd_lobase := ucast tss, sd_type := 9, sd_dpl := 0, sd_p := 1,
            sd_hilimit := 0, sd_gran := 0, sd_hibase := ucast (drop_bit 24 tss)\<rparr>
      in case pack_sd d of (lo, hi) \<Rightarrow> g[6 := lo, 7 := hi])"

section \<open>The PCI bus\<close>

text \<open>The double words written to ports, and the static variables.\<close>

record pci = dirfs +
  dwords :: "(u32 \<times> u16) list"
  abar :: u64
  virtual_abar :: u64

definition outb_32 :: "u32 \<Rightarrow> u16 \<Rightarrow> 'a pci_scheme \<Rightarrow> 'a pci_scheme" where
  "outb_32 data port s = s\<lparr>dwords := dwords s @ [(data, port)]\<rparr>"

abbreviation dataPort :: u16 where "dataPort \<equiv> 0xCFC"
abbreviation commandPort :: u16 where "commandPort \<equiv> 0xCF8"

definition pci_command :: "u16 \<Rightarrow> u16 \<Rightarrow> u16 \<Rightarrow> u32 \<Rightarrow> u32" where
  "pci_command bus dev fn off = push_bit 31 1 OR push_bit 16 (ucast bus AND 0xFF) OR push_bit 11 (ucast dev AND 0x1F) OR
     push_bit 8 (ucast fn AND 0x07) OR (off AND 0xFC)"

text \<open>\<open>conf\<close> is what the data port gives after a command.\<close>

definition readPIC :: "(u32 \<Rightarrow> u32) \<Rightarrow> u16 \<Rightarrow> u16 \<Rightarrow> u16 \<Rightarrow> u32 \<Rightarrow> 'a pci_scheme \<Rightarrow> u32 \<times> 'a pci_scheme" where
  "readPIC conf bus dev fn off s =
     (let command = pci_command bus dev fn off OR 0x80000000 in (conf command, outb_32 command commandPort s))"

definition readPIC2 :: "u16 \<Rightarrow> u16 \<Rightarrow> u16 \<Rightarrow> u32 \<Rightarrow> u32 \<Rightarrow> 'a pci_scheme \<Rightarrow> 'a pci_scheme" where
  "readPIC2 bus dev fn off v s = outb_32 v dataPort s"

definition ifMultiFunction :: "(u32 \<Rightarrow> u32) \<Rightarrow> u16 \<Rightarrow> u16 \<Rightarrow> 'a pci_scheme \<Rightarrow> i32 \<times> 'a pci_scheme" where
  "ifMultiFunction conf bus dev s =
     (case readPIC conf bus dev 0 0x0C s of (v, s1) \<Rightarrow> (if v AND 0x00800000 = 0x00800000 then 1 else 0, s1))"

definition writePIC :: "u16 \<Rightarrow> u16 \<Rightarrow> u16 \<Rightarrow> u32 \<Rightarrow> u32 \<Rightarrow> 'a pci_scheme \<Rightarrow> 'a pci_scheme" where
  "writePIC bus dev fn off v s = outb_32 v dataPort (outb_32 (pci_command bus dev fn off) commandPort s)"

text \<open>One round of the three loops.\<close>

definition probe_function :: "(u32 \<Rightarrow> u32) \<Rightarrow> nat \<times> nat \<times> nat \<Rightarrow> 'a pci_scheme \<Rightarrow> 'a pci_scheme" where
  "probe_function conf = (\<lambda>(bus, dev, fn) s.
     case readPIC conf (of_nat bus) (of_nat dev) (of_nat fn) 0x00 s of (vendorID, s1) \<Rightarrow>
     case readPIC conf (of_nat bus) (of_nat dev) (of_nat fn) 0x08 s1 of (class_ID, s2) \<Rightarrow>
     if vendorID AND 0xFFFF = 0xFFFF then s2
     else if drop_bit 16 (class_ID AND 0xFFFF0000) = 0x0106
     then (let s3 = kprintf ''    Class ID: %x\<newline>'' [KNum (ucast class_ID)] (kprintf ''    Vendor ID: %x\<newline>'' [KNum (ucast vendorID)]
                 (kprintf ''    Bus %d Device %d Function %d \<newline>'' [KNum (of_nat bus), KNum (of_nat dev), KNum (of_nat fn)]
                   (kprintf ''AHCI Device Found...\<newline>'' [] s2)))
           in case readPIC conf (of_nat bus) (of_nat dev) (of_nat fn) 36 s3 of (v, s4) \<Rightarrow>
              let bar_5 = ucast v :: u64;
                  s5 = (kprintf ''Bar5 Found :D | Physical Bar5: %p \<newline>'' [KNum bar_5] s4)\<lparr>abar := bar_5\<rparr>
              in case mapAHCI bar_5 s5 of (va, s6) \<Rightarrow> s6\<lparr>virtual_abar := va\<rparr>)
     else s2)"

definition pci_slots :: "(nat \<times> nat \<times> nat) list" where
  "pci_slots = concat (map (\<lambda>bus. concat (map (\<lambda>dev. map (\<lambda>fn. (bus, dev, fn)) [0..<8]) [0..<32])) [0..<256])"

definition printALLDrivers :: "(u32 \<Rightarrow> u32) \<Rightarrow> 'a pci_scheme \<Rightarrow> 'a pci_scheme" where
  "printALLDrivers conf s =
     kprintf ''...\<newline>'' [] (fold (probe_function conf) pci_slots (kprintf ''Walking through the PCI Configuration Space...\<newline>'' [] s))"

section \<open>The memory map of the loader\<close>

text \<open>
  The loader leaves a list of modules, each a type, a size and its data; the one of type 0x9001 is the memory map, an array of packed
  \<open>smap_t\<close>. A module is skipped by its size in words (the pointer is one to \<open>uint32_t\<close>), while the size of the map is taken in bytes.
  \<^term>\<open>None\<close>: there is no such module and the loop does not end.
\<close>

partial_function (option) find_module :: "(u64 \<Rightarrow> char) \<Rightarrow> u64 \<Rightarrow> u64 option" where
  "find_module m modulep =
     (if le 4 m modulep = 0x9001 then Some modulep
      else find_module m (modulep + 4 * ucast (ucast (le 4 m (modulep + 4)) + 2 :: u32)))"

abbreviation SIZEOF_SMAP :: u64 where "SIZEOF_SMAP \<equiv> 20"

definition read_smap :: "(u64 \<Rightarrow> char) \<Rightarrow> u64 \<Rightarrow> smap_t" where
  "read_smap m a = \<lparr>smap_base = le 8 m a, smap_length = le 8 m (a + 8), smap_type = ucast (le 4 m (a + 16))\<rparr>"

partial_function (option) read_smaps :: "(u64 \<Rightarrow> char) \<Rightarrow> u64 \<Rightarrow> u64 \<Rightarrow> smap_t list option" where
  "read_smaps m smap en =
     (if smap < en then Option.bind (read_smaps m (smap + SIZEOF_SMAP) en) (\<lambda>rest. Some (read_smap m smap # rest)) else Some [])"

definition loader_map :: "(u64 \<Rightarrow> char) \<Rightarrow> u64 \<Rightarrow> smap_t list option" where
  "loader_map m modulep =
     Option.bind (find_module m modulep) (\<lambda>p. read_smaps m (p + 8) (p + le 4 m (p + 4) + 8))"

section \<open>Start\<close>

text \<open>\<open>initTarfs\<close>: the addresses the linker gives to the archive.\<close>

definition initTarfs :: "u64 \<Rightarrow> u64 \<Rightarrow> 'a fs_scheme \<Rightarrow> 'a fs_scheme" where
  "initTarfs st en s = s\<lparr>BINARY_TARFS_START := st, BINARY_TARFS_END := en\<rparr>"

text \<open>What \<open>start\<close> prints about the memory map of the loader.\<close>

definition print_region :: "smap_t \<Rightarrow> 'a kernel_scheme \<Rightarrow> 'a kernel_scheme" where
  "print_region r s =
     (if smap_type r = 1 \<and> smap_length r \<noteq> 0
      then kprintf ''Available Physical Memory [%p-%p]\<newline>'' [KNum (smap_base r), KNum (smap_base r + smap_length r)] s else s)"

text \<open>The kernel's tables, the identity mapping and the screen, which is reached through the new tables from then on.\<close>

definition mapVideoMemory :: "u64 \<Rightarrow> 'a machine_scheme \<Rightarrow> 'a machine_scheme" where
  "mapVideoMemory vga s = on_screen (mapVGA vga) (mapPage vga VGA_ADDRESS s)"

definition mapKernelMemory :: "'a machine_scheme \<Rightarrow> 'a machine_scheme option" where
  "mapKernelMemory s =
     (case identityMapping (kernel_tables s) of
        None \<Rightarrow> None
      | Some s1 \<Rightarrow>
          (let s2 = s1\<lparr>vga_virtual_address := kernbase s1 + 0xb8000\<rparr>
           in Some (mapVideoMemory (vga_virtual_address s2) s2)))"

text \<open>
  \<open>start\<close> up to the endless loop that follows when there is no shell. The regions of the memory map are printed after all of them have been
  given to the bitmap, since the two do not depend on each other. The other parameters are addresses the linker gives, the model specific
  registers and the contents of the local arrays.
\<close>

definition start ::
    "(nat \<Rightarrow> char) \<Rightarrow> (nat \<Rightarrow> char) \<Rightarrow> (u32 \<Rightarrow> u32) \<Rightarrow> (u32 \<Rightarrow> u64) \<Rightarrow> u64 \<Rightarrow> u64 \<Rightarrow> u64 \<Rightarrow> u64 \<Rightarrow> u64 \<Rightarrow> u64 \<Rightarrow> u64 \<Rightarrow> 'a pci_scheme \<Rightarrow>
     (ctl \<times> u64 \<times> (u32 \<Rightarrow> u64) \<times> 'a pci_scheme) option" where
  "start stk stk2 conf msrs entry mainThread tarfs_start tarfs_end modulep physbase physfree s =
     Option.bind (loader_map (bytes s) modulep) (\<lambda>smaps.
     let s1 = fold print_region smaps (start_phys physbase physfree smaps s);
         s2 = kprintf ''tarfs in [%p:%p]\<newline>'' [KNum tarfs_start, KNum tarfs_end] (kprintf ''physfree %p\<newline>'' [KNum physfree] s1)
     in Option.bind (mapKernelMemory s2) (\<lambda>s3.
     let s4 = enablePaging (printALLDrivers conf s3);
         s5 = kprintf ''******************************Welcome to SBUNIX*****************************\<newline>'' []
                (kprintf ''******************************...Starting UP...*****************************\<newline>'' [] s4)
     in case initSyscalls entry msrs (initMultiTasking mainThread (initTarfs tarfs_start tarfs_end s5)) of (kernelRSP, m, s6) \<Rightarrow>
     map_option (\<lambda>(c, s7). (c, kernelRSP, m, s7)) (initUserProcess stk stk2 mainThread s6)))"

text \<open>The part of \<open>boot\<close> before \<open>start\<close> that concerns the devices; the tables are \<open>init_gdt\<close> and \<open>init_idt\<close>.\<close>

definition boot_devices :: "u8 \<Rightarrow> 'a kernel_scheme \<Rightarrow> 'a kernel_scheme" where
  "boot_devices prev s = init_rtc prev (init_pit (init_pic s))"

definition boot_screen :: "'a console_scheme \<Rightarrow> 'a console_scheme" where
  "boot_screen s = time_bar 0 0 0 (CHR 0x0E) (boot_time_bar 0 0 0 (CHR 0x0E) (keypress_bar ''Last Pressed: '' (CHR 0x0E) s))"

text \<open>
  \<open>boot\<close> up to the loop in which \<open>start\<close> ends, or to the first switch to a program: the screen, the two tables, the devices and \<open>start\<close>, with
  the addresses the loader left on its stack (\<open>loader_stack\<close>). \<open>h\<close> holds the addresses of the interrupt entries.
\<close>

definition boot_colours :: "'a console_scheme \<Rightarrow> 'a console_scheme" where
  "boot_colours s = fold (\<lambda>i. poke (0xb8001 + 2 * of_nat i) (CHR 0x0E)) [0..<2000] s"

definition boot ::
    "(nat \<Rightarrow> char) \<Rightarrow> (nat \<Rightarrow> char) \<Rightarrow> (u32 \<Rightarrow> u32) \<Rightarrow> (u32 \<Rightarrow> u64) \<Rightarrow> u64 \<Rightarrow> u64 \<Rightarrow> u64 \<Rightarrow> u64 \<Rightarrow> (nat \<Rightarrow> u32) \<Rightarrow> u64 \<Rightarrow> u64 \<Rightarrow>
     u64 \<Rightarrow> u64 \<times> u64 \<times> u64 \<times> (u8 \<Rightarrow> u64) \<Rightarrow> u8 \<Rightarrow> u64 list \<Rightarrow> (u8 \<Rightarrow> idt_descriptor) \<Rightarrow> 'a pci_scheme \<Rightarrow>
     (u64 list \<times> (u8 \<Rightarrow> idt_descriptor) \<times> ctl \<times> u64 \<times> (u32 \<Rightarrow> u64) \<times> 'a pci_scheme) option" where
  "boot stk stk2 conf msrs entry mainThread tarfs_start tarfs_end loader_stack kernmem physbase tss h prev g idt s =
     (case h of (rtc_intr, key_board_intr, timer_intr, isr) \<Rightarrow>
      let s1 = on_screen boot_colours s;
          g1 = init_gdt tss g;
          idt1 = init_idt rtc_intr key_board_intr timer_intr isr idt;
          s2 = on_screen boot_screen (boot_devices prev s1)
      in map_option (\<lambda>r. (g1, idt1, r))
           (start stk stk2 conf msrs entry mainThread tarfs_start tarfs_end (ucast (loader_stack 3) + kernmem - physbase) physbase
              (ucast (loader_stack 4)) s2))"

section \<open>What the interrupt controllers do with the writes\<close>

text \<open>
  The two 8259 controllers as their documentation describes them: a command with bit 4 starts the initialisation, the next three bytes written to
  the data port are the first vector, the cascade line and the mode, every later one is the mask.
\<close>

record pic8259 =
  icw :: nat
  vector :: u8
  cascade :: u8
  imr :: u8

definition pic_command :: "u8 \<Rightarrow> pic8259 \<Rightarrow> pic8259" where
  "pic_command v c = (if bit v 4 then c\<lparr>icw := 1, imr := 0\<rparr> else c)"

definition pic_data :: "u8 \<Rightarrow> pic8259 \<Rightarrow> pic8259" where
  "pic_data v c =
     (if icw c = 1 then c\<lparr>vector := v AND 0xF8, icw := 2\<rparr>
      else if icw c = 2 then c\<lparr>cascade := v, icw := 3\<rparr>
      else if icw c = 3 then c\<lparr>icw := 0\<rparr>
      else c\<lparr>imr := v\<rparr>)"

definition pic_write :: "u8 \<times> u16 \<Rightarrow> pic8259 \<times> pic8259 \<Rightarrow> pic8259 \<times> pic8259" where
  "pic_write = (\<lambda>(v, port) (m, s).
     if port = 0x20 then (pic_command v m, s)
     else if port = 0x21 then (pic_data v m, s)
     else if port = 0xA0 then (m, pic_command v s)
     else if port = 0xA1 then (m, pic_data v s)
     else (m, s))"

text \<open>The vector with which interrupt line \<open>irq\<close> reaches the CPU; the lines from 8 on come through line 2 of the first controller.\<close>

definition delivered :: "pic8259 \<times> pic8259 \<Rightarrow> nat \<Rightarrow> u8 option" where
  "delivered = (\<lambda>(m, s) irq.
     if irq < 8 then (if bit (imr m) irq then None else Some (vector m + of_nat irq))
     else if bit (imr m) 2 \<or> bit (imr s) (irq - 8) then None
     else Some (vector s + of_nat (irq - 8)))"

lemma ports_outb [simp]: "ports (outb d p s) = ports s @ [(d, p)]"
  by (simp add: outb_def)

lemma pic_write_app:
  "pic_write (v, port) (m, s) =
     (if port = 0x20 then (pic_command v m, s) else if port = 0x21 then (pic_data v m, s)
      else if port = 0xA0 then (m, pic_command v s) else if port = 0xA1 then (m, pic_data v s) else (m, s))"
  by (simp add: pic_write_def)

lemma pics_after_boot:
  "fold pic_write (ports (boot_devices prev s)) pics = (\<lparr>icw = 0, vector = 0x20, cascade = 0x04, imr = 0xFF\<rparr>, \<lparr>icw = 0, vector = 0x28, cascade = 0x02, imr = 0xFF\<rparr>)"
proof -
  obtain m c where mc: "fold pic_write (ports s) pics = (m, c)" by fastforce
  have b: "bit (0x11 :: u8) 4" by simp
  show ?thesis
    by (simp add: boot_devices_def init_pic_def init_pit_def init_rtc_def Let_def mc pic_write_app pic_command_def pic_data_def b)
qed

lemma pics_after_enable:
  "fold pic_write (ports (enableIntr (boot_devices prev s))) pics =
     (\<lparr>icw = 0, vector = 0x20, cascade = 0x04, imr = 0xF8\<rparr>, \<lparr>icw = 0, vector = 0x28, cascade = 0x02, imr = 0xFE\<rparr>)"
  by (simp add: enableIntr_def pics_after_boot pic_write_app pic_data_def)

text \<open>C37: The interrupts are connected: after the devices have been set up at boot no interrupt line reaches the CPU, whatever was written before; after
  \<open>enableIntr\<close> the timer, the keyboard, the cascade line and the clock do and no other, and the vectors of the timer, the keyboard and the clock are those whose
  gates \<open>init_idt\<close> fills with their handlers.\<close>

theorem interrupts_connected:
  assumes "irq < 16"
  shows "delivered (fold pic_write (ports (boot_devices prev s)) pics) irq = None \<and>
    (let d = delivered (fold pic_write (ports (enableIntr (boot_devices prev s))) pics);
         g = \<lambda>v. gate_base (init_idt rtc_intr key_board_intr timer_intr isr idt v)
     in (d irq \<noteq> None \<longleftrightarrow> irq \<in> {0, 1, 2, 8}) \<and> map_option g (d 0) = Some timer_intr \<and> map_option g (d 1) = Some key_board_intr \<and>
        map_option g (d 8) = Some rtc_intr)"
proof -
  have g: "gate_base (init_idt rtc_intr key_board_intr timer_intr isr idt 32) = timer_intr"
    "gate_base (init_idt rtc_intr key_board_intr timer_intr isr idt 33) = key_board_intr"
    "gate_base (init_idt rtc_intr key_board_intr timer_intr isr idt 40) = rtc_intr"
    using idt_gates_roundtrip [where rtc = rtc_intr and kb = key_board_intr and tm = timer_intr and isr = isr and idt = idt and v = 32]
      idt_gates_roundtrip [where rtc = rtc_intr and kb = key_board_intr and tm = timer_intr and isr = isr and idt = idt and v = 33]
      idt_gates_roundtrip [where rtc = rtc_intr and kb = key_board_intr and tm = timer_intr and isr = isr and idt = idt and v = 40]
    by (simp_all add: vector_handler_def)
  have "irq = 0 \<or> irq = 1 \<or> irq = 2 \<or> irq = 3 \<or> irq = 4 \<or> irq = 5 \<or> irq = 6 \<or> irq = 7 \<or> irq = 8 \<or> irq = 9 \<or> irq = 10 \<or>
      irq = 11 \<or> irq = 12 \<or> irq = 13 \<or> irq = 14 \<or> irq = 15" using assms by presburger
  then show ?thesis unfolding pics_after_boot pics_after_enable delivered_def Let_def
    by (elim disjE) (simp_all add: g)
qed

theorem interrupts_connected_witness:
  "delivered (fold pic_write (ports (enableIntr (boot_devices 0 small_kernel))) (\<lparr>icw = 0, vector = 0, cascade = 0, imr = 0\<rparr>, \<lparr>icw = 0, vector = 0, cascade = 0, imr = 0\<rparr>)) 8 \<noteq> None"
  using interrupts_connected [of 8 0 small_kernel "(\<lparr>icw = 0, vector = 0, cascade = 0, imr = 0\<rparr>, \<lparr>icw = 0, vector = 0, cascade = 0, imr = 0\<rparr>)"]
  by (simp add: Let_def)

section \<open>The task state segment\<close>

text \<open>How the CPU reads a system descriptor.\<close>

definition descriptor_base :: "u64 \<Rightarrow> u64 \<Rightarrow> u64" where
  "descriptor_base lo hi = take_bit 24 (drop_bit 16 lo) OR push_bit 24 (drop_bit 56 lo) OR push_bit 32 (take_bit 32 hi)"

lemma pack_sd_fields:
  "(ucast (fst (pack_sd d)) :: 16 word) = sd_lolimit d" "(ucast (drop_bit 40 (fst (pack_sd d))) :: 5 word) = sd_type d"
  "(ucast (drop_bit 45 (fst (pack_sd d))) :: 2 word) = sd_dpl d" "(ucast (drop_bit 47 (fst (pack_sd d))) :: 1 word) = sd_p d"
proof -
  show "(ucast (fst (pack_sd d)) :: 16 word) = sd_lolimit d"
    unfolding pack_sd_def fst_conv by (rule bit_word_eqI) (auto simp: bit_simps dest: bit_imp_le_length)
  show "(ucast (drop_bit 40 (fst (pack_sd d))) :: 5 word) = sd_type d"
    unfolding pack_sd_def fst_conv by (rule bit_word_eqI) (auto simp: bit_simps dest: bit_imp_le_length)
  show "(ucast (drop_bit 45 (fst (pack_sd d))) :: 2 word) = sd_dpl d"
    unfolding pack_sd_def fst_conv by (rule bit_word_eqI) (auto simp: bit_simps dest: bit_imp_le_length)
  show "(ucast (drop_bit 47 (fst (pack_sd d))) :: 1 word) = sd_p d"
    unfolding pack_sd_def fst_conv by (rule bit_word_eqI) (auto simp: bit_simps dest: bit_imp_le_length)
qed

lemma pack_sd_base: "descriptor_base (fst (pack_sd d)) (snd (pack_sd d)) = ucast (sd_lobase d) OR push_bit 24 (ucast (sd_hibase d))"
proof -
  have lim: "\<not> bit (sd_lolimit d) (16 + n)" "\<not> bit (sd_lolimit d) (56 + n)" "\<not> bit (sd_lobase d) (40 + n)" "\<not> bit (sd_type d) (16 + n)"
    "\<not> bit (sd_dpl d) (11 + n)" "\<not> bit (sd_p d) (9 + n)" "\<not> bit (sd_hilimit d) (8 + n)" "\<not> bit (sd_xx1 d) (4 + n)" "\<not> bit (sd_gran d) (Suc n)" for n
    by (auto dest: bit_imp_le_length)
  have lo: "take_bit 24 (drop_bit 16 (fst (pack_sd d))) = ucast (sd_lobase d)"
  proof (rule bit_word_eqI)
    fix n
    show "bit (take_bit 24 (drop_bit 16 (fst (pack_sd d)))) n = bit (ucast (sd_lobase d) :: u64) n"
      using bit_imp_le_length [of "sd_lobase d" n] by (cases "n < 24") (simp_all add: pack_sd_def bit_simps lim, blast)
  qed
  have mid: "drop_bit 56 (fst (pack_sd d)) = take_bit 8 (ucast (sd_hibase d))"
  proof (rule bit_word_eqI)
    fix n
    show "bit (drop_bit 56 (fst (pack_sd d))) n = bit (take_bit 8 (ucast (sd_hibase d)) :: u64) n"
      by (cases "n < 8") (simp_all add: pack_sd_def bit_simps lim)
  qed
  have hi: "take_bit 32 (snd (pack_sd d)) = drop_bit 8 (ucast (sd_hibase d))"
  proof (rule bit_word_eqI)
    fix n
    show "bit (take_bit 32 (snd (pack_sd d))) n = bit (drop_bit 8 (ucast (sd_hibase d)) :: u64) n"
      using bit_imp_le_length [of "sd_hibase d" "8 + n"] by (cases "n < 32") (simp_all add: pack_sd_def bit_simps, blast)
  qed
  have "push_bit 24 (take_bit 8 h) OR push_bit 32 (drop_bit 8 h) = push_bit 24 h" for h :: u64
  proof (rule bit_word_eqI)
    fix n :: nat
    show "bit (push_bit 24 (take_bit 8 h) OR push_bit 32 (drop_bit 8 h)) n = bit (push_bit 24 h) n"
    proof (cases "32 \<le> n")
      case True
      then have "8 + (n - 32) = n - 24" "\<not> n - 24 < 8" by simp_all
      with True show ?thesis by (simp add: bit_simps)
    next
      case False
      then have "24 \<le> n \<Longrightarrow> n - 24 < 8" by simp
      with False show ?thesis by (auto simp: bit_simps)
    qed
  qed
  then show ?thesis unfolding descriptor_base_def lo mid hi by (simp add: or.assoc)
qed

lemma init_gdt_tss:
  assumes "length g = MAX_GDT"
  shows "length (init_gdt tss g) = MAX_GDT" "\<And>i. i \<noteq> 6 \<Longrightarrow> i \<noteq> 7 \<Longrightarrow> init_gdt tss g ! i = g ! i"
    and "descriptor_base (init_gdt tss g ! 6) (init_gdt tss g ! 7) = tss"
    and "(ucast (init_gdt tss g ! 6) :: 16 word) = of_nat (SIZEOF_TSS - 1)" "(ucast (drop_bit 40 (init_gdt tss g ! 6)) :: 5 word) = 9"
    and "(ucast (drop_bit 47 (init_gdt tss g ! 6)) :: 1 word) = 1" "(ucast (drop_bit 45 (init_gdt tss g ! 6)) :: 2 word) = 0"
proof -
  define d where "d = (unpack_sd (g ! 6, g ! 7))\<lparr>sd_lolimit := of_nat (SIZEOF_TSS - 1), sd_lobase := ucast tss, sd_type := 9, sd_dpl := 0, sd_p := 1,
            sd_hilimit := 0, sd_gran := 0, sd_hibase := ucast (drop_bit 24 tss)\<rparr>"
  have e: "init_gdt tss g = g[6 := fst (pack_sd d), 7 := snd (pack_sd d)]"
    unfolding init_gdt_def Let_def d_def by (simp add: case_prod_beta)
  show "length (init_gdt tss g) = MAX_GDT" "\<And>i. i \<noteq> 6 \<Longrightarrow> i \<noteq> 7 \<Longrightarrow> init_gdt tss g ! i = g ! i" using assms by (simp_all add: e)
  have n: "init_gdt tss g ! 6 = fst (pack_sd d)" "init_gdt tss g ! 7 = snd (pack_sd d)" using assms by (simp_all add: e)
  show "(ucast (init_gdt tss g ! 6) :: 16 word) = of_nat (SIZEOF_TSS - 1)" "(ucast (drop_bit 40 (init_gdt tss g ! 6)) :: 5 word) = 9"
    "(ucast (drop_bit 47 (init_gdt tss g ! 6)) :: 1 word) = 1" "(ucast (drop_bit 45 (init_gdt tss g ! 6)) :: 2 word) = 0"
    unfolding n pack_sd_fields by (simp_all add: d_def)
  have "(ucast (ucast tss :: 24 word) :: u64) OR push_bit 24 (ucast (ucast (drop_bit 24 tss) :: 40 word)) = tss"
    by (rule bit_word_eqI) (auto simp: bit_simps)
  then show "descriptor_base (init_gdt tss g ! 6) (init_gdt tss g ! 7) = tss" unfolding n pack_sd_base by (simp add: d_def)
qed

section \<open>The search for a disk controller\<close>

lemma pci_command_high: "pci_command bus dev fn off OR 0x80000000 = pci_command bus dev fn off"
proof -
  have e: "(h OR p OR q OR r OR t) OR h = h OR p OR q OR r OR t" for h p q r t :: u32 by (simp add: ac_simps)
  have h: "0x80000000 = (push_bit 31 1 :: u32)" by simp
  show ?thesis unfolding h pci_command_def by (rule e)
qed

text \<open>The register at \<open>off\<close> of a function, and the functions that are disk controllers.\<close>

definition reg :: "(u32 \<Rightarrow> u32) \<Rightarrow> nat \<times> nat \<times> nat \<Rightarrow> u32 \<Rightarrow> u32" where
  "reg conf = (\<lambda>(bus, dev, fn) off. conf (pci_command (of_nat bus) (of_nat dev) (of_nat fn) off))"

definition is_ahci :: "(u32 \<Rightarrow> u32) \<Rightarrow> nat \<times> nat \<times> nat \<Rightarrow> bool" where
  "is_ahci conf x \<longleftrightarrow> reg conf x 0 AND 0xFFFF \<noteq> 0xFFFF \<and> drop_bit 16 (reg conf x 8) = 0x0106"

lemma class_half: "drop_bit 16 (v AND 0xFFFF0000) = drop_bit 16 (v :: u32)"
proof -
  have "drop_bit 16 (v AND 0xFFFF0000) = drop_bit 16 v AND drop_bit 16 0xFFFF0000" by (rule drop_bit_and)
  also have "drop_bit 16 (0xFFFF0000 :: u32) = mask 16" by (simp add: mask_eq_exp_minus_1)
  also have "drop_bit 16 v AND mask 16 = drop_bit 16 v"
    by (rule bit_word_eqI) (auto simp: bit_simps dest: bit_imp_le_length)
  finally show ?thesis .
qed

lemma kprintf_pci: "abar (kprintf f x s) = abar s" "virtual_abar (kprintf f x s) = virtual_abar s"
  by (simp_all add: kprintf_def)

lemma mapAHCI_keeps:
  "abar (snd (mapAHCI p s)) = abar s" "virtual_abar (snd (mapAHCI p s)) = virtual_abar s"
proof -
  have p: "phys_only t (mapPage v a t)" for v a and t :: "'a pci_scheme"
    unfolding mapPage_def Let_def case_prod_beta
    by (intro phys_only_trans [OF phys_only_step phys_only_trans [OF phys_only_step phys_only_trans [OF phys_only_step phys_only_wr]]])
  have "phys_only s (snd (mapAHCI p s))" unfolding mapAHCI_def Let_def snd_conv by (rule phys_only_trans [OF p p])
  then have "snd (mapAHCI p s) = s\<lparr>availFrames := availFrames (snd (mapAHCI p s)), pmem := pmem (snd (mapAHCI p s))\<rparr>"
    by (simp only: phys_only_def)
  then obtain a m where e: "snd (mapAHCI p s) = s\<lparr>availFrames := a, pmem := m\<rparr>" by blast
  show "abar (snd (mapAHCI p s)) = abar s" "virtual_abar (snd (mapAHCI p s)) = virtual_abar s" unfolding e by simp_all
qed

lemma probe_function_finds:
  "abar (probe_function conf x s) = (if is_ahci conf x then ucast (reg conf x 36) else abar s)"
  "virtual_abar (probe_function conf x s) = (if is_ahci conf x then AHCI_VIRTUAL_ADDRESS else virtual_abar s)"
proof -
  have m: "mapAHCI p t = (AHCI_VIRTUAL_ADDRESS, snd (mapAHCI p t))" for p and t :: "'a pci_scheme" by (simp add: mapAHCI_def Let_def)
  obtain b d f where x: "x = (b, d, f)" by (cases x)
  show "abar (probe_function conf x s) = (if is_ahci conf x then ucast (reg conf x 36) else abar s)"
    "virtual_abar (probe_function conf x s) = (if is_ahci conf x then AHCI_VIRTUAL_ADDRESS else virtual_abar s)"
    unfolding x probe_function_def readPIC_def Let_def pci_command_high is_ahci_def reg_def class_half
    by (subst m; simp add: outb_32_def kprintf_def mapAHCI_keeps)+
qed

text \<open>The search finds a disk controller: \<open>printALLDrivers\<close> looks at every function of every device of every bus, and if any is a disk controller (class
  1, subclass 6, a vendor number), \<open>abar\<close> is register 36 of the last of them and its registers are mapped; otherwise both pointers stay as they are.\<close>

theorem controller_found:
  "(\<forall>bus < 256. \<forall>dev < 32. \<forall>fn < 8. (bus, dev, fn) \<in> set pci_slots) \<and>
   abar (printALLDrivers conf s) = (case rev (filter (is_ahci conf) pci_slots) of [] \<Rightarrow> abar s | x # _ \<Rightarrow> ucast (reg conf x 36)) \<and>
   virtual_abar (printALLDrivers conf s) = (if \<exists>x \<in> set pci_slots. is_ahci conf x then AHCI_VIRTUAL_ADDRESS else virtual_abar s)"
proof -
  have "abar (fold (probe_function conf) xs t) = (case rev (filter (is_ahci conf) xs) of [] \<Rightarrow> abar t | x # _ \<Rightarrow> ucast (reg conf x 36)) \<and>
      virtual_abar (fold (probe_function conf) xs t) = (if \<exists>x \<in> set xs. is_ahci conf x then AHCI_VIRTUAL_ADDRESS else virtual_abar t)" for xs t
    by (induction xs rule: rev_induct) (auto simp: probe_function_finds split: list.split)
  note found = this [of pci_slots "kprintf ''Walking through the PCI Configuration Space...\<newline>'' [] s"]
  from found have "abar (printALLDrivers conf s) = (case rev (filter (is_ahci conf) pci_slots) of [] \<Rightarrow> abar s | x # _ \<Rightarrow> ucast (reg conf x 36)) \<and>
   virtual_abar (printALLDrivers conf s) = (if \<exists>x \<in> set pci_slots. is_ahci conf x then AHCI_VIRTUAL_ADDRESS else virtual_abar s)"
    unfolding printALLDrivers_def by (simp only: kprintf_pci)
  moreover have "(bus, dev, fn) \<in> set pci_slots" if "bus < 256" "dev < 32" "fn < 8" for bus dev fn
    using that unfolding pci_slots_def by (simp add: image_iff)
  ultimately show ?thesis by blast
qed

section \<open>The memory map is read\<close>

text \<open>The modules from \<open>p\<close> on, as \<open>find_module\<close> steps over them, end with a memory map of the regions \<open>rs\<close>.\<close>

inductive memory_map :: "(u64 \<Rightarrow> char) \<Rightarrow> u64 \<Rightarrow> smap_t list \<Rightarrow> bool" for m where
  map_here: "le 4 m p = 0x9001 \<Longrightarrow> le 4 m (p + 4) = of_nat (20 * length rs) \<Longrightarrow> unat p + 8 + 20 * length rs < 2 ^ 64 \<Longrightarrow>
    (\<And>i. i < length rs \<Longrightarrow> read_smap m (p + 8 + of_nat (20 * i)) = rs ! i) \<Longrightarrow> memory_map m p rs"
| map_later: "le 4 m p \<noteq> 0x9001 \<Longrightarrow> memory_map m (p + 4 * ucast (ucast (le 4 m (p + 4)) + 2 :: u32)) rs \<Longrightarrow> memory_map m p rs"

lemma read_smaps_reads:
  assumes "unat a + 20 * length rs < 2 ^ 64" and "\<And>i. i < length rs \<Longrightarrow> read_smap m (a + of_nat (20 * i)) = rs ! i"
  shows "read_smaps m a (a + of_nat (20 * length rs)) = Some rs"
  using assms
proof (induction rs arbitrary: a)
  case Nil
  show ?case by (subst read_smaps.simps) simp
next
  case (Cons r rs)
  have "unat (of_nat (20 * length (r # rs)) :: u64) = 20 * length (r # rs)" using Cons.prems(1) by (intro unat_of_nat_small) simp
  then have e: "unat (a + of_nat (20 * length (r # rs))) = unat a + 20 * length (r # rs)"
    using Cons.prems(1) unat_add_lem [of a "of_nat (20 * length (r # rs))"] by simp
  have l: "a < a + of_nat (20 * length (r # rs))" unfolding word_less_nat_alt e by simp
  have a: "unat (a + 20) = unat a + 20" using Cons.prems(1) unat_add_lem [of a 20] by simp
  have i: "read_smap m (a + 20 + of_nat (20 * i)) = rs ! i" if "i < length rs" for i
  proof -
    have "a + 20 + of_nat (20 * i) = a + of_nat (20 * Suc i)" by simp
    then show ?thesis using Cons.prems(2) [of "Suc i"] that by (simp add: add.assoc)
  qed
  have "read_smaps m (a + 20) (a + 20 + of_nat (20 * length rs)) = Some rs"
  proof (rule Cons.IH)
    show "unat (a + 20) + 20 * length rs < 2 ^ 64" using Cons.prems(1) by (simp add: a)
  qed (rule i)
  moreover have "a + 20 + of_nat (20 * length rs) = a + of_nat (20 * length (r # rs))" by simp
  ultimately have r: "read_smaps m (a + 20) (a + of_nat (20 * length (r # rs))) = Some rs" by metis
  have z: "read_smap m a = r" using Cons.prems(2) [of 0] by simp
  show ?case by (subst read_smaps.simps) (simp only: l r z if_True Option.bind.bind_lunit)
qed

text \<open>The memory map is read: whatever modules precede it, the loop finds it and the regions are those the loader put there.\<close>

theorem loader_map_read:
  assumes "memory_map m p rs"
  shows "loader_map m p = Some rs"
  using assms
proof (induction rule: memory_map.induct)
  case (map_here p rs)
  have f: "find_module m p = Some p" using map_here(1) by (subst find_module.simps) simp
  have "unat (p + 8) + 20 * length rs < 2 ^ 64"
  proof -
    have "unat (p + 8) \<le> unat p + 8" unfolding unat_word_ariths by simp
    then show ?thesis using map_here(3) by simp
  qed
  from read_smaps_reads [OF this map_here(4)] have "read_smaps m (p + 8) (p + 8 + of_nat (20 * length rs)) = Some rs" by simp
  moreover have "p + of_nat (20 * length rs) + 8 = p + 8 + of_nat (20 * length rs)" by simp
  ultimately show ?case unfolding loader_map_def f by (simp only: Option.bind.bind_lunit map_here(2))
next
  case (map_later p rs)
  have "find_module m p = find_module m (p + 4 * ucast (ucast (le 4 m (p + 4)) + 2 :: u32))"
    using map_later(1) by (subst find_module.simps) simp
  with map_later(3) show ?case by (simp add: loader_map_def)
qed

end
