(* ===== verification/Libc.thy ===== *)
theory Libc
  imports Syscall
begin

text \<open>
  The C library of the programs (\<open>libc/\<close>, all of it that is not commented out): the stub \<open>syscall\<close>, its wrappers with the conversions of
  parameters and results, and the input and output of single characters. A program sees the kernel as a function \<open>K\<close> from the number and
  three parameters to the result; \<open>kernel_call\<close> is that function for the kernel of the other theories. A call that does not come back
  (\<open>exit\<close>, a successful \<open>execve\<close>) is \<^term>\<open>Gone\<close>. A local variable whose address is passed is a parameter.
\<close>

section \<open>The system call\<close>

datatype 'v ran = Ran 'v | Gone

type_synonym 's calls = "u64 \<Rightarrow> u64 \<Rightarrow> u64 \<Rightarrow> u64 \<Rightarrow> 's \<Rightarrow> (u64 ran \<times> 's) option"

text \<open>\<open>cpu\<close>, \<open>r11\<close> and \<open>rsp\<close> are what the other registers hold; parameters four to six are not looked at by the kernel.\<close>

definition kernel_call ::
    "(nat \<Rightarrow> char) \<Rightarrow> (nat \<Rightarrow> char) \<Rightarrow> Registers \<Rightarrow> u64 \<Rightarrow> u64 \<Rightarrow> ('a dirfs_scheme) calls" where
  "kernel_call stk stk2 cpu r11 rsp syscallNum param1 param2 param3 s =
     map_option (\<lambda>(c, s'). (case c of Returned v \<Rightarrow> Ran v | Entered \<Rightarrow> Gone, s'))
       (syscallEntry stk stk2 (cpu\<lparr>rax := syscallNum, rdi := param1, rsi := param2, rdx := param3\<rparr>) r11 rsp s)"

abbreviation then_do :: "('v ran \<times> 's) option \<Rightarrow> ('v \<Rightarrow> 's \<Rightarrow> ('w ran \<times> 's) option) \<Rightarrow> ('w ran \<times> 's) option" where
  "then_do r f \<equiv> Option.bind r (\<lambda>(x, s). case x of Ran v \<Rightarrow> f v s | Gone \<Rightarrow> Some (Gone, s))"

definition cast_result :: "('v \<Rightarrow> 'w) \<Rightarrow> ('v ran \<times> 's) option \<Rightarrow> ('w ran \<times> 's) option" where
  "cast_result f r = map_option (\<lambda>(x, s). (map_ran f x, s)) r"

section \<open>Wrappers\<close>

subsection \<open>\<open>unistd.c\<close>\<close>

definition u_open :: "'s calls \<Rightarrow> u64 \<Rightarrow> i32 \<Rightarrow> 's \<Rightarrow> (i32 ran \<times> 's) option" where
  "u_open K pathname flags s = cast_result ucast (K 2 pathname (scast flags) 0 s)"

definition u_close :: "'s calls \<Rightarrow> i32 \<Rightarrow> 's \<Rightarrow> (i32 ran \<times> 's) option" where
  "u_close K fd s = cast_result ucast (K 3 (scast fd) 0 0 s)"

definition u_write :: "'s calls \<Rightarrow> i32 \<Rightarrow> u64 \<Rightarrow> u64 \<Rightarrow> 's \<Rightarrow> (i64 ran \<times> 's) option" where
  "u_write K fd buf count s = K 4 (scast fd) buf count s"

definition u_read :: "'s calls \<Rightarrow> i32 \<Rightarrow> u64 \<Rightarrow> u64 \<Rightarrow> 's \<Rightarrow> (i64 ran \<times> 's) option" where
  "u_read K fd buf count s = K 0 (scast fd) buf count s"

definition u_fork :: "'s calls \<Rightarrow> 's \<Rightarrow> (u32 ran \<times> 's) option" where
  "u_fork K s = cast_result ucast (K 1 0 0 0 s)"

definition u_getpid :: "'s calls \<Rightarrow> 's \<Rightarrow> (u32 ran \<times> 's) option" where
  "u_getpid K s = cast_result ucast (K 66 0 0 0 s)"

definition u_getppid :: "'s calls \<Rightarrow> 's \<Rightarrow> (u32 ran \<times> 's) option" where
  "u_getppid K s = cast_result ucast (K 67 0 0 0 s)"

definition u_execve :: "'s calls \<Rightarrow> u64 \<Rightarrow> u64 \<Rightarrow> u64 \<Rightarrow> 's \<Rightarrow> (i32 ran \<times> 's) option" where
  "u_execve K file_p argv envp s = cast_result ucast (K 78 file_p argv envp s)"

definition u_execvpe :: "'s calls \<Rightarrow> u64 \<Rightarrow> u64 \<Rightarrow> u64 \<Rightarrow> 's \<Rightarrow> (i32 ran \<times> 's) option" where
  "u_execvpe K file_p argv envp s = cast_result ucast (K 78 file_p argv envp s)"

text \<open>\<open>options\<close> is not passed on.\<close>

definition u_waitpid :: "'s calls \<Rightarrow> i32 \<Rightarrow> u64 \<Rightarrow> i32 \<Rightarrow> 's \<Rightarrow> (i32 ran \<times> 's) option" where
  "u_waitpid K pid status options s = cast_result ucast (K 88 (scast pid) status 0 s)"

definition u_wait :: "'s calls \<Rightarrow> u64 \<Rightarrow> 's \<Rightarrow> (u32 ran \<times> 's) option" where
  "u_wait K status s = cast_result ucast (K 88 (- 1) status 0 s)"

definition u_chdir :: "'s calls \<Rightarrow> u64 \<Rightarrow> 's \<Rightarrow> (i32 ran \<times> 's) option" where
  "u_chdir K pathname s = cast_result ucast (K 80 pathname 0 0 s)"

definition u_getcwd :: "'s calls \<Rightarrow> u64 \<Rightarrow> u64 \<Rightarrow> 's \<Rightarrow> (u64 ran \<times> 's) option" where
  "u_getcwd K buf sz s = K 79 buf sz 0 s"

text \<open>\<open>sleep\<close> asks the kernel again and again whether the time is over.\<close>

partial_function (option) sleep_loop :: "'s calls \<Rightarrow> 's \<Rightarrow> (unit ran \<times> 's) option" where
  "sleep_loop K s = then_do (K 51 0 0 0 s) (\<lambda>v s1. if v = 0 then sleep_loop K s1 else Some (Ran (), s1))"

definition u_sleep :: "'s calls \<Rightarrow> u32 \<Rightarrow> 's \<Rightarrow> (u32 ran \<times> 's) option" where
  "u_sleep K secs s =
     then_do (K 50 (ucast secs) 0 0 s) (\<lambda>_ s1. then_do (sleep_loop K s1) (\<lambda>_ s2. Some (Ran secs, s2)))"

subsection \<open>\<open>stdlib.c\<close>, \<open>dirent.c\<close> and \<open>signal.c\<close>\<close>

definition u_malloc :: "'s calls \<Rightarrow> i64 \<Rightarrow> 's \<Rightarrow> (u64 ran \<times> 's) option" where
  "u_malloc K sz s = K 99 sz 0 0 s"

definition u_free :: "'s calls \<Rightarrow> u64 \<Rightarrow> 's \<Rightarrow> (unit ran \<times> 's) option" where
  "u_free K ptr s = cast_result (\<lambda>_. ()) (K 89 ptr 0 0 s)"

definition u_exit :: "'s calls \<Rightarrow> i32 \<Rightarrow> 's \<Rightarrow> (unit ran \<times> 's) option" where
  "u_exit K rc s = cast_result (\<lambda>_. ()) (K 100 (scast rc) 0 0 s)"

definition u_setenv :: "'s calls \<Rightarrow> u64 \<Rightarrow> u64 \<Rightarrow> i32 \<Rightarrow> 's \<Rightarrow> (i64 ran \<times> 's) option" where
  "u_setenv K name_p val_p overwrite s = K 53 name_p val_p (scast overwrite) s"

definition u_getenv :: "'s calls \<Rightarrow> u64 \<Rightarrow> 's \<Rightarrow> (u64 ran \<times> 's) option" where
  "u_getenv K name_p s = K 54 name_p 0 0 s"

definition u_env :: "'s calls \<Rightarrow> u64 \<Rightarrow> 's \<Rightarrow> (i64 ran \<times> 's) option" where
  "u_env K com_args s = K 55 com_args 0 0 s"

definition u_opendir :: "'s calls \<Rightarrow> u64 \<Rightarrow> 's \<Rightarrow> (u64 ran \<times> 's) option" where
  "u_opendir K name_p s = K 9 name_p 0 0 s"

definition u_readdir :: "'s calls \<Rightarrow> u64 \<Rightarrow> 's \<Rightarrow> (u64 ran \<times> 's) option" where
  "u_readdir K dirp s = K 11 dirp 0 0 s"

definition u_closedir :: "'s calls \<Rightarrow> u64 \<Rightarrow> 's \<Rightarrow> (i64 ran \<times> 's) option" where
  "u_closedir K dirp s = K 10 dirp 0 0 s"

definition u_getdents :: "'s calls \<Rightarrow> u32 \<Rightarrow> u64 \<Rightarrow> u32 \<Rightarrow> 's \<Rightarrow> (i32 ran \<times> 's) option" where
  "u_getdents K fd dirp count s = cast_result ucast (K 12 (ucast fd) dirp (ucast count) s)"

definition u_kill :: "'s calls \<Rightarrow> i64 \<Rightarrow> i32 \<Rightarrow> 's \<Rightarrow> (i32 ran \<times> 's) option" where
  "u_kill K pid sig s = cast_result (\<lambda>_. 0) (K 199 pid 0 3 s)"

definition u_signal :: "'s calls \<Rightarrow> i32 \<Rightarrow> u64 \<Rightarrow> 's \<Rightarrow> (u64 ran \<times> 's) option" where
  "u_signal K signum handler s = K 155 (scast signum) handler 3 s"

definition u_alarm :: "'s calls \<Rightarrow> i32 \<Rightarrow> 's \<Rightarrow> (i32 ran \<times> 's) option" where
  "u_alarm K secs s = cast_result ucast (K 156 (scast secs) 0 3 s)"

section \<open>Characters\<close>

text \<open>A \<open>char\<close> converted to \<open>int\<close>.\<close>

definition char_int :: "char \<Rightarrow> i32" where
  "char_int c = scast (of_char c :: u8)"

definition putchar :: "('a dirfs_scheme) calls \<Rightarrow> u64 \<Rightarrow> i32 \<Rightarrow> 'a dirfs_scheme \<Rightarrow> (i32 ran \<times> 'a dirfs_scheme) option" where
  "putchar K buf c s = then_do (K 4 1 buf 1 (store_int buf c s)) (\<lambda>_ s1. Some (Ran (ucast (le 4 (bytes s1) buf)), s1))"

text \<open>\<open>buf\<close> is the address of the parameter of \<open>putchar\<close>. The \<open>return\<close> behind the first one is not reached.\<close>

partial_function (option) puts ::
    "('a dirfs_scheme) calls \<Rightarrow> u64 \<Rightarrow> u64 \<Rightarrow> 'a dirfs_scheme \<Rightarrow> (i32 ran \<times> 'a dirfs_scheme) option" where
  "puts K buf p s =
     (if bytes s p = CHR 0x00 then Some (Ran 0, s)
      else then_do (putchar K buf (char_int (bytes s p)) s) (\<lambda>r s1.
        if r \<noteq> char_int (bytes s1 p) then Some (Ran (- 1), s1) else puts K buf (p + 1) s1))"

partial_function (option) gets_loop ::
    "('a dirfs_scheme) calls \<Rightarrow> u64 \<Rightarrow> 'a dirfs_scheme \<Rightarrow> (unit ran \<times> 'a dirfs_scheme) option" where
  "gets_loop K temp s =
     (if bytes s temp \<noteq> CHR 0x00 \<and> bytes s temp \<noteq> CHR 0x0A
      then then_do (K 0 0 temp 1 s) (\<lambda>_ s1. gets_loop K (temp + 1) s1)
      else Some (Ran (), s))"

definition gets :: "('a dirfs_scheme) calls \<Rightarrow> u64 \<Rightarrow> 'a dirfs_scheme \<Rightarrow> (u64 ran \<times> 'a dirfs_scheme) option" where
  "gets K p s = then_do (gets_loop K p (s\<lparr>bytes := (bytes s)(p := CHR 0x00)\<rparr>)) (\<lambda>_ s1. Some (Ran p, s1))"

definition getchar :: "('a dirfs_scheme) calls \<Rightarrow> u64 \<Rightarrow> 'a dirfs_scheme \<Rightarrow> (char ran \<times> 'a dirfs_scheme) option" where
  "getchar K c s = then_do (K 0 0 c 1 s) (\<lambda>_ s1. Some (Ran (bytes s1 c), s1))"

section \<open>Printing\<close>

text \<open>The kernel has printed \<open>l\<close>; otherwise only the saved registers, the mutex and bytes of the memory have changed.\<close>

definition console_only :: "'a dirfs_scheme \<Rightarrow> (string \<times> karg list) list \<Rightarrow> 'a dirfs_scheme \<Rightarrow> bool" where
  "console_only s l s' \<longleftrightarrow> (\<exists>u m b. s' = s\<lparr>klog := klog s @ l, userRegs := u, mutex := m, bytes := b\<rparr>)"

lemma console_only_refl [simp]: "console_only s [] s"
  unfolding console_only_def by (intro exI [of _ "userRegs s"] exI [of _ "mutex s"] exI [of _ "bytes s"]) simp

lemma console_only_trans: "console_only s l t \<Longrightarrow> console_only t l' u \<Longrightarrow> console_only s (l @ l') u"
  unfolding console_only_def by (elim exE, simp) blast

lemma console_only_bytes: "console_only s [] (s\<lparr>bytes := b\<rparr>)" "console_only s [] (store_int a v s)"
  unfolding console_only_def store_int_def by (intro exI [of _ "userRegs s"] exI [of _ "mutex s"] exI, simp)+

text \<open>A text of single characters.\<close>

abbreviation typed_out :: "string \<Rightarrow> (string \<times> karg list) list" where
  "typed_out cs \<equiv> map (\<lambda>c. (''%s'', [KStr [c]])) cs"

abbreviation is_ascii :: "char \<Rightarrow> bool" where
  "is_ascii c \<equiv> c \<noteq> CHR 0x00 \<and> of_char c < (128 :: nat)"

text \<open>The kernel has printed \<open>l\<close> in calls that have returned; the saved registers are those of the last, the memory is as it was.\<close>

definition printed :: "'a dirfs_scheme \<Rightarrow> (string \<times> karg list) list \<Rightarrow> 'a dirfs_scheme \<Rightarrow> bool" where
  "printed s l s' \<longleftrightarrow> (\<exists>u. s' = s\<lparr>klog := klog s @ l, userRegs := u, mutex := 0\<rparr>)"

lemma printed_trans: "printed s l t \<Longrightarrow> printed t l' u \<Longrightarrow> printed s (l @ l') u"
  unfolding printed_def by (elim exE, simp) blast

lemma printed_bytes: "printed s l s' \<Longrightarrow> bytes s' = bytes s"
  by (auto simp: printed_def)

lemma printed_console: "printed s l s' \<Longrightarrow> console_only s l s'"
  unfolding printed_def console_only_def by (elim exE) (intro exI [of _ "userRegs s'"] exI [of _ 0] exI [of _ "bytes s"], simp)

lemma write_call_printed:
  assumes "fd = 1 \<or> fd = 2" and "cstr (bytes s) buf = Some str"
  shows "\<exists>s'. kernel_call stk stk2 cpu r11 rsp 4 (scast (fd :: i32)) buf n s = Some (Ran (scast (ucast n :: i32)), s') \<and>
    printed s [(''%s'', [KStr str])] s'"
proof -
  have fd: "(ucast (scast fd :: u64) :: i32) = fd" using assms(1) by auto
  have w: "syscallHandler stk stk2 a buf n 4 t = returning id (writeFile (ucast a) buf (ucast n) (t\<lparr>mutex := 1\<rparr>))" for a and t :: "'a dirfs_scheme"
    by (simp add: syscallHandler_def)
  define u where "u = (userRegs s)\<lparr>userRsp := rsp, rip := rcx cpu, rax := 4, rbx := rbx cpu, rcx := rcx cpu, rdx := n, rsi := buf, rdi := scast fd,
    rbp := rbp cpu, rflags := r11\<rparr>"
  have "writeFile fd buf (ucast n) (s\<lparr>userRegs := u, mutex := 1\<rparr>) = Some (scast (ucast n :: i32), s\<lparr>userRegs := u, mutex := 1, klog := klog s @ [(''%s'', [KStr str])]\<rparr>)"
    using assms by (simp add: writeFile_def kprintf_def)
  then have "kernel_call stk stk2 cpu r11 rsp 4 (scast fd) buf n s =
      Some (Ran (scast (ucast n :: i32)), s\<lparr>userRegs := u, mutex := 0, klog := klog s @ [(''%s'', [KStr str])]\<rparr>)"
    by (simp add: kernel_call_def syscallEntry_def w fd u_def [symmetric])
  then show ?thesis unfolding printed_def
    by (intro exI [of _ "s\<lparr>userRegs := u, mutex := 0, klog := klog s @ [(''%s'', [KStr str])]\<rparr>"] conjI exI [of _ u]) simp_all
qed

lemma write_call:
  assumes "fd = 1 \<or> fd = 2" and "cstr (bytes s) buf = Some str"
  shows "\<exists>s'. kernel_call stk stk2 cpu r11 rsp 4 (scast (fd :: i32)) buf n s = Some (Ran (scast (ucast n :: i32)), s') \<and>
    console_only s [(''%s'', [KStr str])] s' \<and> bytes s' = bytes s"
  using write_call_printed [OF assms, of stk stk2 cpu r11 rsp n] printed_console printed_bytes by blast

lemma char_int_ascii:
  assumes "is_ascii c"
  shows "char_int c = of_char c" "unat (char_int c) = of_char c"
proof -
  have "of_char c = (of_nat (of_char c) :: u8)" by (simp only: of_nat_of_char)
  then have "char_int c = scast (of_nat (of_char c) :: u8)" by (simp only: char_int_def)
  also have "\<dots> = of_int (signed_take_bit 7 (int (of_char c)))" by (simp add: signed_of_nat)
  also have "signed_take_bit 7 (int (of_char c)) = int (of_char c)"
    by (rule signed_take_bit_int_eq_self) (use assms in \<open>auto simp: of_nat_less_numeral_iff simp del: of_nat_of_char\<close>)
  finally have "char_int c = of_nat (of_char c)" by simp
  then show "char_int c = of_char c" by (simp only: of_nat_of_char)
  then have "char_int c = of_nat (of_char c)" by (simp only: of_nat_of_char)
  then show "unat (char_int c) = of_char c" using assms by (simp only: unat_of_nat) (simp add: take_bit_nat_eq_self)
qed

lemma putchar_ok:
  assumes c: "is_ascii c"
  shows "\<exists>s'. putchar (kernel_call stk stk2 cpu r11 rsp) cp (char_int c) s = Some (Ran (char_int c), s') \<and>
    console_only s (typed_out [c]) s' \<and> bytes s' = store_str cp [c, CHR 0x00, CHR 0x00, CHR 0x00] (bytes s)"
proof -
  let ?b = "store_str cp [c, CHR 0x00, CHR 0x00, CHR 0x00] (bytes s)"
  have d: "drop_bit (8 * i) (char_int c) = 0" if "1 \<le> i" for i
  proof -
    have "unat (drop_bit (8 * i) (char_int c)) = of_char c div 2 ^ (8 * i)"
      by (simp add: unat_drop_bit_eq char_int_ascii(2) [OF c]) (simp add: drop_bit_eq_div)
    moreover have "(128 :: nat) \<le> 2 ^ (8 * i)" using power_increasing [of 7 "8 * i" "2 :: nat"] that by simp
    ultimately show ?thesis using c by (simp add: unat_eq_zero [symmetric])
  qed
  have z: "char_of (0 :: nat) = CHR 0x00" by (simp add: char_of_def)
  have "map (\<lambda>i. char_of (unat (drop_bit (8 * i) (char_int c)))) [0..<4] = [c, CHR 0x00, CHR 0x00, CHR 0x00]"
    using d [of 1] d [of 2] d [of 3] char_int_ascii(2) [OF c] by (simp add: upt_rec z)
  then have st: "bytes (store_int cp (char_int c) s) = ?b" by (simp add: store_int_def)
  have n: "cp + 1 \<noteq> cp" "cp + 2 \<noteq> cp" "cp + 3 \<noteq> cp" by simp_all
  then have "cstr ?b cp = Some [c]" using c by (simp add: cstr.simps)
  then have "cstr (bytes (store_int cp (char_int c) s)) cp = Some [c]" unfolding st .
  with write_call [where fd = 1 and n = 1 and s = "store_int cp (char_int c) s" and stk = stk and ?stk2.0 = stk2 and cpu = cpu and ?r11.0 = r11 and rsp = rsp] st
  obtain s' where s': "kernel_call stk stk2 cpu r11 rsp 4 1 cp 1 (store_int cp (char_int c) s) = Some (Ran 1, s')"
    "console_only (store_int cp (char_int c) s) (typed_out [c]) s'" "bytes s' = ?b" by auto
  have "le 4 ?b cp = of_char c" using n by (simp add: numeral_eq_Suc)
  also have "\<dots> = (of_nat (of_char c) :: u64)" by (simp only: of_nat_of_char)
  finally have "(ucast (le 4 ?b cp) :: i32) = of_nat (take_bit LENGTH(64) (of_char c))" by (simp only: unsigned_of_nat)
  also have "take_bit LENGTH(64) (of_char c) = (of_char c :: nat)" by (rule take_bit_nat_eq_self) (use c in simp)
  finally have "(ucast (le 4 ?b cp) :: i32) = char_int c" using char_int_ascii(1) [OF c] by (simp only: of_nat_of_char)
  then show ?thesis using s' console_only_trans [OF console_only_bytes(2) s'(2)] by (simp add: putchar_def)
qed

text \<open>\<open>puts\<close> prints its text: for a NUL-terminated text of ASCII characters that does not overlap the variable through which \<open>putchar\<close> passes
  a character, the kernel prints exactly its characters, one by one and in order, and \<open>puts\<close> returns 0; nothing else of the kernel changes.\<close>

theorem puts_prints:
  fixes s :: "'a dirfs_scheme"
  assumes "holds (bytes s) p (str @ [CHR 0x00])" and "\<forall>c \<in> set str. is_ascii c"
    and "\<And>i j. i \<le> length str \<Longrightarrow> j < 4 \<Longrightarrow> p + of_nat i \<noteq> cp + of_nat j"
  shows "\<exists>s'. puts (kernel_call stk stk2 cpu r11 rsp) cp p s = Some (Ran 0, s') \<and> console_only s (typed_out str) s'"
  using assms
proof (induction str arbitrary: p s)
  case Nil
  then show ?case by (subst puts.simps) simp
next
  case (Cons c str)
  let ?K = "kernel_call stk stk2 cpu r11 rsp"
  from Cons.prems(2) have c: "is_ascii c" by simp
  obtain s1 where s1: "putchar ?K cp (char_int c) s = Some (Ran (char_int c), s1)" "console_only s (typed_out [c]) s1"
    "bytes s1 = store_str cp [c, CHR 0x00, CHR 0x00, CHR 0x00] (bytes s)"
    using putchar_ok [OF c] by blast
  have far: "bytes s1 (p + of_nat i) = bytes s (p + of_nat i)" if "i \<le> Suc (length str)" for i
    unfolding s1(3) by (rule store_str_other) (use Cons.prems(3) [of i] that in simp)
  have p: "bytes s p = c" "bytes s1 p = c" using Cons.prems(1) far [of 0] by simp_all
  have "holds (bytes s1) (p + 1) (str @ [CHR 0x00])"
    by (rule holds_cong [where m = "bytes s"]) (use Cons.prems(1) far [of "Suc _"] in \<open>auto simp: add_ac\<close>)
  moreover have "p + 1 + of_nat i \<noteq> cp + of_nat j" if "i \<le> length str" "j < 4" for i j
    using Cons.prems(3) [of "Suc i" j] that by (simp add: add_ac)
  ultimately obtain s' where s': "puts ?K cp (p + 1) s1 = Some (Ran 0, s')" "console_only s1 (typed_out str) s'"
    using Cons.IH [of s1 "p + 1"] Cons.prems(2) by auto
  have "puts ?K cp p s = Some (Ran 0, s')" using s1(1) s'(1) p c by (subst puts.simps) simp
  moreover have "console_only s (typed_out (c # str)) s'" using console_only_trans [OF s1(2) s'(2)] by simp
  ultimately show ?case by blast
qed

section \<open>Reading\<close>

text \<open>\<open>gets\<close> stores a NUL and then finds that there is nothing to read.\<close>

lemma gets_reads_nothing: "gets K p s = Some (Ran p, s\<lparr>bytes := (bytes s)(p := CHR 0x00)\<rparr>)"
  by (simp add: gets_def gets_loop.simps)

lemma terminal_cong: "kbd_state s = kbd_state t \<Longrightarrow> terminal s = terminal t"
  by (intro ext) (simp add: terminal_def)

lemma getchar_step:
  fixes s :: "'a dirfs_scheme"
  assumes "\<And>t :: 'a dirfs_scheme. kbd_state t = kbd_state s \<Longrightarrow> \<exists>t'. readChar t = (c, t') \<and> terminal t' n xs"
  shows "\<exists>s'. getchar (kernel_call stk stk2 cpu r11 rsp) cp s = Some (Ran (if c = CHR 0x0A then CHR 0x00 else c), s') \<and> terminal s' n xs"
proof -
  have w: "syscallHandler stk stk2 a buf n 0 t = returning id (readFile (ucast a) buf (ucast n) (t\<lparr>mutex := 1\<rparr>))" for a buf n and t :: "'a dirfs_scheme"
    by (simp add: syscallHandler_def)
  define u where "u = (userRegs s)\<lparr>userRsp := rsp, rip := rcx cpu, rax := 0, rbx := rbx cpu, rcx := rcx cpu, rdx := 1, rsi := cp, rdi := 0,
    rbp := rbp cpu, rflags := r11\<rparr>"
  define s1 where "s1 = s\<lparr>userRegs := u, mutex := 1, bytes := (bytes s)(cp := CHR ''0'')\<rparr>"
  have "kbd_state s1 = kbd_state s" by (simp add: s1_def)
  from assms [OF this] obtain t where t: "readChar s1 = (c, t)" "terminal t n xs" by blast
  let ?str = "if c = CHR 0x00 \<or> c = CHR 0x0A then [CHR 0x00] else [c]"
  have "read_stdin 1 s1 = (?str, t)" using t(1) by (simp add: read_stdin_def)
  then have "readFile 0 cp 1 (s\<lparr>userRegs := u, mutex := 1\<rparr>) = Some (0, t\<lparr>bytes := store_str cp ?str (bytes t)\<rparr>)"
    by (simp add: readFile_def s1_def)
  then have "kernel_call stk stk2 cpu r11 rsp 0 0 cp 1 s = Some (Ran 0, t\<lparr>bytes := store_str cp ?str (bytes t), mutex := 0\<rparr>)"
    by (simp add: kernel_call_def syscallEntry_def w u_def [symmetric])
  moreover have "terminal (t\<lparr>bytes := store_str cp ?str (bytes t), mutex := 0\<rparr>) n xs"
    using t(2) terminal_cong [of t "t\<lparr>bytes := store_str cp ?str (bytes t), mutex := 0\<rparr>"] by simp
  ultimately show ?thesis by (auto simp: getchar_def)
qed

text \<open>What the shell sees of the input: the next character of a line that is complete, a NUL for its end, and NUL while there is no line.\<close>

lemma getchar_line:
  fixes s :: "'a dirfs_scheme"
  assumes "terminal s n (c # xs)" and "CHR 0x0A \<in> set (c # xs)"
  shows "\<exists>s'. getchar (kernel_call stk stk2 cpu r11 rsp) cp s = Some (Ran (if c = CHR 0x0A then CHR 0x00 else c), s') \<and> terminal s' n xs"
  by (rule getchar_step) (use assms terminal_cong in \<open>metis tty.get_view\<close>)

lemma getchar_idle:
  fixes s :: "'a dirfs_scheme"
  assumes "terminal s n []"
  shows "\<exists>s'. getchar (kernel_call stk stk2 cpu r11 rsp) cp s = Some (Ran CHR 0x00, s') \<and> terminal s' n []"
proof -
  have "\<exists>t'. readChar t = (CHR 0x00, t') \<and> terminal t' n []" if "kbd_state t = kbd_state s" for t :: "'a dirfs_scheme"
    using assms terminal_cong [OF that] tty.get_incomplete [of t n "[]"] by auto
  from getchar_step [OF this] show ?thesis by fastforce
qed

lemma le_8: "le 8 m a = of_char (m a) + 256 * (of_char (m (a + 1)) + 256 * (of_char (m (a + 2)) + 256 * (of_char (m (a + 3)) +
  256 * (of_char (m (a + 4)) + 256 * (of_char (m (a + 5)) + 256 * (of_char (m (a + 6)) + 256 * of_char (m (a + 7))))))))"
proof -
  have "8 = Suc (Suc (Suc (Suc (Suc (Suc (Suc (Suc 0)))))))" by simp
  then show ?thesis by (simp only: le.simps) (simp add: add.assoc)
qed

definition text_memory :: "u64 \<Rightarrow> char" where
  "text_memory a = (if a = 0x7009 then CHR 0x80 else if a = 0x8000 then CHR ''h'' else if a = 0x8001 then CHR ''i''
     else if a = 0x8100 then CHR '' '' else if a = 0x8200 then CHR 0x0A else CHR 0x00)"

theorem puts_prints_witness:
  "\<exists>s'. puts (kernel_call (\<lambda>_. CHR 0x00) (\<lambda>_. CHR 0x00) undefined 0 0) 0x9000 0x8000 (tiny_dirs\<lparr>bytes := text_memory\<rparr>) = Some (Ran 0, s') \<and>
     console_only (tiny_dirs\<lparr>bytes := text_memory\<rparr>) (typed_out ''hi'') s'"
proof -
  have far: "(0x8000 :: u64) + of_nat i \<noteq> 0x9000 + of_nat j" if "i \<le> length ''hi''" "j < 4" for i j :: nat
  proof -
    have "i < 3" using that by simp
    then have "i = 0 \<or> i = 1 \<or> i = 2" "j = 0 \<or> j = 1 \<or> j = 2 \<or> j = 3" using that(2) by linarith+
    then show ?thesis by auto
  qed
  have "holds text_memory 0x8000 (''hi'' @ [CHR 0x00])" by (simp add: text_memory_def)
  with far puts_prints [of "tiny_dirs\<lparr>bytes := text_memory\<rparr>" "0x8000" "''hi''" "0x9000"] show ?thesis by simp
qed

end
