(* ===== verification/Programs.thy ===== *)
theory Programs
  imports Libc
begin

text \<open>
  The small programs of \<open>bin/\<close>: \<open>echo\<close>, \<open>cat\<close>, \<open>kill\<close>, \<open>sleep\<close>, \<open>ps\<close> and \<open>ls\<close>. \<open>K\<close> is the kernel as the program sees it, \<open>argv\<close> the
  address of the array of its arguments, \<open>lit\<close> gives the addresses at which the compiler has put the texts of the program.
\<close>

type_synonym 'a main = "('a dirfs_scheme) calls \<Rightarrow> (string \<Rightarrow> u64) \<Rightarrow> i32 \<Rightarrow> u64 \<Rightarrow> 'a dirfs_scheme \<Rightarrow> (i32 ran \<times> 'a dirfs_scheme) option"

abbreviation argument :: "'a dirfs_scheme \<Rightarrow> u64 \<Rightarrow> nat \<Rightarrow> u64" where
  "argument s argv i \<equiv> le 8 (bytes s) (argv + 8 * of_nat i)"

section \<open>\<open>echo\<close>\<close>

partial_function (option) echo_loop ::
    "('a dirfs_scheme) calls \<Rightarrow> (string \<Rightarrow> u64) \<Rightarrow> u64 \<Rightarrow> nat \<Rightarrow> 'a dirfs_scheme \<Rightarrow> (unit ran \<times> 'a dirfs_scheme) option" where
  "echo_loop K lit argv i s =
     (if argument s argv i = 0 then Some (Ran (), s)
      else then_do (u_write K 1 (argument s argv i) 512 s) (\<lambda>_ s1.
        then_do (u_write K 1 (lit '' '') 512 s1) (\<lambda>_ s2. echo_loop K lit argv (Suc i) s2)))"

definition echo_main :: "'a main" where
  "echo_main K lit argc argv s =
     (if argc = 1 then Some (Ran 0, s)
      else then_do (if 1 < sint argc then echo_loop K lit argv 1 s else Some (Ran (), s)) (\<lambda>_ s1.
        then_do (u_write K 1 (lit ''\<newline>'') 1 s1) (\<lambda>_ s2. Some (Ran 0, s2))))"

section \<open>\<open>cat\<close>\<close>

partial_function (option) cat_loop :: "'s calls \<Rightarrow> i32 \<Rightarrow> 's \<Rightarrow> (unit ran \<times> 's) option" where
  "cat_loop K fd s =
     then_do (u_malloc K 4096 s) (\<lambda>buf s1.
     then_do (u_read K fd buf 4096 s1) (\<lambda>r s2.
       let l_cou = ucast r :: i32 in
       then_do (u_write K 1 buf (scast l_cou) s2) (\<lambda>_ s3.
         if l_cou = 0 then Some (Ran (), s3) else cat_loop K fd s3)))"

definition cat_main :: "'a main" where
  "cat_main K lit argc argv s =
     (if sint argc < 2 then Some (Ran 0, s)
      else then_do (u_open K (argument s argv 1) 0 s) (\<lambda>fd s1.
        if fd = - 1
        then then_do (u_write K 1 (lit ''cat: '') 10 s1) (\<lambda>_ s2.
          then_do (u_write K 1 (argument s2 argv 1) 256 s2) (\<lambda>_ s3.
            then_do (u_write K 1 (lit '' File Not Found\<newline>'') 10 s3) (\<lambda>_ s4. Some (Ran 0, s4))))
        else then_do (cat_loop K fd s1) (\<lambda>_ s2.
          then_do (u_write K 1 (lit ''\<newline>'') 1 s2) (\<lambda>_ s3.
            then_do (u_close K fd s3) (\<lambda>_ s4. Some (Ran 0, s4))))))"

section \<open>\<open>kill\<close>, \<open>sleep\<close> and \<open>ps\<close>\<close>

text \<open>Both programs have this function; it does not check that the characters are digits.\<close>

fun to_number :: "u64 \<Rightarrow> string \<Rightarrow> u64" where
  "to_number num [] = num"
| "to_number num (c # cs) = to_number (num * 10 + scast (char_int c - char_int (CHR ''0''))) cs"

definition toInteger_prog :: "string \<Rightarrow> u64" where
  "toInteger_prog str = to_number 0 str"

text \<open>A program started with exactly one argument uses that; with more, \<open>kill\<close> uses the second (it is called as \<open>kill -9 pid\<close>).\<close>

definition kill_main :: "'a main" where
  "kill_main K lit argc argv s =
     then_do (if 3 \<le> sint argc
              then Option.bind (cstr (bytes s) (argument s argv 2)) (\<lambda>n. cast_result (\<lambda>_. ()) (K 199 (toInteger_prog n) 0 3 s))
              else Some (Ran (), s)) (\<lambda>_ s1.
     then_do (if argc = 2
              then Option.bind (cstr (bytes s1) (argument s1 argv 1)) (\<lambda>n. cast_result (\<lambda>_. ()) (K 199 (toInteger_prog n) 0 3 s1))
              else Some (Ran (), s1)) (\<lambda>_ s2. Some (Ran 0, s2)))"

definition sleep_main :: "'a main" where
  "sleep_main K lit argc argv s =
     (if argc = 1 then Some (Ran 0, s)
      else Option.bind (if 1 < sint argc then map_option toInteger_prog (cstr (bytes s) (argument s argv 1)) else Some 0) (\<lambda>sleep_seconds.
        then_do (K 50 sleep_seconds 0 0 s) (\<lambda>_ s1. then_do (sleep_loop K s1) (\<lambda>_ s2. Some (Ran 0, s2)))))"

definition ps_main :: "'a main" where
  "ps_main K lit argc argv s = then_do (K 44 0 0 0 s) (\<lambda>_ s1. Some (Ran 0, s1))"

section \<open>\<open>ls\<close>\<close>

text \<open>
  The entries are in the typed store \<open>dirents\<close>; before an entry's name is passed to the kernel, the characters of the array are put
  where the kernel reads text, at the place of the field in the structure.
\<close>

definition name_text :: "u64 \<Rightarrow> 'a dirfs_scheme \<Rightarrow> 'a dirfs_scheme" where
  "name_text a s = s\<lparr>bytes := (\<lambda>x. if unat (x - (a + 18)) < 256 then d_name (dirents s a) (unat (x - (a + 18))) else bytes s x)\<rparr>"

partial_function (option) ls_loop ::
    "('a dirfs_scheme) calls \<Rightarrow> (string \<Rightarrow> u64) \<Rightarrow> u64 \<Rightarrow> i32 \<Rightarrow> i32 \<Rightarrow> 'a dirfs_scheme \<Rightarrow> (unit ran \<times> 'a dirfs_scheme) option" where
  "ls_loop K lit dirp i n s =
     (if sint n \<le> sint i then Some (Ran (), s)
      else let temp = dirp + scast i; name = d_name (dirents s temp) in
        if name 0 = CHR ''.'' then ls_loop K lit dirp (i + ucast (d_reclen (dirents s temp))) n s
        else Option.bind (array_string name) (\<lambda>str.
          then_do (u_write K 1 (temp + 18) (of_nat (length str)) (name_text temp s)) (\<lambda>_ s1.
          then_do (u_write K 1 (lit ''  '') 1 s1) (\<lambda>_ s2.
            ls_loop K lit dirp (i + ucast (d_reclen (dirents s2 temp))) n s2))))"

definition ls_main :: "'a main" where
  "ls_main K lit argc argv s =
     then_do (if argc = 1
              then then_do (u_malloc K 4096 s) (\<lambda>p s1. then_do (u_getcwd K p 1024 s1) (\<lambda>_ s2. Some (Ran p, s2)))
              else Some (Ran (argument s argv 1), s)) (\<lambda>file_path s1.
     then_do (u_malloc K 4096 s1) (\<lambda>dirp s2.
     then_do (u_open K file_path 0x10000 s2) (\<lambda>fd s3.
       if fd = - 1 then Some (Ran 0, s3)
       else then_do (u_getdents K fd dirp 4096 s3) (\<lambda>n s4.
         then_do (ls_loop K lit dirp 0 n s4) (\<lambda>_ s5.
         then_do (u_write K 1 (lit ''\<newline>'') 1 s5) (\<lambda>_ s6.
         then_do (u_close K fd s6) (\<lambda>_ s7. Some (Ran 0, s7))))))))"

text \<open>On decimal digits, \<open>toInteger\<close> of \<open>kill\<close> and \<open>sleep\<close> is the number they denote, modulo \<open>2 ^ 64\<close>.\<close>

lemma toInteger_prog_digits:
  assumes "\<forall>d \<in> set ds. d < (10 :: nat)"
  shows "toInteger_prog (map (\<lambda>d. char_of (48 + d)) ds) = of_nat (foldl (\<lambda>n d. 10 * n + d) 0 ds)"
proof -
  have d: "(scast (char_int (char_of (48 + d)) - char_int CHR ''0'') :: u64) = of_nat d" if "d < 10" for d :: nat
  proof -
    have c: "of_char (char_of (48 + d) :: char) = (48 + d :: nat)" using that by simp
    moreover have "(char_of (48 + d) :: char) \<noteq> CHR 0x00"
    proof
      assume "(char_of (48 + d) :: char) = CHR 0x00"
      then have "(of_char (char_of (48 + d) :: char) :: nat) = of_char CHR 0x00" by (rule arg_cong)
      with c show False by simp
    qed
    ultimately have "is_ascii (char_of (48 + d))" using that by simp
    then have "char_int (char_of (48 + d)) = of_nat (48 + d)" using char_int_ascii(1) c by (metis of_nat_of_char)
    moreover have "char_int CHR ''0'' = 48" using char_int_ascii(1) [of "CHR ''0''"] by simp
    ultimately have "char_int (char_of (48 + d)) - char_int CHR ''0'' = of_nat d" by simp
    moreover have "(scast (of_nat d :: i32) :: u64) = of_nat d"
    proof -
      have "signed_take_bit 31 (int d) = int d" by (rule signed_take_bit_int_eq_self) (use that in auto)
      then show ?thesis by (simp add: signed_of_nat)
    qed
    ultimately show ?thesis by simp
  qed
  have "to_number (of_nat n) (map (\<lambda>d. char_of (48 + d)) ds) = of_nat (foldl (\<lambda>n d. 10 * n + d) n ds)" for n
    using assms
  proof (induction ds arbitrary: n)
    case (Cons x ds)
    then have "of_nat n * 10 + scast (char_int (char_of (48 + x)) - char_int CHR ''0'') = (of_nat (10 * n + x) :: u64)"
      using d [of x] by (simp add: mult.commute)
    with Cons.IH [of "10 * n + x"] Cons.prems show ?case by (simp add: mult.commute)
  qed simp
  from this [of 0] show ?thesis by (simp add: toInteger_prog_def)
qed

section \<open>Properties\<close>

text \<open>C36: \<open>echo\<close> prints its arguments: started with a NULL-terminated array of arguments behind the name of the program, it prints each of
  them in full, whatever its length, with a space behind it, then a new line, and ends with 0; without an argument it ends with 0 at once.
  Apart from the registers and the mutex that every system call sets, nothing else of the kernel and of the memory changes.\<close>

theorem echo_prints:
  fixes s :: "'a dirfs_scheme"
  assumes "str_array (bytes s) (argv + 8) = Some args" and "sint argc = 1 + int (length args)"
    and "cstr (bytes s) (lit '' '') = Some '' ''" and "cstr (bytes s) (lit ''\<newline>'') = Some ''\<newline>''"
  shows "\<exists>s'. echo_main (kernel_call stk stk2 cpu r11 rsp) lit argc argv s = Some (Ran 0, s') \<and>
    (if args = [] then s' = s
     else printed s (concat (map (\<lambda>a. [(''%s'', [KStr a]), (''%s'', [KStr '' ''])]) args) @ [(''%s'', [KStr ''\<newline>''])]) s')"
proof (cases "args = []")
  case True
  then have "argc = 1" using assms(2) by (intro signed_word_eqI) simp
  with True show ?thesis by (simp add: echo_main_def)
next
  case False
  let ?K = "kernel_call stk stk2 cpu r11 rsp"
  let ?out = "\<lambda>xs. concat (map (\<lambda>a. [(''%s'', [KStr a]), (''%s'', [KStr '' ''])]) xs)"
  have w: "\<exists>s'. u_write ?K 1 p n t = Some (Ran (scast (ucast n :: i32)), s') \<and> printed t [(''%s'', [KStr x])] s'"
    if "cstr (bytes t) p = Some x" for p n x and t :: "'a dirfs_scheme"
    using write_call_printed [of 1 t p x] that by (simp add: u_write_def)
  have loop: "\<exists>s'. echo_loop ?K lit argv i t = Some (Ran (), s') \<and> (if xs = [] then s' = t else printed t (?out xs) s')"
    if "str_array (bytes t) (argv + 8 * of_nat i) = Some xs" "cstr (bytes t) (lit '' '') = Some '' ''" for xs i and t :: "'a dirfs_scheme"
    using that
  proof (induction xs arbitrary: i t)
    case Nil
    note e = str_array.simps [of "bytes t" "argv + 8 * of_nat i"]
    have "argument t argv i = 0" using Nil(1) unfolding e by (auto simp: bind_eq_Some_conv split: if_splits)
    then show ?case by (subst echo_loop.simps) simp
  next
    case (Cons x xs)
    note e = str_array.simps [of "bytes t" "argv + 8 * of_nat i"]
    have x: "argument t argv i \<noteq> 0" "cstr (bytes t) (argument t argv i) = Some x"
      "str_array (bytes t) (argv + 8 * of_nat (Suc i)) = Some xs"
      using Cons.prems(1) unfolding e by (auto simp: bind_eq_Some_conv add_ac split: if_splits)
    obtain t1 where t1: "u_write ?K 1 (argument t argv i) 512 t = Some (Ran 512, t1)" "printed t [(''%s'', [KStr x])] t1"
      using w [OF x(2), of 512] by auto
    have "cstr (bytes t1) (lit '' '') = Some '' ''" using Cons.prems(2) printed_bytes [OF t1(2)] by simp
    from w [OF this, of 512] obtain t2 where t2: "u_write ?K 1 (lit '' '') 512 t1 = Some (Ran 512, t2)" "printed t1 [(''%s'', [KStr '' ''])] t2" by auto
    have b: "bytes t2 = bytes t" using printed_bytes [OF t1(2)] printed_bytes [OF t2(2)] by simp
    obtain s' where s': "echo_loop ?K lit argv (Suc i) t2 = Some (Ran (), s')" "if xs = [] then s' = t2 else printed t2 (?out xs) s'"
      using Cons.IH [of t2 "Suc i"] x(3) Cons.prems(2) b by auto
    have "echo_loop ?K lit argv i t = Some (Ran (), s')" using x(1) t1(1) t2(1) s'(1) by (subst echo_loop.simps) simp
    moreover have "printed t (?out (x # xs)) s'"
      using printed_trans [OF t1(2) t2(2)] printed_trans [OF t1(2) printed_trans [OF t2(2)], of "?out xs" s'] s'(2)
      by (cases "xs = []") simp_all
    ultimately show ?case by (intro exI [of _ s']) simp
  qed
  obtain s1 where s1: "echo_loop ?K lit argv 1 s = Some (Ran (), s1)" "printed s (?out args) s1"
    using loop [of s 1 args] assms(1,3) False by auto
  obtain s2 where s2: "u_write ?K 1 (lit ''\<newline>'') 1 s1 = Some (Ran 1, s2)" "printed s1 [(''%s'', [KStr ''\<newline>''])] s2"
    using w [of s1 "lit ''\<newline>''" "''\<newline>''" 1] assms(4) printed_bytes [OF s1(2)] by auto
  have "1 < sint argc" "argc \<noteq> 1" using assms(2) False by auto
  then have "echo_main ?K lit argc argv s = Some (Ran 0, s2)" using s1(1) s2(1) by (simp add: echo_main_def)
  then show ?thesis using False printed_trans [OF s1(2) s2(2)] by auto
qed

theorem echo_prints_witness:
  "\<exists>s'. echo_main (kernel_call (\<lambda>_. CHR 0x00) (\<lambda>_. CHR 0x00) undefined 0 0) (\<lambda>x. if x = '' '' then 0x8100 else 0x8200) 2 0x7000
     (tiny_dirs\<lparr>bytes := text_memory\<rparr>) = Some (Ran 0, s') \<and>
   printed (tiny_dirs\<lparr>bytes := text_memory\<rparr>) [(''%s'', [KStr ''hi'']), (''%s'', [KStr '' '']), (''%s'', [KStr ''\<newline>''])] s'"
proof -
  have t: "cstr text_memory 0x8000 = Some ''hi''" "cstr text_memory 0x8100 = Some '' ''" "cstr text_memory 0x8200 = Some ''\<newline>''"
    by (rule cstr_holds; simp add: text_memory_def)+
  have a: "le 8 text_memory 0x7008 = 0x8000" "le 8 text_memory 0x7010 = 0" by (simp_all add: le_8 text_memory_def)
  have "str_array text_memory 0x7010 = Some []" by (subst str_array.simps) (simp add: a)
  then have "str_array text_memory 0x7008 = Some [''hi'']" by (subst str_array.simps) (simp add: a t)
  with t echo_prints [of "tiny_dirs\<lparr>bytes := text_memory\<rparr>" "0x7000" "[''hi'']" 2 "\<lambda>x. if x = '' '' then 0x8100 else 0x8200"]
  show ?thesis by simp
qed

end
