(* ===== verification/Sbush.thy ===== *)
theory Sbush
  imports Libc
begin

text \<open>
  The shell (\<open>bin/sbush/sbush.c\<close>): reading a line, cutting it into words, the commands \<open>cd\<close>, \<open>exit\<close> and \<open>export\<close>, and running a program
  in a child. The text of a command and the words cut from it are strings; \<open>place\<close> stands for the copies in memory that \<open>token\<close> and
  \<open>parse_command\<close> make of them, and gives the address of the array. What works on that array reads the memory of the program.
\<close>

section \<open>Strings\<close>

fun sb_strcmp :: "string \<Rightarrow> string \<Rightarrow> i32" where
  "sb_strcmp [] [] = 0"
| "sb_strcmp (x # xs) [] = char_int x - char_int (CHR 0x00)"
| "sb_strcmp [] (y # ys) = char_int (CHR 0x00) - char_int y"
| "sb_strcmp (x # xs) (y # ys) = (if x = y then sb_strcmp xs ys else char_int x - char_int y)"

section \<open>Cutting a command into words\<close>

abbreviation ARGUMENT_BUFFER :: nat where "ARGUMENT_BUFFER \<equiv> 32"

definition blank :: "char \<Rightarrow> bool" where
  "blank c \<longleftrightarrow> c = CHR '' '' \<or> c = CHR 0x09 \<or> c = CHR 0x07 \<or> c = CHR 0x0D \<or> c = CHR 0x0A"

text \<open>\<open>token\<close> copies the characters from \<open>x\<close> to \<open>y\<close>.\<close>

definition token :: "string \<Rightarrow> nat \<Rightarrow> nat \<Rightarrow> string" where
  "token command x y = map (\<lambda>k. command ! k) [x..<y + 1]"

record parse =
  p_start :: nat
  p_end :: nat
  p_args :: "string list"
  p_pipe :: bool

text \<open>One round of the loop; no value when it writes behind the array of \<open>ARGUMENT_BUFFER\<close> pointers, which is not enlarged.\<close>

definition parse_step :: "string \<Rightarrow> nat \<Rightarrow> parse \<Rightarrow> parse option" where
  "parse_step command i p =
     (if \<not> blank (command ! i) then Some (p\<lparr>p_end := i\<rparr>)
      else if p_start p > p_end p then Some (p\<lparr>p_start := p_start p + 1\<rparr>)
      else if p_end p = 0 then Some (p\<lparr>p_start := p_start p + 1\<rparr>)
      else if length (p_args p) < ARGUMENT_BUFFER
      then let w = token command (p_start p) (p_end p)
           in Some (p\<lparr>p_args := p_args p @ [w], p_pipe := p_pipe p \<or> sb_strcmp w ''|'' = 0, p_start := i + 1\<rparr>)
      else None)"

text \<open>
  The results: the array (\<^term>\<open>None\<close> is NULL), \<open>pipe_flag\<close> and \<open>background\<close>. No value when \<open>com_args\<close> is read at \<open>-1\<close>, or written
  behind its end.
\<close>

definition parse_command :: "string \<Rightarrow> bool \<Rightarrow> bool \<Rightarrow> (string list option \<times> bool \<times> bool) option" where
  "parse_command command pipe_flag background =
     (if command = [] then Some (None, pipe_flag, background)
      else
        Option.bind (fold (\<lambda>i r. Option.bind r (parse_step command i)) [0..<length command]
            (Some \<lparr>p_start = 0, p_end = 0, p_args = [], p_pipe = pipe_flag\<rparr>)) (\<lambda>p.
        Option.bind
          (if p_start p \<le> p_end p
           then if length (p_args p) < ARGUMENT_BUFFER
                then let w = token command (p_start p) (p_end p) in Some (p_args p @ [w], p_pipe p \<or> sb_strcmp w ''|'' = 0)
                else None
           else if p_args p = [] then None else Some (p_args p, p_pipe p)) (\<lambda>(args, pipe).
          if sb_strcmp (last args) ''&'' = 0 then Some (Some (butlast args), pipe, True)
          else if length args < ARGUMENT_BUFFER then Some (Some args, pipe, background)
          else None)))"

section \<open>Reading\<close>

text \<open>The characters read so far are \<open>cs\<close>; \<open>c\<close> is the address of the variable of \<open>getchar\<close>. The buffer has 2000 bytes, inside a page.\<close>

partial_function (option) read_command_loop ::
    "('a dirfs_scheme) calls \<Rightarrow> u64 \<Rightarrow> string \<Rightarrow> 'a dirfs_scheme \<Rightarrow> (string ran \<times> 'a dirfs_scheme) option" where
  "read_command_loop K cp cs s =
     then_do (getchar K cp s) (\<lambda>c s1.
       if c = CHR 0x00 \<and> cs \<noteq> [] then Some (Ran cs, s1)
       else if c = CHR '' '' \<and> cs = [] then read_command_loop K cp cs s1
       else if length cs > 2000 then Some (Ran cs, s1)
       else if c \<noteq> CHR 0x00 then read_command_loop K cp (cs @ [c]) s1
       else read_command_loop K cp cs s1)"

text \<open>The results are the buffer and the text in it.\<close>

definition read_command :: "('a dirfs_scheme) calls \<Rightarrow> u64 \<Rightarrow> 'a dirfs_scheme \<Rightarrow> ((u64 \<times> string) ran \<times> 'a dirfs_scheme) option" where
  "read_command K cp s =
     then_do (u_malloc K 2000 s) (\<lambda>inputStr s1. then_do (read_command_loop K cp [] s1) (\<lambda>cs s2. Some (Ran (inputStr, cs), s2)))"

text \<open>A line of a script, read from a descriptor; \<^term>\<open>None\<close> is NULL, the end of the file. The buffer \<open>d\<close> has 64 bytes.\<close>

partial_function (option) read_line_loop ::
    "('a dirfs_scheme) calls \<Rightarrow> i32 \<Rightarrow> u64 \<Rightarrow> string \<Rightarrow> 'a dirfs_scheme \<Rightarrow> (string option ran \<times> 'a dirfs_scheme) option" where
  "read_line_loop K fd c d s =
     then_do (u_read K fd c 1 s) (\<lambda>r s1.
       let rc = ucast r :: i32; ch = bytes s1 c in
       if rc = - 1 then then_do (u_exit K (- 1) s1) (\<lambda>_ s2. read_line_loop K fd c d s2)
       else if 0 < sint rc
       then (if ch \<noteq> CHR 0x0A then read_line_loop K fd c (d @ [ch]) s1 else Some (Ran (Some d), s1))
       else if rc = 0 then Some (Ran (if d = [] then None else Some d), s1)
       else read_line_loop K fd c d s1)"

definition sb_read_line :: "('a dirfs_scheme) calls \<Rightarrow> i32 \<Rightarrow> 'a dirfs_scheme \<Rightarrow> (string option ran \<times> 'a dirfs_scheme) option" where
  "sb_read_line K fd s =
     then_do (u_malloc K 64 s) (\<lambda>d s1. then_do (u_malloc K 1 s1) (\<lambda>c s2. read_line_loop K fd c [] s2))"

section \<open>Running a command\<close>

abbreviation com_arg :: "'a dirfs_scheme \<Rightarrow> u64 \<Rightarrow> nat \<Rightarrow> u64" where
  "com_arg s com_args i \<equiv> le 8 (bytes s) (com_args + 8 * of_nat i)"

text \<open>\<open>lit\<close> gives the addresses of the texts of the program, \<open>cp\<close> that of the variable of \<open>putchar\<close>.\<close>

definition change_directory ::
    "('a dirfs_scheme) calls \<Rightarrow> (string \<Rightarrow> u64) \<Rightarrow> u64 \<Rightarrow> u64 \<Rightarrow> 'a dirfs_scheme \<Rightarrow> (i32 ran \<times> 'a dirfs_scheme) option" where
  "change_directory K lit cp com_args s =
     (if com_arg s com_args 1 = 0
      then then_do (puts K cp (lit ''Error: expected argument to \"cd\"\<newline>'') s) (\<lambda>_ s1. Some (Ran (- 1), s1))
      else then_do (u_chdir K (com_arg s com_args 1) s) (\<lambda>r s1. Some (Ran (if r \<noteq> 0 then - 1 else 1), s1)))"

text \<open>\<open>WIFEXITED\<close>, and the local variable \<open>com_status\<close> at \<open>sp\<close>.\<close>

definition WIFEXITED :: "i32 \<Rightarrow> bool" where
  "WIFEXITED status \<longleftrightarrow> status AND 0x7F = 0"

abbreviation com_status :: "u64 \<Rightarrow> 'a dirfs_scheme \<Rightarrow> i32" where
  "com_status sp s \<equiv> ucast (le 4 (bytes s) sp)"

partial_function (option) wait_loop ::
    "('a dirfs_scheme) calls \<Rightarrow> u64 \<Rightarrow> u32 \<Rightarrow> 'a dirfs_scheme \<Rightarrow> (unit ran \<times> 'a dirfs_scheme) option" where
  "wait_loop K sp pid s =
     then_do (u_waitpid K pid sp 2 s) (\<lambda>_ s1. if \<not> WIFEXITED (com_status sp s1) then wait_loop K sp pid s1 else Some (Ran (), s1))"

text \<open>\<open>pid\<close> is unsigned: the branch for a negative one is not reached. The child runs the first branch when it is scheduled.\<close>

definition fork_execution ::
    "('a dirfs_scheme) calls \<Rightarrow> u64 \<Rightarrow> u64 \<Rightarrow> bool \<Rightarrow> u64 \<Rightarrow> 'a dirfs_scheme \<Rightarrow> (i32 ran \<times> 'a dirfs_scheme) option" where
  "fork_execution K sp com_args background envp s =
     then_do (u_fork K s) (\<lambda>pid s1.
       if pid = 0 then then_do (u_execve K (com_arg s1 com_args 0) com_args envp s1) (\<lambda>_ s2. Some (Ran (com_status sp s2), s2))
       else if background then then_do (u_waitpid K pid sp 1 s1) (\<lambda>_ s2. Some (Ran (com_status sp s2), s2))
       else then_do (wait_loop K sp pid s1) (\<lambda>_ s2. Some (Ran (com_status sp s2), s2)))"

text \<open>The value of the argument of \<open>exit\<close>, which is not used, and the number of its digits, which is: the pair \<open>(x, y)\<close>.\<close>

fun exit_code :: "i32 \<Rightarrow> i32 \<Rightarrow> string \<Rightarrow> (i32 \<times> i32) option" where
  "exit_code x y [] = Some (x, y)"
| "exit_code x y (c # cs) =
     (if 48 \<le> (of_char c :: nat) \<and> of_char c \<le> (57 :: nat) then exit_code (x * 10 + (char_int c - char_int (CHR ''0''))) (y + 1) cs else None)"

definition execute_command ::
    "('a dirfs_scheme) calls \<Rightarrow> (string \<Rightarrow> u64) \<Rightarrow> u64 \<Rightarrow> u64 \<Rightarrow> u64 \<Rightarrow> bool \<Rightarrow> u64 \<Rightarrow> 'a dirfs_scheme \<Rightarrow> (i32 ran \<times> 'a dirfs_scheme) option" where
  "execute_command K lit cp sp com_args background envp s =
     (if com_args = NULL then Some (Ran 1, s)
      else Option.bind (cstr (bytes s) (com_arg s com_args 0)) (\<lambda>name.
        if sb_strcmp name ''cd'' = 0 then change_directory K lit cp com_args s
        else if sb_strcmp name ''exit'' = 0
        then (if com_arg s com_args 1 = 0 then then_do (u_exit K 0 s) (\<lambda>_ s1. Some (Ran 0, s1))
              else Option.bind (cstr (bytes s) (com_arg s com_args 1)) (\<lambda>arg.
                case exit_code 0 0 arg of None \<Rightarrow> Some (Ran (- 1), s)
                | Some (x, y) \<Rightarrow> then_do (u_exit K y s) (\<lambda>_ s1. Some (Ran 0, s1))))
        else if sb_strcmp name ''export'' = 0
        then (if com_arg s com_args 1 = 0 then Some (Ran (- 1), s) else then_do (u_env K com_args s) (\<lambda>_ s1. Some (Ran 0, s1)))
        else fork_execution K sp com_args background envp s))"

section \<open>The main loops\<close>

type_synonym 'a placing = "string list option \<Rightarrow> 'a dirfs_scheme \<Rightarrow> u64 \<times> 'a dirfs_scheme"

text \<open>What both loops do with a line: the flags are cleared before each, and a line with a pipe is not run.\<close>

definition run_line ::
    "('a dirfs_scheme) calls \<Rightarrow> 'a placing \<Rightarrow> (string \<Rightarrow> u64) \<Rightarrow> u64 \<Rightarrow> u64 \<Rightarrow> u64 \<Rightarrow> string \<Rightarrow> 'a dirfs_scheme \<Rightarrow> (u64 ran \<times> 'a dirfs_scheme) option" where
  "run_line K place lit cp sp envp command s =
     Option.bind (parse_command command False False) (\<lambda>(args, pipe_flag, background).
     case place args s of (com_args, s1) \<Rightarrow>
     if pipe_flag then Some (Ran com_args, s1)
     else then_do (execute_command K lit cp sp com_args background envp s1) (\<lambda>_ s2. Some (Ran com_args, s2)))"

partial_function (option) script_loop ::
    "('a dirfs_scheme) calls \<Rightarrow> 'a placing \<Rightarrow> (string \<Rightarrow> u64) \<Rightarrow> u64 \<Rightarrow> u64 \<Rightarrow> u64 \<Rightarrow> i32 \<Rightarrow> 'a dirfs_scheme \<Rightarrow> (unit ran \<times> 'a dirfs_scheme) option" where
  "script_loop K place lit cp sp envp fp s =
     then_do (sb_read_line K fp s) (\<lambda>line s1.
       case line of None \<Rightarrow> Some (Ran (), s1)
       | Some command \<Rightarrow> then_do (run_line K place lit cp sp envp command s1) (\<lambda>com_args s2.
           then_do (u_free K com_args s2) (\<lambda>_ s3. script_loop K place lit cp sp envp fp s3)))"

text \<open>One round of the loop at the terminal.\<close>

definition shell_round ::
    "('a dirfs_scheme) calls \<Rightarrow> 'a placing \<Rightarrow> (string \<Rightarrow> u64) \<Rightarrow> u64 \<Rightarrow> u64 \<Rightarrow> u64 \<Rightarrow> 'a dirfs_scheme \<Rightarrow> (unit ran \<times> 'a dirfs_scheme) option" where
  "shell_round K place lit cp sp envp s =
     then_do (u_getenv K (lit ''PS1'') s) (\<lambda>ps1 s1.
     then_do (if ps1 = NULL then puts K cp (lit ''sbush>'') s1
              else then_do (puts K cp ps1 s1) (\<lambda>_ t. puts K cp (lit ''>'') t)) (\<lambda>_ s2.
     then_do (read_command K cp s2) (\<lambda>(buf, command) s3.
       if command = [] then u_free K buf s3
       else then_do (run_line K place lit cp sp envp command s3) (\<lambda>com_args s4.
         then_do (u_free K buf s4) (\<lambda>_ s5. u_free K com_args s5)))))"

partial_function (option) shell_loop ::
    "('a dirfs_scheme) calls \<Rightarrow> 'a placing \<Rightarrow> (string \<Rightarrow> u64) \<Rightarrow> u64 \<Rightarrow> u64 \<Rightarrow> u64 \<Rightarrow> 'a dirfs_scheme \<Rightarrow> (i32 ran \<times> 'a dirfs_scheme) option" where
  "shell_loop K place lit cp sp envp s =
     then_do (shell_round K place lit cp sp envp s) (\<lambda>_ s1. shell_loop K place lit cp sp envp s1)"

text \<open>The first line of a script is read and thrown away.\<close>

definition sbush_main ::
    "('a dirfs_scheme) calls \<Rightarrow> 'a placing \<Rightarrow> (string \<Rightarrow> u64) \<Rightarrow> u64 \<Rightarrow> u64 \<Rightarrow> i32 \<Rightarrow> u64 \<Rightarrow> u64 \<Rightarrow> 'a dirfs_scheme \<Rightarrow> (i32 ran \<times> 'a dirfs_scheme) option" where
  "sbush_main K place lit cp sp argc argv envp s =
     (if 2 \<le> sint argc
      then then_do (u_open K (com_arg s argv 1) 0 s) (\<lambda>fp s1.
        then_do (sb_read_line K fp s1) (\<lambda>_ s2. then_do (script_loop K place lit cp sp envp fp s2) (\<lambda>_ s3. Some (Ran 0, s3))))
      else shell_loop K place lit cp sp envp s)"

section \<open>Words\<close>

text \<open>The specification: the parts of the text between blanks, and of these the ones that are not empty.\<close>

fun pieces :: "string \<Rightarrow> string list" where
  "pieces [] = [[]]"
| "pieces (c # cs) = (if blank c then [] # pieces cs else (c # hd (pieces cs)) # tl (pieces cs))"

definition words :: "string \<Rightarrow> string list" where
  "words cs = filter (\<lambda>w. w \<noteq> []) (pieces cs)"

text \<open>The words that are complete in a prefix of the text, and the part of a word at its end.\<close>

definition whole :: "string \<Rightarrow> string list" where
  "whole cs = filter (\<lambda>w. w \<noteq> []) (butlast (pieces cs))"

definition rest_piece :: "string \<Rightarrow> string" where
  "rest_piece cs = last (pieces cs)"

lemma pieces_not_Nil [simp]: "pieces cs \<noteq> []"
  by (cases cs) auto

lemma pieces_snoc: "pieces (p @ [c]) = (if blank c then pieces p @ [[]] else butlast (pieces p) @ [last (pieces p) @ [c]])"
proof (induction p)
  case (Cons x p)
  show ?case
  proof (cases "pieces p")
    case (Cons w ws)
    with Cons.IH show ?thesis by (cases ws) auto
  qed simp
qed simp

lemma words_split: "words p = whole p @ (if rest_piece p = [] then [] else [rest_piece p])"
proof -
  have "pieces p = butlast (pieces p) @ [rest_piece p]" by (simp add: rest_piece_def)
  then have "words p = filter (\<lambda>w. w \<noteq> []) (butlast (pieces p) @ [rest_piece p])" unfolding words_def by (rule arg_cong)
  then show ?thesis by (simp add: whole_def)
qed

lemma words_snoc:
  "whole (p @ [c]) = (if blank c then words p else whole p)" "rest_piece (p @ [c]) = (if blank c then [] else rest_piece p @ [c])"
  by (simp_all add: whole_def rest_piece_def words_def pieces_snoc)

lemma words_Nil [simp]: "whole [] = []" "rest_piece [] = []" "words [] = []"
  by (simp_all add: whole_def rest_piece_def words_def)

lemma rest_piece_suffix: "\<exists>q. p = q @ rest_piece p"
proof (induction p rule: rev_induct)
  case (snoc c p)
  then obtain q where q: "p = q @ rest_piece p" by blast
  have "p @ [c] = q @ (rest_piece p @ [c])" using arg_cong [OF q, of "\<lambda>x. x @ [c]"] by simp
  then show ?case by (auto simp: words_snoc)
qed simp

lemma words_mono: "length (words p) \<le> length (words (p @ q))"
proof (induction q rule: rev_induct)
  case (snoc c q)
  have "length (words r) \<le> length (words (r @ [c]))" for r by (simp add: words_split [of "r @ [c]"] words_split [of r] words_snoc)
  from this [of "p @ q"] snoc show ?case by simp
qed simp

lemma words_chars: "w \<in> set (words p) \<Longrightarrow> set w \<subseteq> set p"
proof -
  have "w \<in> set (pieces p) \<Longrightarrow> set w \<subseteq> set p"
  proof (induction p arbitrary: w)
    case (Cons c p)
    obtain a l where "pieces p = a # l" by (cases "pieces p") auto
    with Cons show ?case by (fastforce split: if_splits)
  qed simp
  then show "w \<in> set (words p) \<Longrightarrow> set w \<subseteq> set p" by (simp add: words_def)
qed

subsection \<open>\<open>strcmp\<close>\<close>

lemma char_int_inj: "char_int x = char_int y \<longleftrightarrow> x = y"
proof -
  have "(ucast (scast w :: u32) :: u8) = w" for w :: u8 by (rule bit_word_eqI) (simp add: bit_simps)
  then have "char_int x = char_int y \<longleftrightarrow> (of_char x :: u8) = of_char y" unfolding char_int_def by metis
  moreover have u: "unat (of_char c :: u8) = of_char c" for c :: char
  proof -
    have "unat (of_nat (of_char c) :: u8) = of_char c" by (simp only: unat_of_nat) simp
    then show ?thesis by (simp only: of_nat_of_char)
  qed
  then have "(of_char x :: u8) = of_char y \<longleftrightarrow> x = y" by (metis char_of_char)
  ultimately show ?thesis by simp
qed

lemma sb_strcmp_eq: "CHR 0x00 \<notin> set a \<Longrightarrow> CHR 0x00 \<notin> set b \<Longrightarrow> sb_strcmp a b = 0 \<longleftrightarrow> a = b"
  by (induction a b rule: sb_strcmp.induct) (auto simp: char_int_inj)

subsection \<open>The loop\<close>

text \<open>What the variables of \<open>parse_command\<close> are after the prefix \<open>p\<close> of the command.\<close>

definition parsed :: "bool \<Rightarrow> string \<Rightarrow> parse \<Rightarrow> bool" where
  "parsed pf p st \<longleftrightarrow> p_args st = whole p \<and> p_pipe st = (pf \<or> ''|'' \<in> set (whole p)) \<and>
     (if rest_piece p = []
      then p_start st = length p \<and> (if whole p = [] then p_end st = 0 else 0 < p_end st \<and> p_end st < length p)
      else p_end st = length p - 1 \<and> p_start st = length p - length (rest_piece p))"

text \<open>The command does not start with a word of a single character: the loop takes an \<open>end\<close> of 0 for no word.\<close>

definition long_start :: "string \<Rightarrow> bool" where
  "long_start cmd \<longleftrightarrow> length cmd \<le> 1 \<or> blank (cmd ! 0) \<or> \<not> blank (cmd ! 1)"

lemma token_suffix: "p = q @ r \<Longrightarrow> r \<noteq> [] \<Longrightarrow> token (p @ z) (length p - length r) (length p - 1) = r"
  by (intro nth_equalityI) (auto simp: token_def nth_append)

lemma parse_step_ok:
  assumes cmd: "cmd = p @ c # z" and ok: "CHR 0x00 \<notin> set cmd" "long_start cmd" "length (words cmd) < 32" and st: "parsed pf p st"
  shows "\<exists>st'. parse_step cmd (length p) st = Some st' \<and> parsed pf (p @ [c]) st'"
proof (cases "blank c")
  case False
  then have "parse_step cmd (length p) st = Some (st\<lparr>p_end := length p\<rparr>)" by (simp add: parse_step_def cmd)
  moreover have "parsed pf (p @ [c]) (st\<lparr>p_end := length p\<rparr>)"
    using st False by (cases "rest_piece p = []") (simp_all add: parsed_def words_snoc)
  ultimately show ?thesis by blast
next
  case b: True
  show ?thesis
  proof (cases "rest_piece p = []")
    case True
    then have "p_start st > p_end st \<or> p_end st = 0" using st by (auto simp: parsed_def split: if_splits)
    then have "parse_step cmd (length p) st = Some (st\<lparr>p_start := p_start st + 1\<rparr>)" using b by (auto simp: parse_step_def cmd)
    moreover have "parsed pf (p @ [c]) (st\<lparr>p_start := p_start st + 1\<rparr>)"
      using st True b by (auto simp: parsed_def words_snoc words_split [of p])
    ultimately show ?thesis by blast
  next
    case False
    then obtain q where q: "p = q @ rest_piece p" using rest_piece_suffix by blast
    have len: "1 \<le> length (rest_piece p)" "length (rest_piece p) \<le> length p" using False arg_cong [OF q, of length] by (auto simp: Suc_le_eq)
    have e: "p_end st = length p - 1" "p_start st = length p - length (rest_piece p)" "p_args st = whole p" "p_pipe st = (pf \<or> ''|'' \<in> set (whole p))"
      using st False by (auto simp: parsed_def)
    have "p_end st \<noteq> 0"
    proof
      assume "p_end st = 0"
      then have "length p = 1" using e(1) len by simp
      then obtain x where x: "p = [x]" by (auto simp: length_Suc_conv)
      have "\<not> blank x" using False x by (auto simp: rest_piece_def)
      then show False using ok(2) b by (simp add: long_start_def cmd x)
    qed
    moreover have "token cmd (p_start st) (p_end st) = rest_piece p"
      unfolding e(1,2) cmd by (rule token_suffix [OF q False])
    moreover have w: "words p = whole p @ [rest_piece p]" using False by (simp add: words_split)
    have "length (whole p) < 32" using ok(3) words_mono [of p "c # z"] by (simp add: cmd w)
    moreover have "rest_piece p \<in> set (words p)" using w by simp
    then have "CHR 0x00 \<notin> set (rest_piece p)" using words_chars ok(1) by (fastforce simp: cmd)
    then have "sb_strcmp (rest_piece p) ''|'' = 0 \<longleftrightarrow> rest_piece p = ''|''" by (simp add: sb_strcmp_eq)
    ultimately have "parse_step cmd (length p) st =
        Some (st\<lparr>p_args := words p, p_pipe := p_pipe st \<or> rest_piece p = ''|'', p_start := length p + 1\<rparr>)"
      using b e len by (simp add: parse_step_def cmd w Let_def)
    moreover have "parsed pf (p @ [c]) (st\<lparr>p_args := words p, p_pipe := p_pipe st \<or> rest_piece p = ''|'', p_start := length p + 1\<rparr>)"
      using b e len \<open>p_end st \<noteq> 0\<close> by (auto simp: parsed_def words_snoc w)
    ultimately show ?thesis by blast
  qed
qed

text \<open>C14: \<open>parse_command\<close> cuts a command into its words: for a text without NUL with at least one and fewer than 32 words that does not start
  with a word of one character followed by a blank, the array holds exactly the maximal parts without blanks, in order; a word \<open>|\<close> anywhere sets
  \<open>pipe_flag\<close>, and a last word \<open>&\<close> sets \<open>background\<close> and is left out.\<close>

theorem parse_command_words:
  assumes "CHR 0x00 \<notin> set cmd" and "words cmd \<noteq> []" "length (words cmd) < 32" and "long_start cmd"
  shows "parse_command cmd pf bg = Some (Some (if last (words cmd) = ''&'' then butlast (words cmd) else words cmd),
    pf \<or> ''|'' \<in> set (words cmd), bg \<or> last (words cmd) = ''&'')"
proof -
  let ?loop = "\<lambda>n. fold (\<lambda>i r. Option.bind r (parse_step cmd i)) [0..<n] (Some \<lparr>p_start = 0, p_end = 0, p_args = [], p_pipe = pf\<rparr>)"
  have "\<exists>st. ?loop n = Some st \<and> parsed pf (take n cmd) st" if "n \<le> length cmd" for n
    using that
  proof (induction n)
    case 0
    then show ?case by (simp add: parsed_def)
  next
    case (Suc n)
    then obtain st where st: "?loop n = Some st" "parsed pf (take n cmd) st" by auto
    have "cmd = take n cmd @ cmd ! n # drop (Suc n) cmd" using Suc.prems by (simp add: id_take_nth_drop)
    from parse_step_ok [OF this assms(1,4,3) st(2)] st(1) Suc.prems show ?case by (auto simp: take_Suc_conv_app_nth)
  qed
  from this [of "length cmd"] obtain st where st: "?loop (length cmd) = Some st" "parsed pf cmd st" by auto
  have ne: "cmd \<noteq> []" using assms(2) by auto
  let ?ws = "words cmd"
  have eq: "sb_strcmp w ''|'' = 0 \<longleftrightarrow> w = ''|''" "sb_strcmp w ''&'' = 0 \<longleftrightarrow> w = ''&''" if "w \<in> set ?ws" for w
  proof -
    have "CHR 0x00 \<notin> set w" using words_chars [OF that] assms(1) by blast
    then show "sb_strcmp w ''|'' = 0 \<longleftrightarrow> w = ''|''" "sb_strcmp w ''&'' = 0 \<longleftrightarrow> w = ''&''" by (simp_all add: sb_strcmp_eq)
  qed
  have lst: "last ?ws \<in> set ?ws" using assms(2) by simp
  have "(if p_start st \<le> p_end st
      then if length (p_args st) < ARGUMENT_BUFFER
           then let w = token cmd (p_start st) (p_end st) in Some (p_args st @ [w], p_pipe st \<or> sb_strcmp w ''|'' = 0) else None
      else if p_args st = [] then None else Some (p_args st, p_pipe st)) = Some (?ws, pf \<or> ''|'' \<in> set ?ws)"
  proof (cases "rest_piece cmd = []")
    case True
    then have "words cmd = whole cmd" by (simp add: words_split)
    then show ?thesis using st(2) True assms(2) by (auto simp: parsed_def)
  next
    case False
    then obtain q where q: "cmd = q @ rest_piece cmd" using rest_piece_suffix by blast
    have w: "?ws = whole cmd @ [rest_piece cmd]" using False by (simp add: words_split)
    have "length (rest_piece cmd) \<ge> 1" using False by (simp add: Suc_le_eq)
    then have "p_start st \<le> p_end st" using st(2) False by (auto simp: parsed_def)
    moreover have "token cmd (p_start st) (p_end st) = rest_piece cmd"
      using token_suffix [OF q False, of "[]"] st(2) False by (auto simp: parsed_def)
    ultimately show ?thesis using st(2) False assms(3) eq(1) [of "rest_piece cmd"] by (auto simp: parsed_def w)
  qed
  then show ?thesis using st(1) ne eq(2) [OF lst] assms(3) by (simp add: parse_command_def)
qed

theorem parse_command_words_witness:
  "parse_command ''  ls -l  | x & '' False False = Some (Some [''ls'', ''-l'', ''|'', ''x''], True, True)"
proof -
  have "words ''  ls -l  | x & '' = [''ls'', ''-l'', ''|'', ''x'', ''&'']" by (simp add: words_def blank_def)
  then show ?thesis using parse_command_words [of "''  ls -l  | x & ''" False False] by (simp add: long_start_def blank_def)
qed

text \<open>The exception is real: the name of a command of one letter becomes part of the next word, with the blank.\<close>

lemma one_letter_command: "parse_command ''a b'' False False = Some (Some ['' b''], False, False)"
  by code_simp

section \<open>Reading a command\<close>

lemma malloc_terminal:
  fixes s :: "'a dirfs_scheme"
  assumes "terminal s n xs" and "u_malloc (kernel_call stk stk2 cpu r11 rsp) sz s = Some (Ran p, s')"
  shows "terminal s' n xs"
proof -
  have w: "syscallHandler stk stk2 a b c 99 t = returning id (malloc a (t\<lparr>mutex := 1\<rparr>))" for a b c and t :: "'a dirfs_scheme"
    by (simp add: syscallHandler_def)
  from assms(2) obtain u t where "malloc sz (s\<lparr>userRegs := u, mutex := 1\<rparr>) = Some (p, t)" "s' = t\<lparr>mutex := 0\<rparr>"
    by (auto simp: u_malloc_def kernel_call_def syscallEntry_def w)
  then have "kbd_state s' = kbd_state s" using areas_only_malloc by (fastforce simp: areas_only_def)
  then show ?thesis using assms(1) terminal_cong by metis
qed

lemma read_command_loop_ok:
  fixes s :: "'a dirfs_scheme"
  assumes "terminal s n (l @ [CHR 0x0A])" and "CHR 0x0A \<notin> set l" "CHR 0x00 \<notin> set l" and "length (cs @ l) \<le> 2000"
    and "cs \<noteq> [] \<or> dropWhile (\<lambda>c. c = CHR '' '') l \<noteq> []"
  shows "\<exists>s'. read_command_loop (kernel_call stk stk2 cpu r11 rsp) cp cs s =
    Some (Ran (cs @ (if cs = [] then dropWhile (\<lambda>c. c = CHR '' '') l else l)), s') \<and> terminal s' n []"
  using assms
proof (induction l arbitrary: s cs)
  case Nil
  from Nil.prems(1) obtain s' where "getchar (kernel_call stk stk2 cpu r11 rsp) cp s = Some (Ran CHR 0x00, s')" "terminal s' n []"
    using getchar_line [of s n "CHR 0x0A" "[]" stk stk2 cpu r11 rsp cp] by auto
  then show ?case using Nil.prems by (subst read_command_loop.simps) (auto split: if_splits)
next
  case (Cons c l)
  let ?K = "kernel_call stk stk2 cpu r11 rsp"
  have c: "c \<noteq> CHR 0x0A" "c \<noteq> CHR 0x00" using Cons.prems(2,3) by auto
  obtain s1 where s1: "getchar ?K cp s = Some (Ran c, s1)" "terminal s1 n (l @ [CHR 0x0A])"
    using getchar_line [of s n c "l @ [CHR 0x0A]" stk stk2 cpu r11 rsp cp] Cons.prems(1) c by auto
  show ?case
  proof (cases "cs = [] \<and> c = CHR '' ''")
    case True
    then have step: "read_command_loop ?K cp cs s = read_command_loop ?K cp [] s1" using s1(1) by (subst read_command_loop.simps) simp
    have "\<exists>s'. read_command_loop ?K cp [] s1 = Some (Ran ([] @ (if ([] :: string) = [] then dropWhile (\<lambda>c. c = CHR '' '') l else l)), s') \<and> terminal s' n []"
      by (rule Cons.IH [OF s1(2)]) (use Cons.prems True in \<open>auto split: if_splits\<close>)
    then show ?thesis using step True Cons.prems(5) by simp
  next
    case False
    then have step: "read_command_loop ?K cp cs s = read_command_loop ?K cp (cs @ [c]) s1"
      using s1(1) c Cons.prems(4) by (subst read_command_loop.simps) auto
    have "\<exists>s'. read_command_loop ?K cp (cs @ [c]) s1 =
        Some (Ran ((cs @ [c]) @ (if cs @ [c] = [] then dropWhile (\<lambda>c. c = CHR '' '') l else l)), s') \<and> terminal s' n []"
      by (rule Cons.IH [OF s1(2)]) (use Cons.prems in auto)
    then show ?thesis using step False Cons.prems(5) by auto
  qed
qed

text \<open>C15: The shell reads what is typed, as long as the line fits into what is left of the terminal's page before its write position wraps for the first
  time (\<open>terminal\<close>: at most 4095 characters since boot; when the position wraps, the code loses a character): when a line \<open>l\<close> (no NUL, no newline, not only spaces, at most 1999 characters) and Enter have been typed, and
  \<open>malloc\<close> has given the buffer, \<open>read_command\<close> returns the line without its leading spaces, character by character through the system call, the
  library and the terminal's buffer, and the buffer of the terminal is empty again.\<close>

theorem shell_reads_line:
  fixes s :: "'a dirfs_scheme"
  assumes "terminal s (Suc (length l) + n) []" and "CHR 0x0A \<notin> set l" "CHR 0x00 \<notin> set l" and "length l < 2000"
    and "dropWhile (\<lambda>c. c = CHR '' '') l \<noteq> []"
    and "u_malloc (kernel_call stk stk2 cpu r11 rsp) 2000 (fold (\<lambda>c. writeChar c 0) (l @ [CHR 0x0A]) s) = Some (Ran p, t)"
  shows "\<exists>s'. read_command (kernel_call stk stk2 cpu r11 rsp) cp (fold (\<lambda>c. writeChar c 0) (l @ [CHR 0x0A]) s) =
      Some (Ran (p, dropWhile (\<lambda>c. c = CHR '' '') l), s') \<and> terminal s' n []"
proof -
  have "terminal s (length (l @ [CHR 0x0A]) + n) []" using assms(1) by simp
  from tty.puts_view [OF this] have "terminal (fold (\<lambda>c. writeChar c 0) (l @ [CHR 0x0A]) s) n (l @ [CHR 0x0A])" by simp
  from read_command_loop_ok [OF malloc_terminal [OF this assms(6)] assms(2,3), of "[]" stk stk2 cpu r11 rsp cp] assms(4,5)
  obtain s' where "read_command_loop (kernel_call stk stk2 cpu r11 rsp) cp [] t = Some (Ran (dropWhile (\<lambda>c. c = CHR '' '') l), s')" "terminal s' n []"
    by auto
  then show ?thesis using assms(6) by (simp add: read_command_def)
qed

lemma typing_keeps: "tasks (fold (\<lambda>c. writeChar c 0) cs s) = tasks s \<and> runningThread (fold (\<lambda>c. writeChar c 0) cs s) = runningThread s"
proof (induction cs arbitrary: s)
  case (Cons c cs)
  have r: "tasks (snd (readChar s)) = tasks s" "runningThread (snd (readChar s)) = runningThread s" for s :: "'a kernel_scheme"
    by (simp_all add: readChar_def Let_def upd_kbd_def)
  have "tasks (writeChar c 0 s) = tasks s" "runningThread (writeChar c 0 s) = runningThread s"
    by (simp_all add: writeChar_def Let_def upd_kbd_def kprintf_def r)
  with Cons.IH [of "writeChar c 0 s"] show ?case by simp
qed simp

lemma first_malloc:
  fixes s :: "'a dirfs_scheme"
  assumes "run_mmap s = NULL"
  shows "\<exists>p t. u_malloc (kernel_call stk stk2 cpu r11 rsp) sz s = Some (Ran p, t)"
proof -
  have m: "\<exists>t. malloc sz u = Some (0, t)" if "run_mmap u = NULL" for u :: "'a dirfs_scheme"
    using that by (simp add: malloc_def Let_def split: prod.splits)
  have w: "syscallHandler stk stk2 a b c 99 t = returning id (malloc a (t\<lparr>mutex := 1\<rparr>))" for a b c and t :: "'a dirfs_scheme"
    by (simp add: syscallHandler_def)
  obtain t where "malloc sz (s\<lparr>userRegs := (userRegs s)\<lparr>userRsp := rsp, rip := rcx cpu, rax := 99, rbx := rbx cpu, rcx := rcx cpu, rdx := 0,
      rsi := 0, rdi := sz, rbp := rbp cpu, rflags := r11\<rparr>, mutex := 1\<rparr>) = Some (0, t)"
    using m [of "s\<lparr>userRegs := _, mutex := 1\<rparr>"] assms by auto
  then show ?thesis by (simp add: u_malloc_def kernel_call_def syscallEntry_def w)
qed

theorem shell_reads_line_witness:
  "\<exists>p s'. read_command (kernel_call (\<lambda>_. CHR 0x00) (\<lambda>_. CHR 0x00) undefined 0 0) 0x9000
     (fold (\<lambda>c. writeChar c 0) ('' ls -l'' @ [CHR 0x0A]) (set_input_buf 0x5000 tiny_dirs)) = Some (Ran (p, ''ls -l''), s')"
proof -
  let ?s = "fold (\<lambda>c. writeChar c 0) ('' ls -l'' @ [CHR 0x0A]) (set_input_buf 0x5000 tiny_dirs)"
  let ?K = "kernel_call (\<lambda>_. CHR 0x00) (\<lambda>_. CHR 0x00) undefined 0 0"
  have "terminal (set_input_buf 0x5000 tiny_dirs) 4095 []" by (rule terminal_init) simp_all
  then have t: "terminal (set_input_buf 0x5000 tiny_dirs) (Suc (length '' ls -l'') + 4088) []" by simp
  have "tasks ?s = tasks tiny_dirs" "runningThread ?s = runningThread tiny_dirs"
    using typing_keeps [of "'' ls -l'' @ [CHR 0x0A]" "set_input_buf 0x5000 tiny_dirs"] by (simp_all add: set_input_buf_def upd_kbd_def)
  then have "run_mmap ?s = NULL"
    by (simp add: tiny_dirs_def fs.extend_def dirfs.fields_def tiny_fs_defs upd_task_def small_kernel_sel small_task_def zero_task_def)
  from first_malloc [OF this] obtain p v where "u_malloc ?K 2000 ?s = Some (Ran p, v)" by blast
  from shell_reads_line [OF t _ _ _ _ this] show ?thesis by fastforce
qed

section \<open>Waiting for a child\<close>

lemma le_4: "le 4 m a = of_char (m a) + 256 * (of_char (m (a + 1)) + 256 * (of_char (m (a + 2)) + 256 * of_char (m (a + 3))))"
proof -
  have "4 = Suc (Suc (Suc (Suc 0)))" by simp
  then show ?thesis by (simp only: le.simps) (simp add: add.assoc)
qed

lemma status_stored: "com_status sp (store_int sp (of_bool b) s) = of_bool b"
proof -
  have one: "bit (Suc 0) 0" unfolding bit_0 by simp
  have c: "char_of (0 :: nat) = CHR 0x00" "char_of (Suc 0) = CHR 0x01" using one by (simp_all add: char_of_def bit_Suc)
  have "map (\<lambda>i. char_of (unat (drop_bit (8 * i) (of_bool b :: i32)))) [0..<4] = [if b then CHR 0x01 else CHR 0x00, CHR 0x00, CHR 0x00, CHR 0x00]"
    using c by (cases b) (simp_all add: upt_rec)
  then show ?thesis by (simp add: store_int_def le_4)
qed

text \<open>C35: The shell waits for a command as long as it lives: on well-formed queues, a round of the waiting loop asks \<open>waitpid\<close>, which always returns and
  changes no task; the loop goes on exactly if another task of the run queue has the pid and is alive, and ends otherwise with a status of 0.\<close>

theorem shell_waits_for_child:
  fixes s :: "'a dirfs_scheme" and pid :: u32
  assumes "queues s ts ds" and "pid \<noteq> - 1"
  shows "\<exists>s'. wait_loop (kernel_call stk stk2 cpu r11 rsp) sp pid s =
      (if \<exists>t \<in> set ts. pid_t (tasks s t) = pid \<and> task_state (tasks s t) = 1
       then wait_loop (kernel_call stk stk2 cpu r11 rsp) sp pid s' else Some (Ran (), s')) \<and>
    tasks s' = tasks s \<and> runningThread s' = runningThread s \<and> queues s' ts ds \<and>
    com_status sp s' = of_bool (\<exists>t \<in> set ts. pid_t (tasks s t) = pid \<and> task_state (tasks s t) = 1)"
proof -
  let ?alive = "\<exists>t \<in> set ts. pid_t (tasks s t) = pid \<and> task_state (tasks s t) = 1"
  have inj: "(scast a :: u64) = scast b \<longleftrightarrow> a = b" for a b :: u32
  proof -
    have "(ucast (scast w :: u64) :: u32) = w" for w :: u32 by (rule bit_word_eqI) (simp add: bit_simps)
    then show ?thesis by metis
  qed
  have m1: "(scast pid :: u64) \<noteq> - 1" using inj [of pid "- 1"] assms(2) by simp
  have w: "syscallHandler stk stk2 a b c 88 t = map_option (\<lambda>(v, st). (Returned v, store_int b st (t\<lparr>mutex := 1\<rparr>))) (waitpid a (t\<lparr>mutex := 1\<rparr>))"
    for a b c and t :: "'a dirfs_scheme"
    by (simp add: syscallHandler_def Let_def)
  define u where "u = (userRegs s)\<lparr>userRsp := rsp, rip := rcx cpu, rax := 88, rbx := rbx cpu, rcx := rcx cpu, rdx := 0, rsi := sp, rdi := scast pid,
    rbp := rbp cpu, rflags := r11\<rparr>"
  define t where "t = s\<lparr>userRegs := u, mutex := 1\<rparr>"
  define s' where "s' = (store_int sp (of_bool ?alive) t)\<lparr>mutex := 0\<rparr>"
  have q: "queues t ts ds" using queues_same_next [of t s] assms(1) by (simp add: t_def)
  have "waitpid (scast pid) t = Some (if ?alive then scast pid else - 1, of_bool ?alive)"
    using waitpid_result [OF q, of "scast pid"] m1 by (simp add: waitpid_match_def inj t_def)
  then have c: "u_waitpid (kernel_call stk stk2 cpu r11 rsp) pid sp 2 s = Some (Ran (ucast (if ?alive then scast pid else - 1 :: u64)), s')"
    unfolding u_waitpid_def kernel_call_def syscallEntry_def Let_def cast_result_def
    by (simp add: w u_def [symmetric] t_def s'_def)
  have st: "com_status sp s' = of_bool ?alive" using status_stored [of sp ?alive t] by (simp add: s'_def)
  have "WIFEXITED (com_status sp s') \<longleftrightarrow> \<not> ?alive" unfolding st by (simp add: WIFEXITED_def)
  then have "wait_loop (kernel_call stk stk2 cpu r11 rsp) sp pid s =
      (if ?alive then wait_loop (kernel_call stk stk2 cpu r11 rsp) sp pid s' else Some (Ran (), s'))"
    using c by (subst wait_loop.simps) simp
  moreover have "tasks s' = tasks s" "runningThread s' = runningThread s" "deleteQueue s' = deleteQueue s" by (simp_all add: s'_def t_def store_int_def)
  moreover from this have "queues s' ts ds" using queues_same_next [of s' s] assms(1) by simp
  ultimately show ?thesis using st by blast
qed

theorem shell_waits_for_child_witness:
  "\<exists>s'. wait_loop (kernel_call (\<lambda>_. CHR 0x00) (\<lambda>_. CHR 0x00) undefined 0 0) 0x9000 7 tiny_dirs = Some (Ran (), s')"
proof -
  obtain ts ds where q: "queues tiny_dirs ts ds" "\<And>t. t \<in> set ts \<Longrightarrow> t \<in> {0x10, 0x20, 0x30, 0x40}"
    using tiny_dirs_kernel unfolding kernel_ok_def by fastforce
  have "pid_t (tasks tiny_dirs t) \<noteq> 7" if "t \<in> set ts" for t
    using q(2) [OF that]
    by (auto simp: tiny_dirs_def fs.extend_def dirfs.fields_def tiny_fs_defs upd_task_def small_kernel_sel small_task_def zero_task_def)
  with shell_waits_for_child [OF q(1), of 7] show ?thesis by fastforce
qed

end
