(* ===== verification/Ahci.thy ===== *)
theory Ahci
  imports Kernel
begin

text \<open>
  The driver of the disk controller (\<open>sys/ahci.c\<close>, \<open>include/sys/ahci.h\<close>): the set-up of a port, the choice of a command slot, the
  construction of a read or write command and its execution by polling. The controller is not part of the program: how its
  registers answer is a parameter, a pair of functions on the whole state, so that it may also change the memory (DMA) whenever
  a register is accessed.
\<close>

section \<open>Registers and structures\<close>

abbreviation HBA_PxCMD_ST :: u64 where "HBA_PxCMD_ST \<equiv> 1"
abbreviation HBA_PxCMD_SUD :: u64 where "HBA_PxCMD_SUD \<equiv> 2"
abbreviation HBA_PxCMD_POD :: u64 where "HBA_PxCMD_POD \<equiv> 4"
abbreviation HBA_PxCMD_CLO :: u64 where "HBA_PxCMD_CLO \<equiv> 8"
abbreviation HBA_PxCMD_FRE :: u64 where "HBA_PxCMD_FRE \<equiv> 0x10"
abbreviation HBA_PxCMD_FR :: u64 where "HBA_PxCMD_FR \<equiv> 0x4000"
abbreviation HBA_PxCMD_CR :: u64 where "HBA_PxCMD_CR \<equiv> 0x8000"
abbreviation HBA_PxIS_TFES :: u64 where "HBA_PxIS_TFES \<equiv> 0x40000000"
abbreviation HBA_PxICC :: u64 where "HBA_PxICC \<equiv> 0x10000000"
abbreviation ATA_CMD_READ_DMA_EX :: u8 where "ATA_CMD_READ_DMA_EX \<equiv> 0x24"
abbreviation ATA_CMD_WRITE_DMA_EX :: u8 where "ATA_CMD_WRITE_DMA_EX \<equiv> 0x34"
abbreviation AHCI_DEV_SATA :: u64 where "AHCI_DEV_SATA \<equiv> 0x00000101"
abbreviation AHCI_DEV_SATAPI :: u64 where "AHCI_DEV_SATAPI \<equiv> 0xEB140101"
abbreviation AHCI_DEV_SEMB :: u64 where "AHCI_DEV_SEMB \<equiv> 0xC33C0101"
abbreviation AHCI_DEV_PM :: u64 where "AHCI_DEV_PM \<equiv> 0x96690101"
abbreviation ATA_STATUS_DRQ :: u64 where "ATA_STATUS_DRQ \<equiv> 0x08"
abbreviation ATA_STATUS_BSY :: u64 where "ATA_STATUS_BSY \<equiv> 0x80"
abbreviation FIS_TYPE_REG_H2D :: u8 where "FIS_TYPE_REG_H2D \<equiv> 0x27"

datatype hba_port_t = clb | fb | is_rwc | cmd | tfd | sig | ssts | sctl | serr_rwc | sact | ci

datatype hba_mem_t = pi | ghc | ports nat hba_port_t

record fis_reg_h2d_t =
  fis_type :: u8
  fis_c :: bool
  fis_command :: u8
  lba0 :: u8
  lba1 :: u8
  lba2 :: u8
  device :: u8
  lba3 :: u8
  lba4 :: u8
  lba5 :: u8
  fis_count :: u16

record hba_prdt_entry_t =
  dba :: u64
  dbc :: "22 word"
  prdt_i :: bool

record hba_cmd_tbl_t =
  cfis :: fis_reg_h2d_t
  prdt_entry :: "nat \<Rightarrow> hba_prdt_entry_t"

record hba_cmd_header_t =
  cfl :: "5 word"
  hdr_w :: bool
  prdtl :: u16
  ctba :: u64

definition zero_fis :: fis_reg_h2d_t where
  "zero_fis = \<lparr>fis_type = 0, fis_c = False, fis_command = 0, lba0 = 0, lba1 = 0, lba2 = 0, device = 0, lba3 = 0, lba4 = 0, lba5 = 0,
     fis_count = 0\<rparr>"

definition zero_prdt :: hba_prdt_entry_t where "zero_prdt = \<lparr>dba = 0, dbc = 0, prdt_i = False\<rparr>"

definition zero_tbl :: hba_cmd_tbl_t where "zero_tbl = \<lparr>cfis = zero_fis, prdt_entry = (\<lambda>_. zero_prdt)\<rparr>"

definition zero_header :: hba_cmd_header_t where "zero_header = \<lparr>cfl = 0, hdr_w = False, prdtl = 0, ctba = 0\<rparr>"

text \<open>
  The state: the structures and the bytes of the memory by physical address, the two static variables, the console. The controller's
  own state is in the extension.
\<close>

record ahci =
  headers :: "u64 \<Rightarrow> hba_cmd_header_t"
  tables :: "u64 \<Rightarrow> hba_cmd_tbl_t"
  mem :: "u64 \<Rightarrow> u8"
  PORT_BASE :: u64
  kern :: u64
  alog :: "(string \<times> karg list) list"

record 's hba =
  reg_read :: "hba_mem_t \<Rightarrow> 's \<Rightarrow> u64 \<times> 's"
  reg_write :: "hba_mem_t \<Rightarrow> u64 \<Rightarrow> 's \<Rightarrow> 's"

abbreviation say :: "string \<Rightarrow> karg list \<Rightarrow> 'a ahci_scheme \<Rightarrow> 'a ahci_scheme" where
  "say f x s \<equiv> s\<lparr>alog := alog s @ [(f, x)]\<rparr>"

definition upd_header :: "u64 \<Rightarrow> (hba_cmd_header_t \<Rightarrow> hba_cmd_header_t) \<Rightarrow> 'a ahci_scheme \<Rightarrow> 'a ahci_scheme" where
  "upd_header a f s = s\<lparr>headers := (headers s)(k2p (kern s) a := f (headers s (k2p (kern s) a)))\<rparr>"

definition upd_table :: "u64 \<Rightarrow> (hba_cmd_tbl_t \<Rightarrow> hba_cmd_tbl_t) \<Rightarrow> 'a ahci_scheme \<Rightarrow> 'a ahci_scheme" where
  "upd_table a f s = s\<lparr>tables := (tables s)(k2p (kern s) a := f (tables s (k2p (kern s) a)))\<rparr>"

abbreviation header_at :: "'a ahci_scheme \<Rightarrow> u64 \<Rightarrow> hba_cmd_header_t" where
  "header_at s a \<equiv> headers s (k2p (kern s) a)"

text \<open>\<open>port->r |= m\<close> and the like: a read and a write.\<close>

definition rmw :: "('a ahci_scheme) hba \<Rightarrow> hba_mem_t \<Rightarrow> (u64 \<Rightarrow> u64) \<Rightarrow> 'a ahci_scheme \<Rightarrow> 'a ahci_scheme" where
  "rmw h r f s = (case reg_read h r s of (v, s1) \<Rightarrow> reg_write h r (f v) s1)"

text \<open>\<open>memset1\<close> with 0: the structures that start in the range are cleared.\<close>

definition memset1 :: "u64 \<Rightarrow> nat \<Rightarrow> 'a ahci_scheme \<Rightarrow> 'a ahci_scheme" where
  "memset1 str n s =
     (let a = k2p (kern s) str; hit = (\<lambda>x. unat (x - a) < n)
      in s\<lparr>headers := (\<lambda>x. if hit x then zero_header else headers s x), tables := (\<lambda>x. if hit x then zero_tbl else tables s x),
           mem := (\<lambda>x. if hit x then 0 else mem s x)\<rparr>)"

section \<open>Starting and stopping a port\<close>

text \<open>The loops that poll until the bits \<open>m\<close> are clear; the first result says whether the body has run.\<close>

partial_function (option) wait_clear :: "'s hba \<Rightarrow> hba_mem_t \<Rightarrow> u64 \<Rightarrow> bool \<Rightarrow> 's \<Rightarrow> (bool \<times> 's) option" where
  "wait_clear h r m b s =
     (case reg_read h r s of (v, s1) \<Rightarrow> if v AND m \<noteq> 0 then wait_clear h r m True s1 else Some (b, s1))"

text \<open>\<open>i\<close> and \<open>j\<close> are not initialised: \<open>i0\<close> and \<open>j0\<close> are what they hold.\<close>

definition start_cmd :: "('a ahci_scheme) hba \<Rightarrow> nat \<Rightarrow> i32 \<Rightarrow> i32 \<Rightarrow> 'a ahci_scheme \<Rightarrow> 'a ahci_scheme option" where
  "start_cmd h port i0 j0 s =
     Option.bind (wait_clear h (ports port cmd) HBA_PxCMD_CR False s) (\<lambda>(b, s1).
     let s2 = (if b \<or> j0 = 1 then say ''..\<newline>'' [] s1 else s1) in
     Option.bind (wait_clear h (ports port cmd) HBA_PxCMD_CLO False s2) (\<lambda>(b, s3).
     let s4 = (if b \<or> i0 = 1 then say ''..\<newline>'' [] s3 else s3)
     in Some (rmw h (ports port cmd) (\<lambda>v. v OR HBA_PxCMD_ST) (rmw h (ports port cmd) (\<lambda>v. v OR HBA_PxCMD_FRE) s4))))"

text \<open>The first loop of \<open>stop_cmd\<close>, which reads the register once or twice in a round.\<close>

partial_function (option) wait_stopped :: "'s hba \<Rightarrow> hba_mem_t \<Rightarrow> 's \<Rightarrow> 's option" where
  "wait_stopped h r s =
     (case reg_read h r s of (v, s1) \<Rightarrow>
      if v AND HBA_PxCMD_FR \<noteq> 0 then wait_stopped h r s1
      else (case reg_read h r s1 of (v, s2) \<Rightarrow> if v AND HBA_PxCMD_CR \<noteq> 0 then wait_stopped h r s2 else Some s2))"

text \<open>The loops that only count to 100000000 have no effect.\<close>

definition stop_cmd :: "('a ahci_scheme) hba \<Rightarrow> nat \<Rightarrow> 'a ahci_scheme \<Rightarrow> 'a ahci_scheme option" where
  "stop_cmd h port s =
     Option.bind (wait_stopped h (ports port cmd) (rmw h (ports port cmd) (\<lambda>v. v AND NOT HBA_PxCMD_ST) s)) (\<lambda>s1.
       map_option snd (wait_clear h (ports port cmd) HBA_PxCMD_FR False (rmw h (ports port cmd) (\<lambda>v. v AND NOT HBA_PxCMD_FRE) s1)))"

partial_function (option) wait_link :: "'s hba \<Rightarrow> hba_mem_t \<Rightarrow> 's \<Rightarrow> 's option" where
  "wait_link h r s = (case reg_read h r s of (v, s1) \<Rightarrow> if v AND 0xF \<noteq> 3 then wait_link h r s1 else Some s1)"

text \<open>The address of the command table of slot \<open>i\<close> and one round of the loop that sets up the headers.\<close>

definition table_addr :: "u64 \<Rightarrow> nat \<Rightarrow> nat \<Rightarrow> u64" where
  "table_addr base portno i = base + push_bit 10 32 + push_bit 13 (of_nat portno) + push_bit 8 (of_nat i)"

definition set_header :: "u64 \<Rightarrow> nat \<Rightarrow> nat \<Rightarrow> 'a ahci_scheme \<Rightarrow> 'a ahci_scheme" where
  "set_header cmdheader portno i s =
     (let a = cmdheader + 32 * of_nat i;
          s1 = upd_header a (\<lambda>c. c\<lparr>prdtl := 8, ctba := table_addr (PORT_BASE s) portno i\<rparr>) s
      in memset1 (ctba (header_at s1 a) + kern s1) 256 s1)"

definition port_rebase :: "('a ahci_scheme) hba \<Rightarrow> nat \<Rightarrow> nat \<Rightarrow> 'a ahci_scheme \<Rightarrow> 'a ahci_scheme option" where
  "port_rebase h port portno s =
     (let P = ports port; s1 = reg_write h (P clb) (PORT_BASE s + push_bit 10 (of_nat portno)) s in
      case reg_read h (P clb) s1 of (v, s2) \<Rightarrow>
      let s3 = memset1 (v + kern s2) 1024 s2;
          s4 = reg_write h (P fb) (PORT_BASE s3 + push_bit 10 32 + push_bit 8 (of_nat portno)) s3 in
      case reg_read h (P fb) s4 of (v, s5) \<Rightarrow>
      case reg_read h (P clb) (memset1 (v + kern s5) 256 s5) of (v, s6) \<Rightarrow>
      let s7 = fold (set_header (v + kern s6) portno) [0..<32] s6;
          s8 = reg_write h (P sctl) 0 (reg_write h (P sctl) 1 s7)
      in Option.bind (wait_link h (P ssts) s8) (\<lambda>s9.
         let s10 = reg_write h (P is_rwc) 0xFFFFFFFF (reg_write h (P serr_rwc) 0xFFFFFFFF s9)
         in Some (rmw h (P cmd) (\<lambda>v. v OR HBA_PxCMD_SUD) (rmw h (P cmd) (\<lambda>v. v OR HBA_PxCMD_POD)
              (rmw h (P cmd) (\<lambda>v. v OR HBA_PxICC) s10)))))"

section \<open>Commands\<close>

text \<open>The loop over the slots, from slot \<open>i\<close> on; \<open>slots\<close> is shifted.\<close>

fun free_slot :: "nat \<Rightarrow> nat \<Rightarrow> u32 \<Rightarrow> i32" where
  "free_slot 0 i slots = - 1"
| "free_slot (Suc n) i slots = (if slots AND 1 = 0 then of_nat i else free_slot n (Suc i) (drop_bit 1 slots))"

definition find_cmdslot :: "('a ahci_scheme) hba \<Rightarrow> nat \<Rightarrow> 'a ahci_scheme \<Rightarrow> i32 \<times> 'a ahci_scheme" where
  "find_cmdslot h port s =
     (case reg_read h (ports port sact) s of (a, s1) \<Rightarrow>
      case reg_read h (ports port ci) s1 of (c, s2) \<Rightarrow>
      let slt = free_slot 32 0 (ucast (a OR c))
      in (slt, if slt = - 1 then say ''Cannot find free command list entry\<newline>'' [] s2 else s2))"

text \<open>The loop over all entries of the region table but the last, from entry \<open>i\<close> on.\<close>

fun fill_prdt :: "nat \<Rightarrow> nat \<Rightarrow> u64 \<Rightarrow> u32 \<Rightarrow> (nat \<Rightarrow> hba_prdt_entry_t) \<Rightarrow> u64 \<times> u32 \<times> (nat \<Rightarrow> hba_prdt_entry_t)" where
  "fill_prdt 0 i buf count e = (buf, count, e)"
| "fill_prdt (Suc n) i buf count e =
     fill_prdt n (Suc i) (buf + 4 * 1024) (count - 16) (e(i := (e i)\<lparr>dba := buf, dbc := 8 * 1024, prdt_i := True\<rparr>))"

definition command_fis :: "u8 \<Rightarrow> u32 \<Rightarrow> u32 \<Rightarrow> u32 \<Rightarrow> fis_reg_h2d_t \<Rightarrow> fis_reg_h2d_t" where
  "command_fis command startl starth count f =
     f\<lparr>fis_type := FIS_TYPE_REG_H2D, fis_c := True, fis_command := command,
       lba0 := ucast startl, lba1 := ucast (drop_bit 8 startl), lba2 := ucast (drop_bit 16 startl), device := push_bit 6 1,
       lba3 := ucast (drop_bit 24 startl), lba4 := ucast starth, lba5 := ucast (drop_bit 8 starth), fis_count := ucast count\<rparr>"

text \<open>
  The part of \<open>read\<close> and \<open>write\<close> that builds the command in the header at \<open>hdr\<close> and in its table; \<open>off\<close> is what is added to the
  physical addresses, 0 in \<open>read\<close> and \<open>kernbase\<close> in \<open>write\<close>.
\<close>

definition build_command ::
    "bool \<Rightarrow> u64 \<Rightarrow> u64 \<Rightarrow> u32 \<Rightarrow> u32 \<Rightarrow> u32 \<Rightarrow> u64 \<Rightarrow> 'a ahci_scheme \<Rightarrow> 'a ahci_scheme" where
  "build_command w off hdr startl starth count buf s =
     (let s1 = upd_header hdr (\<lambda>c. c\<lparr>cfl := of_nat (20 div 4), hdr_w := w, prdtl := ucast (drop_bit 4 (count - 1)) + 1\<rparr>) s;
          n = unat (prdtl (header_at s1 hdr)) - 1;
          cmdtbl = ctba (header_at s1 hdr) + off;
          s2 = memset1 cmdtbl (256 + n * 16) s1;
          t = tables s2 (k2p (kern s2) cmdtbl) in
      case fill_prdt n 0 buf count (prdt_entry t) of (buf', count', e) \<Rightarrow>
      upd_table cmdtbl (\<lambda>t. t\<lparr>prdt_entry := e(n := (e n)\<lparr>dba := buf', dbc := ucast (push_bit 9 count'), prdt_i := True\<rparr>),
          cfis := command_fis (if w then ATA_CMD_WRITE_DMA_EX else ATA_CMD_READ_DMA_EX) startl starth count' (cfis t)\<rparr>) s2)"

text \<open>At most \<open>n\<close> rounds while the port is busy. The first result is the number of rounds that were left.\<close>

fun spin_busy :: "'s hba \<Rightarrow> hba_mem_t \<Rightarrow> nat \<Rightarrow> 's \<Rightarrow> nat \<times> 's" where
  "spin_busy h r 0 s = (0, snd (reg_read h r s))"
| "spin_busy h r (Suc n) s =
     (case reg_read h r s of (v, s1) \<Rightarrow> if v AND (ATA_STATUS_BSY OR ATA_STATUS_DRQ) \<noteq> 0 then spin_busy h r n s1 else (Suc n, s1))"

text \<open>The loop that waits for the end of the command; the first result says whether the task file reported an error.\<close>

partial_function (option) wait_done :: "'s hba \<Rightarrow> nat \<Rightarrow> nat \<Rightarrow> 's \<Rightarrow> (bool \<times> 's) option" where
  "wait_done h port slt s =
     (case reg_read h (ports port ci) s of (v, s1) \<Rightarrow>
      if v AND push_bit slt 1 = 0 then Some (False, s1)
      else (case reg_read h (ports port is_rwc) s1 of (v, s2) \<Rightarrow>
        if v AND HBA_PxIS_TFES \<noteq> 0 then Some (True, s2) else wait_done h port slt s2))"

definition run_command :: "('a ahci_scheme) hba \<Rightarrow> nat \<Rightarrow> string \<Rightarrow> nat \<Rightarrow> 'a ahci_scheme \<Rightarrow> (i32 \<times> 'a ahci_scheme) option" where
  "run_command h port name slt s =
     (case spin_busy h (ports port tfd) 1000000 s of (left, s1) \<Rightarrow>
      if left = 0 then Some (0, say (name @ '' Port is hung\<newline>'') [] s1)
      else Option.bind (wait_done h port slt (reg_write h (ports port ci) (push_bit slt 1) s1)) (\<lambda>(failed, s2).
        if failed then Some (0, say (name @ '' disk error\<newline>'') [] s2)
        else (case reg_read h (ports port is_rwc) s2 of (v, s3) \<Rightarrow>
          Some (if v AND HBA_PxIS_TFES \<noteq> 0 then (0, say (name @ '' disk error\<newline>'') [] s3) else (1, s3)))))"

definition disk_read :: "('a ahci_scheme) hba \<Rightarrow> nat \<Rightarrow> u32 \<Rightarrow> u32 \<Rightarrow> u32 \<Rightarrow> u64 \<Rightarrow> 'a ahci_scheme \<Rightarrow> (i32 \<times> 'a ahci_scheme) option" where
  "disk_read h port startl starth count buf s =
     (case find_cmdslot h port (reg_write h (ports port is_rwc) 0xFFFFFFFF s) of (slt, s1) \<Rightarrow>
      if slt = - 1 then Some (0, s1)
      else (case reg_read h (ports port clb) s1 of (c, s2) \<Rightarrow>
        run_command h port ''Read'' (unat slt) (build_command False 0 (c + 32 * ucast slt) startl starth count buf s2)))"

definition disk_write :: "('a ahci_scheme) hba \<Rightarrow> nat \<Rightarrow> u32 \<Rightarrow> u32 \<Rightarrow> u32 \<Rightarrow> u64 \<Rightarrow> 'a ahci_scheme \<Rightarrow> (i32 \<times> 'a ahci_scheme) option" where
  "disk_write h port startl starth count buf s =
     (case find_cmdslot h port (reg_write h (ports port is_rwc) 0xFFFFFFFF s) of (slt, s1) \<Rightarrow>
      if slt = - 1 then Some (0, say ''Slot not working'' [] s1)
      else (case reg_read h (ports port clb) s1 of (c, s2) \<Rightarrow>
        run_command h port ''Write'' (unat slt)
          (build_command True (kern s2) (c + kern s2 + 32 * ucast slt) startl starth count buf s2)))"

text \<open>The test that writes 100 pages and reads them back.\<close>

definition fill_buffer :: "u64 \<Rightarrow> u8 \<Rightarrow> 'a ahci_scheme \<Rightarrow> 'a ahci_scheme" where
  "fill_buffer a v s = s\<lparr>mem := (\<lambda>x. if unat (x - k2p (kern s) a) < 4096 then v else mem s x)\<rparr>"

definition write_read_round ::
    "('a ahci_scheme) hba \<Rightarrow> nat \<Rightarrow> u32 \<Rightarrow> u64 \<Rightarrow> u64 \<Rightarrow> nat \<times> u32 \<times> 'a ahci_scheme \<Rightarrow> (nat \<times> u32 \<times> 'a ahci_scheme) option" where
  "write_read_round h port writeh inbuf outbuf = (\<lambda>(k, writel, s).
     let inb = inbuf + 4096 * of_nat k; outb = outbuf + 4096 * of_nat k in
     Option.bind (disk_write h port writel writeh 8 inb (fill_buffer inb (of_nat k) s)) (\<lambda>(r, s1).
     Option.bind (disk_read h port writel writeh 8 outb s1) (\<lambda>(r, s2).
       Some (Suc k, writel + 8, say ''%d '' [KNum (ucast (mem s2 (k2p (kern s2) (outb + of_nat k))))] s2))))"

definition write_read :: "('a ahci_scheme) hba \<Rightarrow> nat \<Rightarrow> u32 \<Rightarrow> u32 \<Rightarrow> u64 \<Rightarrow> u64 \<Rightarrow> 'a ahci_scheme \<Rightarrow> 'a ahci_scheme option" where
  "write_read h port startl starth inbuf outbuf s =
     map_option (\<lambda>(k, l, s'). say ''\<newline>Read and Write Succesfull..\<newline>'' [] s')
       (((\<lambda>r. Option.bind r (write_read_round h port starth inbuf outbuf)) ^^ 100)
          (Some (0, startl, say ''Writing and Reading into the memory...  '' [] s)))"

section \<open>Looking for a disk\<close>

text \<open>
  One round of the loop over the ports: \<open>port_implem_reg\<close> is shifted only when its lowest bit is 0. The third text lacks its argument \<open>%d\<close>,
  which then is whatever the register holds (\<open>junk\<close>).
\<close>

definition probe_port :: "('a ahci_scheme) hba \<Rightarrow> u64 \<Rightarrow> nat \<Rightarrow> u32 \<times> nat \<times> 'a ahci_scheme \<Rightarrow> u32 \<times> nat \<times> 'a ahci_scheme" where
  "probe_port h junk i = (\<lambda>(port_implem_reg, firstport, s).
     if port_implem_reg AND 1 \<noteq> 0
     then (case reg_read h (ports i sig) s of (ty, s1) \<Rightarrow>
       let first = (if firstport = 0 then i else firstport) in
       if ty = AHCI_DEV_SATA then (port_implem_reg, first, say ''    Port %d is linked to SATA Drive\<newline>'' [KNum (of_nat i)] s1)
       else if ty = AHCI_DEV_SATAPI then (port_implem_reg, first, say ''      Port %d is linked to SATAAPI Drive\<newline>'' [KNum (of_nat i)] s1)
       else if ty = AHCI_DEV_SEMB then (port_implem_reg, first, say ''      Port %d is linked to SEMB drive\<newline>'' [KNum (of_nat i)] s1)
       else if ty = AHCI_DEV_PM then (port_implem_reg, first, say ''      Port %d is linked to PM drive%d\<newline>'' [KNum (of_nat i), KNum junk] s1)
       else (port_implem_reg, firstport, s1))
     else (drop_bit 1 port_implem_reg, firstport, s))"

definition port_probe :: "('a ahci_scheme) hba \<Rightarrow> u64 \<Rightarrow> i32 \<Rightarrow> i32 \<Rightarrow> u64 \<Rightarrow> u64 \<Rightarrow> 'a ahci_scheme \<Rightarrow> 'a ahci_scheme option" where
  "port_probe h junk i0 j0 ahci_phys kbase s =
     (case reg_read h pi s of (v, s1) \<Rightarrow>
      case fold (probe_port h junk) [0..<32] (ucast v, 0, s1\<lparr>PORT_BASE := ahci_phys, kern := kbase\<rparr>) of (p, firstport, s2) \<Rightarrow>
      let s3 = say ''Port Rebasing..Please Wait..\<newline>'' [] (rmw h ghc (\<lambda>v. v OR 2) (reg_write h ghc 0x80000001 s2))
      in Option.bind (stop_cmd h firstport s3) (\<lambda>s4. Option.bind (port_rebase h firstport firstport s4) (start_cmd h firstport i0 j0)))"

section \<open>Slots and commands\<close>

lemma free_slot_find:
  "free_slot n i (drop_bit i w) = (case List.find (\<lambda>k. \<not> bit w k) [i..<i + n] of None \<Rightarrow> - 1 | Some k \<Rightarrow> of_nat k)"
proof (induction n arbitrary: i)
  case (Suc n)
  have "drop_bit 1 (drop_bit i w) = drop_bit (Suc i) w" by (simp add: drop_bit_drop_bit add.commute)
  moreover have "drop_bit i w AND 1 = 0 \<longleftrightarrow> \<not> bit w i" by (simp add: and_one_eq bit_iff_odd_drop_bit mod_2_eq_odd)
  ultimately show ?case using Suc.IH [of "Suc i"] by (simp add: upt_conv_Cons del: upt_Suc)
qed simp

definition fis_lba :: "fis_reg_h2d_t \<Rightarrow> nat" where
  "fis_lba f = unat (lba0 f) + 2 ^ 8 * (unat (lba1 f) + 2 ^ 8 * (unat (lba2 f) + 2 ^ 8 * (unat (lba3 f) + 2 ^ 8 *
     (unat (lba4 f) + 2 ^ 8 * unat (lba5 f)))))"

lemma unat_drop: "unat (drop_bit n (x :: 'a :: len word)) = unat x div 2 ^ n"
  by (simp add: unat_drop_bit_eq) (simp add: drop_bit_eq_div)

lemma four_bytes:
  assumes "(x :: nat) < 2 ^ 32"
  shows "x mod 2 ^ 8 + 2 ^ 8 * (x div 2 ^ 8 mod 2 ^ 8 + 2 ^ 8 * (x div 2 ^ 16 mod 2 ^ 8 + 2 ^ 8 * (x div 2 ^ 24 mod 2 ^ 8 + 2 ^ 8 * y))) = x + 2 ^ 32 * y"
proof -
  have d: "x div 2 ^ 16 = x div 2 ^ 8 div 2 ^ 8" "x div 2 ^ 24 = x div 2 ^ 8 div 2 ^ 8 div 2 ^ 8" by (simp_all add: div_mult2_eq [symmetric])
  have "x div 2 ^ 24 mod 2 ^ 8 = x div 2 ^ 24" using assms by (simp add: div_less_iff_less_mult)
  moreover have "z mod 2 ^ 8 + 2 ^ 8 * (z div 2 ^ 8) = z" for z :: nat by (simp add: mult.commute)
  ultimately show ?thesis unfolding d by (simp add: algebra_simps)
qed

lemma fis_lba_command: "fis_lba (command_fis c l h n f) = unat l + 2 ^ 32 * (unat h mod 2 ^ 16)"
proof -
  have b: "unat (ucast x :: u8) = unat x mod 2 ^ 8" for x :: u32 by (simp add: unsigned_ucast_eq take_bit_eq_mod)
  have "unat h mod 2 ^ 8 + 2 ^ 8 * (unat h div 2 ^ 8 mod 2 ^ 8) = unat h mod 2 ^ 16"
    using mod_mult2_eq [of "unat h" "2 ^ 8" "2 ^ 8"] by simp
  moreover have "unat l < 2 ^ 32" by (rule order_less_le_trans [OF unsigned_less]) simp
  note four_bytes [OF this, of "unat h mod 2 ^ 8 + 2 ^ 8 * (unat h div 2 ^ 8 mod 2 ^ 8)"]
  ultimately show ?thesis by (simp add: fis_lba_def command_fis_def b unat_drop)
qed

lemma fill_prdt_eq:
  "fill_prdt n i buf count e = (buf + of_nat (4096 * n), count - of_nat (16 * n),
     (\<lambda>k. if i \<le> k \<and> k < i + n then (e k)\<lparr>dba := buf + of_nat (4096 * (k - i)), dbc := 8192, prdt_i := True\<rparr> else e k))"
proof (induction n arbitrary: i buf count e)
  case (Suc n)
  show ?case unfolding fill_prdt.simps Suc.IH
    by (auto simp: fun_eq_iff algebra_simps Suc_diff_le)
qed (auto simp: fun_eq_iff)

text \<open>The table a command for \<open>c\<close> sectors gets.\<close>

definition command_table :: "bool \<Rightarrow> u32 \<Rightarrow> u32 \<Rightarrow> nat \<Rightarrow> u64 \<Rightarrow> hba_cmd_tbl_t" where
  "command_table w startl starth c buf =
     (let n = (c - 1) div 16 in
      \<lparr>cfis = command_fis (if w then ATA_CMD_WRITE_DMA_EX else ATA_CMD_READ_DMA_EX) startl starth (of_nat (c - 16 * n)) zero_fis,
       prdt_entry = (\<lambda>k. if k < n then \<lparr>dba = buf + of_nat (4096 * k), dbc = 8192, prdt_i = True\<rparr> else zero_prdt)
          (n := \<lparr>dba = buf + of_nat (4096 * n), dbc = of_nat (512 * (c - 16 * n)), prdt_i = True\<rparr>)\<rparr>)"

lemma sectors_left: "1 \<le> (c :: nat) \<Longrightarrow> c - 16 * ((c - 1) div 16) = (c - 1) mod 16 + 1"
  using div_mult_mod_eq [of "c - 1" 16] by linarith

lemma ucast_512: "x \<le> 16 \<Longrightarrow> (ucast (push_bit 9 (of_nat x :: u32)) :: 22 word) = of_nat (512 * x)"
proof -
  assume x: "x \<le> 16"
  have "push_bit 9 (of_nat x :: u32) = of_nat (512 * x)" by (simp add: push_bit_eq_mult)
  moreover have "unat (of_nat (512 * x) :: u32) = 512 * x" using x by (simp only: unat_of_nat) (simp add: take_bit_nat_eq_self)
  ultimately show ?thesis by (metis of_nat_unat)
qed

lemma build_command_ok:
  fixes s :: "'a ahci_scheme" and w :: bool and off hdr buf :: u64 and startl starth :: u32 and c :: nat
  assumes c: "1 \<le> c" "c \<le> 2 ^ 16" and far: "256 + 16 * ((c - 1) div 16) \<le> unat (k2p (kern s) hdr - k2p (kern s) (ctba (header_at s hdr) + off))"
  defines "s' \<equiv> build_command w off hdr startl starth (of_nat c) buf s" and "tp \<equiv> k2p (kern s) (ctba (header_at s hdr) + off)"
    and "n \<equiv> (c - 1) div 16"
  shows "header_at s' hdr = (header_at s hdr)\<lparr>cfl := 5, hdr_w := w, prdtl := of_nat (Suc n)\<rparr>"
    and "tables s' tp = command_table w startl starth c buf"
    and "mem s' = (\<lambda>a. if unat (a - tp) < 256 + 16 * n then 0 else mem s a)"
    and "headers s' = (\<lambda>a. if unat (a - tp) < 256 + 16 * n then zero_header
          else if a = k2p (kern s) hdr then (header_at s hdr)\<lparr>cfl := 5, hdr_w := w, prdtl := of_nat (Suc n)\<rparr> else headers s a)"
    and "kern s' = kern s" "ahci.more s' = ahci.more s" "PORT_BASE s' = PORT_BASE s" "alog s' = alog s"
proof -
  let ?h = "k2p (kern s) hdr"
  define H where "H = (header_at s hdr)\<lparr>cfl := 5, hdr_w := w, prdtl := of_nat (Suc n)\<rparr>"
  have n: "n < 2 ^ 12" using c(2) by (simp add: n_def less_mult_imp_div_less)
  have "(of_nat c :: u32) - 1 = of_nat (c - 1)" using c(1) by (simp add: of_nat_diff)
  moreover have "unat (of_nat (c - 1) :: u32) = c - 1" using c(2) by (simp add: unat_of_nat take_bit_nat_eq_self)
  ultimately have "unat (drop_bit 4 ((of_nat c :: u32) - 1)) = n" by (simp add: unat_drop n_def)
  then have "unat (ucast (drop_bit 4 ((of_nat c :: u32) - 1)) :: u16) = n" using n by (simp add: unsigned_ucast_eq take_bit_nat_eq_self)
  then have "ucast (drop_bit 4 ((of_nat c :: u32) - 1)) + 1 = (of_nat (Suc n) :: u16)"
    by (metis add.commute of_nat_Suc of_nat_unat ucast_id)
  then have s1: "upd_header hdr (\<lambda>c'. c'\<lparr>cfl := of_nat (20 div 4), hdr_w := w, prdtl := ucast (drop_bit 4 (of_nat c - 1 :: u32)) + 1\<rparr>) s =
      s\<lparr>headers := (headers s)(?h := H)\<rparr>"
    by (simp add: upd_header_def H_def add.commute)
  have "unat (of_nat (Suc n) :: u16) = Suc n" using n by (simp only: unat_of_nat) (simp add: take_bit_nat_eq_self)
  then have m: "unat (prdtl H) - Suc 0 = n" by (simp add: H_def)
  have cH: "ctba H = ctba (header_at s hdr)" by (simp add: H_def)
  have k: "of_nat c - 16 * of_nat n = (of_nat (c - 16 * n) :: u32)" using sectors_left [OF c(1)] by (subst of_nat_diff) (auto simp: n_def)
  have lt: "c - 16 * n \<le> 16" using sectors_left [OF c(1)] by (simp add: n_def)
  note b = ucast_512 [OF lt]
  let ?s2 = "memset1 (ctba (header_at s hdr) + off) (256 + n * 16) (s\<lparr>headers := (headers s)(?h := H)\<rparr>)"
  have hit: "\<not> unat (?h - tp) < 256 + n * 16" using far by (simp add: n_def tp_def mult.commute)
  note ct = command_table_def [of w startl starth c buf, folded n_def, unfolded Let_def]
  have far': "unat (tp - tp) < 256 + n * 16" by simp
  have s': "s' = upd_table (ctba (header_at s hdr) + off) (\<lambda>_. command_table w startl starth c buf) ?s2"
    unfolding s'_def build_command_def s1
    by (simp add: m k b memset1_def Let_def fill_prdt_eq upd_table_def ct zero_tbl_def zero_prdt_def cH far' cong: if_cong)
  show "header_at s' hdr = (header_at s hdr)\<lparr>cfl := 5, hdr_w := w, prdtl := of_nat (Suc n)\<rparr>"
    using hit by (simp add: s' upd_table_def memset1_def Let_def tp_def H_def)
  show "tables s' tp = command_table w startl starth c buf" by (simp add: s' upd_table_def memset1_def Let_def tp_def)
  show "mem s' = (\<lambda>a. if unat (a - tp) < 256 + 16 * n then 0 else mem s a)"
    by (simp add: s' upd_table_def memset1_def Let_def tp_def mult.commute cong: if_cong)
  show "headers s' = (\<lambda>a. if unat (a - tp) < 256 + 16 * n then zero_header
          else if a = ?h then (header_at s hdr)\<lparr>cfl := 5, hdr_w := w, prdtl := of_nat (Suc n)\<rparr> else headers s a)"
    unfolding H_def [symmetric] by (simp add: s' upd_table_def memset1_def Let_def tp_def mult.commute fun_upd_def cong: if_cong)
  show "kern s' = kern s" "ahci.more s' = ahci.more s" "PORT_BASE s' = PORT_BASE s" "alog s' = alog s"
    by (simp_all add: s' upd_table_def memset1_def Let_def)
qed


text \<open>
  The contract of the controller, as far as the driver needs it: what a command does when it completes, and how long the slot's bit in
  \<open>ci\<close> stays set. A region of the table covers \<open>dbc + 1\<close> bytes; the number of bytes is what the command asks for.
\<close>

definition region_bytes :: "hba_prdt_entry_t \<Rightarrow> u64 list" where
  "region_bytes e = map (\<lambda>k. dba e + of_nat k) [0..<unat (dbc e) + 1]"

definition transfer_bytes :: "hba_cmd_header_t \<Rightarrow> hba_cmd_tbl_t \<Rightarrow> u64 list" where
  "transfer_bytes c t =
     take (512 * unat (fis_count (cfis t))) (concat (map (\<lambda>k. region_bytes (prdt_entry t k)) [0..<unat (prdtl c)]))"

text \<open>Copying byte by byte in the order of the transfer.\<close>

definition to_memory :: "u64 list \<Rightarrow> nat \<Rightarrow> (nat \<Rightarrow> u8) \<Rightarrow> (u64 \<Rightarrow> u8) \<Rightarrow> u64 \<Rightarrow> u8" where
  "to_memory as b d m = fold (\<lambda>k m. m(as ! k := d (b + k))) [0..<length as] m"

definition to_disk :: "u64 list \<Rightarrow> nat \<Rightarrow> (u64 \<Rightarrow> u8) \<Rightarrow> (nat \<Rightarrow> u8) \<Rightarrow> nat \<Rightarrow> u8" where
  "to_disk as b m d = (\<lambda>x. if b \<le> x \<and> x < b + length as then m (as ! (x - b)) else d x)"

definition completes :: "hba_cmd_header_t \<Rightarrow> hba_cmd_tbl_t \<Rightarrow> (u64 \<Rightarrow> u8) \<times> (nat \<Rightarrow> u8) \<Rightarrow> (u64 \<Rightarrow> u8) \<times> (nat \<Rightarrow> u8) \<Rightarrow> bool" where
  "completes c t = (\<lambda>(m, d) (m', d'). let b = 512 * fis_lba (cfis t); as = transfer_bytes c t in
     (fis_command (cfis t) = ATA_CMD_READ_DMA_EX \<and> \<not> hdr_w c \<longrightarrow> m' = to_memory as b d m \<and> d' = d) \<and>
     (fis_command (cfis t) = ATA_CMD_WRITE_DMA_EX \<and> hdr_w c \<longrightarrow> m' = m \<and> d' = to_disk as b m d))"

definition same_memory :: "'a ahci_scheme \<Rightarrow> 'a ahci_scheme \<Rightarrow> bool" where
  "same_memory s s' \<longleftrightarrow> headers s' = headers s \<and> tables s' = tables s \<and> PORT_BASE s' = PORT_BASE s \<and> kern s' = kern s \<and> alog s' = alog s"

definition idle_port :: "('a ahci_scheme) hba \<Rightarrow> nat \<Rightarrow> u64 \<Rightarrow> ('a \<Rightarrow> nat \<Rightarrow> u8) \<Rightarrow> ('a \<Rightarrow> (nat \<times> nat) option) \<Rightarrow> bool" where
  "idle_port h p base disk job \<longleftrightarrow> (\<forall>s. job (ahci.more s) = None \<longrightarrow>
     reg_read h (ports p clb) s = (base, s) \<and> reg_read h (ports p sact) s = (0, s) \<and> reg_read h (ports p ci) s = (0, s) \<and>
     (\<exists>v. reg_read h (ports p tfd) s = (v, s) \<and> v AND (ATA_STATUS_BSY OR ATA_STATUS_DRQ) = 0) \<and>
     (\<exists>v. reg_read h (ports p is_rwc) s = (v, s) \<and> v AND HBA_PxIS_TFES = 0) \<and>
     (\<forall>v s'. reg_write h (ports p is_rwc) v s = s' \<longrightarrow>
        same_memory s s' \<and> mem s' = mem s \<and> disk (ahci.more s') = disk (ahci.more s) \<and> job (ahci.more s') = None) \<and>
     (\<forall>k s'. k < 32 \<longrightarrow> reg_write h (ports p ci) (push_bit k 1) s = s' \<longrightarrow>
        same_memory s s' \<and> mem s' = mem s \<and> disk (ahci.more s') = disk (ahci.more s) \<and> (\<exists>n. job (ahci.more s') = Some (k, n))))"

definition working_port :: "('a ahci_scheme) hba \<Rightarrow> nat \<Rightarrow> u64 \<Rightarrow> ('a \<Rightarrow> nat \<Rightarrow> u8) \<Rightarrow> ('a \<Rightarrow> (nat \<times> nat) option) \<Rightarrow> bool" where
  "working_port h p base disk job \<longleftrightarrow> (\<forall>s k n v s'. job (ahci.more s) = Some (k, n) \<longrightarrow> k < 32 \<longrightarrow>
     (\<exists>u. reg_read h (ports p is_rwc) s = (u, s) \<and> u AND HBA_PxIS_TFES = 0) \<and>
     (reg_read h (ports p ci) s = (v, s') \<longrightarrow> same_memory s s' \<and>
        (if n = 0
         then \<not> bit v k \<and> job (ahci.more s') = None \<and>
              completes (headers s (base + 32 * of_nat k)) (tables s (ctba (headers s (base + 32 * of_nat k))))
                (mem s, disk (ahci.more s)) (mem s', disk (ahci.more s'))
         else bit v k \<and> job (ahci.more s') = Some (k, n - 1) \<and> mem s' = mem s \<and> disk (ahci.more s') = disk (ahci.more s))))"

lemma working_port_reads:
  assumes "working_port h p base disk job" "job (ahci.more s) = Some (k, n)" "k < 32"
  shows "\<exists>u. reg_read h (ports p is_rwc) s = (u, s) \<and> u AND HBA_PxIS_TFES = 0"
    and "\<exists>v s'. reg_read h (ports p ci) s = (v, s') \<and> same_memory s s' \<and>
        (if n = 0
         then \<not> bit v k \<and> job (ahci.more s') = None \<and>
              completes (headers s (base + 32 * of_nat k)) (tables s (ctba (headers s (base + 32 * of_nat k))))
                (mem s, disk (ahci.more s)) (mem s', disk (ahci.more s'))
         else bit v k \<and> job (ahci.more s') = Some (k, n - 1) \<and> mem s' = mem s \<and> disk (ahci.more s') = disk (ahci.more s))"
proof -
  note w = assms(1) [unfolded working_port_def, rule_format, OF assms(2,3)]
  show "\<exists>u. reg_read h (ports p is_rwc) s = (u, s) \<and> u AND HBA_PxIS_TFES = 0" using w by (rule conjunct1)
  obtain v s' where r: "reg_read h (ports p ci) s = (v, s')" by fastforce
  show "\<exists>v s'. reg_read h (ports p ci) s = (v, s') \<and> same_memory s s' \<and>
        (if n = 0
         then \<not> bit v k \<and> job (ahci.more s') = None \<and>
              completes (headers s (base + 32 * of_nat k)) (tables s (ctba (headers s (base + 32 * of_nat k))))
                (mem s, disk (ahci.more s)) (mem s', disk (ahci.more s'))
         else bit v k \<and> job (ahci.more s') = Some (k, n - 1) \<and> mem s' = mem s \<and> disk (ahci.more s') = disk (ahci.more s))"
    by (intro exI conjI, rule r) (use w [of v s', THEN conjunct2, rule_format, OF r] in simp_all)
qed

lemma wait_done_completes:
  assumes h: "working_port h p base disk job" and j: "job (ahci.more s) = Some (k, n)" and k: "k < 32"
  shows "\<exists>s'. wait_done h p k s = Some (False, s') \<and> same_memory s s' \<and> job (ahci.more s') = None \<and>
    completes (headers s (base + 32 * of_nat k)) (tables s (ctba (headers s (base + 32 * of_nat k))))
      (mem s, disk (ahci.more s)) (mem s', disk (ahci.more s'))"
  using j
proof (induction n arbitrary: s)
  case 0
  then show ?case using working_port_reads(2) [OF h 0 k] by (subst wait_done.simps) (auto simp: and_exp_eq_0_iff_not_bit)
next
  case (Suc n)
  obtain v s1 where r: "reg_read h (ports p ci) s = (v, s1)" "same_memory s s1" "bit v k" "job (ahci.more s1) = Some (k, n)" "mem s1 = mem s"
    "disk (ahci.more s1) = disk (ahci.more s)"
    using working_port_reads(2) [OF h Suc.prems k] by auto
  obtain u where u: "reg_read h (ports p is_rwc) s1 = (u, s1)" "u AND HBA_PxIS_TFES = 0"
    using working_port_reads(1) [OF h r(4) k] by blast
  have "wait_done h p k s = wait_done h p k s1" by (subst wait_done.simps) (simp add: r u and_exp_eq_0_iff_not_bit)
  with Suc.IH [OF r(4)] r(2,5,6) show ?case by (simp add: same_memory_def)
qed


lemma idle_portD:
  assumes "idle_port h p base disk job" "job (ahci.more s) = None"
  shows "reg_read h (ports p clb) s = (base, s)" "reg_read h (ports p sact) s = (0, s)" "reg_read h (ports p ci) s = (0, s)"
    and "\<exists>v. reg_read h (ports p tfd) s = (v, s) \<and> v AND (ATA_STATUS_BSY OR ATA_STATUS_DRQ) = 0"
    and "\<exists>v. reg_read h (ports p is_rwc) s = (v, s) \<and> v AND HBA_PxIS_TFES = 0"
    and "same_memory s (reg_write h (ports p is_rwc) v s)" "mem (reg_write h (ports p is_rwc) v s) = mem s"
    and "disk (ahci.more (reg_write h (ports p is_rwc) v s)) = disk (ahci.more s)" "job (ahci.more (reg_write h (ports p is_rwc) v s)) = None"
    and "k < 32 \<Longrightarrow> same_memory s (reg_write h (ports p ci) (push_bit k 1) s)" "k < 32 \<Longrightarrow> mem (reg_write h (ports p ci) (push_bit k 1) s) = mem s"
    and "k < 32 \<Longrightarrow> disk (ahci.more (reg_write h (ports p ci) (push_bit k 1) s)) = disk (ahci.more s)"
    and "k < 32 \<Longrightarrow> \<exists>n. job (ahci.more (reg_write h (ports p ci) (push_bit k 1) s)) = Some (k, n)"
  using assms(1) [unfolded idle_port_def, rule_format, OF assms(2)] by simp_all

definition command_done :: "u64 \<Rightarrow> ('a \<Rightarrow> nat \<Rightarrow> u8) \<Rightarrow> ('a \<Rightarrow> (nat \<times> nat) option) \<Rightarrow> nat \<Rightarrow> 'a ahci_scheme \<Rightarrow> 'a ahci_scheme \<Rightarrow> bool" where
  "command_done base disk job k s s' \<longleftrightarrow> same_memory s s' \<and> job (ahci.more s') = None \<and>
    completes (headers s (base + 32 * of_nat k)) (tables s (ctba (headers s (base + 32 * of_nat k))))
      (mem s, disk (ahci.more s)) (mem s', disk (ahci.more s'))"

lemma run_command_ok:
  assumes h: "idle_port h p base disk job" "working_port h p base disk job" and j: "job (ahci.more s) = None" and k: "k < 32"
  shows "\<exists>s'. run_command h p name k s = Some (1, s') \<and> command_done base disk job k s s'"
proof -
  note i = idle_portD [OF h(1) j]
  obtain v where v: "reg_read h (ports p tfd) s = (v, s)" "v AND (ATA_STATUS_BSY OR ATA_STATUS_DRQ) = 0" using i(4) by blast
  have b: "spin_busy h (ports p tfd) 1000000 s = (1000000, s)"
    unfolding eval_nat_numeral(3) [of "num.Bit0 num.One"] using v spin_busy.simps(2) [of h "ports p tfd" 999999 s] by simp
  let ?s1 = "reg_write h (ports p ci) (push_bit k 1) s"
  obtain n where "job (ahci.more ?s1) = Some (k, n)" using i(13) [OF k] by blast
  from wait_done_completes [OF h(2) this k] obtain s' where s': "wait_done h p k ?s1 = Some (False, s')" "command_done base disk job k ?s1 s'"
    unfolding command_done_def by blast
  then have d: "command_done base disk job k s s'" using i(10-12) [OF k] by (simp add: command_done_def same_memory_def)
  then obtain u where "reg_read h (ports p is_rwc) s' = (u, s')" "u AND HBA_PxIS_TFES = 0"
    using idle_portD(5) [OF h(1), of s'] by (auto simp: command_done_def)
  then have "run_command h p name k s = Some (1, s')" using s'(1) b by (simp add: run_command_def)
  with d show ?thesis by blast
qed


lemma find_cmdslot_idle:
  assumes "idle_port h p base disk job" "job (ahci.more s) = None"
  shows "find_cmdslot h p s = (0, s)"
proof -
  have "free_slot 32 0 0 = 0" by (simp add: eval_nat_numeral)
  then show ?thesis using idle_portD(2,3) [OF assms] by (simp add: find_cmdslot_def)
qed

text \<open>What a command for up to 16 sectors does on an idle port. The driver's structures lie below 2 GB, and the table does not cover the header.\<close>

definition port_memory :: "u64 \<Rightarrow> 'a ahci_scheme \<Rightarrow> bool" where
  "port_memory base s \<longleftrightarrow> kern s = KERNBASE \<and> unat base < 2 ^ 31 \<and> unat (ctba (headers s base)) < 2 ^ 31 \<and>
     256 \<le> unat (base - ctba (headers s base))"

lemma disk_command:
  fixes s :: "'a ahci_scheme" and c :: nat
  assumes h: "idle_port h p base disk job" "working_port h p base disk job" and j: "job (ahci.more s) = None"
    and c: "1 \<le> c" "c \<le> 16" and m: "port_memory base s"
  shows "\<exists>s'. (if w then disk_write else disk_read) h p l hi (of_nat c) buf s = Some (1, s') \<and> job (ahci.more s') = None \<and>
    headers s' base = (headers s base)\<lparr>cfl := 5, hdr_w := w, prdtl := 1\<rparr> \<and> kern s' = kern s \<and> alog s' = alog s \<and>
    completes ((headers s base)\<lparr>cfl := 5, hdr_w := w, prdtl := 1\<rparr>) (command_table w l hi c buf)
      (\<lambda>a. if unat (a - ctba (headers s base)) < 256 then 0 else mem s a, disk (ahci.more s)) (mem s', disk (ahci.more s'))"
proof -
  let ?s1 = "reg_write h (ports p is_rwc) 0xFFFFFFFF s"
  note i = idle_portD [OF h(1) j]
  have s1: "job (ahci.more ?s1) = None" "same_memory s ?s1" "mem ?s1 = mem s" "disk (ahci.more ?s1) = disk (ahci.more s)"
    using i(6-9) by blast+
  note i1 = idle_portD [OF h(1) s1(1)]
  let ?off = "if w then KERNBASE else 0" and ?t = "ctba (headers s base)"
  let ?s2 = "build_command w ?off (base + ?off) l hi (of_nat c) buf ?s1"
  have kb: "kern ?s1 = KERNBASE" "headers ?s1 = headers s" using s1(2) m by (auto simp: same_memory_def port_memory_def)
  have k2p: "k2p (kern ?s1) (base + ?off) = base" "k2p (kern ?s1) (?t + ?off) = ?t"
    using m k2p_direct by (auto simp: port_memory_def kb(1))
  have n: "(c - 1) div 16 = 0" using c by simp
  have c16: "c \<le> 2 ^ 16" using c by simp
  have "256 + 16 * ((c - 1) div 16) \<le> unat (k2p (kern ?s1) (base + ?off) - k2p (kern ?s1) (ctba (header_at ?s1 (base + ?off)) + ?off))"
    using m unfolding n k2p(1) kb(2) k2p(2) by (simp add: port_memory_def)
  note b = build_command_ok [OF c(1) c16 this, of w l hi buf, unfolded k2p(1) kb(2) k2p(2) n]
  have j2: "job (ahci.more ?s2) = None" using b(6) s1(1) by simp
  obtain s' where s': "run_command h p (if w then ''Write'' else ''Read'') 0 ?s2 = Some (1, s')" "command_done base disk job 0 ?s2 s'"
    using run_command_ok [OF h j2, of 0] by auto
  have "(if w then disk_write else disk_read) h p l hi (of_nat c) buf s = Some (1, s')"
    using s'(1) find_cmdslot_idle [OF h(1) s1(1)] i1(1) kb(1) by (simp add: disk_write_def disk_read_def split: if_splits)
  moreover have H: "headers ?s2 base = (headers s base)\<lparr>cfl := 5, hdr_w := w, prdtl := 1\<rparr>"
    using m unfolding b(4) by (simp add: port_memory_def)
  moreover have M: "mem ?s2 = (\<lambda>a. if unat (a - ctba (headers s base)) < 256 then 0 else mem s a)" unfolding b(3) s1(3) by simp
  moreover have "headers s' = headers ?s2" "kern s' = kern ?s2" "alog s' = alog ?s2" "job (ahci.more s') = None"
    using s'(2) by (auto simp: command_done_def same_memory_def)
  moreover have "kern ?s2 = kern s" "alog ?s2 = alog s" using b(5,8) s1(2) by (auto simp: same_memory_def)
  moreover have "disk (ahci.more ?s2) = disk (ahci.more s)" using b(6) s1(4) by simp
  moreover have "completes (headers ?s2 base) (tables ?s2 (ctba (headers ?s2 base))) (mem ?s2, disk (ahci.more ?s2)) (mem s', disk (ahci.more s'))"
    using s'(2) by (simp add: command_done_def)
  moreover have "tables ?s2 (ctba (headers ?s2 base)) = command_table w l hi c buf" unfolding H using b(2) by simp
  ultimately show ?thesis by (intro exI [of _ s']) simp
qed


text \<open>The table and the bytes of such a command.\<close>

definition command_lba :: "u32 \<Rightarrow> u32 \<Rightarrow> nat" where
  "command_lba l hi = unat l + 2 ^ 32 * (unat hi mod 2 ^ 16)"

lemma command_table_one:
  assumes "1 \<le> c" "c \<le> 16"
  shows "command_table w l hi c buf =
    \<lparr>cfis = command_fis (if w then ATA_CMD_WRITE_DMA_EX else ATA_CMD_READ_DMA_EX) l hi (of_nat c) zero_fis,
     prdt_entry = (\<lambda>_. zero_prdt)(0 := \<lparr>dba = buf, dbc = of_nat (512 * c), prdt_i = True\<rparr>)\<rparr>"
proof -
  have "(c - 1) div 16 = 0" using assms by simp
  then show ?thesis unfolding command_table_def Let_def by simp
qed

lemma transfer_bytes_command:
  assumes c: "1 \<le> c" "c \<le> 16" and p: "prdtl H = 1"
  shows "transfer_bytes H (command_table w l hi c buf) = map (\<lambda>k. buf + of_nat k) [0..<512 * c]"
proof -
  have "unat (of_nat (512 * c) :: 22 word) = 512 * c" using c by (simp only: unat_of_nat) (simp add: take_bit_nat_eq_self)
  moreover have "unat (ucast (of_nat c :: u32) :: u16) = c" using c by (simp add: unsigned_ucast_eq unat_of_nat take_bit_nat_eq_self)
  ultimately show ?thesis
    by (simp add: transfer_bytes_def p region_bytes_def command_table_one [OF c] command_fis_def take_map take_upt del: of_nat_mult)
qed

lemma completes_command:
  fixes as :: "u64 list" and c :: nat
  assumes c: "1 \<le> c" "c \<le> 16" and "prdtl H = 1" "hdr_w H = w" and r: "completes H (command_table w l hi c buf) (m, d) (m', d')"
  defines "as \<equiv> map (\<lambda>k. buf + of_nat k) [0..<512 * c]" and "b \<equiv> 512 * command_lba l hi"
  shows "w \<Longrightarrow> m' = m \<and> d' = to_disk as b m d" "\<not> w \<Longrightarrow> m' = to_memory as b d m \<and> d' = d"
proof -
  have "fis_lba (cfis (command_table w l hi c buf)) = command_lba l hi"
    unfolding command_table_one [OF c] by (simp add: fis_lba_command command_lba_def)
  moreover have "fis_command (cfis (command_table w l hi c buf)) = (if w then ATA_CMD_WRITE_DMA_EX else ATA_CMD_READ_DMA_EX)"
    unfolding command_table_one [OF c] by (simp add: command_fis_def)
  ultimately have "completes H (command_table w l hi c buf) (m, d) (m', d') \<longleftrightarrow>
      (if w then m' = m \<and> d' = to_disk as b m d else m' = to_memory as b d m \<and> d' = d)"
    using assms(4) unfolding completes_def by (simp add: Let_def transfer_bytes_command [OF c assms(3)] as_def b_def)
  with r show "w \<Longrightarrow> m' = m \<and> d' = to_disk as b m d" "\<not> w \<Longrightarrow> m' = to_memory as b d m \<and> d' = d" by simp_all
qed

text \<open>
  A command for more than 16 sectors transfers only its last group: \<open>count\<close> is counted down while the regions are filled, and what is left of
  it is what the command asks for.
\<close>

lemma long_command_is_short:
  assumes "1 \<le> c" "c \<le> 2 ^ 16" and p: "prdtl H = of_nat (Suc ((c - 1) div 16))"
  shows "length (transfer_bytes H (command_table w l hi c buf)) = 512 * ((c - 1) mod 16 + 1)"
proof -
  define n where "n = (c - 1) div 16"
  define r where "r = (c - 1) mod 16 + 1"
  have r: "c - 16 * n = r" "r \<le> 16" using sectors_left [OF assms(1)] by (simp_all add: n_def r_def)
  have "n < 2 ^ 12" using assms(2) by (simp add: n_def less_mult_imp_div_less)
  then have n: "unat (prdtl H) = Suc n" unfolding p n_def [symmetric] by (simp only: unat_of_nat) (simp add: take_bit_nat_eq_self)
  note ct = command_table_def [of w l hi c buf, folded n_def, unfolded Let_def r]
  have "unat (of_nat (512 * r) :: 22 word) = 512 * r" using r(2) by (simp only: unat_of_nat) (simp add: take_bit_nat_eq_self)
  then have "length (region_bytes (prdt_entry (command_table w l hi c buf) n)) = 512 * r + 1"
    unfolding ct region_bytes_def by (simp del: of_nat_mult)
  moreover have "unat (fis_count (cfis (command_table w l hi c buf))) = r"
    unfolding ct using r(2) by (simp add: command_fis_def unsigned_ucast_eq unat_of_nat take_bit_nat_eq_self)
  ultimately show ?thesis unfolding r_def [symmetric] by (simp add: transfer_bytes_def n min_def) arith
qed

lemma to_memory_nth:
  assumes "distinct as" "k < length as"
  shows "to_memory as b d m (as ! k) = d (b + k)"
proof -
  have "fold (\<lambda>k m. m(as ! k := d (b + k))) [0..<n] m (as ! k) = (if k < n then d (b + k) else m (as ! k))" if "n \<le> length as" for n
    using that
  proof (induction n)
    case (Suc n)
    then show ?case using nth_eq_iff_index_eq [OF assms(1), of n k] assms(2) by auto
  qed simp
  then show ?thesis using assms(2) by (simp add: to_memory_def)
qed

lemma distinct_offsets: "n \<le> 2 ^ 64 \<Longrightarrow> distinct (map (\<lambda>k. (buf :: u64) + of_nat k) [0..<n])"
  unfolding distinct_map inj_on_def
proof (intro conjI ballI impI)
  fix i j assume "n \<le> 2 ^ 64" "i \<in> set [0..<n]" "j \<in> set [0..<n]" and e: "buf + of_nat i = buf + of_nat j"
  then have "i < 2 ^ LENGTH(64)" "j < 2 ^ LENGTH(64)" by simp_all
  then have "unat (of_nat i :: u64) = i" "unat (of_nat j :: u64) = j" by (simp_all only: unat_of_nat mod_less)
  with e show "i = j" by (metis add_left_imp_eq)
qed simp

text \<open>C13: what is written to the disk is what is read back: on an idle port that follows its contract, \<open>write\<close> of 1 to 16 sectors from a buffer followed by \<open>read\<close> of the same sectors into any other buffer both return 1, and the second buffer then holds the bytes of the first.\<close>

theorem disk_round_trip:
  fixes s :: "'a ahci_scheme" and c :: nat
  assumes h: "idle_port h p base disk job" "working_port h p base disk job" and j: "job (ahci.more s) = None"
    and c: "1 \<le> c" "c \<le> 16" and m: "port_memory base s"
    and buf: "\<And>k. k < 512 * c \<Longrightarrow> 256 \<le> unat (buf + of_nat k - ctba (headers s base))"
  shows "\<exists>s1 s2. disk_write h p l hi (of_nat c) buf s = Some (1, s1) \<and> disk_read h p l hi (of_nat c) buf2 s1 = Some (1, s2) \<and>
    (\<forall>k<512 * c. mem s2 (buf2 + of_nat k) = mem s (buf + of_nat k)) \<and> alog s2 = alog s"
proof -
  let ?W = "(headers s base)\<lparr>cfl := 5, hdr_w := True, prdtl := 1\<rparr>" and ?as = "\<lambda>a. map (\<lambda>k. a + of_nat k) [0..<512 * c]"
  obtain s1 where s1: "disk_write h p l hi (of_nat c) buf s = Some (1, s1)" "job (ahci.more s1) = None" "headers s1 base = ?W" "kern s1 = kern s"
    "alog s1 = alog s" "completes ?W (command_table True l hi c buf) (\<lambda>a. if unat (a - ctba (headers s base)) < 256 then 0 else mem s a, disk (ahci.more s))
      (mem s1, disk (ahci.more s1))"
    using disk_command [OF h j c m, of True l hi buf] by auto
  have m1: "port_memory base s1" using m s1(3,4) by (simp add: port_memory_def)
  let ?R = "(headers s1 base)\<lparr>cfl := 5, hdr_w := False, prdtl := 1\<rparr>"
  obtain s2 where s2: "disk_read h p l hi (of_nat c) buf2 s1 = Some (1, s2)" "alog s2 = alog s1"
    "completes ?R (command_table False l hi c buf2) (\<lambda>a. if unat (a - ctba (headers s1 base)) < 256 then 0 else mem s1 a, disk (ahci.more s1))
      (mem s2, disk (ahci.more s2))"
    using disk_command [OF h s1(2) c m1, of False l hi buf2] by auto
  let ?b = "512 * command_lba l hi"
  have d: "disk (ahci.more s1) (?b + k) = mem s (buf + of_nat k)" if k: "k < 512 * c" for k
    using completes_command(1) [OF c _ _ s1(6)] buf [OF k] k by (simp add: to_disk_def)
  have "mem s2 (buf2 + of_nat k) = mem s (buf + of_nat k)" if k: "k < 512 * c" for k
  proof -
    have "mem s2 (?as buf2 ! k) = disk (ahci.more s1) (?b + k)"
      using completes_command(2) [OF c _ _ s2(3)] to_memory_nth [OF distinct_offsets, of "512 * c" k buf2] k c by simp
    then show ?thesis using d [OF k] k by simp
  qed
  with s1(1) s2(1,2) s1(5) show ?thesis by auto
qed


text \<open>A controller that meets the contract: it answers three polls before it completes a command.\<close>

type_synonym demo_disk = "(nat \<Rightarrow> u8) \<times> (nat \<times> nat) option"

definition demo_more :: "(u64 \<Rightarrow> u8) \<Rightarrow> demo_disk \<Rightarrow> demo_disk ahci_scheme \<Rightarrow> demo_disk ahci_scheme" where
  "demo_more m x s = \<lparr>headers = headers s, tables = tables s, mem = m, PORT_BASE = PORT_BASE s, kern = kern s, alog = alog s, \<dots> = x\<rparr>"

definition demo_complete :: "nat \<Rightarrow> demo_disk ahci_scheme \<Rightarrow> demo_disk ahci_scheme" where
  "demo_complete k s = (let c = headers s (0x1000 + 32 * of_nat k); t = tables s (ctba c); d = fst (ahci.more s);
      b = 512 * fis_lba (cfis t); as = transfer_bytes c t
    in if fis_command (cfis t) = ATA_CMD_READ_DMA_EX then demo_more (to_memory as b d (mem s)) (d, None) s
       else demo_more (mem s) (to_disk as b (mem s) d, None) s)"

definition demo_hba :: "(demo_disk ahci_scheme) hba" where
  "demo_hba = \<lparr>reg_read = (\<lambda>r s. case r of
       ports p clb \<Rightarrow> (0x1000, s)
     | ports p ci \<Rightarrow> (case snd (ahci.more s) of None \<Rightarrow> (0, s)
         | Some (k, n) \<Rightarrow> if n = 0 then (0, demo_complete k s) else (push_bit k 1, demo_more (mem s) (fst (ahci.more s), Some (k, n - 1)) s))
     | _ \<Rightarrow> (0, s)),
     reg_write = (\<lambda>r v s. case r of
       ports p ci \<Rightarrow> (case List.find (bit v) [0..<32] of None \<Rightarrow> s | Some k \<Rightarrow> demo_more (mem s) (fst (ahci.more s), Some (k, 3)) s)
     | _ \<Rightarrow> s)\<rparr>"

lemma demo_more_sel [simp]:
  "headers (demo_more m x s) = headers s" "tables (demo_more m x s) = tables s" "mem (demo_more m x s) = m" "PORT_BASE (demo_more m x s) = PORT_BASE s"
  "kern (demo_more m x s) = kern s" "alog (demo_more m x s) = alog s" "ahci.more (demo_more m x s) = x"
  by (simp_all add: demo_more_def)

lemma find_one_bit: "k < 32 \<Longrightarrow> List.find (bit (push_bit k 1 :: u64)) [0..<32] = Some k"
  unfolding find_Some_iff by (intro exI [of _ k]) (auto simp: bit_push_bit_iff bit_exp_iff)

lemma demo_idle: "idle_port demo_hba p 0x1000 fst snd"
  unfolding idle_port_def by (auto simp: demo_hba_def same_memory_def find_one_bit simp del: push_bit_of_1)

lemma demo_working: "working_port demo_hba p 0x1000 fst snd"
  unfolding working_port_def
  by (auto simp: demo_hba_def same_memory_def demo_complete_def completes_def Let_def bit_exp_iff)

definition demo_ahci :: "demo_disk ahci_scheme" where
  "demo_ahci = \<lparr>headers = (\<lambda>_. zero_header\<lparr>ctba := 0x2000\<rparr>), tables = (\<lambda>_. zero_tbl), mem = (\<lambda>a. ucast a), PORT_BASE = 0x1000,
     kern = KERNBASE, alog = [], \<dots> = ((\<lambda>_. 0), None)\<rparr>"

theorem disk_round_trip_witness:
  "\<exists>s1 s2. disk_write demo_hba 0 5 0 (of_nat 2) 0x8000 demo_ahci = Some (1, s1) \<and> disk_read demo_hba 0 5 0 (of_nat 2) 0x9000 s1 = Some (1, s2) \<and>
    (\<forall>k<512 * 2. mem s2 (0x9000 + of_nat k) = mem demo_ahci (0x8000 + of_nat k)) \<and> alog s2 = alog demo_ahci"
proof (rule disk_round_trip [OF demo_idle demo_working])
  fix k :: nat assume k: "k < 512 * 2"
  have "(0x8000 + of_nat k - 0x2000 :: u64) = of_nat (0x6000 + k)" by simp
  then show "256 \<le> unat (0x8000 + of_nat k - ctba (headers demo_ahci 0x1000))"
    using k by (simp add: demo_ahci_def unat_of_nat take_bit_nat_eq_self del: of_nat_add)
qed (simp_all add: demo_ahci_def port_memory_def)

end
