(* ===== verification/Spec2Isabelle.thy ===== *)
theory Spec2Isabelle
  imports System Setup Programs Sbush Ahci
begin

text \<open>
  \<^bold>\<open>SBUNIX: the kernel, its library and its programs.\<close>

  SBUNIX is a 64-bit teaching kernel for one CPU. The loader starts \<open>boot\<close> (\<open>sys/main.c\<close>), which sets up descriptor tables and devices, gives
  the free memory to a bitmap of frames, builds the kernel's page tables and enters the first program. From then on the kernel runs on
  interrupts, page faults and system calls, on behalf of the tasks of one circular run queue. Programs and their files come from a tar archive
  that the linker puts into the kernel's image. This development translates the C code of the kernel (\<open>sys/\<close>), of the library (\<open>libc/\<close>,
  \<open>crt/\<close>) and of the programs (\<open>bin/\<close>) to functions on explicit states, and proves what the components promise. Definitions have the names
  of the functions they translate; loop bodies and inlined parts have names of their own and say so.

  \<^bold>\<open>The theories, bottom up.\<close>

  \<^item> \<open>Prelude\<close>: machine types, walks along pointers (\<open>chase\<close>, \<open>for_ptrs\<close>, \<open>for_pages\<close>), rings and lists of pointers, the collections of
    simplification rules.
  \<^item> \<open>PhyMem\<close> (\<open>sys/phyMemMapper.c\<close>, part of \<open>start\<close>): the bitmap of frames. The abstract state is the set of free frames; \<open>frame_allocator\<close>
    is its contract, met by the two functions that scan and mark the bitmap.
  \<^item> \<open>VirtMem\<close>, \<open>PageTree\<close>, \<open>PageMap\<close> (\<open>sys/virtualMemory.c\<close>, the walks of \<open>sys/task.c\<close>): the code; page tables as a tree in physical memory;
    what mapping and marking a page does to the translation of all pages.
  \<^item> \<open>Console\<close> (\<open>sys/kprintf.c\<close>): the text screen, \<open>kprintf\<close> and the status bars.
  \<^item> \<open>Kernel\<close> (\<open>include/sys/task.h\<close>, \<open>sys/task.s\<close>, part of \<open>sys/gdt.c\<close>): tasks, areas, registers, the state of the kernel, entering a task.
  \<^item> \<open>TaskQueue\<close>, \<open>Vma\<close>, \<open>Fork\<close>, \<open>ForkOk\<close> (\<open>sys/task.c\<close>): the two queues and the round robin (contract \<open>round_robin\<close>), memory areas, \<open>fork\<close>,
    \<open>exit\<close> and \<open>kill\<close>, and the proof that \<open>fork\<close> gives a complete child.
  \<^item> \<open>Fault\<close>, \<open>Input\<close>, \<open>Irq\<close> (\<open>sys/idt.c\<close>, \<open>include/sys/keyboard.h\<close>): page faults, the buffer of the terminal (contract \<open>line_buffer\<close>), the
    keyboard, the timer, the clock, exceptions and the table of gates.
  \<^item> \<open>Steps\<close>: interrupts, exceptions and page faults as steps of a transition system, and the invariant of the queues.
  \<^item> \<open>Paths\<close>, \<open>Tar\<close>, \<open>Env\<close>, \<open>Files\<close>, \<open>Dirs\<close> (\<open>sys/tarfs.c\<close>): names, the archive as a list of entries, the environment (contract \<open>env_store\<close>),
    descriptors (contract \<open>reader\<close>), directories (contract \<open>lister\<close>).
  \<^item> \<open>UserMem\<close>, \<open>Loader\<close>, \<open>Args\<close>, \<open>Exec\<close> (\<open>sys/tarfs.c\<close>, \<open>sys/task.c\<close>, \<open>include/sys/elf64.h\<close>, \<open>crt/crt1.c\<close>): the bytes of a program in the
    frames of its pages, loading ELF files, passing arguments, threads, \<open>exec\<close> and the first program.
  \<^item> \<open>Syscall\<close> (\<open>sys/syscall.c\<close>, \<open>sys/syscall.s\<close>): the entry of system calls and the dispatch to all of the above.
  \<^item> \<open>System\<close>: the steps of \<open>Steps\<close> and the system calls as one transition system (all calls but \<open>fork\<close>, \<open>exec\<close>, \<open>malloc\<close> and \<open>readdir\<close>).
  \<^item> \<open>Setup\<close> (\<open>sys/main.c\<close>, \<open>sys/pic.c\<close>, \<open>sys/pit.c\<close>, \<open>sys/rtc.c\<close>, \<open>sys/gdt.c\<close>, \<open>sys/pci.c\<close>): the memory map of the loader, devices, tables, the PCI
    bus, \<open>start\<close> and \<open>boot\<close>.
  \<^item> \<open>Ahci\<close> (\<open>sys/ahci.c\<close>, \<open>include/sys/ahci.h\<close>): the disk driver.
  \<^item> \<open>Libc\<close>, \<open>Programs\<close>, \<open>Sbush\<close> (\<open>libc/\<close>, \<open>bin/\<close>): the library over the system calls, the small programs, the shell.

  \<^bold>\<open>How state is represented.\<close> Records extend each other in the order of the components: \<open>phys\<close> (bitmap, words of physical memory), \<open>vm\<close>
  (root tables, kernel base), \<open>kernel\<close> (tasks, queues, output, ports), \<open>machine\<close> (screen and clock), \<open>fs\<close> (archive, descriptors),
  \<open>dirfs\<close> and \<open>pci\<close>; operations work on every extension of the record they need. Page tables are words of physical memory at their
  addresses. Task, area, descriptor and directory structures and those of the disk controller are kept in typed maps from
  addresses, so a pointer of one type never changes an object of another; \<open>bytes\<close> is the memory of characters that programs and
  the archive share with the kernel. \<open>kprintf\<close> inside the kernel records its format and arguments in order; \<open>Console\<close> says what each
  of them does to the screen. Integers have their width: \<open>u64\<close>, \<open>i32\<close> and so on are words, signed ones read by \<open>sint\<close>. A function that
  can run forever, or step outside an array in a way C leaves undefined, returns an option: \<^term>\<open>None\<close> stands for that. In particular a path or one of its parts that is longer than its array on the stack (256
  or 512 characters, part 256), a name in the environment of 256 characters or more and a new page of the environment without a free frame have no value, and
  neither have \<open>free\<close> of an area and \<open>exec\<close> of a missing command, which set a bit outside the bitmap (\<open>free_out_of_bounds\<close>,
  \<open>exec_not_found\<close>). The other callers of the bitmap functions pass the addresses of frames; rows of a memory above 256 MB, which
  \<open>start\<close> marks when there is such memory, are rows behind the array in the model. The entry into a task restores all registers but \<open>rsi\<close>, which
  keeps the address of the task's registers, as in \<open>sys/task.s\<close>. A handler that does not return to its caller says by a value of \<open>ctl\<close> how it ends. A theorem that the
  code comes back states that the result is \<^term>\<open>Some\<close> value.

  \<^bold>\<open>What the lemmas show\<close>, by group:

  \<^item> memory: the allocator refines choosing the least free frame, allocations are distinct, boot frees no frame in use; mapping a page gives
    exactly its translation and leaves the others and other address spaces alone; first touch and copy-on-write give fresh frames with
    zeros or a copy; a bad access ends its process;
  \<^item> tasks: the round robin visits every task, a switch saves and enters the right state, \<open>fork\<close>, \<open>exec\<close>, \<open>exit\<close> and \<open>kill\<close> do
    to the queues what they should, the invariant of the queues holds in every state reachable by interrupts and system calls (but the four named above), handlers end;
  \<^item> time and terminal: the timer's count refines a number of seconds, sleeping tasks wake in time, a typed line is read back, formatted
    output stays on the screen;
  \<^item> files: the path resolution equals a walk, the search of the archive a look-up, the environment a map, descriptors a table of names and
    positions; reading and listing deliver contents and names in order;
  \<^item> programs: a loaded program finds its bytes, its arguments and its variables; the shell reads and cuts what is typed and waits for its child;
    \<open>echo\<close> prints its arguments;
  \<^item> devices: interrupt lines lead to their handlers; a sector written is read back. The theories hold further theorems of the same kind that
    are not repeated here (memory map, descriptor of the task state, search of the bus, closing of files, working directory).

  \<^bold>\<open>Bounds and fuel.\<close> They are hypotheses where the source has no check. The screen counts fewer than \<open>2^31\<close> lines. The input page holds 4095
  characters (the theorems about typed lines hold until it has been filled once), command lines 1999 characters and fewer than 32 words. Names of files have at most 254 characters, paths fewer than 256 (for a command 512) with parts
  of fewer than 256 characters, a directory of PATH with the command at most 510, names of the environment fewer than 256, its entries fit a page. An executable has at most 100 loadable segments, \<open>2^20\<close> pages each, that do not overlap; arguments and
  variables have fewer than 512 characters, there are at most 32 variables (with more, \<open>exec\<close> fills no slot, see \<open>Args\<close>), the name of the program
  has fewer than 15. Disk commands cover at most 16 sectors (a longer one sends only its last group, see \<open>long_command_is_short\<close>). No function
  carries artificial fuel: recursion is structural, by a measure, or \<open>partial_function\<close>; where a count appears as an argument (segments,
  rows, sectors, characters to read) it is the loop bound of the source.

  \<^bold>\<open>Parameters.\<close> What is not code of the repository is an argument: registers and configuration space of devices, the registers of the disk controller
  with its contract \<open>working_port\<close>, the addresses the linker gives, the contents of uninitialised local arrays (\<open>stk\<close>), the places of the
  programs' literals and local variables (\<open>lit\<close>, \<open>place\<close>, \<open>cp\<close>), and, for programs, the kernel \<open>K\<close>, which the theorems instantiate with
  \<open>kernel_call\<close>, the model of this kernel.

  \<^bold>\<open>Not modelled.\<close> The assembly stubs of \<open>sys/idt.s\<close> (they save and restore registers; the handlers take them as state) and the two
  instructions of \<open>sys/gdt.s\<close>; the interrupt flag: interrupts happen between the steps of the transition system, not within a handler,
  which is how the kernel runs with the flag off; the translation cache; the change of stack in \<open>boot\<close> and the halt behind it;
  \<open>libc/printf.c\<close>, \<open>libc/env.c\<close> and the \<open>printf\<close> of \<open>libc/stdio.c\<close>, which are commented out; \<open>remove_2slashes\<close> of the kernel and \<open>strcpy\<close>,
  \<open>strcat\<close> of the shell, which are never called; headers of prototypes and constants, whose constants stand where they are used; the
  build files and the boot loader in \<open>rootfs\<close>. A page fault of the kernel inside a handler and overlapping arguments of copies are outside the
  hypotheses of the theorems.
\<close>

end
